(* ===== verification/Prelude.thy ===== *)
theory Prelude
  imports Main "HOL-Library.Sublist"
begin

text \<open>
  What every theory of the development shares: the JavaScript values that errors are made
  of, decimal printing, the fact collections, generic list and map lemmas, and the two
  interfaces every stateful component is an instance of (\<open>step_system\<close>: a step function with
  an invariant; \<open>idle_registry\<close> lives in the theory Registry).

  JavaScript conventions. A \<open>number\<close> that the code only counts with is a \<open>nat\<close>; a clock
  value or a caller-supplied number is an \<open>int\<close>. \<open>null\<close> and \<open>undefined\<close> are \<open>None\<close> of an
  option or \<open>JsUndefined\<close>. An object that the code mutates and compares by identity is an
  entry of an explicit store, and its reference is a \<open>nat\<close>.
\<close>

section \<open>Fact collections\<close>

named_theorems gate_defs \<open>definitions unfolded in the proofs about the gates\<close>
named_theorems step_facts \<open>one-step facts of the modelled operations\<close>

section \<open>Values and errors\<close>

text \<open>
  The values a promise can be rejected with: \<open>undefined\<close>, a primitive, a plain object, or an
  \<open>Error\<close> with its name, message and own properties (\<open>code\<close>, \<open>key\<close>, \<open>label\<close>, \<open>reason\<close>,
  \<open>cleanupError\<close>).
\<close>

datatype js_value =
    JsUndefined
  | JsPrim string
  | JsObject "(string \<times> js_value) list"
  | JsError string string "(string \<times> js_value) list"

fun js_is_object :: "js_value \<Rightarrow> bool" where
  "js_is_object (JsObject _) = True"
| "js_is_object (JsError _ _ _) = True"
| "js_is_object _ = False"

text \<open>Assignment \<open>v.p = x\<close> on an object; anything else is left alone (the code guards it).\<close>

fun js_set :: "string \<Rightarrow> js_value \<Rightarrow> js_value \<Rightarrow> js_value" where
  "js_set p x (JsObject ps) = JsObject (filter (\<lambda>kv. fst kv \<noteq> p) ps @ [(p, x)])"
| "js_set p x (JsError n m ps) = JsError n m (filter (\<lambda>kv. fst kv \<noteq> p) ps @ [(p, x)])"
| "js_set p x v = v"

fun js_props :: "js_value \<Rightarrow> (string \<times> js_value) list" where
  "js_props (JsObject ps) = ps"
| "js_props (JsError _ _ ps) = ps"
| "js_props _ = []"

definition js_get :: "js_value \<Rightarrow> string \<Rightarrow> js_value option" where
  "js_get v p = map_of (js_props v) p"

text \<open>How a promise settles, and the two states a settled promise can have.\<close>

datatype outcome = Fulfilled js_value | Rejected js_value

fun is_fulfilled :: "outcome \<Rightarrow> bool" where
  "is_fulfilled (Fulfilled _) = True"
| "is_fulfilled (Rejected _) = False"

text \<open>Decimal printing of integers, as a template literal prints a whole number.\<close>

fun show_nat :: "nat \<Rightarrow> string" where
  "show_nat n = (if n < 10 then [char_of (48 + n)] else show_nat (n div 10) @ [char_of (48 + n mod 10)])"

declare show_nat.simps [simp del]

definition show_int :: "int \<Rightarrow> string" where
  "show_int i = (if i < 0 then ''-'' @ show_nat (nat (- i)) else show_nat (nat i))"

text \<open>
  Strings are lists of 8-bit code units (Latin-1). \<open>trim()\<close> removes white space and line
  terminators at both ends.
\<close>

definition js_white :: "char \<Rightarrow> bool" where
  "js_white c = (let n = of_char c :: nat in 9 \<le> n \<and> n \<le> 13 \<or> n = 32 \<or> n = 160)"

definition js_trim :: "string \<Rightarrow> string" where
  "js_trim s = rev (dropWhile js_white (rev (dropWhile js_white s)))"

section \<open>Generic lemmas\<close>

lemma dropWhile_id: "(xs = [] \<or> \<not> P (hd xs)) \<Longrightarrow> dropWhile P xs = xs"
  by (cases xs) auto

lemma js_trim_ends:
  "js_trim s = [] \<or> \<not> js_white (hd (js_trim s)) \<and> \<not> js_white (last (js_trim s))"
proof (cases "js_trim s = []")
  case False
  define t where "t = dropWhile js_white s"
  define u where "u = dropWhile js_white (rev t)"
  have u: "js_trim s = rev u" "u \<noteq> []" using False by (auto simp: js_trim_def t_def u_def)
  have "\<not> js_white (hd u)" using u(2) unfolding u_def by (rule hd_dropWhile)
  moreover have "t \<noteq> []" using u(2) by (auto simp: u_def)
  then have "\<not> js_white (hd t)" unfolding t_def by (rule hd_dropWhile)
  moreover obtain w where "rev t = w @ u" unfolding u_def by (metis takeWhile_dropWhile_id)
  then have "t = rev u @ rev w" by (metis rev_append rev_rev_ident)
  then have "hd t = hd (rev u)" using u(2) by simp
  ultimately show ?thesis using u by (simp add: last_rev)
qed simp

lemma js_trim_idem [simp]: "js_trim (js_trim s) = js_trim s"
proof -
  have "dropWhile js_white (js_trim s) = js_trim s"
    by (rule dropWhile_id) (use js_trim_ends [of s] in blast)
  moreover have "dropWhile js_white (rev (js_trim s)) = rev (js_trim s)"
    by (rule dropWhile_id) (use js_trim_ends [of s] in \<open>auto simp: hd_rev\<close>)
  ultimately show ?thesis by (simp add: js_trim_def [of "js_trim s"])
qed

lemma sum_list_at_most_one:
  assumes "distinct xs" and "\<And>x y. x \<in> set xs \<Longrightarrow> y \<in> set xs \<Longrightarrow> 0 < f x \<Longrightarrow> 0 < f y \<Longrightarrow> x = y"
    and "\<And>x. x \<in> set xs \<Longrightarrow> f x \<le> (m :: nat)"
  shows "sum_list (map f xs) \<le> m"
  using assms
proof (induction xs)
  case (Cons x xs)
  show ?case
  proof (cases "f x = 0")
    case True
    then show ?thesis using Cons by simp
  next
    case False
    have "f y = 0" if "y \<in> set xs" for y
      using Cons.prems(2) [of x y] Cons.prems(1) False that by fastforce
    then have "sum_list (map f xs) = 0" by (induction xs) auto
    moreover have "f x \<le> m" by (rule Cons.prems(3)) simp
    ultimately show ?thesis unfolding list.map sum_list.Cons by linarith
  qed
qed simp

lemma filter_neq_id [simp]: "x \<notin> set xs \<Longrightarrow> filter (\<lambda>y. y \<noteq> x) xs = xs"
  by (induction xs) auto

lemma filter_neq_remove1: "distinct xs \<Longrightarrow> filter (\<lambda>y. y \<noteq> x) xs = remove1 x xs"
  by (simp add: distinct_remove1_removeAll removeAll_filter_not_eq) (metis (mono_tags))

lemma sorted_wrt_less_distinct: "sorted_wrt (<) (xs :: nat list) \<Longrightarrow> distinct xs"
  by (induction xs) auto

lemma length_filter_neq_less: "x \<in> set xs \<Longrightarrow> length (filter (\<lambda>y. y \<noteq> x) xs) < length xs"
  by (induction xs) (auto simp: less_Suc_eq_le)

lemma map_of_filter_neq:
  "map_of (filter (\<lambda>kv. fst kv \<noteq> k) xs) k' = (if k' = k then None else map_of xs k')"
  by (induction xs) auto

lemma map_of_append_fresh: "map_of xs k = None \<Longrightarrow> map_of (xs @ [(k, v)]) k' = (if k' = k then Some v else map_of xs k')"
  by (induction xs) auto

section \<open>Step systems\<close>

text \<open>
  A component is a step function over its events with an invariant that each step keeps.
  Every stateful component of the development interprets this locale, so that an invariant
  is proved for one step and holds after any sequence of events.
\<close>

locale step_system =
  fixes step :: "'e \<Rightarrow> 's \<Rightarrow> 's" and inv :: "'s \<Rightarrow> bool"
  assumes step_inv: "inv s \<Longrightarrow> inv (step e s)"
begin

lemma run_inv: "inv s \<Longrightarrow> inv (fold step es s)"
  by (induction es arbitrary: s) (auto simp: step_inv)

lemma run_induct:
  assumes "inv s" and "P s" and "\<And>e t. inv t \<Longrightarrow> P t \<Longrightarrow> P (step e t)"
  shows "P (fold step es s)"
  using assms by (induction es arbitrary: s) (auto simp: step_inv)

text \<open>A monotone quantity never shrinks along a run.\<close>

lemma run_mono:
  assumes "inv s" and "\<And>e t. inv t \<Longrightarrow> (f t :: 'm :: preorder) \<le> f (step e t)"
  shows "f s \<le> f (fold step es s)"
  using assms(1)
proof (induction es arbitrary: s)
  case (Cons e es)
  then have "f (step e s) \<le> f (fold step es (step e s))" by (simp add: step_inv)
  moreover have "f s \<le> f (step e s)" by (rule assms(2) [OF Cons.prems])
  ultimately show ?case by (auto intro: order_trans)
qed simp

end

end
