(* ===== verification/AsyncWorkQueue.thy ===== *)
theory AsyncWorkQueue
  imports Prelude
begin

text \<open>
  \<open>AsyncWorkQueue\<close> of \<open>shared/concurrency/classes/AsyncGate.js\<close>: a bounded-concurrency queue of
  asynchronous tasks. JavaScript runs one callback at a time, so the class is a state machine
  whose steps are its synchronous entry points (\<open>run\<close>, \<open>close\<close>) and the callbacks the runtime
  makes later (a wait timer, an abort listener, the end of a started task). Task objects are
  mutated and compared by identity, so they live in a store indexed by their id. What the code
  does to its callers (calling \<open>fn\<close>, the hooks, settling the promise) is appended to a log in
  the order in which it happens. The body of \<open>fn\<close> and the hooks are the caller's: their
  outcome is part of the event that ends the task.
\<close>

section \<open>Errors of the gates\<close>

definition gateAbortError :: "js_value \<Rightarrow> string \<Rightarrow> string \<Rightarrow> js_value" where
  "gateAbortError reason key label =
     (let message = (case reason of JsError _ m _ \<Rightarrow> m | _ \<Rightarrow> ''Async gate wait was aborted'');
          error = JsError ''AbortError'' message
            [(''code'', JsPrim ''ASYNC_GATE_ABORTED''), (''key'', JsPrim key), (''label'', JsPrim label)]
      in if reason \<noteq> JsUndefined then js_set ''reason'' reason error else error)"

definition gateClosedError :: "string \<Rightarrow> string \<Rightarrow> string \<Rightarrow> string \<Rightarrow> js_value" where
  "gateClosedError name label reason key =
     JsError ''AsyncGateClosedError'' (name @ '' is closed ('' @ label @ ''): '' @ reason)
       [(''code'', JsPrim ''ASYNC_GATE_CLOSED''), (''key'', JsPrim key), (''label'', JsPrim label)]"

definition AsyncGateBusyError :: "string \<Rightarrow> string \<Rightarrow> string \<Rightarrow> js_value" where
  "AsyncGateBusyError message key label =
     JsError ''AsyncGateBusyError'' message
       [(''key'', JsPrim key), (''label'', JsPrim label), (''code'', JsPrim ''ASYNC_GATE_BUSY'')]"

text \<open>The timeout rejection: a busy error whose code is overwritten.\<close>

definition gate_timeout_error :: "string \<Rightarrow> int \<Rightarrow> string \<Rightarrow> string \<Rightarrow> js_value" where
  "gate_timeout_error name maxWaitMs key label =
     js_set ''code'' (JsPrim ''ASYNC_GATE_TIMEOUT'')
       (AsyncGateBusyError (name @ '' queue wait timed out after '' @ show_int maxWaitMs @ ''ms ('' @ label @ '')'')
         key label)"

section \<open>The hook that still owns the slot\<close>

text \<open>What the caller's \<open>onBeforeRelease\<close> did: there is none, it returned, or it threw.\<close>

datatype hook_outcome = NoHook | HookReturned | HookThrew js_value

text \<open>
  \<open>#runBeforeRelease\<close>: a hook that throws turns a fulfilled task into a rejected one; when the
  task already failed with an object, the hook's error is attached to it; when it failed with
  something else, the hook's error replaces it.
\<close>

fun runBeforeRelease :: "outcome \<Rightarrow> hook_outcome \<Rightarrow> outcome" where
  "runBeforeRelease r NoHook = r"
| "runBeforeRelease r HookReturned = r"
| "runBeforeRelease (Rejected e) (HookThrew c) =
     (if js_is_object e then Rejected (js_set ''cleanupError'' c e) else Rejected c)"
| "runBeforeRelease (Fulfilled v) (HookThrew c) = Rejected c"

section \<open>State\<close>

record awq_task =
  tk_label :: string
  tk_requestedAt :: int
  tk_depthAtEnqueue :: nat
  tk_inFlightAtEnqueue :: nat
  tk_maxWaitMs :: int
  tk_timer :: bool
  tk_listening :: bool
  tk_cancelled :: bool
  tk_started :: bool

text \<open>
  The log. \<open>Started\<close> is the call of \<open>fn\<close> with its queue info (the wait and the two counts);
  \<open>Released\<close> and \<open>Cancelled\<close> are the \<open>onRelease\<close> and \<open>onCancel\<close> calls, with the in-flight
  and pending counts a \<open>snapshot()\<close> taken inside the hook reads; \<open>Settled\<close> is the
  settlement of the promise \<open>run\<close> returned. A hook the caller did not pass leaves its
  notice unread.
\<close>

datatype awq_notice =
    Started nat int nat nat
  | Released nat outcome nat nat
  | Cancelled nat js_value int nat nat
  | Settled nat outcome

record awq =
  q_name :: string
  q_maxConcurrency :: nat
  q_inFlight :: nat
  q_pending :: "nat list"
  q_nextId :: nat
  q_closed :: bool
  q_tasks :: "nat \<Rightarrow> awq_task option"
  q_running :: "nat list"
  q_log :: "awq_notice list"

text \<open>\<open>constructor\<close>: a falsy name falls back, the bound is at least one.\<close>

definition awq_new :: "string \<Rightarrow> int \<Rightarrow> awq" where
  "awq_new name maxConcurrency =
     \<lparr> q_name = (if name = [] then ''async work'' else name),
       q_maxConcurrency = nat (max 1 (if maxConcurrency = 0 then 1 else maxConcurrency)),
       q_inFlight = 0, q_pending = [], q_nextId = 1, q_closed = False,
       q_tasks = Map.empty, q_running = [], q_log = [] \<rparr>"

definition awq_task_is :: "(awq_task \<Rightarrow> bool) \<Rightarrow> awq \<Rightarrow> nat \<Rightarrow> bool" where
  "awq_task_is P q i = (case q_tasks q i of None \<Rightarrow> False | Some t \<Rightarrow> P t)"

text \<open>Live entries: \<open>this.#pending.filter((task) => !task.cancelled)\<close>.\<close>

definition awq_live_pending :: "awq \<Rightarrow> nat" where
  "awq_live_pending q = length (filter (\<lambda>i. \<not> awq_task_is tk_cancelled q i) (q_pending q))"

record awq_snapshot =
  sn_name :: string
  sn_maxConcurrency :: nat
  sn_inFlight :: nat
  sn_pending :: nat
  sn_closed :: bool

definition awq_snapshot :: "awq \<Rightarrow> awq_snapshot" where
  "awq_snapshot q = \<lparr> sn_name = q_name q, sn_maxConcurrency = q_maxConcurrency q,
     sn_inFlight = q_inFlight q, sn_pending = awq_live_pending q, sn_closed = q_closed q \<rparr>"

section \<open>Operations\<close>

definition awq_emit :: "awq_notice \<Rightarrow> awq \<Rightarrow> awq" where
  "awq_emit n q = q\<lparr>q_log := q_log q @ [n]\<rparr>"

text \<open>The loop body of \<open>#drain\<close> for a task taken off the queue.\<close>

definition awq_startTask :: "int \<Rightarrow> nat \<Rightarrow> awq \<Rightarrow> awq" where
  "awq_startTask now i q = (case q_tasks q i of None \<Rightarrow> q
     | Some t \<Rightarrow> awq_emit (Started i (max 0 (now - tk_requestedAt t)) (tk_depthAtEnqueue t) (tk_inFlightAtEnqueue t))
         (q\<lparr>q_tasks := (q_tasks q)(i \<mapsto> t\<lparr>tk_started := True, tk_timer := False, tk_listening := False\<rparr>),
            q_inFlight := q_inFlight q + 1, q_running := q_running q @ [i]\<rparr>))"

fun awq_drainLoop :: "int \<Rightarrow> nat list \<Rightarrow> awq \<Rightarrow> awq" where
  "awq_drainLoop now [] q = q\<lparr>q_pending := []\<rparr>"
| "awq_drainLoop now (i # ids) q =
     (if q_inFlight q < q_maxConcurrency q
      then (if awq_task_is (\<lambda>t. \<not> tk_cancelled t) q i
            then awq_drainLoop now ids (awq_startTask now i q)
            else awq_drainLoop now ids q)
      else q\<lparr>q_pending := i # ids\<rparr>)"

definition awq_drain :: "int \<Rightarrow> awq \<Rightarrow> awq" where
  "awq_drain now q = (if q_closed q then q else awq_drainLoop now (q_pending q) q)"

text \<open>\<open>#cancelTask\<close>: the flags, the queue, the rejection, the hook, then a drain.\<close>

definition awq_cancelTask :: "int \<Rightarrow> nat \<Rightarrow> js_value \<Rightarrow> int \<Rightarrow> awq \<Rightarrow> awq" where
  "awq_cancelTask now i err waitMs q = (case q_tasks q i of None \<Rightarrow> q
     | Some t \<Rightarrow> if tk_started t \<or> tk_cancelled t then q
       else let q1 = q\<lparr>q_tasks := (q_tasks q)(i \<mapsto> t\<lparr>tk_cancelled := True, tk_timer := False, tk_listening := False\<rparr>),
                       q_pending := filter (\<lambda>j. j \<noteq> i) (q_pending q)\<rparr>;
                q2 = awq_emit (Settled i (Rejected err)) q1;
                q3 = awq_emit (Cancelled i err waitMs (q_inFlight q2) (awq_live_pending q2)) q2
            in awq_drain now q3)"

text \<open>What \<open>run\<close> returns: a promise rejected on the spot, or the promise of a task.\<close>

datatype awq_promise = Refused js_value | Task nat

text \<open>The \<open>signal\<close> option: absent, not aborted yet, or already aborted with a reason.\<close>

datatype abort_signal = NoSignal | Signal | AbortedSignal js_value

fun is_aborted :: "abort_signal \<Rightarrow> bool" where
  "is_aborted (AbortedSignal _) = True"
| "is_aborted _ = False"

fun maxWait :: "int option \<Rightarrow> int" where
  "maxWait None = 0"
| "maxWait (Some ms) = max 0 ms"

definition awq_newTask :: "string \<Rightarrow> int option \<Rightarrow> abort_signal \<Rightarrow> int \<Rightarrow> awq \<Rightarrow> awq_task" where
  "awq_newTask label waitMs signal now q =
     \<lparr> tk_label = label, tk_requestedAt = now, tk_depthAtEnqueue = awq_live_pending q,
       tk_inFlightAtEnqueue = q_inFlight q, tk_maxWaitMs = maxWait waitMs,
       tk_timer = (\<not> is_aborted signal \<and> waitMs \<noteq> None \<and> maxWait waitMs > 0),
       tk_listening = (signal = Signal), tk_cancelled = False, tk_started = False \<rparr>"

text \<open>The task object is made under the next id.\<close>

definition awq_admit :: "string \<Rightarrow> int option \<Rightarrow> abort_signal \<Rightarrow> int \<Rightarrow> awq \<Rightarrow> awq" where
  "awq_admit label waitMs signal now q =
     q\<lparr>q_nextId := q_nextId q + 1,
       q_tasks := (q_tasks q)(q_nextId q \<mapsto> awq_newTask label waitMs signal now q)\<rparr>"

definition awq_run :: "string \<Rightarrow> int option \<Rightarrow> abort_signal \<Rightarrow> int \<Rightarrow> awq \<Rightarrow> awq \<times> awq_promise" where
  "awq_run label waitMs signal now q =
     (if q_closed q then (q, Refused (gateClosedError (q_name q) label ''gate closed'' ''global''))
      else let i = q_nextId q;
               q1 = awq_admit label waitMs signal now q
           in (case signal of
                AbortedSignal reason \<Rightarrow> (awq_cancelTask now i (gateAbortError reason ''global'' label) 0 q1, Task i)
              | _ \<Rightarrow>
                let q2 = awq_drain now (q1\<lparr>q_pending := q_pending q1 @ [i]\<rparr>)
                in (if waitMs \<noteq> None \<and> maxWait waitMs = 0 \<and> \<not> awq_task_is tk_started q2 i
                    then awq_cancelTask now i (gate_timeout_error (q_name q2) 0 ''global'' label) 0 q2
                    else q2, Task i)))"

text \<open>The wait timer fires, the abort signal fires.\<close>

definition awq_timer :: "nat \<Rightarrow> int \<Rightarrow> awq \<Rightarrow> awq" where
  "awq_timer i now q = (case q_tasks q i of None \<Rightarrow> q
     | Some t \<Rightarrow> if tk_timer t
         then awq_cancelTask now i (gate_timeout_error (q_name q) (tk_maxWaitMs t) ''global'' (tk_label t)) (tk_maxWaitMs t) q
         else q)"

definition awq_abort :: "nat \<Rightarrow> js_value \<Rightarrow> int \<Rightarrow> awq \<Rightarrow> awq" where
  "awq_abort i reason now q = (case q_tasks q i of None \<Rightarrow> q
     | Some t \<Rightarrow> if tk_listening t
         then awq_cancelTask now i (gateAbortError reason ''global'' (tk_label t)) (max 0 (now - tk_requestedAt t)) q
         else q)"

text \<open>
  The promise chain of a started task ends: \<open>fn\<close> settled with \<open>r\<close> and \<open>onBeforeRelease\<close> did
  \<open>h\<close>. The slot is given back, the release hook runs, the queue drains, and only then is
  the caller's promise settled.
\<close>

definition awq_finish :: "nat \<Rightarrow> outcome \<Rightarrow> hook_outcome \<Rightarrow> int \<Rightarrow> awq \<Rightarrow> awq" where
  "awq_finish i r h now q =
     (if i \<in> set (q_running q)
      then let final = runBeforeRelease r h;
               q1 = q\<lparr>q_running := remove1 i (q_running q), q_inFlight := q_inFlight q - 1\<rparr>;
               q2 = awq_emit (Released i final (q_inFlight q1) (awq_live_pending q1)) q1
           in awq_emit (Settled i final) (awq_drain now q2)
      else q)"

definition awq_closable :: "awq \<Rightarrow> nat list" where
  "awq_closable q = filter (awq_task_is (\<lambda>t. \<not> tk_cancelled t \<and> \<not> tk_started t) q) (q_pending q)"

definition awq_closeTask :: "string \<Rightarrow> int \<Rightarrow> nat \<Rightarrow> awq \<Rightarrow> awq" where
  "awq_closeTask reason now i q = (case q_tasks q i of None \<Rightarrow> q
     | Some t \<Rightarrow> awq_cancelTask now i (gateClosedError (q_name q) (tk_label t) reason ''global'')
                   (max 0 (now - tk_requestedAt t)) q)"

definition awq_close :: "string \<Rightarrow> int \<Rightarrow> awq \<Rightarrow> awq \<times> nat" where
  "awq_close reason now q =
     (if q_closed q then (q, 0)
      else let q1 = q\<lparr>q_closed := True\<rparr>; pending = awq_closable q1
           in (fold (awq_closeTask reason now) pending q1, length pending))"

section \<open>The state machine\<close>

datatype awq_event =
    RunEv string "int option" abort_signal int
  | TimerEv nat int
  | AbortEv nat js_value int
  | FinishEv nat outcome hook_outcome int
  | CloseEv string int

fun awq_step :: "awq_event \<Rightarrow> awq \<Rightarrow> awq" where
  "awq_step (RunEv label waitMs signal now) q = fst (awq_run label waitMs signal now q)"
| "awq_step (TimerEv i now) q = awq_timer i now q"
| "awq_step (AbortEv i reason now) q = awq_abort i reason now q"
| "awq_step (FinishEv i r h now) q = awq_finish i r h now q"
| "awq_step (CloseEv reason now) q = fst (awq_close reason now q)"

section \<open>Invariant\<close>

definition started_ids :: "awq_notice list \<Rightarrow> nat list" where
  "started_ids ns = concat (map (\<lambda>n. case n of Started i _ _ _ \<Rightarrow> [i] | _ \<Rightarrow> []) ns)"

definition settled_ids :: "awq_notice list \<Rightarrow> nat list" where
  "settled_ids ns = concat (map (\<lambda>n. case n of Settled i _ \<Rightarrow> [i] | _ \<Rightarrow> []) ns)"

lemma notice_ids_simps [simp]:
  "started_ids [] = []" "settled_ids [] = []"
  "started_ids (xs @ ys) = started_ids xs @ started_ids ys"
  "settled_ids (xs @ ys) = settled_ids xs @ settled_ids ys"
  "started_ids (n # ns) = (case n of Started i _ _ _ \<Rightarrow> i # started_ids ns | _ \<Rightarrow> started_ids ns)"
  "settled_ids (n # ns) = (case n of Settled i _ \<Rightarrow> i # settled_ids ns | _ \<Rightarrow> settled_ids ns)"
  by (auto simp: started_ids_def settled_ids_def split: awq_notice.splits)

text \<open>The phases a task can be in, as sets of ids, and the tasks with an armed timer or listener.\<close>

abbreviation awq_waits :: "awq \<Rightarrow> nat set" where
  "awq_waits q \<equiv> {i. awq_task_is (\<lambda>t. \<not> tk_started t \<and> \<not> tk_cancelled t) q i}"

abbreviation awq_starts :: "awq \<Rightarrow> nat set" where
  "awq_starts q \<equiv> {i. awq_task_is tk_started q i}"

abbreviation awq_cancels :: "awq \<Rightarrow> nat set" where
  "awq_cancels q \<equiv> {i. awq_task_is tk_cancelled q i}"

abbreviation awq_armed :: "awq \<Rightarrow> nat set" where
  "awq_armed q \<equiv> {i. awq_task_is (\<lambda>t. tk_timer t \<or> tk_listening t) q i}"

text \<open>
  The invariant, but for the tasks of \<open>X\<close>, which may wait outside the queue (the task
  \<open>run\<close> has just made), for the tasks of \<open>Y\<close>, which have ended and are about to be settled,
  and for work conservation, which a drain restores.
\<close>

definition awq_core :: "nat set \<Rightarrow> nat set \<Rightarrow> awq \<Rightarrow> bool" where
  "awq_core X Y q \<longleftrightarrow>
     1 \<le> q_maxConcurrency q \<and>
     sorted_wrt (<) (q_pending q) \<and>
     set (q_pending q) \<subseteq> awq_waits q \<and>
     awq_waits q \<subseteq> set (q_pending q) \<union> X \<and>
     distinct (q_running q) \<and>
     set (q_running q) \<subseteq> awq_starts q \<and>
     q_inFlight q = length (q_running q) \<and>
     q_inFlight q \<le> q_maxConcurrency q \<and>
     dom (q_tasks q) \<subseteq> {..<q_nextId q} \<and>
     awq_starts q \<inter> awq_cancels q = {} \<and>
     awq_armed q \<subseteq> awq_waits q \<and>
     distinct (settled_ids (q_log q)) \<and>
     set (settled_ids (q_log q)) = awq_cancels q \<union> (awq_starts q - set (q_running q)) - Y \<and>
     Y \<subseteq> awq_starts q - set (q_running q) \<and>
     sorted_wrt (<) (started_ids (q_log q)) \<and>
     set (started_ids (q_log q)) = awq_starts q \<and>
     (\<forall>i \<in> awq_starts q. \<forall>j \<in> set (q_pending q) \<union> X. i < j)"

text \<open>Work conservation: an open queue has no free slot while a task waits.\<close>

definition awq_busy :: "awq \<Rightarrow> bool" where
  "awq_busy q \<longleftrightarrow> q_pending q = [] \<or> \<not> q_closed q \<and> q_inFlight q = q_maxConcurrency q"

definition awq_inv :: "awq \<Rightarrow> bool" where
  "awq_inv q \<longleftrightarrow> awq_core {} {} q \<and> awq_busy q"

lemma awq_task_is_upd [simp]:
  "awq_task_is P (q\<lparr>q_tasks := f\<rparr>) i = (case f i of None \<Rightarrow> False | Some t \<Rightarrow> P t)"
  by (simp add: awq_task_is_def)

lemma awq_task_is_frame [simp]:
  "awq_task_is P (q\<lparr>q_pending := p\<rparr>) = awq_task_is P q"
  "awq_task_is P (q\<lparr>q_inFlight := n\<rparr>) = awq_task_is P q"
  "awq_task_is P (q\<lparr>q_running := r\<rparr>) = awq_task_is P q"
  "awq_task_is P (q\<lparr>q_log := l\<rparr>) = awq_task_is P q"
  "awq_task_is P (q\<lparr>q_closed := c\<rparr>) = awq_task_is P q"
  "awq_task_is P (q\<lparr>q_nextId := m\<rparr>) = awq_task_is P q"
  by (simp_all add: awq_task_is_def fun_eq_iff)

lemma awq_emit_simps [simp]:
  "q_name (awq_emit n q) = q_name q" "q_maxConcurrency (awq_emit n q) = q_maxConcurrency q"
  "q_inFlight (awq_emit n q) = q_inFlight q" "q_pending (awq_emit n q) = q_pending q"
  "q_nextId (awq_emit n q) = q_nextId q" "q_closed (awq_emit n q) = q_closed q"
  "q_tasks (awq_emit n q) = q_tasks q" "q_running (awq_emit n q) = q_running q"
  "q_log (awq_emit n q) = q_log q @ [n]" "awq_task_is P (awq_emit n q) = awq_task_is P q"
  by (simp_all add: awq_emit_def)

lemma awq_phases_disjoint:
  "i \<in> awq_waits q \<Longrightarrow> i \<notin> awq_starts q" "i \<in> awq_waits q \<Longrightarrow> i \<notin> awq_cancels q"
  by (auto simp: awq_task_is_def split: option.splits)

lemma awq_waits_task:
  assumes "i \<in> awq_waits q"
  obtains t where "q_tasks q i = Some t" "\<not> tk_started t" "\<not> tk_cancelled t"
  using assms by (auto simp: awq_task_is_def split: option.splits)

lemma awq_core_parts:
  assumes "awq_core X Y q"
  shows "set (q_pending q) \<subseteq> awq_waits q" and "set (q_running q) \<subseteq> awq_starts q"
    and "q_inFlight q = length (q_running q)" and "q_inFlight q \<le> q_maxConcurrency q"
    and "distinct (q_running q)" and "sorted_wrt (<) (q_pending q)"
    and "sorted_wrt (<) (started_ids (q_log q))" and "distinct (settled_ids (q_log q))"
    and "set (settled_ids (q_log q)) = awq_cancels q \<union> (awq_starts q - set (q_running q)) - Y"
    and "awq_waits q \<subseteq> set (q_pending q) \<union> X" and "set (started_ids (q_log q)) = awq_starts q"
    and "awq_armed q \<subseteq> awq_waits q" and "1 \<le> q_maxConcurrency q"
    and "awq_starts q \<inter> awq_cancels q = {}" and "dom (q_tasks q) \<subseteq> {..<q_nextId q}"
  using assms unfolding awq_core_def by - (elim conjE, assumption)+

lemma awq_core_pending:
  assumes "awq_core X Y q" "i \<in> set (q_pending q)"
  obtains t where "q_tasks q i = Some t" "\<not> tk_started t" "\<not> tk_cancelled t"
proof -
  from awq_core_parts(1) [OF assms(1)] assms(2) have "i \<in> awq_waits q" by (rule subsetD)
  then show thesis by (rule awq_waits_task) (rule that)
qed

lemma awq_core_live_pending:
  assumes "awq_core X Y q"
  shows "awq_live_pending q = length (q_pending q)"
proof -
  have "\<forall>i \<in> set (q_pending q). \<not> awq_task_is tk_cancelled q i"
    by (auto simp: awq_task_is_def elim: awq_core_pending [OF assms])
  then show ?thesis by (simp add: awq_live_pending_def)
qed

text \<open>What starting a waiting task changes.\<close>

lemma awq_startTask_effect:
  assumes "i \<in> awq_waits q"
  shows "awq_waits (awq_startTask now i q) = awq_waits q - {i}"
    and "awq_starts (awq_startTask now i q) = insert i (awq_starts q)"
    and "awq_cancels (awq_startTask now i q) = awq_cancels q"
    and "awq_armed (awq_startTask now i q) = awq_armed q - {i}"
    and "dom (q_tasks (awq_startTask now i q)) = dom (q_tasks q)"
    and "q_inFlight (awq_startTask now i q) = q_inFlight q + 1"
    and "q_running (awq_startTask now i q) = q_running q @ [i]"
    and "started_ids (q_log (awq_startTask now i q)) = started_ids (q_log q) @ [i]"
    and "settled_ids (q_log (awq_startTask now i q)) = settled_ids (q_log q)"
proof -
  from assms obtain t where "q_tasks q i = Some t" "\<not> tk_started t" "\<not> tk_cancelled t"
    by (rule awq_waits_task)
  then show "awq_waits (awq_startTask now i q) = awq_waits q - {i}"
    and "awq_starts (awq_startTask now i q) = insert i (awq_starts q)"
    and "awq_cancels (awq_startTask now i q) = awq_cancels q"
    and "awq_armed (awq_startTask now i q) = awq_armed q - {i}"
    and "dom (q_tasks (awq_startTask now i q)) = dom (q_tasks q)"
    and "q_inFlight (awq_startTask now i q) = q_inFlight q + 1"
    and "q_running (awq_startTask now i q) = q_running q @ [i]"
    and "started_ids (q_log (awq_startTask now i q)) = started_ids (q_log q) @ [i]"
    and "settled_ids (q_log (awq_startTask now i q)) = settled_ids (q_log q)"
    by (auto simp: awq_startTask_def awq_task_is_def split: option.splits if_splits)
qed

lemma awq_startTask_simps [simp]:
  "q_name (awq_startTask now i q) = q_name q" "q_closed (awq_startTask now i q) = q_closed q"
  "q_maxConcurrency (awq_startTask now i q) = q_maxConcurrency q"
  "q_nextId (awq_startTask now i q) = q_nextId q"
  by (simp_all add: awq_startTask_def split: option.splits)

lemma awq_drainLoop_simps [simp]:
  "q_name (awq_drainLoop now ids q) = q_name q" "q_closed (awq_drainLoop now ids q) = q_closed q"
  "q_maxConcurrency (awq_drainLoop now ids q) = q_maxConcurrency q"
  "q_nextId (awq_drainLoop now ids q) = q_nextId q"
  by (induction now ids q rule: awq_drainLoop.induct) auto

lemma awq_drain_simps [simp]:
  "q_name (awq_drain now q) = q_name q" "q_closed (awq_drain now q) = q_closed q"
  "q_maxConcurrency (awq_drain now q) = q_maxConcurrency q"
  "q_nextId (awq_drain now q) = q_nextId q"
  by (simp_all add: awq_drain_def)

lemma awq_startTask_core:
  assumes "awq_core {} Y (q\<lparr>q_pending := i # ids\<rparr>)" and "q_inFlight q < q_maxConcurrency q"
  shows "awq_core {} Y ((awq_startTask now i q)\<lparr>q_pending := ids\<rparr>)"
proof -
  have i: "i \<in> awq_waits q" "i \<notin> set ids" "i \<notin> set (q_running q)"
    using assms(1) awq_phases_disjoint by (fastforce simp: awq_core_def)+
  then show ?thesis
    using assms awq_phases_disjoint [OF i(1)]
    unfolding awq_core_def by (auto simp: awq_startTask_effect sorted_wrt_append)
qed

lemma awq_drainLoop_core:
  "awq_core {} Y (q\<lparr>q_pending := ids\<rparr>) \<Longrightarrow>
   awq_core {} Y (awq_drainLoop now ids q) \<and>
   (q_pending (awq_drainLoop now ids q) = [] \<or>
    q_inFlight (awq_drainLoop now ids q) = q_maxConcurrency q)"
proof (induction now ids q rule: awq_drainLoop.induct)
  case (2 now i ids q)
  show ?case
  proof (cases "q_inFlight q < q_maxConcurrency q")
    case True
    moreover have "awq_task_is (\<lambda>t. \<not> tk_cancelled t) q i"
      using "2.prems" by (fastforce simp: awq_core_def awq_task_is_def split: option.splits)
    ultimately show ?thesis
      using "2.IH"(1) "2.prems" by (simp add: awq_startTask_core)
  next
    case False
    then show ?thesis using "2.prems" by (auto simp: awq_core_def)
  qed
qed simp

lemma awq_drain_core:
  assumes "awq_core {} Y q" and "q_closed q \<Longrightarrow> q_pending q = []"
  shows "awq_core {} Y (awq_drain now q)" and "awq_busy (awq_drain now q)"
  using assms awq_drainLoop_core [where Y = Y and q = q and ids = "q_pending q" and now = now]
  by (auto simp: awq_busy_def awq_drain_def)

lemma awq_drain_inv:
  assumes "awq_core {} {} q" and "q_closed q \<Longrightarrow> q_pending q = []"
  shows "awq_inv (awq_drain now q)"
  using assms by (auto simp: awq_inv_def awq_drain_core)

text \<open>The state \<open>#cancelTask\<close> drains from.\<close>

definition awq_cancelled :: "nat \<Rightarrow> js_value \<Rightarrow> int \<Rightarrow> awq_task \<Rightarrow> awq \<Rightarrow> awq" where
  "awq_cancelled i err waitMs t q =
     (let q1 = q\<lparr>q_tasks := (q_tasks q)(i \<mapsto> t\<lparr>tk_cancelled := True, tk_timer := False, tk_listening := False\<rparr>),
                 q_pending := filter (\<lambda>j. j \<noteq> i) (q_pending q)\<rparr>;
          q2 = awq_emit (Settled i (Rejected err)) q1
      in awq_emit (Cancelled i err waitMs (q_inFlight q2) (awq_live_pending q2)) q2)"

lemma awq_cancelTask_eq:
  "awq_cancelTask now i err waitMs q = (case q_tasks q i of None \<Rightarrow> q
     | Some t \<Rightarrow> if tk_started t \<or> tk_cancelled t then q else awq_drain now (awq_cancelled i err waitMs t q))"
  by (simp add: awq_cancelTask_def awq_cancelled_def Let_def split: option.splits)

lemma awq_cancelled_simps [simp]:
  "q_name (awq_cancelled i err w t q) = q_name q" "q_closed (awq_cancelled i err w t q) = q_closed q"
  "q_maxConcurrency (awq_cancelled i err w t q) = q_maxConcurrency q"
  "q_nextId (awq_cancelled i err w t q) = q_nextId q"
  "q_inFlight (awq_cancelled i err w t q) = q_inFlight q"
  "q_running (awq_cancelled i err w t q) = q_running q"
  "q_pending (awq_cancelled i err w t q) = filter (\<lambda>j. j \<noteq> i) (q_pending q)"
  by (simp_all add: awq_cancelled_def Let_def)

lemma awq_cancelled_effect:
  assumes "q_tasks q i = Some t" "\<not> tk_started t" "\<not> tk_cancelled t"
  shows "awq_waits (awq_cancelled i err w t q) = awq_waits q - {i}"
    and "awq_starts (awq_cancelled i err w t q) = awq_starts q"
    and "awq_cancels (awq_cancelled i err w t q) = insert i (awq_cancels q)"
    and "awq_armed (awq_cancelled i err w t q) = awq_armed q - {i}"
    and "dom (q_tasks (awq_cancelled i err w t q)) = dom (q_tasks q)"
    and "started_ids (q_log (awq_cancelled i err w t q)) = started_ids (q_log q)"
    and "settled_ids (q_log (awq_cancelled i err w t q)) = settled_ids (q_log q) @ [i]"
  using assms by (auto simp: awq_cancelled_def Let_def awq_task_is_def split: option.splits if_splits)

lemma awq_cancelled_core:
  assumes "awq_core X {} q" and t: "q_tasks q i = Some t" "\<not> tk_started t" "\<not> tk_cancelled t" and "X \<subseteq> {i}"
  shows "awq_core {} {} (awq_cancelled i err waitMs t q)"
proof -
  have "i \<in> awq_waits q" using t by (simp add: awq_task_is_def)
  then have "i \<notin> awq_starts q" "i \<notin> awq_cancels q" by (rule awq_phases_disjoint)+
  moreover from this have "i \<notin> set (settled_ids (q_log q))" "i \<notin> set (q_running q)"
    using assms(1) by (auto simp: awq_core_def)
  ultimately show ?thesis
    using assms(1,5) unfolding awq_core_def
    by (auto simp: awq_cancelled_effect [OF t] sorted_wrt_filter)
qed

lemma awq_cancelTask_core:
  assumes "awq_core X {} q" and "X \<subseteq> {i}" and "q_closed q \<Longrightarrow> q_pending q = []" and "i \<in> awq_waits q"
  shows "awq_inv (awq_cancelTask now i err waitMs q)"
proof -
  obtain t where t: "q_tasks q i = Some t" "\<not> tk_started t" "\<not> tk_cancelled t"
    using assms(4) by (rule awq_waits_task)
  then have "awq_core {} {} (awq_cancelled i err waitMs t q)"
    using assms(1,2) by (intro awq_cancelled_core) auto
  with assms(3) t show ?thesis
    by (auto simp: awq_cancelTask_eq intro!: awq_drain_inv)
qed

lemma awq_busy_closed: "awq_busy q \<Longrightarrow> q_closed q \<Longrightarrow> q_pending q = []"
  by (auto simp: awq_busy_def)

lemma awq_cancelTask_inv: "awq_inv q \<Longrightarrow> awq_inv (awq_cancelTask now i err waitMs q)"
proof (cases "i \<in> awq_waits q")
  case True
  then show "awq_inv q \<Longrightarrow> ?thesis"
    by (intro awq_cancelTask_core [where X = "{}"]) (auto simp: awq_inv_def dest: awq_busy_closed)
next
  case False
  then show "awq_inv q \<Longrightarrow> ?thesis"
    by (auto simp: awq_cancelTask_eq awq_task_is_def split: option.splits)
qed

section \<open>Every step keeps the invariant\<close>

lemma awq_new_inv: "awq_inv (awq_new name m)"
  by (auto simp: awq_inv_def awq_core_def awq_busy_def awq_new_def awq_task_is_def)

lemma awq_inv_below:
  assumes "awq_inv q"
  shows "awq_task_is P q j \<Longrightarrow> j < q_nextId q"
    and "q_tasks q (q_nextId q) = None"
proof -
  have "dom (q_tasks q) \<subseteq> {..<q_nextId q}"
    using assms by (simp add: awq_inv_def awq_core_def)
  then show "awq_task_is P q j \<Longrightarrow> j < q_nextId q" and "q_tasks q (q_nextId q) = None"
    by (auto simp: awq_task_is_def split: option.splits)
qed

lemma awq_admit_effect:
  assumes "q_tasks q (q_nextId q) = None"
  shows "awq_waits (awq_admit label waitMs signal now q) = insert (q_nextId q) (awq_waits q)"
    and "awq_starts (awq_admit label waitMs signal now q) = awq_starts q"
    and "awq_cancels (awq_admit label waitMs signal now q) = awq_cancels q"
    and "awq_armed (awq_admit label waitMs signal now q) \<subseteq> insert (q_nextId q) (awq_armed q)"
    and "dom (q_tasks (awq_admit label waitMs signal now q)) = insert (q_nextId q) (dom (q_tasks q))"
  using assms by (auto simp: awq_admit_def awq_newTask_def awq_task_is_def split: option.splits if_splits)

lemma awq_admit_simps [simp]:
  "q_pending (awq_admit label waitMs signal now q) = q_pending q"
  "q_closed (awq_admit label waitMs signal now q) = q_closed q"
  "q_name (awq_admit label waitMs signal now q) = q_name q"
  "q_maxConcurrency (awq_admit label waitMs signal now q) = q_maxConcurrency q"
  "q_running (awq_admit label waitMs signal now q) = q_running q"
  "q_inFlight (awq_admit label waitMs signal now q) = q_inFlight q"
  "q_nextId (awq_admit label waitMs signal now q) = q_nextId q + 1"
  "q_log (awq_admit label waitMs signal now q) = q_log q"
  by (simp_all add: awq_admit_def)

lemma awq_admit_core:
  assumes inv: "awq_inv q"
  shows "awq_core {q_nextId q} {} (awq_admit label waitMs signal now q)"
    and "awq_core {} {} ((awq_admit label waitMs signal now q)\<lparr>q_pending := q_pending q @ [q_nextId q]\<rparr>)"
proof -
  have core: "awq_core {} {} q" using inv by (simp add: awq_inv_def)
  note below = awq_inv_below(1) [OF inv] and fresh = awq_inv_below(2) [OF inv]
  have pending: "\<And>j. j \<in> set (q_pending q) \<Longrightarrow> j < q_nextId q"
    using core below by (auto simp: awq_core_def)
  have waits: "awq_armed (awq_admit label waitMs signal now q) \<subseteq> insert (q_nextId q) (awq_waits q)"
    using core awq_admit_effect(4) [OF fresh] by (fastforce simp: awq_core_def)
  have old: "\<And>j. j \<in> awq_starts q \<Longrightarrow> j < q_nextId q" using below by simp
  show "awq_core {q_nextId q} {} (awq_admit label waitMs signal now q)"
    using core waits pending old unfolding awq_core_def
    by (auto simp: awq_admit_effect [OF fresh] less_Suc_eq)
  show "awq_core {} {} ((awq_admit label waitMs signal now q)\<lparr>q_pending := q_pending q @ [q_nextId q]\<rparr>)"
    using core waits pending old unfolding awq_core_def
    by (auto simp: awq_admit_effect [OF fresh] less_Suc_eq sorted_wrt_append)
qed

lemma awq_run_inv:
  assumes inv: "awq_inv q"
  shows "awq_inv (fst (awq_run label waitMs signal now q))"
proof (cases "q_closed q")
  case True
  then show ?thesis using inv by (simp add: awq_run_def)
next
  case False
  then have "awq_inv (awq_cancelTask now (q_nextId q) e w (awq_admit label waitMs signal now q))" for e w
    using inv by (intro awq_cancelTask_core [OF awq_admit_core(1) [OF inv]])
      (auto simp: awq_admit_effect(1) awq_inv_below)
  moreover have "awq_inv (awq_drain now ((awq_admit label waitMs signal now q)\<lparr>q_pending := q_pending q @ [q_nextId q]\<rparr>))"
    using False by (intro awq_drain_inv awq_admit_core(2) [OF inv]) simp
  ultimately show ?thesis
    using False by (cases signal) (auto simp: awq_run_def Let_def intro!: awq_cancelTask_inv)
qed

text \<open>Giving the slot of an ended task back, before its promise is settled.\<close>

definition awq_released :: "nat \<Rightarrow> outcome \<Rightarrow> awq \<Rightarrow> awq" where
  "awq_released i final q =
     (let q1 = q\<lparr>q_running := remove1 i (q_running q), q_inFlight := q_inFlight q - 1\<rparr>
      in awq_emit (Released i final (q_inFlight q1) (awq_live_pending q1)) q1)"

lemma awq_finish_eq:
  "awq_finish i r h now q =
     (if i \<in> set (q_running q)
      then awq_emit (Settled i (runBeforeRelease r h)) (awq_drain now (awq_released i (runBeforeRelease r h) q))
      else q)"
  by (simp add: awq_finish_def awq_released_def Let_def)

lemma awq_released_simps [simp]:
  "q_name (awq_released i f q) = q_name q" "q_closed (awq_released i f q) = q_closed q"
  "q_maxConcurrency (awq_released i f q) = q_maxConcurrency q"
  "q_nextId (awq_released i f q) = q_nextId q"
  "q_inFlight (awq_released i f q) = q_inFlight q - 1"
  "q_running (awq_released i f q) = remove1 i (q_running q)"
  "q_pending (awq_released i f q) = q_pending q"
  "q_tasks (awq_released i f q) = q_tasks q"
  "awq_task_is P (awq_released i f q) = awq_task_is P q"
  "started_ids (q_log (awq_released i f q)) = started_ids (q_log q)"
  "settled_ids (q_log (awq_released i f q)) = settled_ids (q_log q)"
  by (simp_all add: awq_released_def Let_def)

lemma awq_released_core:
  assumes "awq_inv q" "i \<in> set (q_running q)"
  shows "awq_core {} {i} (awq_released i f q)"
  using assms unfolding awq_inv_def awq_core_def by (auto simp: length_remove1)

lemma awq_settle_core:
  assumes "awq_core {} {i} q"
  shows "awq_core {} {} (awq_emit (Settled i f) q)"
  using assms unfolding awq_core_def by (auto simp: insert_absorb)

lemma awq_busy_emit [simp]: "awq_busy (awq_emit n q) = awq_busy q"
  by (simp add: awq_busy_def)

lemma awq_finish_inv:
  assumes "awq_inv q"
  shows "awq_inv (awq_finish i r h now q)"
proof (cases "i \<in> set (q_running q)")
  case True
  have closed: "q_closed q \<Longrightarrow> q_pending q = []" using assms by (auto simp: awq_inv_def dest: awq_busy_closed)
  have "awq_core {} {i} (awq_drain now (awq_released i f q))" and "awq_busy (awq_drain now (awq_released i f q))" for f
    using closed by (auto intro!: awq_drain_core awq_released_core assms True)
  then show ?thesis using True by (simp add: awq_finish_eq awq_inv_def awq_settle_core)
qed (simp add: awq_finish_eq assms)

text \<open>Closing cancels every waiting task, one after the other, and nothing drains.\<close>

lemma awq_closeTask_core:
  assumes "awq_core {} {} q" "q_closed q"
  shows "awq_core {} {} (awq_closeTask reason now i q) \<and> q_closed (awq_closeTask reason now i q) \<and>
    q_pending (awq_closeTask reason now i q) = filter (\<lambda>j. j \<noteq> i) (q_pending q)"
proof (cases "i \<in> awq_waits q")
  case True
  then obtain t where t: "q_tasks q i = Some t" "\<not> tk_started t" "\<not> tk_cancelled t"
    by (rule awq_waits_task)
  with assms show ?thesis
    by (auto simp: awq_closeTask_def awq_cancelTask_eq awq_drain_def intro!: awq_cancelled_core)
next
  case False
  then have "i \<notin> set (q_pending q)" using assms(1) by (auto simp: awq_core_def)
  then show ?thesis using False assms
    by (auto simp: awq_closeTask_def awq_cancelTask_eq awq_task_is_def split: option.splits)
qed

lemma awq_close_fold_core:
  assumes "awq_core {} {} q" "q_closed q"
  shows "awq_core {} {} (fold (awq_closeTask reason now) ids q) \<and> q_closed (fold (awq_closeTask reason now) ids q) \<and>
    set (q_pending (fold (awq_closeTask reason now) ids q)) = set (q_pending q) - set ids"
  using assms
proof (induction ids arbitrary: q)
  case (Cons i ids)
  then show ?case using awq_closeTask_core [OF Cons.prems, of reason now i] by auto
qed simp

lemma awq_closable_all:
  assumes "awq_core {} {} q"
  shows "awq_closable q = q_pending q"
proof -
  have "\<forall>i \<in> set (q_pending q). awq_task_is (\<lambda>t. \<not> tk_cancelled t \<and> \<not> tk_started t) q i"
    by (auto simp: awq_task_is_def elim: awq_core_pending [OF assms])
  then show ?thesis by (simp add: awq_closable_def)
qed

lemma awq_close_pending:
  assumes "awq_inv q"
  shows "awq_inv (fst (awq_close reason now q))" and "q_pending (fst (awq_close reason now q)) = []"
proof -
  have "awq_core {} {} (q\<lparr>q_closed := True\<rparr>)" using assms by (simp add: awq_inv_def awq_core_def)
  from awq_close_fold_core [OF this, of reason now "q_pending q"] awq_closable_all [OF this]
  show "awq_inv (fst (awq_close reason now q))" and "q_pending (fst (awq_close reason now q)) = []"
    using assms by (auto simp: awq_close_def Let_def awq_inv_def awq_busy_def dest: awq_busy_closed)
qed

lemma awq_step_inv: "awq_inv q \<Longrightarrow> awq_inv (awq_step e q)"
  by (cases e)
    (auto simp: awq_run_inv awq_finish_inv awq_close_pending awq_timer_def awq_abort_def
      intro: awq_cancelTask_inv split: option.splits)

interpretation awq: step_system awq_step awq_inv
  by unfold_locales (rule awq_step_inv)

section \<open>Progress of the tasks\<close>

text \<open>
  No operation takes anything back: a task stays in the store, its flags are only ever set,
  ids only grow, and the log is only appended to.
\<close>

definition awq_extends :: "awq \<Rightarrow> awq \<Rightarrow> bool" where
  "awq_extends q q' \<longleftrightarrow>
     (\<forall>i t. q_tasks q i = Some t \<longrightarrow>
        (\<exists>t'. q_tasks q' i = Some t' \<and> (tk_started t \<longrightarrow> tk_started t') \<and> (tk_cancelled t \<longrightarrow> tk_cancelled t'))) \<and>
     (\<forall>i. q_tasks q i = None \<longrightarrow> q_tasks q' i \<noteq> None \<longrightarrow> q_nextId q \<le> i) \<and>
     q_nextId q \<le> q_nextId q' \<and> prefix (q_log q) (q_log q') \<and>
     q_maxConcurrency q' = q_maxConcurrency q \<and> q_name q' = q_name q \<and> (q_closed q \<longrightarrow> q_closed q')"

lemma awq_extends_refl [simp]: "awq_extends q q"
  by (simp add: awq_extends_def)

lemma awq_extends_trans [trans]:
  assumes "awq_extends q q'" and "awq_extends q' q''"
  shows "awq_extends q q''"
proof -
  have "\<exists>t''. q_tasks q'' i = Some t'' \<and> (tk_started t \<longrightarrow> tk_started t'') \<and> (tk_cancelled t \<longrightarrow> tk_cancelled t'')"
    if "q_tasks q i = Some t" for i t
  proof -
    from assms(1) that obtain t' where "q_tasks q' i = Some t'" "tk_started t \<longrightarrow> tk_started t'"
      "tk_cancelled t \<longrightarrow> tk_cancelled t'" unfolding awq_extends_def by blast
    moreover from assms(2) this(1) obtain t'' where "q_tasks q'' i = Some t''"
      "tk_started t' \<longrightarrow> tk_started t''" "tk_cancelled t' \<longrightarrow> tk_cancelled t''" unfolding awq_extends_def by blast
    ultimately show ?thesis by blast
  qed
  moreover have "q_nextId q \<le> i" if "q_tasks q i = None" "q_tasks q'' i \<noteq> None" for i
  proof (cases "q_tasks q' i = None")
    case True
    with that(2) assms show ?thesis unfolding awq_extends_def by (meson order_trans)
  next
    case False
    with that(1) assms(1) show ?thesis unfolding awq_extends_def by blast
  qed
  ultimately show ?thesis
    using assms unfolding awq_extends_def by (auto intro: prefix_order.trans)
qed

lemma awq_extends_fields:
  "awq_extends q (awq_emit n q)"
  "awq_extends q (q\<lparr>q_pending := p\<rparr>)"
  "awq_extends q (q\<lparr>q_closed := True\<rparr>)"
  "awq_extends q (q\<lparr>q_running := r, q_inFlight := m\<rparr>)"
  "awq_extends q (awq_startTask now i q)"
  "q_tasks q i = Some t \<Longrightarrow> awq_extends q (awq_cancelled i err w t q)"
  "awq_extends q (awq_released i f q)"
  by (auto simp: awq_extends_def awq_startTask_def awq_cancelled_def awq_released_def Let_def awq_emit_def
      split: option.splits)

lemma awq_drainLoop_extends: "awq_extends q (awq_drainLoop now ids q)"
  by (induction now ids q rule: awq_drainLoop.induct)
    (auto intro: awq_extends_fields awq_extends_trans)

lemma awq_drain_extends: "awq_extends q (awq_drain now q)"
  by (simp add: awq_drain_def awq_drainLoop_extends)

lemma awq_cancelTask_extends: "awq_extends q (awq_cancelTask now i err w q)"
  by (auto simp: awq_cancelTask_eq split: option.splits
      intro: awq_extends_trans awq_extends_fields(6) awq_drain_extends)

lemma awq_admit_extends: "awq_inv q \<Longrightarrow> awq_extends q (awq_admit label waitMs signal now q)"
  by (auto simp: awq_extends_def awq_admit_def awq_inv_below(2))

lemma awq_run_extends:
  assumes "awq_inv q"
  shows "awq_extends q (fst (awq_run label waitMs signal now q))"
proof -
  have "awq_extends q (awq_cancelTask now i e w (awq_admit label waitMs signal now q))"
    and "awq_extends q (awq_drain now ((awq_admit label waitMs signal now q)\<lparr>q_pending := p\<rparr>))" for i e w p
    using awq_admit_extends [OF assms]
    by (blast intro: awq_extends_trans awq_cancelTask_extends awq_drain_extends awq_extends_fields)+
  then show ?thesis
    by (cases signal) (auto simp: awq_run_def Let_def intro: awq_extends_trans [OF _ awq_cancelTask_extends])
qed

lemma awq_finish_extends: "awq_extends q (awq_finish i r h now q)"
  by (auto simp: awq_finish_eq
      intro: awq_extends_trans [OF awq_extends_trans [OF awq_extends_fields(7) awq_drain_extends] awq_extends_fields(1)])

lemma awq_closeTask_extends: "awq_extends q (awq_closeTask reason now i q)"
  by (simp add: awq_closeTask_def awq_cancelTask_extends split: option.splits)

lemma awq_close_extends: "awq_extends q (fst (awq_close reason now q))"
proof -
  have "awq_extends q (fold (awq_closeTask reason now) ids q)" for ids q
    by (induction ids arbitrary: q) (auto intro: awq_extends_trans awq_closeTask_extends)
  then show ?thesis by (auto simp: awq_close_def Let_def intro: awq_extends_trans awq_extends_fields)
qed

lemma awq_step_extends: "awq_inv q \<Longrightarrow> awq_extends q (awq_step e q)"
  by (cases e)
    (auto simp: awq_run_extends awq_finish_extends awq_close_extends awq_timer_def awq_abort_def
      intro: awq_cancelTask_extends split: option.splits)

lemma awq_run_steps_extends: "awq_inv q \<Longrightarrow> awq_extends q (fold awq_step es q)"
  by (rule awq.run_induct [where P = "awq_extends q"]) (auto intro: awq_extends_trans awq_step_extends)

lemma awq_extends_waits:
  "awq_extends q q' \<Longrightarrow> i \<in> awq_waits q' \<Longrightarrow> i < q_nextId q \<Longrightarrow> i \<in> awq_waits q"
  by (fastforce simp: awq_extends_def awq_task_is_def split: option.splits)

lemma awq_extends_starts: "awq_extends q q' \<Longrightarrow> awq_starts q \<subseteq> awq_starts q'"
  by (fastforce simp: awq_extends_def awq_task_is_def split: option.splits)

text \<open>The number of waiting tasks ahead of \<open>i\<close>.\<close>

definition awq_ahead :: "nat \<Rightarrow> awq \<Rightarrow> nat" where
  "awq_ahead i q = card {j \<in> awq_waits q. j < i}"

lemma awq_ahead_step:
  assumes "awq_inv q" "i < q_nextId q" "awq_extends q q'"
  shows "awq_ahead i q' \<le> awq_ahead i q"
  unfolding awq_ahead_def using assms(2) awq_extends_waits [OF assms(3)]
  by (intro card_mono) auto

text \<open>When a slot is given back, the head of the queue starts.\<close>

lemma awq_finish_starts_head:
  assumes inv: "awq_inv q" and i: "i \<in> set (q_running q)" and p: "q_pending q = j # ids"
  shows "j \<in> awq_starts (awq_finish i r h now q)"
proof -
  note core = awq_core_parts [of "{}" "{}" q]
  have c: "awq_core {} {} q" using inv by (simp add: awq_inv_def)
  have "\<not> q_closed q" and full: "q_inFlight q = q_maxConcurrency q"
    using inv p by (auto simp: awq_inv_def awq_busy_def)
  define s where "s = awq_released i (runBeforeRelease r h) q"
  have s: "q_inFlight s < q_maxConcurrency s" "q_pending s = j # ids" "\<not> q_closed s"
    using core(13) [OF c] full p \<open>\<not> q_closed q\<close> by (auto simp: s_def)
  have j: "j \<in> awq_waits s" using core(1) [OF c] p by (simp add: s_def)
  then have nc: "awq_task_is (\<lambda>t. \<not> tk_cancelled t) s j"
    by (auto simp: awq_task_is_def split: option.splits)
  have "j \<in> awq_starts (awq_startTask now j s)"
    using awq_startTask_effect(2) [OF j] by simp
  then have "j \<in> awq_starts (awq_drain now s)"
    using s nc awq_extends_starts [OF awq_drainLoop_extends] by (fastforce simp: awq_drain_def)
  then show ?thesis using i by (simp add: awq_finish_eq s_def)
qed

text \<open>How many started tasks end along a run.\<close>

fun awq_completions :: "awq_event list \<Rightarrow> awq \<Rightarrow> nat" where
  "awq_completions [] q = 0"
| "awq_completions (e # es) q =
     (case e of FinishEv i _ _ _ \<Rightarrow> if i \<in> set (q_running q) then 1 else 0 | _ \<Rightarrow> 0)
     + awq_completions es (awq_step e q)"

lemma awq_ahead_finish:
  assumes inv: "awq_inv q" and i: "i \<in> set (q_running q)" and k: "k \<in> awq_waits (awq_finish i r h now q)"
    and kn: "k < q_nextId q"
  shows "awq_ahead k (awq_finish i r h now q) < awq_ahead k q"
proof -
  let ?q = "awq_finish i r h now q"
  have c: "awq_core {} {} q" using inv by (simp add: awq_inv_def)
  have kq: "k \<in> awq_waits q" by (rule awq_extends_waits [OF awq_finish_extends k kn])
  then have "k \<in> set (q_pending q)" using awq_core_parts(10) [OF c] by auto
  then obtain j ids where p: "q_pending q = j # ids" by (cases "q_pending q") auto
  have started: "j \<in> awq_starts ?q" by (rule awq_finish_starts_head [OF inv i p])
  then have "j \<noteq> k" using k awq_phases_disjoint by blast
  with p \<open>k \<in> set (q_pending q)\<close> have "j < k" using awq_core_parts(6) [OF c] by auto
  moreover have "j \<in> awq_waits q" using awq_core_parts(1) [OF c] p by auto
  moreover have "j \<notin> awq_waits ?q" using started awq_phases_disjoint by blast
  ultimately have "{x \<in> awq_waits ?q. x < k} \<subset> {x \<in> awq_waits q. x < k}"
    using awq_extends_waits [OF awq_finish_extends] kn by fastforce
  then show ?thesis unfolding awq_ahead_def by (intro psubset_card_mono) auto
qed

lemma awq_wait_bound_aux:
  "awq_inv q \<Longrightarrow> i < q_nextId q \<Longrightarrow> i \<in> awq_waits (fold awq_step es q) \<Longrightarrow> awq_completions es q \<le> awq_ahead i q"
proof (induction es arbitrary: q)
  case (Cons e es)
  let ?q = "awq_step e q"
  have inv: "awq_inv ?q" and ext: "awq_extends q ?q"
    using Cons.prems(1) by (auto intro: awq_step_inv awq_step_extends)
  have i: "i < q_nextId ?q" using Cons.prems(2) ext by (simp add: awq_extends_def)
  have w: "i \<in> awq_waits (fold awq_step es ?q)" using Cons.prems(3) by simp
  have IH: "awq_completions es ?q \<le> awq_ahead i ?q" by (rule Cons.IH [OF inv i w])
  have wi: "i \<in> awq_waits ?q" by (rule awq_extends_waits [OF awq_run_steps_extends [OF inv] w i])
  have le: "awq_ahead i ?q \<le> awq_ahead i q" by (rule awq_ahead_step [OF Cons.prems(1,2) ext])
  show ?case
  proof (cases "\<exists>k r h now. e = FinishEv k r h now \<and> k \<in> set (q_running q)")
    case True
    then obtain k r h now where e: "e = FinishEv k r h now" "k \<in> set (q_running q)" by blast
    have "awq_ahead i ?q < awq_ahead i q"
      using awq_ahead_finish [OF Cons.prems(1) e(2)] wi Cons.prems(2) e(1) by simp
    with IH e show ?thesis by simp
  next
    case False
    with IH le show ?thesis by (auto split: awq_event.splits)
  qed
qed simp

section \<open>Properties\<close>

text \<open>
  C38: After any sequence of calls, timer and abort callbacks and task completions, a queue made by
  the constructor has exactly \<open>inFlight\<close> tasks running, at most the configured number (at least
  one), never the same task twice, and it has no free slot while an uncancelled task waits.
\<close>

theorem awq_bounded_concurrency:
  "let q = fold awq_step es (awq_new name m) in
     q_inFlight q = length (q_running q) \<and> distinct (q_running q) \<and>
     q_inFlight q \<le> nat (max 1 m) \<and>
     (q_pending q = [] \<or> \<not> q_closed q \<and> q_inFlight q = nat (max 1 m))"
proof -
  let ?q = "fold awq_step es (awq_new name m)"
  have inv: "awq_inv ?q" by (intro awq.run_inv awq_new_inv)
  then have core: "awq_core {} {} ?q" by (simp add: awq_inv_def)
  have "q_maxConcurrency ?q = nat (max 1 m)"
    using awq_run_steps_extends [OF awq_new_inv [of name m], where es = es]
    by (auto simp: awq_extends_def awq_new_def max_def)
  then show ?thesis
    using awq_core_parts(3-5) [OF core] inv by (auto simp: Let_def awq_inv_def awq_busy_def)
qed

text \<open>
  Every promise that \<open>run\<close> hands out is settled at most once, and exactly when its task is
  cancelled or has ended: in any reachable state the settled tasks are the tasks that neither wait
  nor run, a started task is never cancelled, and no timer or abort listener of a settled or
  running task stays armed.
\<close>

theorem awq_settles_exactly_once:
  "let q = fold awq_step es (awq_new name m) in
     distinct (settled_ids (q_log q)) \<and>
     set (settled_ids (q_log q)) = {i \<in> dom (q_tasks q). i \<notin> set (q_pending q) \<and> i \<notin> set (q_running q)} \<and>
     {i. awq_task_is (\<lambda>t. tk_started t \<and> tk_cancelled t) q i} = {} \<and>
     {i. awq_task_is (\<lambda>t. tk_timer t \<or> tk_listening t) q i} \<subseteq> set (q_pending q)"
proof -
  let ?q = "fold awq_step es (awq_new name m)"
  have "awq_inv ?q" by (intro awq.run_inv awq_new_inv)
  then have core: "awq_core {} {} ?q" by (simp add: awq_inv_def)
  note parts = awq_core_parts [OF core]
  have waits: "awq_waits ?q = set (q_pending ?q)" using parts(1,10) by auto
  have dom: "dom (q_tasks ?q) = awq_waits ?q \<union> awq_starts ?q \<union> awq_cancels ?q"
    by (auto simp: awq_task_is_def split: option.splits)
  have "set (settled_ids (q_log ?q)) = {i \<in> dom (q_tasks ?q). i \<notin> awq_waits ?q \<and> i \<notin> set (q_running ?q)}"
    unfolding parts(9) dom using parts(2,14) awq_phases_disjoint by blast
  moreover have "{i. awq_task_is (\<lambda>t. tk_started t \<and> tk_cancelled t) ?q i} \<subseteq> awq_starts ?q \<inter> awq_cancels ?q"
    "{i. awq_task_is (\<lambda>t. tk_timer t \<or> tk_listening t) ?q i} \<subseteq> awq_armed ?q"
    by (auto simp: awq_task_is_def split: option.splits)
  ultimately show ?thesis unfolding Let_def waits [symmetric] using parts(8,12,14) by blast
qed

text \<open>
  Tasks are called in the order in which they were enqueued: the ids passed to \<open>fn\<close>,
  in call order, are increasing, and every task still waiting was enqueued after all of them.
\<close>

theorem awq_starts_in_order:
  "let q = fold awq_step es (awq_new name m) in
     sorted_wrt (<) (started_ids (q_log q) @ q_pending q)"
proof -
  let ?q = "fold awq_step es (awq_new name m)"
  have "awq_inv ?q" by (intro awq.run_inv awq_new_inv)
  then have core: "awq_core {} {} ?q" by (simp add: awq_inv_def)
  have "\<forall>i \<in> awq_starts ?q. \<forall>j \<in> set (q_pending ?q) \<union> {}. i < j"
    using core unfolding awq_core_def by (elim conjE)
  then show ?thesis using awq_core_parts(6,7,11) [OF core] by (simp add: Let_def sorted_wrt_append)
qed

text \<open>
  No task starves. A task waiting with \<open>n\<close> tasks ahead of it has been started or cancelled
  once more than \<open>n\<close> started tasks have ended, whatever else happens in between.
\<close>

theorem awq_no_starvation:
  assumes "awq_inv q" and "i \<in> set (q_pending q)"
    and "length (filter (\<lambda>j. j < i) (q_pending q)) < awq_completions es q"
  shows "i \<in> set (started_ids (q_log (fold awq_step es q))) \<or> i \<in> set (settled_ids (q_log (fold awq_step es q)))"
proof -
  have core: "awq_core {} {} q" using assms(1) by (simp add: awq_inv_def)
  note parts = awq_core_parts [OF core]
  have waits: "awq_waits q = set (q_pending q)" using parts(1,10) by auto
  have "distinct (filter (\<lambda>j. j < i) (q_pending q))"
    using parts(6) by (simp add: sorted_wrt_less_distinct)
  then have "length (filter (\<lambda>j. j < i) (q_pending q)) = awq_ahead i q"
    unfolding awq_ahead_def waits by (metis distinct_card set_filter)
  moreover have i: "i \<in> awq_waits q" using assms(2) waits by simp
  moreover from i have "i < q_nextId q" using awq_inv_below(1) [OF assms(1)] by blast
  ultimately have no: "i \<notin> awq_waits (fold awq_step es q)"
    using awq_wait_bound_aux [OF assms(1)] assms(3) by fastforce
  have inv: "awq_inv (fold awq_step es q)" by (rule awq.run_inv [OF assms(1)])
  then have core': "awq_core {} {} (fold awq_step es q)" by (simp add: awq_inv_def)
  have "i \<in> awq_waits (fold awq_step es q) \<union> awq_starts (fold awq_step es q) \<union> awq_cancels (fold awq_step es q)"
    using awq_run_steps_extends [OF assms(1), of es] i
    by (fastforce simp: awq_extends_def awq_task_is_def split: option.splits)
  then show ?thesis
    using no awq_core_parts(9,11) [OF core'] awq_core_parts(2,14) [OF core'] by blast
qed

definition awq_example :: awq where
  "awq_example = fold awq_step
     [RunEv ''a'' None NoSignal 0, RunEv ''b'' (Some 50) NoSignal 1, RunEv ''c'' None NoSignal 2] (awq_new ''w'' 1)"

lemma awq_example_eq: "q_pending awq_example = [2, 3] \<and> q_running awq_example = [1]"
  by code_simp

lemma awq_no_starvation_witness:
  "3 \<in> set (started_ids (q_log (fold awq_step
      [FinishEv 1 (Fulfilled JsUndefined) NoHook 5, FinishEv 2 (Fulfilled JsUndefined) NoHook 9] awq_example))) \<or>
   3 \<in> set (settled_ids (q_log (fold awq_step
      [FinishEv 1 (Fulfilled JsUndefined) NoHook 5, FinishEv 2 (Fulfilled JsUndefined) NoHook 9] awq_example)))"
proof (rule awq_no_starvation)
  show "awq_inv awq_example" unfolding awq_example_def by (intro awq.run_inv awq_new_inv)
  show "3 \<in> set (q_pending awq_example)" by (simp add: awq_example_eq)
  show "length (filter (\<lambda>j. j < 3) (q_pending awq_example)) < awq_completions
      [FinishEv 1 (Fulfilled JsUndefined) NoHook 5, FinishEv 2 (Fulfilled JsUndefined) NoHook 9] awq_example"
    by code_simp
qed

text \<open>A closed queue with its invariant has no waiting task, so no callback can start one.\<close>

lemma awq_closed_step:
  assumes "awq_inv q" "q_closed q"
  shows "started_ids (q_log (awq_step e q)) = started_ids (q_log q)"
proof -
  have core: "awq_core {} {} q" and "q_pending q = []"
    using assms by (auto simp: awq_inv_def dest: awq_busy_closed)
  then have "awq_waits q = {}" using awq_core_parts(10) [OF core] by auto
  then have cancel: "awq_cancelTask now i err w q = q" for now i err w
    by (auto simp: awq_cancelTask_eq awq_task_is_def split: option.splits)
  show ?thesis
    using assms(2) by (cases e)
      (auto simp: awq_run_def awq_timer_def awq_abort_def awq_close_def cancel awq_finish_eq awq_drain_def split: option.splits)
qed

lemma awq_closed_steps:
  assumes "awq_inv q" "q_closed q"
  shows "started_ids (q_log (fold awq_step es q)) = started_ids (q_log q) \<and> q_closed (fold awq_step es q)"
  using assms
proof (induction es arbitrary: q)
  case (Cons e es)
  have "q_closed (awq_step e q)"
    using awq_step_extends [OF Cons.prems(1), of e] Cons.prems(2) by (simp add: awq_extends_def)
  then show ?case
    using Cons.IH [of "awq_step e q"] Cons.prems awq_closed_step by (simp add: awq_step_inv)
qed simp

lemma awq_close_started:
  "q_closed q \<Longrightarrow> started_ids (q_log (fold (awq_closeTask reason now) ids q)) = started_ids (q_log q)"
proof (induction ids arbitrary: q)
  case (Cons i ids)
  have "q_closed (awq_closeTask reason now i q)"
    using Cons.prems awq_closeTask_extends [of q] by (simp add: awq_extends_def)
  moreover have "started_ids (q_log (awq_closeTask reason now i q)) = started_ids (q_log q)"
    using Cons.prems by (auto simp: awq_closeTask_def awq_cancelTask_eq awq_drain_def awq_cancelled_effect split: option.splits)
  ultimately show ?case using Cons.IH by simp
qed simp

text \<open>
  Closing is terminal. In any reachable open queue, \<open>close\<close> leaves nothing waiting, rejects
  every task that was waiting and returns their number; whatever happens afterwards, a later
  \<open>run\<close> is refused without touching the queue and no further task is ever started.
\<close>

theorem awq_close_is_terminal:
  "let q = fold awq_step before (awq_new name m); q' = fst (awq_close reason now q); later = fold awq_step es q' in
     q_pending q' = [] \<and>
     (q_closed q \<or> snd (awq_close reason now q) = length (q_pending q)) \<and>
     set (q_pending q) \<subseteq> set (settled_ids (q_log q')) \<and>
     fst (awq_run label w signal t later) = later \<and>
     started_ids (q_log later) = started_ids (q_log q)"
proof -
  define q where "q = fold awq_step before (awq_new name m)"
  define q' where "q' = fst (awq_close reason now q)"
  have inv: "awq_inv q" unfolding q_def by (intro awq.run_inv awq_new_inv)
  have inv': "awq_inv q'" unfolding q'_def by (rule awq_close_pending [OF inv])
  have core: "awq_core {} {} q" and core': "awq_core {} {} q'" using inv inv' by (auto simp: awq_inv_def)
  have pend: "q_pending q' = []" unfolding q'_def by (rule awq_close_pending [OF inv])
  have "awq_core {} {} (q\<lparr>q_closed := True\<rparr>)" using core by (simp add: awq_core_def)
  from awq_closable_all [OF this] awq_close_fold_core [OF this]
  have count: "q_closed q \<or> snd (awq_close reason now q) = length (q_pending q)" and closed: "q_closed q'"
    by (auto simp: awq_close_def q'_def Let_def)
  have started: "started_ids (q_log q') = started_ids (q_log q)"
    by (simp add: q'_def awq_close_def Let_def awq_close_started)
  have "set (q_pending q) \<subseteq> set (settled_ids (q_log q'))"
  proof
    fix i assume "i \<in> set (q_pending q)"
    then have i: "i \<in> awq_waits q" using awq_core_parts(1) [OF core] by blast
    moreover have "i \<notin> awq_waits q'" using awq_core_parts(10) [OF core'] pend by auto
    moreover have "awq_extends q q'" by (simp add: q'_def awq_close_extends)
    moreover have "awq_starts q' = awq_starts q"
      using started awq_core_parts(11) [OF core] awq_core_parts(11) [OF core'] by simp
    ultimately have "i \<in> awq_cancels q'"
      using awq_phases_disjoint(1) [OF i]
      by (fastforce simp: awq_extends_def awq_task_is_def split: option.splits)
    then show "i \<in> set (settled_ids (q_log q'))"
      using awq_core_parts(9) [OF core'] by simp
  qed
  then show ?thesis
    using pend count started awq_closed_steps [OF inv' closed, of es]
    by (simp add: Let_def q_def [symmetric] q'_def [symmetric] awq_run_def)
qed

end
