(* ===== verification/AssetLock.thy ===== *)
theory AssetLock
  imports AsyncWorkQueue
begin

text \<open>
  The per-key state of \<open>ProtectedAssetGate\<close> (\<open>shared/concurrency/classes/AsyncGate.js\<close>): a
  reader/writer lock with a queue whose insertion policy is pluggable. The gate's own fields that
  these operations read (its name, its policy, whether it is closed) are their arguments; the
  theory ProtectedAssetGate puts the states of all keys together. The conventions are those of
  the theory AsyncWorkQueue: task objects in a store, effects in a log.
\<close>

section \<open>State\<close>

datatype gate_policy = ReadPriority | Fifo | WriterPriority

definition gate_policy_of :: "string \<Rightarrow> gate_policy" where
  "gate_policy_of policy = (if policy = ''fifo'' then Fifo
     else if policy = ''writer-priority'' then WriterPriority else ReadPriority)"

definition PRIORITY_AGING_MS :: int where
  "PRIORITY_AGING_MS = 30000"

text \<open>A waiter; \<open>wt_blocking\<close> is the mode (\<open>blocking\<close> is a writer, \<open>non-blocking\<close> a reader).\<close>

record waiter =
  wt_blocking :: bool
  wt_priority :: int
  wt_label :: string
  wt_requestedAt :: int
  wt_depthAtEnqueue :: nat
  wt_inFlightAtEnqueue :: nat
  wt_maxWaitMs :: int
  wt_timer :: bool
  wt_listening :: bool
  wt_cancelled :: bool
  wt_started :: bool

text \<open>\<open>Cleanup\<close> is the \<open>queueMicrotask\<close> call of \<open>#cleanupState\<close>.\<close>

datatype lock_notice =
    WStarted nat int nat nat
  | WReleased nat outcome
  | WCancelled nat js_value int
  | WSettled nat outcome
  | Cleanup

record lock =
  l_activeReaders :: nat
  l_activeWriter :: bool
  l_queue :: "nat list"
  l_tasks :: "nat \<Rightarrow> waiter option"
  l_next :: nat
  l_running :: "nat list"
  l_log :: "lock_notice list"

text \<open>\<open>#stateFor\<close> on a fresh key.\<close>

definition lock_new :: lock where
  "lock_new = \<lparr>l_activeReaders = 0, l_activeWriter = False, l_queue = [], l_tasks = Map.empty,
     l_next = 0, l_running = [], l_log = []\<rparr>"

definition wt_is :: "(waiter \<Rightarrow> bool) \<Rightarrow> lock \<Rightarrow> nat \<Rightarrow> bool" where
  "wt_is P s i = (case l_tasks s i of None \<Rightarrow> False | Some t \<Rightarrow> P t)"

definition lock_emit :: "lock_notice \<Rightarrow> lock \<Rightarrow> lock" where
  "lock_emit n s = s\<lparr>l_log := l_log s @ [n]\<rparr>"

definition lock_live :: "(waiter \<Rightarrow> bool) \<Rightarrow> lock \<Rightarrow> nat" where
  "lock_live P s = length (filter (wt_is (\<lambda>t. \<not> wt_cancelled t \<and> P t) s) (l_queue s))"

section \<open>Queue insertion\<close>

definition splice_in :: "nat \<Rightarrow> 'a \<Rightarrow> 'a list \<Rightarrow> 'a list" where
  "splice_in n x xs = take n xs @ x # drop n xs"

text \<open>The first index of the list that satisfies the predicate, or its length.\<close>

fun scan_index :: "('a \<Rightarrow> bool) \<Rightarrow> 'a list \<Rightarrow> nat" where
  "scan_index P [] = 0"
| "scan_index P (x # xs) = (if P x then 0 else Suc (scan_index P xs))"

text \<open>
  The priority scan stops at a live queued writer of effective priority below the newcomer's; an
  aged writer has the effective priority infinity.
\<close>

definition jumpable :: "int \<Rightarrow> int \<Rightarrow> waiter \<Rightarrow> bool" where
  "jumpable now p e \<longleftrightarrow> \<not> wt_cancelled e \<and> wt_blocking e \<and>
     \<not> (now - wt_requestedAt e \<ge> PRIORITY_AGING_MS) \<and> wt_priority e < p"

definition insertTask :: "gate_policy \<Rightarrow> int \<Rightarrow> nat \<Rightarrow> waiter \<Rightarrow> lock \<Rightarrow> lock" where
  "insertTask policy now i t s =
     (if wt_blocking t \<and> wt_priority t > 0
      then s\<lparr>l_queue := splice_in (scan_index (wt_is (jumpable now (wt_priority t)) s) (l_queue s)) i (l_queue s)\<rparr>
      else if policy = WriterPriority
      then if wt_blocking t
           then s\<lparr>l_queue := splice_in (scan_index (wt_is (\<lambda>e. \<not> wt_cancelled e \<and> \<not> wt_blocking e) s) (l_queue s)) i (l_queue s)\<rparr>
           else s\<lparr>l_queue := l_queue s @ [i]\<rparr>
      else if policy = Fifo \<or> wt_blocking t \<or> \<not> l_activeWriter s
      then s\<lparr>l_queue := l_queue s @ [i]\<rparr>
      else s\<lparr>l_queue := splice_in (scan_index (\<lambda>j. \<not> wt_is (\<lambda>e. \<not> wt_blocking e) s j) (l_queue s)) i (l_queue s)\<rparr>)"

section \<open>Draining\<close>

definition cleanupState :: "lock \<Rightarrow> lock" where
  "cleanupState s = (if l_activeWriter s \<or> l_activeReaders s > 0 \<or> l_queue s \<noteq> [] then s else lock_emit Cleanup s)"

text \<open>\<open>#startReader\<close> and \<open>#startWriter\<close> with the synchronous part of \<open>#runTask\<close>.\<close>

definition startWaiter :: "int \<Rightarrow> nat \<Rightarrow> lock \<Rightarrow> lock" where
  "startWaiter now i s = (case l_tasks s i of None \<Rightarrow> s
     | Some t \<Rightarrow>
         let s1 = s\<lparr>l_tasks := (l_tasks s)(i \<mapsto> t\<lparr>wt_started := True, wt_timer := False, wt_listening := False\<rparr>),
                    l_running := l_running s @ [i]\<rparr>;
             s2 = (if wt_blocking t then s1\<lparr>l_activeWriter := True\<rparr>
                   else s1\<lparr>l_activeReaders := l_activeReaders s1 + 1\<rparr>)
         in lock_emit (WStarted i (max 0 (now - wt_requestedAt t)) (wt_depthAtEnqueue t) (wt_inFlightAtEnqueue t)) s2)"

fun lock_drainLoop :: "int \<Rightarrow> nat list \<Rightarrow> lock \<Rightarrow> lock" where
  "lock_drainLoop now [] s = cleanupState (s\<lparr>l_queue := []\<rparr>)"
| "lock_drainLoop now (i # ids) s =
     (if wt_is wt_cancelled s i then lock_drainLoop now ids s
      else if wt_is (\<lambda>t. \<not> wt_blocking t) s i then lock_drainLoop now ids (startWaiter now i s)
      else if l_activeReaders s > 0 then s\<lparr>l_queue := i # ids\<rparr>
      else startWaiter now i (s\<lparr>l_queue := ids\<rparr>))"

definition lock_drain :: "bool \<Rightarrow> int \<Rightarrow> lock \<Rightarrow> lock" where
  "lock_drain closed now s =
     (if closed then cleanupState s
      else if l_activeWriter s then s
      else lock_drainLoop now (l_queue s) s)"

section \<open>Operations\<close>

definition cancelWaiter :: "bool \<Rightarrow> int \<Rightarrow> nat \<Rightarrow> js_value \<Rightarrow> int \<Rightarrow> lock \<Rightarrow> lock" where
  "cancelWaiter closed now i err waitMs s = (case l_tasks s i of None \<Rightarrow> s
     | Some t \<Rightarrow> if wt_started t \<or> wt_cancelled t then s
       else let s1 = s\<lparr>l_tasks := (l_tasks s)(i \<mapsto> t\<lparr>wt_cancelled := True, wt_timer := False, wt_listening := False\<rparr>),
                       l_queue := filter (\<lambda>j. j \<noteq> i) (l_queue s)\<rparr>;
                s2 = lock_emit (WCancelled i err waitMs) (lock_emit (WSettled i (Rejected err)) s1)
            in lock_drain closed now s2)"

definition newWaiter :: "bool \<Rightarrow> int \<Rightarrow> string \<Rightarrow> int option \<Rightarrow> abort_signal \<Rightarrow> int \<Rightarrow> lock \<Rightarrow> waiter" where
  "newWaiter blocking priority label waitMs signal now s =
     \<lparr> wt_blocking = blocking, wt_priority = (if blocking then priority else 0), wt_label = label,
       wt_requestedAt = now, wt_depthAtEnqueue = lock_live (\<lambda>_. True) s,
       wt_inFlightAtEnqueue = l_activeReaders s + (if l_activeWriter s then 1 else 0),
       wt_maxWaitMs = maxWait waitMs,
       wt_timer = (\<not> is_aborted signal \<and> waitMs \<noteq> None \<and> maxWait waitMs > 0),
       wt_listening = (signal = Signal), wt_cancelled = False, wt_started = False \<rparr>"

text \<open>\<open>#enqueue\<close> on the state of an open gate; the new waiter's id is \<open>l_next\<close>.\<close>

definition lock_enqueue ::
  "string \<Rightarrow> gate_policy \<Rightarrow> string \<Rightarrow> bool \<Rightarrow> int \<Rightarrow> string \<Rightarrow> int option \<Rightarrow> abort_signal \<Rightarrow> int \<Rightarrow> lock \<Rightarrow> lock" where
  "lock_enqueue name policy key blocking priority label waitMs signal now s =
     (let i = l_next s;
          t = newWaiter blocking priority label waitMs signal now s;
          s1 = s\<lparr>l_next := i + 1, l_tasks := (l_tasks s)(i \<mapsto> t)\<rparr>
      in (case signal of
            AbortedSignal reason \<Rightarrow> cancelWaiter False now i (gateAbortError reason key label) 0 s1
          | _ \<Rightarrow>
            let s2 = lock_drain False now (insertTask policy now i t s1)
            in if waitMs \<noteq> None \<and> maxWait waitMs = 0 \<and> \<not> wt_is wt_started s2 i
               then cancelWaiter False now i (gate_timeout_error name 0 key label) 0 s2
               else s2))"

definition lock_timer :: "string \<Rightarrow> string \<Rightarrow> bool \<Rightarrow> nat \<Rightarrow> int \<Rightarrow> lock \<Rightarrow> lock" where
  "lock_timer name key closed i now s = (case l_tasks s i of None \<Rightarrow> s
     | Some t \<Rightarrow> if wt_timer t
         then cancelWaiter closed now i (gate_timeout_error name (wt_maxWaitMs t) key (wt_label t)) (wt_maxWaitMs t) s
         else s)"

definition lock_abort :: "string \<Rightarrow> bool \<Rightarrow> nat \<Rightarrow> js_value \<Rightarrow> int \<Rightarrow> lock \<Rightarrow> lock" where
  "lock_abort key closed i reason now s = (case l_tasks s i of None \<Rightarrow> s
     | Some t \<Rightarrow> if wt_listening t
         then cancelWaiter closed now i (gateAbortError reason key (wt_label t)) (max 0 (now - wt_requestedAt t)) s
         else s)"

text \<open>The \<open>release\<close> closure of a started waiter.\<close>

definition lock_release :: "nat \<Rightarrow> lock \<Rightarrow> lock" where
  "lock_release i s = (if wt_is wt_blocking s i then s\<lparr>l_activeWriter := False\<rparr>
     else s\<lparr>l_activeReaders := l_activeReaders s - 1\<rparr>)"

text \<open>The promise chain of \<open>#runTask\<close> ends: release, hook, drain, and then the settlement.\<close>

definition lock_finish :: "bool \<Rightarrow> nat \<Rightarrow> outcome \<Rightarrow> hook_outcome \<Rightarrow> int \<Rightarrow> lock \<Rightarrow> lock" where
  "lock_finish closed i r h now s =
     (if i \<in> set (l_running s)
      then let final = runBeforeRelease r h;
               s1 = lock_release i (s\<lparr>l_running := remove1 i (l_running s)\<rparr>);
               s2 = lock_emit (WReleased i final) s1
           in lock_emit (WSettled i final) (lock_drain closed now s2)
      else s)"

definition lock_closable :: "lock \<Rightarrow> nat list" where
  "lock_closable s = filter (wt_is (\<lambda>t. \<not> wt_cancelled t \<and> \<not> wt_started t) s) (l_queue s)"

definition lock_closeWaiter :: "string \<Rightarrow> string \<Rightarrow> string \<Rightarrow> int \<Rightarrow> nat \<Rightarrow> lock \<Rightarrow> lock" where
  "lock_closeWaiter name key reason now i s = (case l_tasks s i of None \<Rightarrow> s
     | Some t \<Rightarrow> cancelWaiter True now i (gateClosedError name (wt_label t) reason key)
                   (max 0 (now - wt_requestedAt t)) s)"

text \<open>One key of \<open>close\<close>: the count goes up when \<open>#cancelWaiter\<close> returns true.\<close>

fun lock_closeStep :: "string \<Rightarrow> string \<Rightarrow> string \<Rightarrow> int \<Rightarrow> nat \<Rightarrow> lock \<times> nat \<Rightarrow> lock \<times> nat" where
  "lock_closeStep name key reason now i (s, n) =
     (lock_closeWaiter name key reason now i s,
      if wt_is (\<lambda>t. \<not> wt_cancelled t \<and> \<not> wt_started t) s i then n + 1 else n)"

definition lock_close :: "string \<Rightarrow> string \<Rightarrow> string \<Rightarrow> int \<Rightarrow> lock \<Rightarrow> lock \<times> nat" where
  "lock_close name key reason now s = fold (lock_closeStep name key reason now) (lock_closable s) (s, 0)"

datatype lock_event =
    LEnqueue bool int string "int option" abort_signal int
  | LTimer nat int
  | LAbort nat js_value int
  | LFinish nat outcome hook_outcome int
  | LClose string int

text \<open>One event on a lock; after \<open>LClose\<close> the gate is closed.\<close>

fun lock_step :: "string \<Rightarrow> gate_policy \<Rightarrow> string \<Rightarrow> bool \<Rightarrow> lock_event \<Rightarrow> lock \<Rightarrow> lock" where
  "lock_step name policy key closed (LEnqueue blocking priority label waitMs signal now) s =
     (if closed then s else lock_enqueue name policy key blocking priority label waitMs signal now s)"
| "lock_step name policy key closed (LTimer i now) s = lock_timer name key closed i now s"
| "lock_step name policy key closed (LAbort i reason now) s = lock_abort key closed i reason now s"
| "lock_step name policy key closed (LFinish i r h now) s = lock_finish closed i r h now s"
| "lock_step name policy key closed (LClose reason now) s = fst (lock_close name key reason now s)"

section \<open>Invariant\<close>

definition lstarted_ids :: "lock_notice list \<Rightarrow> nat list" where
  "lstarted_ids ns = concat (map (\<lambda>n. case n of WStarted i _ _ _ \<Rightarrow> [i] | _ \<Rightarrow> []) ns)"

definition lsettled_ids :: "lock_notice list \<Rightarrow> nat list" where
  "lsettled_ids ns = concat (map (\<lambda>n. case n of WSettled i _ \<Rightarrow> [i] | _ \<Rightarrow> []) ns)"

lemma lock_ids_simps [simp]:
  "lstarted_ids [] = []" "lsettled_ids [] = []"
  "lstarted_ids (xs @ ys) = lstarted_ids xs @ lstarted_ids ys"
  "lsettled_ids (xs @ ys) = lsettled_ids xs @ lsettled_ids ys"
  "lstarted_ids (n # ns) = (case n of WStarted i _ _ _ \<Rightarrow> i # lstarted_ids ns | _ \<Rightarrow> lstarted_ids ns)"
  "lsettled_ids (n # ns) = (case n of WSettled i _ \<Rightarrow> i # lsettled_ids ns | _ \<Rightarrow> lsettled_ids ns)"
  by (auto simp: lstarted_ids_def lsettled_ids_def split: lock_notice.splits)

abbreviation l_waits :: "lock \<Rightarrow> nat set" where
  "l_waits s \<equiv> {i. wt_is (\<lambda>t. \<not> wt_started t \<and> \<not> wt_cancelled t) s i}"

abbreviation l_starts :: "lock \<Rightarrow> nat set" where
  "l_starts s \<equiv> {i. wt_is wt_started s i}"

abbreviation l_cancels :: "lock \<Rightarrow> nat set" where
  "l_cancels s \<equiv> {i. wt_is wt_cancelled s i}"

abbreviation l_armed :: "lock \<Rightarrow> nat set" where
  "l_armed s \<equiv> {i. wt_is (\<lambda>t. wt_timer t \<or> wt_listening t) s i}"

abbreviation l_writers :: "lock \<Rightarrow> nat set" where
  "l_writers s \<equiv> {i. wt_is wt_blocking s i}"

text \<open>Who holds the lock: nobody, some readers, or one writer; the counters say which.\<close>

definition lock_held :: "lock \<Rightarrow> bool" where
  "lock_held s \<longleftrightarrow>
     (if l_activeWriter s then l_activeReaders s = 0 \<and> (\<exists>w \<in> l_writers s. l_running s = [w])
      else l_activeReaders s = length (l_running s) \<and> set (l_running s) \<inter> l_writers s = {})"

text \<open>As in the theory AsyncWorkQueue, \<open>X\<close> waits outside the queue, \<open>Y\<close> is about to be settled.\<close>

definition lock_core :: "nat set \<Rightarrow> nat set \<Rightarrow> lock \<Rightarrow> bool" where
  "lock_core X Y s \<longleftrightarrow>
     distinct (l_queue s) \<and>
     set (l_queue s) \<subseteq> l_waits s \<and>
     l_waits s \<subseteq> set (l_queue s) \<union> X \<and>
     distinct (l_running s) \<and>
     set (l_running s) \<subseteq> l_starts s \<and>
     lock_held s \<and>
     dom (l_tasks s) \<subseteq> {..<l_next s} \<and>
     l_starts s \<inter> l_cancels s = {} \<and>
     l_armed s \<subseteq> l_waits s \<and>
     distinct (lsettled_ids (l_log s)) \<and>
     set (lsettled_ids (l_log s)) = l_cancels s \<union> (l_starts s - set (l_running s)) - Y \<and>
     Y \<subseteq> l_starts s - set (l_running s) \<and>
     distinct (lstarted_ids (l_log s)) \<and>
     set (lstarted_ids (l_log s)) = l_starts s"

text \<open>
  Work conservation: in an open gate a waiter waits only behind an active writer, or behind a
  waiting writer at the head of the queue that in turn waits for the active readers.
\<close>

definition lock_busy :: "bool \<Rightarrow> lock \<Rightarrow> bool" where
  "lock_busy closed s \<longleftrightarrow> l_queue s = [] \<or>
     \<not> closed \<and> (l_activeWriter s \<or> l_activeReaders s > 0 \<and> hd (l_queue s) \<in> l_writers s)"

definition lock_inv :: "bool \<Rightarrow> lock \<Rightarrow> bool" where
  "lock_inv closed s \<longleftrightarrow> lock_core {} {} s \<and> lock_busy closed s"

definition lock_idle :: "lock \<Rightarrow> bool" where
  "lock_idle s \<longleftrightarrow> \<not> l_activeWriter s \<and> l_activeReaders s = 0 \<and> l_queue s = []"

lemma wt_is_upd [simp]:
  "wt_is P (s\<lparr>l_tasks := f\<rparr>) i = (case f i of None \<Rightarrow> False | Some t \<Rightarrow> P t)"
  by (simp add: wt_is_def)

lemma wt_is_frame [simp]:
  "wt_is P (s\<lparr>l_queue := p\<rparr>) = wt_is P s"
  "wt_is P (s\<lparr>l_activeReaders := n\<rparr>) = wt_is P s"
  "wt_is P (s\<lparr>l_activeWriter := b\<rparr>) = wt_is P s"
  "wt_is P (s\<lparr>l_running := r\<rparr>) = wt_is P s"
  "wt_is P (s\<lparr>l_log := l\<rparr>) = wt_is P s"
  "wt_is P (s\<lparr>l_next := m\<rparr>) = wt_is P s"
  by (simp_all add: wt_is_def fun_eq_iff)

lemma lock_emit_simps [simp]:
  "l_activeReaders (lock_emit n s) = l_activeReaders s" "l_activeWriter (lock_emit n s) = l_activeWriter s"
  "l_queue (lock_emit n s) = l_queue s" "l_next (lock_emit n s) = l_next s"
  "l_tasks (lock_emit n s) = l_tasks s" "l_running (lock_emit n s) = l_running s"
  "l_log (lock_emit n s) = l_log s @ [n]" "wt_is P (lock_emit n s) = wt_is P s"
  by (simp_all add: lock_emit_def)

lemma l_phases_disjoint:
  "i \<in> l_waits s \<Longrightarrow> i \<notin> l_starts s" "i \<in> l_waits s \<Longrightarrow> i \<notin> l_cancels s"
  by (auto simp: wt_is_def split: option.splits)

lemma l_waits_task:
  assumes "i \<in> l_waits s"
  obtains t where "l_tasks s i = Some t" "\<not> wt_started t" "\<not> wt_cancelled t"
  using assms by (auto simp: wt_is_def split: option.splits)

lemma lock_core_parts:
  assumes "lock_core X Y s"
  shows "distinct (l_queue s)" and "set (l_queue s) \<subseteq> l_waits s" and "l_waits s \<subseteq> set (l_queue s) \<union> X"
    and "distinct (l_running s)" and "set (l_running s) \<subseteq> l_starts s" and "lock_held s"
    and "dom (l_tasks s) \<subseteq> {..<l_next s}" and "l_starts s \<inter> l_cancels s = {}"
    and "l_armed s \<subseteq> l_waits s" and "distinct (lsettled_ids (l_log s))"
    and "set (lsettled_ids (l_log s)) = l_cancels s \<union> (l_starts s - set (l_running s)) - Y"
    and "Y \<subseteq> l_starts s - set (l_running s)" and "distinct (lstarted_ids (l_log s))"
    and "set (lstarted_ids (l_log s)) = l_starts s"
  using assms unfolding lock_core_def by - (elim conjE, assumption)+

lemma lock_held_cong:
  assumes "l_activeWriter s' = l_activeWriter s" "l_activeReaders s' = l_activeReaders s"
    "l_running s' = l_running s" "set (l_running s) \<inter> l_writers s' = set (l_running s) \<inter> l_writers s"
  shows "lock_held s' = lock_held s"
proof -
  have "(\<exists>w \<in> l_writers s'. l_running s = [w]) = (\<exists>w \<in> l_writers s. l_running s = [w])"
    using assms(4) by (cases "l_running s") auto
  then show ?thesis using assms unfolding lock_held_def by simp
qed

lemma lock_held_idle: "lock_held s \<Longrightarrow> \<not> l_activeWriter s \<Longrightarrow> l_activeReaders s = 0 \<Longrightarrow> l_running s = []"
  by (simp add: lock_held_def)

section \<open>Starting and draining\<close>

lemma startWaiter_effect:
  assumes "i \<in> l_waits s"
  shows "l_waits (startWaiter now i s) = l_waits s - {i}"
    and "l_starts (startWaiter now i s) = insert i (l_starts s)"
    and "l_cancels (startWaiter now i s) = l_cancels s"
    and "l_armed (startWaiter now i s) = l_armed s - {i}"
    and "l_writers (startWaiter now i s) = l_writers s"
    and "dom (l_tasks (startWaiter now i s)) = dom (l_tasks s)"
    and "l_running (startWaiter now i s) = l_running s @ [i]"
    and "lstarted_ids (l_log (startWaiter now i s)) = lstarted_ids (l_log s) @ [i]"
    and "lsettled_ids (l_log (startWaiter now i s)) = lsettled_ids (l_log s)"
    and "i \<notin> l_writers s \<Longrightarrow> l_activeReaders (startWaiter now i s) = l_activeReaders s + 1"
    and "i \<notin> l_writers s \<Longrightarrow> l_activeWriter (startWaiter now i s) = l_activeWriter s"
    and "i \<in> l_writers s \<Longrightarrow> l_activeReaders (startWaiter now i s) = l_activeReaders s"
    and "i \<in> l_writers s \<Longrightarrow> l_activeWriter (startWaiter now i s)"
proof -
  obtain t where "l_tasks s i = Some t" "\<not> wt_started t" "\<not> wt_cancelled t"
    using assms by (rule l_waits_task)
  note * = this
  show "l_waits (startWaiter now i s) = l_waits s - {i}"
    "l_starts (startWaiter now i s) = insert i (l_starts s)"
    "l_cancels (startWaiter now i s) = l_cancels s"
    "l_armed (startWaiter now i s) = l_armed s - {i}"
    "l_writers (startWaiter now i s) = l_writers s"
    using * by (auto simp: startWaiter_def Let_def wt_is_def split: option.splits if_splits)
  show "dom (l_tasks (startWaiter now i s)) = dom (l_tasks s)"
    "l_running (startWaiter now i s) = l_running s @ [i]"
    "lstarted_ids (l_log (startWaiter now i s)) = lstarted_ids (l_log s) @ [i]"
    "lsettled_ids (l_log (startWaiter now i s)) = lsettled_ids (l_log s)"
    "i \<notin> l_writers s \<Longrightarrow> l_activeReaders (startWaiter now i s) = l_activeReaders s + 1"
    "i \<notin> l_writers s \<Longrightarrow> l_activeWriter (startWaiter now i s) = l_activeWriter s"
    "i \<in> l_writers s \<Longrightarrow> l_activeReaders (startWaiter now i s) = l_activeReaders s"
    "i \<in> l_writers s \<Longrightarrow> l_activeWriter (startWaiter now i s)"
    using * by (auto simp: startWaiter_def Let_def wt_is_def)
qed

lemma startWaiter_simps [simp]:
  "l_queue (startWaiter now i s) = l_queue s" "l_next (startWaiter now i s) = l_next s"
  by (simp_all add: startWaiter_def Let_def split: option.splits)

lemma lock_core_start:
  assumes core: "lock_core {} Y (s\<lparr>l_queue := i # ids\<rparr>)" and free: "\<not> l_activeWriter s"
    and readers: "i \<in> l_writers s \<Longrightarrow> l_activeReaders s = 0"
  shows "lock_core {} Y ((startWaiter now i s)\<lparr>l_queue := ids\<rparr>)"
proof -
  note p = lock_core_parts [OF core, simplified]
  have i: "i \<in> l_waits s" using p(2) by auto
  note e = startWaiter_effect [OF i] and d = l_phases_disjoint [OF i]
  have ir: "i \<notin> set (l_running s)" using p(5) d by auto
  have "lock_held s" using p(6) lock_held_cong [of "s\<lparr>l_queue := i # ids\<rparr>" s] by simp
  then have "lock_held (startWaiter now i s)"
    using free readers unfolding lock_held_def e(5,7)
    by (cases "i \<in> l_writers s") (auto simp: e(10-13) simp del: mem_Collect_eq)
  then have held: "lock_held ((startWaiter now i s)\<lparr>l_queue := ids\<rparr>)"
    using lock_held_cong [of "(startWaiter now i s)\<lparr>l_queue := ids\<rparr>" "startWaiter now i s"] by simp
  show ?thesis
    unfolding lock_core_def using p held d ir by (auto simp: e(1-9))
qed

lemma lock_core_emit_cleanup [simp]: "lock_core X Y (lock_emit Cleanup s) = lock_core X Y s"
  by (simp add: lock_core_def lock_held_def)

lemma cleanupState_simps [simp]:
  "lock_core X Y (cleanupState s) = lock_core X Y s"
  "l_queue (cleanupState s) = l_queue s" "l_activeWriter (cleanupState s) = l_activeWriter s"
  "l_activeReaders (cleanupState s) = l_activeReaders s" "wt_is P (cleanupState s) = wt_is P s"
  "l_next (cleanupState s) = l_next s" "l_tasks (cleanupState s) = l_tasks s"
  "l_running (cleanupState s) = l_running s"
  "lstarted_ids (l_log (cleanupState s)) = lstarted_ids (l_log s)"
  "lsettled_ids (l_log (cleanupState s)) = lsettled_ids (l_log s)"
  by (simp_all add: cleanupState_def)

lemma lock_drainLoop_core:
  "lock_core {} Y (s\<lparr>l_queue := ids\<rparr>) \<Longrightarrow> \<not> l_activeWriter s \<Longrightarrow>
   lock_core {} Y (lock_drainLoop now ids s) \<and> lock_busy False (lock_drainLoop now ids s)"
proof (induction now ids s rule: lock_drainLoop.induct)
  case (1 now s)
  then show ?case by (simp add: lock_busy_def)
next
  case (2 now i ids s)
  have i: "i \<in> l_waits s" using lock_core_parts(2) [OF "2.prems"(1)] by auto
  have live: "\<not> wt_is wt_cancelled s i" using l_phases_disjoint(2) [OF i] by simp
  have mode: "wt_is (\<lambda>t. \<not> wt_blocking t) s i \<longleftrightarrow> i \<notin> l_writers s"
    using i by (auto simp: wt_is_def split: option.splits)
  show ?case
  proof (cases "i \<in> l_writers s")
    case False
    have "\<not> l_activeWriter (startWaiter now i s)"
      using startWaiter_effect(11) [OF i False] "2.prems"(2) by simp
    moreover have "lock_core {} Y ((startWaiter now i s)\<lparr>l_queue := ids\<rparr>)"
      by (rule lock_core_start [OF "2.prems"]) (use False in simp)
    ultimately show ?thesis using "2.IH"(2) live mode False by simp
  next
    case True
    show ?thesis
    proof (cases "l_activeReaders s > 0")
      case pos: True
      then show ?thesis using "2.prems"(1) live mode True by (simp add: lock_busy_def)
    next
      case False
      have eq: "startWaiter now i (s\<lparr>l_queue := ids\<rparr>) = (startWaiter now i s)\<lparr>l_queue := ids\<rparr>"
        by (simp add: startWaiter_def Let_def lock_emit_def split: option.splits)
      have "lock_core {} Y ((startWaiter now i s)\<lparr>l_queue := ids\<rparr>)"
        by (rule lock_core_start [OF "2.prems"]) (use False in simp)
      moreover have "l_activeWriter (startWaiter now i s)" by (rule startWaiter_effect(13) [OF i True])
      ultimately show ?thesis using live mode True False by (simp add: eq lock_busy_def)
    qed
  qed
qed

lemma lock_drain_core:
  assumes "lock_core {} Y s" and "closed \<Longrightarrow> l_queue s = []"
  shows "lock_core {} Y (lock_drain closed now s)" and "lock_busy closed (lock_drain closed now s)"
  using assms lock_drainLoop_core [where Y = Y and s = s and ids = "l_queue s" and now = now]
  by (auto simp: lock_drain_def lock_busy_def)

lemma lock_drain_inv:
  assumes "lock_core {} {} s" and "closed \<Longrightarrow> l_queue s = []"
  shows "lock_inv closed (lock_drain closed now s)"
  using assms by (simp add: lock_inv_def lock_drain_core)

lemma lock_busy_closed: "lock_busy True s \<Longrightarrow> l_queue s = []"
  by (simp add: lock_busy_def)

section \<open>Cancelling\<close>

definition waiter_cancelled :: "nat \<Rightarrow> js_value \<Rightarrow> int \<Rightarrow> waiter \<Rightarrow> lock \<Rightarrow> lock" where
  "waiter_cancelled i err waitMs t s =
     lock_emit (WCancelled i err waitMs) (lock_emit (WSettled i (Rejected err))
       (s\<lparr>l_tasks := (l_tasks s)(i \<mapsto> t\<lparr>wt_cancelled := True, wt_timer := False, wt_listening := False\<rparr>),
          l_queue := filter (\<lambda>j. j \<noteq> i) (l_queue s)\<rparr>))"

lemma cancelWaiter_eq:
  "cancelWaiter closed now i err waitMs s = (case l_tasks s i of None \<Rightarrow> s
     | Some t \<Rightarrow> if wt_started t \<or> wt_cancelled t then s else lock_drain closed now (waiter_cancelled i err waitMs t s))"
  by (simp add: cancelWaiter_def waiter_cancelled_def Let_def split: option.splits)

lemma waiter_cancelled_simps [simp]:
  "l_activeReaders (waiter_cancelled i err w t s) = l_activeReaders s"
  "l_activeWriter (waiter_cancelled i err w t s) = l_activeWriter s"
  "l_running (waiter_cancelled i err w t s) = l_running s"
  "l_next (waiter_cancelled i err w t s) = l_next s"
  "l_queue (waiter_cancelled i err w t s) = filter (\<lambda>j. j \<noteq> i) (l_queue s)"
  "lstarted_ids (l_log (waiter_cancelled i err w t s)) = lstarted_ids (l_log s)"
  "lsettled_ids (l_log (waiter_cancelled i err w t s)) = lsettled_ids (l_log s) @ [i]"
  by (simp_all add: waiter_cancelled_def)

lemma waiter_cancelled_effect:
  assumes "l_tasks s i = Some t" "\<not> wt_started t" "\<not> wt_cancelled t"
  shows "l_waits (waiter_cancelled i err w t s) = l_waits s - {i}"
    and "l_starts (waiter_cancelled i err w t s) = l_starts s"
    and "l_cancels (waiter_cancelled i err w t s) = insert i (l_cancels s)"
    and "l_armed (waiter_cancelled i err w t s) = l_armed s - {i}"
    and "l_writers (waiter_cancelled i err w t s) = l_writers s"
    and "dom (l_tasks (waiter_cancelled i err w t s)) = dom (l_tasks s)"
  using assms by (auto simp: waiter_cancelled_def wt_is_def split: option.splits if_splits)

lemma waiter_cancelled_core:
  assumes core: "lock_core X {} s" and t: "l_tasks s i = Some t" "\<not> wt_started t" "\<not> wt_cancelled t" and "X \<subseteq> {i}"
  shows "lock_core {} {} (waiter_cancelled i err waitMs t s)"
proof -
  note p = lock_core_parts [OF core]
  have i: "i \<in> l_waits s" using t by (simp add: wt_is_def)
  note d = l_phases_disjoint [OF i]
  have n: "i \<notin> set (lsettled_ids (l_log s))" "i \<notin> set (l_running s)" using p(5,11) d by auto
  have h: "lock_held (waiter_cancelled i err waitMs t s)"
    using p(6) lock_held_cong [of "waiter_cancelled i err waitMs t s" s] waiter_cancelled_effect(5) [OF t] by simp
  show ?thesis
    unfolding lock_core_def using p d n h assms(5) by (auto simp: waiter_cancelled_effect [OF t])
qed

lemma cancelWaiter_core:
  assumes "lock_core X {} s" and "X \<subseteq> {i}" and "closed \<Longrightarrow> set (l_queue s) \<subseteq> {i}" and "i \<in> l_waits s"
  shows "lock_inv closed (cancelWaiter closed now i err waitMs s)"
proof -
  obtain t where t: "l_tasks s i = Some t" "\<not> wt_started t" "\<not> wt_cancelled t"
    using assms(4) by (rule l_waits_task)
  then have "lock_core {} {} (waiter_cancelled i err waitMs t s)"
    using assms(1,2) by (intro waiter_cancelled_core) auto
  moreover have "closed \<Longrightarrow> l_queue (waiter_cancelled i err waitMs t s) = []"
    using assms(3) by (auto simp: filter_empty_conv)
  ultimately show ?thesis using t by (simp add: cancelWaiter_eq lock_drain_inv)
qed

lemma cancelWaiter_noop: "i \<notin> l_waits s \<Longrightarrow> cancelWaiter closed now i err w s = s"
  by (auto simp: cancelWaiter_eq wt_is_def split: option.splits)

lemma cancelWaiter_inv:
  assumes "lock_inv closed s"
  shows "lock_inv closed (cancelWaiter closed now i err waitMs s)"
proof (cases "i \<in> l_waits s")
  case True
  then show ?thesis
    using assms by (intro cancelWaiter_core [where X = "{}"]) (auto simp: lock_inv_def dest: lock_busy_closed)
next
  case False
  then show ?thesis using assms cancelWaiter_noop by simp
qed

section \<open>Enqueueing\<close>

lemma splice_in_facts [simp]:
  "set (splice_in n x xs) = insert x (set xs)" "distinct (splice_in n x xs) = (x \<notin> set xs \<and> distinct xs)"
proof -
  have "set (take n xs) \<union> set (drop n xs) = set xs"
    by (metis append_take_drop_id set_append)
  then show "set (splice_in n x xs) = insert x (set xs)" by (auto simp: splice_in_def)
  have "distinct (take n xs @ drop n xs) = distinct xs" by simp
  with \<open>set (take n xs) \<union> set (drop n xs) = set xs\<close>
  show "distinct (splice_in n x xs) = (x \<notin> set xs \<and> distinct xs)"
    unfolding splice_in_def distinct_append by auto
qed

lemma insertTask_splice: "\<exists>n. insertTask policy now i t s = s\<lparr>l_queue := splice_in n i (l_queue s)\<rparr>"
proof -
  have eq: "l_queue s @ [i] = splice_in (length (l_queue s)) i (l_queue s)" by (simp add: splice_in_def)
  show ?thesis unfolding insertTask_def eq by (simp only: split: if_split) blast
qed

definition lock_admit :: "nat \<Rightarrow> waiter \<Rightarrow> lock \<Rightarrow> lock" where
  "lock_admit i t s = s\<lparr>l_next := i + 1, l_tasks := (l_tasks s)(i \<mapsto> t)\<rparr>"

lemma lock_admit_simps [simp]:
  "l_queue (lock_admit i t s) = l_queue s" "l_next (lock_admit i t s) = i + 1"
  "l_tasks (lock_admit i t s) = (l_tasks s)(i \<mapsto> t)" "l_running (lock_admit i t s) = l_running s"
  "l_log (lock_admit i t s) = l_log s" "l_activeReaders (lock_admit i t s) = l_activeReaders s"
  "l_activeWriter (lock_admit i t s) = l_activeWriter s"
  by (simp_all add: lock_admit_def)

lemma lock_admit_effect:
  assumes "l_tasks s i = None" "\<not> wt_started t" "\<not> wt_cancelled t"
  shows "l_waits (lock_admit i t s) = insert i (l_waits s)"
    and "l_starts (lock_admit i t s) = l_starts s"
    and "l_cancels (lock_admit i t s) = l_cancels s"
    and "l_armed (lock_admit i t s) \<subseteq> insert i (l_armed s)"
    and "l_writers (lock_admit i t s) - {i} = l_writers s"
  using assms by (auto simp: lock_admit_def wt_is_def split: option.splits if_splits)

lemma lock_fresh:
  assumes "lock_core X Y s"
  shows "l_tasks s (l_next s) = None" and "wt_is P s j \<Longrightarrow> j < l_next s"
  using lock_core_parts(7) [OF assms] by (auto simp: wt_is_def split: option.splits)

lemma lock_admit_core:
  assumes core: "lock_core {} {} s" and t: "\<not> wt_started t" "\<not> wt_cancelled t"
  shows "lock_core {l_next s} {} (lock_admit (l_next s) t s)"
    and "lock_core {} {} ((lock_admit (l_next s) t s)\<lparr>l_queue := splice_in n (l_next s) (l_queue s)\<rparr>)"
proof -
  note p = lock_core_parts [OF core] and fresh = lock_fresh [OF core]
  note e = lock_admit_effect [OF fresh(1) t]
  have i: "l_next s \<notin> l_starts s" "l_next s \<notin> l_cancels s" "l_next s \<notin> l_waits s" using fresh(2) by blast+
  then have q: "l_next s \<notin> set (l_queue s)" "l_next s \<notin> set (l_running s)" using p(2,5) by blast+
  have "set (l_running s) \<inter> l_writers (lock_admit (l_next s) t s) = set (l_running s) \<inter> l_writers s"
    using e(5) q(2) by blast
  then have h: "lock_held (lock_admit (l_next s) t s)"
    using p(6) lock_held_cong [of "lock_admit (l_next s) t s" s] by simp
  have a: "l_armed (lock_admit (l_next s) t s) \<subseteq> insert (l_next s) (l_waits s)" using e(4) p(9) by blast
  have d: "dom ((l_tasks s)(l_next s \<mapsto> t)) \<subseteq> {..<l_next s + 1}" using p(7) by auto
  show "lock_core {l_next s} {} (lock_admit (l_next s) t s)"
    unfolding lock_core_def e(1-3) lock_admit_simps
    using p h a d by blast
  have h2: "lock_held ((lock_admit (l_next s) t s)\<lparr>l_queue := splice_in n (l_next s) (l_queue s)\<rparr>)"
    using h lock_held_cong [of "(lock_admit (l_next s) t s)\<lparr>l_queue := splice_in n (l_next s) (l_queue s)\<rparr>"
      "lock_admit (l_next s) t s"] by simp
  show "lock_core {} {} ((lock_admit (l_next s) t s)\<lparr>l_queue := splice_in n (l_next s) (l_queue s)\<rparr>)"
    unfolding lock_core_def wt_is_frame e(1-3) lock.simps(1-14) splice_in_facts
    using p h2 a d q by simp blast
qed

lemma newWaiter_fresh [simp]:
  "\<not> wt_started (newWaiter b p label waitMs signal now s)" "\<not> wt_cancelled (newWaiter b p label waitMs signal now s)"
  "wt_blocking (newWaiter b p label waitMs signal now s) = b"
  by (simp_all add: newWaiter_def)

text \<open>The three ways an enqueue can go, over an admitted waiter.\<close>

lemma lock_enqueue_cases:
  fixes name policy key blocking priority label waitMs signal now s
  defines "a \<equiv> lock_admit (l_next s) (newWaiter blocking priority label waitMs signal now s) s"
  obtains (aborted) e where "lock_enqueue name policy key blocking priority label waitMs signal now s
        = cancelWaiter False now (l_next s) e 0 a"
  | (queued) n where "lock_enqueue name policy key blocking priority label waitMs signal now s
        = lock_drain False now (a\<lparr>l_queue := splice_in n (l_next s) (l_queue s)\<rparr>)"
  | (timeout) n e where "lock_enqueue name policy key blocking priority label waitMs signal now s
        = cancelWaiter False now (l_next s) e 0 (lock_drain False now (a\<lparr>l_queue := splice_in n (l_next s) (l_queue s)\<rparr>))"
proof -
  let ?t = "newWaiter blocking priority label waitMs signal now s"
  have a: "s\<lparr>l_next := l_next s + 1, l_tasks := (l_tasks s)(l_next s \<mapsto> ?t)\<rparr> = a"
    by (simp add: a_def lock_admit_def)
  obtain n where n: "insertTask policy now (l_next s) ?t a = a\<lparr>l_queue := splice_in n (l_next s) (l_queue s)\<rparr>"
    using insertTask_splice [of policy now "l_next s" ?t a] by (auto simp: a_def)
  let ?E = "lock_enqueue name policy key blocking priority label waitMs signal now s"
  let ?Q = "lock_drain False now (a\<lparr>l_queue := splice_in n (l_next s) (l_queue s)\<rparr>)"
  have "(\<exists>e. ?E = cancelWaiter False now (l_next s) e 0 a) \<or> ?E = ?Q \<or>
      (\<exists>e. ?E = cancelWaiter False now (l_next s) e 0 ?Q)"
    unfolding lock_enqueue_def Let_def a n by (cases signal) auto
  then show thesis using that by blast
qed

lemma lock_enqueue_inv:
  assumes "lock_inv False s"
  shows "lock_inv False (lock_enqueue name policy key blocking priority label waitMs signal now s)"
proof -
  have core: "lock_core {} {} s" using assms by (simp add: lock_inv_def)
  let ?t = "newWaiter blocking priority label waitMs signal now s"
  let ?a = "lock_admit (l_next s) ?t s"
  have q: "lock_inv False (lock_drain False now (?a\<lparr>l_queue := splice_in n (l_next s) (l_queue s)\<rparr>))" for n
    by (intro lock_drain_inv lock_admit_core(2) [OF core]) simp_all
  have i: "l_next s \<in> l_waits ?a" using lock_admit_effect(1) [OF lock_fresh(1) [OF core], of ?t] by simp
  have a: "lock_inv False (cancelWaiter False now (l_next s) e 0 ?a)" for e
    by (rule cancelWaiter_core [OF lock_admit_core(1) [OF core] _ _ i]) simp_all
  show ?thesis
    by (rule lock_enqueue_cases [of name policy key blocking priority label waitMs signal now s])
      (auto intro: a q cancelWaiter_inv)
qed

section \<open>Finishing and closing\<close>

lemma lock_release_simps [simp]:
  "l_queue (lock_release i s) = l_queue s" "l_next (lock_release i s) = l_next s"
  "l_tasks (lock_release i s) = l_tasks s" "l_running (lock_release i s) = l_running s"
  "l_log (lock_release i s) = l_log s" "wt_is P (lock_release i s) = wt_is P s"
  by (simp_all add: lock_release_def)

definition lock_released :: "nat \<Rightarrow> outcome \<Rightarrow> lock \<Rightarrow> lock" where
  "lock_released i final s = lock_emit (WReleased i final) (lock_release i (s\<lparr>l_running := remove1 i (l_running s)\<rparr>))"

lemma lock_finish_eq:
  "lock_finish closed i r h now s =
     (if i \<in> set (l_running s)
      then lock_emit (WSettled i (runBeforeRelease r h)) (lock_drain closed now (lock_released i (runBeforeRelease r h) s))
      else s)"
  by (simp add: lock_finish_def lock_released_def Let_def)

lemma lock_released_held:
  assumes "lock_held s" "i \<in> set (l_running s)" "distinct (l_running s)"
  shows "lock_held (lock_released i f s)"
proof (cases "l_activeWriter s")
  case True
  then obtain w where "w \<in> l_writers s" "l_running s = [w]" "l_activeReaders s = 0"
    using assms(1) by (auto simp: lock_held_def)
  then show ?thesis using assms(2) by (simp add: lock_held_def lock_released_def lock_release_def)
next
  case False
  then have h: "l_activeReaders s = length (l_running s)" "set (l_running s) \<inter> l_writers s = {}"
    using assms(1) by (simp_all add: lock_held_def)
  then have "\<not> wt_is wt_blocking s i" using assms(2) by auto
  then show ?thesis using False h assms(2,3)
    by (auto simp: lock_held_def lock_released_def lock_release_def length_remove1)
qed

lemma lock_released_core:
  assumes core: "lock_core {} {} s" and i: "i \<in> set (l_running s)"
  shows "lock_core {} {i} (lock_released i f s)"
proof -
  note p = lock_core_parts [OF core]
  have h: "lock_held (lock_released i f s)" by (rule lock_released_held [OF p(6) i p(4)])
  show ?thesis using p i h unfolding lock_core_def by (auto simp: lock_released_def)
qed

lemma lock_settle_core:
  assumes "lock_core {} {i} s"
  shows "lock_core {} {} (lock_emit (WSettled i f) s)"
  using assms unfolding lock_core_def lock_held_def by (auto simp: insert_absorb)

lemma lock_finish_inv:
  assumes "lock_inv closed s"
  shows "lock_inv closed (lock_finish closed i r h now s)"
proof (cases "i \<in> set (l_running s)")
  case True
  have core: "lock_core {} {} s" using assms by (simp add: lock_inv_def)
  have "closed \<Longrightarrow> l_queue (lock_released i f s) = []" for f
    using assms by (auto simp: lock_inv_def lock_released_def dest: lock_busy_closed)
  note d = lock_drain_core [OF lock_released_core [OF core True] this]
  have "lock_busy closed (lock_emit n x) = lock_busy closed x" for n x by (simp add: lock_busy_def)
  then show ?thesis using True d by (simp add: lock_finish_eq lock_inv_def lock_settle_core)
qed (simp add: lock_finish_eq assms)

lemma lock_closeWaiter_core:
  assumes "lock_core {} {} s"
  shows "lock_core {} {} (lock_closeWaiter name key reason now i s) \<and>
    l_queue (lock_closeWaiter name key reason now i s) = filter (\<lambda>j. j \<noteq> i) (l_queue s)"
proof (cases "i \<in> l_waits s")
  case True
  then obtain t where t: "l_tasks s i = Some t" "\<not> wt_started t" "\<not> wt_cancelled t" by (rule l_waits_task)
  with assms show ?thesis
    by (simp add: lock_closeWaiter_def cancelWaiter_eq lock_drain_def waiter_cancelled_core)
next
  case False
  then have "i \<notin> set (l_queue s)" using lock_core_parts(2) [OF assms] by blast
  then show ?thesis using False assms
    by (auto simp: lock_closeWaiter_def cancelWaiter_noop split: option.splits)
qed

lemma lock_close_fold:
  assumes "lock_core {} {} s"
  shows "lock_core {} {} (fst (fold (lock_closeStep name key reason now) ids (s, n))) \<and>
    set (l_queue (fst (fold (lock_closeStep name key reason now) ids (s, n)))) = set (l_queue s) - set ids"
  using assms
proof (induction ids arbitrary: s n)
  case (Cons i ids)
  note c = lock_closeWaiter_core [OF Cons.prems, of name key reason now i]
  show ?case
    using Cons.IH [OF conjunct1 [OF c]] c by auto
qed simp

lemma lock_closable_all:
  assumes "lock_core {} {} s"
  shows "lock_closable s = l_queue s"
proof -
  have "\<forall>i \<in> set (l_queue s). wt_is (\<lambda>t. \<not> wt_cancelled t \<and> \<not> wt_started t) s i"
    using lock_core_parts(2) [OF assms] by (auto simp: wt_is_def split: option.splits)
  then show ?thesis by (simp add: lock_closable_def)
qed

lemma lock_close_inv:
  assumes "lock_inv closed s"
  shows "lock_inv True (fst (lock_close name key reason now s))"
proof -
  have core: "lock_core {} {} s" using assms by (simp add: lock_inv_def)
  show ?thesis
    using lock_close_fold [OF core, of name key reason now "l_queue s" 0]
    by (simp add: lock_close_def lock_closable_all [OF core] lock_inv_def lock_busy_def)
qed

text \<open>An event other than closing keeps the invariant of a lock in an open or in a closed gate.\<close>

fun is_lclose :: "lock_event \<Rightarrow> bool" where
  "is_lclose (LClose _ _) = True"
| "is_lclose _ = False"

lemma lock_step_inv:
  assumes "lock_inv closed s"
  shows "lock_inv (closed \<or> is_lclose e) (lock_step name policy key closed e s)"
proof (cases e)
  case (LEnqueue blocking priority label waitMs signal now)
  then show ?thesis using assms lock_enqueue_inv by (cases closed) simp_all
next
  case (LTimer i now)
  then show ?thesis using assms by (auto simp: lock_timer_def intro: cancelWaiter_inv split: option.splits)
next
  case (LAbort i reason now)
  then show ?thesis using assms by (auto simp: lock_abort_def intro: cancelWaiter_inv split: option.splits)
next
  case (LFinish i r h now)
  then show ?thesis using assms by (simp add: lock_finish_inv)
next
  case (LClose reason now)
  then show ?thesis using assms by (simp add: lock_close_inv)
qed

lemma lock_inv_closing: "lock_inv closed s \<Longrightarrow> l_queue s = [] \<Longrightarrow> lock_inv True s"
  by (simp add: lock_inv_def lock_busy_def)

lemma lock_new_inv: "lock_inv closed lock_new"
  by (auto simp: lock_inv_def lock_core_def lock_busy_def lock_held_def lock_new_def wt_is_def)

section \<open>Going idle\<close>

text \<open>What an operation appended to the log.\<close>

definition lock_news :: "lock \<Rightarrow> lock \<Rightarrow> lock_notice list" where
  "lock_news s s' = drop (length (l_log s)) (l_log s')"

definition lock_cleans :: "lock \<Rightarrow> lock \<Rightarrow> bool" where
  "lock_cleans s s' \<longleftrightarrow> (\<exists>ns. l_log s' = l_log s @ ns \<and> Cleanup \<in> set ns)"

lemma lock_cleans_news: "lock_cleans s s' \<Longrightarrow> Cleanup \<in> set (lock_news s s')"
  by (auto simp: lock_cleans_def lock_news_def)

lemma lock_cleans_trans: "prefix (l_log s) (l_log s') \<Longrightarrow> lock_cleans s' s'' \<Longrightarrow> lock_cleans s s''"
  by (auto simp: lock_cleans_def prefix_def)

lemma cleanupState_idle: "lock_idle s \<Longrightarrow> lock_cleans s (cleanupState s)"
  by (simp add: cleanupState_def lock_cleans_def lock_idle_def)

lemma startWaiter_log: "prefix (l_log s) (l_log (startWaiter now i s))"
  by (simp add: startWaiter_def Let_def split: option.splits)

lemma lock_drainLoop_idle:
  "lock_core {} Y (s\<lparr>l_queue := ids\<rparr>) \<Longrightarrow> \<not> l_activeWriter s \<Longrightarrow> lock_idle (lock_drainLoop now ids s) \<Longrightarrow>
   lock_cleans s (lock_drainLoop now ids s)"
proof (induction now ids s rule: lock_drainLoop.induct)
  case (1 now s)
  then have "lock_idle (s\<lparr>l_queue := []\<rparr>)" by (simp add: lock_idle_def)
  then show ?case using cleanupState_idle [of "s\<lparr>l_queue := []\<rparr>"] by (simp add: lock_cleans_def)
next
  case (2 now i ids s)
  have i: "i \<in> l_waits s" using lock_core_parts(2) [OF "2.prems"(1)] by auto
  have live: "\<not> wt_is wt_cancelled s i" using l_phases_disjoint(2) [OF i] by simp
  have mode: "wt_is (\<lambda>t. \<not> wt_blocking t) s i \<longleftrightarrow> i \<notin> l_writers s"
    using i by (auto simp: wt_is_def split: option.splits)
  show ?case
  proof (cases "i \<in> l_writers s")
    case False
    have w: "\<not> l_activeWriter (startWaiter now i s)"
      using startWaiter_effect(11) [OF i False] "2.prems"(2) by simp
    have c: "lock_core {} Y ((startWaiter now i s)\<lparr>l_queue := ids\<rparr>)"
      by (rule lock_core_start [OF "2.prems"(1,2)]) (use False in simp)
    have "lock_cleans (startWaiter now i s) (lock_drainLoop now ids (startWaiter now i s))"
      using "2.IH"(2) live mode False c w "2.prems"(3) by simp
    then show ?thesis using lock_cleans_trans [OF startWaiter_log] live mode False by simp
  next
    case True
    have "i \<in> l_waits (s\<lparr>l_queue := ids\<rparr>)" "i \<in> l_writers (s\<lparr>l_queue := ids\<rparr>)" using i True by simp_all
    then have "l_activeWriter (startWaiter now i (s\<lparr>l_queue := ids\<rparr>))" by (rule startWaiter_effect(13))
    then show ?thesis using live mode True "2.prems"(3) by (auto simp: lock_idle_def split: if_splits)
  qed
qed

lemma lock_drain_idle:
  assumes "lock_core {} Y s" and "lock_idle (lock_drain closed now s)"
  shows "lock_cleans s (lock_drain closed now s)"
proof (cases closed)
  case True
  then show ?thesis using assms(2) cleanupState_idle [of s] by (simp add: lock_drain_def lock_idle_def)
next
  case False
  then have "\<not> l_activeWriter s" using assms(2) by (auto simp: lock_drain_def lock_idle_def)
  then show ?thesis
    using lock_drainLoop_idle [where Y = Y and s = s and ids = "l_queue s" and now = now] assms False by (simp add: lock_drain_def)
qed

lemma cancelWaiter_idle:
  assumes "lock_core X {} s" "X \<subseteq> {i}" "i \<in> l_waits s" "lock_idle (cancelWaiter closed now i err w s)"
  shows "lock_cleans s (cancelWaiter closed now i err w s)"
proof -
  obtain t where t: "l_tasks s i = Some t" "\<not> wt_started t" "\<not> wt_cancelled t" using assms(3) by (rule l_waits_task)
  have eq: "cancelWaiter closed now i err w s = lock_drain closed now (waiter_cancelled i err w t s)"
    using t by (simp add: cancelWaiter_eq)
  have "lock_cleans (waiter_cancelled i err w t s) (lock_drain closed now (waiter_cancelled i err w t s))"
    using assms(4) unfolding eq by (intro lock_drain_idle [OF waiter_cancelled_core [OF assms(1) t assms(2)]])
  then show ?thesis unfolding eq by (rule lock_cleans_trans [rotated]) (simp add: waiter_cancelled_def)
qed

lemma lock_drainLoop_log: "prefix (l_log s) (l_log (lock_drainLoop now ids s))"
proof (induction now ids s rule: lock_drainLoop.induct)
  case (2 now i ids s)
  have "prefix (l_log s) (l_log (startWaiter now i (s\<lparr>l_queue := ids\<rparr>)))"
    using startWaiter_log [of "s\<lparr>l_queue := ids\<rparr>" now i] by simp
  then show ?case using 2 startWaiter_log [of s now i] by (auto intro: prefix_order.trans)
qed (simp add: cleanupState_def)

lemma lock_drain_log: "prefix (l_log s) (l_log (lock_drain closed now s))"
  by (simp add: lock_drain_def lock_drainLoop_log cleanupState_def)

lemma cancelWaiter_idle_or_same:
  assumes "lock_inv closed s" "lock_idle (cancelWaiter closed now i err w s)"
  shows "lock_cleans s (cancelWaiter closed now i err w s) \<or> cancelWaiter closed now i err w s = s"
  using cancelWaiter_idle [of "{}" s i closed now err w]  cancelWaiter_noop [where i = i and s = s] assms
  by (cases "i \<in> l_waits s") (auto simp: lock_inv_def)

lemma lock_enqueue_idle:
  assumes inv: "lock_inv False s"
    and idle: "lock_idle (lock_enqueue name policy key blocking priority label waitMs signal now s)"
  shows "lock_cleans s (lock_enqueue name policy key blocking priority label waitMs signal now s)"
proof -
  have core: "lock_core {} {} s" using inv by (simp add: lock_inv_def)
  let ?t = "newWaiter blocking priority label waitMs signal now s"
  let ?a = "lock_admit (l_next s) ?t s"
  let ?q = "\<lambda>n. ?a\<lparr>l_queue := splice_in n (l_next s) (l_queue s)\<rparr>"
  have c: "lock_core {} {} (?q n)" for n by (intro lock_admit_core(2) [OF core]) simp_all
  have i: "l_next s \<in> l_waits ?a" using lock_admit_effect(1) [OF lock_fresh(1) [OF core], of ?t] by simp
  show ?thesis
  proof (rule lock_enqueue_cases [of name policy key blocking priority label waitMs signal now s])
    fix e assume "lock_enqueue name policy key blocking priority label waitMs signal now s = cancelWaiter False now (l_next s) e 0 ?a"
    then show ?thesis
      using cancelWaiter_idle [OF lock_admit_core(1) [OF core] subset_refl i, of False now e 0] idle
      by (simp add: lock_cleans_def)
  next
    fix n assume "lock_enqueue name policy key blocking priority label waitMs signal now s = lock_drain False now (?q n)"
    then show ?thesis using lock_drain_idle [OF c, of False now n] idle by (simp add: lock_cleans_def)
  next
    fix n e assume eq: "lock_enqueue name policy key blocking priority label waitMs signal now s
        = cancelWaiter False now (l_next s) e 0 (lock_drain False now (?q n))"
    have di: "lock_inv False (lock_drain False now (?q n))" by (rule lock_drain_inv [OF c]) simp
    have p: "prefix (l_log s) (l_log (lock_drain False now (?q n)))" using lock_drain_log [of "?q n" False now] by simp
    from cancelWaiter_idle_or_same [OF di idle [unfolded eq]] show ?thesis
    proof (elim disjE)
      assume "lock_cleans (lock_drain False now (?q n)) (cancelWaiter False now (l_next s) e 0 (lock_drain False now (?q n)))"
      then show ?thesis using lock_cleans_trans [OF p] eq by simp
    next
      assume "cancelWaiter False now (l_next s) e 0 (lock_drain False now (?q n)) = lock_drain False now (?q n)"
      then show ?thesis using lock_drain_idle [OF c, of False now n] idle eq by (simp add: lock_cleans_def)
    qed
  qed
qed

text \<open>The events a promise chain, a timer or a signal can send to a lock later on.\<close>

fun is_lcallback :: "lock_event \<Rightarrow> bool" where
  "is_lcallback (LEnqueue _ _ _ _ _ _) = False"
| "is_lcallback (LClose _ _) = False"
| "is_lcallback _ = True"

lemma lock_callback_idle:
  assumes inv: "lock_inv closed s" and "is_lcallback e" and idle: "lock_idle (lock_step name policy key closed e s)"
  shows "lock_cleans s (lock_step name policy key closed e s) \<or> lock_step name policy key closed e s = s"
proof (cases e)
  case (LFinish i r h now)
  show ?thesis
  proof (cases "i \<in> set (l_running s)")
    case True
    let ?r = "lock_released i (runBeforeRelease r h) s"
    have core: "lock_core {} {} s" using inv by (simp add: lock_inv_def)
    have "lock_idle (lock_drain closed now ?r)"
      using idle True LFinish by (simp add: lock_finish_eq lock_idle_def)
    then have "lock_cleans ?r (lock_drain closed now ?r)" by (rule lock_drain_idle [OF lock_released_core [OF core True]])
    then have "lock_cleans s (lock_drain closed now ?r)"
      by (rule lock_cleans_trans [rotated]) (simp add: lock_released_def)
    then show ?thesis using True LFinish by (auto simp: lock_finish_eq lock_cleans_def)
  qed (simp add: LFinish lock_finish_eq)
qed (use assms cancelWaiter_idle_or_same in \<open>auto simp: lock_timer_def lock_abort_def split: option.splits if_splits\<close>)

lemma lock_idle_callback:
  assumes "lock_inv closed s" "lock_idle s" "is_lcallback e"
  shows "lock_step name policy key closed' e s = s"
proof -
  have core: "lock_core {} {} s" using assms(1) by (simp add: lock_inv_def)
  have "l_waits s = {}" using lock_core_parts(3) [OF core] assms(2) by (simp add: lock_idle_def)
  then have c: "cancelWaiter closed' now i err w s = s" for now i err w by (auto intro: cancelWaiter_noop)
  have "l_running s = []" using lock_held_idle [OF lock_core_parts(6) [OF core]] assms(2) by (simp add: lock_idle_def)
  then show ?thesis
    using assms(3) by (cases e) (auto simp: lock_timer_def lock_abort_def lock_finish_eq c split: option.splits)
qed

section \<open>The place of a newcomer\<close>

lemma scan_index_front: "list_all (\<lambda>x. \<not> P x) (take (scan_index P xs) xs)"
  by (induction xs) auto

lemma scan_index_back: "case drop (scan_index P xs) xs of [] \<Rightarrow> True | y # ys \<Rightarrow> P y"
  by (induction xs) auto

text \<open>The condition on the waiters in front of a newcomer, and on the one right behind it.\<close>

definition placed :: "nat \<Rightarrow> (nat \<Rightarrow> bool) \<Rightarrow> (nat \<Rightarrow> bool) \<Rightarrow> nat list \<Rightarrow> nat list \<Rightarrow> bool" where
  "placed i front behind queue queue' \<longleftrightarrow> (\<exists>xs ys. queue = xs @ ys \<and> queue' = xs @ i # ys \<and>
     list_all front xs \<and> (case ys of [] \<Rightarrow> True | y # _ \<Rightarrow> behind y))"

lemma placed_splice:
  assumes "\<And>x. \<not> P x \<Longrightarrow> x \<in> set q \<Longrightarrow> front x" and "\<And>x. P x \<Longrightarrow> x \<in> set q \<Longrightarrow> behind x"
  shows "placed i front behind q (splice_in (scan_index P q) i q)"
proof -
  have "list_all front (take (scan_index P q) q)"
    using scan_index_front [of P q] assms(1) by (auto simp: list_all_iff dest: in_set_takeD)
  moreover have "case drop (scan_index P q) q of [] \<Rightarrow> True | y # _ \<Rightarrow> behind y"
    using scan_index_back [of P q] assms(2) set_drop_subset [of "scan_index P q" q]
    by (auto split: list.splits)
  ultimately show ?thesis
    unfolding placed_def splice_in_def
    by (intro exI [where x = "take (scan_index P q) q"] exI [where x = "drop (scan_index P q) q"]) simp
qed

text \<open>Which queued waiter may stay in front of a newcomer \<open>t\<close>, and which may be right behind it.\<close>

definition may_precede :: "gate_policy \<Rightarrow> int \<Rightarrow> waiter \<Rightarrow> lock \<Rightarrow> nat \<Rightarrow> bool" where
  "may_precede policy now t s j =
     (if wt_blocking t \<and> wt_priority t > 0 then \<not> wt_is (jumpable now (wt_priority t)) s j
      else if policy = WriterPriority \<and> wt_blocking t then wt_is wt_blocking s j
      else policy = ReadPriority \<and> \<not> wt_blocking t \<and> l_activeWriter s \<longrightarrow> \<not> wt_is wt_blocking s j)"

definition may_follow :: "gate_policy \<Rightarrow> int \<Rightarrow> waiter \<Rightarrow> lock \<Rightarrow> nat \<Rightarrow> bool" where
  "may_follow policy now t s j =
     (if wt_blocking t \<and> wt_priority t > 0 then wt_is (jumpable now (wt_priority t)) s j
      else if policy = WriterPriority then wt_blocking t \<and> \<not> wt_is wt_blocking s j
      else policy = ReadPriority \<and> \<not> wt_blocking t \<and> l_activeWriter s \<and> wt_is wt_blocking s j)"

text \<open>
  Where a policy puts a newcomer. The waiters already queued keep their order. A writer with a
  positive priority goes right before the first queued writer that is fresh (has waited less than
  \<open>PRIORITY_AGING_MS\<close>) and has a lower priority. Otherwise, under \<open>writer-priority\<close> a writer goes
  behind the queued waiters that precede the first reader and a reader goes last; under
  \<open>fifo\<close>, and for writers and idle locks under \<open>read-priority\<close>, the newcomer goes last; and a
  reader that arrives under an active writer with \<open>read-priority\<close> goes behind the leading readers
  only, before the first queued writer.
\<close>

theorem insertTask_places:
  assumes "lock_inv closed s"
  shows "placed i (may_precede policy now t s) (may_follow policy now t s)
    (l_queue s) (l_queue (insertTask policy now i t s))"
proof -
  have core: "lock_core {} {} s" using assms by (simp add: lock_inv_def)
  have reader: "wt_is (\<lambda>e. \<not> wt_cancelled e \<and> \<not> wt_blocking e) s j = (\<not> wt_is wt_blocking s j)"
    "wt_is (\<lambda>e. \<not> wt_blocking e) s j = (\<not> wt_is wt_blocking s j)" if "j \<in> set (l_queue s)" for j
    using subsetD [OF lock_core_parts(2) [OF core] that] by (rule l_waits_task; simp add: wt_is_def)+
  consider (prio) "wt_blocking t" "wt_priority t > 0"
    | (wp_writer) "\<not> (wt_blocking t \<and> wt_priority t > 0)" "policy = WriterPriority" "wt_blocking t"
    | (burst) "policy = ReadPriority" "\<not> wt_blocking t" "l_activeWriter s"
    | (last) "\<not> (wt_blocking t \<and> wt_priority t > 0)" "\<not> (policy = WriterPriority \<and> wt_blocking t)"
        "\<not> (policy = ReadPriority \<and> \<not> wt_blocking t \<and> l_activeWriter s)"
    by blast
  then show ?thesis
  proof cases
    case prio
    then have eq: "l_queue (insertTask policy now i t s)
        = splice_in (scan_index (wt_is (jumpable now (wt_priority t)) s) (l_queue s)) i (l_queue s)"
      by (simp add: insertTask_def)
    show ?thesis unfolding eq by (rule placed_splice) (use prio in \<open>simp_all add: may_precede_def may_follow_def\<close>)
  next
    case wp_writer
    then have eq: "l_queue (insertTask policy now i t s)
        = splice_in (scan_index (wt_is (\<lambda>e. \<not> wt_cancelled e \<and> \<not> wt_blocking e) s) (l_queue s)) i (l_queue s)"
      by (simp add: insertTask_def)
    show ?thesis unfolding eq by (rule placed_splice) (use wp_writer reader(1) in \<open>auto simp: may_precede_def may_follow_def\<close>)
  next
    case burst
    then have eq: "l_queue (insertTask policy now i t s)
        = splice_in (scan_index (\<lambda>j. \<not> wt_is (\<lambda>e. \<not> wt_blocking e) s j) (l_queue s)) i (l_queue s)"
      by (simp add: insertTask_def)
    show ?thesis unfolding eq by (rule placed_splice) (use burst reader(2) in \<open>auto simp: may_precede_def may_follow_def\<close>)
  next
    case last
    then have eq: "l_queue (insertTask policy now i t s) = l_queue s @ [i]"
      by (cases policy) (auto simp: insertTask_def)
    have "may_precede policy now t s j" for j using last by (cases policy) (auto simp: may_precede_def)
    then show ?thesis
      unfolding eq placed_def by (intro exI [where x = "l_queue s"] exI [where x = "[]"]) (simp add: list_all_iff)
  qed
qed

text \<open>A lock held by a writer since time 0, with a reader and a writer queued.\<close>

definition lock_run :: "gate_policy \<Rightarrow> lock_event list \<Rightarrow> lock" where
  "lock_run policy es = fold (lock_step ''asset'' policy ''k'' False) es lock_new"

lemma lock_run_inv: "list_all (\<lambda>e. \<not> is_lclose e) es \<Longrightarrow> lock_inv False (lock_run policy es)"
proof -
  have "list_all (\<lambda>e. \<not> is_lclose e) es \<Longrightarrow> lock_inv False s \<Longrightarrow>
      lock_inv False (fold (lock_step ''asset'' policy ''k'' False) es s)" for s
  proof (induction es arbitrary: s)
    case (Cons e es)
    then show ?case using lock_step_inv [OF Cons.prems(2), of e "''asset''" policy "''k''"] by simp
  qed simp
  then show "list_all (\<lambda>e. \<not> is_lclose e) es \<Longrightarrow> ?thesis" by (simp add: lock_run_def lock_new_inv)
qed

definition lock_example :: lock where
  "lock_example = lock_run ReadPriority
     [LEnqueue True 0 ''a'' None NoSignal 0, LEnqueue False 0 ''r'' None NoSignal 1, LEnqueue True 0 ''b'' None NoSignal 2]"

lemma lock_example_queue: "l_queue lock_example = [1, 2]"
  by code_simp

lemma insertTask_places_witness:
  "let t = newWaiter False 0 ''s'' None NoSignal 3 lock_example in
   placed 3 (may_precede ReadPriority 3 t lock_example) (may_follow ReadPriority 3 t lock_example)
     [1, 2] (l_queue (insertTask ReadPriority 3 3 t lock_example)) \<and>
   l_queue (insertTask ReadPriority 3 3 t lock_example) = [1, 3, 2]"
proof -
  have inv: "lock_inv False lock_example" unfolding lock_example_def by (rule lock_run_inv) simp
  have "l_queue (insertTask ReadPriority 3 3 (newWaiter False 0 ''s'' None NoSignal 3 lock_example) lock_example) = [1, 3, 2]"
    by code_simp
  with insertTask_places [OF inv] show ?thesis by (metis lock_example_queue)
qed

text \<open>
  The protection of aged writers is not complete. A writer of priority 0 queued at time 0 has
  waited more than \<open>PRIORITY_AGING_MS\<close> at time 31000, yet a writer of priority 7 that arrives then
  is served before it: a writer of priority 5 had overtaken it at time 20000, is itself still
  fresh, and the scan of the newcomer stops at the first fresh writer without looking behind it.
\<close>

theorem aged_writer_is_overtaken:
  "let q = l_queue (lock_run policy
        [LEnqueue True 0 ''holder'' None NoSignal 0, LEnqueue True 0 ''old'' None NoSignal 0,
         LEnqueue True 5 ''warm'' None NoSignal 20000, LEnqueue True 7 ''hot'' None NoSignal 31000])
   in q = [3, 2, 1] \<and> 31000 - 0 \<ge> PRIORITY_AGING_MS"
  by (cases policy; hypsubst; code_simp)

text \<open>
  Under \<open>writer-priority\<close> a positive priority can cost a writer its place. With a reader
  queued behind the active writer, a writer of priority 5 is appended behind the reader, because
  its scan skips readers and finds no writer to jump; a later writer of priority 0 is inserted
  before the reader. The order of service is the normal writer, the reader, the priority writer.
\<close>

theorem writer_priority_inversion:
  "l_queue (lock_run WriterPriority
     [LEnqueue True 0 ''holder'' None NoSignal 0, LEnqueue False 0 ''reader'' None NoSignal 1,
      LEnqueue True 5 ''urgent'' None NoSignal 2, LEnqueue True 0 ''normal'' None NoSignal 3]) = [3, 1, 2]"
  by code_simp

end
