(* ===== verification/Registry.thy ===== *)
theory Registry
  imports Prelude
begin

text \<open>
  Keyed objects that are dropped when idle. \<open>KeyedAsyncGate\<close> (a queue per key) and
  \<open>ProtectedAssetGate\<close> (a lock state per key) of \<open>shared/concurrency/classes/AsyncGate.js\<close> keep
  a \<open>Map\<close> from normalized keys to mutable objects, make an object on first use, and, when
  it goes idle, schedule a microtask that deletes the entry if the map still holds that very
  object and it is idle by then. Closures keep references to objects that have left the map, so
  the objects live in a store that is never emptied, and the map holds references.

  The claim both gates rest on is that a key never has two objects at work at a time, although
  its entry may be deleted and made again: that is the locale \<open>idle_registry\<close>.
\<close>

record 'o registry =
  reg_map :: "(string \<times> nat) list"
  reg_objs :: "nat \<Rightarrow> (string \<times> 'o) option"
  reg_next :: nat
  reg_micro :: "(string \<times> nat) list"

definition reg_empty :: "'o registry" where
  "reg_empty = \<lparr>reg_map = [], reg_objs = Map.empty, reg_next = 0, reg_micro = []\<rparr>"

definition reg_get :: "'o registry \<Rightarrow> string \<Rightarrow> nat option" where
  "reg_get r k = map_of (reg_map r) k"

definition reg_obj :: "'o registry \<Rightarrow> nat \<Rightarrow> 'o option" where
  "reg_obj r a = map_option snd (reg_objs r a)"

definition reg_create :: "string \<Rightarrow> 'o \<Rightarrow> 'o registry \<Rightarrow> 'o registry" where
  "reg_create k ob r = r\<lparr>reg_map := reg_map r @ [(k, reg_next r)],
     reg_objs := (reg_objs r)(reg_next r \<mapsto> (k, ob)), reg_next := reg_next r + 1\<rparr>"

definition reg_write :: "nat \<Rightarrow> 'o \<Rightarrow> 'o registry \<Rightarrow> 'o registry" where
  "reg_write a ob r = (case reg_objs r a of None \<Rightarrow> r
     | Some (k, _) \<Rightarrow> r\<lparr>reg_objs := (reg_objs r)(a \<mapsto> (k, ob))\<rparr>)"

definition reg_schedule :: "string \<Rightarrow> nat \<Rightarrow> 'o registry \<Rightarrow> 'o registry" where
  "reg_schedule k a r = r\<lparr>reg_micro := reg_micro r @ [(k, a)]\<rparr>"

text \<open>The microtask: \<open>latest === object\<close> and idle, then delete.\<close>

definition reg_micro_step :: "('o \<Rightarrow> bool) \<Rightarrow> 'o registry \<Rightarrow> 'o registry" where
  "reg_micro_step idle r = (case reg_micro r of [] \<Rightarrow> r
     | (k, a) # ms \<Rightarrow> let r' = r\<lparr>reg_micro := ms\<rparr> in
         if reg_get r k = Some a \<and> (case reg_obj r a of None \<Rightarrow> False | Some ob \<Rightarrow> idle ob)
         then r'\<lparr>reg_map := filter (\<lambda>e. fst e \<noteq> k) (reg_map r)\<rparr> else r')"

section \<open>Invariant\<close>

text \<open>
  The map holds live references filed under their own key; an object that is not (or no
  longer) in the map is idle.
\<close>

definition reg_safe :: "('o \<Rightarrow> bool) \<Rightarrow> 'o registry \<Rightarrow> bool" where
  "reg_safe idle r \<longleftrightarrow> distinct (map fst (reg_map r)) \<and>
     (\<forall>k a. reg_get r k = Some a \<longrightarrow> (\<exists>ob. reg_objs r a = Some (k, ob))) \<and>
     (\<forall>a k ob. reg_objs r a = Some (k, ob) \<longrightarrow> a < reg_next r \<and> (reg_get r k = Some a \<or> idle ob))"

text \<open>No leak: an idle object that is still in the map has its deletion scheduled.\<close>

definition reg_no_leak :: "('o \<Rightarrow> bool) \<Rightarrow> 'o registry \<Rightarrow> bool" where
  "reg_no_leak idle r \<longleftrightarrow> (\<forall>k a ob. reg_get r k = Some a \<longrightarrow> reg_objs r a = Some (k, ob) \<longrightarrow> idle ob \<longrightarrow>
     (k, a) \<in> set (reg_micro r))"

lemma reg_safe_empty [simp]: "reg_safe idle reg_empty" "reg_no_leak idle reg_empty"
  by (simp_all add: reg_safe_def reg_no_leak_def reg_empty_def reg_get_def)

lemma reg_get_create: "reg_get r k = None \<Longrightarrow>
    reg_get (reg_create k ob r) k' = (if k' = k then Some (reg_next r) else reg_get r k')"
  by (simp add: reg_get_def reg_create_def map_add_def split: option.splits)

lemma reg_create_simps [simp]:
  "reg_objs (reg_create k ob r) = (reg_objs r)(reg_next r \<mapsto> (k, ob))"
  "reg_next (reg_create k ob r) = Suc (reg_next r)" "reg_micro (reg_create k ob r) = reg_micro r"
  by (simp_all add: reg_create_def)

lemma reg_objs_write:
  "reg_objs (reg_write a ob r) b =
     (if b = a then map_option (\<lambda>(k, _). (k, ob)) (reg_objs r a) else reg_objs r b)"
  by (auto simp: reg_write_def split: option.splits)

lemma reg_write_simps [simp]:
  "reg_map (reg_write a ob r) = reg_map r" "reg_next (reg_write a ob r) = reg_next r"
  "reg_micro (reg_write a ob r) = reg_micro r" "reg_get (reg_write a ob r) k = reg_get r k"
  by (auto simp: reg_write_def reg_get_def split: option.splits)

lemma reg_schedule_simps [simp]:
  "reg_map (reg_schedule k a r) = reg_map r" "reg_objs (reg_schedule k a r) = reg_objs r"
  "reg_next (reg_schedule k a r) = reg_next r" "reg_get (reg_schedule k a r) = reg_get r"
  "reg_micro (reg_schedule k a r) = reg_micro r @ [(k, a)]" "reg_obj (reg_schedule k a r) = reg_obj r"
  by (auto simp: reg_schedule_def reg_get_def reg_obj_def fun_eq_iff)

lemma reg_safe_create:
  assumes "reg_safe idle r" and "reg_get r k = None"
  shows "reg_safe idle (reg_create k ob r)"
proof -
  have "k \<notin> set (map fst (reg_map r))" using assms(2) by (simp add: reg_get_def map_of_eq_None_iff)
  then have "distinct (map fst (reg_map (reg_create k ob r)))"
    using assms(1) by (simp add: reg_safe_def reg_create_def)
  with assms show ?thesis
    unfolding reg_safe_def by (auto simp: reg_get_create less_Suc_eq split: if_splits) fastforce+
qed

lemma reg_safe_entry: "reg_safe idle r \<Longrightarrow> (k, a) \<in> set (reg_map r) \<Longrightarrow> reg_get r k = Some a"
  by (simp add: reg_safe_def reg_get_def)

text \<open>An object may be rewritten when it is the one in the map, or stays idle.\<close>

lemma reg_safe_write:
  assumes "reg_safe idle r" and "\<And>k ob'. reg_objs r a = Some (k, ob') \<Longrightarrow> reg_get r k = Some a \<or> idle ob"
  shows "reg_safe idle (reg_write a ob r)"
  using assms unfolding reg_safe_def by (fastforce simp: reg_objs_write split: if_splits)

lemma reg_safe_schedule [simp]: "reg_safe idle (reg_schedule k a r) = reg_safe idle r"
  by (simp add: reg_safe_def)

lemma reg_micro_step_cases:
  "reg_micro_step idle r = r \<or>
   (\<exists>k a ms. reg_micro r = (k, a) # ms \<and> reg_micro_step idle r = r\<lparr>reg_micro := ms\<rparr> \<and>
      \<not> (reg_get r k = Some a \<and> (\<exists>k' ob. reg_objs r a = Some (k', ob) \<and> idle ob))) \<or>
   (\<exists>k a ms ob k'. reg_micro r = (k, a) # ms \<and> reg_get r k = Some a \<and> reg_objs r a = Some (k', ob) \<and> idle ob \<and>
      reg_micro_step idle r = r\<lparr>reg_micro := ms, reg_map := filter (\<lambda>e. fst e \<noteq> k) (reg_map r)\<rparr>)"
  by (auto simp: reg_micro_step_def reg_obj_def Let_def split: list.splits option.splits)

lemma reg_get_micro [simp]: "reg_get (r\<lparr>reg_micro := ms\<rparr>) = reg_get r"
  by (simp add: reg_get_def fun_eq_iff)

lemma reg_get_delete:
  "reg_get (r\<lparr>reg_micro := ms, reg_map := filter (\<lambda>e. fst e \<noteq> k) (reg_map r)\<rparr>) k' =
     (if k' = k then None else reg_get r k')"
  by (simp add: reg_get_def map_of_filter_neq)

lemma reg_safe_micro_step:
  assumes "reg_safe idle r"
  shows "reg_safe idle (reg_micro_step idle r)"
  using reg_micro_step_cases [of idle r]
proof (elim disjE exE conjE)
  fix k a ms ob k'
  assume "reg_get r k = Some a" "reg_objs r a = Some (k', ob)" "idle ob"
    and eq: "reg_micro_step idle r = r\<lparr>reg_micro := ms, reg_map := filter (\<lambda>e. fst e \<noteq> k) (reg_map r)\<rparr>"
  moreover have "distinct (map fst (filter (\<lambda>e. fst e \<noteq> k) (reg_map r)))"
    using assms by (simp add: reg_safe_def distinct_map_filter)
  ultimately show ?thesis
    using assms unfolding reg_safe_def eq reg_get_delete by (auto split: if_splits) fastforce+
qed (use assms in \<open>simp_all add: reg_safe_def\<close>)

lemma reg_no_leak_micro_step:
  assumes "reg_safe idle r" "reg_no_leak idle r"
  shows "reg_no_leak idle (reg_micro_step idle r)"
  using reg_micro_step_cases [of idle r]
proof (elim disjE exE conjE)
  fix k a ms
  assume "reg_micro r = (k, a) # ms" "\<not> (reg_get r k = Some a \<and> (\<exists>k' ob. reg_objs r a = Some (k', ob) \<and> idle ob))"
    and eq: "reg_micro_step idle r = r\<lparr>reg_micro := ms\<rparr>"
  with assms show ?thesis unfolding reg_no_leak_def eq by fastforce
next
  fix k a ms ob k'
  assume "reg_micro r = (k, a) # ms" "reg_get r k = Some a"
    and eq: "reg_micro_step idle r = r\<lparr>reg_micro := ms, reg_map := filter (\<lambda>e. fst e \<noteq> k) (reg_map r)\<rparr>"
  with assms show ?thesis unfolding reg_no_leak_def eq reg_get_delete by (auto split: if_splits)
qed (use assms in simp_all)

section \<open>Hooks that schedule the deletion\<close>

text \<open>
  An operation on the object \<open>a\<close> of key \<open>k\<close> leaves notices, and each notice for which \<open>P\<close> holds
  queues the microtask.
\<close>

definition reg_hooks :: "('n \<Rightarrow> bool) \<Rightarrow> string \<Rightarrow> nat \<Rightarrow> 'n list \<Rightarrow> 'o registry \<Rightarrow> 'o registry" where
  "reg_hooks P k a ns r = fold (\<lambda>n r. if P n then reg_schedule k a r else r) ns r"

lemma reg_hooks_simps [simp]:
  "reg_objs (reg_hooks P k a ns r) = reg_objs r" "reg_get (reg_hooks P k a ns r) = reg_get r"
  "reg_map (reg_hooks P k a ns r) = reg_map r" "reg_next (reg_hooks P k a ns r) = reg_next r"
  by (induction ns arbitrary: r) (auto simp: reg_hooks_def)

lemma reg_hooks_micro:
  "set (reg_micro (reg_hooks P k a ns r)) = set (reg_micro r) \<union> (if \<exists>n \<in> set ns. P n then {(k, a)} else {})"
  by (induction ns arbitrary: r) (auto simp: reg_hooks_def)

text \<open>Every object satisfies \<open>ok\<close>, given its key.\<close>

definition reg_ok :: "('o \<Rightarrow> bool) \<Rightarrow> (string \<Rightarrow> 'o \<Rightarrow> bool) \<Rightarrow> 'o registry \<Rightarrow> bool" where
  "reg_ok idle ok r \<longleftrightarrow> reg_safe idle r \<and> reg_no_leak idle r \<and>
     (\<forall>a k q. reg_objs r a = Some (k, q) \<longrightarrow> ok k q)"

lemma reg_okD:
  assumes "reg_ok idle ok r"
  shows "reg_safe idle r" and "reg_no_leak idle r" and "reg_objs r a = Some (k, q) \<Longrightarrow> ok k q"
  using assms by (auto simp: reg_ok_def)

text \<open>
  An event on an object keeps the registry well formed when the object is in the map or the
  event cannot wake it, and when an idle result has left a notice or was idle before.
\<close>

lemma reg_update_ok:
  assumes safe: "reg_safe idle r" and objs: "\<And>b l x. reg_objs r b = Some (l, x) \<Longrightarrow> ok l x"
    and leak: "\<And>k' b ob. reg_get r k' = Some b \<Longrightarrow> reg_objs r b = Some (k', ob) \<Longrightarrow> idle ob \<Longrightarrow> b \<noteq> a \<Longrightarrow> (k', b) \<in> set (reg_micro r)"
    and a: "reg_objs r a = Some (k, q)"
    and q': "ok k q'"
    and live: "reg_get r k = Some a \<or> idle q'"
    and hook: "idle q' \<Longrightarrow> (\<exists>n \<in> set ns. P n) \<or> (k, a) \<in> set (reg_micro r) \<or> reg_get r k \<noteq> Some a"
  shows "reg_ok idle ok (reg_hooks P k a ns (reg_write a q' r))"
proof -
  let ?w = "reg_write a q' r"
  have "reg_safe idle ?w" by (rule reg_safe_write [OF safe]) (use a live in auto)
  then have "reg_safe idle (reg_hooks P k a ns ?w)" by (simp add: reg_safe_def)
  moreover have "reg_no_leak idle (reg_hooks P k a ns ?w)"
    unfolding reg_no_leak_def reg_hooks_simps reg_hooks_micro reg_objs_write
    using leak hook a by (auto split: if_splits)
  moreover have "\<forall>b l x. reg_objs (reg_hooks P k a ns ?w) b = Some (l, x) \<longrightarrow> ok l x"
    unfolding reg_hooks_simps reg_objs_write using objs q' a by (auto split: if_splits)
  ultimately show ?thesis by (simp add: reg_ok_def)
qed

lemma reg_micro_step_objs [simp]: "reg_objs (reg_micro_step idle r) = reg_objs r"
  by (auto simp: reg_micro_step_def Let_def split: list.splits)

lemma reg_micro_step_ok: "reg_ok idle ok r \<Longrightarrow> reg_ok idle ok (reg_micro_step idle r)"
  by (simp add: reg_ok_def reg_safe_micro_step [of idle r] reg_no_leak_micro_step [of idle r])

lemma reg_micro_step_tl: "reg_micro (reg_micro_step idle r) = tl (reg_micro r)"
  by (auto simp: reg_micro_step_def Let_def split: list.splits)

text \<open>The object of a key, made on first use.\<close>

definition reg_ensure :: "string \<Rightarrow> 'o \<Rightarrow> 'o registry \<Rightarrow> 'o registry" where
  "reg_ensure k ob r = (if reg_get r k = None then reg_create k ob r else r)"

lemma reg_ensure_facts:
  assumes r: "reg_ok idle ok r" and new: "ok k ob"
  shows "reg_safe idle (reg_ensure k ob r)"
    and "\<And>b l x. reg_objs (reg_ensure k ob r) b = Some (l, x) \<Longrightarrow> ok l x"
    and "\<exists>a q. reg_get (reg_ensure k ob r) k = Some a \<and> reg_objs (reg_ensure k ob r) a = Some (k, q)"
    and "reg_get (reg_ensure k ob r) k' = Some b \<Longrightarrow> reg_objs (reg_ensure k ob r) b = Some (k', x) \<Longrightarrow> idle x \<Longrightarrow>
      k' \<noteq> k \<Longrightarrow> (k', b) \<in> set (reg_micro (reg_ensure k ob r))"
proof -
  note d = reg_okD [OF r]
  show "reg_safe idle (reg_ensure k ob r)" using d(1) by (simp add: reg_ensure_def reg_safe_create)
  show "\<And>b l x. reg_objs (reg_ensure k ob r) b = Some (l, x) \<Longrightarrow> ok l x"
    using d(3) new by (auto simp: reg_ensure_def split: if_splits)
  show "\<exists>a q. reg_get (reg_ensure k ob r) k = Some a \<and> reg_objs (reg_ensure k ob r) a = Some (k, q)"
  proof (cases "reg_get r k")
    case None
    then show ?thesis by (simp add: reg_ensure_def reg_get_create)
  next
    case (Some a)
    then show ?thesis using d(1) unfolding reg_safe_def by (auto simp: reg_ensure_def)
  qed
  show "reg_get (reg_ensure k ob r) k' = Some b \<Longrightarrow> reg_objs (reg_ensure k ob r) b = Some (k', x) \<Longrightarrow> idle x \<Longrightarrow>
      k' \<noteq> k \<Longrightarrow> (k', b) \<in> set (reg_micro (reg_ensure k ob r))"
    using d(1,2) by (auto simp: reg_ensure_def reg_get_create reg_no_leak_def reg_safe_def split: if_splits)
qed

section \<open>The contract of the two gates\<close>

text \<open>
  The gate's object type says when an object is idle and how much work it carries; an idle
  object carries none. Under that law, all the work of a key is in one object.
\<close>

locale idle_registry =
  fixes idle :: "'o \<Rightarrow> bool" and load :: "'o \<Rightarrow> nat"
  assumes idle_load: "idle ob \<Longrightarrow> load ob = 0"
begin

lemma single_worker:
  assumes "reg_safe idle r" and "reg_objs r a = Some (k, x)" and "reg_objs r b = Some (k, y)"
    and "0 < load x" and "0 < load y"
  shows "a = b"
proof -
  have "\<not> idle x" "\<not> idle y" using assms(4,5) idle_load by fastforce+
  then have "reg_get r k = Some a" "reg_get r k = Some b"
    using assms(1-3) unfolding reg_safe_def by blast+
  then show ?thesis by simp
qed

text \<open>With no microtask left, every entry of the map is at work.\<close>

lemma quiescent_map_busy:
  assumes "reg_no_leak idle r" and "reg_micro r = []" and "reg_get r k = Some a" and "reg_objs r a = Some (k, ob)"
  shows "\<not> idle ob"
  using assms unfolding reg_no_leak_def by fastforce

end

end
