(* ===== verification/KeyedAsyncGate.thy ===== *)
theory KeyedAsyncGate
  imports AsyncWorkQueue Registry
begin

text \<open>
  \<open>KeyedAsyncGate\<close> of \<open>shared/concurrency/classes/AsyncGate.js\<close>: one \<open>AsyncWorkQueue\<close> per
  normalized key, made on first use and dropped in a microtask once it is idle. The queues are
  the objects of a \<open>registry\<close>; the hooks the gate installs on every task are applied to the
  notices a queue operation appends to the queue's log.
\<close>

section \<open>Model\<close>

text \<open>\<open>String(value || "global").trim()\<close>, with the fallback again when nothing is left.\<close>

definition normalizeGateKey :: "string option \<Rightarrow> string" where
  "normalizeGateKey value =
     (let text = js_trim (case value of Some v \<Rightarrow> if v = [] then ''global'' else v | None \<Rightarrow> ''global'')
      in if text = [] then ''global'' else text)"

record kgate =
  kg_name :: string
  kg_max :: int
  kg_reg :: "awq registry"
  kg_closed :: bool

definition kg_new :: "string \<Rightarrow> int \<Rightarrow> kgate" where
  "kg_new name m = \<lparr>kg_name = name, kg_max = m, kg_reg = reg_empty, kg_closed = False\<rparr>"

definition awq_idle :: "awq \<Rightarrow> bool" where
  "awq_idle q \<longleftrightarrow> sn_inFlight (awq_snapshot q) = 0 \<and> sn_pending (awq_snapshot q) = 0"

text \<open>
  \<open>cleanupQueueIfIdle\<close> runs inside \<open>onCancel\<close> and \<open>onRelease\<close>; the notice carries the snapshot
  it reads.
\<close>

fun idle_hook :: "awq_notice \<Rightarrow> bool" where
  "idle_hook (Released _ _ inFlight pending) = (inFlight = 0 \<and> pending = 0)"
| "idle_hook (Cancelled _ _ _ inFlight pending) = (inFlight = 0 \<and> pending = 0)"
| "idle_hook _ = False"

definition awq_news :: "awq \<Rightarrow> awq \<Rightarrow> awq_notice list" where
  "awq_news q q' = drop (length (q_log q)) (q_log q')"

text \<open>An operation on the queue object \<open>a\<close>, with the hooks it calls.\<close>

definition kg_apply :: "awq_event \<Rightarrow> nat \<Rightarrow> awq registry \<Rightarrow> awq registry" where
  "kg_apply e a r = (case reg_objs r a of None \<Rightarrow> r
     | Some (k, q) \<Rightarrow> let q' = awq_step e q in reg_hooks idle_hook k a (awq_news q q') (reg_write a q' r))"

definition kg_queue :: "string \<Rightarrow> kgate \<Rightarrow> awq registry" where
  "kg_queue k g = reg_ensure k (awq_new (kg_name g @ '':'' @ k) (kg_max g)) (kg_reg g)"

datatype kg_promise = KRefused js_value | KTask nat nat

definition kg_run :: "string option \<Rightarrow> string \<Rightarrow> int option \<Rightarrow> abort_signal \<Rightarrow> int \<Rightarrow> kgate \<Rightarrow> kgate \<times> kg_promise" where
  "kg_run key label waitMs signal now g =
     (let normalized = normalizeGateKey key in
      if kg_closed g
      then (g, KRefused (gateClosedError (kg_name g @ '':'' @ normalized) label ''gate closed'' ''global''))
      else let r = kg_queue normalized g; a = the (reg_get r normalized);
               i = q_nextId (the (reg_obj r a))
           in (g\<lparr>kg_reg := kg_apply (RunEv label waitMs signal now) a r\<rparr>, KTask a i))"

definition kg_isBusy :: "string option \<Rightarrow> kgate \<Rightarrow> bool" where
  "kg_isBusy key g = (case reg_get (kg_reg g) (normalizeGateKey key) of None \<Rightarrow> False
     | Some a \<Rightarrow> (case reg_obj (kg_reg g) a of None \<Rightarrow> False | Some q \<Rightarrow>
         sn_inFlight (awq_snapshot q) > 0 \<or> sn_pending (awq_snapshot q) > 0))"

definition kg_snapshot :: "kgate \<Rightarrow> (string \<times> awq_snapshot option) list" where
  "kg_snapshot g = map (\<lambda>(k, a). (k, map_option awq_snapshot (reg_obj (kg_reg g) a))) (reg_map (kg_reg g))"

fun kg_closeQueue :: "string \<Rightarrow> int \<Rightarrow> string \<times> nat \<Rightarrow> awq registry \<times> nat \<Rightarrow> awq registry \<times> nat" where
  "kg_closeQueue reason now (k, a) (r, n) =
     (kg_apply (CloseEv reason now) a r,
      n + (case reg_obj r a of None \<Rightarrow> 0 | Some q \<Rightarrow> snd (awq_close reason now q)))"

definition kg_close :: "string \<Rightarrow> int \<Rightarrow> kgate \<Rightarrow> kgate \<times> nat" where
  "kg_close reason now g =
     (if kg_closed g then (g, 0)
      else let (r, n) = fold (kg_closeQueue reason now) (reg_map (kg_reg g)) (kg_reg g, 0)
           in (g\<lparr>kg_reg := r, kg_closed := True\<rparr>, n))"

definition kg_micro :: "kgate \<Rightarrow> kgate" where
  "kg_micro g = g\<lparr>kg_reg := reg_micro_step awq_idle (kg_reg g)\<rparr>"

text \<open>
  The steps of a gate: its entry points, the callbacks of a queue's tasks (which keep a
  reference to their queue object, in the map or not), and the next microtask.
\<close>

datatype kg_event =
    KRun "string option" string "int option" abort_signal int
  | KCall nat awq_event
  | KClose string int
  | KMicro

fun is_callback :: "awq_event \<Rightarrow> bool" where
  "is_callback (RunEv _ _ _ _) = False"
| "is_callback (CloseEv _ _) = False"
| "is_callback _ = True"

fun kg_step :: "kg_event \<Rightarrow> kgate \<Rightarrow> kgate" where
  "kg_step (KRun key label waitMs signal now) g = fst (kg_run key label waitMs signal now g)"
| "kg_step (KCall a e) g = (if is_callback e then g\<lparr>kg_reg := kg_apply e a (kg_reg g)\<rparr> else g)"
| "kg_step (KClose reason now) g = fst (kg_close reason now g)"
| "kg_step KMicro g = kg_micro g"

section \<open>Idle queues\<close>

lemma normalizeGateKey_idem [simp]: "normalizeGateKey (Some (normalizeGateKey v)) = normalizeGateKey v"
proof -
  have "js_trim ''global'' = ''global''" by code_simp
  then show ?thesis by (auto simp: normalizeGateKey_def Let_def)
qed

lemma awq_idle_core:
  assumes "awq_core X Y q"
  shows "awq_idle q \<longleftrightarrow> q_inFlight q = 0 \<and> q_pending q = []"
  by (simp add: awq_idle_def awq_snapshot_def awq_core_live_pending [OF assms])

lemma awq_startTask_inFlight: "q_inFlight q \<le> q_inFlight (awq_startTask now i q)"
  by (simp add: awq_startTask_def split: option.splits)

lemma awq_drainLoop_inFlight: "q_inFlight q \<le> q_inFlight (awq_drainLoop now ids q)"
proof (induction now ids q rule: awq_drainLoop.induct)
  case (2 now i ids q)
  then show ?case using awq_startTask_inFlight [of q now i] by auto
qed simp

lemma awq_drainLoop_not_idle:
  assumes "awq_core {} Y (q\<lparr>q_pending := i # ids\<rparr>)"
  shows "0 < q_inFlight (awq_drainLoop now (i # ids) q)"
proof (cases "q_inFlight q < q_maxConcurrency q")
  case True
  have i: "i \<in> awq_waits q" using awq_core_parts(1) [OF assms] by simp
  then have "awq_task_is (\<lambda>t. \<not> tk_cancelled t) q i" by (auto simp: awq_task_is_def split: option.splits)
  then show ?thesis
    using True awq_drainLoop_inFlight [of "awq_startTask now i q" now ids] awq_startTask_effect(6) [OF i, of now] by simp
next
  case False
  then show ?thesis using awq_core_parts(13) [OF assms] by simp
qed

lemma awq_drain_idle:
  assumes "awq_core {} Y q" and z: "q_inFlight (awq_drain now q) = 0" and p: "q_pending (awq_drain now q) = []"
  shows "q_inFlight q = 0 \<and> q_pending q = []"
proof (cases "q_closed q")
  case True
  then show ?thesis using z p by (simp add: awq_drain_def)
next
  case False
  then have eq: "awq_drain now q = awq_drainLoop now (q_pending q) q" by (simp add: awq_drain_def)
  have "q_pending q = []"
  proof (rule ccontr)
    assume "q_pending q \<noteq> []"
    then obtain i ids where ids: "q_pending q = i # ids" by (cases "q_pending q") auto
    then have "q\<lparr>q_pending := i # ids\<rparr> = q" by simp
    with assms(1) have "awq_core {} Y (q\<lparr>q_pending := i # ids\<rparr>)" by simp
    from awq_drainLoop_not_idle [OF this, of now] z show False unfolding eq ids by simp
  qed
  then show ?thesis using z awq_drainLoop_inFlight [of q now "q_pending q"] by (simp add: eq)
qed

lemma awq_news_step:
  assumes "prefix (q_log q @ ns) (q_log q')"
  shows "set ns \<subseteq> set (awq_news q q')"
  using assms by (auto simp: awq_news_def elim!: prefixE)

lemma awq_extends_log: "awq_extends q q' \<Longrightarrow> prefix (q_log q) (q_log q')"
  by (simp add: awq_extends_def)

text \<open>A task cancelled while it waits leaves a notice; the queue is idle after it only if the notice says so.\<close>

lemma awq_cancelTask_hook:
  assumes core: "awq_core X {} q" "X \<subseteq> {i}" and idle: "q_inFlight (awq_cancelTask now i err w q) = 0"
    "q_pending (awq_cancelTask now i err w q) = []" and i: "i \<in> awq_waits q"
  shows "\<exists>n \<in> set (awq_news q (awq_cancelTask now i err w q)). idle_hook n"
proof -
  obtain t where t: "q_tasks q i = Some t" "\<not> tk_started t" "\<not> tk_cancelled t" using i by (rule awq_waits_task)
  let ?c = "awq_cancelled i err w t q"
  have eq: "awq_cancelTask now i err w q = awq_drain now ?c" using t by (simp add: awq_cancelTask_eq)
  have c: "awq_core {} {} ?c" using core t by (intro awq_cancelled_core) auto
  have "q_inFlight ?c = 0 \<and> q_pending ?c = []"
    by (rule awq_drain_idle [OF c idle(1) [unfolded eq] idle(2) [unfolded eq]])
  then have z: "q_inFlight ?c = 0" "q_pending ?c = []" by blast+
  obtain p where log: "q_log ?c = q_log q @ [Settled i (Rejected err), Cancelled i err w (q_inFlight ?c) p]"
    and p: "p = awq_live_pending ?c"
    by (simp add: awq_cancelled_def Let_def awq_live_pending_def)
  have "prefix (q_log ?c) (q_log (awq_drain now ?c))" by (intro awq_extends_log awq_drain_extends)
  then have "Cancelled i err w (q_inFlight ?c) p \<in> set (awq_news q (awq_drain now ?c))"
    unfolding log using awq_news_step by fastforce
  moreover have "p = 0" using z(2) unfolding p by (simp add: awq_core_live_pending [OF c])
  ultimately show ?thesis using z(1) eq by force
qed

lemma awq_cancelTask_noop: "i \<notin> awq_waits q \<Longrightarrow> awq_cancelTask now i err w q = q"
  by (auto simp: awq_cancelTask_eq awq_task_is_def split: option.splits)

lemma awq_drain_inFlight: "q_inFlight q \<le> q_inFlight (awq_drain now q)"
  by (simp add: awq_drain_def awq_drainLoop_inFlight)

lemma awq_cancelTask_inFlight: "q_inFlight q \<le> q_inFlight (awq_cancelTask now i err w q)"
proof -
  have "q_inFlight q \<le> q_inFlight (awq_drain now (awq_cancelled i err w t q))" for t
    using awq_drain_inFlight [of "awq_cancelled i err w t q" now] by simp
  then show ?thesis by (simp add: awq_cancelTask_eq split: option.splits)
qed

text \<open>An idle queue ignores the callbacks of its tasks: they have all settled.\<close>

lemma awq_idle_callback:
  assumes "awq_inv q" "awq_idle q" "is_callback e"
  shows "awq_step e q = q"
proof -
  have core: "awq_core {} {} q" using assms(1) by (simp add: awq_inv_def)
  have "q_pending q = []" "q_inFlight q = 0" using assms(2) by (simp_all add: awq_idle_core [OF core])
  then have "awq_waits q = {}" "q_running q = []" using awq_core_parts(3,10) [OF core] by auto
  then have "awq_cancelTask now i err w q = q" for now i err w by (auto intro: awq_cancelTask_noop)
  then show ?thesis using assms(3) \<open>q_running q = []\<close>
    by (cases e) (auto simp: awq_timer_def awq_abort_def awq_finish_def split: option.splits)
qed

text \<open>An enqueued task leaves an open queue busy, unless its signal was aborted: then a hook ran.\<close>

lemma awq_run_hook:
  assumes inv: "awq_inv q" and open_q: "\<not> q_closed q"
    and idle: "awq_idle (fst (awq_run label waitMs signal now q))"
  shows "\<exists>n \<in> set (awq_news q (fst (awq_run label waitMs signal now q))). idle_hook n"
proof -
  let ?a = "awq_admit label waitMs signal now q" and ?i = "q_nextId q"
  let ?p = "?a\<lparr>q_pending := q_pending q @ [?i]\<rparr>"
  have "awq_core {} {} (fst (awq_run label waitMs signal now q))"
    using awq_run_inv [OF inv] by (simp add: awq_inv_def)
  from awq_idle_core [OF this] idle
  have z: "q_inFlight (fst (awq_run label waitMs signal now q)) = 0"
    "q_pending (fst (awq_run label waitMs signal now q)) = []" by simp_all
  show ?thesis
  proof (cases "is_aborted signal")
    case True
    then obtain reason where s: "signal = AbortedSignal reason" by (cases signal) auto
    have i: "?i \<in> awq_waits ?a" using awq_admit_effect(1) [OF awq_inv_below(2) [OF inv]] by simp
    have "fst (awq_run label waitMs signal now q)
        = awq_cancelTask now ?i (gateAbortError reason ''global'' label) 0 ?a"
      using open_q by (simp add: awq_run_def Let_def s)
    with z awq_cancelTask_hook [OF awq_admit_core(1) [OF inv] subset_refl _ _ i]
    show ?thesis by (simp add: awq_news_def)
  next
    case False
    then have eq: "fst (awq_run label waitMs signal now q) = awq_drain now ?p \<or>
        (\<exists>e. fst (awq_run label waitMs signal now q) = awq_cancelTask now ?i e 0 (awq_drain now ?p))"
      using open_q by (cases signal) (auto simp: awq_run_def Let_def)
    then have "q_inFlight (awq_drain now ?p) = 0"
      using z(1) awq_cancelTask_inFlight [of "awq_drain now ?p" now ?i] by auto (metis le_zero_eq)
    moreover have "0 < q_inFlight (awq_drain now ?p)"
    proof -
      obtain j ids where j: "q_pending q @ [?i] = j # ids" by (cases "q_pending q") auto
      with awq_admit_core(2) [OF inv] have "awq_core {} {} (?a\<lparr>q_pending := j # ids\<rparr>)" by simp
      then have "awq_core {} {} (?p\<lparr>q_pending := j # ids\<rparr>)" by simp
      from awq_drainLoop_not_idle [OF this] show ?thesis
        using open_q j by (simp add: awq_drain_def)
    qed
    ultimately show ?thesis by simp
  qed
qed

lemma awq_callback_hook:
  assumes inv: "awq_inv q" and "is_callback e" and idle: "awq_idle (awq_step e q)"
  shows "(\<exists>n \<in> set (awq_news q (awq_step e q)). idle_hook n) \<or> awq_step e q = q"
proof -
  have core: "awq_core {} {} q" using inv by (simp add: awq_inv_def)
  have "awq_core {} {} (awq_step e q)" using awq_step_inv [OF inv] by (simp add: awq_inv_def)
  from awq_idle_core [OF this] idle
  have z: "q_inFlight (awq_step e q) = 0" "q_pending (awq_step e q) = []" by simp_all
  have cancel: "(\<exists>n \<in> set (awq_news q q'). idle_hook n) \<or> q' = q"
    if "q' = awq_cancelTask now i err w q" "q_inFlight q' = 0" "q_pending q' = []" for q' now i err w
  proof (cases "i \<in> awq_waits q")
    case True
    then show ?thesis using awq_cancelTask_hook [OF core _ _ _ True] that by blast
  next
    case False
    then show ?thesis using that awq_cancelTask_noop by blast
  qed
  show ?thesis
  proof (cases "\<exists>i r h now. e = FinishEv i r h now \<and> i \<in> set (q_running q)")
    case True
    then obtain i r h now where e: "e = FinishEv i r h now" "i \<in> set (q_running q)" by blast
    let ?s = "awq_released i (runBeforeRelease r h) q"
    have eq: "awq_step e q = awq_emit (Settled i (runBeforeRelease r h)) (awq_drain now ?s)"
      using e by (simp add: awq_finish_eq)
    have c: "awq_core {} {i} ?s" by (rule awq_released_core [OF inv e(2)])
    have "q_inFlight ?s = 0 \<and> q_pending ?s = []"
      by (rule awq_drain_idle [OF c]) (use z eq in auto)
    then have "q_inFlight q - 1 = 0" "awq_live_pending ?s = 0"
      by (simp_all add: awq_core_live_pending [OF c])
    then have log: "q_log ?s = q_log q @ [Released i (runBeforeRelease r h) 0 0]"
      by (simp add: awq_released_def Let_def awq_live_pending_def)
    have "prefix (q_log ?s) (q_log (awq_drain now ?s))" by (intro awq_extends_log awq_drain_extends)
    also have "prefix (q_log (awq_drain now ?s)) (q_log (awq_step e q))" unfolding eq by simp
    finally have "set [Released i (runBeforeRelease r h) 0 0] \<subseteq> set (awq_news q (awq_step e q))"
      unfolding log by (rule awq_news_step)
    then have "Released i (runBeforeRelease r h) 0 0 \<in> set (awq_news q (awq_step e q))" by simp
    moreover have "idle_hook (Released i (runBeforeRelease r h) 0 0)" by simp
    ultimately show ?thesis by blast
  next
    case False
    then have "awq_step e q = q \<or> (\<exists>now i err w. awq_step e q = awq_cancelTask now i err w q)"
    proof (cases e)
      case (TimerEv i now)
      then show ?thesis by (auto simp: awq_timer_def split: option.splits)
    next
      case (AbortEv i reason now)
      then show ?thesis by (auto simp: awq_abort_def split: option.splits)
    next
      case (FinishEv i r h now)
      then show ?thesis using False by (auto simp: awq_finish_def)
    qed (use assms(2) in simp_all)
    then show ?thesis
    proof (elim disjE exE)
      fix now i err w assume "awq_step e q = awq_cancelTask now i err w q"
      then show ?thesis by (rule cancel [OF _ z])
    qed simp
  qed
qed

section \<open>The gate's invariant\<close>

interpretation kg: idle_registry awq_idle "\<lambda>q. sn_inFlight (awq_snapshot q)"
  by unfold_locales (simp add: awq_idle_def)

text \<open>Every queue object is well formed, has the gate's bound, and is open while the gate is.\<close>

definition kg_queue_ok :: "int \<Rightarrow> bool \<Rightarrow> awq \<Rightarrow> bool" where
  "kg_queue_ok m closed q \<longleftrightarrow> awq_inv q \<and> q_maxConcurrency q = nat (max 1 m) \<and> (q_closed q \<longrightarrow> closed)"

abbreviation kg_ok :: "int \<Rightarrow> bool \<Rightarrow> awq registry \<Rightarrow> bool" where
  "kg_ok m closed \<equiv> reg_ok awq_idle (\<lambda>k q. kg_queue_ok m closed q \<and> normalizeGateKey (Some k) = k)"

definition kg_inv :: "kgate \<Rightarrow> bool" where
  "kg_inv g \<longleftrightarrow> kg_ok (kg_max g) (kg_closed g) (kg_reg g)"

lemma kg_apply_eq: "reg_objs r a = Some (k, q) \<Longrightarrow>
    kg_apply e a r = reg_hooks idle_hook k a (awq_news q (awq_step e q)) (reg_write a (awq_step e q) r)"
  by (simp add: kg_apply_def Let_def)

lemma awq_closed_simps [simp]:
  "q_closed (awq_cancelTask now i err w q) = q_closed q"
  "q_closed (awq_timer i now q) = q_closed q" "q_closed (awq_abort i reason now q) = q_closed q"
  "q_closed (awq_finish i r h now q) = q_closed q"
  by (simp_all add: awq_cancelTask_eq awq_timer_def awq_abort_def awq_finish_eq split: option.splits)

lemma awq_run_closed [simp]: "q_closed (fst (awq_run label waitMs signal now q)) = q_closed q"
  by (cases signal) (simp_all add: awq_run_def Let_def)

lemma kg_queue_ok_step:
  assumes "kg_queue_ok m closed q" and "closed \<or> (\<forall>reason now. e \<noteq> CloseEv reason now)"
  shows "kg_queue_ok m closed (awq_step e q)"
proof -
  have inv: "awq_inv q" using assms(1) by (simp add: kg_queue_ok_def)
  have "q_closed (awq_step e q) = q_closed q" if "\<forall>reason now. e \<noteq> CloseEv reason now"
    using that by (cases e) simp_all
  then show ?thesis
    using assms awq_step_inv [OF inv] awq_step_extends [OF inv, of e]
    by (auto simp: kg_queue_ok_def awq_extends_def)
qed

lemma kg_okD:
  assumes "kg_ok m closed r"
  shows "reg_safe awq_idle r" and "reg_no_leak awq_idle r"
    and "reg_objs r a = Some (k, q) \<Longrightarrow> kg_queue_ok m closed q"
    and "reg_objs r a = Some (k, q) \<Longrightarrow> normalizeGateKey (Some k) = k"
  using reg_okD [OF assms] by blast+

lemma kg_call_ok:
  assumes ok: "kg_ok m closed r" and "is_callback e"
  shows "kg_ok m closed (kg_apply e a r)"
proof (cases "reg_objs r a")
  case None
  then show ?thesis using ok by (simp add: kg_apply_def)
next
  case (Some p)
  obtain k q where p: "p = (k, q)" by (cases p)
  note a = Some [unfolded p]
  have q: "kg_queue_ok m closed q" "awq_inv q" using kg_okD(3) [OF ok a] by (auto simp: kg_queue_ok_def)
  have "awq_idle (awq_step e q)" if "reg_get r k \<noteq> Some a"
  proof -
    have "awq_idle q" using kg_okD(1) [OF ok] a that unfolding reg_safe_def by blast
    then show ?thesis using awq_idle_callback [OF q(2) _ assms(2)] by simp
  qed
  moreover have "(\<exists>n \<in> set (awq_news q (awq_step e q)). idle_hook n) \<or> (k, a) \<in> set (reg_micro r) \<or> reg_get r k \<noteq> Some a"
    if idle: "awq_idle (awq_step e q)"
    using awq_callback_hook [OF q(2) assms(2) idle] kg_okD(2) [OF ok] a idle by (auto simp: reg_no_leak_def)
  moreover have "closed \<or> (\<forall>reason now. e \<noteq> CloseEv reason now)" using assms(2) by (cases e) auto
  ultimately show ?thesis
    using kg_okD(2) [OF ok] kg_okD(3,4) [OF ok] a unfolding kg_apply_eq [OF a]
    by (intro reg_update_ok [OF kg_okD(1) [OF ok] _ _ a] conjI kg_queue_ok_step [OF q(1)]) (auto simp: reg_no_leak_def)
qed

text \<open>Closing a queue leaves the running tasks alone, so it is idle after it iff it was before.\<close>

lemma awq_inv_idle:
  assumes "awq_inv q"
  shows "awq_idle q \<longleftrightarrow> q_inFlight q = 0"
proof -
  have core: "awq_core {} {} q" using assms by (simp add: awq_inv_def)
  then show ?thesis
    using assms awq_core_parts(13) [OF core] by (auto simp: awq_idle_core [OF core] awq_inv_def awq_busy_def)
qed

lemma awq_close_inFlight: "q_inFlight (fst (awq_close reason now q)) = q_inFlight q"
proof -
  have "q_closed (fold (awq_closeTask reason now) ids x) \<and> q_inFlight (fold (awq_closeTask reason now) ids x) = q_inFlight x"
    if "q_closed x" for ids x
    using that
  proof (induction ids arbitrary: x)
    case (Cons i ids)
    have "q_closed (awq_closeTask reason now i x) \<and> q_inFlight (awq_closeTask reason now i x) = q_inFlight x"
      using Cons.prems by (simp add: awq_closeTask_def awq_cancelTask_eq awq_drain_def split: option.splits)
    then show ?case using Cons.IH [of "awq_closeTask reason now i x"] by simp
  qed simp
  then show ?thesis by (simp add: awq_close_def Let_def)
qed

lemma kg_ok_closing: "kg_ok m closed r \<Longrightarrow> kg_ok m True r"
  by (auto simp: reg_ok_def kg_queue_ok_def)

lemma kg_closeQueue_ok:
  assumes ok: "kg_ok m True r"
  shows "kg_ok m True (kg_apply (CloseEv reason now) a r)"
proof (cases "reg_objs r a")
  case None
  then show ?thesis using ok by (simp add: kg_apply_def)
next
  case (Some p)
  obtain k q where p: "p = (k, q)" by (cases p)
  note a = Some [unfolded p]
  have q: "kg_queue_ok m True q" "awq_inv q" using kg_okD(3) [OF ok a] by (auto simp: kg_queue_ok_def)
  have same: "awq_idle (awq_step (CloseEv reason now) q) \<longleftrightarrow> awq_idle q"
    using awq_inv_idle [OF q(2)] awq_inv_idle [OF awq_step_inv [OF q(2)], of "CloseEv reason now"]
    by (simp add: awq_close_inFlight)
  have live: "reg_get r k = Some a \<or> awq_idle (awq_step (CloseEv reason now) q)"
    using kg_okD(1) [OF ok] a unfolding same reg_safe_def by blast
  show ?thesis
    using kg_okD(2) [OF ok] kg_okD(3,4) [OF ok] a unfolding kg_apply_eq [OF a]
    by (intro reg_update_ok [OF kg_okD(1) [OF ok] _ _ a] live conjI kg_queue_ok_step [OF q(1)])
      (auto simp: reg_no_leak_def same [simplified])
qed

lemma kg_close_inv:
  assumes "kg_inv g"
  shows "kg_inv (fst (kg_close reason now g))"
proof -
  have "kg_ok m True r \<Longrightarrow> kg_ok m True (fst (fold (kg_closeQueue reason now) es (r, n)))" for es m r n
  proof (induction es arbitrary: r n)
    case (Cons e es)
    obtain k a where e: "e = (k, a)" by (cases e)
    show ?case using Cons.IH [OF kg_closeQueue_ok [OF Cons.prems]] by (simp add: e)
  qed simp
  note close = this
  show ?thesis
  proof (cases "kg_closed g")
    case True
    then show ?thesis using assms by (simp add: kg_close_def)
  next
    case False
    obtain r n where rn: "fold (kg_closeQueue reason now) (reg_map (kg_reg g)) (kg_reg g, 0) = (r, n)"
      by (cases "fold (kg_closeQueue reason now) (reg_map (kg_reg g)) (kg_reg g, 0)")
    have "kg_ok (kg_max g) True (kg_reg g)" using assms kg_ok_closing unfolding kg_inv_def by blast
    from close [OF this, of "reg_map (kg_reg g)" 0] have "kg_ok (kg_max g) True r" by (simp add: rn)
    then show ?thesis using False by (simp add: kg_close_def rn kg_inv_def)
  qed
qed

lemma kg_queue_new: "kg_queue_ok m closed (awq_new n m)"
  by (simp add: kg_queue_ok_def awq_new_inv) (simp add: awq_new_def max_def)

lemma kg_run_inv:
  assumes "kg_inv g"
  shows "kg_inv (fst (kg_run key label waitMs signal now g))"
proof (cases "kg_closed g")
  case True
  then show ?thesis using assms by (simp add: kg_run_def Let_def)
next
  case False
  have ok: "kg_ok (kg_max g) (kg_closed g) (kg_reg g)" using assms by (simp add: kg_inv_def)
  define k where "k = normalizeGateKey key"
  have k: "normalizeGateKey (Some k) = k" by (simp add: k_def)
  let ?r = "kg_queue k g" and ?e = "RunEv label waitMs signal now"
  have new: "kg_queue_ok (kg_max g) (kg_closed g) (awq_new (kg_name g @ '':'' @ k) (kg_max g)) \<and> normalizeGateKey (Some k) = k"
    using k kg_queue_new by blast
  note f = reg_ensure_facts [OF ok new, folded kg_queue_def]
  obtain a q where a: "reg_get ?r k = Some a" "reg_objs ?r a = Some (k, q)" using f(3) by blast
  have q: "kg_queue_ok (kg_max g) (kg_closed g) q" using f(2) [OF a(2)] by blast
  then have inv: "awq_inv q" "\<not> q_closed q" using False by (auto simp: kg_queue_ok_def)
  have "kg_ok (kg_max g) (kg_closed g) (kg_apply ?e a ?r)"
    using awq_run_hook [OF inv] a f(1)
    unfolding kg_apply_eq [OF a(2)]
    by (intro reg_update_ok [OF f(1,2) _ a(2)] kg_queue_ok_step [OF q] conjI k f(4)) auto
  then show ?thesis
    using False a by (simp add: kg_run_def Let_def k_def [symmetric] kg_inv_def)
qed

lemma kg_micro_inv: "kg_inv g \<Longrightarrow> kg_inv (kg_micro g)"
  by (simp add: kg_inv_def kg_micro_def reg_micro_step_ok)

lemma kg_step_inv: "kg_inv g \<Longrightarrow> kg_inv (kg_step e g)"
proof (cases e)
  case (KCall a c)
  then show "kg_inv g \<Longrightarrow> kg_inv (kg_step e g)" by (simp add: kg_inv_def kg_call_ok)
qed (simp_all add: kg_run_inv kg_close_inv kg_micro_inv)

interpretation kgs: step_system kg_step kg_inv
  by unfold_locales (rule kg_step_inv)

lemma kg_new_inv: "kg_inv (kg_new name m)"
  by (simp add: kg_inv_def reg_ok_def kg_new_def) (simp add: reg_empty_def)

section \<open>Properties\<close>

text \<open>The tasks of a key that run at the moment, counted over every queue object the key ever had.\<close>

definition kg_inFlight :: "string \<Rightarrow> kgate \<Rightarrow> nat" where
  "kg_inFlight k g = sum_list (map (\<lambda>a. case reg_objs (kg_reg g) a of None \<Rightarrow> 0
     | Some (l, q) \<Rightarrow> if l = k then q_inFlight q else 0) [0..<reg_next (kg_reg g)])"

lemma kg_steps_const: "kg_max (fold kg_step es g) = kg_max g \<and> kg_name (fold kg_step es g) = kg_name g"
proof -
  have "kg_max (kg_step e g) = kg_max g \<and> kg_name (kg_step e g) = kg_name g" for e g
    by (cases e) (auto simp: kg_run_def Let_def kg_close_def kg_micro_def split: prod.splits)
  then show ?thesis by (induction es arbitrary: g) auto
qed

text \<open>
  The concurrency bound holds per key for the whole life of a keyed gate: although the queue of
  a key is deleted when idle and made again on demand, and callbacks keep references to deleted
  queues, the tasks of one key that run at one time, over all queue objects the key has had, never
  exceed the gate's bound.
\<close>

theorem keyed_gate_bounds_each_key:
  "kg_inFlight k (fold kg_step es (kg_new name m)) \<le> nat (max 1 m)"
proof -
  define g where "g = fold kg_step es (kg_new name m)"
  have "kg_inv g" unfolding g_def by (intro kgs.run_inv kg_new_inv)
  moreover have m: "kg_max g = m" by (simp add: g_def kg_steps_const) (simp add: kg_new_def)
  ultimately have ok: "kg_ok m (kg_closed g) (kg_reg g)" by (simp add: kg_inv_def)
  let ?f = "\<lambda>a. case reg_objs (kg_reg g) a of None \<Rightarrow> 0 | Some (l, q) \<Rightarrow> if l = k then q_inFlight q else 0"
  have pos: "\<exists>q. reg_objs (kg_reg g) a = Some (k, q) \<and> ?f a = sn_inFlight (awq_snapshot q)" if "0 < ?f a" for a
    using that by (auto simp: awq_snapshot_def split: option.splits if_splits)
  have one: "a = b" if "0 < ?f a" "0 < ?f b" for a b
    using pos [OF that(1)] pos [OF that(2)] that kg.single_worker [OF kg_okD(1) [OF ok]] by metis
  have bound: "?f a \<le> nat (max 1 m)" for a
  proof (cases "reg_objs (kg_reg g) a")
    case (Some p)
    obtain l q where p: "p = (l, q)" by (cases p)
    from kg_okD(3) [OF ok Some [unfolded p]] have "awq_inv q" "q_maxConcurrency q = nat (max 1 m)"
      by (auto simp: kg_queue_ok_def)
    then have "q_inFlight q \<le> nat (max 1 m)"
      using awq_core_parts(4) [of "{}" "{}" q] by (simp add: awq_inv_def)
    then show ?thesis by (simp add: Some p)
  qed simp
  show ?thesis
    unfolding kg_inFlight_def g_def [symmetric] by (rule sum_list_at_most_one) (use one bound in auto)
qed

text \<open>Running the microtasks that are queued.\<close>

definition kg_settle :: "kgate \<Rightarrow> kgate" where
  "kg_settle g = fold kg_step (replicate (length (reg_micro (kg_reg g))) KMicro) g"

lemma kg_settle_micro: "reg_micro (kg_reg (kg_settle g)) = []"
proof -
  have micro: "reg_micro (kg_reg (kg_micro g)) = tl (reg_micro (kg_reg g))" for g
    by (simp add: kg_micro_def reg_micro_step_tl)
  have "reg_micro (kg_reg (fold kg_step (replicate n KMicro) g)) = drop n (reg_micro (kg_reg g))" for n
    by (induction n arbitrary: g) (auto simp: micro drop_Suc)
  then show ?thesis by (simp add: kg_settle_def)
qed

text \<open>
  No queue leaks. From any reachable state of a keyed gate, once the queued microtasks have run,
  every key the gate still holds is busy (it has a running or a waiting task): an entry is dropped
  as soon as its queue is idle, and never while it is at work.
\<close>

theorem keyed_gate_drops_idle_keys:
  "let g = kg_settle (fold kg_step es (kg_new name m)) in
     list_all (\<lambda>(k, _). kg_isBusy (Some k) g) (kg_snapshot g)"
proof -
  define g where "g = kg_settle (fold kg_step es (kg_new name m))"
  have "kg_inv g" unfolding g_def kg_settle_def by (intro kgs.run_inv kg_new_inv)
  then have ok: "kg_ok (kg_max g) (kg_closed g) (kg_reg g)" by (simp add: kg_inv_def)
  have "kg_isBusy (Some k) g" if mem: "(k, a) \<in> set (reg_map (kg_reg g))" for k a
  proof -
    obtain b where b: "reg_get (kg_reg g) k = Some b"
      using weak_map_of_SomeI [OF mem] by (auto simp: reg_get_def)
    then obtain q where q: "reg_objs (kg_reg g) b = Some (k, q)"
      using kg_okD(1) [OF ok] unfolding reg_safe_def by blast
    have "\<not> awq_idle q"
      by (rule kg.quiescent_map_busy [OF kg_okD(2) [OF ok] _ b q]) (simp add: g_def kg_settle_micro)
    then show ?thesis
      using b q kg_okD(4) [OF ok q] by (simp add: kg_isBusy_def reg_obj_def awq_idle_def)
  qed
  then show ?thesis by (auto simp: g_def [symmetric] kg_snapshot_def list_all_iff)
qed

end
