(* ===== verification/ProtectedAssetGate.thy ===== *)
theory ProtectedAssetGate
  imports AssetLock KeyedAsyncGate
begin

text \<open>
  \<open>ProtectedAssetGate\<close> of \<open>shared/concurrency/classes/AsyncGate.js\<close>: a reader/writer lock per
  normalized key. The locks are the objects of a \<open>registry\<close>; a \<open>Cleanup\<close> notice of a lock queues
  the microtask that drops its key.
\<close>

section \<open>Model\<close>

record pgate =
  pg_name :: string
  pg_policy :: gate_policy
  pg_reg :: "lock registry"
  pg_closed :: bool

definition pg_new :: "string \<Rightarrow> string \<Rightarrow> pgate" where
  "pg_new name policy = \<lparr>pg_name = name, pg_policy = gate_policy_of policy, pg_reg = reg_empty, pg_closed = False\<rparr>"

definition is_cleanup :: "lock_notice \<Rightarrow> bool" where
  "is_cleanup n = (n = Cleanup)"

text \<open>An operation on the state object \<open>a\<close>, with the microtasks it queues.\<close>

definition pg_apply :: "pgate \<Rightarrow> bool \<Rightarrow> lock_event \<Rightarrow> nat \<Rightarrow> lock registry \<Rightarrow> lock registry" where
  "pg_apply g closed e a r = (case reg_objs r a of None \<Rightarrow> r
     | Some (k, s) \<Rightarrow> let s' = lock_step (pg_name g) (pg_policy g) k closed e s
         in reg_hooks is_cleanup k a (lock_news s s') (reg_write a s' r))"

datatype pg_promise = PRefused js_value | PTask nat nat

text \<open>\<open>runBlocking\<close> (with its priority) and \<open>runNonBlocking\<close> are \<open>#enqueue\<close> with a mode.\<close>

definition pg_enqueue ::
  "string option \<Rightarrow> bool \<Rightarrow> int \<Rightarrow> string \<Rightarrow> int option \<Rightarrow> abort_signal \<Rightarrow> int \<Rightarrow> pgate \<Rightarrow> pgate \<times> pg_promise" where
  "pg_enqueue key blocking priority label waitMs signal now g =
     (let normalized = normalizeGateKey key in
      if pg_closed g
      then (g, PRefused (gateClosedError (pg_name g) label ''gate closed'' normalized))
      else let r = reg_ensure normalized lock_new (pg_reg g); a = the (reg_get r normalized);
               i = l_next (the (reg_obj r a))
           in (g\<lparr>pg_reg := pg_apply g False (LEnqueue blocking priority label waitMs signal now) a r\<rparr>, PTask a i))"

definition runBlocking where
  "runBlocking key priority = pg_enqueue key True priority"

definition runNonBlocking where
  "runNonBlocking key = pg_enqueue key False 0"

fun pg_closeKey :: "pgate \<Rightarrow> string \<Rightarrow> int \<Rightarrow> string \<times> nat \<Rightarrow> lock registry \<times> nat \<Rightarrow> lock registry \<times> nat" where
  "pg_closeKey g reason now (k, a) (r, n) =
     (pg_apply g True (LClose reason now) a r,
      n + (case reg_obj r a of None \<Rightarrow> 0 | Some s \<Rightarrow> snd (lock_close (pg_name g) k reason now s)))"

definition pg_close :: "string \<Rightarrow> int \<Rightarrow> pgate \<Rightarrow> pgate \<times> nat" where
  "pg_close reason now g =
     (if pg_closed g then (g, 0)
      else let (r, n) = fold (pg_closeKey g reason now) (reg_map (pg_reg g)) (pg_reg g, 0)
           in (g\<lparr>pg_reg := r, pg_closed := True\<rparr>, n))"

definition pg_micro :: "pgate \<Rightarrow> pgate" where
  "pg_micro g = g\<lparr>pg_reg := reg_micro_step lock_idle (pg_reg g)\<rparr>"

record lock_snapshot =
  ls_activeReaders :: nat
  ls_activeWriter :: bool
  ls_pendingReaders :: nat
  ls_pendingWriters :: nat

definition lock_snapshot :: "lock \<Rightarrow> lock_snapshot" where
  "lock_snapshot s = \<lparr>ls_activeReaders = l_activeReaders s, ls_activeWriter = l_activeWriter s,
     ls_pendingReaders = lock_live (\<lambda>t. \<not> wt_blocking t) s, ls_pendingWriters = lock_live wt_blocking s\<rparr>"

definition pg_snapshot :: "pgate \<Rightarrow> (string \<times> lock_snapshot option) list" where
  "pg_snapshot g = map (\<lambda>(k, a). (k, map_option lock_snapshot (reg_obj (pg_reg g) a))) (reg_map (pg_reg g))"

datatype pg_event =
    PBlocking "string option" int string "int option" abort_signal int
  | PNonBlocking "string option" string "int option" abort_signal int
  | PCall nat lock_event
  | PClose string int
  | PMicro

fun pg_step :: "pg_event \<Rightarrow> pgate \<Rightarrow> pgate" where
  "pg_step (PBlocking key priority label waitMs signal now) g = fst (runBlocking key priority label waitMs signal now g)"
| "pg_step (PNonBlocking key label waitMs signal now) g = fst (runNonBlocking key label waitMs signal now g)"
| "pg_step (PCall a e) g =
     (if is_lcallback e then g\<lparr>pg_reg := pg_apply g (pg_closed g) e a (pg_reg g)\<rparr> else g)"
| "pg_step (PClose reason now) g = fst (pg_close reason now g)"
| "pg_step PMicro g = pg_micro g"

section \<open>Invariant\<close>

text \<open>The work of a lock: the waiters that hold it.\<close>

definition lock_load :: "lock \<Rightarrow> nat" where
  "lock_load s = l_activeReaders s + (if l_activeWriter s then 1 else 0)"

interpretation pgl: idle_registry lock_idle lock_load
  by unfold_locales (simp add: lock_idle_def lock_load_def)

abbreviation pg_ok :: "bool \<Rightarrow> lock registry \<Rightarrow> bool" where
  "pg_ok closed \<equiv> reg_ok lock_idle (\<lambda>k s. lock_inv closed s \<and> normalizeGateKey (Some k) = k)"

definition pg_inv :: "pgate \<Rightarrow> bool" where
  "pg_inv g \<longleftrightarrow> pg_ok (pg_closed g) (pg_reg g)"

lemma pg_apply_eq: "reg_objs r a = Some (k, s) \<Longrightarrow>
    pg_apply g closed e a r = reg_hooks is_cleanup k a (lock_news s (lock_step (pg_name g) (pg_policy g) k closed e s))
      (reg_write a (lock_step (pg_name g) (pg_policy g) k closed e s) r)"
  by (simp add: pg_apply_def Let_def)

lemma pg_okD:
  assumes "pg_ok closed r"
  shows "reg_safe lock_idle r" and "reg_no_leak lock_idle r"
    and "reg_objs r a = Some (k, q) \<Longrightarrow> lock_inv closed q"
    and "reg_objs r a = Some (k, q) \<Longrightarrow> normalizeGateKey (Some k) = k"
  using reg_okD [OF assms] by blast+

lemma pg_call_ok:
  assumes ok: "pg_ok closed r" and e: "is_lcallback e"
  shows "pg_ok closed (pg_apply g closed e a r)"
proof (cases "reg_objs r a")
  case None
  then show ?thesis using ok by (simp add: pg_apply_def)
next
  case (Some p)
  obtain k s where p: "p = (k, s)" by (cases p)
  note a = Some [unfolded p]
  have s: "lock_inv closed s" by (rule pg_okD(3) [OF ok a])
  let ?s = "lock_step (pg_name g) (pg_policy g) k closed e s"
  have s': "lock_inv closed ?s"
    using lock_step_inv [OF s, of e] e by (cases e) simp_all
  have live: "reg_get r k = Some a \<or> lock_idle ?s"
  proof (rule disjCI)
    assume "\<not> lock_idle ?s"
    then have "\<not> lock_idle s" using lock_idle_callback [OF s _ e] by metis
    then show "reg_get r k = Some a" using pg_okD(1) [OF ok] a unfolding reg_safe_def by blast
  qed
  have hook: "(\<exists>n \<in> set (lock_news s ?s). is_cleanup n) \<or> (k, a) \<in> set (reg_micro r) \<or> reg_get r k \<noteq> Some a"
    if idle: "lock_idle ?s"
    using lock_callback_idle [OF s e idle]
  proof (elim disjE)
    assume "lock_cleans s ?s"
    then show ?thesis using lock_cleans_news by (force simp: is_cleanup_def)
  next
    assume "?s = s"
    then show ?thesis using idle pg_okD(2) [OF ok] a by (auto simp: reg_no_leak_def)
  qed
  show ?thesis
    unfolding pg_apply_eq [OF a] using pg_okD(2) [OF ok] pg_okD(3,4) [OF ok] a s'
    by (intro reg_update_ok [OF pg_okD(1) [OF ok] _ _ a _ live hook]) (auto simp: reg_no_leak_def)
qed

lemma pg_enqueue_inv:
  assumes "pg_inv g"
  shows "pg_inv (fst (pg_enqueue key blocking priority label waitMs signal now g))"
proof (cases "pg_closed g")
  case True
  then show ?thesis using assms by (simp add: pg_enqueue_def Let_def)
next
  case False
  then have ok: "pg_ok False (pg_reg g)" using assms by (simp add: pg_inv_def)
  define k where "k = normalizeGateKey key"
  have k: "normalizeGateKey (Some k) = k" by (simp add: k_def)
  let ?r = "reg_ensure k lock_new (pg_reg g)" and ?e = "LEnqueue blocking priority label waitMs signal now"
  have new: "lock_inv False lock_new \<and> normalizeGateKey (Some k) = k" using k lock_new_inv by blast
  note f = reg_ensure_facts [OF ok new]
  obtain a s where a: "reg_get ?r k = Some a" "reg_objs ?r a = Some (k, s)" using f(3) by blast
  have s: "lock_inv False s" using f(2) [OF a(2)] by blast
  let ?s = "lock_step (pg_name g) (pg_policy g) k False ?e s"
  have s': "lock_inv False ?s" using lock_enqueue_inv [OF s] by simp
  have hook: "(\<exists>n \<in> set (lock_news s ?s). is_cleanup n) \<or> (k, a) \<in> set (reg_micro ?r) \<or> reg_get ?r k \<noteq> Some a"
    if "lock_idle ?s"
  proof -
    have "lock_cleans s ?s" using lock_enqueue_idle [OF s] that by simp
    then show ?thesis using lock_cleans_news by (force simp: is_cleanup_def)
  qed
  have leak: "(k', b) \<in> set (reg_micro ?r)"
    if "reg_get ?r k' = Some b" "reg_objs ?r b = Some (k', x)" "lock_idle x" "b \<noteq> a" for k' b x
    using f(4) [OF that(1-3)] that(1,4) a(1) by (cases "k' = k") auto
  have "pg_ok False (pg_apply g False ?e a ?r)"
    unfolding pg_apply_eq [OF a(2)]
    by (rule reg_update_ok [OF f(1,2) _ a(2) _ _ hook]) (use leak s' k a(1) in auto)
  then show ?thesis
    using False a by (simp add: pg_enqueue_def Let_def k_def [symmetric] pg_inv_def)
qed

lemma lock_inv_open: "lock_inv closed s \<Longrightarrow> lock_inv False s"
  by (auto simp: lock_inv_def lock_busy_def)

lemma lock_idle_close: "lock_idle s \<Longrightarrow> lock_close name key reason now s = (s, 0)"
  by (simp add: lock_close_def lock_closable_def lock_idle_def)

lemma lock_close_active:
  "l_activeReaders (fst (lock_close name key reason now s)) = l_activeReaders s \<and>
   l_activeWriter (fst (lock_close name key reason now s)) = l_activeWriter s"
proof -
  have "l_activeReaders (fst (fold (lock_closeStep name key reason now) ids (s, n))) = l_activeReaders s \<and>
    l_activeWriter (fst (fold (lock_closeStep name key reason now) ids (s, n))) = l_activeWriter s" for ids n
  proof (induction ids arbitrary: s n)
    case (Cons i ids)
    have "l_activeReaders (lock_closeWaiter name key reason now i s) = l_activeReaders s \<and>
        l_activeWriter (lock_closeWaiter name key reason now i s) = l_activeWriter s"
      by (simp add: lock_closeWaiter_def cancelWaiter_eq lock_drain_def split: option.splits)
    then show ?case using Cons.IH by simp
  qed simp
  then show ?thesis by (simp add: lock_close_def)
qed

lemma lock_close_idle:
  assumes "lock_inv False s" "lock_idle (fst (lock_close name key reason now s))"
  shows "lock_idle s"
  using assms lock_close_active [of name key reason now s] by (auto simp: lock_idle_def lock_inv_def lock_busy_def)

lemma pg_closeKey_ok:
  assumes ok: "pg_ok False r"
  shows "pg_ok False (pg_apply g True (LClose reason now) a r)"
proof (cases "reg_objs r a")
  case None
  then show ?thesis using ok by (simp add: pg_apply_def)
next
  case (Some p)
  obtain k s where p: "p = (k, s)" by (cases p)
  note a = Some [unfolded p]
  have s: "lock_inv False s" by (rule pg_okD(3) [OF ok a])
  let ?s = "lock_step (pg_name g) (pg_policy g) k True (LClose reason now) s"
  have s': "lock_inv False ?s" using lock_inv_open [OF lock_close_inv [OF s]] by simp
  have live: "reg_get r k = Some a \<or> lock_idle ?s"
    using pg_okD(1) [OF ok] a lock_idle_close [of s] unfolding reg_safe_def by fastforce
  have hook: "(\<exists>n \<in> set (lock_news s ?s). is_cleanup n) \<or> (k, a) \<in> set (reg_micro r) \<or> reg_get r k \<noteq> Some a"
    if "lock_idle ?s"
  proof -
    have "lock_idle s" using lock_close_idle [OF s] that by simp
    then show ?thesis using pg_okD(2) [OF ok] a by (auto simp: reg_no_leak_def)
  qed
  show ?thesis
    unfolding pg_apply_eq [OF a] using pg_okD(2) [OF ok] pg_okD(3,4) [OF ok] a s'
    by (intro reg_update_ok [OF pg_okD(1) [OF ok] _ _ a _ live hook]) (auto simp: reg_no_leak_def)
qed

lemma pg_apply_frame [simp]:
  "reg_get (pg_apply g closed e a r) = reg_get r" "reg_map (pg_apply g closed e a r) = reg_map r"
  "reg_next (pg_apply g closed e a r) = reg_next r"
  by (auto simp: pg_apply_def Let_def fun_eq_iff split: option.splits)

lemma pg_apply_objs:
  "reg_objs (pg_apply g closed e a r) b = (if b = a
     then map_option (\<lambda>(k, s). (k, lock_step (pg_name g) (pg_policy g) k closed e s)) (reg_objs r a) else reg_objs r b)"
  by (auto simp: pg_apply_def Let_def reg_objs_write split: option.splits)

text \<open>After the loop of \<open>close\<close>, every lock it visited, and every one that was closed, is closed.\<close>

lemma pg_close_fold:
  assumes "pg_ok False r"
  shows "let r' = fst (fold (pg_closeKey g reason now) es (r, n)) in
    pg_ok False r' \<and> reg_get r' = reg_get r \<and>
    (\<forall>b k s. reg_objs r' b = Some (k, s) \<longrightarrow>
       b \<in> snd ` set es \<or> (\<forall>s0. reg_objs r b = Some (k, s0) \<longrightarrow> lock_inv True s0) \<longrightarrow> lock_inv True s) \<and>
    (\<forall>b. map_option fst (reg_objs r' b) = map_option fst (reg_objs r b))"
  using assms
proof (induction es arbitrary: r n)
  case (Cons e es)
  obtain k a where e: "e = (k, a)" by (cases e)
  let ?r = "pg_apply g True (LClose reason now) a r"
  obtain m where m: "pg_closeKey g reason now e (r, n) = (?r, m)" by (simp add: e)
  have ok: "pg_ok False ?r" by (rule pg_closeKey_ok [OF Cons.prems])
  have keep: "lock_inv True s" if "reg_objs ?r b = Some (l, s)"
    "b = a \<or> (\<forall>s0. reg_objs r b = Some (l, s0) \<longrightarrow> lock_inv True s0)" for b l s
    using that pg_okD(3) [OF Cons.prems] lock_close_inv
    by (fastforce simp: pg_apply_objs split: if_splits option.splits)
  have fst_eq: "map_option fst (reg_objs ?r b) = map_option fst (reg_objs r b)" for b
    by (auto simp: pg_apply_objs option.map_comp comp_def split_def)
  let ?f = "fst (fold (pg_closeKey g reason now) es (?r, m))"
  note IH = Cons.IH [OF ok, of m, unfolded Let_def]
  have 3: "lock_inv True s" if obj: "reg_objs ?f b = Some (l, s)" and
    b: "b \<in> snd ` set (e # es) \<or> (\<forall>s0. reg_objs r b = Some (l, s0) \<longrightarrow> lock_inv True s0)" for b l s
  proof (cases "b \<in> snd ` set es")
    case True
    then show ?thesis using IH obj by blast
  next
    case False
    then have "b = a \<or> (\<forall>s0. reg_objs r b = Some (l, s0) \<longrightarrow> lock_inv True s0)" using b e by auto
    then have "\<forall>s0. reg_objs ?r b = Some (l, s0) \<longrightarrow> lock_inv True s0" using keep by blast
    then show ?thesis using IH obj by blast
  qed
  show ?case
    unfolding Let_def fold_simps m using IH 3 fst_eq by (simp add: pg_apply_frame)
qed simp

lemma pg_close_inv:
  assumes "pg_inv g"
  shows "pg_inv (fst (pg_close reason now g))"
proof (cases "pg_closed g")
  case True
  then show ?thesis using assms by (simp add: pg_close_def)
next
  case False
  then have ok: "pg_ok False (pg_reg g)" using assms by (simp add: pg_inv_def)
  obtain r n where rn: "fold (pg_closeKey g reason now) (reg_map (pg_reg g)) (pg_reg g, 0) = (r, n)"
    by (cases "fold (pg_closeKey g reason now) (reg_map (pg_reg g)) (pg_reg g, 0)")
  have f: "pg_ok False r" "reg_get r = reg_get (pg_reg g)"
    "\<And>b k s. reg_objs r b = Some (k, s) \<Longrightarrow> b \<in> snd ` set (reg_map (pg_reg g)) \<Longrightarrow> lock_inv True s"
    using pg_close_fold [OF ok, where g = g and reason = reason and now = now and es = "reg_map (pg_reg g)" and n = 0]
    unfolding rn Let_def fst_conv by blast+
  have closed: "lock_inv True s" if obj: "reg_objs r b = Some (k, s)" for b k s
  proof (cases "reg_get r k = Some b")
    case True
    then have "(k, b) \<in> set (reg_map (pg_reg g))" by (simp add: f(2) reg_get_def map_of_SomeD)
    then have "b \<in> snd ` set (reg_map (pg_reg g))" by (force intro: rev_image_eqI)
    then show ?thesis by (rule f(3) [OF obj])
  next
    case False
    then have "lock_idle s" using obj pg_okD(1) [OF f(1)] unfolding reg_safe_def by blast
    then show ?thesis using lock_inv_closing [OF pg_okD(3) [OF f(1) obj]] by (simp add: lock_idle_def)
  qed
  have "pg_ok True r"
    unfolding reg_ok_def using pg_okD [OF f(1)] closed by blast
  then show ?thesis using False by (simp add: pg_close_def rn pg_inv_def)
qed

lemma pg_micro_inv: "pg_inv g \<Longrightarrow> pg_inv (pg_micro g)"
  by (simp add: pg_inv_def pg_micro_def reg_micro_step_ok)

lemma pg_step_inv: "pg_inv g \<Longrightarrow> pg_inv (pg_step e g)"
proof (cases e)
  case (PCall a c)
  then show "pg_inv g \<Longrightarrow> pg_inv (pg_step e g)" by (simp add: pg_inv_def pg_call_ok)
qed (simp_all add: runBlocking_def runNonBlocking_def pg_enqueue_inv pg_close_inv pg_micro_inv)

interpretation pgs: step_system pg_step pg_inv
  by unfold_locales (rule pg_step_inv)

lemma pg_new_inv: "pg_inv (pg_new name policy)"
  by (simp add: pg_inv_def reg_ok_def pg_new_def) (simp add: reg_empty_def)

section \<open>Properties\<close>

text \<open>All locks the gate ever made for a key, and who holds them: the lock, the waiter, whether it writes.\<close>

definition pg_locks :: "string \<Rightarrow> pgate \<Rightarrow> (nat \<times> lock) list" where
  "pg_locks k g = concat (map (\<lambda>a. case reg_objs (pg_reg g) a of None \<Rightarrow> []
     | Some (l, s) \<Rightarrow> if l = k then [(a, s)] else []) [0..<reg_next (pg_reg g)])"

definition pg_holders :: "string \<Rightarrow> pgate \<Rightarrow> (nat \<times> nat \<times> bool) list" where
  "pg_holders k g = concat (map (\<lambda>(a, s). map (\<lambda>i. (a, i, wt_is wt_blocking s i)) (l_running s)) (pg_locks k g))"

lemma pg_locks_mem: "(a, s) \<in> set (pg_locks k g) \<Longrightarrow> reg_objs (pg_reg g) a = Some (k, s)"
  by (auto simp: pg_locks_def split: option.splits if_splits)

lemma pg_locks_distinct: "distinct (map fst (pg_locks k g))"
proof -
  have "distinct (map fst (concat (map (\<lambda>a. case reg_objs r a of None \<Rightarrow> []
      | Some (l, s) \<Rightarrow> if l = k then [(a, s)] else []) xs)))" if "distinct xs" for xs and r :: "lock registry"
    using that by (induction xs) (auto split: option.splits)
  then show ?thesis by (simp add: pg_locks_def)
qed

text \<open>
  The holders are those of one lock: the others have an empty list of running waiters.
\<close>

lemma pg_holders_one_lock:
  assumes ok: "pg_ok closed (pg_reg g)"
  shows "pg_holders k g = [] \<or> (\<exists>a s. reg_objs (pg_reg g) a = Some (k, s) \<and>
    pg_holders k g = map (\<lambda>i. (a, i, wt_is wt_blocking s i)) (l_running s))"
proof -
  let ?h = "\<lambda>(a, s). map (\<lambda>i. (a, i, wt_is wt_blocking s i)) (l_running s)"
  have load: "0 < lock_load s" if "reg_objs (pg_reg g) a = Some (k, s)" "l_running s \<noteq> []" for a s
    using lock_core_parts(6) [of "{}" "{}" s] pg_okD(3) [OF ok that(1)] that(2)
    by (auto simp: lock_inv_def lock_held_def lock_load_def split: if_splits)
  have one: "a = b" if "(a, s) \<in> set (pg_locks k g)" "(b, t) \<in> set (pg_locks k g)" "?h (a, s) \<noteq> []" "?h (b, t) \<noteq> []" for a b s t
    using pg_locks_mem [OF that(1)] pg_locks_mem [OF that(2)] that(3,4) load
      pgl.single_worker [OF pg_okD(1) [OF ok]] by simp
  have gen: "concat (map ?h xs) = [] \<or> (\<exists>e \<in> set xs. concat (map ?h xs) = ?h e)"
    if "distinct (map fst xs)" "\<And>a s b t. (a, s) \<in> set xs \<Longrightarrow> (b, t) \<in> set xs \<Longrightarrow> ?h (a, s) \<noteq> [] \<Longrightarrow> ?h (b, t) \<noteq> [] \<Longrightarrow> a = b" for xs
    using that
  proof (induction xs)
    case (Cons e xs)
    have IH: "concat (map ?h xs) = [] \<or> (\<exists>e \<in> set xs. concat (map ?h xs) = ?h e)"
      using Cons.prems by (intro Cons.IH) auto
    show ?case
    proof (cases "?h e = []")
      case True
      then show ?thesis using IH by auto
    next
      case False
      have "?h x = []" if x: "x \<in> set xs" for x
      proof (rule ccontr)
        assume "?h x \<noteq> []"
        then have "fst e = fst x" using Cons.prems(2) [of "fst e" "snd e" "fst x" "snd x"] False x by simp
        then show False using Cons.prems(1) x by auto
      qed
      then have "concat (map ?h xs) = []" by auto
      then show ?thesis by (auto simp: False)
    qed
  qed simp
  from gen [OF pg_locks_distinct one]
  have "pg_holders k g = [] \<or> (\<exists>e \<in> set (pg_locks k g). pg_holders k g = ?h e)" unfolding pg_holders_def .
  then show ?thesis
  proof (elim disjE bexE)
    fix e assume "e \<in> set (pg_locks k g)" "pg_holders k g = ?h e"
    then show ?thesis using pg_locks_mem [of "fst e" "snd e" k g] by (simp add: split_def) blast
  qed simp
qed

text \<open>
  C37: Mutual exclusion per key. In every reachable state of a protected-asset gate, whatever its
  policy and although the lock of a key is dropped when idle and made again, the operations that
  run under one key are either at most one, or all of them readers.
\<close>

theorem protected_gate_excludes:
  "let h = pg_holders k (fold pg_step es (pg_new name policy)) in
     length h \<le> 1 \<or> list_all (\<lambda>(_, _, writes). \<not> writes) h"
proof -
  let ?g = "fold pg_step es (pg_new name policy)"
  have "pg_inv ?g" by (intro pgs.run_inv pg_new_inv)
  then have ok: "pg_ok (pg_closed ?g) (pg_reg ?g)" by (simp add: pg_inv_def)
  show ?thesis
  proof (cases "pg_holders k ?g = []")
    case False
    with pg_holders_one_lock [OF ok, of k] obtain a s where s: "reg_objs (pg_reg ?g) a = Some (k, s)"
      and h: "pg_holders k ?g = map (\<lambda>i. (a, i, wt_is wt_blocking s i)) (l_running s)" by auto
    have "lock_held s" using pg_okD(3) [OF ok s] lock_core_parts(6) by (auto simp: lock_inv_def)
    then show ?thesis
      unfolding Let_def h lock_held_def by (auto simp: list_all_iff split: if_splits)
  qed simp
qed

text \<open>
  The lock's counters tell the truth and no admissible waiter is kept waiting. In every
  reachable state, for every lock of every key, the reader count and the writer flag agree with the
  operations that hold the lock, and a waiter waits only in an open gate, behind an active writer
  or behind a queued writer that waits for active readers to leave.
\<close>

theorem protected_gate_works:
  "let g = fold pg_step es (pg_new name policy) in
   list_all (\<lambda>(_, s).
     l_activeReaders s = length (filter (\<lambda>i. \<not> wt_is wt_blocking s i) (l_running s)) \<and>
     (l_activeWriter s \<longleftrightarrow> list_ex (wt_is wt_blocking s) (l_running s)) \<and>
     (l_queue s = [] \<or> \<not> pg_closed g \<and>
       (l_activeWriter s \<or> l_activeReaders s > 0 \<and> wt_is wt_blocking s (hd (l_queue s)))))
     (pg_locks k g)"
proof -
  let ?g = "fold pg_step es (pg_new name policy)"
  have "pg_inv ?g" by (intro pgs.run_inv pg_new_inv)
  then have ok: "pg_ok (pg_closed ?g) (pg_reg ?g)" by (simp add: pg_inv_def)
  have "l_activeReaders s = length (filter (\<lambda>i. \<not> wt_is wt_blocking s i) (l_running s)) \<and>
     (l_activeWriter s \<longleftrightarrow> list_ex (wt_is wt_blocking s) (l_running s)) \<and>
     (l_queue s = [] \<or> \<not> pg_closed ?g \<and>
       (l_activeWriter s \<or> l_activeReaders s > 0 \<and> wt_is wt_blocking s (hd (l_queue s))))"
    if "(a, s) \<in> set (pg_locks k ?g)" for a s
  proof -
    have inv: "lock_inv (pg_closed ?g) s" by (rule pg_okD(3) [OF ok pg_locks_mem [OF that]])
    then have h: "lock_held s" using lock_core_parts(6) by (auto simp: lock_inv_def)
    have "l_activeReaders s = length (filter (\<lambda>i. \<not> wt_is wt_blocking s i) (l_running s)) \<and>
       (l_activeWriter s \<longleftrightarrow> list_ex (wt_is wt_blocking s) (l_running s))"
    proof (cases "l_activeWriter s")
      case True
      then show ?thesis using h by (auto simp: lock_held_def)
    next
      case False
      then have "\<forall>i \<in> set (l_running s). \<not> wt_is wt_blocking s i" "l_activeReaders s = length (l_running s)"
        using h by (auto simp: lock_held_def)
      then show ?thesis using False by (auto simp: list_ex_iff filter_id_conv)
    qed
    then show ?thesis using inv by (auto simp: lock_inv_def lock_busy_def)
  qed
  then show ?thesis by (auto simp: Let_def list_all_iff)
qed

text \<open>
  Every promise of a protected-asset gate settles at most once, and exactly when its waiter has
  been cancelled or has ended: for every lock, the settled waiters are those that neither wait
  in the queue nor hold the lock; no waiter is both started and cancelled; and an armed timer or
  abort listener belongs to a queued waiter.
\<close>

theorem protected_gate_settles:
  "list_all (\<lambda>(_, s). distinct (lsettled_ids (l_log s)) \<and> distinct (lstarted_ids (l_log s)) \<and>
      set (lsettled_ids (l_log s)) = {i \<in> dom (l_tasks s). i \<notin> set (l_queue s) \<and> i \<notin> set (l_running s)} \<and>
      {i. wt_is (\<lambda>t. wt_started t \<and> wt_cancelled t) s i} = {} \<and>
      {i. wt_is (\<lambda>t. wt_timer t \<or> wt_listening t) s i} \<subseteq> set (l_queue s))
     (pg_locks k (fold pg_step es (pg_new name policy)))"
proof -
  let ?g = "fold pg_step es (pg_new name policy)"
  have "pg_inv ?g" by (intro pgs.run_inv pg_new_inv)
  then have ok: "pg_ok (pg_closed ?g) (pg_reg ?g)" by (simp add: pg_inv_def)
  have "distinct (lsettled_ids (l_log s)) \<and> distinct (lstarted_ids (l_log s)) \<and>
      set (lsettled_ids (l_log s)) = {i \<in> dom (l_tasks s). i \<notin> set (l_queue s) \<and> i \<notin> set (l_running s)} \<and>
      {i. wt_is (\<lambda>t. wt_started t \<and> wt_cancelled t) s i} = {} \<and>
      {i. wt_is (\<lambda>t. wt_timer t \<or> wt_listening t) s i} \<subseteq> set (l_queue s)"
    if "(a, s) \<in> set (pg_locks k ?g)" for a s
  proof -
    have core: "lock_core {} {} s" using pg_okD(3) [OF ok pg_locks_mem [OF that]] by (simp add: lock_inv_def)
    note p = lock_core_parts [OF core]
    have waits: "l_waits s = set (l_queue s)" using p(2,3) by auto
    have dom: "dom (l_tasks s) = l_waits s \<union> l_starts s \<union> l_cancels s"
      by (auto simp: wt_is_def split: option.splits)
    have 1: "set (lsettled_ids (l_log s)) = {i \<in> dom (l_tasks s). i \<notin> l_waits s \<and> i \<notin> set (l_running s)}"
      unfolding p(11) dom using p(5,8) l_phases_disjoint by blast
    have "{i. wt_is (\<lambda>t. wt_started t \<and> wt_cancelled t) s i} \<subseteq> l_starts s \<inter> l_cancels s"
      by (auto simp: wt_is_def split: option.splits)
    then show ?thesis using p(8-10,13) 1 unfolding waits by blast
  qed
  then show ?thesis by (auto simp: list_all_iff)
qed

text \<open>Running the queued microtasks.\<close>

definition pg_settle :: "pgate \<Rightarrow> pgate" where
  "pg_settle g = fold pg_step (replicate (length (reg_micro (pg_reg g))) PMicro) g"

lemma pg_settle_micro: "reg_micro (pg_reg (pg_settle g)) = []"
proof -
  have micro: "reg_micro (pg_reg (pg_micro g)) = tl (reg_micro (pg_reg g))" for g
    by (simp add: pg_micro_def reg_micro_step_tl)
  have "reg_micro (pg_reg (fold pg_step (replicate n PMicro) g)) = drop n (reg_micro (pg_reg g))" for n
    by (induction n arbitrary: g) (auto simp: micro drop_Suc)
  then show ?thesis by (simp add: pg_settle_def)
qed

text \<open>
  No lock leaks: once the queued microtasks have run, every key that a protected-asset gate
  still holds has an active reader, an active writer or a waiter.
\<close>

theorem protected_gate_drops_idle_keys:
  "list_all (\<lambda>(_, s). case s of None \<Rightarrow> False | Some s \<Rightarrow>
       ls_activeWriter s \<or> 0 < ls_activeReaders s + ls_pendingReaders s + ls_pendingWriters s)
     (pg_snapshot (pg_settle (fold pg_step es (pg_new name policy))))"
proof -
  define g where "g = pg_settle (fold pg_step es (pg_new name policy))"
  have "pg_inv g" unfolding g_def pg_settle_def by (intro pgs.run_inv pg_new_inv)
  then have ok: "pg_ok (pg_closed g) (pg_reg g)" by (simp add: pg_inv_def)
  have "\<exists>s. reg_obj (pg_reg g) b = Some s \<and> (l_activeWriter s \<or>
      0 < l_activeReaders s + lock_live (\<lambda>t. \<not> wt_blocking t) s + lock_live wt_blocking s)"
    if get: "reg_get (pg_reg g) k = Some b" for k b
  proof -
    obtain s where s: "reg_objs (pg_reg g) b = Some (k, s)"
      using pg_okD(1) [OF ok] get unfolding reg_safe_def by blast
    have busy: "\<not> lock_idle s"
      by (rule pgl.quiescent_map_busy [OF pg_okD(2) [OF ok] _ get s]) (simp add: g_def pg_settle_micro)
    have "lock_core {} {} s" using pg_okD(3) [OF ok s] by (simp add: lock_inv_def)
    then have "set (l_queue s) \<subseteq> l_waits s" by (rule lock_core_parts(2))
    then have "0 < lock_live (\<lambda>t. \<not> wt_blocking t) s + lock_live wt_blocking s" if "l_queue s \<noteq> []"
      using that by (cases "l_queue s") (auto simp: lock_live_def wt_is_def split: option.splits)
    then show ?thesis using s busy by (auto simp: reg_obj_def lock_idle_def)
  qed
  then show ?thesis
    unfolding g_def [symmetric] pg_snapshot_def list_all_iff
    using reg_safe_entry [OF pg_okD(1) [OF ok]] by (fastforce simp: lock_snapshot_def)
qed

text \<open>The waiters each lock ever started, lock by lock.\<close>

definition pg_started :: "pgate \<Rightarrow> nat list list" where
  "pg_started g = map (\<lambda>a. case reg_objs (pg_reg g) a of None \<Rightarrow> [] | Some (_, s) \<Rightarrow> lstarted_ids (l_log s))
     [0..<reg_next (pg_reg g)]"

lemma lock_closed_starts:
  "lstarted_ids (l_log (lock_step name policy key True e s)) = lstarted_ids (l_log s)"
proof -
  have cancel: "lstarted_ids (l_log (cancelWaiter True now i err w s)) = lstarted_ids (l_log s)" for now i err w s
    by (simp add: cancelWaiter_eq lock_drain_def split: option.splits)
  have close: "lstarted_ids (l_log (fst (fold (lock_closeStep name key reason now) ids (s, n)))) = lstarted_ids (l_log s)" for reason now ids n
  proof (induction ids arbitrary: s n)
    case (Cons i ids)
    have "lstarted_ids (l_log (lock_closeWaiter name key reason now i s)) = lstarted_ids (l_log s)"
      by (simp add: lock_closeWaiter_def cancel split: option.splits)
    then show ?case using Cons.IH by simp
  qed simp
  show ?thesis
    by (cases e) (simp_all add: lock_timer_def lock_abort_def lock_finish_eq lock_drain_def lock_released_def
        cancel close lock_close_def split: option.splits)
qed

lemma pg_started_apply:
  "map (\<lambda>a. case reg_objs (pg_apply g True e b r) a of None \<Rightarrow> [] | Some (_, s) \<Rightarrow> lstarted_ids (l_log s)) xs
   = map (\<lambda>a. case reg_objs r a of None \<Rightarrow> [] | Some (_, s) \<Rightarrow> lstarted_ids (l_log s)) xs"
  by (auto simp: pg_apply_objs lock_closed_starts split: option.splits)

lemma pg_started_close: "pg_started (fst (pg_close reason now g)) = pg_started g"
proof -
  let ?f = "\<lambda>r. map (\<lambda>a. case reg_objs r a of None \<Rightarrow> [] | Some (_, s) \<Rightarrow> lstarted_ids (l_log s)) [0..<reg_next r]"
  have "?f (fst (fold (pg_closeKey g reason now) ks (r, n))) = ?f r" for ks r n
  proof (induction ks arbitrary: r n)
    case (Cons p ks)
    obtain k a where p: "p = (k, a)" by (cases p)
    show ?case by (simp add: p Cons.IH pg_started_apply)
  qed simp
  then show ?thesis by (simp add: pg_started_def pg_close_def split_def Let_def)
qed

lemma pg_started_step:
  assumes "pg_closed g"
  shows "pg_started (pg_step e g) = pg_started g \<and> pg_closed (pg_step e g)"
proof (cases e)
  case (PCall a c)
  then show ?thesis using assms by (simp add: pg_started_def pg_started_apply)
next
  case PMicro
  have "reg_next (reg_micro_step idle r) = reg_next r" for idle and r :: "lock registry"
    by (auto simp: reg_micro_step_def Let_def split: list.splits)
  then show ?thesis using assms PMicro by (simp add: pg_started_def pg_micro_def)
qed (use assms in \<open>simp_all add: runBlocking_def runNonBlocking_def pg_enqueue_def Let_def pg_close_def\<close>)

text \<open>
  Closing a protected-asset gate is terminal: from any state, after \<open>close\<close> no operation is ever
  started again, whatever callbacks, calls and microtasks follow, and every later enqueue is
  refused with the closed error under its normalized key, leaving the gate as it is.
\<close>

theorem protected_gate_close_is_terminal:
  "let closed = fst (pg_close reason now g); later = fold pg_step es closed in
     pg_started later = pg_started g \<and>
     pg_enqueue key blocking priority label waitMs signal t later
       = (later, PRefused (gateClosedError (pg_name later) label ''gate closed'' (normalizeGateKey key)))"
proof -
  have closed: "pg_closed (fst (pg_close reason now g))" by (simp add: pg_close_def split_def Let_def)
  have "pg_started (fold pg_step es x) = pg_started x \<and> pg_closed (fold pg_step es x)" if "pg_closed x" for x
    using that
  proof (induction es arbitrary: x)
    case (Cons e es)
    then show ?case using pg_started_step [OF Cons.prems, of e] by simp
  qed simp
  from this [OF closed] show ?thesis by (simp add: Let_def pg_started_close pg_enqueue_def)
qed

end
