(* ===== verification/ResourceGate.thy ===== *)
theory ResourceGate
  imports ProtectedAssetGate
begin

text \<open>
  \<open>AsyncResourceGate\<close> of \<open>shared/concurrency/classes/AsyncGate.js\<close>: a protected-asset gate whose
  writes raise release barriers, and the waits for the writes under a barrier to end. A release
  object (a promise with its resolver) is an entry of a store, a write is an entry of the list of
  calls of \<open>write\<close>, and the hooks \<open>onRelease\<close> and \<open>onCancel\<close> that \<open>write\<close> passes to the inner gate
  run on the notices that a step of that gate leaves in the logs of its locks. The inner gate
  may be shared, so it also takes the events of other users. The hooks of callers are left out:
  the code runs them inside \<open>try\<close> and ignores what they do.
\<close>

section \<open>What a step of the inner gate leaves in the logs\<close>

text \<open>The waiters whose \<open>onRelease\<close> or \<open>onCancel\<close> hook has run.\<close>

definition lover_ids :: "lock_notice list \<Rightarrow> nat list" where
  "lover_ids ns = concat (map (\<lambda>n. case n of WReleased i _ \<Rightarrow> [i] | WCancelled i _ _ \<Rightarrow> [i] | _ \<Rightarrow> []) ns)"

lemma lover_ids_simps [simp]:
  "lover_ids [] = []" "lover_ids (xs @ ys) = lover_ids xs @ lover_ids ys"
  "lover_ids (n # ns) = (case n of WReleased i _ \<Rightarrow> [i] | WCancelled i _ _ \<Rightarrow> [i] | _ \<Rightarrow> []) @ lover_ids ns"
  by (simp_all add: lover_ids_def)

text \<open>Every hook runs together with the settlement of the waiter's promise.\<close>

definition lock_hooked :: "lock \<Rightarrow> bool" where
  "lock_hooked s \<longleftrightarrow> lover_ids (l_log s) = lsettled_ids (l_log s)"

text \<open>What the later states of a lock keep: the log, the waiters, and that hooks are complete.\<close>

definition lock_grows :: "lock \<Rightarrow> lock \<Rightarrow> bool" where
  "lock_grows s s' \<longleftrightarrow> prefix (l_log s) (l_log s') \<and> dom (l_tasks s) \<subseteq> dom (l_tasks s') \<and> (lock_hooked s \<longrightarrow> lock_hooked s')"

lemma lock_grows_refl [simp]: "lock_grows s s"
  by (simp add: lock_grows_def)

lemma lock_grows_trans: "lock_grows s t \<Longrightarrow> lock_grows t u \<Longrightarrow> lock_grows s u"
  unfolding lock_grows_def using prefix_order.trans by blast

text \<open>Draining starts waiters only.\<close>

definition lock_same :: "lock \<Rightarrow> lock \<Rightarrow> bool" where
  "lock_same s s' \<longleftrightarrow> prefix (l_log s) (l_log s') \<and> dom (l_tasks s') = dom (l_tasks s) \<and>
     lover_ids (l_log s') = lover_ids (l_log s) \<and> lsettled_ids (l_log s') = lsettled_ids (l_log s)"

lemma lock_same_trans: "lock_same s t \<Longrightarrow> lock_same t u \<Longrightarrow> lock_same s u"
  unfolding lock_same_def using prefix_order.trans by metis

lemma cleanupState_same: "lock_same s (cleanupState s)"
  by (simp add: lock_same_def cleanupState_def)

lemma lock_drainLoop_same: "lock_same s (lock_drainLoop now ids s)"
proof (induction now ids s rule: lock_drainLoop.induct)
  case (1 now s)
  then show ?case using cleanupState_same [of "s\<lparr>l_queue := []\<rparr>"] by (simp add: lock_same_def)
next
  case (2 now i ids s)
  have start: "lock_same s (startWaiter now i s)" "lock_same s (startWaiter now i (s\<lparr>l_queue := ids\<rparr>))"
    by (auto simp: lock_same_def startWaiter_def Let_def split: option.splits)
  have queue: "lock_same s (s\<lparr>l_queue := q\<rparr>)" for q by (simp add: lock_same_def)
  show ?case
    using 2 start queue by (auto intro: lock_same_trans [OF start(1)])
qed

lemma lock_drain_same: "lock_same s (lock_drain closed now s)"
  using cleanupState_same lock_drainLoop_same by (simp add: lock_drain_def) (simp add: lock_same_def)

lemma lock_same_grows: "lock_same s s' \<Longrightarrow> lock_grows s s'"
  by (simp add: lock_same_def lock_grows_def lock_hooked_def)

lemma cancelWaiter_grows: "lock_grows s (cancelWaiter closed now i err w s)"
proof (cases "l_tasks s i")
  case (Some t)
  have "lock_grows s (waiter_cancelled i err w t s)"
    by (auto simp: lock_grows_def lock_hooked_def waiter_cancelled_def)
  then show ?thesis
    using lock_grows_trans [OF _ lock_same_grows [OF lock_drain_same]] by (simp add: cancelWaiter_eq Some)
qed (simp add: cancelWaiter_eq)

lemma lock_enqueue_grows:
  "lock_grows s (lock_enqueue name policy key blocking priority label waitMs signal now s)"
  "l_next s \<in> dom (l_tasks (lock_enqueue name policy key blocking priority label waitMs signal now s))"
proof -
  let ?E = "lock_enqueue name policy key blocking priority label waitMs signal now s"
  let ?a = "lock_admit (l_next s) (newWaiter blocking priority label waitMs signal now s) s"
  have q: "lock_grows ?a (?a\<lparr>l_queue := x\<rparr>)" for x by (simp add: lock_grows_def lock_hooked_def)
  note d = lock_grows_trans [OF q lock_same_grows [OF lock_drain_same]]
  have "lock_grows ?a ?E"
    by (rule lock_enqueue_cases [of name policy key blocking priority label waitMs signal now s])
      (auto intro: cancelWaiter_grows d lock_grows_trans [OF d cancelWaiter_grows])
  moreover have "lock_grows s ?a" "l_next s \<in> dom (l_tasks ?a)"
    by (auto simp: lock_grows_def lock_admit_def lock_hooked_def)
  moreover from calculation have "dom (l_tasks ?a) \<subseteq> dom (l_tasks ?E)" by (simp add: lock_grows_def)
  ultimately show "lock_grows s ?E" "l_next s \<in> dom (l_tasks ?E)"
    by (blast intro: lock_grows_trans)+
qed

lemma lock_close_grows: "lock_grows s (fst (lock_close name key reason now s))"
proof -
  have "lock_grows s (fst (fold (lock_closeStep name key reason now) ids (s, n)))" for ids n
  proof (induction ids arbitrary: s n)
    case (Cons i ids)
    have "lock_grows s (lock_closeWaiter name key reason now i s)"
      by (simp add: lock_closeWaiter_def cancelWaiter_grows split: option.splits)
    then show ?case using lock_grows_trans [OF _ Cons.IH] by simp
  qed simp
  then show ?thesis by (simp add: lock_close_def)
qed

lemma lock_step_grows: "lock_grows s (lock_step name policy key closed e s)"
proof (cases e)
  case (LFinish i r h now)
  have "lock_grows s (lock_finish closed i r h now s)"
  proof (cases "i \<in> set (l_running s)")
    case True
    let ?f = "runBeforeRelease r h"
    have "lock_same (lock_released i ?f s) (lock_drain closed now (lock_released i ?f s))" by (rule lock_drain_same)
    moreover have "lock_same (lock_released i ?f s) x \<Longrightarrow> lock_grows s (lock_emit (WSettled i ?f) x)" for x
      unfolding lock_same_def lock_grows_def lock_hooked_def by (auto simp: lock_released_def dest: append_prefixD)
    ultimately show ?thesis using True by (simp add: lock_finish_eq)
  qed (simp add: lock_finish_eq)
  then show ?thesis using LFinish by simp
qed (simp_all add: lock_timer_def lock_abort_def lock_enqueue_grows lock_close_grows cancelWaiter_grows split: option.splits)

lemma lock_news_append: "lock_grows s s' \<Longrightarrow> l_log s' = l_log s @ lock_news s s'"
  by (auto simp: lock_grows_def lock_news_def prefix_def)

text \<open>The same for all locks of a gate; a lock that is new grew from the fresh one.\<close>

definition pg_lock :: "pgate \<Rightarrow> nat \<Rightarrow> lock" where
  "pg_lock g a = (case reg_objs (pg_reg g) a of None \<Rightarrow> lock_new | Some (_, s) \<Rightarrow> s)"

definition reg_grows :: "lock registry \<Rightarrow> lock registry \<Rightarrow> bool" where
  "reg_grows r r' \<longleftrightarrow> reg_next r \<le> reg_next r' \<and>
     (\<forall>a k s. reg_objs r a = Some (k, s) \<longrightarrow> (\<exists>s'. reg_objs r' a = Some (k, s') \<and> lock_grows s s')) \<and>
     (\<forall>a k s'. reg_objs r a = None \<longrightarrow> reg_objs r' a = Some (k, s') \<longrightarrow> lock_grows lock_new s')"

lemma reg_grows_refl [simp]: "reg_grows r r"
  by (simp add: reg_grows_def)

lemma reg_grows_trans:
  assumes "reg_grows r1 r2" "reg_grows r2 r3"
  shows "reg_grows r1 r3"
  unfolding reg_grows_def
proof (intro conjI allI impI)
  show "reg_next r1 \<le> reg_next r3" using assms by (simp add: reg_grows_def)
  show "\<exists>s'. reg_objs r3 a = Some (k, s') \<and> lock_grows s s'" if obj: "reg_objs r1 a = Some (k, s)" for a k s
  proof -
    obtain t where t: "reg_objs r2 a = Some (k, t)" "lock_grows s t" using obj assms(1) unfolding reg_grows_def by blast
    then obtain u where "reg_objs r3 a = Some (k, u)" "lock_grows t u" using assms(2) unfolding reg_grows_def by blast
    then show ?thesis using lock_grows_trans [OF t(2)] by blast
  qed
  show "lock_grows lock_new s'" if "reg_objs r1 a = None" "reg_objs r3 a = Some (k, s')" for a k s'
  proof (cases "reg_objs r2 a")
    case None
    then show ?thesis using that assms(2) by (simp add: reg_grows_def)
  next
    case (Some p)
    then obtain l t where t: "reg_objs r2 a = Some (l, t)" by (cases p) simp
    then have "lock_grows lock_new t" using that(1) assms(1) unfolding reg_grows_def by auto
    moreover obtain u where "reg_objs r3 a = Some (l, u)" "lock_grows t u" using t assms(2) unfolding reg_grows_def by blast
    ultimately show ?thesis using lock_grows_trans that(2) by auto
  qed
qed

lemma pg_apply_grows: "reg_grows r (pg_apply g closed e a r)"
  by (auto simp: reg_grows_def pg_apply_objs lock_step_grows)

lemma reg_next_fresh:
  assumes "reg_safe idle r"
  shows "reg_objs r (reg_next r) = None"
proof -
  have "a < reg_next r" if "reg_objs r a = Some p" for a p using that assms unfolding reg_safe_def by (cases p) blast
  then show ?thesis by (cases "reg_objs r (reg_next r)") auto
qed

lemma reg_ensure_grows: "reg_safe idle r \<Longrightarrow> reg_grows r (reg_ensure k lock_new r)"
  using reg_next_fresh [of idle r] by (auto simp: reg_grows_def reg_ensure_def)

lemma pg_close_grows: "reg_grows (pg_reg g) (pg_reg (fst (pg_close reason now g)))"
proof -
  have "reg_grows r (fst (fold (pg_closeKey g reason now) es (r, n)))" for es r n
  proof (induction es arbitrary: r n)
    case (Cons e es)
    obtain k a where e: "e = (k, a)" by (cases e)
    show ?case using reg_grows_trans [OF pg_apply_grows Cons.IH] by (simp add: e)
  qed simp
  then show ?thesis by (simp add: pg_close_def split_def Let_def)
qed

lemma pg_step_grows:
  assumes "pg_inv g"
  shows "reg_grows (pg_reg g) (pg_reg (pg_step e g))"
proof -
  have safe: "reg_safe lock_idle (pg_reg g)" using assms pg_okD(1) by (simp add: pg_inv_def)
  have "reg_grows (pg_reg g) (pg_reg (fst (pg_enqueue key b p label waitMs signal now g)))" for key b p label waitMs signal now
    using reg_grows_trans [OF reg_ensure_grows [OF safe] pg_apply_grows] by (simp add: pg_enqueue_def Let_def)
  then show ?thesis
    by (cases e) (simp_all add: runBlocking_def runNonBlocking_def pg_close_grows pg_apply_grows, simp add: reg_grows_def pg_micro_def reg_micro_step_def Let_def split: list.splits)
qed

section \<open>State\<close>

text \<open>What a release promise resolves with; an \<open>error\<close> that is \<open>undefined\<close> is left out.\<close>

record release_info =
  ri_barrierKey :: string
  ri_name :: string
  ri_resourceKey :: string
  ri_key :: string
  ri_label :: string
  ri_status :: string
  ri_error :: "js_value option"

record release =
  rl_barrierKey :: string
  rl_label :: string
  rl_name :: string
  rl_resourceKey :: string
  rl_value :: "release_info option"

text \<open>A call of \<open>write\<close>: the promise of the inner gate and the releases its closures hold.\<close>

record rg_write =
  rw_task :: pg_promise
  rw_key :: string
  rw_releases :: "nat list"

datatype release_result =
    WaitIdle
  | WaitReleased "release_info list"
  | WaitTimedOut js_value

text \<open>A promise made by \<open>waitForRelease\<close>, with the releases that \<open>Promise.all\<close> joins.\<close>

record rg_wait =
  rv_selected :: string
  rv_on :: "nat list"
  rv_maxWaitMs :: int
  rv_timer :: bool
  rv_result :: "release_result option"

text \<open>
  \<open>rg_barriers\<close> is the map \<open>#barriers\<close> (a set of release objects per key, in insertion order);
  \<open>rg_catches\<close> holds the queued \<open>catch\<close> handlers of \<open>write\<close> with the error they receive.
\<close>

record rgate =
  rg_name :: string
  rg_gate :: pgate
  rg_barriers :: "(string \<times> nat list) list"
  rg_releases :: "release list"
  rg_writes :: "rg_write list"
  rg_waits :: "rg_wait list"
  rg_catches :: "(nat \<times> js_value) list"

text \<open>The constructor with the options \<open>name\<close> and \<open>gate\<close>; \<open>rg_new\<close> makes its own gate.\<close>

definition rg_over :: "string \<Rightarrow> pgate \<Rightarrow> rgate" where
  "rg_over name g = \<lparr>rg_name = name, rg_gate = g, rg_barriers = [], rg_releases = [], rg_writes = [], rg_waits = [], rg_catches = []\<rparr>"

definition rg_new :: "string \<Rightarrow> string \<Rightarrow> rgate" where
  "rg_new name policy = rg_over name (pg_new name policy)"

section \<open>Barriers\<close>

definition rg_lookup :: "rgate \<Rightarrow> string \<Rightarrow> nat list" where
  "rg_lookup g k = (case map_of (rg_barriers g) k of None \<Rightarrow> [] | Some rs \<Rightarrow> rs)"

definition defaultBlockingReleaseKey :: "rgate \<Rightarrow> string \<Rightarrow> string" where
  "defaultBlockingReleaseKey g normalizedKey = rg_name g @ '':blocking:'' @ normalizedKey"

definition blockingReleaseKey :: "rgate \<Rightarrow> string option \<Rightarrow> string" where
  "blockingReleaseKey g key = defaultBlockingReleaseKey g (normalizeGateKey key)"

text \<open>The members of a JavaScript set, in insertion order.\<close>

definition rg_unique :: "'a list \<Rightarrow> 'a list" where
  "rg_unique xs = rev (remdups (rev xs))"

text \<open>The option \<open>barrierKey\<close>: nothing, a string, or an array.\<close>

datatype barrier_keys = NoKey | OneKey string | ManyKeys "string option list"

fun explicitKeys :: "barrier_keys \<Rightarrow> string list" where
  "explicitKeys NoKey = []"
| "explicitKeys (OneKey k) = (if k = [] then [] else [normalizeGateKey (Some k)])"
| "explicitKeys (ManyKeys ks) = map normalizeGateKey ks"

definition barrierKeys :: "rgate \<Rightarrow> string \<Rightarrow> barrier_keys \<Rightarrow> string list" where
  "barrierKeys g normalizedKey explicit =
     rg_unique (filter (\<lambda>k. k \<noteq> []) (defaultBlockingReleaseKey g normalizedKey # explicitKeys explicit))"

definition releaseLookupKeys :: "rgate \<Rightarrow> string option \<Rightarrow> string list" where
  "releaseLookupKeys g key =
     rg_unique (filter (\<lambda>k. k \<noteq> []) [normalizeGateKey key, defaultBlockingReleaseKey g (normalizeGateKey key)])"

text \<open>\<open>String(options.barrierName || options.label || barrierKey)\<close> and \<open>options.label || "work"\<close>.\<close>

definition js_or :: "string option \<Rightarrow> string \<Rightarrow> string" where
  "js_or v fallback = (case v of None \<Rightarrow> fallback | Some s \<Rightarrow> if s = [] then fallback else s)"

definition newRelease :: "string \<Rightarrow> string option \<Rightarrow> string option \<Rightarrow> string \<Rightarrow> release" where
  "newRelease normalizedKey label barrierName barrierKey =
     \<lparr>rl_barrierKey = barrierKey, rl_label = js_or label ''work'', rl_name = js_or barrierName (js_or label barrierKey),
      rl_resourceKey = normalizedKey, rl_value = None\<rparr>"

text \<open>\<open>Map.set\<close>: an entry keeps its place.\<close>

definition map_put :: "string \<Rightarrow> 'v \<Rightarrow> (string \<times> 'v) list \<Rightarrow> (string \<times> 'v) list" where
  "map_put k v m = (if k \<in> fst ` set m then map (\<lambda>e. if fst e = k then (k, v) else e) m else m @ [(k, v)])"

definition registerBarrier :: "string \<Rightarrow> string option \<Rightarrow> string option \<Rightarrow> string \<Rightarrow> rgate \<Rightarrow> rgate" where
  "registerBarrier normalizedKey label barrierName barrierKey g =
     g\<lparr>rg_barriers := map_put barrierKey (rg_lookup g barrierKey @ [length (rg_releases g)]) (rg_barriers g),
       rg_releases := rg_releases g @ [newRelease normalizedKey label barrierName barrierKey]\<rparr>"

definition registerBlockingBarriers :: "string \<Rightarrow> barrier_keys \<Rightarrow> string option \<Rightarrow> string option \<Rightarrow> rgate \<Rightarrow> rgate \<times> nat list" where
  "registerBlockingBarriers normalizedKey explicit label barrierName g =
     (let keys = barrierKeys g normalizedKey explicit
      in (fold (registerBarrier normalizedKey label barrierName) keys g,
          [length (rg_releases g)..<length (rg_releases g) + length keys]))"

text \<open>One release: it leaves its barrier, an empty barrier leaves the map, and the promise resolves.\<close>

definition dropRelease :: "nat \<Rightarrow> string \<Rightarrow> rgate \<Rightarrow> rgate" where
  "dropRelease r k g = (case map_of (rg_barriers g) k of None \<Rightarrow> g
     | Some active \<Rightarrow> let rest = filter (\<lambda>x. x \<noteq> r) active in
         g\<lparr>rg_barriers := (if rest = [] then filter (\<lambda>e. fst e \<noteq> k) (rg_barriers g) else map_put k rest (rg_barriers g))\<rparr>)"

definition releaseInfo :: "release \<Rightarrow> string \<Rightarrow> string \<Rightarrow> js_value \<Rightarrow> release_info" where
  "releaseInfo rl key status err =
     \<lparr>ri_barrierKey = rl_barrierKey rl, ri_name = rl_name rl, ri_resourceKey = rl_resourceKey rl, ri_key = key,
      ri_label = rl_label rl, ri_status = status, ri_error = (if err = JsUndefined then None else Some err)\<rparr>"

definition resolveRelease :: "string \<Rightarrow> string \<Rightarrow> js_value \<Rightarrow> release \<Rightarrow> release" where
  "resolveRelease key status err rl =
     (if rl_value rl = None then rl\<lparr>rl_value := Some (releaseInfo rl key status err)\<rparr> else rl)"

definition releaseBarrier :: "string \<Rightarrow> string \<Rightarrow> js_value \<Rightarrow> nat \<Rightarrow> rgate \<Rightarrow> rgate" where
  "releaseBarrier key status err r g =
     (let g1 = dropRelease r (rl_barrierKey (rg_releases g ! r)) g
      in g1\<lparr>rg_releases := (rg_releases g1)[r := resolveRelease key status err (rg_releases g1 ! r)]\<rparr>)"

definition releaseBarriers :: "nat list \<Rightarrow> string \<Rightarrow> string \<Rightarrow> js_value \<Rightarrow> rgate \<Rightarrow> rgate" where
  "releaseBarriers rs key status err = fold (releaseBarrier key status err) rs"

section \<open>Operations\<close>

text \<open>The write whose closures were given to the waiter \<open>i\<close> of the lock \<open>a\<close>.\<close>

definition rg_writeOf :: "rgate \<Rightarrow> nat \<Rightarrow> nat \<Rightarrow> nat option" where
  "rg_writeOf g a i = find (\<lambda>w. rw_task (rg_writes g ! w) = PTask a i) [0..<length (rg_writes g)]"

text \<open>
  A notice of a lock: the hooks of a write release its barriers, and a rejection of its promise
  queues its \<open>catch\<close> handler.
\<close>

definition rg_over_hook :: "nat \<Rightarrow> nat \<Rightarrow> string \<Rightarrow> string \<Rightarrow> js_value \<Rightarrow> rgate \<Rightarrow> rgate" where
  "rg_over_hook a i key status err g = (case rg_writeOf g a i of None \<Rightarrow> g
     | Some w \<Rightarrow> releaseBarriers (rw_releases (rg_writes g ! w)) key status err g)"

definition rg_reject_hook :: "nat \<Rightarrow> nat \<Rightarrow> js_value \<Rightarrow> rgate \<Rightarrow> rgate" where
  "rg_reject_hook a i err g = (case rg_writeOf g a i of None \<Rightarrow> g
     | Some w \<Rightarrow> g\<lparr>rg_catches := rg_catches g @ [(w, err)]\<rparr>)"

fun rg_hook :: "nat \<Rightarrow> string \<Rightarrow> lock_notice \<Rightarrow> rgate \<Rightarrow> rgate" where
  "rg_hook a key (WReleased i (Fulfilled v)) g = rg_over_hook a i key ''fulfilled'' JsUndefined g"
| "rg_hook a key (WReleased i (Rejected err)) g = rg_over_hook a i key ''rejected'' err g"
| "rg_hook a key (WCancelled i err waitMs) g = rg_over_hook a i key ''rejected'' err g"
| "rg_hook a key (WSettled i (Rejected err)) g = rg_reject_hook a i err g"
| "rg_hook a key n g = g"

text \<open>The inner gate moves to \<open>g'\<close>, and the hooks of the new notices run.\<close>

definition rg_lock_hooks :: "pgate \<Rightarrow> pgate \<Rightarrow> nat \<Rightarrow> rgate \<Rightarrow> rgate" where
  "rg_lock_hooks old new a g = (case reg_objs (pg_reg new) a of None \<Rightarrow> g
     | Some (k, s) \<Rightarrow> fold (rg_hook a k) (lock_news (pg_lock old a) s) g)"

definition rg_advance :: "pgate \<Rightarrow> rgate \<Rightarrow> rgate" where
  "rg_advance new g = fold (rg_lock_hooks (rg_gate g) new) [0..<reg_next (pg_reg new)] (g\<lparr>rg_gate := new\<rparr>)"

definition rg_read :: "string option \<Rightarrow> string option \<Rightarrow> int option \<Rightarrow> abort_signal \<Rightarrow> int \<Rightarrow> rgate \<Rightarrow> rgate \<times> pg_promise" where
  "rg_read key label waitMs signal now g =
     (let (new, p) = runNonBlocking (Some (normalizeGateKey key)) (case label of None \<Rightarrow> ''work'' | Some l \<Rightarrow> l) waitMs signal now (rg_gate g)
      in (rg_advance new g, p))"

text \<open>
  \<open>write\<close>: the barriers are registered before the inner gate sees the task. The handler of a
  refusal is queued as that of any other rejection; \<open>runBlocking\<close> does not throw.
\<close>

definition rg_enter :: "string \<Rightarrow> nat list \<Rightarrow> pg_promise \<Rightarrow> rgate \<Rightarrow> rgate" where
  "rg_enter normalized releases p g =
     (let g1 = g\<lparr>rg_writes := rg_writes g @ [\<lparr>rw_task = p, rw_key = normalized, rw_releases = releases\<rparr>]\<rparr>
      in case p of PRefused err \<Rightarrow> g1\<lparr>rg_catches := rg_catches g1 @ [(length (rg_writes g), err)]\<rparr> | PTask a i \<Rightarrow> g1)"

definition rg_write :: "string option \<Rightarrow> barrier_keys \<Rightarrow> string option \<Rightarrow> string option \<Rightarrow> int \<Rightarrow> int option \<Rightarrow> abort_signal \<Rightarrow> int \<Rightarrow>
    rgate \<Rightarrow> rgate \<times> nat" where
  "rg_write key barrierKey barrierName label priority waitMs signal now g =
     (let normalized = normalizeGateKey key;
          (g1, releases) = registerBlockingBarriers normalized barrierKey label barrierName g;
          (new, p) = runBlocking (Some normalized) priority (case label of None \<Rightarrow> ''work'' | Some l \<Rightarrow> l) waitMs signal now (rg_gate g1)
      in (rg_advance new (rg_enter normalized releases p g1), length (rg_writes g)))"

text \<open>The \<open>catch\<close> handler at the head of the queue.\<close>

definition rg_catch :: "rgate \<Rightarrow> rgate" where
  "rg_catch g = (case rg_catches g of [] \<Rightarrow> g
     | (w, err) # rest \<Rightarrow>
         let wr = rg_writes g ! w
         in releaseBarriers (rw_releases wr) (rw_key wr) ''rejected'' err (g\<lparr>rg_catches := rest\<rparr>))"

definition DEFAULT_WAIT_MS :: int where
  "DEFAULT_WAIT_MS = 30000"

text \<open>
  \<open>waitForRelease\<close> takes a handle, whose promise it returns, or a key with an optional wait
  (\<open>null\<close> counts as 0). The selected key is the last one that has a barrier, else the first.
\<close>

datatype barrier_ref = Handle nat | KeyRef "string option"

definition rg_newWait :: "string option \<Rightarrow> int option \<Rightarrow> rgate \<Rightarrow> rg_wait" where
  "rg_newWait key waitMs g =
     (let keys = releaseLookupKeys g key;
          busy = filter (\<lambda>k. rg_lookup g k \<noteq> []) keys;
          on = concat (map (rg_lookup g) busy);
          maxWaitMs = max 0 (case waitMs of None \<Rightarrow> DEFAULT_WAIT_MS | Some ms \<Rightarrow> ms)
      in \<lparr>rv_selected = (if busy = [] then hd keys else last busy), rv_on = on, rv_maxWaitMs = maxWaitMs,
          rv_timer = (on \<noteq> [] \<and> 0 < maxWaitMs), rv_result = (if on = [] then Some WaitIdle else None)\<rparr>)"

definition waitForRelease :: "barrier_ref \<Rightarrow> int option \<Rightarrow> rgate \<Rightarrow> rgate \<times> nat" where
  "waitForRelease ref waitMs g = (case ref of Handle j \<Rightarrow> (g, j)
     | KeyRef key \<Rightarrow> (g\<lparr>rg_waits := rg_waits g @ [rg_newWait key waitMs g]\<rparr>, length (rg_waits g)))"

definition awaitBarrier :: "barrier_ref \<Rightarrow> int option \<Rightarrow> rgate \<Rightarrow> rgate \<times> nat" where
  "awaitBarrier ref waitMs g = (case ref of Handle j \<Rightarrow> (g, j) | KeyRef key \<Rightarrow> waitForRelease (KeyRef key) waitMs g)"

text \<open>\<open>Promise.all\<close> has all its values; the timer of the race fires. The first to come settles the wait.\<close>

definition rg_join :: "nat \<Rightarrow> rgate \<Rightarrow> rgate" where
  "rg_join j g = (if j < length (rg_waits g) then
       let v = rg_waits g ! j; vals = map (\<lambda>r. rl_value (rg_releases g ! r)) (rv_on v)
       in if rv_result v = None \<and> list_all (\<lambda>x. x \<noteq> None) vals
          then g\<lparr>rg_waits := (rg_waits g)[j := v\<lparr>rv_timer := False, rv_result := Some (WaitReleased (map the vals))\<rparr>]\<rparr>
          else g
     else g)"

definition rg_waitTimer :: "nat \<Rightarrow> rgate \<Rightarrow> rgate" where
  "rg_waitTimer j g = (if j < length (rg_waits g) then
       let v = rg_waits g ! j
       in if rv_timer v
          then g\<lparr>rg_waits := (rg_waits g)[j := v\<lparr>rv_timer := False, rv_result := Some (WaitTimedOut
             (AsyncGateBusyError (rg_name g @ '' release wait timed out after '' @ show_int (rv_maxWaitMs v) @ ''ms ('' @ rv_selected v @ '')'')
               (rv_selected v) ''waitForRelease''))\<rparr>]\<rparr>
          else g
     else g)"

text \<open>The entries of \<open>waitingOn\<close>: gate, name, label, barrier key and resource key.\<close>

definition rg_waitingOn :: "nat \<Rightarrow> rgate \<Rightarrow> (string \<times> string \<times> string \<times> string \<times> string) list" where
  "rg_waitingOn j g = map (\<lambda>r. let rl = rg_releases g ! r
     in (rg_name g, rl_name rl, rl_label rl, rl_barrierKey rl, rl_resourceKey rl)) (rv_on (rg_waits g ! j))"

text \<open>The handle of \<open>writeWithRelease\<close>.\<close>

record release_handle =
  rh_gate :: string
  rh_name :: string
  rh_resourceKey :: string
  rh_barrierKey :: string
  rh_released :: nat
  rh_result :: nat

definition releaseBarrierKey :: "rgate \<Rightarrow> string option \<Rightarrow> barrier_keys \<Rightarrow> string" where
  "releaseBarrierKey g key barrierKey =
     normalizeGateKey (Some (js_or (case barrierKey of NoKey \<Rightarrow> None | OneKey k \<Rightarrow> Some k
       | ManyKeys [] \<Rightarrow> None | ManyKeys (k # _) \<Rightarrow> k) (blockingReleaseKey g key)))"

definition writeWithRelease :: "string option \<Rightarrow> barrier_keys \<Rightarrow> string option \<Rightarrow> string option \<Rightarrow> int \<Rightarrow> int option \<Rightarrow> int option \<Rightarrow>
    abort_signal \<Rightarrow> int \<Rightarrow> rgate \<Rightarrow> rgate \<times> release_handle" where
  "writeWithRelease key explicit barrierName label priority waitMs releaseWaitMs signal now g =
     (let barrierKey = releaseBarrierKey g key explicit;
          writeBarrierKey = (case explicit of ManyKeys ks \<Rightarrow> ManyKeys ks | _ \<Rightarrow> OneKey barrierKey);
          (g1, w) = rg_write key writeBarrierKey barrierName label priority waitMs signal now g;
          (g2, j) = waitForRelease (KeyRef (Some barrierKey)) releaseWaitMs g1
      in (g2, \<lparr>rh_gate = rg_name g, rh_name = js_or barrierName (js_or label barrierKey),
               rh_resourceKey = normalizeGateKey key, rh_barrierKey = barrierKey, rh_released = j, rh_result = w\<rparr>))"

definition rg_close :: "string \<Rightarrow> int \<Rightarrow> rgate \<Rightarrow> rgate \<times> nat" where
  "rg_close reason now g = (let (new, n) = pg_close reason now (rg_gate g) in (rg_advance new g, n))"

definition rg_snapshot :: "rgate \<Rightarrow> (string \<times> lock_snapshot option) list \<times> (string \<times> nat) list" where
  "rg_snapshot g = (pg_snapshot (rg_gate g), map (\<lambda>(k, rs). (k, length rs)) (rg_barriers g))"

text \<open>
  The events: the methods, what the runtime does to the inner gate (timers, aborts, the end
  of started operations, microtasks) and what other users of a shared gate do, the \<open>catch\<close> handlers, and the
  settlement of waits.
\<close>

datatype rg_event =
    RWrite "string option" barrier_keys "string option" "string option" int "int option" abort_signal int
  | RRead "string option" "string option" "int option" abort_signal int
  | RWriteWithRelease "string option" barrier_keys "string option" "string option" int "int option" "int option" abort_signal int
  | RWait barrier_ref "int option"
  | RClose string int
  | RGate pg_event
  | RCatch
  | RJoin nat
  | RWaitTimer nat

fun rg_step :: "rg_event \<Rightarrow> rgate \<Rightarrow> rgate" where
  "rg_step (RWrite key bk bn label p waitMs signal now) g = fst (rg_write key bk bn label p waitMs signal now g)"
| "rg_step (RRead key label waitMs signal now) g = fst (rg_read key label waitMs signal now g)"
| "rg_step (RWriteWithRelease key bk bn label p waitMs rw signal now) g =
     fst (writeWithRelease key bk bn label p waitMs rw signal now g)"
| "rg_step (RWait ref waitMs) g = fst (awaitBarrier ref waitMs g)"
| "rg_step (RClose reason now) g = fst (rg_close reason now g)"
| "rg_step (RGate e) g = rg_advance (pg_step e (rg_gate g)) g"
| "rg_step RCatch g = rg_catch g"
| "rg_step (RJoin j) g = rg_join j g"
| "rg_step (RWaitTimer j) g = rg_waitTimer j g"

section \<open>Barriers and releases\<close>

lemma map_put_keys: "map fst (map_put k v m) = (if k \<in> set (map fst m) then map fst m else map fst m @ [k])"
proof -
  have "fst \<circ> (\<lambda>e. if fst e = k then (k, v) else e) = fst" by (auto simp: fun_eq_iff)
  then show ?thesis by (simp add: map_put_def)
qed

lemma map_put_distinct: "distinct (map fst m) \<Longrightarrow> distinct (map fst (map_put k v m))"
  unfolding map_put_keys by simp

lemma map_put_lookup: "map_of (map_put k v m) k' = (if k' = k then Some v else map_of m k')"
proof -
  have "map_of (map (\<lambda>e. if fst e = k then (k, v) else e) m) k' =
      (if k' = k then if k \<in> set (map fst m) then Some v else None else map_of m k')"
  proof (induction m)
    case (Cons e m)
    then show ?case by (cases "k' = k"; cases "k \<in> set (map fst m)"; cases e) auto
  qed simp
  moreover have "k \<notin> set (map fst m) \<Longrightarrow> map_of (m @ [(k, v)]) k' = (if k' = k then Some v else map_of m k')"
    by (rule map_of_append_fresh) (simp add: map_of_eq_None_iff)
  ultimately show ?thesis by (cases "k' = k") (simp_all add: map_put_def del: map_of_append)
qed

text \<open>The barrier of a key is the set of its unresolved releases, and no barrier is empty.\<close>

definition open_release :: "release list \<Rightarrow> string \<Rightarrow> nat \<Rightarrow> bool" where
  "open_release rls k r \<longleftrightarrow> rl_barrierKey (rls ! r) = k \<and> rl_value (rls ! r) = None"

definition barriers_ok :: "rgate \<Rightarrow> bool" where
  "barriers_ok g \<longleftrightarrow> distinct (map fst (rg_barriers g)) \<and> (\<forall>e \<in> set (rg_barriers g). snd e \<noteq> []) \<and>
     (\<forall>k. rg_lookup g k = filter (open_release (rg_releases g) k) [0..<length (rg_releases g)])"

lemma barriers_okD:
  assumes "barriers_ok g"
  shows "rg_lookup g k = filter (open_release (rg_releases g) k) [0..<length (rg_releases g)]"
  using assms by (simp add: barriers_ok_def)

lemma registerBarrier_ok:
  assumes "barriers_ok g"
  shows "barriers_ok (registerBarrier nk label name k g)"
proof -
  let ?n = "length (rg_releases g)" and ?new = "newRelease nk label name k"
  have look: "rg_lookup (registerBarrier nk label name k g) k' = (if k' = k then rg_lookup g k @ [?n] else rg_lookup g k')" for k'
    by (simp add: rg_lookup_def registerBarrier_def map_put_lookup)
  have "filter (open_release (rg_releases g @ [?new]) k') [0..<?n] = filter (open_release (rg_releases g) k') [0..<?n]" for k'
    by (rule filter_cong) (auto simp: open_release_def nth_append)
  then have "filter (open_release (rg_releases g @ [?new]) k') [0..<Suc ?n]
      = filter (open_release (rg_releases g) k') [0..<?n] @ (if k' = k then [?n] else [])" for k'
    by (auto simp: open_release_def newRelease_def)
  with look have "rg_lookup (registerBarrier nk label name k g) k' =
      filter (open_release (rg_releases g @ [?new]) k') [0..<Suc ?n]" for k'
    by (simp add: barriers_okD [OF assms] del: upt_Suc)
  moreover have "\<forall>e \<in> set (map_put k (rg_lookup g k @ [?n]) (rg_barriers g)). snd e \<noteq> []"
    using assms by (auto simp: map_put_def barriers_ok_def)
  ultimately show ?thesis
    using assms by (simp add: barriers_ok_def registerBarrier_def map_put_distinct del: upt_Suc)
qed

lemma register_fold:
  "barriers_ok g \<Longrightarrow> barriers_ok (fold (registerBarrier nk label name) ks g) \<and>
   rg_releases (fold (registerBarrier nk label name) ks g) = rg_releases g @ map (newRelease nk label name) ks \<and>
   rg_writes (fold (registerBarrier nk label name) ks g) = rg_writes g \<and>
   rg_catches (fold (registerBarrier nk label name) ks g) = rg_catches g \<and>
   rg_gate (fold (registerBarrier nk label name) ks g) = rg_gate g \<and>
   rg_waits (fold (registerBarrier nk label name) ks g) = rg_waits g \<and>
   rg_name (fold (registerBarrier nk label name) ks g) = rg_name g"
proof (induction ks arbitrary: g)
  case (Cons k ks)
  show ?case using Cons.IH [OF registerBarrier_ok [OF Cons.prems, of nk label name k]] by (simp add: registerBarrier_def)
qed simp

lemma dropRelease_simps [simp]:
  "rg_releases (dropRelease r k g) = rg_releases g" "rg_writes (dropRelease r k g) = rg_writes g"
  "rg_catches (dropRelease r k g) = rg_catches g" "rg_gate (dropRelease r k g) = rg_gate g"
  "rg_waits (dropRelease r k g) = rg_waits g" "rg_name (dropRelease r k g) = rg_name g"
  by (simp_all add: dropRelease_def Let_def split: option.splits)

lemma dropRelease_lookup:
  assumes "distinct (map fst (rg_barriers g))"
  shows "rg_lookup (dropRelease r k g) k' = (if k' = k then filter (\<lambda>x. x \<noteq> r) (rg_lookup g k) else rg_lookup g k')"
  by (auto simp: rg_lookup_def dropRelease_def Let_def map_put_lookup map_of_filter_neq split: option.splits)

lemma releaseBarrier_simps [simp]:
  "rg_releases (releaseBarrier key st err r g) = (rg_releases g)[r := resolveRelease key st err (rg_releases g ! r)]"
  "rg_writes (releaseBarrier key st err r g) = rg_writes g"
  "rg_catches (releaseBarrier key st err r g) = rg_catches g" "rg_gate (releaseBarrier key st err r g) = rg_gate g"
  "rg_waits (releaseBarrier key st err r g) = rg_waits g" "rg_name (releaseBarrier key st err r g) = rg_name g"
  by (simp_all add: releaseBarrier_def Let_def)

lemma resolveRelease_facts [simp]:
  "rl_barrierKey (resolveRelease key st err rl) = rl_barrierKey rl" "rl_value (resolveRelease key st err rl) \<noteq> None"
  "rl_value rl \<noteq> None \<Longrightarrow> resolveRelease key st err rl = rl"
  by (simp_all add: resolveRelease_def)

lemma releaseBarrier_ok:
  assumes ok: "barriers_ok g" and r: "r < length (rg_releases g)"
  shows "barriers_ok (releaseBarrier key st err r g)"
proof -
  let ?k = "rl_barrierKey (rg_releases g ! r)" and ?rls = "(rg_releases g)[r := resolveRelease key st err (rg_releases g ! r)]"
  have d: "distinct (map fst (rg_barriers g))" and ne: "\<forall>e \<in> set (rg_barriers g). snd e \<noteq> []"
    using ok by (simp_all add: barriers_ok_def)
  have look: "rg_lookup (releaseBarrier key st err r g) k = rg_lookup (dropRelease r ?k g) k" for k
    by (simp add: rg_lookup_def releaseBarrier_def Let_def)
  have "rg_lookup (releaseBarrier key st err r g) k = filter (open_release ?rls k) [0..<length (rg_releases g)]" for k
  proof -
    have "filter (open_release ?rls k) [0..<length (rg_releases g)] =
        filter (\<lambda>x. x \<noteq> r \<and> open_release (rg_releases g) k x) [0..<length (rg_releases g)]"
      by (rule filter_cong) (use r in \<open>auto simp: open_release_def nth_list_update split: if_splits\<close>)
    moreover have "filter (\<lambda>x. x \<noteq> r \<and> open_release (rg_releases g) k x) xs = filter (open_release (rg_releases g) k) xs" if "k \<noteq> ?k" for xs
      by (rule filter_cong) (use that in \<open>auto simp: open_release_def\<close>)
    ultimately show ?thesis
      unfolding look dropRelease_lookup [OF d] barriers_okD [OF ok] by (auto simp: conj_commute)
  qed
  moreover have "distinct (map fst (rg_barriers (dropRelease r ?k g)))"
    using d by (auto simp: dropRelease_def Let_def map_put_distinct distinct_map_filter split: option.splits)
  moreover have "\<forall>e \<in> set (rg_barriers (dropRelease r ?k g)). snd e \<noteq> []"
    using ne by (auto simp: dropRelease_def Let_def map_put_def split: option.splits)
  ultimately show ?thesis by (simp add: barriers_ok_def) (simp add: releaseBarrier_def Let_def)
qed

lemma releaseBarriers_effect:
  "barriers_ok g \<Longrightarrow> \<forall>r \<in> set rs. r < length (rg_releases g) \<Longrightarrow>
   barriers_ok (releaseBarriers rs key st err g) \<and>
   length (rg_releases (releaseBarriers rs key st err g)) = length (rg_releases g) \<and>
   rg_writes (releaseBarriers rs key st err g) = rg_writes g \<and> rg_catches (releaseBarriers rs key st err g) = rg_catches g \<and>
   rg_gate (releaseBarriers rs key st err g) = rg_gate g \<and> rg_waits (releaseBarriers rs key st err g) = rg_waits g \<and>
   rg_name (releaseBarriers rs key st err g) = rg_name g \<and>
   (\<forall>r < length (rg_releases g). rg_releases (releaseBarriers rs key st err g) ! r =
     (if r \<in> set rs then resolveRelease key st err (rg_releases g ! r) else rg_releases g ! r))"
proof (induction rs arbitrary: g)
  case (Cons x rs)
  let ?g = "releaseBarrier key st err x g"
  have "barriers_ok ?g" using Cons.prems by (intro releaseBarrier_ok) simp_all
  from Cons.IH [OF this] Cons.prems(2) show ?case
    by (auto simp: releaseBarriers_def nth_list_update)
qed (simp add: releaseBarriers_def)

section \<open>Invariant\<close>

text \<open>
  A write is open while its waiter has not been released or cancelled (\<open>D a\<close> are those of the
  lock \<open>a\<close> whose hook has run), or, when it was refused, until its \<open>catch\<close> handler has run.
\<close>

definition write_open :: "(nat \<Rightarrow> nat set) \<Rightarrow> rgate \<Rightarrow> nat \<Rightarrow> bool" where
  "write_open D g w = (case rw_task (rg_writes g ! w) of PRefused _ \<Rightarrow> w \<in> fst ` set (rg_catches g) | PTask a i \<Rightarrow> i \<notin> D a)"

definition is_refused :: "pg_promise \<Rightarrow> bool" where
  "is_refused p = (case p of PRefused _ \<Rightarrow> True | PTask _ _ \<Rightarrow> False)"

text \<open>A queued handler belongs to a write that was refused, or whose task has settled (\<open>S\<close>); of a refused one there is one.\<close>

definition catches_ok :: "(nat \<Rightarrow> nat set) \<Rightarrow> rg_write list \<Rightarrow> (nat \<times> js_value) list \<Rightarrow> bool" where
  "catches_ok S ws cs \<longleftrightarrow>
     (\<forall>c \<in> set cs. fst c < length ws \<and> (\<forall>a i. rw_task (ws ! fst c) = PTask a i \<longrightarrow> i \<in> S a)) \<and>
     distinct (filter (\<lambda>w. is_refused (rw_task (ws ! w))) (map fst cs))"

definition tasks_distinct :: "rg_write list \<Rightarrow> bool" where
  "tasks_distinct ws \<longleftrightarrow> distinct (filter (\<lambda>p. \<not> is_refused p) (map rw_task ws))"

definition rg_core :: "(nat \<Rightarrow> nat set) \<Rightarrow> (nat \<Rightarrow> nat set) \<Rightarrow> rgate \<Rightarrow> bool" where
  "rg_core D S g \<longleftrightarrow> barriers_ok g \<and>
     concat (map rw_releases (rg_writes g)) = [0..<length (rg_releases g)] \<and>
     (\<forall>w < length (rg_writes g). \<forall>r \<in> set (rw_releases (rg_writes g ! w)).
        rl_value (rg_releases g ! r) = None \<longleftrightarrow> write_open D g w) \<and>
     tasks_distinct (rg_writes g) \<and> catches_ok S (rg_writes g) (rg_catches g)"

lemma rg_coreD:
  assumes "rg_core D S g"
  shows "barriers_ok g" and "concat (map rw_releases (rg_writes g)) = [0..<length (rg_releases g)]"
    and "w < length (rg_writes g) \<Longrightarrow> r \<in> set (rw_releases (rg_writes g ! w)) \<Longrightarrow>
      rl_value (rg_releases g ! r) = None \<longleftrightarrow> write_open D g w"
    and "tasks_distinct (rg_writes g)" and "catches_ok S (rg_writes g) (rg_catches g)"
  using assms by (auto simp: rg_core_def)

lemma distinct_concat_nth:
  assumes "distinct (concat xss)" and "i < length xss" "j < length xss" "x \<in> set (xss ! i)" "x \<in> set (xss ! j)"
  shows "i = j"
proof -
  have less: False if "i < j" "j < length xss" "x \<in> set (xss ! i)" "x \<in> set (xss ! j)" for i j
  proof -
    have "xss = take j xss @ xss ! j # drop (Suc j) xss" using that(2) by (rule id_take_nth_drop)
    then have "distinct (concat (take j xss) @ concat (xss ! j # drop (Suc j) xss))" using assms(1) by (metis concat_append)
    moreover have "xss ! i \<in> set (take j xss)" using that(1,2) by (metis in_set_conv_nth length_take min_absorb2 nth_take order.strict_implies_order)
    ultimately show False using that(3,4) by auto
  qed
  from assms(2-5) show ?thesis by (cases i j rule: linorder_cases) (auto dest: less)
qed

lemma release_owner:
  assumes "rg_core D S g" "w < length (rg_writes g)" "r \<in> set (rw_releases (rg_writes g ! w))"
  shows "r < length (rg_releases g)"
    and "v < length (rg_writes g) \<Longrightarrow> r \<in> set (rw_releases (rg_writes g ! v)) \<Longrightarrow> v = w"
proof -
  note c = rg_coreD(2) [OF assms(1)]
  have "r \<in> set (concat (map rw_releases (rg_writes g)))" using assms(2,3) by (auto intro!: bexI [of _ "rg_writes g ! w"])
  then show "r < length (rg_releases g)" unfolding c by simp
  have d: "distinct (concat (map rw_releases (rg_writes g)))" unfolding c by simp
  show "v < length (rg_writes g) \<Longrightarrow> r \<in> set (rw_releases (rg_writes g ! v)) \<Longrightarrow> v = w"
    by (rule distinct_concat_nth [OF d]) (use assms in simp_all)
qed

lemma distinct_filter_nth:
  assumes "distinct (filter P xs)" "i < length xs" "j < length xs" "xs ! i = xs ! j" "P (xs ! i)"
  shows "i = j"
proof -
  have "concat (map (\<lambda>x. if P x then [x] else []) xs) = filter P xs" by (induction xs) auto
  then have "distinct (concat (map (\<lambda>x. if P x then [x] else []) xs))" using assms(1) by simp
  then show ?thesis
    using distinct_concat_nth [of "map (\<lambda>x. if P x then [x] else []) xs" i j "xs ! i"] assms(2-5) by simp
qed

lemma task_owner:
  assumes "tasks_distinct ws" "w < length ws" "v < length ws" "rw_task (ws ! w) = PTask a i" "rw_task (ws ! v) = PTask a i"
  shows "v = w"
  using distinct_filter_nth [of "\<lambda>p. \<not> is_refused p" "map rw_task ws" v w] assms
  by (simp add: tasks_distinct_def is_refused_def)

text \<open>All releases of a write resolve together, when it stops being open.\<close>

lemma rg_core_release:
  assumes core: "rg_core D S g" and w: "w < length (rg_writes g)"
    and others: "\<And>v. v < length (rg_writes g) \<Longrightarrow> v \<noteq> w \<Longrightarrow> write_open D' (g\<lparr>rg_catches := cs\<rparr>) v = write_open D g v"
    and closed: "\<not> write_open D' (g\<lparr>rg_catches := cs\<rparr>) w" and cs: "catches_ok S (rg_writes g) cs"
  shows "rg_core D' S (releaseBarriers (rw_releases (rg_writes g ! w)) key st err (g\<lparr>rg_catches := cs\<rparr>))"
proof -
  let ?rs = "rw_releases (rg_writes g ! w)" and ?g = "g\<lparr>rg_catches := cs\<rparr>"
  note c = rg_coreD [OF core]
  have ok: "barriers_ok ?g" using c(1) by (simp add: barriers_ok_def rg_lookup_def)
  have rs: "\<forall>r \<in> set ?rs. r < length (rg_releases ?g)" using release_owner(1) [OF core w] by simp
  note e = releaseBarriers_effect [OF ok rs, of key st err]
  let ?h = "releaseBarriers ?rs key st err ?g"
  have open_eq: "write_open D' ?h v = write_open D' ?g v" for v using e by (simp add: write_open_def split: pg_promise.splits)
  have "rl_value (rg_releases ?h ! r) = None \<longleftrightarrow> write_open D' ?h v"
    if v: "v < length (rg_writes g)" and r: "r \<in> set (rw_releases (rg_writes g ! v))" for v r
  proof (cases "v = w")
    case True
    then show ?thesis using closed r e rs unfolding open_eq by simp
  next
    case False
    then have "r \<notin> set ?rs" using release_owner(2) [OF core v r] w by blast
    then show ?thesis
      using e release_owner(1) [OF core v r] c(3) [OF v r] others [OF v False] unfolding open_eq by simp
  qed
  then show ?thesis using e c(2,4) cs by (simp add: rg_core_def)
qed

lemma rg_core_cong:
  assumes "rg_core D S g" "\<And>v. v < length (rg_writes g) \<Longrightarrow> write_open D' g v = write_open D g v"
  shows "rg_core D' S g"
  using assms by (simp add: rg_core_def)

lemma rg_core_mono:
  assumes "rg_core D S g" "\<And>a. S a \<subseteq> S' a"
  shows "rg_core D S' g"
  using assms unfolding rg_core_def catches_ok_def by blast

text \<open>What the hooks leave alone; resolved releases keep their values.\<close>

definition releases_grow :: "rgate \<Rightarrow> rgate \<Rightarrow> bool" where
  "releases_grow g g' \<longleftrightarrow> length (rg_releases g) \<le> length (rg_releases g') \<and>
     (\<forall>r < length (rg_releases g). rl_barrierKey (rg_releases g' ! r) = rl_barrierKey (rg_releases g ! r)) \<and>
     (\<forall>r < length (rg_releases g). rl_value (rg_releases g ! r) \<noteq> None \<longrightarrow> rg_releases g' ! r = rg_releases g ! r)"

definition rg_frame :: "rgate \<Rightarrow> rgate \<Rightarrow> bool" where
  "rg_frame g g' \<longleftrightarrow> rg_writes g' = rg_writes g \<and> rg_gate g' = rg_gate g \<and> rg_waits g' = rg_waits g \<and>
     rg_name g' = rg_name g \<and> releases_grow g g'"

lemma releases_grow_trans: "releases_grow g h \<Longrightarrow> releases_grow h i \<Longrightarrow> releases_grow g i"
  by (auto simp: releases_grow_def)

lemma rg_frame_refl [simp]: "rg_frame g g"
  by (simp add: rg_frame_def releases_grow_def)

lemma rg_frame_trans: "rg_frame g h \<Longrightarrow> rg_frame h i \<Longrightarrow> rg_frame g i"
  using releases_grow_trans by (auto simp: rg_frame_def)

lemma releaseBarriers_frame:
  assumes "barriers_ok g" "\<forall>r \<in> set rs. r < length (rg_releases g)"
  shows "rg_frame g (releaseBarriers rs key st err g)"
  using releaseBarriers_effect [OF assms, of key st err] by (auto simp: rg_frame_def releases_grow_def)

lemma rg_writeOf_Some: "rg_writeOf g a i = Some w \<Longrightarrow> w < length (rg_writes g) \<and> rw_task (rg_writes g ! w) = PTask a i"
  by (auto simp: rg_writeOf_def find_Some_iff)

lemma rg_writeOf_None: "rg_writeOf g a i = None \<Longrightarrow> w < length (rg_writes g) \<Longrightarrow> rw_task (rg_writes g ! w) \<noteq> PTask a i"
  by (auto simp: rg_writeOf_def find_None_iff)

lemma rg_over_hook_core:
  assumes core: "rg_core D S g"
  shows "rg_core (D(a := insert i (D a))) S (rg_over_hook a i key st err g) \<and> rg_frame g (rg_over_hook a i key st err g)"
proof (cases "rg_writeOf g a i")
  case None
  have "write_open (D(a := insert i (D a))) g v = write_open D g v" if "v < length (rg_writes g)" for v
    using rg_writeOf_None [OF None that] by (auto simp: write_open_def split: pg_promise.splits)
  then show ?thesis using rg_core_cong [OF core] by (simp add: rg_over_hook_def None)
next
  case (Some w)
  note w = rg_writeOf_Some [OF Some]
  have others: "write_open (D(a := insert i (D a))) g v = write_open D g v" if "v < length (rg_writes g)" "v \<noteq> w" for v
    using task_owner [OF rg_coreD(4) [OF core], of w v a i] w that by (auto simp: write_open_def split: pg_promise.splits)
  have "rg_core (D(a := insert i (D a))) S (releaseBarriers (rw_releases (rg_writes g ! w)) key st err (g\<lparr>rg_catches := rg_catches g\<rparr>))"
    by (rule rg_core_release [OF core]) (use w others rg_coreD(5) [OF core] in \<open>auto simp: write_open_def\<close>)
  moreover have "rg_frame g (releaseBarriers (rw_releases (rg_writes g ! w)) key st err g)"
    by (rule releaseBarriers_frame) (use rg_coreD(1) [OF core] release_owner(1) [OF core] w in blast)+
  ultimately show ?thesis by (simp add: rg_over_hook_def Some)
qed

lemma rg_reject_hook_core:
  assumes core: "rg_core D S g" and i: "i \<in> S a"
  shows "rg_core D S (rg_reject_hook a i err g) \<and> rg_frame g (rg_reject_hook a i err g)"
proof (cases "rg_writeOf g a i")
  case (Some w)
  note w = rg_writeOf_Some [OF Some] and c = rg_coreD [OF core]
  let ?g = "g\<lparr>rg_catches := rg_catches g @ [(w, err)]\<rparr>"
  have "write_open D ?g v = write_open D g v" for v
    using w by (auto simp: write_open_def split: pg_promise.splits)
  moreover have "barriers_ok ?g" using c(1) by (simp add: barriers_ok_def rg_lookup_def)
  moreover have "catches_ok S (rg_writes g) (rg_catches g @ [(w, err)])"
    using c(5) w i by (auto simp: catches_ok_def is_refused_def)
  ultimately have "rg_core D S ?g" using c(2-4) by (simp add: rg_core_def)
  then show ?thesis by (simp add: rg_reject_hook_def Some rg_frame_def releases_grow_def)
qed (simp add: rg_reject_hook_def core)

lemma rg_hook_core:
  assumes "rg_core D S g" and "set (lsettled_ids [n]) \<subseteq> S a"
  shows "rg_core (D(a := D a \<union> set (lover_ids [n]))) S (rg_hook a key n g) \<and> rg_frame g (rg_hook a key n g)"
proof (cases "(a, key, n, g)" rule: rg_hook.cases)
  case (4 a' key' i err g')
  then show ?thesis using assms rg_reject_hook_core [of D S g i a err] by (simp add: fun_upd_idem)
qed (use assms rg_over_hook_core [OF assms(1)] in \<open>simp_all add: fun_upd_idem\<close>)

lemma rg_hooks_core:
  "rg_core D S g \<Longrightarrow> set (lsettled_ids ns) \<subseteq> S a \<Longrightarrow>
   rg_core (D(a := D a \<union> set (lover_ids ns))) S (fold (rg_hook a key) ns g) \<and> rg_frame g (fold (rg_hook a key) ns g)"
proof (induction ns arbitrary: D g)
  case (Cons n ns)
  have n: "set (lsettled_ids [n]) \<subseteq> S a" "set (lsettled_ids ns) \<subseteq> S a" using Cons.prems(2) by (auto split: lock_notice.splits)
  note h = rg_hook_core [OF Cons.prems(1) n(1), of key]
  note ih = Cons.IH [OF conjunct1 [OF h] n(2)]
  have eq: "(D(a := D a \<union> set (lover_ids [n])))(a := (D(a := D a \<union> set (lover_ids [n]))) a \<union> set (lover_ids ns))
      = D(a := D a \<union> set (lover_ids (n # ns)))" by (auto simp: fun_eq_iff)
  show ?case
    using conjunct1 [OF ih] rg_frame_trans [OF conjunct2 [OF h] conjunct2 [OF ih]] unfolding eq fold_simps by blast
qed (simp add: fun_upd_idem)

section \<open>Steps of the inner gate\<close>

definition gate_over :: "pgate \<Rightarrow> nat \<Rightarrow> nat set" where
  "gate_over g a = set (lover_ids (l_log (pg_lock g a)))"

definition gate_settled :: "pgate \<Rightarrow> nat \<Rightarrow> nat set" where
  "gate_settled g a = set (lsettled_ids (l_log (pg_lock g a)))"

definition gate_hooked :: "pgate \<Rightarrow> bool" where
  "gate_hooked g \<longleftrightarrow> (\<forall>a. lock_hooked (pg_lock g a))"

lemma reg_grows_None:
  assumes "reg_grows r r'" "reg_objs r' a = None"
  shows "reg_objs r a = None"
proof (rule ccontr)
  assume "reg_objs r a \<noteq> None"
  then obtain k s where "reg_objs r a = Some (k, s)" by auto
  then obtain s' where "reg_objs r' a = Some (k, s')" using assms(1) unfolding reg_grows_def by blast
  then show False using assms(2) by simp
qed

lemma write_open_gate [simp]: "write_open D (g\<lparr>rg_gate := x\<rparr>) = write_open D g"
  by (simp add: write_open_def fun_eq_iff split: pg_promise.splits)

lemma pg_lock_grows:
  assumes "reg_grows (pg_reg g) (pg_reg h)"
  shows "lock_grows (pg_lock g a) (pg_lock h a)"
proof (cases "reg_objs (pg_reg g) a")
  case None
  then show ?thesis
    using assms by (auto simp: pg_lock_def reg_grows_def split: option.splits)
next
  case (Some p)
  then obtain k s where s: "reg_objs (pg_reg g) a = Some (k, s)" by (cases p) simp
  then obtain s' where "reg_objs (pg_reg h) a = Some (k, s')" "lock_grows s s'" using assms unfolding reg_grows_def by blast
  then show ?thesis by (simp add: pg_lock_def s)
qed

lemma gate_hooked_new: "gate_hooked (pg_new name policy)"
  by (simp add: gate_hooked_def pg_lock_def pg_new_def reg_empty_def lock_hooked_def lock_new_def)

lemma gate_hooked_grows: "gate_hooked g \<Longrightarrow> reg_grows (pg_reg g) (pg_reg h) \<Longrightarrow> gate_hooked h"
  using pg_lock_grows unfolding gate_hooked_def lock_grows_def by blast

lemma gate_hooked_over: "gate_hooked g \<Longrightarrow> gate_over g = gate_settled g"
  by (simp add: gate_hooked_def lock_hooked_def gate_over_def gate_settled_def fun_eq_iff)

lemma gate_settled_mono: "reg_grows (pg_reg g) (pg_reg h) \<Longrightarrow> gate_settled g a \<subseteq> gate_settled h a"
  using pg_lock_grows [of g h a] by (auto simp: gate_settled_def lock_grows_def prefix_def)

lemma pg_lock_inv:
  assumes "pg_inv g"
  shows "lock_core {} {} (pg_lock g a)"
proof (cases "reg_objs (pg_reg g) a")
  case None
  then show ?thesis using lock_new_inv [of False] by (simp add: pg_lock_def lock_inv_def)
next
  case (Some p)
  then obtain k s where s: "reg_objs (pg_reg g) a = Some (k, s)" by (cases p) simp
  have "pg_ok (pg_closed g) (pg_reg g)" using assms by (simp add: pg_inv_def)
  from pg_okD(3) [OF this s] show ?thesis by (simp add: pg_lock_def s lock_inv_def)
qed

text \<open>The waiters whose promise has not settled wait in the queue or hold the lock.\<close>

lemma gate_settled_iff:
  assumes "pg_inv g"
  shows "gate_settled g a \<subseteq> dom (l_tasks (pg_lock g a))"
    and "i \<in> dom (l_tasks (pg_lock g a)) \<Longrightarrow>
      i \<notin> gate_settled g a \<longleftrightarrow> i \<in> set (l_queue (pg_lock g a)) \<union> set (l_running (pg_lock g a))"
proof -
  let ?s = "pg_lock g a"
  note p = lock_core_parts [OF pg_lock_inv [OF assms, of a]]
  have waits: "l_waits ?s = set (l_queue ?s)" using p(2,3) by auto
  have dom: "dom (l_tasks ?s) = l_waits ?s \<union> l_starts ?s \<union> l_cancels ?s"
    by (auto simp: wt_is_def split: option.splits)
  show "gate_settled g a \<subseteq> dom (l_tasks ?s)" unfolding gate_settled_def p(11) dom by auto
  show "i \<in> dom (l_tasks ?s) \<Longrightarrow> i \<notin> gate_settled g a \<longleftrightarrow> i \<in> set (l_queue ?s) \<union> set (l_running ?s)"
    unfolding gate_settled_def p(11) dom waits [symmetric] using p(5,8) l_phases_disjoint [of i ?s] by blast
qed

definition lock_newsOf :: "pgate \<Rightarrow> pgate \<Rightarrow> nat \<Rightarrow> lock_notice list" where
  "lock_newsOf old new a = (case reg_objs (pg_reg new) a of None \<Rightarrow> [] | Some (k, s) \<Rightarrow> lock_news (pg_lock old a) s)"

lemma gate_over_step:
  assumes "reg_grows (pg_reg old) (pg_reg new)"
  shows "gate_over new a = gate_over old a \<union> set (lover_ids (lock_newsOf old new a))"
    and "set (lsettled_ids (lock_newsOf old new a)) \<subseteq> gate_settled new a"
proof -
  have "l_log (pg_lock new a) = l_log (pg_lock old a) @ lock_newsOf old new a"
  proof (cases "reg_objs (pg_reg new) a")
    case None
    then have "reg_objs (pg_reg old) a = None" by (rule reg_grows_None [OF assms])
    then show ?thesis using None by (simp add: pg_lock_def lock_newsOf_def)
  next
    case (Some p)
    then show ?thesis
      using lock_news_append [OF pg_lock_grows [OF assms, of a]] by (cases p) (simp add: lock_newsOf_def pg_lock_def [of new])
  qed
  then show "gate_over new a = gate_over old a \<union> set (lover_ids (lock_newsOf old new a))"
    "set (lsettled_ids (lock_newsOf old new a)) \<subseteq> gate_settled new a"
    by (simp_all add: gate_over_def gate_settled_def)
qed

lemma rg_lock_hooks_core:
  assumes "rg_core D S g" "set (lsettled_ids (lock_newsOf old new a)) \<subseteq> S a"
  shows "rg_core (D(a := D a \<union> set (lover_ids (lock_newsOf old new a)))) S (rg_lock_hooks old new a g) \<and>
    rg_frame g (rg_lock_hooks old new a g)"
proof (cases "reg_objs (pg_reg new) a")
  case None
  then show ?thesis using assms by (simp add: rg_lock_hooks_def lock_newsOf_def fun_upd_idem)
next
  case (Some p)
  obtain k s where p: "p = (k, s)" by (cases p)
  have "lock_newsOf old new a = lock_news (pg_lock old a) s" "rg_lock_hooks old new a g = fold (rg_hook a k) (lock_news (pg_lock old a) s) g"
    using Some p by (simp_all add: rg_lock_hooks_def lock_newsOf_def)
  then show ?thesis using rg_hooks_core [OF assms(1), of "lock_newsOf old new a" a k] assms(2) by simp
qed

lemma rg_all_hooks_core:
  assumes "rg_core D S g" "\<And>a. set (lsettled_ids (lock_newsOf old new a)) \<subseteq> S a"
  shows "rg_core (\<lambda>a. D a \<union> (if a \<in> set as then set (lover_ids (lock_newsOf old new a)) else {})) S
      (fold (rg_lock_hooks old new) as g) \<and> rg_frame g (fold (rg_lock_hooks old new) as g)"
  using assms(1)
proof (induction as arbitrary: D g)
  case (Cons b as)
  note h = rg_lock_hooks_core [OF Cons.prems assms(2), of b]
  note ih = Cons.IH [OF conjunct1 [OF h]]
  have eq: "(\<lambda>a. (D(b := D b \<union> set (lover_ids (lock_newsOf old new b)))) a \<union>
        (if a \<in> set as then set (lover_ids (lock_newsOf old new a)) else {})) =
      (\<lambda>a. D a \<union> (if a \<in> set (b # as) then set (lover_ids (lock_newsOf old new a)) else {}))"
    by (auto simp: fun_eq_iff)
  show ?case
    using conjunct1 [OF ih] rg_frame_trans [OF conjunct2 [OF h] conjunct2 [OF ih]] unfolding eq fold_simps by blast
qed simp

text \<open>A step of the inner gate keeps the correspondence.\<close>

lemma rg_advance_core:
  assumes core: "rg_core (gate_over (rg_gate g)) (gate_settled (rg_gate g)) g"
    and grows: "reg_grows (pg_reg (rg_gate g)) (pg_reg new)" and new: "pg_inv new"
  shows "rg_core (gate_over new) (gate_settled new) (rg_advance new g) \<and> rg_frame (g\<lparr>rg_gate := new\<rparr>) (rg_advance new g)"
proof -
  let ?old = "rg_gate g" and ?as = "[0..<reg_next (pg_reg new)]"
  have "rg_core (gate_over ?old) (gate_settled ?old) (g\<lparr>rg_gate := new\<rparr>)"
    using core by (simp add: rg_core_def barriers_ok_def rg_lookup_def)
  then have "rg_core (gate_over ?old) (gate_settled new) (g\<lparr>rg_gate := new\<rparr>)"
    by (rule rg_core_mono) (rule gate_settled_mono [OF grows])
  note all = rg_all_hooks_core [OF this gate_over_step(2) [OF grows], of ?as]
  have "lock_newsOf ?old new a = []" if "a \<notin> set ?as" for a
  proof -
    have "reg_safe lock_idle (pg_reg new)" using new pg_okD(1) by (simp add: pg_inv_def)
    then have "reg_objs (pg_reg new) a = None" using that unfolding reg_safe_def
      by (cases "reg_objs (pg_reg new) a") auto
    then show ?thesis by (simp add: lock_newsOf_def)
  qed
  then have eq: "(\<lambda>a. gate_over ?old a \<union> (if a \<in> set ?as then set (lover_ids (lock_newsOf ?old new a)) else {})) = gate_over new"
    unfolding fun_eq_iff gate_over_step(1) [OF grows] by auto
  show ?thesis using all unfolding eq rg_advance_def .
qed

section \<open>Steps of the resource gate\<close>

definition tasks_known :: "pgate \<Rightarrow> rg_write list \<Rightarrow> bool" where
  "tasks_known g ws \<longleftrightarrow> (\<forall>w \<in> set ws. \<forall>a i. rw_task w = PTask a i \<longrightarrow> i \<in> dom (l_tasks (pg_lock g a)))"

text \<open>A wait is idle when there was nothing to wait for; a released one holds the values of its releases.\<close>

definition wait_ok :: "release list \<Rightarrow> rg_wait \<Rightarrow> bool" where
  "wait_ok rls v \<longleftrightarrow> (\<forall>r \<in> set (rv_on v). r < length rls) \<and> (rv_result v = Some WaitIdle \<longleftrightarrow> rv_on v = []) \<and>
     (rv_timer v \<longrightarrow> rv_result v = None) \<and>
     (\<forall>vs. rv_result v = Some (WaitReleased vs) \<longrightarrow> map (\<lambda>r. rl_value (rls ! r)) (rv_on v) = map Some vs)"

definition rg_inv :: "rgate \<Rightarrow> bool" where
  "rg_inv g \<longleftrightarrow> pg_inv (rg_gate g) \<and> gate_hooked (rg_gate g) \<and> tasks_known (rg_gate g) (rg_writes g) \<and>
     rg_core (gate_over (rg_gate g)) (gate_settled (rg_gate g)) g \<and> list_all (wait_ok (rg_releases g)) (rg_waits g)"

lemma rg_invD:
  assumes "rg_inv g"
  shows "pg_inv (rg_gate g)" and "gate_hooked (rg_gate g)" and "tasks_known (rg_gate g) (rg_writes g)"
    and "rg_core (gate_over (rg_gate g)) (gate_settled (rg_gate g)) g"
    and "v \<in> set (rg_waits g) \<Longrightarrow> wait_ok (rg_releases g) v"
  using assms by (auto simp: rg_inv_def list_all_iff)

lemma tasks_known_grows:
  "tasks_known g ws \<Longrightarrow> reg_grows (pg_reg g) (pg_reg h) \<Longrightarrow> tasks_known h ws"
  using pg_lock_grows unfolding tasks_known_def lock_grows_def by blast

lemma map_Some_mem: "map f xs = map Some ys \<Longrightarrow> x \<in> set xs \<Longrightarrow> f x \<noteq> None"
  by (metis image_eqI image_iff list.set_map option.distinct(1))

lemma wait_ok_grows:
  assumes "wait_ok (rg_releases g) v" "releases_grow g h"
  shows "wait_ok (rg_releases h) v"
proof -
  have len: "length (rg_releases g) \<le> length (rg_releases h)" using assms(2) by (simp add: releases_grow_def)
  have on: "r < length (rg_releases g)" if "r \<in> set (rv_on v)" for r using assms(1) that by (simp add: wait_ok_def)
  have "map (\<lambda>r. rl_value (rg_releases h ! r)) (rv_on v) = map Some vs" if vs: "rv_result v = Some (WaitReleased vs)" for vs
  proof -
    have eq: "map (\<lambda>r. rl_value (rg_releases g ! r)) (rv_on v) = map Some vs" using assms(1) vs by (simp add: wait_ok_def)
    have "rl_value (rg_releases h ! r) = rl_value (rg_releases g ! r)" if r: "r \<in> set (rv_on v)" for r
      using map_Some_mem [OF eq r] assms(2) on [OF r] by (simp add: releases_grow_def)
    then show ?thesis unfolding eq [symmetric] by simp
  qed
  then show ?thesis using assms(1) len on unfolding wait_ok_def by force
qed

lemma waits_grow: "list_all (wait_ok (rg_releases g)) vs \<Longrightarrow> releases_grow g h \<Longrightarrow> list_all (wait_ok (rg_releases h)) vs"
  by (auto simp: list_all_iff intro: wait_ok_grows)

lemma rg_advance_inv:
  assumes core: "rg_core (gate_over (rg_gate g)) (gate_settled (rg_gate g)) g"
    and waits: "list_all (wait_ok (rg_releases g)) (rg_waits g)" and hooked: "gate_hooked (rg_gate g)"
    and grows: "reg_grows (pg_reg (rg_gate g)) (pg_reg new)" and new: "pg_inv new" "tasks_known new (rg_writes g)"
  shows "rg_inv (rg_advance new g)" and "rg_frame (g\<lparr>rg_gate := new\<rparr>) (rg_advance new g)"
proof -
  note c = rg_advance_core [OF core grows new(1)]
  show frame: "rg_frame (g\<lparr>rg_gate := new\<rparr>) (rg_advance new g)" using c by blast
  have same: "rg_writes (rg_advance new g) = rg_writes g" "rg_gate (rg_advance new g) = new"
      "rg_waits (rg_advance new g) = rg_waits g" "releases_grow g (rg_advance new g)"
    using frame by (simp_all add: rg_frame_def releases_grow_def)
  have "list_all (wait_ok (rg_releases (rg_advance new g))) (rg_waits g)" by (rule waits_grow [OF waits same(4)])
  then show "rg_inv (rg_advance new g)"
    unfolding rg_inv_def same using conjunct1 [OF c] new gate_hooked_grows [OF hooked grows] by blast
qed

lemma rg_gate_step_inv:
  assumes "rg_inv g"
  shows "rg_inv (rg_advance (pg_step e (rg_gate g)) g)" and "rg_frame (g\<lparr>rg_gate := pg_step e (rg_gate g)\<rparr>) (rg_advance (pg_step e (rg_gate g)) g)"
proof -
  note i = rg_invD [OF assms] and grows = pg_step_grows [OF rg_invD(1) [OF assms], of e]
  have "list_all (wait_ok (rg_releases g)) (rg_waits g)" using i(5) by (simp add: list_all_iff)
  note a = rg_advance_inv [OF i(4) this i(2) grows pg_step_inv [OF i(1)] tasks_known_grows [OF i(3) grows]]
  show "rg_inv (rg_advance (pg_step e (rg_gate g)) g)"
    "rg_frame (g\<lparr>rg_gate := pg_step e (rg_gate g)\<rparr>) (rg_advance (pg_step e (rg_gate g)) g)" by (rule a)+
qed

text \<open>A task that the inner gate accepts is a new waiter of its lock.\<close>

lemma pg_enqueue_task:
  assumes inv: "pg_inv g" and eq: "pg_enqueue key b p label waitMs signal now g = (new, PTask a i)"
  shows "i \<notin> dom (l_tasks (pg_lock g a))" and "i \<in> dom (l_tasks (pg_lock new a))"
proof -
  have "\<not> pg_closed g" using eq by (auto simp: pg_enqueue_def Let_def split: if_splits)
  then have ok: "pg_ok False (pg_reg g)" using inv by (simp add: pg_inv_def)
  define k where "k = normalizeGateKey key"
  let ?r = "reg_ensure k lock_new (pg_reg g)" and ?e = "LEnqueue b p label waitMs signal now"
  have new: "lock_inv False lock_new \<and> normalizeGateKey (Some k) = k" using lock_new_inv by (simp add: k_def)
  note f = reg_ensure_facts [OF ok new]
  obtain c s where c: "reg_get ?r k = Some c" "reg_objs ?r c = Some (k, s)" using f(3) by blast
  then have ai: "a = c" "i = l_next s" "new = g\<lparr>pg_reg := pg_apply g False ?e c ?r\<rparr>"
    using eq \<open>\<not> pg_closed g\<close> by (auto simp: pg_enqueue_def Let_def k_def [symmetric] reg_obj_def)
  have "lock_core {} {} s" using f(2) [OF c(2)] by (simp add: lock_inv_def)
  from lock_core_parts(7) [OF this] have fresh: "l_next s \<notin> dom (l_tasks s)" by auto
  have "pg_lock g c = s \<or> pg_lock g c = lock_new"
    using c(2) reg_next_fresh [OF pg_okD(1) [OF ok]] by (cases "reg_objs (pg_reg g) c") (auto simp: pg_lock_def reg_ensure_def split: if_splits)
  moreover have "dom (l_tasks lock_new) = {}" by (simp add: lock_new_def)
  ultimately show "i \<notin> dom (l_tasks (pg_lock g a))" using fresh ai by auto
  show "i \<in> dom (l_tasks (pg_lock new a))"
    using lock_enqueue_grows(2) [of s] c(2) by (simp add: ai pg_lock_def pg_apply_objs)
qed

lemma concat_append_upt: "concat xss = [0..<n] \<Longrightarrow> concat (xss @ [[n..<n + m]]) = [0..<n + m]"
  using upt_add_eq_append [of 0 n m] by simp

text \<open>Registering the barriers and entering the write, with a task that no other write has.\<close>

lemma rg_enter_core:
  assumes core: "rg_core D S g"
    and reg: "registerBlockingBarriers nk bk label bn g = (g1, rs)"
    and task: "\<forall>a i. p = PTask a i \<longrightarrow> i \<notin> D a \<and> (\<forall>w \<in> set (rg_writes g). rw_task w \<noteq> PTask a i)"
  shows "rg_core D S (rg_enter nk rs p g1)"
    and "rg_writes (rg_enter nk rs p g1) = rg_writes g @ [\<lparr>rw_task = p, rw_key = nk, rw_releases = rs\<rparr>]"
    and "rg_gate (rg_enter nk rs p g1) = rg_gate g" and "rg_waits (rg_enter nk rs p g1) = rg_waits g"
    and "rg_name (rg_enter nk rs p g1) = rg_name g"
    and "rg_releases (rg_enter nk rs p g1) = rg_releases g @ map (newRelease nk label bn) (barrierKeys g nk bk)"
    and "rs = [length (rg_releases g)..<length (rg_releases g) + length (barrierKeys g nk bk)]"
proof -
  let ?ks = "barrierKeys g nk bk" and ?n = "length (rg_releases g)" and ?N = "length (rg_writes g)"
  note c = rg_coreD [OF core]
  have g1: "g1 = fold (registerBarrier nk label bn) ?ks g" and rs: "rs = [?n..<?n + length ?ks]"
    using reg by (simp_all add: registerBlockingBarriers_def Let_def)
  note f = register_fold [OF c(1), of nk label bn ?ks, folded g1]
  let ?h = "rg_enter nk rs p g1" and ?ws = "rg_writes g @ [\<lparr>rw_task = p, rw_key = nk, rw_releases = rs\<rparr>]"
  show h: "rg_writes ?h = ?ws" "rg_gate ?h = rg_gate g" "rg_waits ?h = rg_waits g" "rg_name ?h = rg_name g"
    "rg_releases ?h = rg_releases g @ map (newRelease nk label bn) ?ks" "rs = [?n..<?n + length ?ks]"
    using f rs by (simp_all add: rg_enter_def Let_def split: pg_promise.splits)
  have cs: "rg_catches ?h = rg_catches g @ (case p of PRefused err \<Rightarrow> [(?N, err)] | PTask a i \<Rightarrow> [])"
    using f by (simp add: rg_enter_def Let_def split: pg_promise.splits)
  have bound: "w < ?N" if "w \<in> fst ` set (rg_catches g)" for w
    using c(5) that by (auto simp: catches_ok_def)
  have old: "write_open D ?h w = write_open D g w" if "w < ?N" for w
    using that by (auto simp: write_open_def h(1) cs nth_append split: pg_promise.splits)
  have new: "write_open D ?h ?N"
  proof -
    have "rg_writes ?h ! ?N = \<lparr>rw_task = p, rw_key = nk, rw_releases = rs\<rparr>" by (simp add: h(1))
    then show ?thesis unfolding write_open_def cs using task by (cases p) auto
  qed
  have opens: "rl_value (rg_releases ?h ! r) = None \<longleftrightarrow> write_open D ?h w"
    if w: "w < length ?ws" and r: "r \<in> set (rw_releases (?ws ! w))" for w r
  proof (cases "w < ?N")
    case True
    then have r': "r \<in> set (rw_releases (rg_writes g ! w))" using r by (simp add: nth_append)
    then show ?thesis
      using release_owner(1) [OF core True r'] c(3) [OF True r'] by (simp add: h(5) nth_append old [OF True])
  next
    case False
    then have "w = ?N" using w by simp
    moreover from this have "r \<in> set rs" using r by simp
    moreover have "?n \<le> r" "r < ?n + length ?ks" using \<open>r \<in> set rs\<close> by (simp_all add: rs)
    then have "rl_value (rg_releases ?h ! r) = None" unfolding h(5) by (simp add: nth_append newRelease_def)
    ultimately show ?thesis using new by simp
  qed
  have dist: "tasks_distinct ?ws"
    using c(4) task by (cases p) (auto simp: tasks_distinct_def is_refused_def)
  have same: "rw_task (?ws ! w) = rw_task (rg_writes g ! w)" if "w < ?N" for w using that by (simp add: nth_append)
  have "filter (\<lambda>w. is_refused (rw_task (?ws ! w))) (map fst (rg_catches g)) =
      filter (\<lambda>w. is_refused (rw_task (rg_writes g ! w))) (map fst (rg_catches g))"
    by (rule filter_cong) (use bound same in auto)
  then have catches: "catches_ok S ?ws (rg_catches ?h)"
    using c(5) bound same unfolding catches_ok_def cs by (cases p) (auto simp: less_SucI)
  have "barriers_ok ?h" using f by (simp add: barriers_ok_def rg_lookup_def rg_enter_def Let_def split: pg_promise.splits)
  moreover have "concat (map rw_releases ?ws) = [0..<length (rg_releases ?h)]"
    using concat_append_upt [OF c(2), of "length ?ks"] unfolding h(5) unfolding rs by simp
  ultimately show "rg_core D S ?h"
    unfolding rg_core_def h(1) using opens dist catches by blast
qed

lemma rg_write_inv:
  assumes inv: "rg_inv g"
  shows "rg_inv (fst (rg_write key bk bn label prio waitMs signal now g))"
    and "\<exists>p. rg_writes (fst (rg_write key bk bn label prio waitMs signal now g)) = rg_writes g @
      [\<lparr>rw_task = p, rw_key = normalizeGateKey key,
        rw_releases = [length (rg_releases g)..<length (rg_releases g) + length (barrierKeys g (normalizeGateKey key) bk)]\<rparr>]"
    and "rg_waits (fst (rg_write key bk bn label prio waitMs signal now g)) = rg_waits g"
    and "rg_name (fst (rg_write key bk bn label prio waitMs signal now g)) = rg_name g"
    and "releases_grow g (fst (rg_write key bk bn label prio waitMs signal now g))"
    and "r < length (barrierKeys g (normalizeGateKey key) bk) \<Longrightarrow>
      rl_barrierKey (rg_releases (fst (rg_write key bk bn label prio waitMs signal now g)) ! (length (rg_releases g) + r))
        = barrierKeys g (normalizeGateKey key) bk ! r"
proof -
  note i = rg_invD [OF inv]
  let ?nk = "normalizeGateKey key" and ?l = "case label of None \<Rightarrow> ''work'' | Some l \<Rightarrow> l"
  obtain g1 rs where reg: "registerBlockingBarriers ?nk bk label bn g = (g1, rs)" by (cases "registerBlockingBarriers ?nk bk label bn g")
  obtain new p where run: "runBlocking (Some ?nk) prio ?l waitMs signal now (rg_gate g) = (new, p)"
    by (cases "runBlocking (Some ?nk) prio ?l waitMs signal now (rg_gate g)")
  let ?h = "rg_enter ?nk rs p g1"
  have gate: "rg_gate g1 = rg_gate g"
    using reg register_fold [OF rg_coreD(1) [OF i(4)]] by (auto simp: registerBlockingBarriers_def Let_def)
  have res: "fst (rg_write key bk bn label prio waitMs signal now g) = rg_advance new ?h"
    using run gate by (simp add: rg_write_def reg Let_def)
  have step: "new = pg_step (PBlocking (Some ?nk) prio ?l waitMs signal now) (rg_gate g)" using run by simp
  have grows: "reg_grows (pg_reg (rg_gate g)) (pg_reg new)" unfolding step by (rule pg_step_grows [OF i(1)])
  have task: "k \<notin> dom (l_tasks (pg_lock (rg_gate g) a)) \<and> k \<in> dom (l_tasks (pg_lock new a))" if "p = PTask a k" for a k
    using pg_enqueue_task [OF i(1) run [unfolded runBlocking_def that]] by blast
  have settled: "gate_over (rg_gate g) a \<subseteq> dom (l_tasks (pg_lock (rg_gate g) a))" for a
    using gate_settled_iff(1) [OF i(1)] gate_hooked_over [OF i(2)] by simp
  have "\<forall>a k. p = PTask a k \<longrightarrow> k \<notin> gate_over (rg_gate g) a \<and> (\<forall>w \<in> set (rg_writes g). rw_task w \<noteq> PTask a k)"
    using task settled i(3) unfolding tasks_known_def by blast
  note e = rg_enter_core [OF i(4) reg this]
  have known: "tasks_known new (rg_writes ?h)"
    using tasks_known_grows [OF i(3) grows] task unfolding e(2) tasks_known_def by auto
  have grow: "releases_grow g ?h" by (simp add: releases_grow_def e(6) nth_append)
  have waits: "list_all (wait_ok (rg_releases ?h)) (rg_waits ?h)"
    unfolding e(4) by (rule waits_grow [OF _ grow]) (use i(5) in \<open>simp add: list_all_iff\<close>)
  note adv = rg_advance_inv [of ?h new, unfolded e(3), OF e(1) waits i(2) grows _ known]
  have new: "pg_inv new" unfolding step by (rule pg_step_inv [OF i(1)])
  show "rg_inv (fst (rg_write key bk bn label prio waitMs signal now g))"
    unfolding res by (rule adv(1) [OF new])
  have fr: "rg_writes (rg_advance new ?h) = rg_writes ?h" "rg_waits (rg_advance new ?h) = rg_waits ?h"
      "rg_name (rg_advance new ?h) = rg_name ?h" "releases_grow ?h (rg_advance new ?h)"
    using adv(2) [OF new] by (simp_all add: rg_frame_def releases_grow_def)
  show "\<exists>p. rg_writes (fst (rg_write key bk bn label prio waitMs signal now g)) = rg_writes g @
      [\<lparr>rw_task = p, rw_key = ?nk, rw_releases = [length (rg_releases g)..<length (rg_releases g) + length (barrierKeys g ?nk bk)]\<rparr>]"
    using e(2,7) fr by (auto simp: res)
  show "rg_waits (fst (rg_write key bk bn label prio waitMs signal now g)) = rg_waits g"
    "rg_name (fst (rg_write key bk bn label prio waitMs signal now g)) = rg_name g"
    using fr e(4,5) by (simp_all add: res)
  show "releases_grow g (fst (rg_write key bk bn label prio waitMs signal now g))"
    unfolding res by (rule releases_grow_trans [OF grow fr(4)])
  show "rl_barrierKey (rg_releases (fst (rg_write key bk bn label prio waitMs signal now g)) ! (length (rg_releases g) + r))
      = barrierKeys g ?nk bk ! r" if "r < length (barrierKeys g ?nk bk)"
    using fr(4) that unfolding res by (simp add: releases_grow_def e(6) nth_append newRelease_def)
qed

lemma rg_catch_inv:
  assumes inv: "rg_inv g"
  shows "rg_inv (rg_catch g)"
proof (cases "rg_catches g")
  case (Cons c rest)
  obtain w err where c: "c = (w, err)" by (cases c)
  note i = rg_invD [OF inv] and core = rg_coreD [OF rg_invD(4) [OF inv]]
  let ?D = "gate_over (rg_gate g)" and ?g = "g\<lparr>rg_catches := rest\<rparr>" and ?wr = "rg_writes g ! w"
  let ?h = "releaseBarriers (rw_releases ?wr) (rw_key ?wr) ''rejected'' err ?g"
  have w: "w < length (rg_writes g)" using core(5) by (simp add: Cons c catches_ok_def)
  have over: "?D = gate_settled (rg_gate g)" by (rule gate_hooked_over [OF i(2)])
  have others: "write_open ?D ?g v = write_open ?D g v" if "v \<noteq> w" for v
    using that by (auto simp: write_open_def Cons c split: pg_promise.splits)
  have closed: "\<not> write_open ?D ?g w"
    using core(5) over by (auto simp: write_open_def Cons c catches_ok_def is_refused_def split: pg_promise.splits)
  have rest: "catches_ok (gate_settled (rg_gate g)) (rg_writes g) rest"
    using core(5) by (auto simp: catches_ok_def Cons split: if_splits)
  have h: "rg_core ?D (gate_settled (rg_gate g)) ?h"
    by (rule rg_core_release [OF i(4) w _ closed rest]) (rule others)
  have "rg_frame ?g ?h"
    by (rule releaseBarriers_frame) (use core(1) release_owner(1) [OF i(4) w] in \<open>auto simp: barriers_ok_def rg_lookup_def\<close>)
  then have fr: "rg_writes ?h = rg_writes g" "rg_waits ?h = rg_waits g" "rg_gate ?h = rg_gate g" "releases_grow g ?h"
    by (simp_all add: rg_frame_def releases_grow_def)
  have "list_all (wait_ok (rg_releases ?h)) (rg_waits ?h)"
    unfolding fr by (rule waits_grow [OF _ fr(4)]) (use i(5) in \<open>simp add: list_all_iff\<close>)
  then have "rg_inv ?h" unfolding rg_inv_def fr using i(1-3) h by blast
  then show ?thesis by (simp add: rg_catch_def Cons c Let_def)
qed (simp add: rg_catch_def inv)

lemma rg_lookup_mem:
  assumes "rg_inv g" "r \<in> set (rg_lookup g k)"
  shows "r < length (rg_releases g)" and "open_release (rg_releases g) k r"
  using assms(2) barriers_okD [OF rg_coreD(1) [OF rg_invD(4) [OF assms(1)]]] by auto

text \<open>An update of the list of waits keeps the invariant when the waits are well formed.\<close>

lemma rg_waits_inv:
  assumes "rg_inv g" "\<And>v. v \<in> set vs \<Longrightarrow> wait_ok (rg_releases g) v"
  shows "rg_inv (g\<lparr>rg_waits := vs\<rparr>)"
proof -
  have "write_open D (g\<lparr>rg_waits := vs\<rparr>) = write_open D g" for D
    by (simp add: write_open_def fun_eq_iff split: pg_promise.splits)
  then show ?thesis
    using assms by (simp add: rg_inv_def rg_core_def barriers_ok_def rg_lookup_def list_all_iff)
qed

lemma rg_newWait_ok:
  assumes "rg_inv g"
  shows "wait_ok (rg_releases g) (rg_newWait key waitMs g)"
  using rg_lookup_mem(1) [OF assms] by (auto simp: wait_ok_def rg_newWait_def Let_def)

lemma waitForRelease_inv: "rg_inv g \<Longrightarrow> rg_inv (fst (waitForRelease ref waitMs g))"
  using rg_newWait_ok rg_invD(5) by (cases ref) (auto simp: waitForRelease_def intro!: rg_waits_inv)

lemma map_Some_the: "list_all (\<lambda>x. x \<noteq> None) xs \<Longrightarrow> map Some (map the xs) = xs"
  by (induction xs) auto

lemma rg_join_inv:
  assumes inv: "rg_inv g"
  shows "rg_inv (rg_join j g)"
proof -
  let ?v = "rg_waits g ! j"
  let ?vals = "map (\<lambda>r. rl_value (rg_releases g ! r)) (rv_on ?v)"
  let ?w = "?v\<lparr>rv_timer := False, rv_result := Some (WaitReleased (map the ?vals))\<rparr>"
  have "rg_inv (g\<lparr>rg_waits := (rg_waits g)[j := ?w]\<rparr>)"
    if j: "j < length (rg_waits g)" and c: "rv_result ?v = None" "list_all (\<lambda>x. x \<noteq> None) ?vals"
  proof -
    have "wait_ok (rg_releases g) ?v" using rg_invD(5) [OF inv] j by simp
    then have "wait_ok (rg_releases g) ?w"
      using c(1) map_Some_the [OF c(2)] unfolding wait_ok_def by auto
    then show ?thesis
      by (intro rg_waits_inv inv) (auto dest!: set_update_subset_insert [THEN subsetD] intro: rg_invD(5) [OF inv])
  qed
  then show ?thesis using inv by (simp add: rg_join_def Let_def)
qed

lemma rg_waitTimer_inv:
  assumes inv: "rg_inv g"
  shows "rg_inv (rg_waitTimer j g)"
proof -
  have "rg_inv (g\<lparr>rg_waits := (rg_waits g)[j := (rg_waits g ! j)\<lparr>rv_timer := False, rv_result := Some (WaitTimedOut e)\<rparr>]\<rparr>)"
    if j: "j < length (rg_waits g)" and c: "rv_timer (rg_waits g ! j)" for e
  proof -
    have "wait_ok (rg_releases g) (rg_waits g ! j)" using rg_invD(5) [OF inv] j by simp
    then have "wait_ok (rg_releases g) ((rg_waits g ! j)\<lparr>rv_timer := False, rv_result := Some (WaitTimedOut e)\<rparr>)"
      using c unfolding wait_ok_def by auto
    then show ?thesis
      by (intro rg_waits_inv inv) (auto dest!: set_update_subset_insert [THEN subsetD] intro: rg_invD(5) [OF inv])
  qed
  then show ?thesis using inv by (simp add: rg_waitTimer_def Let_def)
qed

lemma rg_step_inv:
  assumes inv: "rg_inv g"
  shows "rg_inv (rg_step e g)"
proof (cases e)
  case (RRead key label waitMs signal now)
  let ?l = "case label of None \<Rightarrow> ''work'' | Some l \<Rightarrow> l"
  show ?thesis
    using rg_gate_step_inv(1) [OF inv, of "PNonBlocking (Some (normalizeGateKey key)) ?l waitMs signal now"]
    by (simp add: RRead rg_read_def split_def Let_def)
next
  case (RClose reason now)
  then show ?thesis using rg_gate_step_inv(1) [OF inv, of "PClose reason now"] by (simp add: rg_close_def split_def Let_def)
next
  case (RWriteWithRelease key bk bn label p waitMs rw signal now)
  then show ?thesis using waitForRelease_inv [OF rg_write_inv(1) [OF inv]] by (simp add: writeWithRelease_def split_def Let_def)
next
  case (RWait ref waitMs)
  then show ?thesis using waitForRelease_inv [OF inv] inv by (cases ref) (simp_all add: awaitBarrier_def)
qed (simp_all add: inv rg_write_inv(1) rg_gate_step_inv(1) rg_catch_inv rg_join_inv rg_waitTimer_inv)

interpretation rgs: step_system rg_step rg_inv
  by unfold_locales (rule rg_step_inv)

lemma rg_over_inv:
  assumes "pg_inv g" "gate_hooked g"
  shows "rg_inv (rg_over name g)"
  using assms by (simp add: rg_inv_def rg_over_def tasks_known_def rg_core_def barriers_ok_def rg_lookup_def
      tasks_distinct_def catches_ok_def)

lemma rg_new_inv: "rg_inv (rg_new name policy)"
  unfolding rg_new_def by (intro rg_over_inv pg_new_inv gate_hooked_new)

section \<open>What a step keeps\<close>

definition rg_keeps :: "rgate \<Rightarrow> rgate \<Rightarrow> bool" where
  "rg_keeps g h \<longleftrightarrow> releases_grow g h \<and> prefix (rg_writes g) (rg_writes h) \<and>
     prefix (map rv_on (rg_waits g)) (map rv_on (rg_waits h)) \<and> rg_name h = rg_name g"

lemma rg_keeps_refl [simp]: "rg_keeps g g"
  by (simp add: rg_keeps_def releases_grow_def)

lemma rg_keeps_trans: "rg_keeps g h \<Longrightarrow> rg_keeps h i \<Longrightarrow> rg_keeps g i"
  unfolding rg_keeps_def using releases_grow_trans prefix_order.trans by metis

lemma rg_frame_keeps: "rg_frame (g\<lparr>rg_gate := x\<rparr>) h \<Longrightarrow> rg_keeps g h"
  by (simp add: rg_frame_def rg_keeps_def releases_grow_def)

lemma waitForRelease_keeps: "rg_keeps g (fst (waitForRelease ref waitMs g))"
  by (cases ref) (simp_all add: waitForRelease_def rg_keeps_def releases_grow_def)

lemma rg_write_keeps:
  assumes "rg_inv g"
  shows "rg_keeps g (fst (rg_write key bk bn label prio waitMs signal now g))"
proof -
  note w = rg_write_inv(1-5) [OF assms, of key bk bn label prio waitMs signal now]
  have "prefix (rg_writes g) (rg_writes (fst (rg_write key bk bn label prio waitMs signal now g)))"
    using w(2) by (elim exE) simp
  then show ?thesis using w(3-5) by (simp add: rg_keeps_def)
qed

lemma rg_catch_keeps:
  assumes inv: "rg_inv g"
  shows "rg_keeps g (rg_catch g)"
proof (cases "rg_catches g")
  case (Cons c rest)
  obtain w err where c: "c = (w, err)" by (cases c)
  note i = rg_invD(4) [OF inv] and core = rg_coreD [OF rg_invD(4) [OF inv]]
  have w: "w < length (rg_writes g)" using core(5) by (simp add: Cons c catches_ok_def)
  have "rg_frame (g\<lparr>rg_catches := rest\<rparr>) (releaseBarriers (rw_releases (rg_writes g ! w)) (rw_key (rg_writes g ! w)) ''rejected'' err (g\<lparr>rg_catches := rest\<rparr>))"
    by (rule releaseBarriers_frame) (use core(1) release_owner(1) [OF i w] in \<open>auto simp: barriers_ok_def rg_lookup_def\<close>)
  then show ?thesis by (simp add: rg_catch_def Cons c Let_def rg_frame_def rg_keeps_def releases_grow_def)
qed (simp add: rg_catch_def)

lemma map_update_same: "j < length vs \<Longrightarrow> f x = f (vs ! j) \<Longrightarrow> map f (vs[j := x]) = map f vs"
  by (metis list_update_id map_update)

lemma rg_step_keeps:
  assumes inv: "rg_inv g"
  shows "rg_keeps g (rg_step e g)"
proof (cases e)
  case (RRead key label waitMs signal now)
  let ?l = "case label of None \<Rightarrow> ''work'' | Some l \<Rightarrow> l"
  show ?thesis
    using rg_frame_keeps [OF rg_gate_step_inv(2) [OF inv, of "PNonBlocking (Some (normalizeGateKey key)) ?l waitMs signal now"]]
    by (simp add: RRead rg_read_def split_def Let_def)
next
  case (RClose reason now)
  then show ?thesis
    using rg_frame_keeps [OF rg_gate_step_inv(2) [OF inv, of "PClose reason now"]] by (simp add: rg_close_def split_def Let_def)
next
  case (RWriteWithRelease key bk bn label p waitMs rw signal now)
  then show ?thesis
    using rg_keeps_trans [OF rg_write_keeps [OF inv] waitForRelease_keeps] by (simp add: writeWithRelease_def split_def Let_def)
next
  case (RWait ref waitMs)
  then show ?thesis using waitForRelease_keeps by (cases ref) (simp_all add: awaitBarrier_def)
next
  case (RJoin j)
  then show ?thesis by (simp add: rg_join_def Let_def rg_keeps_def releases_grow_def map_update_same)
next
  case (RWaitTimer j)
  then show ?thesis by (simp add: rg_waitTimer_def Let_def rg_keeps_def releases_grow_def map_update_same)
qed (simp_all add: rg_write_keeps [OF inv] rg_catch_keeps [OF inv] rg_frame_keeps [OF rg_gate_step_inv(2) [OF inv]])

lemma rg_run_keeps: "rg_inv g \<Longrightarrow> rg_keeps g (fold rg_step es g)"
  by (rule rgs.run_induct) (auto intro: rg_keeps_trans rg_step_keeps)

section \<open>Properties\<close>

text \<open>A write is under way: its task waits or holds the lock, or its refusal has not been handled.\<close>

definition write_under_way :: "rgate \<Rightarrow> nat \<Rightarrow> bool" where
  "write_under_way g w = (case rw_task (rg_writes g ! w) of
       PRefused _ \<Rightarrow> w \<in> set (map fst (rg_catches g))
     | PTask a i \<Rightarrow> i \<in> set (l_queue (pg_lock (rg_gate g) a)) \<union> set (l_running (pg_lock (rg_gate g) a)))"

definition open_releases :: "rgate \<Rightarrow> nat list" where
  "open_releases g = concat (map (\<lambda>w. if write_under_way g w then rw_releases (rg_writes g ! w) else []) [0..<length (rg_writes g)])"

lemma write_open_under_way:
  assumes inv: "rg_inv g" and w: "w < length (rg_writes g)"
  shows "write_open (gate_over (rg_gate g)) g w \<longleftrightarrow> write_under_way g w"
proof (cases "rw_task (rg_writes g ! w)")
  case (PRefused err)
  then show ?thesis by (simp add: write_open_def write_under_way_def)
next
  case (PTask a i)
  note d = rg_invD [OF inv]
  have "i \<in> dom (l_tasks (pg_lock (rg_gate g) a))" using d(3) nth_mem [OF w] PTask unfolding tasks_known_def by blast
  from gate_settled_iff(2) [OF d(1) this] show ?thesis
    by (simp add: write_open_def write_under_way_def PTask gate_hooked_over [OF d(2)])
qed

lemma open_releases_eq:
  assumes inv: "rg_inv g"
  shows "open_releases g = filter (\<lambda>r. rl_value (rg_releases g ! r) = None) [0..<length (rg_releases g)]"
proof -
  note core = rg_coreD [OF rg_invD(4) [OF inv]]
  let ?P = "\<lambda>r. rl_value (rg_releases g ! r) = None"
  have each: "filter ?P (rw_releases (rg_writes g ! w)) = (if write_under_way g w then rw_releases (rg_writes g ! w) else [])"
    if w: "w < length (rg_writes g)" for w
  proof -
    have "?P r \<longleftrightarrow> write_under_way g w" if "r \<in> set (rw_releases (rg_writes g ! w))" for r
      using core(3) [OF w that] write_open_under_way [OF inv w] by simp
    then show ?thesis by (auto simp: filter_id_conv filter_empty_conv)
  qed
  have "map rw_releases (rg_writes g) = map (\<lambda>w. rw_releases (rg_writes g ! w)) [0..<length (rg_writes g)]"
    by (intro nth_equalityI) auto
  then have "filter ?P [0..<length (rg_releases g)] = concat (map (filter ?P) (map (\<lambda>w. rw_releases (rg_writes g ! w)) [0..<length (rg_writes g)]))"
    unfolding core(2) [symmetric] by (simp add: filter_concat)
  also have "\<dots> = open_releases g" unfolding open_releases_def map_map by (rule arg_cong [of _ _ concat]) (simp add: each)
  finally show ?thesis by simp
qed

text \<open>
  C33: The barriers tell the truth. In every reachable state of a resource gate, whatever writes, reads,
  cancellations, timeouts, refusals and closings came before, the map of barriers has at most one entry per key and no empty one, and the
  entry of a key holds exactly the releases under that key of the writes that are under way: waiting in
  the queue of their lock, holding it, or refused with the handler of the refusal still to run.
\<close>

theorem barriers_are_the_writes_under_way:
  "let g = fold rg_step es (rg_new name policy) in
     distinct (map fst (rg_barriers g)) \<and> [] \<notin> set (map snd (rg_barriers g)) \<and>
     rg_lookup g k = filter (\<lambda>r. rl_barrierKey (rg_releases g ! r) = k) (open_releases g)"
proof -
  let ?g = "fold rg_step es (rg_new name policy)"
  have inv: "rg_inv ?g" by (intro rgs.run_inv rg_new_inv)
  note core = rg_coreD [OF rg_invD(4) [OF inv]]
  have "rg_lookup ?g k = filter (\<lambda>r. rl_barrierKey (rg_releases ?g ! r) = k) (open_releases ?g)"
    unfolding open_releases_eq [OF inv] barriers_okD [OF core(1)] filter_filter
    by (rule filter_cong) (auto simp: open_release_def)
  then show ?thesis using core(1) by (auto simp: Let_def barriers_ok_def)
qed

text \<open>
  Waits are exact. In every reachable state, a wait on release barriers that has settled other than by
  its timeout waits on no write that is under way and delivers what its releases resolved with; and a
  pending wait whose writes are all over settles with their values as soon as its promise is served.
\<close>

theorem release_waits_are_exact:
  "let g = fold rg_step es (rg_new name policy) in
   list_all (\<lambda>j. let v = rg_waits g ! j in
     (case rv_result v of
        None \<Rightarrow> rv_result (rg_waits (rg_join j g) ! j) =
          (if set (rv_on v) \<inter> set (open_releases g) = {}
           then Some (WaitReleased (map (\<lambda>r. the (rl_value (rg_releases g ! r))) (rv_on v))) else None)
      | Some WaitIdle \<Rightarrow> rv_on v = []
      | Some (WaitReleased vs) \<Rightarrow> set (rv_on v) \<inter> set (open_releases g) = {} \<and>
          map (\<lambda>r. rl_value (rg_releases g ! r)) (rv_on v) = map Some vs
      | Some (WaitTimedOut e) \<Rightarrow> \<not> rv_timer v)) [0..<length (rg_waits g)]"
proof -
  let ?g = "fold rg_step es (rg_new name policy)"
  have inv: "rg_inv ?g" by (intro rgs.run_inv rg_new_inv)
  note op = open_releases_eq [OF inv]
  have "case rv_result (rg_waits ?g ! j) of
        None \<Rightarrow> rv_result (rg_waits (rg_join j ?g) ! j) =
          (if set (rv_on (rg_waits ?g ! j)) \<inter> set (open_releases ?g) = {}
           then Some (WaitReleased (map (\<lambda>r. the (rl_value (rg_releases ?g ! r))) (rv_on (rg_waits ?g ! j)))) else None)
      | Some WaitIdle \<Rightarrow> rv_on (rg_waits ?g ! j) = []
      | Some (WaitReleased vs) \<Rightarrow> set (rv_on (rg_waits ?g ! j)) \<inter> set (open_releases ?g) = {} \<and>
          map (\<lambda>r. rl_value (rg_releases ?g ! r)) (rv_on (rg_waits ?g ! j)) = map Some vs
      | Some (WaitTimedOut e) \<Rightarrow> \<not> rv_timer (rg_waits ?g ! j)" if j: "j < length (rg_waits ?g)" for j
  proof -
    have v: "wait_ok (rg_releases ?g) (rg_waits ?g ! j)" using rg_invD(5) [OF inv] j by simp
    show ?thesis
    proof (cases "rv_result (rg_waits ?g ! j)")
      case None
      have "list_all (\<lambda>x. x \<noteq> None) (map (\<lambda>r. rl_value (rg_releases ?g ! r)) (rv_on (rg_waits ?g ! j))) \<longleftrightarrow>
        set (rv_on (rg_waits ?g ! j)) \<inter> set (open_releases ?g) = {}"
        using v unfolding op by (auto simp: list_all_iff wait_ok_def)
      then show ?thesis using None j by (simp add: rg_join_def Let_def comp_def)
    next
      case (Some res)
      have "set (rv_on (rg_waits ?g ! j)) \<inter> set (open_releases ?g) = {}" if "res = WaitReleased vs" for vs
        using v that Some map_Some_mem unfolding op wait_ok_def by fastforce
      then show ?thesis using v Some by (cases res) (auto simp: wait_ok_def)
    qed
  qed
  then show ?thesis by (simp add: Let_def list_all_iff)
qed

section \<open>The handle of a write\<close>

lemma rg_unique_set [simp]: "set (rg_unique xs) = set xs"
  by (simp add: rg_unique_def)

lemma normalizeGateKey_ends: "normalizeGateKey v \<noteq> [] \<and> \<not> js_white (last (normalizeGateKey v))"
proof -
  have "js_trim ''global'' = ''global''" by code_simp
  then show ?thesis using js_trim_ends by (auto simp: normalizeGateKey_def Let_def js_white_def split: option.splits)
qed

lemma js_trim_same: "xs \<noteq> [] \<Longrightarrow> \<not> js_white (hd xs) \<Longrightarrow> \<not> js_white (last xs) \<Longrightarrow> js_trim xs = xs"
  by (simp add: js_trim_def dropWhile_id hd_rev)

lemma default_key_normal:
  assumes "rg_name g = [] \<or> \<not> js_white (hd (rg_name g))"
  shows "normalizeGateKey (Some (blockingReleaseKey g key)) = blockingReleaseKey g key"
proof -
  have colon: "\<not> js_white (hd '':blocking:'')" by code_simp
  have "js_trim (blockingReleaseKey g key) = blockingReleaseKey g key"
    by (rule js_trim_same)
      (use assms normalizeGateKey_ends [of key] colon in \<open>auto simp: blockingReleaseKey_def defaultBlockingReleaseKey_def hd_append\<close>)
  moreover have "blockingReleaseKey g key \<noteq> []" by (simp add: blockingReleaseKey_def defaultBlockingReleaseKey_def)
  ultimately show ?thesis by (simp add: normalizeGateKey_def)
qed

text \<open>The write registers a barrier under the key of its handle.\<close>

lemma handle_key_registered:
  assumes "rg_name g = [] \<or> \<not> js_white (hd (rg_name g))"
  shows "releaseBarrierKey g key bk \<in> set (barrierKeys g (normalizeGateKey key)
    (case bk of ManyKeys ks \<Rightarrow> ManyKeys ks | _ \<Rightarrow> OneKey (releaseBarrierKey g key bk)))"
proof (cases bk)
  case (ManyKeys ks)
  show ?thesis
  proof (cases ks)
    case Nil
    then show ?thesis using default_key_normal [OF assms, of key] ManyKeys normalizeGateKey_ends [of "Some (blockingReleaseKey g key)"]
      by (simp add: releaseBarrierKey_def barrierKeys_def js_or_def blockingReleaseKey_def)
  next
    case (Cons k ks')
    have "k = None \<or> k = Some [] \<or> (\<exists>c. k = Some c \<and> c \<noteq> [])" by (cases k) auto
    then show ?thesis using default_key_normal [OF assms, of key] ManyKeys Cons normalizeGateKey_ends
      by (auto simp: releaseBarrierKey_def barrierKeys_def js_or_def blockingReleaseKey_def)
  qed
qed (use normalizeGateKey_ends in \<open>simp_all add: releaseBarrierKey_def barrierKeys_def\<close>)

text \<open>The new wait on a key joins every open release under it.\<close>

lemma newWait_covers:
  assumes "rg_inv g" and "r < length (rg_releases g)" and "open_release (rg_releases g) (normalizeGateKey key) r"
  shows "r \<in> set (rv_on (rg_newWait key waitMs g))"
proof -
  have "r \<in> set (rg_lookup g (normalizeGateKey key))"
    using assms barriers_okD [OF rg_coreD(1) [OF rg_invD(4) [OF assms(1)]]] by simp
  moreover have "normalizeGateKey key \<in> set (releaseLookupKeys g key)"
    using normalizeGateKey_ends by (simp add: releaseLookupKeys_def)
  ultimately show ?thesis by (force simp: rg_newWait_def Let_def)
qed

text \<open>In a later state, a write one of whose releases has resolved is over.\<close>

lemma resolved_write_over:
  assumes "rg_inv g" "w < length (rg_writes g)" "r \<in> set (rw_releases (rg_writes g ! w))" "rl_value (rg_releases g ! r) \<noteq> None"
  shows "\<not> write_under_way g w"
  using rg_coreD(3) [OF rg_invD(4) [OF assms(1)] assms(2,3)] write_open_under_way [OF assms(1,2)] assms(4) by simp

lemma prefix_nth: "prefix xs ys \<Longrightarrow> i < length xs \<Longrightarrow> ys ! i = xs ! i \<and> i < length ys"
  by (auto simp: prefix_def nth_append)

lemma handle_facts:
  assumes inv: "rg_inv g" and name: "rg_name g = [] \<or> \<not> js_white (hd (rg_name g))"
    and call: "writeWithRelease key bk bn label prio waitMs rw signal now g = (g', h)"
  obtains r where "rg_inv g'" and "rh_result h < length (rg_writes g')" and "rh_released h < length (rg_waits g')"
    and "r \<in> set (rw_releases (rg_writes g' ! rh_result h))" and "r < length (rg_releases g')"
    and "rl_value (rg_releases g' ! r) = None \<Longrightarrow> r \<in> set (rv_on (rg_waits g' ! rh_released h))"
proof -
  let ?bk = "releaseBarrierKey g key bk"
  let ?wbk = "case bk of ManyKeys ks \<Rightarrow> ManyKeys ks | _ \<Rightarrow> OneKey ?bk"
  let ?ks = "barrierKeys g (normalizeGateKey key) ?wbk" and ?n = "length (rg_releases g)"
  define g1 where "g1 = fst (rg_write key ?wbk bn label prio waitMs signal now g)"
  note w = rg_write_inv [OF inv, where key = key and bk = ?wbk and bn = bn and label = label and prio = prio and
    waitMs = waitMs and signal = signal and now = now, folded g1_def]
  have g': "g' = g1\<lparr>rg_waits := rg_waits g1 @ [rg_newWait (Some ?bk) rw g1]\<rparr>"
    "rh_released h = length (rg_waits g1)" "rh_result h = length (rg_writes g)"
    using call by (auto simp: writeWithRelease_def Let_def split_def waitForRelease_def g1_def rg_write_def)
  obtain i where i: "i < length ?ks" "?ks ! i = ?bk" using handle_key_registered [OF name] by (metis in_set_conv_nth)
  obtain p where p: "rg_writes g1 = rg_writes g @ [\<lparr>rw_task = p, rw_key = normalizeGateKey key, rw_releases = [?n..<?n + length ?ks]\<rparr>]"
    using w(2) by blast
  then have mem: "?n + i \<in> set (rw_releases (rg_writes g1 ! length (rg_writes g)))" using i(1) by simp
  have len: "?n + i < length (rg_releases g1)"
    using release_owner(1) [OF rg_invD(4) [OF w(1)] _ mem] p by simp
  have norm: "normalizeGateKey (Some ?bk) = ?bk" by (simp add: releaseBarrierKey_def)
  have key: "rl_barrierKey (rg_releases g1 ! (?n + i)) = ?bk" using w(6) [OF i(1)] i(2) by simp
  show thesis
  proof (rule that [of "?n + i"])
    show "rg_inv g'" using waitForRelease_inv [OF w(1), of "KeyRef (Some ?bk)" rw] by (simp add: g' waitForRelease_def)
    show "rl_value (rg_releases g' ! (?n + i)) = None \<Longrightarrow> ?n + i \<in> set (rv_on (rg_waits g' ! rh_released h))"
      using newWait_covers [OF w(1) len, of "Some ?bk" rw] key by (simp add: g' norm open_release_def)
  qed (use mem len p in \<open>simp_all add: g'\<close>)
qed

text \<open>
  The handle of a write is honest. Take any reachable state of a resource gate whose name does not begin
  with white space, call \<open>writeWithRelease\<close>, and let anything happen afterwards: once the
  promise \<open>released\<close> of the handle has resolved, that write is over, so a reader that awaits the handle
  never runs beside the write.
\<close>

theorem release_handle_is_honest:
  assumes "name = [] \<or> \<not> js_white (hd name)"
  shows "let (g, h) = writeWithRelease key bk bn label prio waitMs rw signal now (fold rg_step es (rg_new name policy));
      later = fold rg_step es' g
    in rh_released h < length (rg_waits later) \<and> rh_result h < length (rg_writes later) \<and>
       (case rv_result (rg_waits later ! rh_released h) of
          Some WaitIdle \<Rightarrow> \<not> write_under_way later (rh_result h)
        | Some (WaitReleased vs) \<Rightarrow> \<not> write_under_way later (rh_result h)
        | _ \<Rightarrow> True)"
proof -
  let ?g0 = "fold rg_step es (rg_new name policy)"
  obtain g h where call: "writeWithRelease key bk bn label prio waitMs rw signal now ?g0 = (g, h)"
    by (cases "writeWithRelease key bk bn label prio waitMs rw signal now ?g0")
  let ?l = "fold rg_step es' g" and ?j = "rh_released h" and ?w = "rh_result h"
  have inv0: "rg_inv ?g0" by (intro rgs.run_inv rg_new_inv)
  have "rg_name ?g0 = name" using rg_run_keeps [OF rg_new_inv [of name policy], of es] by (simp add: rg_keeps_def rg_new_def rg_over_def)
  then have name: "rg_name ?g0 = [] \<or> \<not> js_white (hd (rg_name ?g0))" using assms by simp
  obtain r where r: "rg_inv g" "?w < length (rg_writes g)" "?j < length (rg_waits g)" "r \<in> set (rw_releases (rg_writes g ! ?w))"
      "r < length (rg_releases g)" "rl_value (rg_releases g ! r) = None \<Longrightarrow> r \<in> set (rv_on (rg_waits g ! ?j))"
    using handle_facts [OF inv0 name call] by blast
  have inv: "rg_inv ?l" by (rule rgs.run_inv [OF r(1)])
  have keeps: "releases_grow g ?l" "prefix (rg_writes g) (rg_writes ?l)" "prefix (map rv_on (rg_waits g)) (map rv_on (rg_waits ?l))"
    using rg_run_keeps [OF r(1)] by (simp_all add: rg_keeps_def)
  have wl: "?w < length (rg_writes ?l)" "rg_writes ?l ! ?w = rg_writes g ! ?w" using prefix_nth [OF keeps(2) r(2)] by simp_all
  have jl: "?j < length (rg_waits ?l)" using prefix_nth [OF keeps(3), of ?j] r(3) by simp
  have on: "rv_on (rg_waits ?l ! ?j) = rv_on (rg_waits g ! ?j)"
    using prefix_nth [OF keeps(3), of ?j] r(3) jl by simp
  have v: "wait_ok (rg_releases ?l) (rg_waits ?l ! ?j)" using rg_invD(5) [OF inv] jl by simp
  have over: "\<not> write_under_way ?l ?w" if res: "rv_result (rg_waits ?l ! ?j) = Some WaitIdle \<or> rv_result (rg_waits ?l ! ?j) = Some (WaitReleased vs)" for vs
  proof (rule resolved_write_over [OF inv wl(1)])
    show "r \<in> set (rw_releases (rg_writes ?l ! ?w))" using r(4) wl(2) by simp
    show "rl_value (rg_releases ?l ! r) \<noteq> None"
    proof (cases "rl_value (rg_releases g ! r) = None")
      case True
      then have "r \<in> set (rv_on (rg_waits ?l ! ?j))" using r(6) on by simp
      then show ?thesis using v res map_Some_mem unfolding wait_ok_def by fastforce
    next
      case False
      then show ?thesis using keeps(1) r(5) by (simp add: releases_grow_def)
    qed
  qed
  then show ?thesis using jl wl(1) by (auto simp: call Let_def split: option.splits release_result.splits)
qed

section \<open>Examples\<close>

text \<open>A reader holds the lock, a write queues behind it with a handle, the reader ends, the write ends, the wait is served.\<close>

definition rg_example :: "rgate \<times> release_handle" where
  "rg_example = writeWithRelease (Some ''/repo'') (OneKey ''warm'') None (Some ''index'') 0 None None NoSignal 5
     (fold rg_step [RRead (Some ''/repo'') None None NoSignal 1] (rg_new ''repo'' ''fifo''))"

definition rg_example_later :: "rg_event list" where
  "rg_example_later = [RGate (PCall 0 (LFinish 0 (Fulfilled JsUndefined) NoHook 6)), RJoin 0,
     RGate (PCall 0 (LFinish 1 (Rejected (JsPrim ''boom'')) NoHook 9)), RJoin 0]"

lemma rg_example_values:
  "rh_result (snd rg_example) = 0" "rh_released (snd rg_example) = 0" "rh_barrierKey (snd rg_example) = ''warm''"
  "write_under_way (fst rg_example) 0"
  "rg_snapshot (fst rg_example) = ([(''/repo'', Some \<lparr>ls_activeReaders = 1, ls_activeWriter = False, ls_pendingReaders = 0, ls_pendingWriters = 1\<rparr>)],
     [(''repo:blocking:/repo'', 1), (''warm'', 1)])"
  "rv_result (rg_waits (fold rg_step (take 3 rg_example_later) (fst rg_example)) ! 0) = None"
  by code_simp+

lemma rg_example_released:
  "map rv_result (rg_waits (fold rg_step rg_example_later (fst rg_example))) =
     [Some (WaitReleased [\<lparr>ri_barrierKey = ''warm'', ri_name = ''index'', ri_resourceKey = ''/repo'', ri_key = ''/repo'',
        ri_label = ''index'', ri_status = ''rejected'', ri_error = Some (JsPrim ''boom'')\<rparr>])]"
  by code_simp

lemma release_handle_is_honest_witness:
  "\<not> write_under_way (fold rg_step rg_example_later (fst rg_example)) 0"
proof -
  have name: "''repo'' = [] \<or> \<not> js_white (hd ''repo'')" by code_simp
  note h = release_handle_is_honest [OF name, of "Some ''/repo''" "OneKey ''warm''" None "Some ''index''" 0 None None NoSignal 5
      "[RRead (Some ''/repo'') None None NoSignal 1]" "''fifo''" rg_example_later, folded rg_example_def]
  obtain g k where e: "rg_example = (g, k)" by (cases rg_example)
  have "rh_released k < length (rg_waits (fold rg_step rg_example_later g))" using h by (simp add: e Let_def)
  then have "rv_result (rg_waits (fold rg_step rg_example_later g) ! 0) = map rv_result (rg_waits (fold rg_step rg_example_later g)) ! 0"
    using rg_example_values(2) by (simp add: e)
  then show ?thesis using h rg_example_released rg_example_values(1,2) by (simp add: e Let_def)
qed

text \<open>
  The name matters: with one that begins with white space and an empty array of barrier keys, the handle
  waits under the trimmed key while the write registers the untrimmed one, and is idle at once.
\<close>

lemma blank_name_handle_is_idle:
  "let (g, h) = writeWithRelease (Some ''k'') (ManyKeys []) None None 0 None None NoSignal 5 (rg_new '' repo'' ''fifo'')
   in rv_result (rg_waits g ! rh_released h) = Some WaitIdle \<and> write_under_way g (rh_result h)"
  by code_simp

end
