(* ===== verification/ScopePaths.thy ===== *)
theory ScopePaths
  imports Prelude
begin

text \<open>
  \<open>shared/scope/functions/path.js\<close>: path normalization and scope tests. The parts of Node's
  \<open>path.posix\<close> that the module calls (\<open>normalize\<close>, \<open>isAbsolute\<close>, \<open>resolve\<close>, \<open>relative\<close>) are
  defined here on the segments of a path, as their documentation describes them.
  \<open>normalizeRoots\<close> is modelled on a POSIX host, where \<open>path\<close> is \<open>path.posix\<close>.
\<close>

section \<open>Segments\<close>

fun split_at :: "char \<Rightarrow> string \<Rightarrow> string list" where
  "split_at c [] = [[]]"
| "split_at c (x # xs) = (if x = c then [] # split_at c xs
     else (case split_at c xs of [] \<Rightarrow> [[x]] | s # ss \<Rightarrow> (x # s) # ss))"

abbreviation segs :: "string \<Rightarrow> string list" where
  "segs \<equiv> split_at (CHR ''/'')"

fun join_segs :: "string list \<Rightarrow> string" where
  "join_segs [] = []"
| "join_segs [s] = s"
| "join_segs (s # ss) = s @ CHR ''/'' # join_segs ss"

definition starts_with :: "string \<Rightarrow> string \<Rightarrow> bool" where
  "starts_with p s = (take (length p) s = p)"

lemma starts_with_iff: "starts_with p s \<longleftrightarrow> prefix p s"
  by (metis append_eq_conv_conj append_take_drop_id prefix_def starts_with_def)

lemma split_at_nonempty [simp]: "split_at c s \<noteq> []"
  by (cases s) (auto split: list.splits)

lemma split_at_append: "split_at c (xs @ c # ys) = split_at c xs @ split_at c ys"
  by (induction xs) (auto split: list.splits)

lemma split_at_no_sep: "c \<notin> set s \<Longrightarrow> split_at c s = [s]"
  by (induction s) auto

lemma split_at_segs_clean: "t \<in> set (split_at c s) \<Longrightarrow> c \<notin> set t"
proof (induction s arbitrary: t)
  case (Cons x xs)
  then show ?case
    by (cases "split_at c xs") (auto split: if_splits)
qed simp

lemma join_split [simp]: "join_segs (segs s) = s"
proof (induction s)
  case (Cons x xs)
  obtain t ts where t: "segs xs = t # ts" by (cases "segs xs") auto
  then show ?case using Cons by (cases ts) auto
qed simp

lemma join_segs_Cons: "ss \<noteq> [] \<Longrightarrow> join_segs (s # ss) = s @ CHR ''/'' # join_segs ss"
  by (cases ss) auto

lemma join_segs_append:
  "xs \<noteq> [] \<Longrightarrow> ys \<noteq> [] \<Longrightarrow> join_segs (xs @ ys) = join_segs xs @ CHR ''/'' # join_segs ys"
proof (induction xs)
  case (Cons x xs)
  then show ?case by (cases "xs = []") (auto simp: join_segs_Cons)
qed simp

lemma split_join: "ss \<noteq> [] \<Longrightarrow> \<forall>s \<in> set ss. CHR ''/'' \<notin> set s \<Longrightarrow> segs (join_segs ss) = ss"
proof (induction ss)
  case (Cons s ss)
  then show ?case by (cases "ss = []") (auto simp: join_segs_Cons split_at_append split_at_no_sep)
qed simp

lemma segs_inj: "segs a = segs b \<Longrightarrow> a = b"
  by (metis join_split)

section \<open>Node's posix paths\<close>

text \<open>\<open>normalizeString\<close>: the resolved segments, in order, with the stack kept reversed.\<close>

fun norm_segs :: "bool \<Rightarrow> string list \<Rightarrow> string list \<Rightarrow> string list" where
  "norm_segs up stack [] = rev stack"
| "norm_segs up stack (s # ss) =
     (if s = [] \<or> s = ''.'' then norm_segs up stack ss
      else if s = ''..'' then
        (case stack of
           t # ts \<Rightarrow> if t \<noteq> ''..'' then norm_segs up ts ss
                     else if up then norm_segs up (s # stack) ss else norm_segs up stack ss
         | [] \<Rightarrow> if up then norm_segs up [s] ss else norm_segs up [] ss)
      else norm_segs up (s # stack) ss)"

definition is_absolute :: "string \<Rightarrow> bool" where
  "is_absolute p = (p \<noteq> [] \<and> hd p = CHR ''/'')"

definition posix_normalize :: "string \<Rightarrow> string" where
  "posix_normalize p =
     (if p = [] then ''.''
      else let abs = is_absolute p; trailing = (last p = CHR ''/'');
               body = join_segs (norm_segs (\<not> abs) [] (segs p))
           in if body = [] then (if abs then ''/'' else if trailing then ''./'' else ''.'')
              else (if abs then ''/'' else []) @ body @ (if trailing then ''/'' else []))"

definition posix_resolve :: "string \<Rightarrow> string \<Rightarrow> string" where
  "posix_resolve pcwd p =
     (let full = (if is_absolute p then p else pcwd @ ''/'' @ p) in ''/'' @ join_segs (norm_segs False [] (segs full)))"

fun drop_common :: "string list \<Rightarrow> string list \<Rightarrow> string list \<times> string list" where
  "drop_common (x # xs) (y # ys) = (if x = y then drop_common xs ys else (x # xs, y # ys))"
| "drop_common xs ys = (xs, ys)"

definition posix_relative :: "string \<Rightarrow> string \<Rightarrow> string \<Rightarrow> string" where
  "posix_relative pcwd f t =
     (let ps = (\<lambda>p. filter (\<lambda>s. s \<noteq> []) (segs (posix_resolve pcwd p)));
          (fs, ts) = drop_common (ps f) (ps t)
      in join_segs (replicate (length fs) ''..'' @ ts))"

section \<open>Normalization\<close>

text \<open>An argument of \<open>normPath\<close>: nullish, a primitive printed as a string, or an object.\<close>

datatype path_arg = PathNone | PathText string | PathObject "(string \<times> string option) list"

fun first_path_field :: "string list \<Rightarrow> (string \<times> string option) list \<Rightarrow> string option" where
  "first_path_field [] fs = None"
| "first_path_field (k # ks) fs = (case map_of fs k of
     Some (Some v) \<Rightarrow> if js_trim v \<noteq> [] then Some v else first_path_field ks fs
   | _ \<Rightarrow> first_path_field ks fs)"

fun pathValue :: "path_arg \<Rightarrow> string option" where
  "pathValue PathNone = None"
| "pathValue (PathText s) = Some s"
| "pathValue (PathObject fs) = first_path_field [''path'', ''file'', ''file_path'', ''filepath''] fs"

definition js_lower_char :: "char \<Rightarrow> char" where
  "js_lower_char c = (let n = of_char c :: nat in
     if 65 \<le> n \<and> n \<le> 90 \<or> 192 \<le> n \<and> n \<le> 222 \<and> n \<noteq> 215 then char_of (n + 32) else c)"

definition slashes :: "string \<Rightarrow> string" where
  "slashes s = map (\<lambda>c. if c = CHR 0x5C then CHR ''/'' else c) s"

definition normText :: "bool \<Rightarrow> string \<Rightarrow> string" where
  "normText win s =
     (let normalized = posix_normalize (js_trim (slashes s));
          stripped = (if starts_with ''./'' normalized then drop 2 normalized else normalized)
      in if win then map js_lower_char stripped else stripped)"

definition normPath :: "bool \<Rightarrow> path_arg \<Rightarrow> string" where
  "normPath win p = (case pathValue p of None \<Rightarrow> [] | Some v \<Rightarrow> normText win v)"

definition strip_slashes :: "string \<Rightarrow> string" where
  "strip_slashes s = rev (dropWhile (\<lambda>c. c = CHR ''/'') (rev s))"

text \<open>\<open>WINDOWS_ABSOLUTE_RE\<close>: a drive letter, a colon and a slash, or two backslashes.\<close>

definition ascii_letter :: "char \<Rightarrow> bool" where
  "ascii_letter c = (let n = of_char c :: nat in 65 \<le> n \<and> n \<le> 90 \<or> 97 \<le> n \<and> n \<le> 122)"

fun windows_absolute :: "string \<Rightarrow> bool" where
  "windows_absolute (a # b # c # cs) =
     (ascii_letter a \<and> b = CHR '':'' \<and> (c = CHR 0x5C \<or> c = CHR ''/'') \<or> a = CHR 0x5C \<and> b = CHR 0x5C)"
| "windows_absolute [a, b] = (a = CHR 0x5C \<and> b = CHR 0x5C)"
| "windows_absolute _ = False"

text \<open>The last guards of a root: outside is dropped, the working directory is the wildcard.\<close>

fun settle_root :: "string option \<Rightarrow> string" where
  "settle_root None = []"
| "settle_root (Some n) =
     (if n = ''..'' \<or> starts_with ''../'' n \<or> is_absolute n then []
      else if n = [] \<or> n = ''.'' then ''*'' else n)"

text \<open>
  One root of \<open>normalizeRoots\<close>; \<open>pcwd\<close> is the process's working directory, which
  \<open>path.relative\<close> resolves against, and \<open>cwd\<close> the argument. \<open>root_value\<close> is the relative form
  of the root, \<open>None\<close> for a Windows path outside \<open>cwd\<close>; the empty string is filtered out.
\<close>

definition root_value :: "string \<Rightarrow> string \<Rightarrow> string \<Rightarrow> string option" where
  "root_value pcwd cwd r =
     (let raw = js_trim r; n = strip_slashes (normText False r) in
      if is_absolute raw then Some (strip_slashes (normText False (posix_relative pcwd cwd r)))
      else if windows_absolute raw then
        (let cwdNorm = strip_slashes (normText False cwd) in
         if n = cwdNorm then Some []
         else if cwdNorm \<noteq> [] \<and> starts_with (cwdNorm @ ''/'') n
         then Some (strip_slashes (drop (length cwdNorm + 1) n)) else None)
      else Some n)"

definition normalizeRoot :: "string \<Rightarrow> string \<Rightarrow> string option \<Rightarrow> string" where
  "normalizeRoot pcwd cwd r = (case r of None \<Rightarrow> []
     | Some r \<Rightarrow> if r = [] then [] else if js_trim r = ''.'' then ''*'' else settle_root (root_value pcwd cwd r))"

definition normalizeRoots :: "string \<Rightarrow> string \<Rightarrow> string option list \<Rightarrow> string list" where
  "normalizeRoots pcwd cwd roots = filter (\<lambda>r. r \<noteq> []) (map (normalizeRoot pcwd cwd) roots)"

section \<open>Scope tests\<close>

definition isCwdOrDescendantPath :: "string \<Rightarrow> bool" where
  "isCwdOrDescendantPath f \<longleftrightarrow> f = [] \<or> f = ''.'' \<or> (\<not> starts_with ''../'' f \<and> f \<noteq> ''..'' \<and> \<not> is_absolute f)"

fun isUnderRoot :: "string \<Rightarrow> string list \<Rightarrow> bool" where
  "isUnderRoot f [] = False"
| "isUnderRoot f (root # roots) =
     (if root = ''*'' then isCwdOrDescendantPath f
      else if starts_with (root @ ''/'') f then True
      else if f = root then True
      else isUnderRoot f roots)"

definition rootsOverlap :: "string \<Rightarrow> string \<Rightarrow> bool" where
  "rootsOverlap l r =
     (if l = [] \<or> r = [] then False
      else if l = ''*'' \<and> r = ''*'' then True
      else if l = ''*'' then isCwdOrDescendantPath r
      else if r = ''*'' then isCwdOrDescendantPath l
      else isUnderRoot l [r] \<or> isUnderRoot r [l])"

section \<open>What the tests decide\<close>

lemma under_prefix: "starts_with (root @ ''/'') f \<or> f = root \<longleftrightarrow> prefix (segs root) (segs f)"
proof
  assume "starts_with (root @ ''/'') f \<or> f = root"
  then show "prefix (segs root) (segs f)"
  proof
    assume "starts_with (root @ ''/'') f"
    then obtain zs where "f = root @ CHR ''/'' # zs" by (auto simp: starts_with_iff prefix_def)
    then show ?thesis by (simp add: split_at_append)
  qed simp
next
  assume "prefix (segs root) (segs f)"
  then obtain zs where zs: "segs f = segs root @ zs" by (auto simp: prefix_def)
  show "starts_with (root @ ''/'') f \<or> f = root"
  proof (cases "zs = []")
    case True
    then show ?thesis using zs segs_inj by fastforce
  next
    case False
    have "f = join_segs (segs root @ zs)" by (simp flip: zs)
    also have "\<dots> = root @ CHR ''/'' # join_segs zs" using False by (simp add: join_segs_append)
    finally show ?thesis by (simp add: starts_with_iff)
  qed
qed

text \<open>A root covers a path: as a prefix of its segments, or, for the wildcard, when it stays inside.\<close>

definition covers :: "string \<Rightarrow> string \<Rightarrow> bool" where
  "covers root f \<longleftrightarrow> (if root = ''*'' then isCwdOrDescendantPath f else prefix (segs root) (segs f))"

text \<open>What \<open>normalizeRoots\<close> promises of a root.\<close>

definition inside_root :: "string \<Rightarrow> bool" where
  "inside_root r \<longleftrightarrow> r \<noteq> [] \<and> r \<noteq> ''.'' \<and> r \<noteq> ''..'' \<and> \<not> starts_with ''../'' r \<and> \<not> is_absolute r"

lemma settle_root_inside: "settle_root n = [] \<or> inside_root (settle_root n)"
proof (cases n)
  case (Some p)
  have "inside_root ''*''" by (simp add: inside_root_def starts_with_def is_absolute_def)
  then show ?thesis using Some by (auto simp: inside_root_def)
qed simp

lemma normalizeRoot_inside: "normalizeRoot pcwd cwd r = [] \<or> inside_root (normalizeRoot pcwd cwd r)"
proof -
  have star: "inside_root ''*''" by (simp add: inside_root_def starts_with_def is_absolute_def)
  show ?thesis
    by (cases r) (use settle_root_inside star in \<open>simp_all add: normalizeRoot_def\<close>)
qed

lemma hd_segs_absolute: "is_absolute f \<longleftrightarrow> f \<noteq> [] \<and> hd (segs f) = []"
  by (cases f) (auto simp: is_absolute_def split: list.splits)

lemma hd_segs_up: "starts_with ''../'' f \<or> f = ''..'' \<longleftrightarrow> hd (segs f) = ''..''"
proof -
  have "prefix [''..''] (segs f) \<longleftrightarrow> hd (segs f) = ''..''" by (cases "segs f") auto
  then show ?thesis using under_prefix [of "''..''" f] by (simp add: split_at_no_sep)
qed

lemma inside_hd: "isCwdOrDescendantPath f \<longleftrightarrow> f = [] \<or> hd (segs f) \<noteq> ''..'' \<and> hd (segs f) \<noteq> []"
  unfolding isCwdOrDescendantPath_def using hd_segs_absolute [of f] hd_segs_up [of f]
  by (auto simp: starts_with_def is_absolute_def)

lemma inside_prefix:
  assumes "inside_root r" "prefix (segs r) (segs f)"
  shows "isCwdOrDescendantPath f"
proof -
  have "hd (segs f) = hd (segs r)" using assms(2) by (auto simp: prefix_def hd_append)
  moreover have "hd (segs r) \<noteq> ''..''" "hd (segs r) \<noteq> []"
    using assms(1) hd_segs_absolute [of r] hd_segs_up [of r] by (auto simp: inside_root_def)
  ultimately show ?thesis by (simp add: inside_hd)
qed

lemma isUnderRoot_covers:
  "list_all inside_root roots \<Longrightarrow> isUnderRoot f roots \<longleftrightarrow> list_ex (\<lambda>r. covers r f) roots"
proof (induction roots)
  case (Cons r rs)
  have IH: "isUnderRoot f rs \<longleftrightarrow> list_ex (\<lambda>r. covers r f) rs" using Cons by simp
  show ?case
  proof (cases "r = ''*''")
    case True
    have "isCwdOrDescendantPath f" if "q \<in> set rs" "covers q f" for q
      using that Cons.prems inside_prefix [of q f] by (auto simp: covers_def list_all_iff split: if_splits)
    then have "list_ex (\<lambda>r. covers r f) rs \<Longrightarrow> isCwdOrDescendantPath f" unfolding list_ex_iff by blast
    moreover have "covers r f = isCwdOrDescendantPath f" by (simp add: True covers_def)
    ultimately show ?thesis using True by auto
  next
    case False
    have "isUnderRoot f (r # rs) \<longleftrightarrow> (starts_with (r @ ''/'') f \<or> f = r) \<or> isUnderRoot f rs"
      using False by simp
    then show ?thesis using False IH by (simp add: under_prefix covers_def)
  qed
qed simp

section \<open>Canonical segments\<close>

text \<open>Leading \<open>..\<close> segments only (none when \<open>up\<close> is off), and names.\<close>

definition is_name :: "string \<Rightarrow> bool" where
  "is_name t \<longleftrightarrow> t \<noteq> [] \<and> t \<noteq> ''.'' \<and> t \<noteq> ''..''"

definition canon :: "bool \<Rightarrow> string list \<Rightarrow> bool" where
  "canon up ss \<longleftrightarrow> list_all is_name (dropWhile (\<lambda>t. up \<and> t = ''..'') ss)"

definition canon_stack :: "bool \<Rightarrow> string list \<Rightarrow> bool" where
  "canon_stack up st \<longleftrightarrow> (\<exists>names n. st = names @ replicate n ''..'' \<and> list_all is_name names \<and> (up \<or> n = 0))"

lemma canon_iff: "canon up ss \<longleftrightarrow> (\<exists>names n. ss = replicate n ''..'' @ names \<and> list_all is_name names \<and> (up \<or> n = 0))"
proof
  assume c: "canon up ss"
  let ?P = "\<lambda>t. up \<and> t = ''..''"
  have t: "takeWhile ?P ss = replicate (length (takeWhile ?P ss)) ''..''"
    by (intro replicate_eqI) (auto dest: set_takeWhileD)
  have "ss = takeWhile ?P ss @ dropWhile ?P ss" by simp
  then have "ss = replicate (length (takeWhile ?P ss)) ''..'' @ dropWhile ?P ss" using t by metis
  moreover have "up \<or> length (takeWhile ?P ss) = 0" by (cases ss) auto
  ultimately show "\<exists>names n. ss = replicate n ''..'' @ names \<and> list_all is_name names \<and> (up \<or> n = 0)"
    using c unfolding canon_def by blast
next
  assume "\<exists>names n. ss = replicate n ''..'' @ names \<and> list_all is_name names \<and> (up \<or> n = 0)"
  then obtain names n where s: "ss = replicate n ''..'' @ names" "list_all is_name names" "up \<or> n = 0" by blast
  have "dropWhile (\<lambda>t. up \<and> t = ''..'') names = names" using s(2) by (cases names) (auto simp: is_name_def)
  then have "dropWhile (\<lambda>t. up \<and> t = ''..'') ss = names" using s(1,3) by (cases up) (auto simp: dropWhile_append)
  then show "canon up ss" using s(2) by (simp add: canon_def)
qed

lemma canon_rev: "canon_stack up st \<longleftrightarrow> canon up (rev st)"
proof
  assume "canon_stack up st"
  then obtain names n where s: "st = names @ replicate n ''..''" "list_all is_name names" "up \<or> n = 0"
    unfolding canon_stack_def by blast
  then have "rev st = replicate n ''..'' @ rev names" "list_all is_name (rev names)" by (simp_all add: list_all_iff)
  then show "canon up (rev st)" unfolding canon_iff using s(3) by blast
next
  assume "canon up (rev st)"
  then obtain names n where s: "rev st = replicate n ''..'' @ names" "list_all is_name names" "up \<or> n = 0"
    unfolding canon_iff by blast
  then have "st = rev names @ replicate n ''..''" by (metis rev_append rev_replicate rev_rev_ident)
  moreover have "list_all is_name (rev names)" using s(2) by (simp add: list_all_iff)
  ultimately show "canon_stack up st" unfolding canon_stack_def using s(3) by blast
qed

lemma canon_stack_push: "canon_stack up st \<Longrightarrow> is_name s \<Longrightarrow> canon_stack up (s # st)"
proof -
  assume c: "canon_stack up st" and s: "is_name s"
  from c obtain names n where st: "st = names @ replicate n ''..''" "list_all is_name names" "up \<or> n = 0"
    unfolding canon_stack_def by blast
  have "s # st = (s # names) @ replicate n ''..''" "list_all is_name (s # names)" using st s by simp_all
  then show ?thesis unfolding canon_stack_def using st(3) by blast
qed

lemma canon_stack_pop: "canon_stack up (t # ts) \<Longrightarrow> t \<noteq> ''..'' \<Longrightarrow> canon_stack up ts"
proof -
  assume c: "canon_stack up (t # ts)" and t: "t \<noteq> ''..''"
  from c obtain names n where st: "t # ts = names @ replicate n ''..''" "list_all is_name names" "up \<or> n = 0"
    unfolding canon_stack_def by blast
  then obtain ns where n: "names = t # ns" using t by (cases names; cases n) auto
  then have "ts = ns @ replicate n ''..''" "list_all is_name ns" using st by simp_all
  then show ?thesis unfolding canon_stack_def using st(3) by blast
qed

lemma canon_stack_up: "canon_stack True st \<Longrightarrow> st = [] \<or> hd st = ''..'' \<Longrightarrow> canon_stack True (''..'' # st)"
proof -
  assume c: "canon_stack True st" and h: "st = [] \<or> hd st = ''..''"
  from c obtain names n where st: "st = names @ replicate n ''..''" "list_all is_name names"
    unfolding canon_stack_def by blast
  have "names = []" using st h by (cases names) (auto simp: is_name_def)
  then have "''..'' # st = [] @ replicate (Suc n) ''..''" using st by simp
  then show ?thesis unfolding canon_stack_def by (intro exI [where x = "[]"] exI [where x = "Suc n"]) simp
qed

lemma canon_norm_segs: "canon_stack up st \<Longrightarrow> canon up (norm_segs up st ss)"
proof (induction up st ss rule: norm_segs.induct)
  case (1 up st)
  then show ?case by (simp add: canon_rev)
next
  case (2 up st s ss)
  consider (skip) "s = [] \<or> s = ''.''" | (dots) "s = ''..''" | (name) "is_name s"
    unfolding is_name_def by blast
  then show ?case
  proof cases
    case skip
    then show ?thesis using 2 by auto
  next
    case name
    then have n: "s \<noteq> []" "s \<noteq> ''.''" "s \<noteq> ''..''" by (auto simp: is_name_def)
    then show ?thesis using "2.IH" canon_stack_push [OF "2.prems" name] by simp
  next
    case dots
    show ?thesis
    proof (cases st)
      case Nil
      then show ?thesis using dots "2.IH" "2.prems" canon_stack_up [of "[]"] by (cases up) auto
    next
      case (Cons t ts)
      show ?thesis
      proof (cases "t = ''..''")
        case False
        then show ?thesis using dots Cons "2.IH" canon_stack_pop [of up t ts] "2.prems" by auto
      next
        case True
        then show ?thesis using dots Cons "2.IH" "2.prems" canon_stack_up [of "t # ts"] by (cases up) auto
      qed
    qed
  qed
qed

lemma norm_segs_skip: "norm_segs up st ss = norm_segs up st (filter (\<lambda>t. t \<noteq> []) ss)"
  by (induction up st ss rule: norm_segs.induct) (auto split: list.splits)

lemma norm_segs_canon: "canon up (rev st @ ss) \<Longrightarrow> norm_segs up st ss = rev st @ ss"
proof (induction ss arbitrary: st)
  case (Cons s ss)
  have step: "norm_segs up (s # st) ss = rev st @ s # ss" using Cons.IH [of "s # st"] Cons.prems by simp
  obtain names n where e: "rev st @ s # ss = replicate n ''..'' @ names" "list_all is_name names" "up \<or> n = 0"
    using Cons.prems unfolding canon_iff by blast
  show ?case
  proof (cases "length st < n")
    case True
    have "(rev st @ s # ss) ! length st = s" by (metis length_rev nth_append_length)
    then have s: "s = ''..''" using e(1) True by (simp add: nth_append)
    have "rev st = replicate (length st) ''..''"
      using arg_cong [OF e(1), of "take (length st)"] True by (simp add: take_replicate)
    then have st: "st = replicate (length st) ''..''" by (metis rev_replicate rev_rev_ident)
    have "up" using e(3) True by auto
    then show ?thesis using s step st by (cases st) (auto simp: Cons_replicate_eq)
  next
    case False
    have "drop (length st) (rev st @ s # ss) = s # ss" by simp
    then have "s # ss = drop (length st - n) names" using e(1) False by simp
    then have "is_name s" using e(2) by (metis in_set_dropD list.set_intros(1) list_all_iff)
    then show ?thesis using step by (simp add: is_name_def)
  qed
qed simp

lemma norm_segs_subset: "set (norm_segs up st ss) \<subseteq> set st \<union> set ss"
  by (induction up st ss rule: norm_segs.induct) (auto split: list.splits if_splits)

lemma canon_no_slash_join:
  assumes "canon up ss" "\<forall>t \<in> set ss. CHR ''/'' \<notin> set t"
  shows "join_segs ss = [] \<longleftrightarrow> ss = []" and "ss \<noteq> [] \<Longrightarrow> last (join_segs ss) \<noteq> CHR ''/''"
    and "ss \<noteq> [] \<Longrightarrow> hd (join_segs ss) \<noteq> CHR ''/''" and "filter (\<lambda>t. t \<noteq> []) ss = ss"
proof -
  have ne: "t \<noteq> []" if "t \<in> set ss" for t
  proof -
    from assms(1) obtain names n where "ss = replicate n ''..'' @ names" "list_all is_name names"
      unfolding canon_iff by blast
    then show ?thesis using that by (auto simp: list_all_iff is_name_def in_set_replicate)
  qed
  have key: "ss \<noteq> [] \<Longrightarrow> join_segs ss \<noteq> [] \<and> last (join_segs ss) = last (last ss) \<and> hd (join_segs ss) = hd (hd ss)"
    using ne
  proof (induction ss)
    case (Cons t ts)
    then show ?case by (cases "ts = []") (auto simp: join_segs_Cons)
  qed simp
  show "join_segs ss = [] \<longleftrightarrow> ss = []" using key by auto
  show "ss \<noteq> [] \<Longrightarrow> last (join_segs ss) \<noteq> CHR ''/''"
    using key assms(2) ne by (metis last_in_set)
  show "ss \<noteq> [] \<Longrightarrow> hd (join_segs ss) \<noteq> CHR ''/''"
    using key assms(2) ne by (metis list.set_sel(1))
  show "filter (\<lambda>t. t \<noteq> []) ss = ss" using ne by (simp add: filter_id_conv)
qed

definition posix_body :: "string \<Rightarrow> string list" where
  "posix_body p = norm_segs (\<not> is_absolute p) [] (segs p)"

lemma posix_body_facts:
  "canon (\<not> is_absolute p) (posix_body p)" "\<forall>t \<in> set (posix_body p). CHR ''/'' \<notin> set t"
proof -
  have "canon_stack (\<not> is_absolute p) []" unfolding canon_stack_def by (intro exI [where x = "[]"] exI [where x = 0]) simp
  then show "canon (\<not> is_absolute p) (posix_body p)" unfolding posix_body_def by (rule canon_norm_segs)
  have "set (posix_body p) \<subseteq> set (segs p)" unfolding posix_body_def using norm_segs_subset [of _ "[]"] by fastforce
  then show "\<forall>t \<in> set (posix_body p). CHR ''/'' \<notin> set t" using split_at_segs_clean by blast
qed

text \<open>The four shapes of a normalized path.\<close>

lemma posix_normalize_shape:
  obtains "posix_normalize p \<in> {''.'', ''./'', ''/''}"
  | pre post where "posix_body p \<noteq> []" "posix_normalize p = pre @ join_segs (posix_body p) @ post"
      "pre = (if is_absolute p then ''/'' else [])" "post \<in> {[], ''/''}"
proof -
  note f = canon_no_slash_join [OF posix_body_facts]
  show thesis
  proof (cases "p = [] \<or> posix_body p = []")
    case True
    then have "posix_normalize p \<in> {''.'', ''./'', ''/''}"
      by (auto simp: posix_normalize_def Let_def posix_body_def)
    then show ?thesis by (rule that(1))
  next
    case False
    then show ?thesis
      using f(1) [of p] by (intro that(2) [of "if is_absolute p then ''/'' else []" "if last p = CHR ''/'' then ''/'' else []"])
        (auto simp: posix_normalize_def Let_def posix_body_def)
  qed
qed

lemma posix_shape_segs:
  assumes "canon (\<not> absol) ss" "\<forall>t \<in> set ss. CHR ''/'' \<notin> set t" "ss \<noteq> []"
    "q = (if absol then ''/'' else []) @ join_segs ss @ post" "post \<in> {[], ''/''}"
  shows "filter (\<lambda>t. t \<noteq> []) (segs q) = ss" and "is_absolute q = absol" and "last q = CHR ''/'' \<longleftrightarrow> post = ''/''" and "q \<noteq> []"
proof -
  note f = canon_no_slash_join [OF assms(1,2)]
  have j: "segs (join_segs ss) = ss" using split_join [OF assms(3,2)] .
  have ne: "join_segs ss \<noteq> []" using f(1) assms(3) by simp
  have tail: "segs (join_segs ss @ post) = ss @ (if post = [] then [] else [[]])"
    using assms(5) split_at_append [of "CHR ''/''" "join_segs ss" "[]"] j by auto
  have head: "segs q = (if absol then [[]] else []) @ segs (join_segs ss @ post)"
    using assms(4) split_at_append [of "CHR ''/''" "[]" "join_segs ss @ post"] by auto
  show "filter (\<lambda>t. t \<noteq> []) (segs q) = ss" unfolding head tail using f(4) by auto
  show "is_absolute q = absol" using assms(4) f(3) [OF assms(3)] ne by (auto simp: is_absolute_def hd_append)
  show "last q = CHR ''/'' \<longleftrightarrow> post = ''/''" using assms(4,5) f(2) [OF assms(3)] ne by auto
  show "q \<noteq> []" using assms(4) ne by auto
qed

lemma posix_normalize_idem: "posix_normalize (posix_normalize p) = posix_normalize p"
proof (rule posix_normalize_shape [of p])
  assume "posix_normalize p \<in> {''.'', ''./'', ''/''}"
  moreover have "posix_normalize ''.'' = ''.''" "posix_normalize ''./'' = ''./''" "posix_normalize ''/'' = ''/''"
    by code_simp+
  ultimately show ?thesis by auto
next
  fix pre post
  assume b: "posix_body p \<noteq> []" and q: "posix_normalize p = pre @ join_segs (posix_body p) @ post"
    "pre = (if is_absolute p then ''/'' else [])" and post: "post \<in> {[], ''/''}"
  let ?q = "posix_normalize p"
  note f = posix_shape_segs [OF posix_body_facts b q(1) [unfolded q(2)] post]
  have "norm_segs (\<not> is_absolute ?q) [] (segs ?q) = norm_segs (\<not> is_absolute p) [] (posix_body p)"
    using norm_segs_skip [of "\<not> is_absolute p" "[]" "segs ?q"] by (simp only: f(1,2))
  also have "\<dots> = posix_body p" using norm_segs_canon [of "\<not> is_absolute p" "[]" "posix_body p"] posix_body_facts(1) by simp
  finally have n: "norm_segs (\<not> is_absolute ?q) [] (segs ?q) = posix_body p" .
  have "join_segs (posix_body p) \<noteq> []" using canon_no_slash_join(1) [OF posix_body_facts] b by simp
  then have "posix_normalize ?q = (if is_absolute ?q then ''/'' else []) @ join_segs (posix_body p) @ (if last ?q = CHR ''/'' then ''/'' else [])"
    unfolding posix_normalize_def [of ?q] Let_def n using f(4) by simp
  then show ?thesis using f(2,3) q post by auto
qed

lemma normalized_no_dot:
  assumes b: "posix_body q \<noteq> []" and q: "posix_normalize q = pre @ join_segs (posix_body q) @ post"
    "pre = (if is_absolute q then ''/'' else [])" and post: "post \<in> {[], ''/''}"
  shows "\<not> starts_with ''./'' (posix_normalize q)"
proof
  note f = posix_shape_segs [OF posix_body_facts b q(1) [unfolded q(2)] post]
  assume "starts_with ''./'' (posix_normalize q)"
  then have "prefix [''.''] (segs (posix_normalize q))"
    using under_prefix [of "''.''" "posix_normalize q"] by (simp add: split_at_no_sep)
  then have "hd (filter (\<lambda>t. t \<noteq> []) (segs (posix_normalize q))) = ''.''" by (auto simp: prefix_def)
  then have "hd (posix_body q) = ''.''" by (simp only: f(1))
  moreover obtain names k where "posix_body q = replicate k ''..'' @ names" "list_all is_name names"
    using posix_body_facts(1) [of q] unfolding canon_iff by blast
  ultimately show False using b by (cases k; cases names) (auto simp: is_name_def)
qed

section \<open>Properties\<close>

text \<open>
  Scope checking is a test on path segments. For roots that went through \<open>normalizeRoots\<close>, a
  path is under them exactly when one of them covers it: a plain root covers the paths whose
  segments start with its own (never a sibling that merely shares a string prefix), the wildcard
  covers the paths that stay inside the working directory; the order of the roots is irrelevant,
  and no root reaches outside the working directory.
\<close>

theorem isUnderRoot_decides:
  "(isUnderRoot f (normalizeRoots pcwd cwd roots) \<longleftrightarrow>
      list_ex (\<lambda>r. if r = ''*'' then isCwdOrDescendantPath f else prefix (segs r) (segs f)) (normalizeRoots pcwd cwd roots)) \<and>
   list_all (\<lambda>r. isCwdOrDescendantPath r \<and> r \<noteq> [] \<and> r \<noteq> ''.'') (normalizeRoots pcwd cwd roots)"
proof -
  have inside: "list_all inside_root (normalizeRoots pcwd cwd roots)"
    using normalizeRoot_inside by (fastforce simp: normalizeRoots_def list_all_iff)
  have "isUnderRoot f (normalizeRoots pcwd cwd roots) \<longleftrightarrow> list_ex (\<lambda>r. covers r f) (normalizeRoots pcwd cwd roots)"
    by (rule isUnderRoot_covers [OF inside])
  then have "isUnderRoot f (normalizeRoots pcwd cwd roots) \<longleftrightarrow>
      list_ex (\<lambda>r. if r = ''*'' then isCwdOrDescendantPath f else prefix (segs r) (segs f)) (normalizeRoots pcwd cwd roots)"
    unfolding covers_def .
  moreover have "list_all (\<lambda>r. isCwdOrDescendantPath r \<and> r \<noteq> [] \<and> r \<noteq> ''.'') (normalizeRoots pcwd cwd roots)"
    using inside by (auto simp: list_all_iff inside_root_def isCwdOrDescendantPath_def)
  ultimately show ?thesis by blast
qed

text \<open>
  Two roots overlap exactly when some path lies under both, so a root-against-root lock conflict
  is reported if and only if the two jobs could write a common file; the test is symmetric.
\<close>

theorem rootsOverlap_iff_common_path:
  assumes "inside_root l" and "inside_root r"
  shows "(rootsOverlap l r \<longleftrightarrow> (\<exists>f. isUnderRoot f [l] \<and> isUnderRoot f [r])) \<and> rootsOverlap l r = rootsOverlap r l"
proof -
  have under: "isUnderRoot f [x] \<longleftrightarrow> covers x f" if "inside_root x" for x f
    using isUnderRoot_covers [of "[x]" f] that by simp
  have in_cwd: "isCwdOrDescendantPath x" if "inside_root x" for x
    using that by (auto simp: inside_root_def isCwdOrDescendantPath_def)
  have ne: "l \<noteq> []" "r \<noteq> []" using assms by (auto simp: inside_root_def)
  have star: "isCwdOrDescendantPath ''*''" by (rule in_cwd) (simp add: inside_root_def starts_with_def is_absolute_def)
  have "rootsOverlap l r \<longleftrightarrow> (\<exists>f. covers l f \<and> covers r f)"
  proof (cases "l = ''*'' \<or> r = ''*''")
    case True
    then have "rootsOverlap l r" using in_cwd [OF assms(1)] in_cwd [OF assms(2)] ne by (auto simp: rootsOverlap_def)
    moreover have "\<exists>f. covers l f \<and> covers r f"
      using True star in_cwd [OF assms(1)] in_cwd [OF assms(2)]
      by (intro exI [where x = "if l = ''*'' then r else l"]) (auto simp: covers_def)
    ultimately show ?thesis by simp
  next
    case False
    then have "rootsOverlap l r \<longleftrightarrow> prefix (segs r) (segs l) \<or> prefix (segs l) (segs r)"
      using under [OF assms(1)] under [OF assms(2)] ne by (simp add: rootsOverlap_def covers_def del: isUnderRoot.simps)
    also have "\<dots> \<longleftrightarrow> (\<exists>f. prefix (segs l) (segs f) \<and> prefix (segs r) (segs f))"
      using prefix_same_cases [of "segs l" _ "segs r"] prefix_order.dual_order.refl by blast
    finally show ?thesis using False by (simp add: covers_def)
  qed
  then have "rootsOverlap l r \<longleftrightarrow> (\<exists>f. isUnderRoot f [l] \<and> isUnderRoot f [r])"
    using under [OF assms(1)] under [OF assms(2)] by simp
  moreover have "rootsOverlap l r = rootsOverlap r l" by (auto simp: rootsOverlap_def)
  ultimately show ?thesis by blast
qed

lemma rootsOverlap_iff_common_path_witness:
  "(\<exists>f. isUnderRoot f [''src''] \<and> isUnderRoot f [''src/lib'']) \<and> \<not> (\<exists>f. isUnderRoot f [''src''] \<and> isUnderRoot f [''srcs''])"
proof -
  have i: "inside_root ''src''" "inside_root ''src/lib''" "inside_root ''srcs''"
    by (simp_all add: inside_root_def starts_with_def is_absolute_def)
  have "rootsOverlap ''src'' ''src/lib''" "\<not> rootsOverlap ''src'' ''srcs''" by code_simp+
  then show ?thesis
    using rootsOverlap_iff_common_path [OF i(1,2)] rootsOverlap_iff_common_path [OF i(1,3)] by blast
qed

text \<open>
  What \<open>normPath\<close> returns (case folding aside) is a canonical posix path: the empty string, a dot
  or a slash, or a path whose segments are leading \<open>..\<close> segments (none when it is absolute)
  followed by names, with no empty, \<open>.\<close> or inner \<open>..\<close> segment but the one after a trailing slash.
\<close>

theorem normPath_canonical:
  "let n = normPath False p; names = filter (\<lambda>t. t \<noteq> []) (segs n) in
     n \<in> {[], ''.'', ''/''} \<or>
     list_all (\<lambda>t. t \<noteq> ''.'' \<and> t \<noteq> ''..'') (dropWhile (\<lambda>t. \<not> is_absolute n \<and> t = ''..'') names)"
proof (cases "pathValue p")
  case None
  then show ?thesis by (simp add: normPath_def)
next
  case (Some v)
  define q where "q = js_trim (slashes v)"
  have n: "normPath False p = (if starts_with ''./'' (posix_normalize q) then drop 2 (posix_normalize q) else posix_normalize q)"
    by (simp add: normPath_def Some normText_def Let_def q_def)
  show ?thesis
  proof (rule posix_normalize_shape [of q])
    assume "posix_normalize q \<in> {''.'', ''./'', ''/''}"
    then have "normPath False p \<in> {[], ''.'', ''/''}" unfolding n by (auto simp: starts_with_def)
    then show ?thesis unfolding Let_def by (rule disjI1)
  next
    fix pre post
    assume b: "posix_body q \<noteq> []" and q: "posix_normalize q = pre @ join_segs (posix_body q) @ post"
      "pre = (if is_absolute q then ''/'' else [])" and post: "post \<in> {[], ''/''}"
    note f = posix_shape_segs [OF posix_body_facts b q(1) [unfolded q(2)] post]
    have no_dot: "\<not> starts_with ''./'' (posix_normalize q)" by (rule normalized_no_dot [OF b q post])
    have "canon (\<not> is_absolute (posix_normalize q)) (filter (\<lambda>t. t \<noteq> []) (segs (posix_normalize q)))"
      unfolding f(1,2) by (rule posix_body_facts(1))
    then have l: "list_all (\<lambda>t. t \<noteq> ''.'' \<and> t \<noteq> ''..'') (dropWhile (\<lambda>t. \<not> is_absolute (posix_normalize q) \<and> t = ''..'')
        (filter (\<lambda>t. t \<noteq> []) (segs (posix_normalize q))))"
      unfolding canon_def by (rule list.pred_mono_strong) (simp add: is_name_def)
    have nq: "normPath False p = posix_normalize q" using no_dot by (simp add: n)
    show ?thesis unfolding Let_def nq using l by (rule disjI2)
  qed
qed

lemma white_free_trim: "list_all (\<lambda>c. \<not> js_white c) s \<Longrightarrow> js_trim s = s"
proof -
  assume a: "list_all (\<lambda>c. \<not> js_white c) s"
  have "dropWhile js_white s = s" using a by (cases s) auto
  moreover have "dropWhile js_white (rev s) = rev s" using a by (cases "rev s") (auto simp: list_all_iff)
  ultimately show ?thesis by (simp add: js_trim_def)
qed

lemma join_segs_chars: "set (join_segs ss) \<subseteq> {CHR ''/''} \<union> (\<Union>t \<in> set ss. set t)"
  by (induction ss rule: join_segs.induct) auto

lemma split_at_chars: "t \<in> set (split_at c s) \<Longrightarrow> set t \<subseteq> set s"
proof (induction s arbitrary: t)
  case (Cons x xs)
  then show ?case by (cases "split_at c xs") (fastforce split: if_splits)+
qed simp

lemma posix_normalize_chars: "set (posix_normalize p) \<subseteq> {CHR ''/'', CHR ''.''} \<union> set p"
proof -
  have "set (posix_body p) \<subseteq> set (segs p)" unfolding posix_body_def using norm_segs_subset [of _ "[]"] by fastforce
  then have "set (join_segs (posix_body p)) \<subseteq> {CHR ''/''} \<union> set p"
    using join_segs_chars [of "posix_body p"] split_at_chars by blast
  note chars = this
  show ?thesis
  proof (rule posix_normalize_shape [of p])
    fix pre post assume "posix_normalize p = pre @ join_segs (posix_body p) @ post"
      "pre = (if is_absolute p then ''/'' else [])" "post \<in> {[], ''/''}"
    then show ?thesis using chars by auto
  qed auto
qed

text \<open>
  Normalization is stable: a path without white space whose normal form is not empty keeps its
  normal form when it is normalized again, so scopes that are compared by string equality agree
  however often they were normalized.
\<close>

theorem normPath_stable:
  assumes "list_all (\<lambda>c. \<not> js_white c) v" and "normPath False (PathText v) \<noteq> []"
  shows "normPath False (PathText (normPath False (PathText v))) = normPath False (PathText v)"
proof -
  define q where "q = js_trim (slashes v)"
  define n where "n = normPath False (PathText v)"
  have slash: "\<not> js_white (CHR ''/'')" "\<not> js_white (CHR ''.'')" by code_simp+
  have "list_all (\<lambda>c. \<not> js_white c) (slashes v)" using assms(1) slash by (auto simp: slashes_def list_all_iff)
  then have q: "q = slashes v" "list_all (\<lambda>c. \<not> js_white c) q" by (simp_all add: q_def white_free_trim)
  have n: "n = (if starts_with ''./'' (posix_normalize q) then drop 2 (posix_normalize q) else posix_normalize q)"
    by (simp add: n_def normPath_def normText_def Let_def q_def)
  have no_dot: "\<not> starts_with ''./'' (posix_normalize q)"
  proof (rule posix_normalize_shape [of q])
    assume "posix_normalize q \<in> {''.'', ''./'', ''/''}"
    then show ?thesis using assms(2) n by (auto simp: n_def [symmetric] starts_with_def)
  next
    fix pre post
    assume b: "posix_body q \<noteq> []" and s: "posix_normalize q = pre @ join_segs (posix_body q) @ post"
      "pre = (if is_absolute q then ''/'' else [])" and post: "post \<in> {[], ''/''}"
    show ?thesis by (rule normalized_no_dot [OF b s post])
  qed
  then have nq: "n = posix_normalize q" by (simp add: n)
  have "set n \<subseteq> {CHR ''/'', CHR ''.''} \<union> set q" unfolding nq by (rule posix_normalize_chars)
  then have clean: "list_all (\<lambda>c. \<not> js_white c) n" "CHR 0x5C \<notin> set n"
    using q slash by (auto simp: list_all_iff slashes_def)
  have "slashes n = n" using clean(2) by (auto simp: slashes_def intro: map_idI)
  then have "js_trim (slashes n) = n" using clean(1) by (simp add: white_free_trim)
  moreover have "posix_normalize n = n" unfolding nq by (rule posix_normalize_idem)
  ultimately have "normPath False (PathText n) = n"
    using no_dot nq by (simp add: normPath_def normText_def Let_def)
  then show ?thesis by (simp add: n_def)
qed

lemma normPath_stable_witness:
  "normPath False (PathText ''src/providers/foo.js'') = ''src/providers/foo.js'' \<and>
   normPath False (PathText (normPath False (PathText ''./src//lib/../providers/foo.js'')))
     = normPath False (PathText ''./src//lib/../providers/foo.js'')"
proof -
  have "list_all (\<lambda>c. \<not> js_white c) ''./src//lib/../providers/foo.js''"
    "normPath False (PathText ''./src//lib/../providers/foo.js'') = ''src/providers/foo.js''" by code_simp+
  with normPath_stable [of "''./src//lib/../providers/foo.js''"] show ?thesis by simp
qed

text \<open>
  \<open>normalizeRoots\<close> turns the root \<open>.\<close> into the wildcard. For the arguments of its own
  documentation example the result is \<open>["src", "*"]\<close>, where the comment says \<open>["src"]\<close> and that
  \<open>.\<close> is filtered out: such a scope covers every path of the working directory.
\<close>

theorem normalizeRoots_keeps_dot:
  "normalizeRoots ''/any'' ''/any'' [Some ''./src'', Some [], Some ''.'', None] = [''src'', ''*''] \<and>
   isUnderRoot ''docs/secret.md'' (normalizeRoots ''/any'' ''/any'' [Some ''./src'', Some [], Some ''.'', None])"
  by code_simp

end
