(* ===== verification/WorkItemOrder.thy ===== *)
theory WorkItemOrder
  imports ScopePaths
begin

text \<open>
  \<open>domains/queue/functions/work-item-order.js\<close>: the total order over unmerged work items whose
  planned write scopes overlap, and the wait that it imposes. The \<open>Map\<close> from ids to entries is
  the list of its entries in insertion order; ids are distinct in it.
\<close>

section \<open>Lock rows\<close>

record lock_row =
  lr_path :: string
  lr_kind :: string

definition lockRowsOverlap :: "lock_row \<Rightarrow> lock_row \<Rightarrow> bool" where
  "lockRowsOverlap l r =
     (if lr_kind l = ''file'' \<and> lr_kind r = ''file'' then lr_path l = lr_path r
      else if lr_kind l = ''file'' \<and> lr_kind r = ''root'' then isUnderRoot (lr_path l) [lr_path r]
      else if lr_kind l = ''root'' \<and> lr_kind r = ''file'' then isUnderRoot (lr_path r) [lr_path l]
      else if lr_kind l = ''root'' \<and> lr_kind r = ''root'' then rootsOverlap (lr_path l) (lr_path r)
      else False)"

fun findLockRowOverlap :: "lock_row list \<Rightarrow> lock_row list \<Rightarrow> (lock_row \<times> lock_row) option" where
  "findLockRowOverlap [] rs = None"
| "findLockRowOverlap (l # ls) rs =
     (case filter (lockRowsOverlap l) rs of r # _ \<Rightarrow> Some (l, r) | [] \<Rightarrow> findLockRowOverlap ls rs)"

lemma findLockRowOverlap_Some:
  "findLockRowOverlap ls rs = Some (l, r) \<Longrightarrow> l \<in> set ls \<and> r \<in> set rs \<and> lockRowsOverlap l r"
proof (induction ls)
  case (Cons x xs)
  show ?case
  proof (cases "filter (lockRowsOverlap x) rs")
    case Nil
    then show ?thesis using Cons by simp
  next
    case ov: (Cons y ys)
    have "y \<in> set (y # ys)" by simp
    then have "y \<in> set rs \<and> lockRowsOverlap x y" unfolding ov [symmetric] by simp
    then show ?thesis using ov Cons.prems by simp
  qed
qed simp

lemma findLockRowOverlap_None:
  "findLockRowOverlap ls rs = None \<longleftrightarrow> (\<forall>l \<in> set ls. \<forall>r \<in> set rs. \<not> lockRowsOverlap l r)"
  by (induction ls) (auto simp: filter_empty_conv split: list.splits)

section \<open>Entries and their key\<close>

record order_entry =
  oe_id :: int
  oe_started :: bool
  oe_first_lock_at :: string
  oe_ready :: bool
  oe_planned :: "lock_row list"
  oe_held :: "lock_row list"
  oe_merge_after :: "int list"

definition orderTier :: "order_entry \<Rightarrow> int" where
  "orderTier e = (if oe_started e then 0 else if oe_ready e then 1 else 2)"

text \<open>The order of JavaScript strings, by code units.\<close>

fun str_less :: "string \<Rightarrow> string \<Rightarrow> bool" where
  "str_less s [] = False"
| "str_less [] (d # ds) = True"
| "str_less (c # cs) (d # ds) = ((of_char c :: nat) < of_char d \<or> c = d \<and> str_less cs ds)"

definition compareOrderKey :: "order_entry \<Rightarrow> order_entry \<Rightarrow> int" where
  "compareOrderKey l r =
     (let lt = orderTier l; rt = orderTier r in
      if lt \<noteq> rt then lt - rt
      else if lt = 0 \<and> oe_first_lock_at l \<noteq> oe_first_lock_at r
      then (if str_less (oe_first_lock_at l) (oe_first_lock_at r) then - 1 else 1)
      else oe_id l - oe_id r)"

lemma str_less_irrefl: "\<not> str_less s s"
  by (induction s) auto

lemma str_less_trans: "str_less a b \<Longrightarrow> str_less b c \<Longrightarrow> str_less a c"
proof (induction a b arbitrary: c rule: str_less.induct)
  case (3 x xs y ys)
  then show ?case by (cases c) auto
next
  case (2 d ds)
  then show ?case by (cases c) auto
qed simp

lemma str_less_total: "str_less a b \<or> a = b \<or> str_less b a"
proof (induction a arbitrary: b)
  case Nil
  then show ?case by (cases b) auto
next
  case (Cons c cs)
  show ?case
  proof (cases b)
    case b: (Cons d ds)
    show ?thesis
      using Cons.IH [of ds] by (cases "of_char c :: nat" "of_char d :: nat" rule: linorder_cases) (auto simp: b)
  qed simp
qed

text \<open>The key is a strict total order on entries with distinct ids.\<close>

abbreviation key_less :: "order_entry \<Rightarrow> order_entry \<Rightarrow> bool" where
  "key_less l r \<equiv> compareOrderKey l r < 0"

lemma key_less_trans: "key_less a b \<Longrightarrow> key_less b c \<Longrightarrow> key_less a c"
  using str_less_trans [of "oe_first_lock_at a" "oe_first_lock_at b" "oe_first_lock_at c"]
    str_less_irrefl str_less_total
  by (auto simp: compareOrderKey_def Let_def split: if_splits)

lemma key_less_total: "oe_id a \<noteq> oe_id b \<Longrightarrow> key_less a b \<or> key_less b a"
  using str_less_total [of "oe_first_lock_at a" "oe_first_lock_at b"]
  by (auto simp: compareOrderKey_def Let_def)

section \<open>Building the order\<close>

text \<open>\<open>byId\<close>: entries with a positive id, the first of each id.\<close>

definition order_byId :: "order_entry list \<Rightarrow> order_entry list" where
  "order_byId entries = foldl (\<lambda>m e. if oe_id e \<le> 0 \<or> oe_id e \<in> oe_id ` set m then m else m @ [e]) [] entries"

definition hardBefore :: "order_entry list \<Rightarrow> order_entry \<Rightarrow> int list" where
  "hardBefore m e = filter (\<lambda>i. i \<noteq> oe_id e \<and> i \<in> oe_id ` set m) (oe_merge_after e)"

definition softBefore :: "order_entry list \<Rightarrow> order_entry \<Rightarrow> int list" where
  "softBefore m e = map oe_id (filter (\<lambda>h. oe_held h \<noteq> [] \<and> oe_id e \<noteq> oe_id h \<and> oe_planned e \<noteq> [] \<and>
     findLockRowOverlap (oe_held h) (oe_planned e) \<noteq> None) m)"

definition all_placed :: "int list \<Rightarrow> int list \<Rightarrow> bool" where
  "all_placed placed ids = list_all (\<lambda>i. i \<in> set placed) ids"

text \<open>The pool the next work item is taken from.\<close>

definition order_pool :: "order_entry list \<Rightarrow> int list \<Rightarrow> order_entry list \<Rightarrow> order_entry list" where
  "order_pool m placed remaining =
     (let full = filter (\<lambda>e. all_placed placed (hardBefore m e) \<and> all_placed placed (softBefore m e)) remaining;
          hard = filter (\<lambda>e. all_placed placed (hardBefore m e)) remaining
      in if full \<noteq> [] then full else if hard \<noteq> [] then hard else remaining)"

text \<open>\<open>pool.sort(...)\<close>, of which the code takes the first element.\<close>

fun pool_first :: "order_entry list \<Rightarrow> order_entry" where
  "pool_first [e] = e"
| "pool_first (e # es) = (let b = pool_first es in if key_less b e then b else e)"

lemma pool_first_in: "es \<noteq> [] \<Longrightarrow> pool_first es \<in> set es"
  by (induction es rule: pool_first.induct) (auto simp: Let_def)

lemma order_pool_in: "remaining \<noteq> [] \<Longrightarrow> order_pool m placed remaining \<noteq> [] \<and> set (order_pool m placed remaining) \<subseteq> set remaining"
  by (auto simp: order_pool_def Let_def)

function order_loop :: "order_entry list \<Rightarrow> int list \<Rightarrow> order_entry list \<Rightarrow> int list" where
  "order_loop m placed remaining =
     (if remaining = [] then placed
      else let e = pool_first (order_pool m placed remaining)
           in order_loop m (placed @ [oe_id e]) (filter (\<lambda>x. oe_id x \<noteq> oe_id e) remaining))"
  by pat_completeness auto
termination
proof (relation "measure (\<lambda>(_, _, r). length r)", simp)
  fix m placed remaining e assume r: "remaining \<noteq> []" and e: "e = pool_first (order_pool m placed remaining)"
  have "e \<in> set remaining" using order_pool_in [OF r] pool_first_in e by blast
  then have "length (filter (\<lambda>x. oe_id x \<noteq> oe_id e) remaining) < length remaining"
    by (intro length_filter_less) auto
  then show "((m, placed @ [oe_id e], filter (\<lambda>x. oe_id x \<noteq> oe_id e) remaining), (m, placed, remaining))
      \<in> measure (\<lambda>(_, _, r). length r)" by simp
qed

declare order_loop.simps [simp del]

record wi_order =
  wo_byId :: "order_entry list"
  wo_ordered :: "int list"

definition buildWorkItemOrder :: "order_entry list \<Rightarrow> wi_order" where
  "buildWorkItemOrder entries =
     (let m = order_byId entries in \<lparr>wo_byId = m, wo_ordered = order_loop m [] m\<rparr>)"

definition order_get :: "wi_order \<Rightarrow> int \<Rightarrow> order_entry option" where
  "order_get w i = find (\<lambda>e. oe_id e = i) (wo_byId w)"

text \<open>\<open>rank\<close>: the index in \<open>ordered\<close>.\<close>

fun index_of :: "'a \<Rightarrow> 'a list \<Rightarrow> nat" where
  "index_of x [] = 0"
| "index_of x (y # ys) = (if x = y then 0 else Suc (index_of x ys))"

definition order_rank :: "wi_order \<Rightarrow> int \<Rightarrow> nat option" where
  "order_rank w i = (if i \<in> set (wo_ordered w) then Some (index_of i (wo_ordered w)) else None)"

section \<open>The wait\<close>

text \<open>The key of a work item the order was built without: ready, not started.\<close>

definition new_entry :: "int \<Rightarrow> order_entry" where
  "new_entry i = \<lparr>oe_id = i, oe_started = False, oe_first_lock_at = [], oe_ready = True,
     oe_planned = [], oe_held = [], oe_merge_after = []\<rparr>"

definition order_overlap :: "lock_row list \<Rightarrow> order_entry \<Rightarrow> (lock_row \<times> lock_row) option" where
  "order_overlap planned up = (case findLockRowOverlap planned (oe_held up) of
     Some p \<Rightarrow> Some p | None \<Rightarrow> findLockRowOverlap planned (oe_planned up))"

fun first_upstream :: "wi_order \<Rightarrow> lock_row list \<Rightarrow> int list \<Rightarrow> (order_entry \<times> lock_row \<times> lock_row) option" where
  "first_upstream w planned [] = None"
| "first_upstream w planned (i # is) = (case order_get w i of
     None \<Rightarrow> first_upstream w planned is
   | Some up \<Rightarrow> (case order_overlap planned up of
       Some (l, r) \<Rightarrow> Some (up, l, r) | None \<Rightarrow> first_upstream w planned is))"

definition order_upstream_ids :: "wi_order \<Rightarrow> int \<Rightarrow> int list" where
  "order_upstream_ids w i = (case order_rank w i of
     Some n \<Rightarrow> take n (wo_ordered w)
   | None \<Rightarrow> filter (\<lambda>j. case order_get w j of None \<Rightarrow> False | Some e \<Rightarrow> key_less e (new_entry i)) (wo_ordered w))"

definition order_planned :: "wi_order \<Rightarrow> int \<Rightarrow> lock_row list \<Rightarrow> lock_row list" where
  "order_planned w i extra = (case order_get w i of None \<Rightarrow> [] | Some e \<Rightarrow> oe_planned e) @ extra"

definition findWorkItemOrderUpstream :: "wi_order \<Rightarrow> int \<Rightarrow> lock_row list \<Rightarrow> (order_entry \<times> lock_row \<times> lock_row) option" where
  "findWorkItemOrderUpstream w i extra =
     (if i \<le> 0 \<or> order_planned w i extra = [] then None
      else first_upstream w (order_planned w i extra) (order_upstream_ids w i))"

section \<open>The order is total\<close>

lemma order_byId_distinct: "distinct (map oe_id (order_byId es))"
proof -
  have "distinct (map oe_id m) \<Longrightarrow>
      distinct (map oe_id (foldl (\<lambda>m e. if oe_id e \<le> 0 \<or> oe_id e \<in> oe_id ` set m then m else m @ [e]) m es))" for m
    by (induction es arbitrary: m) auto
  then show ?thesis by (simp add: order_byId_def)
qed

lemma order_loop_set:
  "set (order_loop m placed remaining) = set placed \<union> oe_id ` set remaining"
proof (induction m placed remaining rule: order_loop.induct)
  case (1 m placed remaining)
  show ?case
  proof (cases "remaining = []")
    case True
    then show ?thesis by (subst order_loop.simps) simp
  next
    case False
    let ?e = "pool_first (order_pool m placed remaining)"
    have e: "?e \<in> set remaining" using order_pool_in [OF False] pool_first_in by blast
    have "set (order_loop m placed remaining) = insert (oe_id ?e) (set placed) \<union> oe_id ` {x \<in> set remaining. oe_id x \<noteq> oe_id ?e}"
      using "1.IH" [OF False refl] False by (subst order_loop.simps) (simp add: Let_def)
    then show ?thesis using e by auto
  qed
qed

lemma order_loop_distinct:
  "distinct placed \<Longrightarrow> set placed \<inter> oe_id ` set remaining = {} \<Longrightarrow> distinct (order_loop m placed remaining)"
proof (induction m placed remaining rule: order_loop.induct)
  case (1 m placed remaining)
  show ?case
  proof (cases "remaining = []")
    case True
    then show ?thesis using "1.prems" by (subst order_loop.simps) simp
  next
    case False
    let ?e = "pool_first (order_pool m placed remaining)"
    have e: "?e \<in> set remaining" using order_pool_in [OF False] pool_first_in by blast
    have "distinct (placed @ [oe_id ?e])" using "1.prems" e by auto
    moreover have "set (placed @ [oe_id ?e]) \<inter> oe_id ` set (filter (\<lambda>x. oe_id x \<noteq> oe_id ?e) remaining) = {}"
      using "1.prems" by auto
    ultimately have "distinct (order_loop m (placed @ [oe_id ?e]) (filter (\<lambda>x. oe_id x \<noteq> oe_id ?e) remaining))"
      by (rule "1.IH" [OF False refl])
    then show ?thesis using False by (subst order_loop.simps) (simp add: Let_def)
  qed
qed

section \<open>The constraints are respected\<close>

text \<open>
  A list keeps_order a set of constraints \<open>(a, b)\<close>, read \<open>a\<close> before \<open>b\<close>, when no element is placed
  with a predecessor of it still to come.
\<close>

fun keeps_order :: "(int \<times> int) set \<Rightarrow> int list \<Rightarrow> bool" where
  "keeps_order R [] = True"
| "keeps_order R (x # xs) = ((\<forall>y \<in> set xs. (y, x) \<notin> R) \<and> keeps_order R xs)"

lemma keeps_order_index:
  "keeps_order R xs \<Longrightarrow> distinct xs \<Longrightarrow> a \<in> set xs \<Longrightarrow> b \<in> set xs \<Longrightarrow> a \<noteq> b \<Longrightarrow> (a, b) \<in> R \<Longrightarrow> index_of a xs < index_of b xs"
  by (induction xs) auto

definition before_rel :: "(order_entry \<Rightarrow> int list) \<Rightarrow> order_entry list \<Rightarrow> (int \<times> int) set" where
  "before_rel before m = {(a, oe_id e) | a e. e \<in> set m \<and> a \<in> set (before e)}"

text \<open>With an acyclic relation some remaining entry has all its predecessors placed.\<close>

lemma acyclic_ready:
  assumes ac: "acyclic R" "finite R" and ne: "remaining \<noteq> []" and sub: "set remaining \<subseteq> set m"
    and closed: "\<And>e a. e \<in> set m \<Longrightarrow> (a, oe_id e) \<in> R \<Longrightarrow> a \<in> set placed \<union> oe_id ` set remaining"
  shows "\<exists>e \<in> set remaining. \<forall>a. (a, oe_id e) \<in> R \<longrightarrow> a \<in> set placed"
proof (rule ccontr)
  assume no: "\<not> ?thesis"
  have "wf R" using ac by (simp add: finite_acyclic_wf)
  moreover have "hd remaining \<in> set remaining" using ne by simp
  then have "oe_id (hd remaining) \<in> oe_id ` set remaining" by blast
  ultimately obtain z where z: "z \<in> oe_id ` set remaining" "\<And>y. (y, z) \<in> R \<Longrightarrow> y \<notin> oe_id ` set remaining"
    by (rule wfE_min) blast
  then obtain e where e: "e \<in> set remaining" "z = oe_id e" by auto
  with no obtain a where "(a, oe_id e) \<in> R" "a \<notin> set placed" by blast
  then show False using closed [of e a] e sub z(2) by auto
qed

text \<open>
  If every pool offers only entries whose predecessors are placed, the order keeps the relation.
\<close>

lemma order_loop_keeps:
  assumes pool: "\<And>placed remaining. remaining \<noteq> [] \<Longrightarrow> set remaining \<subseteq> set m \<Longrightarrow>
      oe_id ` set m \<subseteq> set placed \<union> oe_id ` set remaining \<Longrightarrow>
      \<forall>e \<in> set (order_pool m placed remaining). \<forall>a. (a, oe_id e) \<in> R \<longrightarrow> a \<in> set placed"
    and "set remaining \<subseteq> set m" "oe_id ` set m \<subseteq> set placed \<union> oe_id ` set remaining"
    and "distinct placed" "set placed \<inter> oe_id ` set remaining = {}"
    and "keeps_order R placed" "\<forall>x \<in> set placed. \<forall>y \<in> oe_id ` set remaining. (y, x) \<notin> R"
  shows "keeps_order R (order_loop m placed remaining)"
  using assms
proof (induction m placed remaining rule: order_loop.induct)
  case (1 m placed remaining)
  show ?case
  proof (cases "remaining = []")
    case True
    then show ?thesis using "1.prems" by (subst order_loop.simps) simp
  next
    case False
    let ?e = "pool_first (order_pool m placed remaining)"
    let ?r = "filter (\<lambda>x. oe_id x \<noteq> oe_id ?e) remaining"
    have ep: "?e \<in> set (order_pool m placed remaining)" and e: "?e \<in> set remaining"
      using order_pool_in [OF False] pool_first_in by blast+
    have pre: "\<forall>a. (a, oe_id ?e) \<in> R \<longrightarrow> a \<in> set placed"
      using "1.prems"(1) [OF False "1.prems"(2,3)] ep by blast
    have resp: "keeps_order R (xs @ [x]) \<longleftrightarrow> keeps_order R xs \<and> (\<forall>y \<in> set xs. (x, y) \<notin> R)" for xs x
      by (induction xs) auto
    have "keeps_order R (order_loop m (placed @ [oe_id ?e]) ?r)"
    proof (rule "1.IH" [OF False refl "1.prems"(1)])
      show "set ?r \<subseteq> set m" using "1.prems"(2) by auto
      show "oe_id ` set m \<subseteq> set (placed @ [oe_id ?e]) \<union> oe_id ` set ?r" using "1.prems"(3) by auto
      show "distinct (placed @ [oe_id ?e])" using "1.prems"(4,5) e by auto
      show "set (placed @ [oe_id ?e]) \<inter> oe_id ` set ?r = {}" using "1.prems"(5) by auto
      show "keeps_order R (placed @ [oe_id ?e])" using "1.prems"(6,7) e by (auto simp: resp)
      show "\<forall>x \<in> set (placed @ [oe_id ?e]). \<forall>y \<in> oe_id ` set ?r. (y, x) \<notin> R"
        using "1.prems"(5,7) pre by auto
    qed
    then show ?thesis using False by (subst order_loop.simps) (simp add: Let_def)
  qed
qed

abbreviation hard_rel :: "order_entry list \<Rightarrow> (int \<times> int) set" where
  "hard_rel m \<equiv> before_rel (hardBefore m) m"

abbreviation soft_rel :: "order_entry list \<Rightarrow> (int \<times> int) set" where
  "soft_rel m \<equiv> before_rel (softBefore m) m"

lemma before_rel_UN: "before_rel before m = (\<Union>e \<in> set m. (\<lambda>a. (a, oe_id e)) ` set (before e))"
  by (auto simp: before_rel_def)

lemma before_rel_finite: "finite (before_rel before m)"
  by (simp add: before_rel_UN)

lemma before_rel_entry:
  assumes "distinct (map oe_id m)" "e \<in> set m"
  shows "(a, oe_id e) \<in> before_rel before m \<longleftrightarrow> a \<in> set (before e)"
proof -
  have "e' = e" if "e' \<in> set m" "oe_id e' = oe_id e" for e'
    using assms that by (metis distinct_map inj_onD)
  then show ?thesis using assms(2) by (auto simp: before_rel_def)
qed

lemma before_closed:
  "a \<in> set (hardBefore m e) \<Longrightarrow> a \<in> oe_id ` set m" "a \<in> set (softBefore m e) \<Longrightarrow> a \<in> oe_id ` set m"
  by (auto simp: hardBefore_def softBefore_def)

lemma ready_exists:
  assumes d: "distinct (map oe_id m)" and ac: "acyclic (before_rel b m)"
    and cl: "\<And>e a. a \<in> set (b e) \<Longrightarrow> a \<in> oe_id ` set m"
    and r: "remaining \<noteq> []" "set remaining \<subseteq> set m" "oe_id ` set m \<subseteq> set placed \<union> oe_id ` set remaining"
  shows "filter (\<lambda>e. all_placed placed (b e)) remaining \<noteq> []"
proof -
  have "a \<in> set placed \<union> oe_id ` set remaining" if "e \<in> set m" "(a, oe_id e) \<in> before_rel b m" for e a
    using subsetD [OF r(3) cl] before_rel_entry [OF d that(1)] that(2) by blast
  then have "\<exists>e \<in> set remaining. \<forall>a. (a, oe_id e) \<in> before_rel b m \<longrightarrow> a \<in> set placed"
    by (rule acyclic_ready [OF ac before_rel_finite r(1,2)])
  then obtain e where e: "e \<in> set remaining" "\<forall>a. (a, oe_id e) \<in> before_rel b m \<longrightarrow> a \<in> set placed" by blast
  then have "\<forall>a \<in> set (b e). a \<in> set placed" using before_rel_entry [OF d] r(2) by blast
  then show ?thesis using e(1) by (auto simp: filter_empty_conv all_placed_def list_all_iff)
qed

lemma hard_pool:
  assumes d: "distinct (map oe_id m)" and ac: "acyclic (hard_rel m)"
    and r: "remaining \<noteq> []" "set remaining \<subseteq> set m" "oe_id ` set m \<subseteq> set placed \<union> oe_id ` set remaining"
  shows "\<forall>e \<in> set (order_pool m placed remaining). \<forall>a. (a, oe_id e) \<in> hard_rel m \<longrightarrow> a \<in> set placed"
proof -
  have "filter (\<lambda>e. all_placed placed (hardBefore m e)) remaining \<noteq> []"
    by (rule ready_exists [OF d ac before_closed(1) r])
  then have "\<forall>e \<in> set (order_pool m placed remaining). all_placed placed (hardBefore m e) \<and> e \<in> set remaining"
    by (auto simp: order_pool_def Let_def)
  then show ?thesis
    using before_rel_entry [OF d] r(2) by (auto simp: all_placed_def list_all_iff)
qed

lemma full_pool:
  assumes d: "distinct (map oe_id m)" and ac: "acyclic (hard_rel m \<union> soft_rel m)"
    and r: "remaining \<noteq> []" "set remaining \<subseteq> set m" "oe_id ` set m \<subseteq> set placed \<union> oe_id ` set remaining"
  shows "\<forall>e \<in> set (order_pool m placed remaining). \<forall>a. (a, oe_id e) \<in> hard_rel m \<union> soft_rel m \<longrightarrow> a \<in> set placed"
proof -
  let ?b = "\<lambda>e. hardBefore m e @ softBefore m e"
  have eq: "before_rel ?b m = hard_rel m \<union> soft_rel m" by (auto simp: before_rel_def)
  have "filter (\<lambda>e. all_placed placed (?b e)) remaining \<noteq> []"
    by (rule ready_exists [OF d ac [folded eq] _ r]) (use before_closed in auto)
  then have "filter (\<lambda>e. all_placed placed (hardBefore m e) \<and> all_placed placed (softBefore m e)) remaining \<noteq> []"
    by (simp add: all_placed_def)
  then have "\<forall>e \<in> set (order_pool m placed remaining). all_placed placed (?b e) \<and> e \<in> set remaining"
    by (auto simp: order_pool_def Let_def all_placed_def)
  then show ?thesis
    using before_rel_entry [OF d] r(2) unfolding eq [symmetric] by (auto simp: all_placed_def list_all_iff)
qed

section \<open>Properties\<close>

text \<open>
  C11: The order is total: the loop ends, and every work item of the map is placed exactly once.
\<close>

theorem order_places_every_work_item_once:
  "let w = buildWorkItemOrder entries in
     distinct (wo_ordered w) \<and> set (wo_ordered w) = oe_id ` set (wo_byId w) \<and>
     oe_id ` set (wo_byId w) = {i \<in> oe_id ` set entries. 0 < i}"
proof -
  let ?m = "order_byId entries"
  have "distinct (order_loop ?m [] ?m)" by (rule order_loop_distinct) simp_all
  moreover have "set (order_loop ?m [] ?m) = oe_id ` set ?m" by (simp add: order_loop_set)
  moreover have ids: "oe_id ` set (foldl (\<lambda>m e. if oe_id e \<le> 0 \<or> oe_id e \<in> oe_id ` set m then m else m @ [e]) m es)
      = oe_id ` set m \<union> {i \<in> oe_id ` set es. 0 < i}" for m es
  proof (induction es arbitrary: m)
    case (Cons e es)
    show ?case by (subst foldl_Cons, subst Cons.IH) auto
  qed simp
  have "oe_id ` set ?m = {i \<in> oe_id ` set entries. 0 < i}"
    unfolding order_byId_def by (subst ids) simp
  ultimately show ?thesis by (simp add: buildWorkItemOrder_def Let_def)
qed

text \<open>
  C14: Merge-order dependencies win. When the dependencies (rule 1) have no cycle, each work item is
  placed after every work item it must merge after; and when they have no cycle together with the
  lock-holding constraints (rule 2), each is also placed after every work item that holds a lock
  on what it plans to edit.
\<close>

theorem order_respects_constraints:
  fixes entries :: "order_entry list"
  defines "m \<equiv> wo_byId (buildWorkItemOrder entries)" and "order \<equiv> wo_ordered (buildWorkItemOrder entries)"
  assumes e: "e \<in> set m" and ac: "acyclic (hard_rel m)"
  shows "list_all (\<lambda>a. index_of a order < index_of (oe_id e) order) (hardBefore m e) \<and>
    (acyclic (hard_rel m \<union> soft_rel m) \<longrightarrow>
      list_all (\<lambda>a. index_of a order < index_of (oe_id e) order) (softBefore m e))"
proof -
  have m: "m = order_byId entries" and order: "order = order_loop m [] m"
    by (simp_all add: m_def order_def buildWorkItemOrder_def Let_def)
  have d: "distinct (map oe_id m)" by (simp add: m order_byId_distinct)
  have set: "set order = oe_id ` set m" "distinct order"
    by (simp_all add: order order_loop_set order_loop_distinct)
  have goal: "list_all (\<lambda>a. index_of a order < index_of (oe_id e) order) (b e)"
    if keep: "keeps_order R order" and sub: "before_rel b m \<subseteq> R" and cl: "\<And>a. a \<in> set (b e) \<Longrightarrow> a \<in> oe_id ` set m \<and> a \<noteq> oe_id e"
    for R b
  proof -
    have "index_of a order < index_of (oe_id e) order" if a: "a \<in> set (b e)" for a
    proof (rule keeps_order_index [OF keep set(2)])
      show "(a, oe_id e) \<in> R" using sub a before_rel_entry [OF d e] by blast
    qed (use cl [OF a] e set(1) in auto)
    then show ?thesis by (simp add: list_all_iff)
  qed
  have ne: "a \<in> set (hardBefore m e) \<Longrightarrow> a \<noteq> oe_id e" "a \<in> set (softBefore m e) \<Longrightarrow> a \<noteq> oe_id e" for a
    by (auto simp: hardBefore_def softBefore_def)
  have "keeps_order (hard_rel m) order"
    unfolding order by (rule order_loop_keeps) (use hard_pool [OF d ac] in auto)
  then have "list_all (\<lambda>a. index_of a order < index_of (oe_id e) order) (hardBefore m e)"
    by (rule goal [OF _ subset_refl]) (use before_closed(1) ne(1) in blast)
  moreover have "list_all (\<lambda>a. index_of a order < index_of (oe_id e) order) (softBefore m e)"
    if ac2: "acyclic (hard_rel m \<union> soft_rel m)"
  proof -
    have "keeps_order (hard_rel m \<union> soft_rel m) order"
      unfolding order by (rule order_loop_keeps) (use full_pool [OF d ac2] in auto)
    then show ?thesis by (rule goal [OF _ Un_upper2]) (use before_closed(2) ne(2) in blast)
  qed
  ultimately show ?thesis by blast
qed

definition order_example :: "order_entry list" where
  "order_example =
     [\<lparr>oe_id = 1, oe_started = True, oe_first_lock_at = ''2026-10-01'', oe_ready = True,
       oe_planned = [], oe_held = [], oe_merge_after = [2]\<rparr>,
      \<lparr>oe_id = 2, oe_started = False, oe_first_lock_at = [], oe_ready = False,
       oe_planned = [], oe_held = [\<lparr>lr_path = ''src'', lr_kind = ''root''\<rparr>], oe_merge_after = []\<rparr>,
      \<lparr>oe_id = 3, oe_started = False, oe_first_lock_at = [], oe_ready = True,
       oe_planned = [\<lparr>lr_path = ''src/a.js'', lr_kind = ''file''\<rparr>], oe_held = [], oe_merge_after = [1]\<rparr>]"

lemma order_example_byId: "wo_byId (buildWorkItemOrder order_example) = order_example"
  by (simp add: buildWorkItemOrder_def Let_def order_byId_def order_example_def)

lemma order_example_before:
  "map (\<lambda>e. (oe_id e, hardBefore order_example e, softBefore order_example e)) order_example = [(1, [2], []), (2, [], []), (3, [1], [2])]"
  by code_simp

lemma order_respects_constraints_witness:
  "index_of 1 (wo_ordered (buildWorkItemOrder order_example)) < index_of 3 (wo_ordered (buildWorkItemOrder order_example)) \<and>
   index_of 2 (wo_ordered (buildWorkItemOrder order_example)) < index_of 3 (wo_ordered (buildWorkItemOrder order_example))"
proof -
  let ?e = "order_example ! 2"
  have before: "hardBefore order_example (order_example ! 0) = [2]" "hardBefore order_example (order_example ! 1) = []"
    "hardBefore order_example ?e = [1]" "softBefore order_example (order_example ! 0) = []"
    "softBefore order_example (order_example ! 1) = []" "softBefore order_example ?e = [2]"
    "oe_id (order_example ! 0) = 1" "oe_id (order_example ! 1) = 2" "oe_id ?e = 3"
    by code_simp+
  have all: "set order_example = {order_example ! 0, order_example ! 1, ?e}" by (auto simp: order_example_def)
  have rel: "hard_rel order_example = {(2, 1), (1, 3)}" "soft_rel order_example = {(2, 3)}"
    unfolding before_rel_UN all UN_insert before by auto
  have ac: "acyclic (hard_rel order_example \<union> soft_rel order_example)" "acyclic (hard_rel order_example)"
  proof -
    have "wf (measure (\<lambda>i :: int. if i = 2 then 0 else if i = 1 then 1 else 2))" by simp
    moreover have "hard_rel order_example \<union> soft_rel order_example \<subseteq> measure (\<lambda>i :: int. if i = 2 then 0 else if i = 1 then 1 else 2)"
      unfolding rel by auto
    ultimately show "acyclic (hard_rel order_example \<union> soft_rel order_example)" by (meson acyclic_subset wf_acyclic)
    then show "acyclic (hard_rel order_example)" by (rule acyclic_subset) blast
  qed
  have "?e \<in> set order_example" by (simp add: order_example_def)
  from order_respects_constraints [of ?e order_example, unfolded order_example_byId, OF this ac(2)] ac(1)
  show ?thesis by (simp add: before)
qed

lemma find_id: "find (\<lambda>e. oe_id e = i) xs = Some e \<Longrightarrow> oe_id e = i"
  by (induction xs) (auto split: if_splits)

lemma first_upstream_Some:
  "first_upstream w planned is = Some (u, l, r) \<Longrightarrow>
   \<exists>xs ys. is = xs @ oe_id u # ys \<and> order_get w (oe_id u) = Some u \<and> order_overlap planned u = Some (l, r) \<and>
     (\<forall>i \<in> set xs. \<forall>e. order_get w i = Some e \<longrightarrow> order_overlap planned e = None)"
proof (induction "is")
  case (Cons i js)
  show ?case
  proof (cases "order_get w i")
    case None
    with Cons obtain xs ys where "js = xs @ oe_id u # ys" "order_get w (oe_id u) = Some u" "order_overlap planned u = Some (l, r)"
      "\<forall>i \<in> set xs. \<forall>e. order_get w i = Some e \<longrightarrow> order_overlap planned e = None" by auto
    with None show ?thesis by (intro exI [where x = "i # xs"] exI [where x = ys]) auto
  next
    case (Some e)
    note get = Some
    show ?thesis
    proof (cases "order_overlap planned e")
      case None
      with Cons get obtain xs ys where "js = xs @ oe_id u # ys" "order_get w (oe_id u) = Some u" "order_overlap planned u = Some (l, r)"
        "\<forall>i \<in> set xs. \<forall>e. order_get w i = Some e \<longrightarrow> order_overlap planned e = None" by auto
      with None get show ?thesis by (intro exI [where x = "i # xs"] exI [where x = ys]) auto
    next
      case (Some p)
      then have "u = e" "p = (l, r)" using Cons.prems get by (auto split: prod.splits)
      moreover have "oe_id e = i" using get find_id by (simp add: order_get_def)
      ultimately show ?thesis using Some get by (intro exI [where x = "[]"] exI [where x = js]) auto
    qed
  qed
qed simp

lemma index_of_take: "x \<in> set (take n xs) \<Longrightarrow> n \<le> length xs \<Longrightarrow> index_of x xs < n"
proof (induction xs arbitrary: n)
  case (Cons y ys)
  then show ?case by (cases n) auto
qed simp

lemma index_of_length: "index_of x xs \<le> length xs" "x \<in> set xs \<Longrightarrow> index_of x xs < length xs"
  by (induction xs) auto

text \<open>
  C19: Order waits cannot deadlock: the relation that links every work item to the upstream work item
  it is told to wait for, over all queries against one order and whatever extra rows they bring,
  has no cycle.
\<close>

theorem order_waits_acyclic:
  "acyclic {(oe_id u, i) | u i l r extra.
     findWorkItemOrderUpstream (buildWorkItemOrder entries) i extra = Some (u, l, r)}"
proof -
  let ?w = "buildWorkItemOrder entries"
  let ?f = "\<lambda>i. if i \<in> set (wo_ordered ?w) then index_of i (wo_ordered ?w) else length (wo_ordered ?w)"
  have "(oe_id u, i) \<in> measure ?f" if "findWorkItemOrderUpstream ?w i extra = Some (u, l, r)" for u i l r extra
  proof -
    from that have "first_upstream ?w (order_planned ?w i extra) (order_upstream_ids ?w i) = Some (u, l, r)"
      by (auto simp: findWorkItemOrderUpstream_def split: if_splits)
    from first_upstream_Some [OF this] have u: "oe_id u \<in> set (order_upstream_ids ?w i)" by auto
    show ?thesis
    proof (cases "i \<in> set (wo_ordered ?w)")
      case True
      then have u: "oe_id u \<in> set (take (index_of i (wo_ordered ?w)) (wo_ordered ?w))"
        using u by (simp add: order_upstream_ids_def order_rank_def)
      then have "index_of (oe_id u) (wo_ordered ?w) < index_of i (wo_ordered ?w)"
        by (rule index_of_take) (simp add: index_of_length)
      then show ?thesis using True u by (auto dest: in_set_takeD)
    next
      case False
      then have "oe_id u \<in> set (wo_ordered ?w)"
        using u by (simp add: order_upstream_ids_def order_rank_def)
      then show ?thesis using False index_of_length(2) by simp
    qed
  qed
  then have "{(oe_id u, i) | u i l r extra. findWorkItemOrderUpstream ?w i extra = Some (u, l, r)} \<subseteq> measure ?f" by auto
  then show ?thesis by (meson acyclic_subset wf_acyclic wf_measure)
qed

end
