(* ===== verification/QueueDb.thy ===== *)
theory QueueDb
  imports WorkItemOrder
begin

text \<open>
  The part of the queue database that the file-lock layer reads and writes
  (\<open>domains/queue/functions/file-locks.js\<close>, with the status lists of \<open>catalog/job.js\<close> and
  \<open>catalog/work-item.js\<close> and the tables of \<open>shared/storage/functions/legacy-core-tables.js\<close>). A
  table is the list of its rows in id order; a SQL query is a filter over it, and an update a map.
  The bookkeeping column \<open>updated_at\<close> is left out. SQL \<open>NULL\<close> text that every query reads through \<open>COALESCE(x, '')\<close> is the empty string.

  A job's payload is kept as the values the lock layer extracts from it: the \<open>_assess_only\<close> and
  \<open>task_mode:"db"\<close> flags, the declared write scope, which \<open>Scope.fromPayload\<close> (not modelled)
  normalizes, and the existing-order releases (source work item, path, lock kind). Reviewed handoffs between work items are modelled as switched off
  (\<open>reviewedHandoffsEnabled() = false\<close> and no reviewed transfer in any payload); in that
  configuration \<open>usesReviewedAdmission\<close>, \<open>hasReviewedReservation\<close> and
  \<open>blockedReviewedReservation\<close> are false and \<open>reviewedTransfers\<close> is empty.
\<close>

section \<open>Status lists\<close>

definition TERMINAL_JOB_STATUSES :: "string list" where
  "TERMINAL_JOB_STATUSES = [''succeeded'', ''failed'', ''dead_letter'', ''canceled'']"

definition PARKED_JOB_STATUSES :: "string list" where
  "PARKED_JOB_STATUSES = [''blocked'', ''waiting_on_human'', ''waiting_on_review'']"

definition LEASE_HOLDING_STATUSES :: "string list" where
  "LEASE_HOLDING_STATUSES =
     [''leased'', ''running'', ''awaiting_assessment'', ''waiting_on_human'', ''waiting_on_review'']"

definition LOCK_HOLDING_JOB_STATUSES :: "string list" where
  "LOCK_HOLDING_JOB_STATUSES = LEASE_HOLDING_STATUSES @ [''blocked'']"

definition ACTIVE_LEASE_STATUSES :: "string list" where
  "ACTIVE_LEASE_STATUSES = [''leased'', ''running'', ''awaiting_assessment'']"

definition ACTIVE_INNER_LOCK_STATUSES :: "string list" where
  "ACTIVE_INNER_LOCK_STATUSES = filter (\<lambda>s. s \<notin> set PARKED_JOB_STATUSES) LOCK_HOLDING_JOB_STATUSES"

definition DEADLOCK_TERMINAL_STATUSES :: "string list" where
  "DEADLOCK_TERMINAL_STATUSES = filter (\<lambda>s. s \<noteq> ''succeeded'') TERMINAL_JOB_STATUSES"

definition JOB_LOCK_RELEASE_STATUSES :: "string list" where
  "JOB_LOCK_RELEASE_STATUSES = ''queued'' # PARKED_JOB_STATUSES @ TERMINAL_JOB_STATUSES"

definition UNRESOLVED_SCOPE_STATUSES :: "string list" where
  "UNRESOLVED_SCOPE_STATUSES = ''queued'' # LOCK_HOLDING_JOB_STATUSES"

definition QUEUE_LOCKING_JOB_TYPES :: "string list" where
  "QUEUE_LOCKING_JOB_TYPES = [''dev'', ''fix'', ''promote'']"

definition MUTATING_JOB_TYPES :: "string list" where
  "MUTATING_JOB_TYPES = [''dev'', ''fix'', ''artificer'', ''promote'']"

definition QUEUED_REPAIR_LOCK_JOB_TYPES :: "string list" where
  "QUEUED_REPAIR_LOCK_JOB_TYPES = [''fix'', ''promote'']"

definition UNMERGED_WORK_ITEM_MERGE_STATES :: "string list" where
  "UNMERGED_WORK_ITEM_MERGE_STATES = [''pending_review'', ''merge_authorized'', ''merge_failed'']"

definition WI_LOCK_RELEASE_STATUSES :: "string list" where
  "WI_LOCK_RELEASE_STATUSES = [''failed'', ''canceled'']"

lemma active_inner_statuses: "set ACTIVE_INNER_LOCK_STATUSES = {''leased'', ''running'', ''awaiting_assessment''}"
  by (simp add: ACTIVE_INNER_LOCK_STATUSES_def LOCK_HOLDING_JOB_STATUSES_def LEASE_HOLDING_STATUSES_def PARKED_JOB_STATUSES_def)

section \<open>Tables\<close>

record job_scope =
  js_files :: "string list"
  js_roots :: "string list"
  js_unknown :: bool

text \<open>The columns of \<open>jobs\<close> and the payload fields that leases and attempts use, beside the lock layer's.\<close>

record job_more =
  jm_finished_at :: "string option"
  jm_last_error :: "string option"
  jm_state_version :: nat
  jm_created_at :: string
  jm_assess_count :: nat
  jm_assess_state :: string
  jm_assess_error :: "string option"
  jm_assess_completed_at :: "string option"
  jm_assess_max :: "nat option"
  jm_max_attempts :: nat
  jm_model_tier :: string
  jm_model_name :: "string option"
  jm_retry_generation :: "nat option"
  jm_skip_assessment :: bool
  jm_repeat_key :: "string option"
  jm_review_correction :: bool

definition job_more_new :: "string \<Rightarrow> job_more" where
  "job_more_new ts = \<lparr>jm_finished_at = None, jm_last_error = None, jm_state_version = 0, jm_created_at = ts, jm_assess_count = 0,
     jm_assess_state = ''not_started'', jm_assess_error = None, jm_assess_completed_at = None, jm_assess_max = None,
     jm_max_attempts = 3, jm_model_tier = ''standard'', jm_model_name = None, jm_retry_generation = None,
     jm_skip_assessment = False, jm_repeat_key = None, jm_review_correction = False\<rparr>"

record job =
  jb_id :: nat
  jb_wi :: nat
  jb_type :: string
  jb_status :: string
  jb_parent :: "nat option"
  jb_attempt_count :: nat
  jb_verdict :: string
  jb_ready_at :: string
  jb_assess_only :: bool
  jb_db_only :: bool
  jb_scope :: job_scope
  jb_claims :: "(nat \<times> string \<times> string) list"
  jb_lease_owner :: "string option"
  jb_lease_token :: "string option"
  jb_lease_expires_at :: string
  jb_more :: job_more

text \<open>An entry of \<open>cross_wi_merge_dependencies\<close> in the metadata of a work item, as stored.\<close>

record merge_dep =
  md_source :: nat
  md_path :: string
  md_kind :: "string option"
  md_branch :: "string option"
  md_lock :: "nat option"
  md_via :: "nat option"
  md_created :: string

record work_item =
  wi_id :: nat
  wi_status :: string
  wi_branch_name :: string
  wi_merge_state :: string
  wi_merge_deps :: "merge_dep list"

text \<open>\<open>work_item_file_locks\<close> and \<open>job_file_locks\<close>; \<open>None\<close> is a \<open>NULL\<close> \<open>released_at\<close>.\<close>

record wi_lock =
  wl_wi :: nat
  wl_path :: string
  wl_kind :: string
  wl_source :: "nat option"
  wl_token :: "string option"
  wl_acquired_at :: string
  wl_released :: "(string \<times> string) option"

record job_lock =
  jl_job :: nat
  jl_wi :: nat
  jl_path :: string
  jl_kind :: string
  jl_acquired_at :: string
  jl_released :: "(string \<times> string) option"

record dep_row =
  dp_job :: nat
  dp_on :: nat
  dp_kind :: string

record gate_row =
  gt_job :: nat
  gt_state :: string
  gt_kind :: string
  gt_action :: string
  gt_review_type :: "string option"
  gt_json :: bool
  gt_rejection :: bool
  gt_original :: nat

text \<open>\<open>job_attempts\<close>, \<open>human_gate_outbox\<close> and \<open>scheduler_locks\<close>.\<close>

record attempt_metrics =
  am_prompt_chars :: "nat option"
  am_output_chars :: "nat option"
  am_input_tokens :: "nat option"
  am_output_tokens :: "nat option"
  am_prompt_artifact :: "nat option"
  am_output_artifact :: "nat option"
  am_notes :: "string option"

record attempt =
  at_id :: nat
  at_job :: nat
  at_number :: nat
  at_kind :: string
  at_worker :: string
  at_model :: "string option"
  at_effort :: "string option"
  at_status :: string
  at_started_at :: string
  at_finished_at :: "string option"
  at_duration :: "int option"
  at_error :: "string option"
  at_metrics :: attempt_metrics
  at_commit :: "string option"
  at_commit_base :: "string option"
  at_session :: "nat option \<times> string option \<times> nat option"

record gate_effect =
  ge_id :: nat
  ge_gate :: nat
  ge_key :: string
  ge_type :: string
  ge_original :: nat
  ge_reason :: string
  ge_source_status :: string
  ge_state :: string
  ge_outcome :: "string option"
  ge_settled_at :: "string option"
  ge_completed_at :: "string option"
  ge_attempts :: nat
  ge_error :: "string option"

record sched_lock =
  sl_name :: string
  sl_owner :: string
  sl_acquired_at :: string
  sl_expires_at :: string

record qdb =
  db_jobs :: "job list"
  db_wis :: "work_item list"
  db_wi_locks :: "wi_lock list"
  db_job_locks :: "job_lock list"
  db_deps :: "dep_row list"
  db_gates :: "gate_row list"
  db_budget_paused :: "nat list"
  db_attempts :: "attempt list"
  db_outbox :: "gate_effect list"
  db_sched_locks :: "sched_lock list"

definition get_job :: "qdb \<Rightarrow> nat \<Rightarrow> job option" where
  "get_job d i = find (\<lambda>j. jb_id j = i) (db_jobs d)"

definition get_wi :: "qdb \<Rightarrow> nat \<Rightarrow> work_item option" where
  "get_wi d i = find (\<lambda>w. wi_id w = i) (db_wis d)"

section \<open>Jobs and scopes\<close>

definition jobCanUseAssessmentBarrier :: "job \<Rightarrow> bool" where
  "jobCanUseAssessmentBarrier j \<longleftrightarrow> jb_type j \<in> set QUEUE_LOCKING_JOB_TYPES \<and> \<not> jb_db_only j"

definition jobNeedsAssessmentBarrier :: "job \<Rightarrow> bool" where
  "jobNeedsAssessmentBarrier j \<longleftrightarrow>
     jobCanUseAssessmentBarrier j \<and> (jb_assess_only j \<or> jb_status j = ''awaiting_assessment'')"

definition jobNeedsWriteLocks :: "job \<Rightarrow> bool" where
  "jobNeedsWriteLocks j = jobCanUseAssessmentBarrier j"

definition hasWriteScope :: "job_scope \<Rightarrow> bool" where
  "hasWriteScope s \<longleftrightarrow> js_files s \<noteq> [] \<or> js_roots s \<noteq> []"

definition whole_repo_scope :: "bool \<Rightarrow> job_scope" where
  "whole_repo_scope unknown = \<lparr>js_files = [], js_roots = [''*''], js_unknown = unknown\<rparr>"

definition getJobPathTouchScope :: "job \<Rightarrow> job_scope" where
  "getJobPathTouchScope j =
     (if jobNeedsWriteLocks j \<and> \<not> hasWriteScope (jb_scope j) then whole_repo_scope True else jb_scope j)"

definition getJobWriteScope :: "job \<Rightarrow> job_scope" where
  "getJobWriteScope j =
     (if jobNeedsAssessmentBarrier j then whole_repo_scope False
      else if jobNeedsWriteLocks j \<and> \<not> hasWriteScope (jb_scope j) then whole_repo_scope True
      else jb_scope j)"

definition scopeToLockRows :: "job_scope \<Rightarrow> lock_row list" where
  "scopeToLockRows s = map (\<lambda>p. \<lparr>lr_path = p, lr_kind = ''file''\<rparr>) (js_files s)
     @ map (\<lambda>p. \<lparr>lr_path = p, lr_kind = ''root''\<rparr>) (js_roots s)"

definition lower_text :: "string \<Rightarrow> string" where
  "lower_text s = map js_lower_char s"

definition drive_path :: "string \<Rightarrow> bool" where
  "drive_path s = (case s of a # b # c # _ \<Rightarrow> ascii_letter a \<and> b = CHR '':'' \<and> c = CHR ''/'' | _ \<Rightarrow> False)"

definition normalizeLockPath :: "bool \<Rightarrow> string \<Rightarrow> string" where
  "normalizeLockPath win value =
     (let s1 = slashes value;
          s2 = (if starts_with ''./'' s1 then drop 2 s1 else s1);
          n = js_trim (strip_slashes s2);
          first = lower_text (hd (segs n))
      in if n = [] then []
         else if n \<noteq> ''*'' \<and> (is_absolute n \<or> drive_path n \<or> list_ex (\<lambda>p. p = ''..'' \<or> p = ''.'') (segs n)) then []
         else if first = ''.posse'' \<or> first = ''.posse-worktrees'' \<or> first = ''posse-worktrees'' \<or> starts_with ''.posse-'' first then []
         else if win then lower_text n else n)"

definition lockRowsTouchPath :: "lock_row list \<Rightarrow> string \<Rightarrow> string \<Rightarrow> bool" where
  "lockRowsTouchPath rows path kind = list_ex (lockRowsOverlap \<lparr>lr_path = path, lr_kind = kind\<rparr>) rows"

definition jobScopeTouchesPath :: "job \<Rightarrow> string \<Rightarrow> string \<Rightarrow> bool" where
  "jobScopeTouchesPath j path kind \<longleftrightarrow> jobNeedsWriteLocks j \<and> hasWriteScope (getJobPathTouchScope j) \<and>
     lockRowsTouchPath (scopeToLockRows (getJobPathTouchScope j)) path kind"

section \<open>Queries over the job graph\<close>

text \<open>
  \<open>ancestorJobIdsForJob\<close>: the parent chain, stopped at a repeated id. Every step adds a new id
  that is the parent of some job, so as many steps as there are jobs, and one, are enough.
\<close>

fun ancestor_walk :: "nat \<Rightarrow> qdb \<Rightarrow> nat list \<Rightarrow> nat option \<Rightarrow> nat list" where
  "ancestor_walk 0 d ids p = ids"
| "ancestor_walk (Suc n) d ids None = ids"
| "ancestor_walk (Suc n) d ids (Some p) =
     (if p \<in> set ids then ids
      else ancestor_walk n d (ids @ [p]) (case get_job d p of None \<Rightarrow> None | Some j \<Rightarrow> jb_parent j))"

definition ancestorJobIdsForJob :: "qdb \<Rightarrow> job \<Rightarrow> nat list" where
  "ancestorJobIdsForJob d j = ancestor_walk (Suc (Suc (length (db_jobs d)))) d [] (jb_parent j)"

text \<open>
  Closure of a set of ids under an edge function, a breadth-first walk: \<open>n\<close> bounds the number of
  rounds, each of which adds an id or ends the walk.
\<close>

fun closure :: "nat \<Rightarrow> (nat \<Rightarrow> nat list) \<Rightarrow> nat list \<Rightarrow> nat list" where
  "closure 0 f ids = ids"
| "closure (Suc n) f ids =
     (let new = filter (\<lambda>x. x \<notin> set ids) (concat (map f ids))
      in if new = [] then ids else closure n f (remdups (ids @ new)))"

text \<open>The recursive query of \<open>unmetHardDependencyPredecessorJobIdsForJob\<close>.\<close>

definition hard_predecessors :: "qdb \<Rightarrow> nat \<Rightarrow> nat list" where
  "hard_predecessors d i = map dp_on (filter (\<lambda>e. dp_job e = i \<and> dp_kind e = ''hard'') (db_deps d))"

definition unmetHardDependencyPredecessorJobIdsForJob :: "qdb \<Rightarrow> job \<Rightarrow> nat list" where
  "unmetHardDependencyPredecessorJobIdsForJob d j =
     filter (\<lambda>i. case get_job d i of None \<Rightarrow> False | Some p \<Rightarrow> jb_status p \<noteq> ''succeeded'')
       (closure (length (db_deps d)) (hard_predecessors d) (remdups (hard_predecessors d (jb_id j))))"

definition queuedCohortJobIdsForJob :: "qdb \<Rightarrow> job \<Rightarrow> nat list" where
  "queuedCohortJobIdsForJob d j = (case jb_parent j of None \<Rightarrow> []
     | Some p \<Rightarrow> map jb_id (filter (\<lambda>s. jb_parent s = Some p \<and> jb_id s \<noteq> jb_id j \<and> jb_status s = ''queued'' \<and>
         jb_type s \<in> set QUEUE_LOCKING_JOB_TYPES) (db_jobs d)))"

definition queued_dependents :: "qdb \<Rightarrow> nat \<Rightarrow> nat \<Rightarrow> nat list" where
  "queued_dependents d self i = filter (\<lambda>x. x \<noteq> self \<and>
       (case get_job d x of None \<Rightarrow> False | Some j \<Rightarrow> jb_status j = ''queued''))
     (map dp_job (filter (\<lambda>e. dp_on e = i) (db_deps d)))"

definition queuedDependentJobIdsForJob :: "qdb \<Rightarrow> job \<Rightarrow> nat list" where
  "queuedDependentJobIdsForJob d j =
     closure (length (db_deps d)) (queued_dependents d (jb_id j)) (remdups (queued_dependents d (jb_id j) (jb_id j)))"

end
