(* ===== verification/FileLocks.thy ===== *)
theory FileLocks
  imports QueueDb
begin

text \<open>
  \<open>domains/queue/functions/file-locks.js\<close>: which locks are active, when a job's write scope
  conflicts with them, taking a lease together with its locks, taking a lock at tool time, and
  releasing locks. The work-item order is an argument of the conflict test, as in the code, where
  a snapshot may carry it; the theory WorkItemParking computes it from the database. Events and
  wake-ups are left out; the table of lane waits is the subject of the theory LaneWaits.
\<close>

section \<open>Active locks\<close>

text \<open>A lock as the conflict test sees it, of a work item or of a job.\<close>

record lock_view =
  lv_wi :: nat
  lv_job :: "nat option"
  lv_row :: lock_row
  lv_job_status :: string
  lv_barrier :: bool

text \<open>The condition of the queries; \<open>TRIM\<close> and \<open>trim()\<close> agree on a branch name.\<close>

definition wi_holds_locks :: "work_item \<Rightarrow> bool" where
  "wi_holds_locks w \<longleftrightarrow>
     wi_status w \<notin> set WI_LOCK_RELEASE_STATUSES \<and>
     (wi_status w \<noteq> ''complete'' \<or>
       js_trim (wi_branch_name w) \<noteq> [] \<and> wi_merge_state w \<in> set UNMERGED_WORK_ITEM_MERGE_STATES) \<and>
     wi_merge_state w \<noteq> ''merged''"

definition wi_active :: "qdb \<Rightarrow> nat \<Rightarrow> bool" where
  "wi_active d i = (case get_wi d i of None \<Rightarrow> False | Some w \<Rightarrow> wi_holds_locks w)"

definition wl_row :: "wi_lock \<Rightarrow> lock_row" where
  "wl_row l = \<lparr>lr_path = wl_path l, lr_kind = wl_kind l\<rparr>"

definition wi_lock_active :: "qdb \<Rightarrow> wi_lock \<Rightarrow> bool" where
  "wi_lock_active d l \<longleftrightarrow> wl_released l = None \<and> wi_active d (wl_wi l) \<and>
     (case wl_source l of None \<Rightarrow> True
      | Some i \<Rightarrow> (case get_job d i of None \<Rightarrow> False | Some j \<Rightarrow> jb_type j \<in> set QUEUE_LOCKING_JOB_TYPES))"

definition activeWiLocks :: "qdb \<Rightarrow> lock_view list" where
  "activeWiLocks d = map (\<lambda>l. \<lparr>lv_wi = wl_wi l, lv_job = wl_source l, lv_row = wl_row l,
       lv_job_status = (case wl_source l of None \<Rightarrow> [] | Some i \<Rightarrow> (case get_job d i of None \<Rightarrow> [] | Some j \<Rightarrow> jb_status j)),
       lv_barrier = False\<rparr>)
     (filter (wi_lock_active d) (db_wi_locks d))"

definition isActiveInnerLockJob :: "job \<Rightarrow> bool" where
  "isActiveInnerLockJob j \<longleftrightarrow> jobNeedsWriteLocks j \<and>
     (if jobNeedsAssessmentBarrier j then jb_status j \<in> set ACTIVE_LEASE_STATUSES
      else jb_status j \<in> set ACTIVE_INNER_LOCK_STATUSES \<or>
        jb_status j = ''queued'' \<and> (jb_type j \<in> set QUEUED_REPAIR_LOCK_JOB_TYPES \<or> 0 < jb_attempt_count j))"

definition job_lock_views :: "bool \<Rightarrow> job \<Rightarrow> lock_view list" where
  "job_lock_views touch j =
     (let scope = (if touch then getJobPathTouchScope j else getJobWriteScope j) in
      map (\<lambda>row. \<lparr>lv_wi = jb_wi j, lv_job = Some (jb_id j), lv_row = row, lv_job_status = jb_status j,
        lv_barrier = jobNeedsAssessmentBarrier j\<rparr>) (scopeToLockRows (scope\<lparr>js_files := remdups (js_files scope)\<rparr>)))"

definition activeJobLocks :: "qdb \<Rightarrow> nat option \<Rightarrow> bool \<Rightarrow> lock_view list" where
  "activeJobLocks d wi touch =
     concat (map (job_lock_views touch)
       (filter isActiveInnerLockJob
         (filter (\<lambda>j. jb_type j \<in> set QUEUE_LOCKING_JOB_TYPES \<and> (case wi of None \<Rightarrow> True | Some w \<Rightarrow> jb_wi j = w))
           (db_jobs d))))"

section \<open>Conflicts\<close>

text \<open>\<open>locksConflict\<close> with its options \<open>allowWorkItemId\<close>, \<open>allowJobId\<close>, \<open>allowJobIds\<close>, \<open>ignoreSameWorkItemLocks\<close>.\<close>

definition lock_allowed :: "nat option \<Rightarrow> nat option \<Rightarrow> nat list \<Rightarrow> bool \<Rightarrow> lock_view \<Rightarrow> bool" where
  "lock_allowed allowWi allowJob allowJobs ignoreSame l \<longleftrightarrow>
     ignoreSame \<and> allowWi = Some (lv_wi l) \<or>
     allowJob \<noteq> None \<and> lv_job l = allowJob \<or>
     (case lv_job l of None \<Rightarrow> False | Some i \<Rightarrow> i \<in> set allowJobs)"

fun locksConflict ::
  "lock_row list \<Rightarrow> nat option \<Rightarrow> nat option \<Rightarrow> nat list \<Rightarrow> bool \<Rightarrow> lock_view list \<Rightarrow> (lock_view \<times> lock_row) option" where
  "locksConflict rows allowWi allowJob allowJobs ignoreSame [] = None"
| "locksConflict rows allowWi allowJob allowJobs ignoreSame (l # ls) =
     (if lock_allowed allowWi allowJob allowJobs ignoreSame l
      then locksConflict rows allowWi allowJob allowJobs ignoreSame ls
      else case filter (\<lambda>c. lockRowsOverlap c (lv_row l)) rows of
          c # _ \<Rightarrow> Some (l, c)
        | [] \<Rightarrow> locksConflict rows allowWi allowJob allowJobs ignoreSame ls)"

datatype conflict =
    OrderConflict order_entry lock_row lock_row
  | WorkItemConflict lock_view lock_row
  | JobConflict lock_view lock_row

text \<open>\<open>findWorkItemOrderConflict\<close> against an order.\<close>

definition findWorkItemOrderConflict :: "wi_order \<Rightarrow> job \<Rightarrow> conflict option" where
  "findWorkItemOrderConflict w j =
     (if \<not> jobNeedsWriteLocks j \<or> jobNeedsAssessmentBarrier j then None
      else let own = getJobPathTouchScope j in
        (case findWorkItemOrderUpstream w (int (jb_wi j)) (if js_unknown own then [] else scopeToLockRows own) of
           None \<Rightarrow> None | Some (up, l, r) \<Rightarrow> Some (OrderConflict up l r)))"

text \<open>
  \<open>findOrdinaryWriteLockConflict\<close>; \<open>order\<close> is the work-item order, or \<open>None\<close> for
  \<open>workItemOrder: false\<close>. The reservations of reviewed handoffs are empty here.
\<close>

definition allowed_jobs :: "qdb \<Rightarrow> bool \<Rightarrow> job \<Rightarrow> nat list" where
  "allowed_jobs d ignorePreds j = ancestorJobIdsForJob d j
     @ (if ignorePreds then unmetHardDependencyPredecessorJobIdsForJob d j else [])
     @ queuedCohortJobIdsForJob d j @ queuedDependentJobIdsForJob d j"

definition findOrdinaryWriteLockConflict :: "qdb \<Rightarrow> job \<Rightarrow> job_scope \<Rightarrow> wi_order option \<Rightarrow> bool \<Rightarrow> conflict option" where
  "findOrdinaryWriteLockConflict d j scope order ignorePreds =
     (if \<not> jobNeedsWriteLocks j \<or> \<not> hasWriteScope scope then None
      else
        let rows = scopeToLockRows scope;
            orderConflict = (if jobNeedsAssessmentBarrier j then None
              else case order of None \<Rightarrow> None | Some w \<Rightarrow> findWorkItemOrderConflict w j);
            wiConflict = (if jobNeedsAssessmentBarrier j then None
              else locksConflict rows (Some (jb_wi j)) None [] True (activeWiLocks d));
            jobConflict = locksConflict rows (Some (jb_wi j)) (Some (jb_id j)) (allowed_jobs d ignorePreds j) False
              (activeJobLocks d (Some (jb_wi j)) False)
        in (case orderConflict of Some c \<Rightarrow> Some c | None \<Rightarrow>
            (case wiConflict of Some (l, c) \<Rightarrow> Some (WorkItemConflict l c) | None \<Rightarrow>
            (case jobConflict of Some (l, c) \<Rightarrow> Some (JobConflict l c) | None \<Rightarrow> None))))"

section \<open>Taking locks\<close>

text \<open>\<open>INSERT OR IGNORE\<close> under the unique index on the unreleased rows.\<close>

definition insert_wi_lock :: "wi_lock \<Rightarrow> wi_lock list \<Rightarrow> wi_lock list" where
  "insert_wi_lock l ls =
     (if list_ex (\<lambda>x. wl_released x = None \<and> wl_wi x = wl_wi l \<and> wl_path x = wl_path l \<and> wl_kind x = wl_kind l) ls
      then ls else ls @ [l])"

definition insert_job_lock :: "job_lock \<Rightarrow> job_lock list \<Rightarrow> job_lock list" where
  "insert_job_lock l ls =
     (if list_ex (\<lambda>x. jl_released x = None \<and> jl_job x = jl_job l \<and> jl_path x = jl_path l \<and> jl_kind x = jl_kind l) ls
      then ls else ls @ [l])"

definition completeWorkItemHoldsFileLocks :: "work_item \<Rightarrow> bool" where
  "completeWorkItemHoldsFileLocks w \<longleftrightarrow> wi_status w = ''complete'' \<and> js_trim (wi_branch_name w) \<noteq> [] \<and>
     wi_merge_state w \<in> set UNMERGED_WORK_ITEM_MERGE_STATES"

definition insertMissingWiLocks :: "job \<Rightarrow> job_scope \<Rightarrow> string option \<Rightarrow> string \<Rightarrow> qdb \<Rightarrow> qdb" where
  "insertMissingWiLocks j scope tok ts d =
     (let skip = (case get_wi d (jb_wi j) of None \<Rightarrow> False
        | Some w \<Rightarrow> wi_merge_state w = ''merged'' \<or> wi_status w = ''complete'' \<and> \<not> completeWorkItemHoldsFileLocks w)
      in if skip then d
         else d\<lparr>db_wi_locks := fold (\<lambda>row. insert_wi_lock \<lparr>wl_wi = jb_wi j, wl_path = lr_path row, wl_kind = lr_kind row,
             wl_source = Some (jb_id j), wl_token = tok, wl_acquired_at = ts, wl_released = None\<rparr>) (scopeToLockRows scope) (db_wi_locks d)\<rparr>)"

definition insertJobLocks :: "job \<Rightarrow> job_scope \<Rightarrow> string \<Rightarrow> qdb \<Rightarrow> qdb" where
  "insertJobLocks j scope ts d =
     d\<lparr>db_job_locks := fold (\<lambda>row. insert_job_lock \<lparr>jl_job = jb_id j, jl_wi = jb_wi j, jl_path = lr_path row,
         jl_kind = lr_kind row, jl_acquired_at = ts, jl_released = None\<rparr>) (scopeToLockRows scope) (db_job_locks d)\<rparr>"

definition update_job :: "nat \<Rightarrow> (job \<Rightarrow> job) \<Rightarrow> qdb \<Rightarrow> qdb" where
  "update_job i f d = d\<lparr>db_jobs := map (\<lambda>j. if jb_id j = i then f j else j) (db_jobs d)\<rparr>"

definition update_wi :: "nat \<Rightarrow> (work_item \<Rightarrow> work_item) \<Rightarrow> qdb \<Rightarrow> qdb" where
  "update_wi i f d = d\<lparr>db_wis := map (\<lambda>w. if wi_id w = i then f w else w) (db_wis d)\<rparr>"

section \<open>Stale locks\<close>

definition release_wi_locks :: "(wi_lock \<Rightarrow> bool) \<Rightarrow> string \<Rightarrow> string \<Rightarrow> qdb \<Rightarrow> qdb" where
  "release_wi_locks P reason ts d =
     d\<lparr>db_wi_locks := map (\<lambda>l. if wl_released l = None \<and> P l then l\<lparr>wl_released := Some (ts, reason)\<rparr> else l) (db_wi_locks d)\<rparr>"

definition release_job_locks :: "(job_lock \<Rightarrow> bool) \<Rightarrow> string \<Rightarrow> string \<Rightarrow> qdb \<Rightarrow> qdb" where
  "release_job_locks P reason ts d =
     d\<lparr>db_job_locks := map (\<lambda>l. if jl_released l = None \<and> P l then l\<lparr>jl_released := Some (ts, reason)\<rparr> else l) (db_job_locks d)\<rparr>"

definition stale_job_lock :: "qdb \<Rightarrow> job_lock \<Rightarrow> bool" where
  "stale_job_lock d l = (case get_job d (jl_job l) of None \<Rightarrow> True | Some j \<Rightarrow> jb_status j \<notin> set ACTIVE_INNER_LOCK_STATUSES)"

definition cleanupStaleFileLocks :: "string \<Rightarrow> qdb \<Rightarrow> qdb \<times> nat \<times> nat" where
  "cleanupStaleFileLocks ts d =
     (release_wi_locks (\<lambda>l. \<not> wi_active d (wl_wi l)) ''stale_wi_lock_cleanup'' ts
        (release_job_locks (stale_job_lock d) ''stale_job_lock_cleanup'' ts d),
      length (filter (\<lambda>l. jl_released l = None \<and> stale_job_lock d l) (db_job_locks d)),
      length (filter (\<lambda>l. wl_released l = None \<and> \<not> wi_active d (wl_wi l)) (db_wi_locks d)))"

text \<open>A conflict is looked for again when the cleanup released something.\<close>

definition conflict_after_cleanup :: "(qdb \<Rightarrow> conflict option) \<Rightarrow> string \<Rightarrow> qdb \<Rightarrow> qdb \<times> conflict option" where
  "conflict_after_cleanup find_conflict ts d =
     (case find_conflict d of None \<Rightarrow> (d, None)
      | Some c \<Rightarrow> (case cleanupStaleFileLocks ts d of (d', nj, nw) \<Rightarrow>
          (d', if nj > 0 \<or> nw > 0 then find_conflict d' else Some c)))"

section \<open>Leases\<close>

text \<open>
  \<open>acquireLeaseWithWriteLocks\<close>, whose transaction re-reads the job and trusts only the stored
  payload. \<open>order_of\<close> computes the work-item order from the database.
\<close>

definition acquireLeaseWithWriteLocks ::
  "(qdb \<Rightarrow> wi_order) \<Rightarrow> nat \<Rightarrow> string \<Rightarrow> string \<Rightarrow> string \<Rightarrow> string \<Rightarrow> qdb \<Rightarrow> qdb \<times> string option" where
  "acquireLeaseWithWriteLocks order_of i owner token expires ts d =
     (case get_job d i of None \<Rightarrow> (d, None)
      | Some fresh \<Rightarrow>
        if jb_status fresh \<noteq> ''queued'' \<or> jb_wi fresh \<in> set (db_budget_paused d) then (d, None)
        else if str_less ts (jb_ready_at fresh) \<or> unmetHardDependencyPredecessorJobIdsForJob d fresh \<noteq> [] then (d, None)
        else
          let needs = jobNeedsWriteLocks fresh; scope = getJobWriteScope fresh; barrier = jobNeedsAssessmentBarrier fresh;
              has = (needs \<and> hasWriteScope scope);
              (d1, conflict) = (if has
                then conflict_after_cleanup (\<lambda>x. findOrdinaryWriteLockConflict x fresh scope (Some (order_of x)) False) ts d
                else (d, None))
          in (case conflict of Some _ \<Rightarrow> (d1, None)
            | None \<Rightarrow>
              let d2 = update_job i (\<lambda>j. j\<lparr>jb_status := ''leased'', jb_lease_owner := Some owner,
                    jb_lease_token := Some token, jb_lease_expires_at := expires\<rparr>) d1;
                  d3 = (if has \<and> \<not> barrier then insertMissingWiLocks fresh scope (Some token) ts d2 else d2);
                  d4 = (if has then insertJobLocks fresh scope ts d3 else d3)
              in (d4, Some token)))"

section \<open>Tool-time locks\<close>

definition lock_covers :: "bool \<Rightarrow> string \<Rightarrow> job_lock \<Rightarrow> bool" where
  "lock_covers win target l =
     (let p = normalizeLockPath win (jl_path l) in
      if p = [] then False else if p = ''*'' then True
      else if jl_kind l = ''file'' then p = target
      else if jl_kind l = ''root'' then target = p \<or> isUnderRoot target [p] else False)"

definition jobHoldsWriteLockForPath :: "bool \<Rightarrow> qdb \<Rightarrow> nat \<Rightarrow> string \<Rightarrow> bool" where
  "jobHoldsWriteLockForPath win d i path =
     (let target = normalizeLockPath win path in
      target \<noteq> [] \<and> list_ex (\<lambda>l. jl_job l = i \<and> jl_released l = None \<and> lock_covers win target l) (db_job_locks d))"

datatype verify_result = Held | Acquired | Skipped string | Refused_lock conflict

definition verifyOrAcquireJobWriteLockForPath :: "bool \<Rightarrow> nat \<Rightarrow> string \<Rightarrow> string \<Rightarrow> qdb \<Rightarrow> qdb \<times> verify_result" where
  "verifyOrAcquireJobWriteLockForPath win i path ts d =
     (let target = normalizeLockPath win path in
      if target = [] then (d, Skipped ''unlockable_path'')
      else (case get_job d i of None \<Rightarrow> (d, Skipped ''no_job'')
        | Some j \<Rightarrow>
          if \<not> jobNeedsWriteLocks j then (d, Skipped ''job_not_locking'')
          else if jobHoldsWriteLockForPath win d i target then (d, Held)
          else
            let scope = \<lparr>js_files = [target], js_roots = [], js_unknown = False\<rparr>;
                (d1, conflict) = conflict_after_cleanup (\<lambda>x. findOrdinaryWriteLockConflict x j scope None False) ts d
            in (case conflict of Some c \<Rightarrow> (d1, Refused_lock c)
              | None \<Rightarrow> (insertJobLocks j scope ts (insertMissingWiLocks j scope None ts d1), Acquired))))"

definition lock_paths :: "bool \<Rightarrow> string list \<Rightarrow> string list" where
  "lock_paths win paths = remdups (filter (\<lambda>p. p \<noteq> []) (map (normalizeLockPath win) paths))"

datatype additional_result = Paths_ok | Paths_deferred | Paths_blocked "conflict option"

definition acquireAdditionalJobWritePaths :: "bool \<Rightarrow> nat \<Rightarrow> string list \<Rightarrow> string \<Rightarrow> qdb \<Rightarrow> qdb \<times> additional_result" where
  "acquireAdditionalJobWritePaths win i paths ts d =
     (case get_job d i of None \<Rightarrow> (d, Paths_ok)
      | Some j \<Rightarrow>
        if \<not> jobNeedsWriteLocks j then (d, Paths_ok)
        else if jb_lease_token j = None \<or> jb_status j \<notin> set ACTIVE_INNER_LOCK_STATUSES then (d, Paths_deferred)
        else
          let files = lock_paths win paths;
              scope = \<lparr>js_files = files, js_roots = [], js_unknown = False\<rparr>
          in if length files \<noteq> length (remdups paths) then (d, Paths_blocked None)
             else (case findOrdinaryWriteLockConflict d j scope None False of
                 Some c \<Rightarrow> (d, Paths_blocked (Some c))
               | None \<Rightarrow> (insertJobLocks j scope ts (insertMissingWiLocks j scope (jb_lease_token j) ts d), Paths_ok)))"

section \<open>The assessment barrier\<close>

datatype barrier_result = Barrier_ok bool | Lease_invalid | Sibling_writers "lock_view list"

definition acquireAssessmentBarrier :: "nat \<Rightarrow> string \<Rightarrow> bool \<Rightarrow> string \<Rightarrow> string \<Rightarrow> qdb \<Rightarrow> qdb \<times> barrier_result" where
  "acquireAssessmentBarrier i token preserve cutoff ts d =
     (case get_job d i of None \<Rightarrow> (d, Lease_invalid)
      | Some fresh \<Rightarrow>
        if jb_lease_token fresh \<noteq> Some token \<or> jb_status fresh \<notin> set LEASE_HOLDING_STATUSES
          \<or> jb_lease_expires_at fresh = [] \<or> str_less (jb_lease_expires_at fresh) cutoff then (d, Lease_invalid)
        else
          let needs = jobCanUseAssessmentBarrier fresh;
              blockers = (if needs then filter (\<lambda>l. lv_job l \<noteq> Some i \<and> lv_job_status l \<noteq> ''queued'' \<and>
                  lv_job_status l \<notin> set PARKED_JOB_STATUSES) (activeJobLocks d (Some (jb_wi fresh)) False) else [])
          in if blockers \<noteq> [] then (d, Sibling_writers blockers)
             else
               let d1 = update_job i (\<lambda>j. if preserve then j else j\<lparr>jb_status := ''awaiting_assessment''\<rparr>) d;
                   d2 = (if needs then insertJobLocks fresh \<lparr>js_files = [], js_roots = [''*''], js_unknown = False\<rparr> ts d1 else d1)
               in (d2, Barrier_ok needs))"

section \<open>Releasing locks\<close>

definition releaseJobFileLocks :: "nat \<Rightarrow> string \<Rightarrow> string \<Rightarrow> qdb \<Rightarrow> qdb" where
  "releaseJobFileLocks i reason ts = release_job_locks (\<lambda>l. jl_job l = i) reason ts"

definition releaseWorkItemFileLocks :: "nat \<Rightarrow> string \<Rightarrow> string \<Rightarrow> qdb \<Rightarrow> qdb" where
  "releaseWorkItemFileLocks i reason ts = release_wi_locks (\<lambda>l. wl_wi l = i) reason ts"

definition releaseWorkItemFileLocksForSourceJob :: "nat \<Rightarrow> string \<Rightarrow> string \<Rightarrow> qdb \<Rightarrow> qdb" where
  "releaseWorkItemFileLocksForSourceJob i reason ts = release_wi_locks (\<lambda>l. wl_source l = Some i) reason ts"

definition releaseWorkItemFileLockForPath :: "bool \<Rightarrow> nat \<Rightarrow> string \<Rightarrow> string \<Rightarrow> string \<Rightarrow> string \<Rightarrow> qdb \<Rightarrow> qdb" where
  "releaseWorkItemFileLockForPath win i path kind reason ts d =
     (let p = normalizeLockPath win path in
      if p = [] then d else release_wi_locks (\<lambda>l. wl_wi l = i \<and> wl_path l = p \<and> wl_kind l = kind) reason ts d)"

definition releaseJobLocksForStatus :: "nat \<Rightarrow> string \<Rightarrow> string \<Rightarrow> qdb \<Rightarrow> qdb" where
  "releaseJobLocksForStatus i status ts d =
     (if status \<in> set JOB_LOCK_RELEASE_STATUSES then releaseJobFileLocks i (''job_'' @ status) ts d else d)"

definition releaseWorkItemLocksForStatus :: "nat \<Rightarrow> string \<Rightarrow> string \<Rightarrow> qdb \<Rightarrow> qdb" where
  "releaseWorkItemLocksForStatus i status ts d =
     (if status \<in> set WI_LOCK_RELEASE_STATUSES then releaseWorkItemFileLocks i (''work_item_'' @ status) ts d else d)"

text \<open>
  \<open>restoreExistingOrderClaimLocks\<close>: the locks that were released to the merged work item's jobs in
  existing order go back to their claimants. Claims are taken once each, in order of appearance.
\<close>

definition order_claims :: "bool \<Rightarrow> nat \<Rightarrow> qdb \<Rightarrow> (nat \<times> string \<times> string) list" where
  "order_claims win merged d = rev (remdups (rev (concat (map (\<lambda>j.
     map (\<lambda>(w, p, k). (w, normalizeLockPath win p, if k = ''root'' then ''root'' else ''file''))
       (filter (\<lambda>(w, p, k). 0 < w \<and> w \<noteq> merged \<and> normalizeLockPath win p \<noteq> []) (jb_claims j)))
     (filter (\<lambda>j. jb_wi j = merged) (db_jobs d))))))"

definition claim_row :: "nat \<times> string \<times> string \<Rightarrow> lock_row" where
  "claim_row c = (case c of (w, p, k) \<Rightarrow> \<lparr>lr_path = p, lr_kind = k\<rparr>)"

definition restore_claim :: "string \<Rightarrow> nat \<times> string \<times> string \<Rightarrow> qdb \<Rightarrow> qdb" where
  "restore_claim ts c d = (case get_wi d (fst c) of None \<Rightarrow> d
     | Some w \<Rightarrow>
       if wi_merge_state w = ''merged'' then d
       else if wi_status w \<in> set WI_LOCK_RELEASE_STATUSES then d
       else if wi_status w = ''complete'' \<and> \<not> completeWorkItemHoldsFileLocks w then d
       else d\<lparr>db_wi_locks := insert_wi_lock \<lparr>wl_wi = fst c, wl_path = lr_path (claim_row c), wl_kind = lr_kind (claim_row c),
         wl_source = None, wl_token = None, wl_acquired_at = ts, wl_released = None\<rparr> (db_wi_locks d)\<rparr>)"

definition restoreExistingOrderClaimLocks :: "bool \<Rightarrow> nat \<Rightarrow> string \<Rightarrow> qdb \<Rightarrow> qdb" where
  "restoreExistingOrderClaimLocks win merged ts d =
     (if merged = 0 then d else fold (restore_claim ts) (order_claims win merged d) d)"

definition releaseWorkItemLocksForMergeState :: "bool \<Rightarrow> nat \<Rightarrow> string \<Rightarrow> string \<Rightarrow> qdb \<Rightarrow> qdb" where
  "releaseWorkItemLocksForMergeState win i merge_state ts d =
     (if merge_state \<noteq> ''merged'' then d
      else restoreExistingOrderClaimLocks win i ts (releaseWorkItemFileLocks i ''work_item_merged'' ts d))"

text \<open>Why a work item's lock on a path may not be handed to another work item.\<close>

datatype release_check = Unsupported_lock | Active_job_lock "lock_view list" | Unresolved_scope "job list" | Idle_path

definition workItemCanReleaseFileLock :: "bool \<Rightarrow> qdb \<Rightarrow> nat \<Rightarrow> string \<Rightarrow> string \<Rightarrow> bool \<Rightarrow> release_check" where
  "workItemCanReleaseFileLock win d i path kind operatorParked =
     (let p = normalizeLockPath win path;
          active = filter (\<lambda>l. lockRowsTouchPath [lv_row l] p kind) (activeJobLocks d (Some i) True);
          unresolved = filter (\<lambda>j. jobScopeTouchesPath j p kind)
            (filter (\<lambda>j. jb_wi j = i \<and> jb_status j \<in> set UNRESOLVED_SCOPE_STATUSES \<and> jb_type j \<in> set QUEUE_LOCKING_JOB_TYPES)
              (db_jobs d))
      in if kind \<notin> {''file'', ''root''} \<or> p = [] then Unsupported_lock
         else if active \<noteq> [] then Active_job_lock active
         else if unresolved \<noteq> [] \<and> \<not> operatorParked then Unresolved_scope unresolved
         else Idle_path)"

text \<open>Why a work item's content of a path must not be copied elsewhere.\<close>

definition crossWiSyncSourceRejection :: "bool \<Rightarrow> qdb \<Rightarrow> nat \<Rightarrow> string \<Rightarrow> string \<Rightarrow> string option" where
  "crossWiSyncSourceRejection win d i path kind =
     (case get_wi d i of None \<Rightarrow> None
      | Some w \<Rightarrow>
        if wi_status w \<in> set WI_LOCK_RELEASE_STATUSES then Some (''upstream_'' @ wi_status w)
        else
          let p = normalizeLockPath win path;
              writers = rev (filter (\<lambda>j. jb_wi j = i \<and> jb_type j \<in> set QUEUE_LOCKING_JOB_TYPES \<and>
                (0 < jb_attempt_count j \<or> jb_status j = ''succeeded'' \<or> jb_verdict j \<noteq> ''not_assessed'')) (db_jobs d))
          in if p = [] then None
             else (case filter (\<lambda>j. jobScopeTouchesPath j p (if kind = ''root'' then ''root'' else ''file'')) writers of
                 [] \<Rightarrow> None
               | latest # _ \<Rightarrow>
                 if jb_verdict latest \<in> {''fail'', ''needs_replan'', ''needs_review''} then Some (''writer_'' @ jb_verdict latest)
                 else if jb_status latest \<in> set DEADLOCK_TERMINAL_STATUSES then Some (''writer_'' @ jb_status latest)
                 else None))"

end
