(* ===== verification/Dependencies.thy ===== *)
theory Dependencies
  imports QueueDb
begin

text \<open>
  \<open>domains/queue/functions/dependencies.js\<close>: the graph of job dependencies, with its cycle-checked
  inserts and rewires, and the detector of jobs that can never start. The table
  \<open>job_dependencies\<close> is the list \<open>db_deps\<close>; a violated constraint of the table (a missing job, a
  kind other than hard or soft) raises, which rolls the transaction back. Events and wake-ups are
  left out; the titles that the read queries add for display are too.
\<close>

section \<open>The recursive query\<close>

definition dep_targets :: "qdb \<Rightarrow> nat \<Rightarrow> nat list" where
  "dep_targets d i = map dp_on (filter (\<lambda>e. dp_job e = i) (db_deps d))"

text \<open>
  \<open>WITH RECURSIVE dep_chain\<close>: the jobs that \<open>i\<close> depends on, directly or not. Each round adds a job
  that some edge points to, so as many rounds as there are edges are enough (\<open>dep_chain_reaches\<close>).
\<close>

definition dep_chain :: "qdb \<Rightarrow> nat \<Rightarrow> nat list" where
  "dep_chain d i = closure (length (db_deps d)) (dep_targets d) (remdups (dep_targets d i))"

definition dep_cycle :: "qdb \<Rightarrow> nat \<Rightarrow> nat \<Rightarrow> bool" where
  "dep_cycle d i on \<longleftrightarrow> i \<in> set (dep_chain d on)"

section \<open>Operations\<close>

datatype 'a dep_result = Dep_done 'a | Sql_error

text \<open>\<open>INSERT ... ON CONFLICT DO UPDATE SET dependency_kind = 'hard' WHERE ...\<close>\<close>

fun upsert_dep :: "dep_row \<Rightarrow> dep_row list \<Rightarrow> dep_row list" where
  "upsert_dep r [] = [r]"
| "upsert_dep r (e # es) =
     (if dp_job e = dp_job r \<and> dp_on e = dp_on r
      then (if dp_kind r = ''hard'' \<and> dp_kind e = ''soft'' then e\<lparr>dp_kind := ''hard''\<rparr> else e) # es
      else e # upsert_dep r es)"

definition dep_constraint :: "qdb \<Rightarrow> nat \<Rightarrow> nat \<Rightarrow> string \<Rightarrow> bool" where
  "dep_constraint d i on kind \<longleftrightarrow> kind \<in> {''hard'', ''soft''} \<and> get_job d i \<noteq> None \<and> get_job d on \<noteq> None"

definition insert_dep :: "nat \<Rightarrow> nat \<Rightarrow> string \<Rightarrow> qdb \<Rightarrow> qdb" where
  "insert_dep i on kind d = d\<lparr>db_deps := upsert_dep \<lparr>dp_job = i, dp_on = on, dp_kind = kind\<rparr> (db_deps d)\<rparr>"

definition delete_dep :: "nat \<Rightarrow> nat \<Rightarrow> qdb \<Rightarrow> qdb" where
  "delete_dep i on d = d\<lparr>db_deps := filter (\<lambda>e. \<not> (dp_job e = i \<and> dp_on e = on)) (db_deps d)\<rparr>"

definition addDependency :: "nat \<Rightarrow> nat \<Rightarrow> string \<Rightarrow> qdb \<Rightarrow> qdb \<times> bool dep_result" where
  "addDependency i on kind d =
     (if i = on then (d, Dep_done False)
      else if dep_cycle d i on then (d, Dep_done False)
      else if \<not> dep_constraint d i on kind then (d, Sql_error)
      else (insert_dep i on kind d, Dep_done True))"

definition removeDependency :: "nat \<Rightarrow> nat \<Rightarrow> qdb \<Rightarrow> qdb \<times> bool" where
  "removeDependency i on d = (delete_dep i on d, list_ex (\<lambda>e. dp_job e = i \<and> dp_on e = on) (db_deps d))"

definition rewireDependency :: "nat \<Rightarrow> nat \<Rightarrow> nat \<Rightarrow> string \<Rightarrow> qdb \<Rightarrow> qdb \<times> bool dep_result" where
  "rewireDependency i old new kind d =
     (if i = new then (d, Dep_done False)
      else if dep_cycle d i new then (d, Dep_done False)
      else if \<not> dep_constraint d i new kind then (d, Sql_error)
      else (insert_dep i new kind (delete_dep i old d), Dep_done True))"

record chain_details =
  cd_rewired :: bool
  cd_inserted :: "nat list"
  cd_skipped :: "(nat \<times> string) list"

text \<open>
  \<open>rewireDependencyChain\<close>: every cycle check precedes the deletion and the inserts. \<open>Set\<close> keeps the
  first of repeated ids.
\<close>

definition rewireDependencyChain :: "nat \<Rightarrow> nat \<Rightarrow> int list \<Rightarrow> string \<Rightarrow> qdb \<Rightarrow> qdb \<times> chain_details dep_result" where
  "rewireDependencyChain i old news kind d =
     (let replacements = map nat (filter (\<lambda>n. 0 < n) (rev (remdups (rev news))));
          selfs = map (\<lambda>r. (r, ''self_dependency'')) (filter (\<lambda>r. r = i) replacements);
          candidates = filter (\<lambda>r. r \<noteq> i) replacements;
          cycles = map (\<lambda>r. (r, ''cycle'')) (filter (dep_cycle d i) candidates);
          accepted = filter (\<lambda>r. \<not> dep_cycle d i r) candidates
      in if accepted = [] then (d, Dep_done \<lparr>cd_rewired = False, cd_inserted = [], cd_skipped = selfs @ cycles\<rparr>)
         else if list_ex (\<lambda>r. \<not> dep_constraint d i r kind) accepted then (d, Sql_error)
         else (fold (\<lambda>r. insert_dep i r kind) accepted (delete_dep i old d),
               Dep_done \<lparr>cd_rewired = True, cd_inserted = accepted, cd_skipped = selfs @ cycles\<rparr>))"

section \<open>Queries\<close>

text \<open>An edge joined with the job it points to, or with the job it belongs to.\<close>

definition join_on :: "qdb \<Rightarrow> dep_row list \<Rightarrow> (dep_row \<times> job) list" where
  "join_on d es = concat (map (\<lambda>e. case get_job d (dp_on e) of None \<Rightarrow> [] | Some j \<Rightarrow> [(e, j)]) es)"

definition join_job :: "qdb \<Rightarrow> dep_row list \<Rightarrow> (dep_row \<times> job) list" where
  "join_job d es = concat (map (\<lambda>e. case get_job d (dp_job e) of None \<Rightarrow> [] | Some j \<Rightarrow> [(e, j)]) es)"

definition getDependencies :: "qdb \<Rightarrow> nat \<Rightarrow> (dep_row \<times> job) list" where
  "getDependencies d i = join_on d (filter (\<lambda>e. dp_job e = i) (db_deps d))"

definition getUnmetDependencies :: "qdb \<Rightarrow> nat \<Rightarrow> (dep_row \<times> job) list" where
  "getUnmetDependencies d i =
     filter (\<lambda>(e, j). dp_kind e = ''hard'' \<and> jb_status j \<noteq> ''succeeded'') (getDependencies d i)"

definition getAllDependencies :: "qdb \<Rightarrow> dep_row list" where
  "getAllDependencies d = db_deps d"

definition getDependents :: "qdb \<Rightarrow> nat \<Rightarrow> (dep_row \<times> job) list" where
  "getDependents d i = join_job d (filter (\<lambda>e. dp_on e = i) (db_deps d))"

definition failed_deps :: "qdb \<Rightarrow> nat \<Rightarrow> (dep_row \<times> job) list" where
  "failed_deps d i = filter (\<lambda>(e, j). dp_kind e = ''hard'' \<and> jb_status j \<in> set DEADLOCK_TERMINAL_STATUSES) (getDependencies d i)"

definition findDeadlockedJobs :: "qdb \<Rightarrow> int option \<Rightarrow> (job \<times> (nat \<times> string) list) list" where
  "findDeadlockedJobs d wi =
     map (\<lambda>j. (j, map (\<lambda>(e, p). (jb_id p, jb_status p)) (failed_deps d (jb_id j))))
       (filter (\<lambda>j. jb_status j = ''queued'' \<and>
            (case wi of None \<Rightarrow> True | Some w \<Rightarrow> w \<le> 0 \<or> int (jb_wi j) = w) \<and> failed_deps d (jb_id j) \<noteq> [])
          (db_jobs d))"

section \<open>The query computes reachability\<close>

definition dep_edges :: "qdb \<Rightarrow> (nat \<times> nat) set" where
  "dep_edges d = set (map (\<lambda>e. (dp_job e, dp_on e)) (db_deps d))"

lemma dep_targets_iff: "j \<in> set (dep_targets d i) \<longleftrightarrow> (i, j) \<in> dep_edges d"
  by (auto simp: dep_targets_def dep_edges_def)

lemma finite_dep_edges [simp]: "finite (dep_edges d)"
  by (simp add: dep_edges_def)

lemma closure_mono: "set ids \<subseteq> set (closure n f ids)"
  by (induction n f ids rule: closure.induct) (auto simp: Let_def)

lemma closure_sound:
  "set ids \<subseteq> S \<Longrightarrow> (\<And>x. x \<in> S \<Longrightarrow> set (f x) \<subseteq> S) \<Longrightarrow> set (closure n f ids) \<subseteq> S"
proof (induction n f ids rule: closure.induct)
  case (2 n f ids)
  let ?new = "filter (\<lambda>x. x \<notin> set ids) (concat (map f ids))"
  have "set (remdups (ids @ ?new)) \<subseteq> S" using 2(2,3) by auto
  then show ?case using 2 by (auto simp: Let_def)
qed simp

lemma closure_closed:
  assumes "finite U" "set ids \<subseteq> U" "\<And>x. x \<in> U \<Longrightarrow> set (f x) \<subseteq> U" "card U \<le> card (set ids) + n"
  shows "\<forall>x \<in> set (closure n f ids). set (f x) \<subseteq> set (closure n f ids)"
  using assms
proof (induction n f ids rule: closure.induct)
  case (1 f ids)
  then have "set ids = U" using card_mono [of U "set ids"] by (metis add_0_right card_subset_eq le_antisym)
  then show ?case using 1 by auto
next
  case (2 n f ids)
  let ?new = "filter (\<lambda>x. x \<notin> set ids) (concat (map f ids))"
  show ?case
  proof (cases "?new = []")
    case True
    have "set (f x) \<subseteq> set ids" if "x \<in> set ids" for x
      using True that by (auto simp: filter_empty_conv)
    then show ?thesis using True by (simp add: Let_def)
  next
    case False
    then obtain y where y: "y \<in> set ?new" by (cases ?new) auto
    have sub: "set (remdups (ids @ ?new)) \<subseteq> U" using 2(3,4) by auto
    have "insert y (set ids) \<subseteq> set (remdups (ids @ ?new))" "y \<notin> set ids" using y by auto
    then have "Suc (card (set ids)) \<le> card (set (remdups (ids @ ?new)))"
      using card_mono [of "set (remdups (ids @ ?new))" "insert y (set ids)"] by simp
    then have "card U \<le> card (set (remdups (ids @ ?new))) + n" using 2(5) by linarith
    from 2(1) [OF refl False 2(2) sub 2(4) this] show ?thesis using False by (simp add: Let_def)
  qed
qed

lemma dep_chain_reaches: "set (dep_chain d i) = {j. (i, j) \<in> (dep_edges d)\<^sup>+}"
proof
  let ?E = "dep_edges d"
  let ?c = "dep_chain d i"
  show "set ?c \<subseteq> {j. (i, j) \<in> ?E\<^sup>+}"
    unfolding dep_chain_def
  proof (rule closure_sound)
    show "set (remdups (dep_targets d i)) \<subseteq> {j. (i, j) \<in> ?E\<^sup>+}" by (auto simp: dep_targets_iff)
    show "set (dep_targets d x) \<subseteq> {j. (i, j) \<in> ?E\<^sup>+}" if "x \<in> {j. (i, j) \<in> ?E\<^sup>+}" for x
      using that by (auto simp: dep_targets_iff intro: trancl_into_trancl)
  qed
  let ?U = "set (map dp_on (db_deps d))"
  have card: "card ?U \<le> length (db_deps d)" by (metis card_length length_map)
  have closed: "\<forall>x \<in> set ?c. set (dep_targets d x) \<subseteq> set ?c"
    unfolding dep_chain_def
    by (rule closure_closed [where U = ?U]) (use card in \<open>auto simp: dep_targets_def\<close>)
  show "{j. (i, j) \<in> ?E\<^sup>+} \<subseteq> set ?c"
  proof clarify
    fix j assume "(i, j) \<in> ?E\<^sup>+"
    then show "j \<in> set ?c"
    proof (induction rule: trancl_induct)
      case (base y)
      then show ?case using closure_mono [of "remdups (dep_targets d i)"] dep_targets_iff [of y d i] unfolding dep_chain_def by auto
    next
      case (step y z)
      then show ?case using closed dep_targets_iff [of z d y] by blast
    qed
  qed
qed

lemma dep_cycle_iff: "dep_cycle d i on \<longleftrightarrow> (on, i) \<in> (dep_edges d)\<^sup>+"
  by (simp add: dep_cycle_def dep_chain_reaches)

section \<open>What the operations do to the graph\<close>

lemma upsert_dep_edges:
  "(\<lambda>e. (dp_job e, dp_on e)) ` set (upsert_dep r es) = insert (dp_job r, dp_on r) ((\<lambda>e. (dp_job e, dp_on e)) ` set es)"
  by (induction es) auto

lemma dep_edges_insert [simp]: "dep_edges (insert_dep i on kind d) = insert (i, on) (dep_edges d)"
  by (simp add: insert_dep_def dep_edges_def upsert_dep_edges)

lemma dep_edges_delete [simp]: "dep_edges (delete_dep i on d) = dep_edges d - {(i, on)}"
  by (auto simp: delete_dep_def dep_edges_def image_iff)

lemma dep_edges_fold: "dep_edges (fold (\<lambda>r. insert_dep i r kind) rs d) = Pair i ` set rs \<union> dep_edges d"
  by (induction rs arbitrary: d) auto

text \<open>
  A dependency is refused exactly when the job it points to depends on the job already, or is
  that job; a dependency that is accepted adds that edge and nothing else, and a refused or failed
  insert changes nothing.
\<close>

theorem addDependency_refuses_exactly_cycles:
  "case addDependency i on kind d of
     (d1, Dep_done ok) \<Rightarrow> ok = ((on, i) \<notin> (dep_edges d)\<^sup>*) \<and> dep_edges d1 = (if ok then insert (i, on) (dep_edges d) else dep_edges d)
   | (d1, Sql_error) \<Rightarrow> d1 = d \<and> \<not> dep_constraint d i on kind"
  by (auto simp: addDependency_def dep_cycle_iff rtrancl_eq_or_trancl)

lemma rewire_chain_edges:
  "case rewireDependencyChain i old news kind d of
     (d1, Dep_done r) \<Rightarrow>
       set (cd_inserted r) = {n. int n \<in> set news \<and> 0 < n \<and> (n, i) \<notin> (dep_edges d)\<^sup>*} \<and>
       cd_rewired r = (cd_inserted r \<noteq> []) \<and>
       dep_edges d1 = (if cd_rewired r then Pair i ` set (cd_inserted r) \<union> (dep_edges d - {(i, old)}) else dep_edges d)
   | (d1, Sql_error) \<Rightarrow> d1 = d"
proof -
  define replacements where "replacements = map nat (filter (\<lambda>n. 0 < n) (rev (remdups (rev news))))"
  define accepted where "accepted = filter (\<lambda>r. \<not> dep_cycle d i r) (filter (\<lambda>r. r \<noteq> i) replacements)"
  have "set replacements = {n. int n \<in> set news \<and> 0 < n}"
  proof
    show "{n. int n \<in> set news \<and> 0 < n} \<subseteq> set replacements"
    proof clarify
      fix n assume "int n \<in> set news" "0 < n"
      then have "int n \<in> set (filter (\<lambda>n. 0 < n) (rev (remdups (rev news))))" by simp
      then have "nat (int n) \<in> nat ` set (filter (\<lambda>n. 0 < n) (rev (remdups (rev news))))" by (rule imageI)
      then show "n \<in> set replacements" by (simp add: replacements_def)
    qed
  qed (auto simp: replacements_def)
  then have acc: "set accepted = {n. int n \<in> set news \<and> 0 < n \<and> (n, i) \<notin> (dep_edges d)\<^sup>*}"
    by (auto simp: accepted_def dep_cycle_iff rtrancl_eq_or_trancl)
  show ?thesis
  proof (cases "accepted = []")
    case True
    then show ?thesis using acc unfolding rewireDependencyChain_def Let_def replacements_def [symmetric] accepted_def [symmetric] by simp
  next
    case False
    then show ?thesis
      using acc unfolding rewireDependencyChain_def Let_def replacements_def [symmetric] accepted_def [symmetric]
      by (simp add: dep_edges_fold)
  qed
qed

text \<open>
  A rewire to several jobs replaces the old edge by edges to exactly those of them that neither
  are the job nor depend on it; when none is left it changes nothing, so that a job never loses its
  blocker without getting another.
\<close>

theorem rewireDependencyChain_replaces_edge:
  "case rewireDependencyChain i old news kind d of
     (d1, Dep_done r) \<Rightarrow>
       set (cd_inserted r) = {n. int n \<in> set news \<and> 0 < n \<and> (n, i) \<notin> (dep_edges d)\<^sup>*} \<and>
       cd_rewired r = (cd_inserted r \<noteq> []) \<and>
       dep_edges d1 = (if cd_rewired r then Pair i ` set (cd_inserted r) \<union> (dep_edges d - {(i, old)}) else dep_edges d)
   | (d1, Sql_error) \<Rightarrow> d1 = d"
  by (rule rewire_chain_edges)

section \<open>The graph has no cycle\<close>

datatype dep_event =
    DepAdd nat nat string
  | DepRemove nat nat
  | DepRewire nat nat nat string
  | DepChain nat nat "int list" string
  | DepJob nat string

text \<open>\<open>DepJob\<close> is any change of a job's status; the graph does not depend on it.\<close>

fun dep_step :: "dep_event \<Rightarrow> qdb \<Rightarrow> qdb" where
  "dep_step (DepAdd i on kind) d = fst (addDependency i on kind d)"
| "dep_step (DepRemove i on) d = fst (removeDependency i on d)"
| "dep_step (DepRewire i old new kind) d = fst (rewireDependency i old new kind d)"
| "dep_step (DepChain i old news kind) d = fst (rewireDependencyChain i old news kind d)"
| "dep_step (DepJob i st) d = d\<lparr>db_jobs := map (\<lambda>j. if jb_id j = i then j\<lparr>jb_status := st\<rparr> else j) (db_jobs d)\<rparr>"

definition dep_acyclic :: "qdb \<Rightarrow> bool" where
  "dep_acyclic d \<longleftrightarrow> acyclic (dep_edges d)"

text \<open>
  New edges out of one job make no cycle when none of their targets reaches that job, even when an
  old edge of that job goes: a path back would have to reach the job before using a new edge.
\<close>

lemma acyclic_new_edges:
  assumes "acyclic E" "\<And>r. r \<in> R \<Longrightarrow> (r, i) \<notin> E\<^sup>*"
  shows "acyclic (Pair i ` R \<union> E)"
proof (rule acyclicI, intro allI notI)
  have reach: "(x, i) \<in> E\<^sup>*" if "(x, i) \<in> (Pair i ` R \<union> E)\<^sup>*" for x
    using that
  proof (induction rule: converse_rtrancl_induct)
    case (step y z)
    then show ?case by (auto intro: converse_rtrancl_into_rtrancl)
  qed simp
  have old: "(x, y) \<in> E\<^sup>+ \<or> (x, i) \<in> E\<^sup>* \<and> (\<exists>r \<in> R. (r, y) \<in> (Pair i ` R \<union> E)\<^sup>*)" if "(x, y) \<in> (Pair i ` R \<union> E)\<^sup>+" for x y
    using that
  proof (induction rule: trancl_induct)
    case (base y)
    then show ?case by auto
  next
    case (step y z)
    show ?case
    proof (cases "(y, z) \<in> E")
      case True
      then show ?thesis using step by (auto intro: trancl_into_trancl rtrancl_into_rtrancl)
    next
      case False
      then have "y = i" "z \<in> R" using step by auto
      then show ?thesis using step(1) reach [of x] by (auto intro: trancl_into_rtrancl)
    qed
  qed
  fix x assume x: "(x, x) \<in> (Pair i ` R \<union> E)\<^sup>+"
  have "(x, x) \<notin> E\<^sup>+" using assms(1) by (simp add: acyclic_def)
  then obtain r where r: "r \<in> R" "(x, i) \<in> E\<^sup>*" "(r, x) \<in> (Pair i ` R \<union> E)\<^sup>*" using old [OF x] by blast
  have "(x, i) \<in> (Pair i ` R \<union> E)\<^sup>*" using r(2) by (rule rev_subsetD) (rule rtrancl_mono, blast)
  then have "(r, i) \<in> (Pair i ` R \<union> E)\<^sup>*" using r(3) by simp
  then show False using reach assms(2) r(1) by blast
qed

lemma acyclic_new_edge: "acyclic E \<Longrightarrow> (r, i) \<notin> E\<^sup>* \<Longrightarrow> acyclic (insert (i, r) E)"
  using acyclic_new_edges [of E "{r}" i] by simp

lemma acyclic_less: "acyclic (A \<union> E) \<Longrightarrow> acyclic (A \<union> (E - X))"
  by (rule acyclic_subset) auto

lemma dep_step_acyclic: "dep_acyclic d \<Longrightarrow> dep_acyclic (dep_step e d)"
proof (cases e)
  case (DepAdd i on kind)
  assume a: "dep_acyclic d"
  then show ?thesis
    using acyclic_new_edge [of "dep_edges d" on i] by (auto simp: DepAdd addDependency_def dep_cycle_iff dep_acyclic_def rtrancl_eq_or_trancl)
next
  case (DepRemove i on)
  assume "dep_acyclic d"
  then show ?thesis using acyclic_less [of "{}" "dep_edges d"] by (simp add: DepRemove removeDependency_def dep_acyclic_def)
next
  case (DepRewire i old new kind)
  assume "dep_acyclic d"
  then show ?thesis
    using acyclic_new_edge [of "dep_edges d" new i] acyclic_less [of "{(i, new)}" "dep_edges d" "{(i, old)}"]
    by (auto simp: DepRewire rewireDependency_def dep_cycle_iff dep_acyclic_def rtrancl_eq_or_trancl)
next
  case (DepChain i old news kind)
  assume a: "dep_acyclic d"
  obtain d1 r where r: "rewireDependencyChain i old news kind d = (d1, r)" by fastforce
  show ?thesis
  proof (cases r)
    case Sql_error
    then show ?thesis using a r rewire_chain_edges [where i = i and old = old and news = news and kind = kind and d = d] by (simp add: DepChain)
  next
    case (Dep_done x)
    let ?E = "dep_edges d" and ?R = "set (cd_inserted x)"
    have e: "dep_edges d1 = (if cd_rewired x then Pair i ` ?R \<union> (?E - {(i, old)}) else ?E)"
      and R: "?R = {n. int n \<in> set news \<and> 0 < n \<and> (n, i) \<notin> ?E\<^sup>*}"
      using rewire_chain_edges [where i = i and old = old and news = news and kind = kind and d = d] r Dep_done by simp_all
    have "acyclic (Pair i ` ?R \<union> ?E)" by (rule acyclic_new_edges) (use a R in \<open>auto simp: dep_acyclic_def\<close>)
    then have "acyclic (Pair i ` ?R \<union> (?E - {(i, old)}))" by (rule acyclic_less)
    then show ?thesis using a r e by (simp add: DepChain dep_acyclic_def)
  qed
next
  case (DepJob i st)
  assume "dep_acyclic d"
  then show ?thesis by (simp add: DepJob dep_acyclic_def dep_edges_def)
qed

interpretation deps: step_system dep_step dep_acyclic
  by unfold_locales (rule dep_step_acyclic)

lemma no_deps_acyclic: "dep_acyclic (d\<lparr>db_deps := []\<rparr>)"
  by (simp add: dep_acyclic_def dep_edges_def acyclic_def)

text \<open>
  C39: From a queue without dependencies, whatever adds, removals, rewires and status changes follow,
  the dependency graph has no cycle.
\<close>

theorem dependency_graph_stays_acyclic:
  "acyclic (dep_edges (fold dep_step es (d\<lparr>db_deps := []\<rparr>)))"
  using deps.run_inv [OF no_deps_acyclic] unfolding dep_acyclic_def .

section \<open>Progress\<close>

lemma join_on_iff: "(e, j) \<in> set (join_on d es) \<longleftrightarrow> e \<in> set es \<and> get_job d (dp_on e) = Some j"
  by (auto simp: join_on_def split: option.splits)

lemma get_job_mem_id: "get_job d i = Some j \<Longrightarrow> j \<in> set (db_jobs d) \<and> jb_id j = i"
  unfolding get_job_def by (auto simp: find_Some_iff)

text \<open>
  A queue whose jobs are all queued or finished, whose graph has no cycle and in which no job is
  reported as deadlocked has a queued job that waits for nothing, unless none is queued.
\<close>

theorem no_deadlock_means_progress:
  assumes "acyclic (dep_edges d)" "findDeadlockedJobs d None = []" "j0 \<in> set (db_jobs d)" "jb_status j0 = ''queued''"
    "\<forall>j \<in> set (db_jobs d). jb_status j = ''queued'' \<or> jb_status j \<in> set TERMINAL_JOB_STATUSES"
  shows "\<exists>j \<in> set (db_jobs d). jb_status j = ''queued'' \<and> getUnmetDependencies d (jb_id j) = []"
proof -
  let ?Q = "{i. \<exists>j \<in> set (db_jobs d). jb_id j = i \<and> jb_status j = ''queued''}"
  have wf: "wf ((dep_edges d)\<inverse>)" using assms(1) by (rule finite_acyclic_wf_converse [OF finite_dep_edges])
  have "jb_id j0 \<in> ?Q" using assms(3,4) by blast
  then obtain i where i: "i \<in> ?Q" "\<And>y. (y, i) \<in> (dep_edges d)\<inverse> \<Longrightarrow> y \<notin> ?Q" 
    by (rule wfE_min [OF wf]) blast
  then obtain j where j: "j \<in> set (db_jobs d)" "jb_id j = i" "jb_status j = ''queued''" by blast
  have "getUnmetDependencies d i = []"
  proof (rule ccontr)
    assume "getUnmetDependencies d i \<noteq> []"
    then have "hd (getUnmetDependencies d i) \<in> set (getUnmetDependencies d i)" by (rule hd_in_set)
    then obtain x where "x \<in> set (getUnmetDependencies d i)" by blast
    moreover obtain e p where "x = (e, p)" by (rule prod.exhaust)
    ultimately have "(e, p) \<in> set (getUnmetDependencies d i)" by simp
    then have e: "e \<in> set (db_deps d)" "dp_job e = i" "get_job d (dp_on e) = Some p" "dp_kind e = ''hard''" "jb_status p \<noteq> ''succeeded''"
      by (auto simp: getUnmetDependencies_def getDependencies_def join_on_iff)
    have p: "p \<in> set (db_jobs d)" "jb_id p = dp_on e" using get_job_mem_id [OF e(3)] by simp_all
    have "(i, dp_on e) \<in> dep_edges d" using e(1,2) by (force simp: dep_edges_def)
    then have "dp_on e \<notin> ?Q" using i(2) by blast
    then have "jb_status p \<noteq> ''queued''" using p by blast
    then have "jb_status p \<in> set TERMINAL_JOB_STATUSES" using assms(5) p(1) by blast
    then have "jb_status p \<in> set DEADLOCK_TERMINAL_STATUSES" using e(5) unfolding DEADLOCK_TERMINAL_STATUSES_def set_filter by blast
    then have "(e, p) \<in> set (failed_deps d i)" using e by (auto simp: failed_deps_def getDependencies_def join_on_iff)
    then have "failed_deps d i \<noteq> []" by auto
    then have "j \<in> set (filter (\<lambda>j. jb_status j = ''queued'' \<and> True \<and> failed_deps d (jb_id j) \<noteq> []) (db_jobs d))" using j by simp
    moreover have "filter (\<lambda>j. jb_status j = ''queued'' \<and> True \<and> failed_deps d (jb_id j) \<noteq> []) (db_jobs d) = []"
      using assms(2) by (simp only: findDeadlockedJobs_def map_is_Nil_conv option.case)
    ultimately show False by (simp only: list.set(1) empty_iff)
  qed
  then show ?thesis using j by blast
qed

definition dep_job_example :: "nat \<Rightarrow> string \<Rightarrow> job" where
  "dep_job_example i st = \<lparr>jb_id = i, jb_wi = 1, jb_type = ''dev'', jb_status = st, jb_parent = None, jb_attempt_count = 0,
     jb_verdict = ''not_assessed'', jb_ready_at = [], jb_assess_only = False, jb_db_only = False,
     jb_scope = \<lparr>js_files = [], js_roots = [], js_unknown = True\<rparr>, jb_claims = [], jb_lease_owner = None,
     jb_lease_token = None, jb_lease_expires_at = [], jb_more = job_more_new ''2024''\<rparr>"

definition dep_example :: qdb where
  "dep_example = \<lparr>db_jobs = [dep_job_example 1 ''succeeded'', dep_job_example 2 ''queued'', dep_job_example 3 ''queued''], db_wis = [],
     db_wi_locks = [], db_job_locks = [], db_deps = [\<lparr>dp_job = 2, dp_on = 1, dp_kind = ''hard''\<rparr>, \<lparr>dp_job = 3, dp_on = 2, dp_kind = ''hard''\<rparr>],
     db_gates = [], db_budget_paused = [], db_attempts = [], db_outbox = [], db_sched_locks = []\<rparr>"

lemma no_deadlock_means_progress_witness:
  "\<exists>j \<in> set (db_jobs dep_example). jb_status j = ''queued'' \<and> getUnmetDependencies dep_example (jb_id j) = []"
proof (rule no_deadlock_means_progress)
  have "dep_edges dep_example = dep_edges (fold dep_step [DepAdd 2 1 ''hard'', DepAdd 3 2 ''hard''] (dep_example\<lparr>db_deps := []\<rparr>))"
    by code_simp
  then show "acyclic (dep_edges dep_example)"
    using deps.run_inv [OF no_deps_acyclic, of "[DepAdd 2 1 ''hard'', DepAdd 3 2 ''hard'']" dep_example] unfolding dep_acyclic_def by (rule ssubst)
  show "findDeadlockedJobs dep_example None = []" by code_simp
  show "dep_job_example 2 ''queued'' \<in> set (db_jobs dep_example)" by code_simp
  show "jb_status (dep_job_example 2 ''queued'') = ''queued''" by code_simp
  show "\<forall>j \<in> set (db_jobs dep_example). jb_status j = ''queued'' \<or> jb_status j \<in> set TERMINAL_JOB_STATUSES" by code_simp
qed

end
