(* ===== verification/LeaseClock.thy ===== *)
theory LeaseClock
  imports QueueDb
begin

text \<open>
  \<open>domains/queue/functions/lease-clock.js\<close>: the clock of the job leases, which never runs backwards
  when the wall clock does, and the text form of its times. A clock reading is a number of any
  ordered ring (the code's are milliseconds, the monotonic ones with fractions); the text form is
  taken of whole milliseconds, as \<open>Date\<close> truncates them.
\<close>

section \<open>Times as text\<close>

definition pad_nat :: "nat \<Rightarrow> nat \<Rightarrow> string" where
  "pad_nat k n = (let s = show_nat n in replicate (k - length s) (CHR ''0'') @ s)"

text \<open>The proleptic Gregorian date of a number of days since 1970-01-01: year, month, day.\<close>

definition civil_date :: "int \<Rightarrow> int \<times> int \<times> int" where
  "civil_date days =
     (let z = days + 719468; era = z div 146097; doe = z mod 146097;
          yoe = (doe - doe div 1460 + doe div 36524 - doe div 146096) div 365;
          doy = doe - (365 * yoe + yoe div 4 - yoe div 100);
          mp = (5 * doy + 2) div 153;
          m = (if mp < 10 then mp + 3 else mp - 9)
      in (yoe + era * 400 + (if m \<le> 2 then 1 else 0), m, doy - (153 * mp + 2) div 5 + 1))"

definition year_text :: "int \<Rightarrow> string" where
  "year_text y = (if 0 \<le> y \<and> y \<le> 9999 then pad_nat 4 (nat y)
     else if y < 0 then ''-'' @ pad_nat 6 (nat (- y)) else ''+'' @ pad_nat 6 (nat y))"

text \<open>\<open>new Date(ms).toISOString()\<close> for a time that \<open>Date\<close> can represent.\<close>

definition iso_string :: "int \<Rightarrow> string" where
  "iso_string ms =
     (case civil_date (ms div 86400000) of (y, m, dd) \<Rightarrow>
       let t = ms mod 86400000
       in year_text y @ ''-'' @ pad_nat 2 (nat m) @ ''-'' @ pad_nat 2 (nat dd) @ ''T'' @ pad_nat 2 (nat (t div 3600000)) @ '':''
          @ pad_nat 2 (nat (t div 60000 mod 60)) @ '':'' @ pad_nat 2 (nat (t div 1000 mod 60)) @ ''.'' @ pad_nat 3 (nat (t mod 1000)) @ ''Z'')"

section \<open>Settings\<close>

definition is_digit :: "char \<Rightarrow> bool" where
  "is_digit c = (let n = of_char c :: nat in 48 \<le> n \<and> n \<le> 57)"

definition digits_value :: "string \<Rightarrow> int" where
  "digits_value s = foldl (\<lambda>v c. 10 * v + (of_char c - 48)) 0 s"

text \<open>\<open>Number.parseInt(s, 10)\<close>; \<open>None\<close> is \<open>NaN\<close>.\<close>

definition parse_int :: "string \<Rightarrow> int option" where
  "parse_int s =
     (let t = dropWhile js_white s;
          negative = (case t of c # _ \<Rightarrow> c = CHR ''-'' | [] \<Rightarrow> False);
          signed = (case t of c # _ \<Rightarrow> c = CHR ''-'' \<or> c = CHR ''+'' | [] \<Rightarrow> False);
          ds = takeWhile is_digit (if signed then tl t else t)
      in if ds = [] then None else Some (if negative then - digits_value ds else digits_value ds))"

text \<open>A setting that is missing or cannot be read is the empty text, as the code falls back alike.\<close>

definition readPositiveIntSetting :: "string \<Rightarrow> int \<Rightarrow> int" where
  "readPositiveIntSetting raw fallback = (case parse_int raw of Some n \<Rightarrow> if n \<ge> 0 then n else fallback | None \<Rightarrow> fallback)"

definition leaseRequeueGraceSec :: "string \<Rightarrow> int" where
  "leaseRequeueGraceSec raw = readPositiveIntSetting raw 60"

section \<open>The clock\<close>

text \<open>The last wall time it gave out, with the monotonic time it was given at.\<close>

definition leaseNowMs :: "'a :: linordered_idom \<Rightarrow> 'a \<Rightarrow> ('a \<times> 'a) option \<Rightarrow> 'a \<times> ('a \<times> 'a) option" where
  "leaseNowMs wall steady st =
     (case st of None \<Rightarrow> (wall, Some (wall, steady))
      | Some (lw, lm) \<Rightarrow>
        if wall \<ge> lw then (wall, Some (wall, steady))
        else let elapsed = max 0 (steady - lm); synthesized = max lw (lw + elapsed)
          in (synthesized, Some (synthesized, steady)))"

definition graceCutoff :: "int \<Rightarrow> int \<Rightarrow> string" where
  "graceCutoff now_ms grace =
     (let s = iso_string (now_ms - grace * 1000) in take 23 (takeWhile (\<lambda>c. c \<noteq> CHR ''Z'') s @ tl (dropWhile (\<lambda>c. c \<noteq> CHR ''Z'') s)) @ ''Z'')"

text \<open>The readings of a sequence of calls, in call order.\<close>

fun clock_run :: "('a :: linordered_idom \<times> 'a) list \<Rightarrow> ('a \<times> 'a) option \<Rightarrow> 'a list" where
  "clock_run [] st = []"
| "clock_run ((wall, steady) # xs) st = (case leaseNowMs wall steady st of (t, st1) \<Rightarrow> t # clock_run xs st1)"

text \<open>
  The lease clock never goes backwards: whatever the wall clock and the monotonic clock read at
  each call, the times it gives out are in order, and none is before the wall clock of its call.
\<close>

theorem lease_clock_is_monotone:
  "sorted (clock_run xs None) \<and> list_all2 (\<lambda>(wall, _) t. wall \<le> t) xs (clock_run xs None)"
proof -
  have now: "t \<ge> wall \<and> st1 = Some (t, steady) \<and> (case st of None \<Rightarrow> True | Some (lw, _) \<Rightarrow> lw \<le> t)"
    if "leaseNowMs wall steady st = (t, st1)" for wall steady t :: 'a and st st1
    using that by (auto simp: leaseNowMs_def Let_def split: option.splits prod.splits if_splits)
  have later: "\<forall>t \<in> set (clock_run xs (Some (w, m))). w \<le> t" for xs and w m :: 'a
  proof (induction xs arbitrary: w m)
    case (Cons x xs)
    obtain wall steady where x: "x = (wall, steady)" by (cases x)
    obtain t st1 where t: "leaseNowMs wall steady (Some (w, m)) = (t, st1)" by (rule prod.exhaust)
    have "w \<le> t" "st1 = Some (t, steady)" using now [OF t] by simp_all
    then show ?case using Cons.IH [of t steady] unfolding x by (auto simp: t)
  qed simp
  have "sorted (clock_run xs st) \<and> list_all2 (\<lambda>(wall, _) t. wall \<le> t) xs (clock_run xs st)" for xs and st :: "('a \<times> 'a) option"
  proof (induction xs arbitrary: st)
    case (Cons x xs)
    obtain wall steady where x: "x = (wall, steady)" by (cases x)
    obtain t st1 where t: "leaseNowMs wall steady st = (t, st1)" by (rule prod.exhaust)
    have st1: "wall \<le> t" "st1 = Some (t, steady)" using now [OF t] by simp_all
    then show ?case using Cons.IH [of st1] later [of xs t steady] unfolding x by (simp add: t)
  qed simp
  then show ?thesis .
qed

end
