(* ===== verification/Attempts.thy ===== *)
theory Attempts
  imports FileLocks Dependencies LeaseClock
begin

text \<open>
  \<open>domains/queue/functions/attempts.js\<close>: the attempt rows of a job and its attempt counters. A
  caller passes the texts of \<open>now()\<close> and of the grace cutoff that the code computes on the spot. The
  start hook that the queue registers is an argument. A constraint of the tables that an insert or
  update violates raises, and the transaction is rolled back.
\<close>

section \<open>Vocabulary\<close>

definition JOB_ATTEMPT_WORKER_TYPES :: "string list" where
  "JOB_ATTEMPT_WORKER_TYPES =
     [''researcher'', ''planner'', ''delegator'', ''dev'', ''assessor'', ''system'', ''human'', ''artificer'', ''preflight'']"

definition JOB_REASONING_EFFORTS :: "string list" where
  "JOB_REASONING_EFFORTS = [''low'', ''medium'', ''high'']"

definition ASSESSMENT_LIFECYCLE_STATES :: "string list" where
  "ASSESSMENT_LIFECYCLE_STATES =
     [''not_started'', ''implementation_complete'', ''assessment_pending'', ''assessment_passed'', ''assessment_failed'',
      ''assessment_needs_human'', ''assessment_unavailable'', ''assessment_waived'']"

definition ATTEMPT_STATUSES :: "string list" where
  "ATTEMPT_STATUSES = [''running'', ''succeeded'', ''failed'', ''interrupted'', ''blocked'', ''canceled'']"

definition set_more :: "(job_more \<Rightarrow> job_more) \<Rightarrow> job \<Rightarrow> job" where
  "set_more f j = j\<lparr>jb_more := f (jb_more j)\<rparr>"

section \<open>Rows\<close>

definition job_attempts :: "qdb \<Rightarrow> nat \<Rightarrow> attempt list" where
  "job_attempts d i = filter (\<lambda>a. at_job a = i) (db_attempts d)"

definition max_of :: "nat list \<Rightarrow> nat" where
  "max_of xs = foldr max xs 0"

text \<open>\<open>(MAX(attempt_number) ?? 0) + 1\<close> and the next \<open>AUTOINCREMENT\<close> id; attempt rows are never deleted.\<close>

definition next_attempt_number :: "qdb \<Rightarrow> nat \<Rightarrow> nat" where
  "next_attempt_number d i = Suc (max_of (map at_number (job_attempts d i)))"

definition next_attempt_id :: "qdb \<Rightarrow> nat" where
  "next_attempt_id d = Suc (max_of (map at_id (db_attempts d)))"

definition blank_metrics :: attempt_metrics where
  "blank_metrics = \<lparr>am_prompt_chars = None, am_output_chars = None, am_input_tokens = None, am_output_tokens = None,
     am_prompt_artifact = None, am_output_artifact = None, am_notes = None\<rparr>"

definition attempt_constraint :: "qdb \<Rightarrow> attempt \<Rightarrow> bool" where
  "attempt_constraint d a \<longleftrightarrow> get_job d (at_job a) \<noteq> None \<and> at_kind a \<in> {''implementation'', ''assessment'', ''human''} \<and>
     at_worker a \<in> set JOB_ATTEMPT_WORKER_TYPES \<and> (case at_effort a of None \<Rightarrow> True | Some e \<Rightarrow> e \<in> set JOB_REASONING_EFFORTS) \<and>
     \<not> list_ex (\<lambda>b. at_job b = at_job a \<and> at_number b = at_number a) (db_attempts d)"

definition new_attempt :: "qdb \<Rightarrow> nat \<Rightarrow> string \<Rightarrow> string \<Rightarrow> string option \<Rightarrow> string option \<Rightarrow> string \<Rightarrow> attempt" where
  "new_attempt d i kind worker model effort ts =
     \<lparr>at_id = next_attempt_id d, at_job = i, at_number = next_attempt_number d i, at_kind = kind, at_worker = worker, at_model = model,
      at_effort = effort, at_status = ''running'', at_started_at = ts, at_finished_at = None, at_duration = None, at_error = None,
      at_metrics = blank_metrics, at_commit = None, at_commit_base = None, at_session = (None, None, None)\<rparr>"

definition update_attempt :: "nat \<Rightarrow> (attempt \<Rightarrow> attempt) \<Rightarrow> qdb \<Rightarrow> qdb" where
  "update_attempt i f d = d\<lparr>db_attempts := map (\<lambda>a. if at_id a = i then f a else a) (db_attempts d)\<rparr>"

section \<open>Whose lease it is\<close>

definition lease_live :: "job \<Rightarrow> string option \<Rightarrow> string \<Rightarrow> bool" where
  "lease_live j tok cutoff \<longleftrightarrow> jb_lease_token j = tok \<and> jb_status j \<in> set LEASE_HOLDING_STATUSES \<and>
     jb_lease_expires_at j \<noteq> [] \<and> \<not> str_less (jb_lease_expires_at j) cutoff"

definition isLeaseValid :: "qdb \<Rightarrow> nat \<Rightarrow> string option \<Rightarrow> string \<Rightarrow> bool" where
  "isLeaseValid d i tok cutoff = (case get_job d i of None \<Rightarrow> False | Some j \<Rightarrow> lease_live j tok cutoff)"

section \<open>Starting attempts\<close>

type_synonym attempt_result = "(nat \<times> attempt) option dep_result"

definition incrementAndCreateAttempt ::
  "(nat \<Rightarrow> qdb \<Rightarrow> qdb) \<Rightarrow> nat \<Rightarrow> string option \<Rightarrow> string \<Rightarrow> string option \<Rightarrow> string option \<Rightarrow> bool \<Rightarrow> string \<Rightarrow> string \<Rightarrow> qdb \<Rightarrow>
     qdb \<times> attempt_result" where
  "incrementAndCreateAttempt hook i tok worker model effort setupOnly cutoff ts d =
     (case get_job d i of None \<Rightarrow> (d, Dep_done None)
      | Some j \<Rightarrow>
        if \<not> lease_live j tok cutoff then (d, Dep_done None)
        else
          let d1 = (if setupOnly then d else update_job i (set_more (\<lambda>m. m\<lparr>jm_review_correction := False\<rparr>)) (hook i d));
              count = jb_attempt_count j + 1;
              d2 = update_job i (\<lambda>j. set_more (\<lambda>m. m\<lparr>jm_assess_count := if setupOnly then jm_assess_count m else 0,
                     jm_state_version := jm_state_version m + 1\<rparr>) (j\<lparr>jb_attempt_count := count\<rparr>)) d1;
              a = new_attempt d1 i (if worker = ''human'' then ''human'' else ''implementation'') worker model effort ts
          in if attempt_constraint d2 a then (d2\<lparr>db_attempts := db_attempts d2 @ [a]\<rparr>, Dep_done (Some (count, a)))
             else (d, Sql_error))"

definition incrementAndCreateAssessmentAttempt ::
  "nat \<Rightarrow> string option \<Rightarrow> string option \<Rightarrow> string option \<Rightarrow> string \<Rightarrow> string \<Rightarrow> qdb \<Rightarrow> qdb \<times> attempt_result" where
  "incrementAndCreateAssessmentAttempt i tok model effort cutoff ts d =
     (case get_job d i of None \<Rightarrow> (d, Dep_done None)
      | Some j \<Rightarrow>
        if \<not> lease_live j tok cutoff then (d, Dep_done None)
        else
          let count = jm_assess_count (jb_more j) + 1;
              a = new_attempt d i ''assessment'' ''assessor'' model effort ts;
              d1 = update_job i (set_more (\<lambda>m. m\<lparr>jm_assess_count := count, jm_assess_state := ''assessment_pending'', jm_assess_error := None,
                     jm_state_version := jm_state_version m + 1\<rparr>)) d
          in if attempt_constraint d1 a then (d1\<lparr>db_attempts := db_attempts d1 @ [a]\<rparr>, Dep_done (Some (count, a)))
             else (d, Sql_error))"

definition beginAttachedAssessmentAttempt :: "nat \<Rightarrow> string option \<Rightarrow> qdb \<Rightarrow> qdb \<times> (nat \<times> nat option \<times> string) option" where
  "beginAttachedAssessmentAttempt i tok d =
     (case get_job d i of None \<Rightarrow> (d, None)
      | Some j \<Rightarrow>
        if tok = None \<or> jb_lease_token j \<noteq> tok \<or> jb_status j \<notin> set LEASE_HOLDING_STATUSES then (d, None)
        else let count = jm_assess_count (jb_more j) + 1 in
          (update_job i (set_more (\<lambda>m. m\<lparr>jm_assess_count := count, jm_assess_state := ''assessment_pending'', jm_assess_error := None,
             jm_state_version := jm_state_version m + 1\<rparr>)) d,
           Some (count, jm_assess_max (jb_more j), ''assessment_pending'')))"

section \<open>Ending attempts\<close>

text \<open>
  \<open>interruptAssessmentAttempt\<close>. The counter is given back while the attempt's lease is the job's, or
  once the job has no lease and this is the latest attempt.
\<close>

definition interruptAssessmentAttempt ::
  "nat \<Rightarrow> nat \<Rightarrow> string option \<Rightarrow> bool \<Rightarrow> int \<Rightarrow> string \<Rightarrow> string \<Rightarrow> qdb \<Rightarrow> qdb \<times> bool" where
  "interruptAssessmentAttempt i aid tok canceled duration reason ts d =
     (if \<not> list_ex (\<lambda>a. at_id a = aid \<and> at_job a = i \<and> at_status a = ''running'') (db_attempts d) then (d, False)
      else
        let d1 = d\<lparr>db_attempts := map (\<lambda>a. if at_id a = aid \<and> at_job a = i \<and> at_status a = ''running''
                     then a\<lparr>at_status := (if canceled then ''canceled'' else ''interrupted''), at_duration := Some duration,
                       at_error := Some reason, at_finished_at := Some ts\<rparr> else a) (db_attempts d)\<rparr>;
            mine = (\<lambda>j. (tok \<noteq> None \<and> jb_lease_token j = tok) \<or>
                     (jb_lease_token j = None \<and> jb_status j \<in> {''queued'', ''canceled''} \<and>
                      job_attempts d1 i \<noteq> [] \<and> aid = max_of (map at_id (job_attempts d1 i))))
        in (update_job i (\<lambda>j. if mine j then set_more (\<lambda>m. m\<lparr>jm_assess_count := jm_assess_count m - 1,
               jm_assess_state := ''implementation_complete'', jm_assess_error := Some reason,
               jm_state_version := jm_state_version m + 1\<rparr>) j else j) d1, True))"

definition setAssessmentLifecycle :: "nat \<Rightarrow> string \<Rightarrow> string option \<Rightarrow> bool \<Rightarrow> string \<Rightarrow> qdb \<Rightarrow> (qdb \<times> bool) option" where
  "setAssessmentLifecycle i state err completed ts d =
     (if state \<notin> set ASSESSMENT_LIFECYCLE_STATES then None
      else Some (update_job i (set_more (\<lambda>m. m\<lparr>jm_assess_state := state, jm_assess_error := map_option (take 4000) err,
             jm_assess_completed_at := (if completed then Some ts else jm_assess_completed_at m),
             jm_state_version := jm_state_version m + 1\<rparr>)) d, get_job d i \<noteq> None))"

definition extendAssessmentMaxAttempts :: "nat \<Rightarrow> int \<Rightarrow> qdb \<Rightarrow> qdb \<times> bool" where
  "extendAssessmentMaxAttempts i minMax d =
     (update_job i (set_more (\<lambda>m. m\<lparr>jm_assess_max :=
        Some (max (case jm_assess_max m of None \<Rightarrow> 0 | Some n \<Rightarrow> n) (nat (max 1 minMax)))\<rparr>)) d, get_job d i \<noteq> None)"

text \<open>
  \<open>beginJobRetryGeneration\<close> on the stored payload: the marker, the budget and the tier it returns. A
  budget of 0 means 3.
\<close>

definition beginJobRetryGeneration :: "nat \<Rightarrow> int \<Rightarrow> qdb \<Rightarrow> qdb \<times> (nat \<times> nat \<times> string) option" where
  "beginJobRetryGeneration i attemptBudget d =
     (case get_job d i of None \<Rightarrow> (d, None)
      | Some j \<Rightarrow>
        let marker = max_of (map at_number (job_attempts d i));
            budget = nat (max 1 (if attemptBudget = 0 then 3 else attemptBudget));
            tier = (if (if jm_model_tier (jb_more j) = [] then ''standard'' else jm_model_tier (jb_more j)) = ''cheap'' then ''cheap'' else ''standard'')
        in (update_job i (\<lambda>j. set_more (\<lambda>m. m\<lparr>jm_retry_generation := Some marker, jm_skip_assessment := False, jm_repeat_key := None,
               jm_max_attempts := jb_attempt_count j + budget, jm_model_tier := tier, jm_model_name := None\<rparr>) j) d,
            Some (marker, budget, tier)))"

definition completeAttempt ::
  "nat \<Rightarrow> string \<Rightarrow> int option \<Rightarrow> attempt_metrics \<Rightarrow> string option \<Rightarrow> string option \<Rightarrow> string \<Rightarrow> qdb \<Rightarrow> qdb dep_result" where
  "completeAttempt aid status duration metrics err commit ts d =
     (if status \<notin> set ATTEMPT_STATUSES \<and> list_ex (\<lambda>a. at_id a = aid) (db_attempts d) then Sql_error
      else Dep_done (update_attempt aid (\<lambda>a. a\<lparr>at_status := status, at_finished_at := Some ts, at_duration := duration,
             at_metrics := metrics, at_error := err, at_commit := (case commit of None \<Rightarrow> at_commit a | Some c \<Rightarrow> Some c)\<rparr>) d))"

definition setAttemptCommitHash :: "nat \<Rightarrow> string option \<Rightarrow> string option \<Rightarrow> qdb \<Rightarrow> qdb" where
  "setAttemptCommitHash aid commit base d = update_attempt aid (\<lambda>a. a\<lparr>at_commit := commit,
     at_commit_base := (case base of None \<Rightarrow> at_commit_base a | Some b \<Rightarrow> if b = [] then at_commit_base a else Some b)\<rparr>) d"

definition setAttemptModelName :: "nat \<Rightarrow> string option \<Rightarrow> qdb \<Rightarrow> qdb" where
  "setAttemptModelName aid model d = update_attempt aid (\<lambda>a. a\<lparr>at_model := model\<rparr>) d"

definition setAttemptSession :: "nat \<Rightarrow> nat option \<Rightarrow> string option \<Rightarrow> nat option \<Rightarrow> qdb \<Rightarrow> qdb" where
  "setAttemptSession aid session tok hops d = update_attempt aid (\<lambda>a. a\<lparr>at_session := (session, tok, hops)\<rparr>) d"

section \<open>Queries\<close>

definition getAttempts :: "qdb \<Rightarrow> nat \<Rightarrow> attempt list" where
  "getAttempts d i = sort_key at_number (job_attempts d i)"

definition currentAttemptNumber :: "qdb \<Rightarrow> nat \<Rightarrow> nat" where
  "currentAttemptNumber d i =
     (let attempts = getAttempts d i; running = filter (\<lambda>a. at_status a = ''running'') attempts
      in if running = [] then length attempts + 1
         else if at_number (last running) = 0 then length attempts else at_number (last running))"

definition hasImplementationAttempts :: "qdb \<Rightarrow> nat \<Rightarrow> bool" where
  "hasImplementationAttempts d i = list_ex (\<lambda>a. at_kind a = ''implementation'') (job_attempts d i)"

definition getLatestAttempt :: "qdb \<Rightarrow> nat \<Rightarrow> attempt option" where
  "getLatestAttempt d i = (case rev (getAttempts d i) of [] \<Rightarrow> None | a # _ \<Rightarrow> Some a)"

section \<open>Attempt numbers\<close>

lemma max_of_ge: "x \<in> set xs \<Longrightarrow> x \<le> max_of xs"
  by (induction xs) (auto simp: max_of_def)

lemma next_attempt_number_gt: "a \<in> set (job_attempts d i) \<Longrightarrow> at_number a < next_attempt_number d i"
  using max_of_ge [of "at_number a" "map at_number (job_attempts d i)"] by (simp add: next_attempt_number_def)

lemma update_job_attempts [simp]: "db_attempts (update_job i f d) = db_attempts d"
  by (simp add: update_job_def)

definition attempt_keys :: "qdb \<Rightarrow> (nat \<times> nat \<times> nat) list" where
  "attempt_keys d = map (\<lambda>a. (at_id a, at_job a, at_number a)) (db_attempts d)"

lemma attempt_keys_update:
  "(\<And>a. at_id (f a) = at_id a \<and> at_job (f a) = at_job a \<and> at_number (f a) = at_number a) \<Longrightarrow>
     attempt_keys (update_attempt i f d) = attempt_keys d"
  by (simp add: attempt_keys_def update_attempt_def)

definition attempts_ok :: "qdb \<Rightarrow> bool" where
  "attempts_ok d \<longleftrightarrow> distinct (map (\<lambda>a. (at_job a, at_number a)) (db_attempts d)) \<and> distinct (map at_id (db_attempts d))"

lemma attempts_ok_keys: "attempt_keys d' = attempt_keys d \<Longrightarrow> attempts_ok d' = attempts_ok d"
proof -
  assume k: "attempt_keys d' = attempt_keys d"
  have "map (\<lambda>a. (at_job a, at_number a)) (db_attempts x) = map snd (attempt_keys x)"
    "map at_id (db_attempts x) = map fst (attempt_keys x)" for x
    by (simp_all add: attempt_keys_def comp_def)
  then show ?thesis using k by (simp add: attempts_ok_def)
qed

lemma attempts_ok_same: "db_attempts d' = db_attempts d \<Longrightarrow> attempts_ok d \<Longrightarrow> attempts_ok d'"
  unfolding attempts_ok_def by simp

lemma attempts_ok_append:
  assumes ok: "attempts_ok d" and same: "db_attempts d' = db_attempts d"
  shows "attempts_ok (d'\<lparr>db_attempts := db_attempts d' @ [new_attempt d i kind worker model effort ts]\<rparr>)"
proof -
  define a where "a = new_attempt d i kind worker model effort ts"
  have at: "at_id a = next_attempt_id d" "at_job a = i" "at_number a = next_attempt_number d i" by (simp_all add: a_def new_attempt_def)
  have 1: "at_id b < next_attempt_id d" if "b \<in> set (db_attempts d)" for b
    using max_of_ge [of "at_id b" "map at_id (db_attempts d)"] that by (simp add: next_attempt_id_def less_Suc_eq_le)
  have 2: "at_number b < next_attempt_number d i" if "b \<in> set (db_attempts d)" "at_job b = i" for b
    using next_attempt_number_gt [of b d i] that by (simp add: job_attempts_def)
  have "next_attempt_id d \<notin> at_id ` set (db_attempts d)"
  proof
    assume "next_attempt_id d \<in> at_id ` set (db_attempts d)"
    then obtain b where "b \<in> set (db_attempts d)" "at_id b = next_attempt_id d" by (elim imageE) simp
    then show False using 1 [of b] by simp
  qed
  moreover have "distinct (map at_id (db_attempts d))" using ok by (simp add: attempts_ok_def)
  ultimately have d1: "distinct (map at_id (db_attempts d @ [a]))" by (simp add: at(1))
  have "(i, next_attempt_number d i) \<notin> (\<lambda>a. (at_job a, at_number a)) ` set (db_attempts d)"
  proof
    assume "(i, next_attempt_number d i) \<in> (\<lambda>a. (at_job a, at_number a)) ` set (db_attempts d)"
    then obtain b where "b \<in> set (db_attempts d)" "(i, next_attempt_number d i) = (at_job b, at_number b)" by (rule imageE)
    then have b: "b \<in> set (db_attempts d)" "i = at_job b \<and> next_attempt_number d i = at_number b"
      unfolding prod.inject by blast+
    have "at_number b < next_attempt_number d i" by (rule 2 [OF b(1)]) (use b(2) in blast)
    then show False using b(2) by linarith
  qed
  moreover have "distinct (map (\<lambda>a. (at_job a, at_number a)) (db_attempts d))" using ok by (simp add: attempts_ok_def)
  ultimately have d2: "distinct (map (\<lambda>a. (at_job a, at_number a)) (db_attempts d @ [a]))"
    by (simp add: at(2,3))
  have "db_attempts (d'\<lparr>db_attempts := db_attempts d' @ [a]\<rparr>) = db_attempts d @ [a]" by (simp add: same)
  then show ?thesis using d1 d2 unfolding attempts_ok_def a_def [symmetric] by simp
qed

datatype attempt_event =
    AtStart nat "string option" string "string option" "string option" bool string string
  | AtAssess nat "string option" "string option" "string option" string string
  | AtAttach nat "string option"
  | AtInterrupt nat nat "string option" bool int string string
  | AtLifecycle nat string "string option" bool string
  | AtExtend nat int
  | AtRetry nat int
  | AtComplete nat string "int option" attempt_metrics "string option" "string option" string
  | AtCommit nat "string option" "string option"
  | AtModel nat "string option"
  | AtSession nat "nat option" "string option" "nat option"
  | AtOther "job list"

text \<open>\<open>AtOther\<close> stands for whatever else happens to the jobs in between, such as refunds and requeues.\<close>

fun attempt_step :: "(nat \<Rightarrow> qdb \<Rightarrow> qdb) \<Rightarrow> attempt_event \<Rightarrow> qdb \<Rightarrow> qdb" where
  "attempt_step h (AtStart i tok worker model effort prep cutoff ts) d = fst (incrementAndCreateAttempt h i tok worker model effort prep cutoff ts d)"
| "attempt_step h (AtAssess i tok model effort cutoff ts) d = fst (incrementAndCreateAssessmentAttempt i tok model effort cutoff ts d)"
| "attempt_step h (AtAttach i tok) d = fst (beginAttachedAssessmentAttempt i tok d)"
| "attempt_step h (AtInterrupt i aid tok canceled duration reason ts) d = fst (interruptAssessmentAttempt i aid tok canceled duration reason ts d)"
| "attempt_step h (AtLifecycle i state err completed ts) d =
     (case setAssessmentLifecycle i state err completed ts d of None \<Rightarrow> d | Some (d1, _) \<Rightarrow> d1)"
| "attempt_step h (AtExtend i n) d = fst (extendAssessmentMaxAttempts i n d)"
| "attempt_step h (AtRetry i n) d = fst (beginJobRetryGeneration i n d)"
| "attempt_step h (AtComplete aid status duration metrics err commit ts) d =
     (case completeAttempt aid status duration metrics err commit ts d of Dep_done d1 \<Rightarrow> d1 | Sql_error \<Rightarrow> d)"
| "attempt_step h (AtCommit aid commit base) d = setAttemptCommitHash aid commit base d"
| "attempt_step h (AtModel aid model) d = setAttemptModelName aid model d"
| "attempt_step h (AtSession aid session tok hops) d = setAttemptSession aid session tok hops d"
| "attempt_step h (AtOther js) d = d\<lparr>db_jobs := js\<rparr>"

lemma attempt_keys_same: "db_attempts d' = db_attempts d \<Longrightarrow> attempt_keys d' = attempt_keys d"
  by (simp add: attempt_keys_def)

lemma start_attempts_ok:
  assumes ok: "attempts_ok d" and h: "db_attempts (h i d) = db_attempts d"
  shows "attempts_ok (fst (incrementAndCreateAttempt h i tok worker model effort prep cutoff ts d))"
proof (cases "get_job d i")
  case None
  then show ?thesis using ok by (simp add: incrementAndCreateAttempt_def)
next
  case (Some j)
  define d1 where "d1 = (if prep then d else update_job i (set_more (\<lambda>m. m\<lparr>jm_review_correction := False\<rparr>)) (h i d))"
  define d2 where "d2 = update_job i (\<lambda>k. set_more (\<lambda>m. m\<lparr>jm_assess_count := if prep then jm_assess_count m else 0,
                     jm_state_version := jm_state_version m + 1\<rparr>) (k\<lparr>jb_attempt_count := jb_attempt_count j + 1\<rparr>)) d1"
  define a where "a = new_attempt d1 i (if worker = ''human'' then ''human'' else ''implementation'') worker model effort ts"
  have d1: "db_attempts d1 = db_attempts d" using h by (simp add: d1_def)
  have "incrementAndCreateAttempt h i tok worker model effort prep cutoff ts d =
      (if \<not> lease_live j tok cutoff then (d, Dep_done None)
       else if attempt_constraint d2 a then (d2\<lparr>db_attempts := db_attempts d2 @ [a]\<rparr>, Dep_done (Some (jb_attempt_count j + 1, a)))
       else (d, Sql_error))"
    unfolding incrementAndCreateAttempt_def Some Let_def option.case d1_def [symmetric] d2_def [symmetric] a_def [symmetric] by (rule refl)
  moreover have "attempts_ok (d2\<lparr>db_attempts := db_attempts d2 @ [a]\<rparr>)"
    unfolding a_def by (rule attempts_ok_append) (rule attempts_ok_same [OF d1 ok], simp add: d2_def)
  ultimately show ?thesis using ok by simp
qed

lemma assess_attempts_ok:
  assumes ok: "attempts_ok d"
  shows "attempts_ok (fst (incrementAndCreateAssessmentAttempt i tok model effort cutoff ts d))"
proof (cases "get_job d i")
  case None
  then show ?thesis using ok by (simp add: incrementAndCreateAssessmentAttempt_def)
next
  case (Some j)
  define f where "f = set_more (\<lambda>m. m\<lparr>jm_assess_count := jm_assess_count (jb_more j) + 1, jm_assess_state := ''assessment_pending'',
    jm_assess_error := None, jm_state_version := jm_state_version m + 1\<rparr>)"
  define a where "a = new_attempt d i ''assessment'' ''assessor'' model effort ts"
  have "incrementAndCreateAssessmentAttempt i tok model effort cutoff ts d =
      (if \<not> lease_live j tok cutoff then (d, Dep_done None)
       else if attempt_constraint (update_job i f d) a
       then ((update_job i f d)\<lparr>db_attempts := db_attempts (update_job i f d) @ [a]\<rparr>, Dep_done (Some (jm_assess_count (jb_more j) + 1, a)))
       else (d, Sql_error))"
    unfolding incrementAndCreateAssessmentAttempt_def Some Let_def option.case f_def [symmetric] a_def [symmetric] by (rule refl)
  moreover have "attempts_ok ((update_job i f d)\<lparr>db_attempts := db_attempts (update_job i f d) @ [a]\<rparr>)"
    unfolding a_def by (rule attempts_ok_append [OF ok]) simp
  ultimately show ?thesis using ok by simp
qed

lemma interrupt_keys: "attempt_keys (fst (interruptAssessmentAttempt i aid tok canceled duration reason ts d)) = attempt_keys d"
proof (cases "list_ex (\<lambda>a. at_id a = aid \<and> at_job a = i \<and> at_status a = ''running'') (db_attempts d)")
  case True
  have "db_attempts (fst (interruptAssessmentAttempt i aid tok canceled duration reason ts d)) =
      map (\<lambda>a. if at_id a = aid \<and> at_job a = i \<and> at_status a = ''running''
        then a\<lparr>at_status := (if canceled then ''canceled'' else ''interrupted''), at_duration := Some duration,
               at_error := Some reason, at_finished_at := Some ts\<rparr> else a) (db_attempts d)"
    unfolding interruptAssessmentAttempt_def Let_def using True by (simp only: not_True_eq_False if_False fst_conv update_job_attempts) simp
  then show ?thesis unfolding attempt_keys_def by (simp add: comp_def)
qed (simp add: interruptAssessmentAttempt_def)

lemma complete_keys: "completeAttempt aid status duration metrics err commit ts d = Dep_done d' \<Longrightarrow> attempt_keys d' = attempt_keys d"
  unfolding completeAttempt_def by (simp only: dep_result.inject dep_result.distinct split: if_splits) (clarsimp simp: attempt_keys_update)

lemma retry_attempts:
  "db_attempts (fst (beginAttachedAssessmentAttempt i tok d)) = db_attempts d"
  "db_attempts (fst (extendAssessmentMaxAttempts i n d)) = db_attempts d"
  "db_attempts (fst (beginJobRetryGeneration i n d)) = db_attempts d"
proof -
  show "db_attempts (fst (beginAttachedAssessmentAttempt i tok d)) = db_attempts d"
    by (cases "get_job d i") (simp_all add: beginAttachedAssessmentAttempt_def Let_def)
  show "db_attempts (fst (extendAssessmentMaxAttempts i n d)) = db_attempts d"
    by (simp add: extendAssessmentMaxAttempts_def)
  show "db_attempts (fst (beginJobRetryGeneration i n d)) = db_attempts d"
    by (cases "get_job d i") (simp_all only: beginJobRetryGeneration_def Let_def option.case fst_conv update_job_attempts)
qed

lemma other_keys:
  "attempt_keys (fst (beginAttachedAssessmentAttempt i tok d)) = attempt_keys d"
  "attempt_keys (fst (extendAssessmentMaxAttempts i n d)) = attempt_keys d"
  "attempt_keys (fst (beginJobRetryGeneration i n d)) = attempt_keys d"
  "attempt_keys (setAttemptCommitHash aid commit base d) = attempt_keys d"
  "attempt_keys (setAttemptModelName aid model d) = attempt_keys d"
  "attempt_keys (setAttemptSession aid session tok hops d) = attempt_keys d"
  by (rule attempt_keys_same, rule retry_attempts)+
    (simp_all add: setAttemptCommitHash_def setAttemptModelName_def setAttemptSession_def attempt_keys_update)

lemma lifecycle_keys: "setAssessmentLifecycle i state err completed ts d = Some (d', b) \<Longrightarrow> attempt_keys d' = attempt_keys d"
  unfolding setAssessmentLifecycle_def
  by (simp only: option.distinct option.inject prod.inject split: if_splits) (clarsimp simp: attempt_keys_def)

lemma attempt_step_ok:
  assumes ok: "attempts_ok d" and h: "\<And>i d. db_attempts (h i d) = db_attempts d"
  shows "attempts_ok (attempt_step h e d)"
proof -
  have same: "attempts_ok x" if "attempt_keys x = attempt_keys d" for x using ok attempts_ok_keys [OF that] by simp
  show ?thesis
  proof (cases e)
    case (AtStart i tok worker model effort prep cutoff ts)
    show ?thesis unfolding AtStart attempt_step.simps using start_attempts_ok [OF ok, of h] h by blast
  next
    case (AtAssess i tok model effort cutoff ts)
    show ?thesis unfolding AtAssess attempt_step.simps by (rule assess_attempts_ok [OF ok])
  next
    case (AtInterrupt i aid tok canceled duration reason ts)
    show ?thesis unfolding AtInterrupt attempt_step.simps by (rule same) (rule interrupt_keys)
  next
    case (AtLifecycle i state err completed ts)
    show ?thesis
    proof (cases "setAssessmentLifecycle i state err completed ts d")
      case None
      then show ?thesis using ok by (simp add: AtLifecycle)
    next
      case (Some r)
      then obtain d' b where r: "setAssessmentLifecycle i state err completed ts d = Some (d', b)" by (cases r) simp
      show ?thesis unfolding AtLifecycle attempt_step.simps r using same [OF lifecycle_keys [OF r]] by simp
    qed
  next
    case (AtComplete aid status duration metrics err commit ts)
    show ?thesis
    proof (cases "completeAttempt aid status duration metrics err commit ts d")
      case (Dep_done d')
      then show ?thesis using same [OF complete_keys [OF Dep_done]] by (simp add: AtComplete)
    qed (use ok in \<open>simp add: AtComplete\<close>)
  next
    case (AtOther js)
    then show ?thesis using ok attempts_ok_same [of "d\<lparr>db_jobs := js\<rparr>" d] by simp
  qed (simp_all only: attempt_step.simps, (rule same, rule other_keys)+)
qed

text \<open>
  Two attempts of a job never have the same number, whatever attempts are started, assessed,
  interrupted and completed and whatever happens to the counters in between, so the uniqueness
  constraint of the table is never violated.
\<close>

theorem attempt_numbers_are_unique:
  assumes "\<And>i d. db_attempts (h i d) = db_attempts d" "db_attempts d0 = []"
  shows "distinct (map (\<lambda>a. (at_job a, at_number a)) (db_attempts (fold (attempt_step h) es d0)))"
proof -
  have sys: "step_system (attempt_step h) attempts_ok" by (rule step_system.intro) (rule attempt_step_ok [OF _ assms(1)])
  have "attempts_ok d0" by (simp add: attempts_ok_def assms(2))
  then show ?thesis using step_system.run_inv [OF sys] by (simp add: attempts_ok_def)
qed

lemma attempt_numbers_are_unique_witness:
  "distinct (map (\<lambda>a. (at_job a, at_number a)) (db_attempts (fold (attempt_step (\<lambda>i d. d))
     [AtStart 2 (Some ''t'') ''dev'' None None False ''2025'' ''2025'', AtRetry 2 0] dep_example)))"
  by (rule attempt_numbers_are_unique) (simp_all add: dep_example_def)

section \<open>The attempt that runs\<close>

lemma insort_key_snoc: "f x \<le> f a \<Longrightarrow> (\<And>y. y \<in> set ys \<Longrightarrow> f y \<le> (f a :: nat)) \<Longrightarrow> insort_key f x (ys @ [a]) = insort_key f x ys @ [a]"
  by (induction ys) auto

lemma sort_key_snoc: "(\<And>y. y \<in> set xs \<Longrightarrow> f y \<le> (f a :: nat)) \<Longrightarrow> sort_key f (xs @ [a]) = sort_key f xs @ [a]"
proof (induction xs)
  case (Cons x xs)
  have "sort_key f (xs @ [a]) = sort_key f xs @ [a]" using Cons by simp
  then show ?case using insort_key_snoc [of f x a "sort_key f xs"] Cons.prems by simp
qed simp

lemma started_attempt:
  assumes "db_attempts d' = db_attempts d @ [a]" "a = new_attempt d i kind worker model effort ts"
  shows "getAttempts d' i = getAttempts d i @ [a]"
proof -
  have at: "at_job a = i" "at_number a = next_attempt_number d i" by (simp_all add: assms(2) new_attempt_def)
  have "job_attempts d' i = job_attempts d i @ [a]" using at by (simp add: job_attempts_def assms(1))
  then show ?thesis unfolding getAttempts_def
    using sort_key_snoc [of "job_attempts d i" at_number a] next_attempt_number_gt [of _ d i] at(2) by (simp add: less_imp_le)
qed

text \<open>
  The attempt that a worker has just started is the job's current and latest attempt, with a
  number above every earlier one, even when counters were refunded before.
\<close>

theorem started_attempt_is_current:
  assumes "incrementAndCreateAttempt h i tok worker model effort prep cutoff ts d = (d', Dep_done (Some (n, a)))"
  shows "currentAttemptNumber d' i = at_number a \<and> getLatestAttempt d' i = Some a \<and> at_status a = ''running'' \<and>
     list_all (\<lambda>b. b = a \<or> at_number b < at_number a) (getAttempts d' i)"
proof (cases "get_job d i")
  case None
  then show ?thesis using assms by (simp add: incrementAndCreateAttempt_def)
next
  case (Some j)
  define d1 where "d1 = (if prep then d else update_job i (set_more (\<lambda>m. m\<lparr>jm_review_correction := False\<rparr>)) (h i d))"
  let ?a = "new_attempt d1 i (if worker = ''human'' then ''human'' else ''implementation'') worker model effort ts"
  have a: "a = ?a" and d': "db_attempts d' = db_attempts d1 @ [?a]"
    using assms unfolding incrementAndCreateAttempt_def Some d1_def [symmetric] by (auto simp: Let_def split: if_splits)
  have at: "at_number a = next_attempt_number d1 i" "at_status a = ''running''" by (simp_all add: a new_attempt_def)
  have g: "getAttempts d' i = getAttempts d1 i @ [a]" unfolding a by (rule started_attempt [OF d' refl])
  have "at_number b < at_number a" if "b \<in> set (getAttempts d1 i)" for b
    using next_attempt_number_gt [of b d1 i] that at(1) by (simp add: getAttempts_def)
  then show ?thesis using at by (auto simp: g currentAttemptNumber_def getLatestAttempt_def next_attempt_number_def list_all_iff)
qed

definition attempt_example :: qdb where
  "attempt_example = update_job 2 (\<lambda>j. j\<lparr>jb_status := ''leased'', jb_lease_token := Some ''t'', jb_lease_expires_at := ''2026''\<rparr>) dep_example"

lemma started_attempt_is_current_witness:
  "currentAttemptNumber (fst (incrementAndCreateAttempt (\<lambda>i d. d) 2 (Some ''t'') ''dev'' None None False ''2025'' ''2025'' attempt_example)) 2 = 1"
proof -
  let ?r = "incrementAndCreateAttempt (\<lambda>i d. d) 2 (Some ''t'') ''dev'' None None False ''2025'' ''2025'' attempt_example"
  let ?a = "new_attempt attempt_example 2 ''implementation'' ''dev'' None None ''2025''"
  have "snd ?r = Dep_done (Some (1, ?a))" by code_simp
  then have r: "?r = (fst ?r, Dep_done (Some (1, ?a)))" by (metis prod.collapse)
  have "at_number ?a = 1" by code_simp
  then show ?thesis using started_attempt_is_current [OF r] by simp
qed

end
