(* ===== verification/Leases.thy ===== *)
theory Leases
  imports Attempts
begin

text \<open>
  Job leases: \<open>domains/queue/functions/leases.js\<close> (taking, renewing and releasing a lease, and the
  durable request that a parked job resume after a human gate) and the recovery sweeps of
  \<open>queue-store.js\<close> (\<open>clearExpiredParkedLeaseTokens\<close>, \<open>requeueOrphanedJobs\<close>, \<open>requeueExpiredLeases\<close>).

  The texts of \<open>now()\<close>, of the new expiry and of the grace cutoff are arguments, as is the random
  lease token; SQLite's \<open>julianday\<close> is the argument \<open>jd\<close>. A payload of an outbox row is kept as its
  fields. Handoffs between work items are switched off (theory QueueDb), so that
  \<open>rollbackPendingCrossWiSyncHandoffsForJob\<close> has nothing to roll back and no job has a reviewed
  reservation. The sweeps return the work items whose status their caller refreshes afterwards.
\<close>

section \<open>Vocabulary\<close>

definition JOB_STATUSES :: "string list" where
  "JOB_STATUSES = [''queued'', ''leased'', ''running'', ''awaiting_assessment'', ''blocked'', ''waiting_on_human'',
     ''waiting_on_review'', ''succeeded'', ''failed'', ''dead_letter'', ''canceled'']"

definition HUMAN_GATE_RESUMABLE_JOB_STATUSES :: "string list" where
  "HUMAN_GATE_RESUMABLE_JOB_STATUSES = PARKED_JOB_STATUSES @ [''awaiting_assessment'']"

definition PARKED_LEASE_STATUSES :: "string list" where
  "PARKED_LEASE_STATUSES = filter (\<lambda>s. s \<notin> set ACTIVE_LEASE_STATUSES) LEASE_HOLDING_STATUSES"

text \<open>\<open>UPDATE jobs SET .. WHERE id = ? AND ..\<close> with the number of changed rows, 0 or 1.\<close>

definition cas_job :: "nat \<Rightarrow> (job \<Rightarrow> bool) \<Rightarrow> (job \<Rightarrow> job) \<Rightarrow> qdb \<Rightarrow> qdb \<times> bool" where
  "cas_job i P f d =
     (case get_job d i of None \<Rightarrow> (d, False) | Some j \<Rightarrow> if P j then (update_job i f d, True) else (d, False))"

definition clear_lease :: "job \<Rightarrow> job" where
  "clear_lease j = j\<lparr>jb_lease_owner := None, jb_lease_token := None, jb_lease_expires_at := []\<rparr>"

section \<open>Resuming after a human gate\<close>

definition pendingHumanGateResumeEffects :: "qdb \<Rightarrow> nat \<Rightarrow> gate_effect list" where
  "pendingHumanGateResumeEffects d i =
     filter (\<lambda>e. ge_type e = ''resume_original_job'' \<and> ge_state e = ''pending'' \<and> ge_original e = i) (db_outbox d)"

definition settle_effect :: "string \<Rightarrow> string \<Rightarrow> string option \<Rightarrow> string \<Rightarrow> gate_effect \<Rightarrow> gate_effect" where
  "settle_effect state oc err ts e =
     e\<lparr>ge_state := state, ge_outcome := Some oc, ge_settled_at := Some ts,
       ge_completed_at := (if state = ''completed'' then Some ts else None),
       ge_attempts := Suc (ge_attempts e), ge_error := map_option (take 500) err\<rparr>"

definition settleHumanGateResumeEffects ::
  "gate_effect list \<Rightarrow> string \<Rightarrow> string \<Rightarrow> string option \<Rightarrow> string \<Rightarrow> qdb \<Rightarrow> qdb" where
  "settleHumanGateResumeEffects effects state oc err ts d =
     d\<lparr>db_outbox := map (\<lambda>e. if list_ex (\<lambda>x. ge_id x = ge_id e) effects \<and> ge_state e = ''pending''
         then settle_effect state oc err ts e else e) (db_outbox d)\<rparr>"

text \<open>\<open>resumed: true\<close>, \<open>pending: true\<close>, or neither with the status seen.\<close>

datatype resume_result = Resumed job | Resume_pending job | Not_resumed "string option"

definition resume_row :: "job \<Rightarrow> job" where
  "resume_row j = set_more (\<lambda>m. m\<lparr>jm_finished_at := None, jm_state_version := jm_state_version m + 1\<rparr>)
     ((clear_lease j)\<lparr>jb_status := ''queued''\<rparr>)"

definition consumePendingHumanGateResume :: "nat \<Rightarrow> string \<Rightarrow> qdb \<Rightarrow> qdb \<times> resume_result" where
  "consumePendingHumanGateResume i ts d =
     (let effects = pendingHumanGateResumeEffects d i in
      if effects = [] then (d, Not_resumed None)
      else (case get_job d i of
          None \<Rightarrow> (settleHumanGateResumeEffects effects ''failed'' ''original_job_missing''
              (Some ''Original job disappeared before its pending human resume could run'') ts d, Not_resumed None)
        | Some j \<Rightarrow>
          if jb_status j = ''queued''
          then (settleHumanGateResumeEffects effects ''completed'' ''already_queued'' None ts d, Resumed j)
          else if jb_status j \<notin> set HUMAN_GATE_RESUMABLE_JOB_STATUSES
          then (settleHumanGateResumeEffects effects ''failed'' ''source_state_changed''
              (Some (''Original job became '' @ jb_status j @ '' before its pending human resume could run'')) ts d,
            Not_resumed (Some (jb_status j)))
          else if jb_lease_token j \<noteq> None then (d, Resume_pending j)
          else (case cas_job i (\<lambda>k. jb_status k = jb_status j \<and> jb_lease_token k = None) resume_row d of
              (d1, changed) \<Rightarrow>
                if \<not> changed then (d1, Resume_pending j)
                else (settleHumanGateResumeEffects effects ''completed'' ''requeued'' None ts d1, Resumed (resume_row j)))))"

datatype resume_request =
    Resume_refused string "string option"
  | Resume_idempotent bool
  | Resume_requeued job
  | Resume_deferred job

definition new_resume_effect :: "nat \<Rightarrow> string \<Rightarrow> nat \<Rightarrow> string \<Rightarrow> string \<Rightarrow> qdb \<Rightarrow> gate_effect" where
  "new_resume_effect gate key original reason status d =
     \<lparr>ge_id = Suc (max_of (map ge_id (db_outbox d))), ge_gate = gate, ge_key = key, ge_type = ''resume_original_job'',
      ge_original = original, ge_reason = take 240 reason, ge_source_status = status, ge_state = ''pending'', ge_outcome = None,
      ge_settled_at = None, ge_completed_at = None, ge_attempts = 0, ge_error = None\<rparr>"

text \<open>\<open>INSERT .. ON CONFLICT(operation_key) DO NOTHING\<close>; the gate must exist when a row is inserted.\<close>

definition insert_effect :: "gate_effect \<Rightarrow> qdb \<Rightarrow> qdb option" where
  "insert_effect e d =
     (if list_ex (\<lambda>x. ge_key x = ge_key e) (db_outbox d) then Some d
      else if list_ex (\<lambda>g. gt_job g = ge_gate e) (db_gates d) then Some (d\<lparr>db_outbox := db_outbox d @ [e]\<rparr>)
      else None)"

definition requestParkedJobResumeAfterGate ::
  "nat \<Rightarrow> nat \<Rightarrow> string \<Rightarrow> string \<Rightarrow> string \<Rightarrow> qdb \<Rightarrow> qdb \<times> resume_request dep_result" where
  "requestParkedJobResumeAfterGate gate original operationKey reason ts d =
     (let key = js_trim operationKey in
      if key = [] then (d, Dep_done (Resume_refused ''invalid_resume_request'' None))
      else (case get_job d original of
          None \<Rightarrow> (d, Dep_done (Resume_refused ''original_job_missing'' None))
        | Some j \<Rightarrow> (case insert_effect (new_resume_effect gate key original reason (jb_status j) d) d of
            None \<Rightarrow> (d, Sql_error)
          | Some d1 \<Rightarrow> (case find (\<lambda>e. ge_key e = key) (db_outbox d1) of
              None \<Rightarrow> (d1, Dep_done (Resume_refused ''resume_effect_missing'' None))
            | Some e \<Rightarrow>
              if ge_state e = ''completed'' then (d1, Dep_done (Resume_idempotent (jb_status j = ''queued'')))
              else if ge_state e = ''failed''
              then (d1, Dep_done (Resume_refused (case ge_error e of None \<Rightarrow> ''resume_effect_failed''
                    | Some m \<Rightarrow> if m = [] then ''resume_effect_failed'' else m) None))
              else if jb_status j \<noteq> ''queued'' \<and> jb_status j \<notin> set HUMAN_GATE_RESUMABLE_JOB_STATUSES
              then (settleHumanGateResumeEffects [e] ''failed'' ''source_state_changed''
                    (Some (''Original job is '' @ jb_status j @ ''; expected a resumable parked state'')) ts d1,
                  Dep_done (Resume_refused ''original_state_changed'' (Some (jb_status j))))
              else (case consumePendingHumanGateResume original ts d1 of
                  (d2, Resumed k) \<Rightarrow> (releaseJobLocksForStatus original ''queued'' ts d2, Dep_done (Resume_requeued k))
                | (d2, Resume_pending k) \<Rightarrow> (d2, Dep_done (Resume_deferred k))
                | (d2, Not_resumed st) \<Rightarrow> (d2, Dep_done (Resume_refused ''resume_not_applied'' st)))))))"

section \<open>Leases\<close>

definition acquireLease :: "nat \<Rightarrow> string \<Rightarrow> string \<Rightarrow> string \<Rightarrow> qdb \<Rightarrow> qdb \<times> string option" where
  "acquireLease i owner token expires d =
     (case cas_job i (\<lambda>j. jb_status j = ''queued'' \<and> jb_wi j \<notin> set (db_budget_paused d))
         (\<lambda>j. j\<lparr>jb_status := ''leased'', jb_lease_owner := Some owner, jb_lease_token := Some token, jb_lease_expires_at := expires\<rparr>) d of
       (d1, ok) \<Rightarrow> (d1, if ok then Some token else None))"

definition renewLease :: "nat \<Rightarrow> string \<Rightarrow> string \<Rightarrow> string \<Rightarrow> qdb \<Rightarrow> qdb \<times> bool" where
  "renewLease i token expires cutoff d =
     cas_job i (\<lambda>j. lease_live j (Some token) cutoff)
       (\<lambda>j. j\<lparr>jb_lease_expires_at := (if str_less expires (jb_lease_expires_at j) then jb_lease_expires_at j else expires)\<rparr>) d"

definition release_row :: "string \<Rightarrow> string option \<Rightarrow> string \<Rightarrow> job \<Rightarrow> job" where
  "release_row final ready ts j =
     set_more (\<lambda>m. m\<lparr>jm_finished_at := (if final \<in> set TERMINAL_JOB_STATUSES then Some ts else jm_finished_at m),
         jm_last_error := (if final = ''succeeded'' then None else jm_last_error m)\<rparr>)
       ((clear_lease j)\<lparr>jb_status := final, jb_ready_at := (case ready of None \<Rightarrow> jb_ready_at j | Some r \<Rightarrow> r)\<rparr>)"

definition releaseLease :: "nat \<Rightarrow> string \<Rightarrow> string \<Rightarrow> string option \<Rightarrow> string \<Rightarrow> qdb \<Rightarrow> qdb \<times> bool dep_result" where
  "releaseLease i token final ready ts d =
     (case cas_job i (\<lambda>j. jb_lease_token j = Some token \<and> jb_status j \<in> set LEASE_HOLDING_STATUSES) (release_row final ready ts) d of
       (d1, ok) \<Rightarrow>
         if \<not> ok then (d, Dep_done False)
         else if final \<notin> set JOB_STATUSES then (d, Sql_error)
         else (case consumePendingHumanGateResume i ts d1 of
             (d2, Resumed _) \<Rightarrow> (releaseJobLocksForStatus i ''queued'' ts d2, Dep_done True)
           | (d2, _) \<Rightarrow> (releaseJobLocksForStatus i final ts d2, Dep_done True)))"

definition releaseLeaseWithoutAttemptPenalty ::
  "nat \<Rightarrow> string \<Rightarrow> string \<Rightarrow> string option \<Rightarrow> nat option \<Rightarrow> string \<Rightarrow> qdb \<Rightarrow> qdb \<times> bool dep_result" where
  "releaseLeaseWithoutAttemptPenalty i token final ready attempt_id ts d =
     (case releaseLease i token final ready ts d of
       (d1, Dep_done True) \<Rightarrow>
         (case attempt_id of
            None \<Rightarrow> (if final = ''queued''
              then d1\<lparr>db_wi_locks := filter (\<lambda>l. \<not> (wl_source l = Some i \<and> wl_released l = None \<and> wl_token l = Some token)) (db_wi_locks d1)\<rparr>
              else d1)
          | Some a \<Rightarrow> (if list_ex (\<lambda>x. at_id x = a \<and> at_job x = i \<and> at_kind x \<in> {''implementation'', ''human''}) (db_attempts d1)
              then update_job i (\<lambda>j. j\<lparr>jb_attempt_count := jb_attempt_count j - 1\<rparr>) d1 else d1),
          Dep_done True)
     | (d1, r) \<Rightarrow> (d1, r))"

section \<open>Recovery sweeps\<close>

text \<open>A lease that a parked job still has although it lapsed, was never dated, or cannot be read.\<close>

definition parked_lease_stale :: "(string \<Rightarrow> ('t :: linorder) option) \<Rightarrow> string \<Rightarrow> job \<Rightarrow> bool" where
  "parked_lease_stale jd cutoff j \<longleftrightarrow>
     jb_status j \<in> set PARKED_LEASE_STATUSES \<and> jb_lease_token j \<noteq> None \<and>
     (jb_lease_expires_at j = [] \<or>
      (case jd (jb_lease_expires_at j) of None \<Rightarrow> True
       | Some t \<Rightarrow> (case jd cutoff of None \<Rightarrow> False | Some c \<Rightarrow> t < c)))"

definition clear_parked_row :: "string \<Rightarrow> job \<Rightarrow> qdb \<times> nat \<Rightarrow> qdb \<times> nat" where
  "clear_parked_row ts row acc =
     (case acc of (d, n) \<Rightarrow>
       (case cas_job (jb_id row) (\<lambda>j. jb_lease_token j = jb_lease_token row \<and> jb_status j \<in> set PARKED_LEASE_STATUSES) clear_lease d of
         (d1, ok) \<Rightarrow>
           if \<not> ok then (d1, n)
           else (case consumePendingHumanGateResume (jb_id row) ts d1 of
               (d2, Resumed _) \<Rightarrow> (releaseJobLocksForStatus (jb_id row) ''queued'' ts d2, Suc n)
             | (d2, _) \<Rightarrow> (d2, Suc n))))"

definition clearExpiredParkedLeaseTokens :: "(string \<Rightarrow> ('t :: linorder) option) \<Rightarrow> string \<Rightarrow> string \<Rightarrow> qdb \<Rightarrow> qdb \<times> nat" where
  "clearExpiredParkedLeaseTokens jd ts cutoff d =
     fold (clear_parked_row ts) (filter (parked_lease_stale jd cutoff) (db_jobs d)) (d, 0)"

text \<open>The attempt that a requeue gives back: the job's latest one, while it runs.\<close>

definition refunds_attempt :: "qdb \<Rightarrow> job \<Rightarrow> bool" where
  "refunds_attempt d j \<longleftrightarrow> jb_status j = ''running'' \<and>
     list_ex (\<lambda>a. at_id a = max_of (map at_id (job_attempts d (jb_id j))) \<and> at_status a = ''running'' \<and>
       at_kind a \<in> {''implementation'', ''human''}) (job_attempts d (jb_id j))"

definition requeue_row :: "qdb \<Rightarrow> string \<Rightarrow> job \<Rightarrow> job" where
  "requeue_row d ts j =
     set_more (\<lambda>m. m\<lparr>jm_finished_at := None\<rparr>)
       ((clear_lease j)\<lparr>jb_status := ''queued'', jb_ready_at := ts,
          jb_attempt_count := (if refunds_attempt d j then jb_attempt_count j - 1 else jb_attempt_count j)\<rparr>)"

definition fail_warm_row :: "string \<Rightarrow> string \<Rightarrow> job \<Rightarrow> job" where
  "fail_warm_row err ts j =
     set_more (\<lambda>m. m\<lparr>jm_finished_at := Some ts, jm_last_error := (case jm_last_error m of None \<Rightarrow> Some err | Some e \<Rightarrow> Some e)\<rparr>)
       ((clear_lease j)\<lparr>jb_status := ''failed''\<rparr>)"

definition settle_plan_row :: "string \<Rightarrow> job \<Rightarrow> job" where
  "settle_plan_row ts j =
     set_more (\<lambda>m. m\<lparr>jm_finished_at := (case jm_finished_at m of None \<Rightarrow> Some ts | Some t \<Rightarrow> Some t), jm_last_error := None\<rparr>)
       ((clear_lease j)\<lparr>jb_status := ''succeeded''\<rparr>)"

definition mark_assess_only :: "job \<Rightarrow> job" where
  "mark_assess_only j = j\<lparr>jb_assess_only := True\<rparr>"

text \<open>The rows that \<open>requeueExpiredLeases\<close> looks for, and a planner whose work is already durable.\<close>

definition lease_expired :: "string \<Rightarrow> job \<Rightarrow> bool" where
  "lease_expired cutoff j \<longleftrightarrow> jb_status j \<in> set ACTIVE_LEASE_STATUSES \<and> jb_lease_owner j \<noteq> None \<and>
     jb_lease_expires_at j \<noteq> [] \<and> str_less (jb_lease_expires_at j) cutoff"

definition completed_plan :: "qdb \<Rightarrow> job \<Rightarrow> bool" where
  "completed_plan d j \<longleftrightarrow> jb_type j = ''plan'' \<and>
     (case getLatestAttempt d (jb_id j) of None \<Rightarrow> False
      | Some a \<Rightarrow> at_status a = ''succeeded'' \<and>
          list_ex (\<lambda>c. jb_parent c = Some (jb_id j) \<and> \<not> str_less (jm_created_at (jb_more c)) (at_started_at a)) (db_jobs d))"

text \<open>
  One row of the sweep: the database, how many jobs went back to the queue, and the work items that
  were affected. The status of a job that an assessment left behind is remembered in its payload.
\<close>

definition expired_row :: "string \<Rightarrow> string \<Rightarrow> job \<times> bool \<Rightarrow> qdb \<times> nat \<times> nat list \<Rightarrow> qdb \<times> nat \<times> nat list" where
  "expired_row ts cutoff entry acc =
     (case (entry, acc) of ((row, plan_done), d, n, ws) \<Rightarrow>
       let i = jb_id row; warm = (jb_type row = ''atlas_warm'');
           f = (if plan_done then settle_plan_row ts
                else if warm then fail_warm_row ''atlas_warm: lease expired (fail-silent per policy)'' ts
                else requeue_row d ts)
       in (case cas_job i (\<lambda>j. jb_lease_token row \<noteq> None \<and> jb_lease_token j = jb_lease_token row \<and> lease_expired cutoff j) f d of
           (d1, ok) \<Rightarrow>
             if \<not> ok then (d1, n, ws)
             else if plan_done then (releaseJobLocksForStatus i ''succeeded'' ts d1, n, ws @ [jb_wi row])
             else if warm then (releaseJobLocksForStatus i ''failed'' ts d1, n, ws @ [jb_wi row])
             else
               let d2 = releaseJobLocksForStatus i ''queued'' ts (fst (consumePendingHumanGateResume i ts d1))
               in (if jb_status row = ''awaiting_assessment'' then update_job i mark_assess_only d2 else d2, Suc n, ws @ [jb_wi row])))"

definition requeueExpiredLeases ::
  "(string \<Rightarrow> ('t :: linorder) option) \<Rightarrow> string \<Rightarrow> string \<Rightarrow> qdb \<Rightarrow> qdb \<times> nat \<times> nat list" where
  "requeueExpiredLeases jd ts cutoff d =
     (let d1 = fst (clearExpiredParkedLeaseTokens jd ts cutoff d)
      in fold (expired_row ts cutoff) (map (\<lambda>j. (j, completed_plan d1 j)) (filter (lease_expired cutoff) (db_jobs d1))) (d1, 0, []))"

text \<open>
  \<open>requeueOrphanedJobs\<close>: at scheduler start. Fresh leases go only when the caller forces it and
  still owns the scheduler lock. The rows are changed in one transaction; pending resumes are
  consumed and locks released after it.
\<close>

definition may_force :: "bool \<Rightarrow> string option \<Rightarrow> string \<Rightarrow> string \<Rightarrow> qdb \<Rightarrow> bool" where
  "may_force forced owner lock_name ts d \<longleftrightarrow> forced \<and>
     (case owner of None \<Rightarrow> False
      | Some w \<Rightarrow> w \<noteq> [] \<and> (case find (\<lambda>l. sl_name l = lock_name) (db_sched_locks d) of None \<Rightarrow> False
          | Some l \<Rightarrow> sl_owner l = w \<and> \<not> str_less (sl_expires_at l) ts))"

definition orphaned :: "bool \<Rightarrow> string \<Rightarrow> job \<Rightarrow> bool" where
  "orphaned forced lease_now j \<longleftrightarrow> jb_status j \<in> set ACTIVE_LEASE_STATUSES \<and>
     (forced \<or> jb_lease_expires_at j = [] \<or> str_less (jb_lease_expires_at j) lease_now)"

definition orphan_row :: "string \<Rightarrow> job \<Rightarrow> qdb \<times> nat \<times> job list \<Rightarrow> qdb \<times> nat \<times> job list" where
  "orphan_row ts row acc =
     (case acc of (d, n, changed) \<Rightarrow>
       let i = jb_id row; warm = (jb_type row = ''atlas_warm'');
           f = (if warm then fail_warm_row ''atlas_warm: orphaned on scheduler boot (fail-silent per policy)'' ts else requeue_row d ts)
       in (case cas_job i (\<lambda>j. jb_status j = jb_status row \<and> jb_lease_owner j = jb_lease_owner row \<and>
               jb_lease_token j = jb_lease_token row \<and> jb_lease_expires_at j = jb_lease_expires_at row) f d of
           (d1, ok) \<Rightarrow>
             if \<not> ok then (d1, n, changed)
             else if warm then (d1, n, changed @ [row])
             else (if jb_status row = ''awaiting_assessment''
                   then fst (cas_job i (\<lambda>j. jb_status j = ''queued'') mark_assess_only d1) else d1, Suc n, changed @ [row])))"

definition orphan_settle :: "string \<Rightarrow> job \<Rightarrow> qdb \<Rightarrow> qdb" where
  "orphan_settle ts row d =
     (if jb_type row = ''atlas_warm'' then releaseJobLocksForStatus (jb_id row) ''failed'' ts d
      else releaseJobLocksForStatus (jb_id row) ''queued'' ts (fst (consumePendingHumanGateResume (jb_id row) ts d)))"

definition requeueOrphanedJobs ::
  "bool \<Rightarrow> string option \<Rightarrow> string \<Rightarrow> string \<Rightarrow> string \<Rightarrow> qdb \<Rightarrow> qdb \<times> nat \<times> nat list" where
  "requeueOrphanedJobs forced owner lock_name ts lease_now d =
     (case fold (orphan_row ts) (filter (orphaned (may_force forced owner lock_name ts d) lease_now) (db_jobs d)) (d, 0, []) of
       (d1, n, changed) \<Rightarrow> (fold (orphan_settle ts) changed d1, n, map jb_wi changed))"

section \<open>Lease objects and their manager\<close>

text \<open>
  \<open>classes/Lease.js\<close> and \<open>classes/LeaseManager.js\<close> as \<open>getLeaseManager\<close> wires them to the functions
  above. \<open>Date.parse\<close> is the argument \<open>parse\<close>, \<open>wall\<close> the reading of \<open>Date.now()\<close> and \<open>clock\<close> that of
  the lease clock.
\<close>

record lease =
  ls_job :: "nat option"
  ls_token :: "string option"
  ls_expires :: "string option"
  ls_owner :: "string option"

definition some_text :: "string option \<Rightarrow> string option" where
  "some_text t = (case t of None \<Rightarrow> None | Some x \<Rightarrow> if x = [] then None else Some x)"

definition new_lease :: "nat option \<Rightarrow> string option \<Rightarrow> string option \<Rightarrow> string option \<Rightarrow> lease" where
  "new_lease i token expires owner = \<lparr>ls_job = i, ls_token = some_text token, ls_expires = some_text expires, ls_owner = some_text owner\<rparr>"

definition lease_isExpired :: "(string \<Rightarrow> int option) \<Rightarrow> int \<Rightarrow> lease \<Rightarrow> bool" where
  "lease_isExpired parse now_ms l =
     (case ls_expires l of None \<Rightarrow> False | Some t \<Rightarrow> (case parse t of None \<Rightarrow> False | Some e \<Rightarrow> e \<le> now_ms))"

definition lease_msUntilExpiry :: "(string \<Rightarrow> int option) \<Rightarrow> int \<Rightarrow> lease \<Rightarrow> int option" where
  "lease_msUntilExpiry parse now_ms l =
     (case ls_expires l of None \<Rightarrow> None | Some t \<Rightarrow> (case parse t of None \<Rightarrow> None | Some e \<Rightarrow> Some (max 0 (e - now_ms))))"

definition jobHasLiveLeaseAt :: "(string \<Rightarrow> int option) \<Rightarrow> job \<Rightarrow> string \<Rightarrow> bool" where
  "jobHasLiveLeaseAt parse j observed =
     (if some_text (jb_lease_token j) = None \<or> jb_lease_expires_at j = [] then False
      else (case (parse (jb_lease_expires_at j), parse observed) of (Some e, Some t) \<Rightarrow> t \<le> e | _ \<Rightarrow> False))"

text \<open>The configured default; \<open>None\<close> is a value that is not a finite number.\<close>

definition manager_duration :: "int option \<Rightarrow> int" where
  "manager_duration configured = (case configured of None \<Rightarrow> 900 | Some n \<Rightarrow> max 1 n)"

definition buildLease :: "int \<Rightarrow> nat \<Rightarrow> string \<Rightarrow> string \<Rightarrow> int \<Rightarrow> int \<Rightarrow> lease" where
  "buildLease default_sec i token owner duration wall =
     new_lease (Some i) (Some token) (Some (iso_string (wall + max 1 (if duration = 0 then default_sec else duration) * 1000))) (Some owner)"

definition manager_acquire :: "int \<Rightarrow> nat \<Rightarrow> string \<Rightarrow> string \<Rightarrow> int \<Rightarrow> int \<Rightarrow> int \<Rightarrow> qdb \<Rightarrow> qdb \<times> lease option" where
  "manager_acquire default_sec i owner token duration clock wall d =
     (case acquireLease i owner token (iso_string (clock + duration * 1000)) d of
        (d1, None) \<Rightarrow> (d1, None)
      | (d1, Some t) \<Rightarrow> (d1, if t = [] then None else Some (buildLease default_sec i t owner duration wall)))"

definition manager_acquireWithLocks ::
  "(qdb \<Rightarrow> wi_order) \<Rightarrow> int \<Rightarrow> nat \<Rightarrow> string \<Rightarrow> string \<Rightarrow> int \<Rightarrow> int \<Rightarrow> int \<Rightarrow> string \<Rightarrow> qdb \<Rightarrow> qdb \<times> lease option" where
  "manager_acquireWithLocks order_of default_sec i owner token duration clock wall ts d =
     (case acquireLeaseWithWriteLocks order_of i owner token (iso_string (clock + duration * 1000)) ts d of
        (d1, None) \<Rightarrow> (d1, None)
      | (d1, Some t) \<Rightarrow> (d1, if t = [] then None else Some (buildLease default_sec i t owner duration wall)))"

text \<open>The job id and token of a lease that can be used at all; a job id of 0 is falsy.\<close>

definition lease_key :: "lease option \<Rightarrow> (nat \<times> string) option" where
  "lease_key l =
     (case l of None \<Rightarrow> None
      | Some x \<Rightarrow> (case (ls_job x, ls_token x) of (Some i, Some t) \<Rightarrow> if i = 0 \<or> t = [] then None else Some (i, t) | _ \<Rightarrow> None))"

definition manager_renew :: "lease option \<Rightarrow> string \<Rightarrow> string \<Rightarrow> qdb \<Rightarrow> qdb \<times> bool" where
  "manager_renew l expires cutoff d =
     (case lease_key l of None \<Rightarrow> (d, False) | Some (i, t) \<Rightarrow> renewLease i t expires cutoff d)"

definition manager_release :: "lease option \<Rightarrow> string \<Rightarrow> string option \<Rightarrow> string \<Rightarrow> qdb \<Rightarrow> qdb \<times> bool dep_result" where
  "manager_release l final ready ts d =
     (case lease_key l of None \<Rightarrow> (d, Dep_done False) | Some (i, t) \<Rightarrow> releaseLease i t final ready ts d)"

definition manager_releaseWithoutAttemptPenalty ::
  "lease option \<Rightarrow> string \<Rightarrow> string option \<Rightarrow> nat option \<Rightarrow> string \<Rightarrow> qdb \<Rightarrow> qdb \<times> bool dep_result" where
  "manager_releaseWithoutAttemptPenalty l final ready attempt_id ts d =
     (case lease_key l of None \<Rightarrow> (d, Dep_done False)
      | Some (i, t) \<Rightarrow> releaseLeaseWithoutAttemptPenalty i t final ready attempt_id ts d)"

definition manager_isValid :: "lease option \<Rightarrow> string \<Rightarrow> qdb \<Rightarrow> bool" where
  "manager_isValid l cutoff d = (case lease_key l of None \<Rightarrow> False | Some (i, t) \<Rightarrow> isLeaseValid d i (Some t) cutoff)"

end
