(* ===== verification/FileLockSafety.thy ===== *)
theory FileLockSafety
  imports FileLocks
begin

text \<open>
  The file-lock layer as a state machine over the queue database, and what it guarantees: work
  items that can still merge never hold overlapping locks, and a job that may write holds locks on
  all it declared, so two such jobs of different work items never share a path.
\<close>

section \<open>Steps\<close>

datatype fl_event =
    EvLease nat string string string string
  | EvTool nat string string
  | EvExtend nat "string list" string
  | EvBarrier nat string bool string string
  | EvJobStatus nat string string
  | EvWiStatus nat string string
  | EvWiMerge nat string string
  | EvCleanup string
  | EvHandoff nat string string bool string

text \<open>
  A status change goes with the release calls the queue makes for it; a handoff releases a path
  after \<open>workItemCanReleaseFileLock\<close> has agreed; a granted scope expansion adds the paths to the
  payload (\<open>scope-expansion-requests.js\<close>), here in the form the locks have.
\<close>

definition widen_scope :: "string list \<Rightarrow> job \<Rightarrow> job" where
  "widen_scope fs j = j\<lparr>jb_scope := (jb_scope j)\<lparr>js_files := js_files (jb_scope j) @ fs\<rparr>\<rparr>"

fun fl_step :: "bool \<Rightarrow> (qdb \<Rightarrow> wi_order) \<Rightarrow> fl_event \<Rightarrow> qdb \<Rightarrow> qdb" where
  "fl_step win ord (EvLease i owner token expires ts) d = fst (acquireLeaseWithWriteLocks ord i owner token expires ts d)"
| "fl_step win ord (EvTool i path ts) d = fst (verifyOrAcquireJobWriteLockForPath win i path ts d)"
| "fl_step win ord (EvExtend i paths ts) d =
     (case acquireAdditionalJobWritePaths win i paths ts d of
        (d1, Paths_blocked c) \<Rightarrow> d1
      | (d1, _) \<Rightarrow> update_job i (widen_scope (lock_paths win paths)) d1)"
| "fl_step win ord (EvBarrier i token preserve cutoff ts) d = fst (acquireAssessmentBarrier i token preserve cutoff ts d)"
| "fl_step win ord (EvJobStatus i st ts) d = releaseJobLocksForStatus i st ts (update_job i (\<lambda>j. j\<lparr>jb_status := st\<rparr>) d)"
| "fl_step win ord (EvWiStatus i st ts) d = releaseWorkItemLocksForStatus i st ts (update_wi i (\<lambda>w. w\<lparr>wi_status := st\<rparr>) d)"
| "fl_step win ord (EvWiMerge i ms ts) d =
     releaseWorkItemLocksForMergeState win i ms ts (update_wi i (\<lambda>w. w\<lparr>wi_merge_state := ms\<rparr>) d)"
| "fl_step win ord (EvCleanup ts) d = fst (cleanupStaleFileLocks ts d)"
| "fl_step win ord (EvHandoff i path kind parked ts) d =
     (if workItemCanReleaseFileLock win d i path kind parked = Idle_path
      then releaseWorkItemFileLockForPath win i path kind ''path_handoff'' ts d else d)"

text \<open>
  What a step may not do for the guarantee to hold: start a job other than through a lease; resume
  a work item that stopped holding locks (merged, failed, canceled, or completed without a branch)
  while it has unreleased locks or a live writer; extend the locks of a job under assessment, for
  which the conflict test does not look at other work items; merge a work item whose released
  claims, when restored, overlap one another or a third work item's locks.
\<close>

definition may_write :: "job \<Rightarrow> bool" where
  "may_write j \<longleftrightarrow> jobNeedsWriteLocks j \<and> \<not> jb_assess_only j \<and> jb_lease_token j \<noteq> None \<and>
     jb_status j \<in> set ACTIVE_INNER_LOCK_STATUSES"

definition wi_idle :: "qdb \<Rightarrow> nat \<Rightarrow> bool" where
  "wi_idle d i \<longleftrightarrow> list_all (\<lambda>l. wl_wi l = i \<longrightarrow> wl_released l \<noteq> None) (db_wi_locks d) \<and>
     list_all (\<lambda>j. jb_wi j = i \<longrightarrow> \<not> may_write j) (db_jobs d)"

definition job_live :: "qdb \<Rightarrow> nat \<Rightarrow> bool" where
  "job_live d i \<longleftrightarrow> (case get_job d i of None \<Rightarrow> True | Some j \<Rightarrow> jb_status j \<in> set ACTIVE_INNER_LOCK_STATUSES)"

definition job_unassessed :: "qdb \<Rightarrow> nat \<Rightarrow> bool" where
  "job_unassessed d i \<longleftrightarrow> (case get_job d i of None \<Rightarrow> True | Some j \<Rightarrow> \<not> jobNeedsAssessmentBarrier j)"

definition claims_free :: "bool \<Rightarrow> nat \<Rightarrow> qdb \<Rightarrow> bool" where
  "claims_free win i d \<longleftrightarrow> (\<forall>c \<in> set (order_claims win i d).
     (\<forall>e \<in> set (order_claims win i d). fst e = fst c \<or> \<not> lockRowsOverlap (claim_row c) (claim_row e)) \<and>
     (\<forall>l \<in> set (db_wi_locks d). wl_wi l = fst c \<or> wl_wi l = i \<or> \<not> wi_lock_active d l \<or> \<not> lockRowsOverlap (claim_row c) (wl_row l)))"

fun fl_allowed :: "bool \<Rightarrow> fl_event \<Rightarrow> qdb \<Rightarrow> bool" where
  "fl_allowed win (EvJobStatus i st ts) d \<longleftrightarrow> st \<notin> set ACTIVE_INNER_LOCK_STATUSES \<or> job_live d i"
| "fl_allowed win (EvBarrier i token preserve cutoff ts) d \<longleftrightarrow> job_live d i"
| "fl_allowed win (EvTool i path ts) d \<longleftrightarrow> job_unassessed d i"
| "fl_allowed win (EvExtend i paths ts) d \<longleftrightarrow> job_unassessed d i"
| "fl_allowed win (EvWiStatus i st ts) d \<longleftrightarrow>
     wi_active d i \<or> wi_idle d i \<or> \<not> wi_active (update_wi i (\<lambda>w. w\<lparr>wi_status := st\<rparr>) d) i"
| "fl_allowed win (EvWiMerge i ms ts) d \<longleftrightarrow>
     (if ms = ''merged'' then claims_free win i d
      else wi_active d i \<or> wi_idle d i \<or> \<not> wi_active (update_wi i (\<lambda>w. w\<lparr>wi_merge_state := ms\<rparr>) d) i)"
| "fl_allowed win _ d \<longleftrightarrow> True"

fun fl_run :: "bool \<Rightarrow> (qdb \<Rightarrow> wi_order) \<Rightarrow> fl_event list \<Rightarrow> qdb \<Rightarrow> qdb" where
  "fl_run win ord [] d = d"
| "fl_run win ord (e # es) d = fl_run win ord es (if fl_allowed win e d then fl_step win ord e d else d)"

section \<open>Active rows\<close>

definition active_rows :: "qdb \<Rightarrow> (nat \<times> lock_row) set" where
  "active_rows d = set (map (\<lambda>l. (wl_wi l, wl_row l)) (filter (wi_lock_active d) (db_wi_locks d)))"

definition touch_rows :: "job \<Rightarrow> lock_row set" where
  "touch_rows j = set (scopeToLockRows (getJobPathTouchScope j))"

definition fl_exclusive :: "qdb \<Rightarrow> bool" where
  "fl_exclusive d \<longleftrightarrow> (\<forall>(v, q) \<in> active_rows d. \<forall>(w, r) \<in> active_rows d. v = w \<or> \<not> lockRowsOverlap q r)"

definition fl_covered :: "qdb \<Rightarrow> bool" where
  "fl_covered d \<longleftrightarrow> (\<forall>j \<in> set (db_jobs d). may_write j \<and> wi_active d (jb_wi j) \<longrightarrow>
     (\<forall>r \<in> touch_rows j. (jb_wi j, r) \<in> active_rows d))"

text \<open>The source of an unreleased lock is a job of a locking type, which never changes.\<close>

definition source_ok :: "qdb \<Rightarrow> wi_lock \<Rightarrow> bool" where
  "source_ok d l \<longleftrightarrow> (case wl_source l of None \<Rightarrow> True
     | Some i \<Rightarrow> (case get_job d i of None \<Rightarrow> False | Some j \<Rightarrow> jb_type j \<in> set QUEUE_LOCKING_JOB_TYPES))"

definition fl_inv :: "qdb \<Rightarrow> bool" where
  "fl_inv d \<longleftrightarrow> distinct (map jb_id (db_jobs d)) \<and>
     (\<forall>l \<in> set (db_wi_locks d). wl_released l = None \<longrightarrow> source_ok d l) \<and> fl_exclusive d \<and> fl_covered d"

lemma wi_lock_active_alt: "wi_lock_active d l \<longleftrightarrow> wl_released l = None \<and> wi_active d (wl_wi l) \<and> source_ok d l"
  by (simp add: wi_lock_active_def source_ok_def)

lemma active_rows_iff:
  "(w, r) \<in> active_rows d \<longleftrightarrow> (\<exists>l \<in> set (db_wi_locks d). wl_released l = None \<and> wi_active d (wl_wi l) \<and> source_ok d l \<and> w = wl_wi l \<and> r = wl_row l)"
  by (auto simp: active_rows_def wi_lock_active_alt)

lemma fl_exclusiveI:
  "(\<And>v q w r. (v, q) \<in> active_rows d \<Longrightarrow> (w, r) \<in> active_rows d \<Longrightarrow> lockRowsOverlap q r \<Longrightarrow> v = w) \<Longrightarrow> fl_exclusive d"
  unfolding fl_exclusive_def by blast

lemma fl_exclusiveD:
  "fl_exclusive d \<Longrightarrow> (v, q) \<in> active_rows d \<Longrightarrow> (w, r) \<in> active_rows d \<Longrightarrow> lockRowsOverlap q r \<Longrightarrow> v = w"
  unfolding fl_exclusive_def by blast

lemma rootsOverlap_sym: "rootsOverlap a b = rootsOverlap b a"
  by (cases "a = []"; cases "b = []"; cases "a = ''*''"; cases "b = ''*''") (simp_all add: rootsOverlap_def disj_commute del: isUnderRoot.simps)

lemma lockRowsOverlap_sym: "lockRowsOverlap l r = lockRowsOverlap r l"
proof -
  have ne: "''file'' \<noteq> ''root''" by simp
  consider "lr_kind l = ''file''" | "lr_kind l = ''root''" | "lr_kind l \<noteq> ''file''" "lr_kind l \<noteq> ''root''" by blast
  then show ?thesis
  proof cases
    case 1
    then show ?thesis by (cases "lr_kind r = ''file''") (simp_all add: lockRowsOverlap_def eq_commute)
  next
    case 2
    then show ?thesis by (cases "lr_kind r = ''root''") (simp_all add: lockRowsOverlap_def rootsOverlap_sym)
  next
    case 3
    then show ?thesis by (simp add: lockRowsOverlap_def)
  qed
qed

lemma lockRowsOverlap_refl: "lr_kind r \<in> {''file'', ''root''} \<Longrightarrow> lr_path r \<noteq> [] \<Longrightarrow> lockRowsOverlap r r"
proof -
  assume k: "lr_kind r \<in> {''file'', ''root''}" and ne: "lr_path r \<noteq> []"
  have "rootsOverlap (lr_path r) (lr_path r)"
    using ne by (cases "lr_path r = ''*''") (simp_all add: rootsOverlap_def)
  then show ?thesis using k by (elim insertE) (simp_all add: lockRowsOverlap_def)
qed

lemma get_job_mem: "get_job d i = Some j \<Longrightarrow> j \<in> set (db_jobs d) \<and> jb_id j = i"
  unfolding get_job_def by (auto simp: find_Some_iff)

lemma get_job_distinct: "distinct (map jb_id (db_jobs d)) \<Longrightarrow> j \<in> set (db_jobs d) \<Longrightarrow> get_job d (jb_id j) = Some j"
proof -
  have "distinct (map jb_id xs) \<Longrightarrow> j \<in> set xs \<Longrightarrow> find (\<lambda>x. jb_id x = jb_id j) xs = Some j" for xs
    by (induction xs) auto
  then show "distinct (map jb_id (db_jobs d)) \<Longrightarrow> j \<in> set (db_jobs d) \<Longrightarrow> ?thesis" by (simp add: get_job_def)
qed

subsection \<open>Changing jobs\<close>

lemma find_map_id: "(\<And>j. jb_id (f j) = jb_id j) \<Longrightarrow>
    find (\<lambda>j. jb_id j = i) (map (\<lambda>j. if jb_id j = k then f j else j) xs) =
    map_option (\<lambda>j. if jb_id j = k then f j else j) (find (\<lambda>j. jb_id j = i) xs)"
  by (induction xs) auto

lemma get_job_update: "(\<And>j. jb_id (f j) = jb_id j) \<Longrightarrow>
    get_job (update_job k f d) i = map_option (\<lambda>j. if jb_id j = k then f j else j) (get_job d i)"
  by (simp add: get_job_def update_job_def find_map_id)

lemma update_job_frame [simp]:
  "wi_active (update_job k f d) = wi_active d" "db_wi_locks (update_job k f d) = db_wi_locks d"
  "get_wi (update_job k f d) = get_wi d"
  by (simp_all add: update_job_def wi_active_def get_wi_def fun_eq_iff)

lemma source_ok_update_job:
  assumes "\<And>j. jb_id (f j) = jb_id j" "\<And>j. jb_type (f j) = jb_type j"
  shows "source_ok (update_job k f d) = source_ok d"
proof
  fix l
  show "source_ok (update_job k f d) l = source_ok d l"
    unfolding source_ok_def get_job_update [OF assms(1)] by (simp add: assms(2) split: option.split)
qed

lemma active_rows_cong:
  "db_wi_locks d' = db_wi_locks d \<Longrightarrow> wi_active d' = wi_active d \<Longrightarrow> source_ok d' = source_ok d \<Longrightarrow> active_rows d' = active_rows d"
  by (simp add: active_rows_def wi_lock_active_alt)

lemma fl_inv_update_job:
  assumes inv: "fl_inv d" and f: "\<And>j. jb_id (f j) = jb_id j" "\<And>j. jb_type (f j) = jb_type j" "\<And>j. jb_wi (f j) = jb_wi j"
    and live: "\<And>j r. get_job d k = Some j \<Longrightarrow> may_write (f j) \<Longrightarrow> wi_active d (jb_wi j) \<Longrightarrow> r \<in> touch_rows (f j) \<Longrightarrow>
      may_write j \<and> r \<in> touch_rows j \<or> (jb_wi j, r) \<in> active_rows d"
  shows "fl_inv (update_job k f d)"
proof -
  have dist: "distinct (map jb_id (db_jobs d))" using inv by (simp add: fl_inv_def)
  have ids: "map jb_id (db_jobs (update_job k f d)) = map jb_id (db_jobs d)" by (simp add: update_job_def f)
  have src: "source_ok (update_job k f d) = source_ok d" by (rule source_ok_update_job) (simp_all add: f)
  have rows: "active_rows (update_job k f d) = active_rows d" by (rule active_rows_cong) (simp_all add: src)
  have "fl_covered (update_job k f d)"
    unfolding fl_covered_def rows update_job_frame(1)
  proof (intro ballI impI, elim conjE)
    fix j' r assume j': "j' \<in> set (db_jobs (update_job k f d))" "may_write j'" "wi_active d (jb_wi j')" "r \<in> touch_rows j'"
    then obtain j where j: "j \<in> set (db_jobs d)" "j' = (if jb_id j = k then f j else j)" by (auto simp: update_job_def)
    have same: "jb_wi j' = jb_wi j" using j(2) f by simp
    have cov: "may_write j \<Longrightarrow> r \<in> touch_rows j \<Longrightarrow> (jb_wi j, r) \<in> active_rows d"
      using inv j(1) j'(3) same by (simp add: fl_inv_def fl_covered_def)
    show "(jb_wi j', r) \<in> active_rows d"
    proof (cases "jb_id j = k")
      case True
      then have "get_job d k = Some j" using get_job_distinct [OF dist j(1)] by simp
      then show ?thesis using live [of j r] cov True j(2) j' same by auto
    qed (use cov j j' same in simp)
  qed
  then show ?thesis using inv by (simp add: fl_inv_def ids src rows fl_exclusive_def)
qed

subsection \<open>Releasing locks\<close>

lemma release_job_locks_frame [simp]:
  "db_jobs (release_job_locks P r ts d) = db_jobs d" "wi_active (release_job_locks P r ts d) = wi_active d"
  "db_wi_locks (release_job_locks P r ts d) = db_wi_locks d" "get_job (release_job_locks P r ts d) = get_job d"
  "source_ok (release_job_locks P r ts d) = source_ok d"
  by (simp_all add: release_job_locks_def wi_active_def get_job_def get_wi_def source_ok_def fun_eq_iff split: option.split)

lemma insertJobLocks_frame [simp]:
  "db_jobs (insertJobLocks j s ts d) = db_jobs d" "wi_active (insertJobLocks j s ts d) = wi_active d"
  "db_wi_locks (insertJobLocks j s ts d) = db_wi_locks d" "get_job (insertJobLocks j s ts d) = get_job d"
  "source_ok (insertJobLocks j s ts d) = source_ok d"
  by (simp_all add: insertJobLocks_def wi_active_def get_job_def get_wi_def source_ok_def fun_eq_iff split: option.split)

lemma release_wi_locks_frame [simp]:
  "db_jobs (release_wi_locks P r ts d) = db_jobs d" "wi_active (release_wi_locks P r ts d) = wi_active d"
  "get_job (release_wi_locks P r ts d) = get_job d" "source_ok (release_wi_locks P r ts d) = source_ok d"
  by (simp_all add: release_wi_locks_def wi_active_def get_job_def get_wi_def source_ok_def fun_eq_iff split: option.split)

lemma fl_inv_same:
  assumes "fl_inv d" "db_jobs d' = db_jobs d" "db_wi_locks d' = db_wi_locks d" "wi_active d' = wi_active d" "source_ok d' = source_ok d"
  shows "fl_inv d'"
proof -
  have "active_rows d' = active_rows d" by (rule active_rows_cong) (simp_all add: assms)
  then show ?thesis using assms by (simp add: fl_inv_def fl_exclusive_def fl_covered_def)
qed

lemma release_wi_locks_mem:
  "l \<in> set (db_wi_locks (release_wi_locks P r ts d)) \<and> wl_released l = None \<longleftrightarrow> l \<in> set (db_wi_locks d) \<and> wl_released l = None \<and> \<not> P l"
  by (auto simp: release_wi_locks_def)

lemma fl_inv_release_wi:
  assumes inv: "fl_inv d"
    and free: "\<And>j r l. j \<in> set (db_jobs d) \<Longrightarrow> may_write j \<Longrightarrow> wi_active d (jb_wi j) \<Longrightarrow> r \<in> touch_rows j \<Longrightarrow>
      wl_wi l = jb_wi j \<Longrightarrow> wl_row l = r \<Longrightarrow> \<not> P l"
  shows "fl_inv (release_wi_locks P reason ts d)" (is "fl_inv ?d")
proof -
  have iff: "(w, r) \<in> active_rows ?d \<longleftrightarrow> (\<exists>l. (l \<in> set (db_wi_locks d) \<and> wl_released l = None \<and> \<not> P l) \<and> wi_active d (wl_wi l) \<and>
      source_ok d l \<and> w = wl_wi l \<and> r = wl_row l)" for w r
    unfolding active_rows_iff release_wi_locks_mem [of _ P reason ts, symmetric] by (simp add: Bex_def)
  have sub: "active_rows ?d \<subseteq> active_rows d" 
  proof clarify
    fix w r assume "(w, r) \<in> active_rows ?d"
    then show "(w, r) \<in> active_rows d" unfolding iff unfolding active_rows_iff by blast
  qed
  have "fl_exclusive ?d" using inv sub unfolding fl_inv_def fl_exclusive_def by blast
  moreover have "fl_covered ?d"
    unfolding fl_covered_def release_wi_locks_frame
  proof (intro ballI impI, elim conjE)
    fix j r assume j: "j \<in> set (db_jobs d)" "may_write j" "wi_active d (jb_wi j)" "r \<in> touch_rows j"
    then have "(jb_wi j, r) \<in> active_rows d" using inv by (simp add: fl_inv_def fl_covered_def)
    then obtain l where l: "l \<in> set (db_wi_locks d)" "wl_released l = None" "wi_active d (wl_wi l)" "source_ok d l"
      "jb_wi j = wl_wi l" "r = wl_row l" unfolding active_rows_iff by blast
    then show "(jb_wi j, r) \<in> active_rows ?d" unfolding iff using free [OF j, of l] by (intro exI [where x = l]) simp
  qed
  moreover have "source_ok d l" if "l \<in> set (db_wi_locks ?d)" "wl_released l = None" for l
    using that release_wi_locks_mem [of l P reason ts d] inv by (simp add: fl_inv_def)
  ultimately show ?thesis using inv by (simp add: fl_inv_def)
qed

lemma fl_inv_cleanup: "fl_inv d \<Longrightarrow> fl_inv (fst (cleanupStaleFileLocks ts d))"
  unfolding cleanupStaleFileLocks_def fst_conv
  by (rule fl_inv_release_wi) (auto intro: fl_inv_same)

lemma cleanup_frame [simp]:
  "get_job (fst (cleanupStaleFileLocks ts d)) = get_job d" "wi_active (fst (cleanupStaleFileLocks ts d)) = wi_active d"
  by (simp_all add: cleanupStaleFileLocks_def)

lemma conflict_after_cleanup_cases:
  assumes "conflict_after_cleanup F ts d = (d', c)"
  shows "d' = d \<or> d' = fst (cleanupStaleFileLocks ts d)" "c = None \<Longrightarrow> F d' = None"
  using assms by (auto simp: conflict_after_cleanup_def split: option.splits prod.splits if_splits)

lemma conflict_after_cleanup_inv:
  assumes "conflict_after_cleanup F ts d = (d', c)" "fl_inv d"
  shows "fl_inv d'" "get_job d' = get_job d" "wi_active d' = wi_active d"
  using conflict_after_cleanup_cases(1) [OF assms(1)] fl_inv_cleanup [OF assms(2)] assms(2) by auto

subsection \<open>Changing work items\<close>

lemma get_wi_update: "(\<And>w. wi_id (f w) = wi_id w) \<Longrightarrow>
    get_wi (update_wi k f d) i = map_option (\<lambda>w. if wi_id w = k then f w else w) (get_wi d i)"
proof -
  assume f: "\<And>w. wi_id (f w) = wi_id w"
  have "find (\<lambda>w. wi_id w = i) (map (\<lambda>w. if wi_id w = k then f w else w) xs) =
      map_option (\<lambda>w. if wi_id w = k then f w else w) (find (\<lambda>w. wi_id w = i) xs)" for xs
    by (induction xs) (auto simp: f)
  then show ?thesis by (simp add: get_wi_def update_wi_def)
qed

lemma get_wi_id: "get_wi d i = Some w \<Longrightarrow> wi_id w = i"
  unfolding get_wi_def by (auto simp: find_Some_iff)

lemma wi_active_update_other: "(\<And>w. wi_id (f w) = wi_id w) \<Longrightarrow> i \<noteq> k \<Longrightarrow> wi_active (update_wi k f d) i = wi_active d i"
proof -
  assume f: "\<And>w. wi_id (f w) = wi_id w" and ne: "i \<noteq> k"
  show ?thesis unfolding wi_active_def get_wi_update [OF f] using ne get_wi_id [of d i] by (cases "get_wi d i") auto
qed

lemma update_wi_frame [simp]:
  "db_jobs (update_wi k f d) = db_jobs d" "db_wi_locks (update_wi k f d) = db_wi_locks d"
  "get_job (update_wi k f d) = get_job d" "source_ok (update_wi k f d) = source_ok d"
  by (simp_all add: update_wi_def get_job_def source_ok_def fun_eq_iff split: option.split)

lemma fl_inv_update_wi:
  assumes inv: "fl_inv d" and f: "\<And>w. wi_id (f w) = wi_id w"
    and ok: "wi_active d k \<or> wi_idle d k \<or> \<not> wi_active (update_wi k f d) k"
  shows "fl_inv (update_wi k f d)" (is "fl_inv ?d")
proof -
  have act: "wi_active d i \<or> (i = k \<and> wi_idle d k)" if "wi_active ?d i" for i
    using wi_active_update_other [of f i k d] f ok that by (cases "i = k") auto
  have sub: "(w, r) \<in> active_rows d" if "(w, r) \<in> active_rows ?d" for w r
  proof -
    note here = that
    obtain l where l: "l \<in> set (db_wi_locks d)" "wl_released l = None" "wi_active ?d (wl_wi l)" "source_ok d l" "w = wl_wi l" "r = wl_row l"
      using here unfolding active_rows_iff update_wi_frame by blast
    have "\<not> (wl_wi l = k \<and> wi_idle d k)" using l(1,2) by (auto simp: wi_idle_def list_all_iff)
    then have "wi_active d (wl_wi l)" using act [OF l(3)] by blast
    then show ?thesis unfolding active_rows_iff using l by (intro bexI [where x = l]) simp_all
  qed
  have "fl_exclusive ?d"
  proof (rule fl_exclusiveI)
    fix v q w r assume "(v, q) \<in> active_rows ?d" "(w, r) \<in> active_rows ?d" "lockRowsOverlap q r"
    then show "v = w" using sub [of v q] sub [of w r] inv unfolding fl_inv_def fl_exclusive_def by blast
  qed
  moreover have "fl_covered ?d"
    unfolding fl_covered_def update_wi_frame
  proof (intro ballI impI, elim conjE)
    fix j r assume j: "j \<in> set (db_jobs d)" "may_write j" "wi_active ?d (jb_wi j)" "r \<in> touch_rows j"
    have "wi_active d (jb_wi j)" using act [OF j(3)] j(1,2) by (auto simp: wi_idle_def list_all_iff)
    then have "(jb_wi j, r) \<in> active_rows d" using inv j by (simp add: fl_inv_def fl_covered_def)
    then show "(jb_wi j, r) \<in> active_rows ?d" unfolding active_rows_iff update_wi_frame using j(3) by metis
  qed
  ultimately show ?thesis using inv by (simp add: fl_inv_def)
qed

subsection \<open>Taking locks\<close>

lemma insert_wi_lock_set: "set (insert_wi_lock l ls) \<subseteq> insert l (set ls)" "set ls \<subseteq> set (insert_wi_lock l ls)"
  by (auto simp: insert_wi_lock_def)

lemma insert_wi_lock_has: "wl_released l = None \<Longrightarrow>
    \<exists>x \<in> set (insert_wi_lock l ls). wl_released x = None \<and> wl_wi x = wl_wi l \<and> wl_row x = wl_row l"
  by (auto simp: insert_wi_lock_def wl_row_def list_ex_iff)

lemma fold_insert_wi_lock:
  "set (fold (\<lambda>row. insert_wi_lock (g row)) rows ls) \<subseteq> set ls \<union> g ` set rows"
  "set ls \<subseteq> set (fold (\<lambda>row. insert_wi_lock (g row)) rows ls)"
proof -
  show "set (fold (\<lambda>row. insert_wi_lock (g row)) rows ls) \<subseteq> set ls \<union> g ` set rows" for ls
  proof (induction rows arbitrary: ls)
    case (Cons a rows)
    show ?case using Cons.IH [of "insert_wi_lock (g a) ls"] insert_wi_lock_set(1) [of "g a" ls] by auto
  qed simp
  show "set ls \<subseteq> set (fold (\<lambda>row. insert_wi_lock (g row)) rows ls)" for ls
  proof (induction rows arbitrary: ls)
    case (Cons a rows)
    show ?case using Cons.IH [of "insert_wi_lock (g a) ls"] insert_wi_lock_set(2) [of ls "g a"] by auto
  qed simp
qed

lemma fold_insert_wi_lock_has:
  assumes "\<And>row. wl_released (g row) = None" "row \<in> set rows"
  shows "\<exists>x \<in> set (fold (\<lambda>row. insert_wi_lock (g row)) rows ls). wl_released x = None \<and> wl_wi x = wl_wi (g row) \<and> wl_row x = wl_row (g row)"
  using assms(2)
proof (induction rows arbitrary: ls)
  case (Cons a rows)
  show ?case
  proof (cases "row \<in> set rows")
    case True
    then show ?thesis using Cons.IH [of "insert_wi_lock (g a) ls"] by simp
  next
    case False
    then have "row = a" using Cons.prems by simp
    then show ?thesis using insert_wi_lock_has [OF assms(1) [of a], of ls]
        fold_insert_wi_lock(2) [of "insert_wi_lock (g a) ls" g rows] by auto
  qed
qed simp

definition new_wi_lock :: "job \<Rightarrow> string option \<Rightarrow> string \<Rightarrow> lock_row \<Rightarrow> wi_lock" where
  "new_wi_lock j tok ts row = \<lparr>wl_wi = jb_wi j, wl_path = lr_path row, wl_kind = lr_kind row,
     wl_source = Some (jb_id j), wl_token = tok, wl_acquired_at = ts, wl_released = None\<rparr>"

lemma new_wi_lock_simps [simp]: "wl_wi (new_wi_lock j tok ts row) = jb_wi j" "wl_released (new_wi_lock j tok ts row) = None"
  "wl_row (new_wi_lock j tok ts row) = row" "wl_source (new_wi_lock j tok ts row) = Some (jb_id j)"
  by (simp_all add: new_wi_lock_def wl_row_def)

definition inserted :: "job \<Rightarrow> job_scope \<Rightarrow> string option \<Rightarrow> string \<Rightarrow> wi_lock list \<Rightarrow> wi_lock list" where
  "inserted j s tok ts ls = fold (\<lambda>row. insert_wi_lock (new_wi_lock j tok ts row)) (scopeToLockRows s) ls"

lemma insertMissingWiLocks_eq:
  "insertMissingWiLocks j s tok ts d = d \<or> insertMissingWiLocks j s tok ts d = d\<lparr>db_wi_locks := inserted j s tok ts (db_wi_locks d)\<rparr>"
  by (simp add: insertMissingWiLocks_def inserted_def new_wi_lock_def Let_def)

lemma insertMissingWiLocks_active:
  "wi_active d (jb_wi j) \<Longrightarrow> insertMissingWiLocks j s tok ts d = d\<lparr>db_wi_locks := inserted j s tok ts (db_wi_locks d)\<rparr>"
  by (simp add: insertMissingWiLocks_def inserted_def new_wi_lock_def Let_def wi_active_def wi_holds_locks_def
      completeWorkItemHoldsFileLocks_def split: option.splits)

lemma insertMissingWiLocks_frame [simp]:
  "db_jobs (insertMissingWiLocks j s tok ts d) = db_jobs d" "wi_active (insertMissingWiLocks j s tok ts d) = wi_active d"
  "get_job (insertMissingWiLocks j s tok ts d) = get_job d" "source_ok (insertMissingWiLocks j s tok ts d) = source_ok d"
  by (simp_all add: insertMissingWiLocks_def Let_def wi_active_def get_job_def get_wi_def source_ok_def fun_eq_iff split: option.split)

lemma insertMissingWiLocks_update_job:
  "insertMissingWiLocks j s tok ts (update_job k f d) = update_job k f (insertMissingWiLocks j s tok ts d)"
  by (simp add: insertMissingWiLocks_def Let_def update_job_def get_wi_def)

lemma active_rows_insert_subset:
  "active_rows (insertMissingWiLocks j s tok ts d) \<subseteq> active_rows d \<union> Pair (jb_wi j) ` set (scopeToLockRows s)"
proof clarify
  fix w r
  assume a: "(w, r) \<in> active_rows (insertMissingWiLocks j s tok ts d)" and n: "(w, r) \<notin> Pair (jb_wi j) ` set (scopeToLockRows s)"
  obtain l where l: "l \<in> set (db_wi_locks (insertMissingWiLocks j s tok ts d))" "wl_released l = None" "wi_active d (wl_wi l)" "source_ok d l"
    "w = wl_wi l" "r = wl_row l" using a unfolding active_rows_iff insertMissingWiLocks_frame by blast
  have "l \<notin> new_wi_lock j tok ts ` set (scopeToLockRows s)" using n l(5,6) by auto
  then have "l \<in> set (db_wi_locks d)"
    using l(1) insertMissingWiLocks_eq [of j s tok ts d] fold_insert_wi_lock(1) [of "new_wi_lock j tok ts" "scopeToLockRows s" "db_wi_locks d"]
    by (auto simp: inserted_def)
  then show "(w, r) \<in> active_rows d" unfolding active_rows_iff using l by blast
qed

lemma active_rows_insert_mono: "active_rows d \<subseteq> active_rows (insertMissingWiLocks j s tok ts d)"
proof -
  have "set (db_wi_locks d) \<subseteq> set (db_wi_locks (insertMissingWiLocks j s tok ts d))"
    using insertMissingWiLocks_eq [of j s tok ts d] fold_insert_wi_lock(2) [of "db_wi_locks d" "new_wi_lock j tok ts" "scopeToLockRows s"]
    by (auto simp: inserted_def)
  then show ?thesis
  proof clarify
    fix w r
    assume sub: "set (db_wi_locks d) \<subseteq> set (db_wi_locks (insertMissingWiLocks j s tok ts d))" and a: "(w, r) \<in> active_rows d"
    obtain l where l: "l \<in> set (db_wi_locks d)" "wl_released l = None" "wi_active d (wl_wi l)" "source_ok d l" "w = wl_wi l" "r = wl_row l"
      using a unfolding active_rows_iff by blast
    then show "(w, r) \<in> active_rows (insertMissingWiLocks j s tok ts d)"
      unfolding active_rows_iff insertMissingWiLocks_frame using sub by blast
  qed
qed

lemma sources_insert:
  assumes "\<forall>l \<in> set (db_wi_locks d). wl_released l = None \<longrightarrow> source_ok d l" "source_ok d (new_wi_lock j tok ts r0)"
  shows "\<forall>l \<in> set (db_wi_locks (insertMissingWiLocks j s tok ts d)). wl_released l = None \<longrightarrow> source_ok d l"
proof (intro ballI impI)
  fix l assume l: "l \<in> set (db_wi_locks (insertMissingWiLocks j s tok ts d))" "wl_released l = None"
  have "l \<in> set (db_wi_locks d) \<or> l \<in> new_wi_lock j tok ts ` set (scopeToLockRows s)"
    using l(1) insertMissingWiLocks_eq [of j s tok ts d] fold_insert_wi_lock(1) [of "new_wi_lock j tok ts" "scopeToLockRows s" "db_wi_locks d"]
    by (auto simp: inserted_def)
  then show "source_ok d l"
  proof
    assume "l \<in> new_wi_lock j tok ts ` set (scopeToLockRows s)"
    then show ?thesis using assms(2) by (auto simp: source_ok_def)
  qed (use assms(1) l(2) in blast)
qed

lemma inserted_active:
  assumes "wi_active d (jb_wi j)" "source_ok d (new_wi_lock j tok ts r0)"
    "\<forall>l \<in> set (db_wi_locks d). wl_released l = None \<longrightarrow> source_ok d l" "r \<in> set (scopeToLockRows s)"
  shows "(jb_wi j, r) \<in> active_rows (insertMissingWiLocks j s tok ts d)"
proof -
  obtain x where x: "x \<in> set (db_wi_locks (insertMissingWiLocks j s tok ts d))" "wl_released x = None" "wl_wi x = jb_wi j" "wl_row x = r"
    using fold_insert_wi_lock_has [of "new_wi_lock j tok ts" r "scopeToLockRows s" "db_wi_locks d"] assms(4)
    unfolding insertMissingWiLocks_active [OF assms(1)] by (auto simp: inserted_def)
  have "source_ok d x" using sources_insert [OF assms(3,2)] x(1,2) by blast
  then show ?thesis unfolding active_rows_iff insertMissingWiLocks_frame using x assms(1) by (intro bexI [where x = x]) auto
qed

text \<open>Rows that no other work item's active row overlaps may be inserted.\<close>

definition free_rows :: "qdb \<Rightarrow> nat \<Rightarrow> job_scope \<Rightarrow> bool" where
  "free_rows d i s \<longleftrightarrow> (\<forall>(w, r) \<in> active_rows d. w = i \<or> (\<forall>c \<in> set (scopeToLockRows s). \<not> lockRowsOverlap c r))"

lemma fl_inv_insert:
  assumes inv: "fl_inv d" and src: "source_ok d (new_wi_lock j tok ts r0)" and free: "free_rows d (jb_wi j) s"
  shows "fl_inv (insertMissingWiLocks j s tok ts d)" (is "fl_inv ?d")
proof -
  have "fl_exclusive ?d"
  proof (rule fl_exclusiveI)
    fix v q w r assume a: "(v, q) \<in> active_rows ?d" "(w, r) \<in> active_rows ?d" and ov: "lockRowsOverlap q r"
    have old: "(x, y) \<in> active_rows d" if "(x, y) \<in> active_rows ?d" "x \<noteq> jb_wi j" for x y
      using that active_rows_insert_subset [of j s tok ts d] by auto
    have new: "(x, y) \<in> active_rows d \<or> y \<in> set (scopeToLockRows s)" if "(x, y) \<in> active_rows ?d" for x y
      using that active_rows_insert_subset [of j s tok ts d] by auto
    have ex: "(x, y) \<in> active_rows d \<Longrightarrow> (x', y') \<in> active_rows d \<Longrightarrow> x = x' \<or> \<not> lockRowsOverlap y y'" for x y x' y'
      using inv unfolding fl_inv_def fl_exclusive_def by blast
    have fr: "(x, y) \<in> active_rows d \<Longrightarrow> c \<in> set (scopeToLockRows s) \<Longrightarrow> x \<noteq> jb_wi j \<Longrightarrow> \<not> lockRowsOverlap c y" for x y c
      using free unfolding free_rows_def by blast
    have sym: "lockRowsOverlap r q" using ov lockRowsOverlap_sym by simp
    consider "v = w" | "v = jb_wi j" "w \<noteq> jb_wi j" | "v \<noteq> jb_wi j" "w = jb_wi j" | "v \<noteq> jb_wi j" "w \<noteq> jb_wi j" by blast
    then show "v = w"
    proof cases
      case 2
      then show ?thesis using new [OF a(1)] old [OF a(2) 2(2)] ex fr ov by blast
    next
      case 3
      then show ?thesis using new [OF a(2)] old [OF a(1) 3(1)] ex fr sym by blast
    next
      case 4
      show ?thesis using old [OF a(1) 4(1)] old [OF a(2) 4(2)] ex ov by blast
    qed
  qed
  moreover have "fl_covered ?d"
    using inv active_rows_insert_mono [of d j s tok ts] unfolding fl_inv_def fl_covered_def insertMissingWiLocks_frame by blast
  ultimately show ?thesis using inv sources_insert [of d j tok ts r0 s] src by (simp add: fl_inv_def)
qed

subsection \<open>No conflict means free rows\<close>

lemma locksConflict_None:
  "locksConflict rows aw aj ajs same ls = None \<Longrightarrow> l \<in> set ls \<Longrightarrow>
     lock_allowed aw aj ajs same l \<or> (\<forall>c \<in> set rows. \<not> lockRowsOverlap c (lv_row l))"
proof (induction ls)
  case (Cons x ls)
  show ?case
  proof (cases "lock_allowed aw aj ajs same x")
    case True
    then show ?thesis using Cons by auto
  next
    case False
    then have "filter (\<lambda>c. lockRowsOverlap c (lv_row x)) rows = []" and "locksConflict rows aw aj ajs same ls = None"
      using Cons.prems(1) by (auto split: list.splits)
    then show ?thesis using Cons by (auto simp: filter_empty_conv)
  qed
qed simp

lemma no_conflict_split:
  assumes "findOrdinaryWriteLockConflict d j s ord ip = None" "jobNeedsWriteLocks j" "hasWriteScope s"
  shows "jobNeedsAssessmentBarrier j \<or> locksConflict (scopeToLockRows s) (Some (jb_wi j)) None [] True (activeWiLocks d) = None"
    "locksConflict (scopeToLockRows s) (Some (jb_wi j)) (Some (jb_id j)) (allowed_jobs d ip j) False
       (activeJobLocks d (Some (jb_wi j)) False) = None"
  using assms by (simp_all add: findOrdinaryWriteLockConflict_def Let_def split: option.splits prod.splits if_splits)

lemma no_conflict_free_rows:
  assumes "findOrdinaryWriteLockConflict d j s ord ip = None" "jobNeedsWriteLocks j" "\<not> jobNeedsAssessmentBarrier j"
  shows "free_rows d (jb_wi j) s"
proof (cases "hasWriteScope s")
  case False
  then show ?thesis by (simp add: free_rows_def hasWriteScope_def scopeToLockRows_def)
next
  case True
  have n: "locksConflict (scopeToLockRows s) (Some (jb_wi j)) None [] True (activeWiLocks d) = None"
    using no_conflict_split(1) [OF assms(1,2) True] assms(3) by simp
  show ?thesis unfolding free_rows_def
  proof clarify
    fix w r c assume a: "(w, r) \<in> active_rows d" "w \<noteq> jb_wi j" "c \<in> set (scopeToLockRows s)" "lockRowsOverlap c r"
    obtain l where l: "l \<in> set (db_wi_locks d)" "wi_lock_active d l" "w = wl_wi l" "r = wl_row l"
      using a(1) by (auto simp: active_rows_def)
    then obtain v where v: "v \<in> set (activeWiLocks d)" "lv_wi v = w" "lv_row v = r"
      by (force simp: activeWiLocks_def)
    show False using locksConflict_None [OF n v(1)] v(2,3) a(2-4) by (cases "lv_job v") (auto simp: lock_allowed_def)
  qed
qed

section \<open>Every step keeps the invariant\<close>

lemma locking_type: "jobNeedsWriteLocks j \<Longrightarrow> jb_type j \<in> set QUEUE_LOCKING_JOB_TYPES"
  by (simp add: jobNeedsWriteLocks_def jobCanUseAssessmentBarrier_def)

lemma source_ok_new: "get_job d i = Some j \<Longrightarrow> jobNeedsWriteLocks j \<Longrightarrow> source_ok d (new_wi_lock j tok ts r0)"
  using get_job_mem [of d i j] by (auto simp: source_ok_def dest: locking_type)

lemma fl_inv_insertJobLocks: "fl_inv d \<Longrightarrow> fl_inv (insertJobLocks j s ts d)"
  by (rule fl_inv_same) simp_all

lemma fl_inv_tool:
  assumes inv: "fl_inv d" and al: "job_unassessed d i"
  shows "fl_inv (fst (verifyOrAcquireJobWriteLockForPath win i path ts d))"
proof (cases "normalizeLockPath win path = [] \<or> get_job d i = None")
  case True
  then show ?thesis using inv by (auto simp: verifyOrAcquireJobWriteLockForPath_def Let_def)
next
  case False
  then obtain j where j: "get_job d i = Some j" by blast
  define target where "target = normalizeLockPath win path"
  define s where "s = \<lparr>js_files = [target], js_roots = [], js_unknown = False\<rparr>"
  obtain d1 c where c: "conflict_after_cleanup (\<lambda>x. findOrdinaryWriteLockConflict x j s None False) ts d = (d1, c)" by fastforce
  note d1 = conflict_after_cleanup_inv [OF c inv]
  have bar: "\<not> jobNeedsAssessmentBarrier j" using al j by (simp add: job_unassessed_def)
  have r: "verifyOrAcquireJobWriteLockForPath win i path ts d =
      (if \<not> jobNeedsWriteLocks j then (d, Skipped ''job_not_locking'')
       else if jobHoldsWriteLockForPath win d i target then (d, Held)
       else case c of Some c \<Rightarrow> (d1, Refused_lock c) | None \<Rightarrow> (insertJobLocks j s ts (insertMissingWiLocks j s None ts d1), Acquired))"
    using False c unfolding verifyOrAcquireJobWriteLockForPath_def Let_def target_def [symmetric] s_def [symmetric] j by simp
  have ins: "fl_inv (insertJobLocks j s ts (insertMissingWiLocks j s None ts d1))" if n: "jobNeedsWriteLocks j" "c = None"
  proof (rule fl_inv_insertJobLocks, rule fl_inv_insert [OF d1(1)])
    show "source_ok d1 (new_wi_lock j None ts undefined)" using source_ok_new [of d1 i j] j n(1) d1(2) by simp
    show "free_rows d1 (jb_wi j) s" using no_conflict_free_rows conflict_after_cleanup_cases(2) [OF c n(2)] n(1) bar by blast
  qed
  show ?thesis unfolding r using inv d1(1) ins by (cases c) auto
qed

lemma touch_rows_cong: "touch_rows (j\<lparr>jb_status := st, jb_lease_owner := ow, jb_lease_token := tk, jb_lease_expires_at := ex\<rparr>) = touch_rows j"
  by (simp add: touch_rows_def getJobPathTouchScope_def jobNeedsWriteLocks_def jobCanUseAssessmentBarrier_def)

lemma touch_rows_status: "touch_rows (j\<lparr>jb_status := st\<rparr>) = touch_rows j"
  by (simp add: touch_rows_def getJobPathTouchScope_def jobNeedsWriteLocks_def jobCanUseAssessmentBarrier_def)

lemma may_write_needs: "may_write (j\<lparr>jb_status := st, jb_lease_owner := ow, jb_lease_token := tk, jb_lease_expires_at := ex\<rparr>) \<Longrightarrow>
    jobNeedsWriteLocks j \<and> \<not> jb_assess_only j"
  by (simp add: may_write_def jobNeedsWriteLocks_def jobCanUseAssessmentBarrier_def)

lemma may_write_status: "may_write (j\<lparr>jb_status := st\<rparr>) \<Longrightarrow> jb_status j \<in> set ACTIVE_INNER_LOCK_STATUSES \<Longrightarrow> may_write j"
  by (simp add: may_write_def jobNeedsWriteLocks_def jobCanUseAssessmentBarrier_def)

lemma writeScope_has: "jobNeedsWriteLocks j \<Longrightarrow> hasWriteScope (getJobWriteScope j)"
  by (simp add: getJobWriteScope_def whole_repo_scope_def hasWriteScope_def)

lemma writeScope_touch: "\<not> jobNeedsAssessmentBarrier j \<Longrightarrow> getJobWriteScope j = getJobPathTouchScope j"
  by (simp add: getJobWriteScope_def getJobPathTouchScope_def)

lemma touch_rows_widen: "r \<in> touch_rows (widen_scope fs j) \<Longrightarrow> r \<in> touch_rows j \<or> r \<in> set (map (\<lambda>p. \<lparr>lr_path = p, lr_kind = ''file''\<rparr>) fs)"
  by (auto simp: touch_rows_def getJobPathTouchScope_def jobNeedsWriteLocks_def jobCanUseAssessmentBarrier_def widen_scope_def
      hasWriteScope_def scopeToLockRows_def whole_repo_scope_def split: if_splits)

lemma may_write_widen: "may_write (widen_scope fs j) = may_write j"
  by (simp add: may_write_def jobNeedsWriteLocks_def jobCanUseAssessmentBarrier_def widen_scope_def)

lemma fl_inv_widen:
  assumes "fl_inv d" "\<And>j r. get_job d i = Some j \<Longrightarrow> may_write j \<Longrightarrow> wi_active d (jb_wi j) \<Longrightarrow>
      r \<in> set (map (\<lambda>p. \<lparr>lr_path = p, lr_kind = ''file''\<rparr>) fs) \<Longrightarrow> (jb_wi j, r) \<in> active_rows d"
  shows "fl_inv (update_job i (widen_scope fs) d)"
proof (rule fl_inv_update_job [OF assms(1)])
  fix j r assume "get_job d i = Some j" "may_write (widen_scope fs j)" "wi_active d (jb_wi j)" "r \<in> touch_rows (widen_scope fs j)"
  then show "may_write j \<and> r \<in> touch_rows j \<or> (jb_wi j, r) \<in> active_rows d"
    using assms(2) touch_rows_widen [of r fs j] unfolding may_write_widen by blast
qed (simp_all add: widen_scope_def)

lemma active_rows_insertJobLocks: "active_rows (insertJobLocks j s ts d) = active_rows d"
  by (rule active_rows_cong) simp_all

lemma fl_inv_extend:
  assumes inv: "fl_inv d" and al: "job_unassessed d i"
  shows "fl_inv (fl_step win ord (EvExtend i paths ts) d)"
proof (cases "get_job d i")
  case None
  then show ?thesis using fl_inv_widen [OF inv, of i] by (simp add: acquireAdditionalJobWritePaths_def)
next
  case (Some j)
  define fs where "fs = lock_paths win paths"
  define s where "s = \<lparr>js_files = fs, js_roots = [], js_unknown = False\<rparr>"
  define d1 where "d1 = insertJobLocks j s ts (insertMissingWiLocks j s (jb_lease_token j) ts d)"
  have bar: "\<not> jobNeedsAssessmentBarrier j" using al Some by (simp add: job_unassessed_def)
  have r: "acquireAdditionalJobWritePaths win i paths ts d =
      (if \<not> jobNeedsWriteLocks j then (d, Paths_ok)
       else if jb_lease_token j = None \<or> jb_status j \<notin> set ACTIVE_INNER_LOCK_STATUSES then (d, Paths_deferred)
       else if length fs \<noteq> length (remdups paths) then (d, Paths_blocked None)
       else case findOrdinaryWriteLockConflict d j s None False of Some c \<Rightarrow> (d, Paths_blocked (Some c))
         | None \<Rightarrow> (d1, Paths_ok))"
    unfolding acquireAdditionalJobWritePaths_def Some Let_def fs_def [symmetric] s_def [symmetric] d1_def by simp
  have asis: "fl_inv (update_job i (widen_scope fs) d)" if "\<not> may_write j"
    by (rule fl_inv_widen [OF inv]) (use that Some in simp)
  have ins: "fl_inv (update_job i (widen_scope fs) d1)"
    if n: "jobNeedsWriteLocks j" "findOrdinaryWriteLockConflict d j s None False = None"
  proof (rule fl_inv_widen)
    have src: "source_ok d (new_wi_lock j (jb_lease_token j) ts undefined)" using source_ok_new [OF Some n(1)] .
    show "fl_inv d1" unfolding d1_def
      by (rule fl_inv_insertJobLocks, rule fl_inv_insert [OF inv src no_conflict_free_rows [OF n(2,1) bar]])
    fix k q assume k: "get_job d1 i = Some k" "wi_active d1 (jb_wi k)" "q \<in> set (map (\<lambda>p. \<lparr>lr_path = p, lr_kind = ''file''\<rparr>) fs)"
    have "k = j" "wi_active d (jb_wi j)" "q \<in> set (scopeToLockRows s)"
      using k Some by (simp_all add: d1_def s_def scopeToLockRows_def)
    then show "(jb_wi k, q) \<in> active_rows d1"
      using inserted_active [OF _ src, of q s] inv by (simp add: d1_def active_rows_insertJobLocks fl_inv_def)
  qed
  show ?thesis unfolding fl_step.simps r fs_def [symmetric]
    using inv ins asis by (cases "findOrdinaryWriteLockConflict d j s None False") (auto simp: may_write_def)
qed

text \<open>What a lease does, in the order the proof needs: insert, then change the status.\<close>

definition leased_db :: "job \<Rightarrow> nat \<Rightarrow> string \<Rightarrow> string \<Rightarrow> string \<Rightarrow> string \<Rightarrow> qdb \<Rightarrow> qdb" where
  "leased_db j i owner token expires ts d =
     (let s = getJobWriteScope j; has = (jobNeedsWriteLocks j \<and> hasWriteScope s);
          d3 = update_job i (\<lambda>j. j\<lparr>jb_status := ''leased'', jb_lease_owner := Some owner, jb_lease_token := Some token, jb_lease_expires_at := expires\<rparr>)
            (if has \<and> \<not> jobNeedsAssessmentBarrier j then insertMissingWiLocks j s (Some token) ts d else d)
      in if has then insertJobLocks j s ts d3 else d3)"

lemma acquireLease_cases:
  assumes "get_job d i = Some j"
  obtains "acquireLeaseWithWriteLocks ord i owner token expires ts d = (d, None)"
  | d1 c where "jb_status j = ''queued''" "jobNeedsWriteLocks j"
      "conflict_after_cleanup (\<lambda>x. findOrdinaryWriteLockConflict x j (getJobWriteScope j) (Some (ord x)) False) ts d = (d1, Some c)"
      "acquireLeaseWithWriteLocks ord i owner token expires ts d = (d1, None)"
  | d1 where "jb_status j = ''queued''" "jobNeedsWriteLocks j"
      "conflict_after_cleanup (\<lambda>x. findOrdinaryWriteLockConflict x j (getJobWriteScope j) (Some (ord x)) False) ts d = (d1, None)"
      "acquireLeaseWithWriteLocks ord i owner token expires ts d = (leased_db j i owner token expires ts d1, Some token)"
  | "jb_status j = ''queued''" "\<not> jobNeedsWriteLocks j"
      "acquireLeaseWithWriteLocks ord i owner token expires ts d = (leased_db j i owner token expires ts d, Some token)"
proof -
  let ?F = "\<lambda>x. findOrdinaryWriteLockConflict x j (getJobWriteScope j) (Some (ord x)) False"
  obtain d1 c where c: "conflict_after_cleanup ?F ts d = (d1, c)" by fastforce
  consider (no) "jb_status j \<noteq> ''queued'' \<or> jb_wi j \<in> set (db_budget_paused d)"
    | (wait) "jb_status j = ''queued''" "jb_wi j \<notin> set (db_budget_paused d)"
      "str_less ts (jb_ready_at j) \<or> unmetHardDependencyPredecessorJobIdsForJob d j \<noteq> []"
    | (go) "jb_status j = ''queued''" "jb_wi j \<notin> set (db_budget_paused d)" "\<not> str_less ts (jb_ready_at j)"
      "unmetHardDependencyPredecessorJobIdsForJob d j = []" by blast
  then show thesis
  proof cases
    case no
    then show ?thesis by (intro that(1)) (simp add: acquireLeaseWithWriteLocks_def assms)
  next
    case wait
    then show ?thesis by (intro that(1)) (simp add: acquireLeaseWithWriteLocks_def assms)
  next
    case go
    show ?thesis
    proof (cases "jobNeedsWriteLocks j")
      case False
      have "acquireLeaseWithWriteLocks ord i owner token expires ts d = (leased_db j i owner token expires ts d, Some token)"
        using go False by (simp add: acquireLeaseWithWriteLocks_def assms leased_db_def Let_def)
      then show ?thesis using that(4) go(1) False by blast
    next
      case True
      have h: "hasWriteScope (getJobWriteScope j)" using writeScope_has [OF True] .
      show ?thesis
      proof (cases c)
        case None
        have "acquireLeaseWithWriteLocks ord i owner token expires ts d = (leased_db j i owner token expires ts d1, Some token)"
          using go True h c None
          by (simp add: acquireLeaseWithWriteLocks_def assms leased_db_def Let_def insertMissingWiLocks_update_job)
        then show ?thesis using that(3) go(1) True c None by blast
      next
        case (Some k)
        have "acquireLeaseWithWriteLocks ord i owner token expires ts d = (d1, None)"
          using go True h c Some by (simp add: acquireLeaseWithWriteLocks_def assms Let_def)
        then show ?thesis using that(2) go(1) True c Some by blast
      qed
    qed
  qed
qed

lemma barrier_when_queued: "jb_status j = ''queued'' \<Longrightarrow> jobNeedsWriteLocks j \<Longrightarrow> jobNeedsAssessmentBarrier j \<longleftrightarrow> jb_assess_only j"
  by (simp add: jobNeedsAssessmentBarrier_def jobNeedsWriteLocks_def)

lemma fl_inv_leased_db:
  assumes inv: "fl_inv d" and j: "get_job d i = Some j" "jb_status j = ''queued''"
    and free: "jobNeedsWriteLocks j \<Longrightarrow> \<not> jobNeedsAssessmentBarrier j \<Longrightarrow> free_rows d (jb_wi j) (getJobWriteScope j)"
  shows "fl_inv (leased_db j i owner token expires ts d)"
proof -
  let ?f = "\<lambda>j. j\<lparr>jb_status := ''leased'', jb_lease_owner := Some owner, jb_lease_token := Some token, jb_lease_expires_at := expires\<rparr>"
  define ins where "ins = (jobNeedsWriteLocks j \<and> \<not> jobNeedsAssessmentBarrier j)"
  define d3 where "d3 = (if ins then insertMissingWiLocks j (getJobWriteScope j) (Some token) ts d else d)"
  have src: "source_ok d (new_wi_lock j (Some token) ts undefined)" if ins using source_ok_new [OF j(1)] that by (simp add: ins_def)
  have frame: "get_job d3 = get_job d" "wi_active d3 = wi_active d" by (simp_all add: d3_def)
  have inv3: "fl_inv d3" using inv fl_inv_insert [OF inv src, of "getJobWriteScope j"] free by (auto simp: d3_def ins_def)
  have "fl_inv (update_job i ?f d3)"
  proof (rule fl_inv_update_job [OF inv3])
    fix k q assume k: "get_job d3 i = Some k" "may_write (?f k)" "wi_active d3 (jb_wi k)" "q \<in> touch_rows (?f k)"
    have kj: "k = j" using k(1) j(1) frame by simp
    have ins using may_write_needs [OF k(2)] barrier_when_queued [OF j(2)] unfolding ins_def kj by blast
    have "\<forall>r \<in> touch_rows j. (jb_wi j, r) \<in> active_rows d3"
    proof
      fix r assume "r \<in> touch_rows j"
      then have "r \<in> set (scopeToLockRows (getJobWriteScope j))" using writeScope_touch [of j] \<open>ins\<close> by (simp add: touch_rows_def ins_def)
      then show "(jb_wi j, r) \<in> active_rows d3"
        using inserted_active [OF _ src [OF \<open>ins\<close>], of r "getJobWriteScope j"] k(3) inv \<open>ins\<close> unfolding kj frame by (simp add: d3_def fl_inv_def)
    qed
    then show "may_write k \<and> q \<in> touch_rows k \<or> (jb_wi k, q) \<in> active_rows d3" using k(4) unfolding kj touch_rows_cong by blast
  qed simp_all
  moreover have "leased_db j i owner token expires ts d =
      (if jobNeedsWriteLocks j then insertJobLocks j (getJobWriteScope j) ts (update_job i ?f d3) else update_job i ?f d3)"
    using writeScope_has [of j] by (simp add: leased_db_def Let_def d3_def ins_def)
  ultimately show ?thesis using fl_inv_insertJobLocks by simp
qed

lemma fl_inv_lease:
  assumes inv: "fl_inv d"
  shows "fl_inv (fst (acquireLeaseWithWriteLocks ord i owner token expires ts d))"
proof (cases "get_job d i")
  case None
  then show ?thesis using inv by (simp add: acquireLeaseWithWriteLocks_def)
next
  case (Some j)
  show ?thesis
  proof (rule acquireLease_cases [OF Some, of ord owner token expires ts])
    assume "acquireLeaseWithWriteLocks ord i owner token expires ts d = (d, None)"
    then show ?thesis using inv by simp
  next
    fix d1 c
    assume "conflict_after_cleanup (\<lambda>x. findOrdinaryWriteLockConflict x j (getJobWriteScope j) (Some (ord x)) False) ts d = (d1, Some c)"
      "acquireLeaseWithWriteLocks ord i owner token expires ts d = (d1, None)"
    then show ?thesis using conflict_after_cleanup_inv(1) [OF _ inv] by simp
  next
    fix d1
    assume q: "jb_status j = ''queued''" and n: "jobNeedsWriteLocks j"
      and c: "conflict_after_cleanup (\<lambda>x. findOrdinaryWriteLockConflict x j (getJobWriteScope j) (Some (ord x)) False) ts d = (d1, None)"
      and r: "acquireLeaseWithWriteLocks ord i owner token expires ts d = (leased_db j i owner token expires ts d1, Some token)"
    note d1 = conflict_after_cleanup_inv [OF c inv]
    have "fl_inv (leased_db j i owner token expires ts d1)"
    proof (rule fl_inv_leased_db [OF d1(1) _ q])
      show "get_job d1 i = Some j" using Some d1(2) by simp
      show "free_rows d1 (jb_wi j) (getJobWriteScope j)" if "\<not> jobNeedsAssessmentBarrier j"
        using no_conflict_free_rows [OF conflict_after_cleanup_cases(2) [OF c refl] n that] .
    qed
    then show ?thesis using r by simp
  next
    assume q: "jb_status j = ''queued''" and n: "\<not> jobNeedsWriteLocks j"
      and r: "acquireLeaseWithWriteLocks ord i owner token expires ts d = (leased_db j i owner token expires ts d, Some token)"
    show ?thesis unfolding r fst_conv by (rule fl_inv_leased_db [OF inv Some q]) (use n in simp)
  qed
qed

lemma fl_inv_barrier:
  assumes inv: "fl_inv d" and al: "job_live d i"
  shows "fl_inv (fst (acquireAssessmentBarrier i token preserve cutoff ts d))"
proof (cases "get_job d i")
  case None
  then show ?thesis using inv by (simp add: acquireAssessmentBarrier_def)
next
  case (Some j)
  have "fl_inv (update_job i (\<lambda>j. if preserve then j else j\<lparr>jb_status := ''awaiting_assessment''\<rparr>) d)"
  proof (rule fl_inv_update_job [OF inv])
    fix k q assume "get_job d i = Some k" "may_write (if preserve then k else k\<lparr>jb_status := ''awaiting_assessment''\<rparr>)"
      "q \<in> touch_rows (if preserve then k else k\<lparr>jb_status := ''awaiting_assessment''\<rparr>)"
    then show "may_write k \<and> q \<in> touch_rows k \<or> (jb_wi k, q) \<in> active_rows d"
      using al may_write_status [of "''awaiting_assessment''" k] by (cases preserve) (auto simp: job_live_def touch_rows_status)
  qed simp_all
  then show ?thesis using inv Some fl_inv_insertJobLocks by (simp add: acquireAssessmentBarrier_def Let_def)
qed

lemma fl_inv_job_status:
  assumes inv: "fl_inv d" and al: "st \<notin> set ACTIVE_INNER_LOCK_STATUSES \<or> job_live d i"
  shows "fl_inv (releaseJobLocksForStatus i st ts (update_job i (\<lambda>j. j\<lparr>jb_status := st\<rparr>) d))"
proof -
  have "fl_inv (update_job i (\<lambda>j. j\<lparr>jb_status := st\<rparr>) d)"
  proof (rule fl_inv_update_job [OF inv])
    fix k q assume k: "get_job d i = Some k" "may_write (k\<lparr>jb_status := st\<rparr>)" "q \<in> touch_rows (k\<lparr>jb_status := st\<rparr>)"
    have "st \<in> set ACTIVE_INNER_LOCK_STATUSES" using k(2) by (simp add: may_write_def)
    then have "jb_status k \<in> set ACTIVE_INNER_LOCK_STATUSES" using al k(1) by (simp add: job_live_def)
    then show "may_write k \<and> q \<in> touch_rows k \<or> (jb_wi k, q) \<in> active_rows d"
      using may_write_status [OF k(2)] k(3) by (simp add: touch_rows_status)
  qed simp_all
  then show ?thesis
    unfolding releaseJobLocksForStatus_def releaseJobFileLocks_def using fl_inv_same by simp
qed

lemma fl_inv_release_stopped: "fl_inv d \<Longrightarrow> \<not> wi_active d i \<Longrightarrow> fl_inv (releaseWorkItemFileLocks i reason ts d)"
  unfolding releaseWorkItemFileLocks_def by (rule fl_inv_release_wi) auto

lemma fl_inv_wi_status:
  assumes "fl_inv d" "wi_active d i \<or> wi_idle d i \<or> \<not> wi_active (update_wi i (\<lambda>w. w\<lparr>wi_status := st\<rparr>) d) i"
  shows "fl_inv (releaseWorkItemLocksForStatus i st ts (update_wi i (\<lambda>w. w\<lparr>wi_status := st\<rparr>) d))"
proof -
  let ?d = "update_wi i (\<lambda>w. w\<lparr>wi_status := st\<rparr>) d"
  have inv: "fl_inv ?d" by (rule fl_inv_update_wi [OF assms(1) _ assms(2)]) simp
  have g: "get_wi ?d i = map_option (\<lambda>w. if wi_id w = i then w\<lparr>wi_status := st\<rparr> else w) (get_wi d i)" by (rule get_wi_update) simp
  have "\<not> wi_active ?d i" if "st \<in> set WI_LOCK_RELEASE_STATUSES"
    using that get_wi_id [of d i] unfolding wi_active_def g by (cases "get_wi d i") (simp_all add: wi_holds_locks_def)
  then show ?thesis using inv fl_inv_release_stopped by (simp add: releaseWorkItemLocksForStatus_def)
qed

lemma restore_claim_eq:
  "restore_claim ts c d = (if wi_active d (fst c) then d\<lparr>db_wi_locks := insert_wi_lock
     \<lparr>wl_wi = fst c, wl_path = lr_path (claim_row c), wl_kind = lr_kind (claim_row c), wl_source = None, wl_token = None, wl_acquired_at = ts,
       wl_released = None\<rparr> (db_wi_locks d)\<rparr> else d)"
  by (simp add: restore_claim_def wi_active_def wi_holds_locks_def completeWorkItemHoldsFileLocks_def split: option.splits)

lemma restore_claim_frame [simp]:
  "db_jobs (restore_claim ts c d) = db_jobs d" "wi_active (restore_claim ts c d) = wi_active d"
  "source_ok (restore_claim ts c d) = source_ok d"
  by (simp_all add: restore_claim_eq wi_active_def get_job_def get_wi_def source_ok_def fun_eq_iff split: option.split)

lemma restore_claim_mem:
  assumes "l \<in> set (db_wi_locks (restore_claim ts c d))"
  shows "l \<in> set (db_wi_locks d) \<or> (wl_wi l = fst c \<and> wl_row l = claim_row c \<and> wl_source l = None)"
proof (cases "wi_active d (fst c)")
  case True
  define x where "x = \<lparr>wl_wi = fst c, wl_path = lr_path (claim_row c), wl_kind = lr_kind (claim_row c), wl_source = None, wl_token = None,
       wl_acquired_at = ts, wl_released = None\<rparr>"
  have "l = x \<or> l \<in> set (db_wi_locks d)"
    using True assms insert_wi_lock_set(1) [of x "db_wi_locks d"] unfolding restore_claim_eq x_def [symmetric] by auto
  then show ?thesis by (auto simp: x_def wl_row_def)
qed (use assms in \<open>simp add: restore_claim_eq\<close>)

lemma restore_claim_mono: "set (db_wi_locks d) \<subseteq> set (db_wi_locks (restore_claim ts c d))"
  using insert_wi_lock_set(2) by (simp add: restore_claim_eq)

lemma active_rows_restore: "active_rows (restore_claim ts c d) \<subseteq> insert (fst c, claim_row c) (active_rows d)"
proof clarify
  fix w r assume a: "(w, r) \<in> active_rows (restore_claim ts c d)" and n: "(w, r) \<notin> active_rows d"
  obtain l where l: "l \<in> set (db_wi_locks (restore_claim ts c d))" "wl_released l = None" "wi_active d (wl_wi l)" "source_ok d l"
    "w = wl_wi l" "r = wl_row l" using a unfolding active_rows_iff restore_claim_frame by blast
  then show "w = fst c \<and> r = claim_row c" using restore_claim_mem [OF l(1)] n unfolding active_rows_iff by blast
qed

lemma fl_inv_restore_claim:
  assumes inv: "fl_inv d" and free: "\<And>w r. (w, r) \<in> active_rows d \<Longrightarrow> w = fst c \<or> \<not> lockRowsOverlap (claim_row c) r"
  shows "fl_inv (restore_claim ts c d)" (is "fl_inv ?d")
proof -
  have "fl_exclusive ?d"
  proof (rule fl_exclusiveI)
    fix v q w r assume a: "(v, q) \<in> active_rows ?d" "(w, r) \<in> active_rows ?d" and ov: "lockRowsOverlap q r"
    have ov': "lockRowsOverlap r q" using ov lockRowsOverlap_sym by simp
    have "(v, q) \<in> active_rows d \<or> (v, q) = (fst c, claim_row c)" "(w, r) \<in> active_rows d \<or> (w, r) = (fst c, claim_row c)"
      using a active_rows_restore [of ts c d] by blast+
    then show "v = w" using free ov ov' fl_exclusiveD inv unfolding fl_inv_def by blast
  qed
  moreover have "fl_covered ?d" unfolding fl_covered_def restore_claim_frame
  proof (intro ballI impI, elim conjE)
    fix j r assume "j \<in> set (db_jobs d)" "may_write j" "wi_active d (jb_wi j)" "r \<in> touch_rows j"
    then have "(jb_wi j, r) \<in> active_rows d" using inv by (simp add: fl_inv_def fl_covered_def)
    then show "(jb_wi j, r) \<in> active_rows ?d"
      unfolding active_rows_iff restore_claim_frame using restore_claim_mono [of d ts c] by blast
  qed
  moreover have "source_ok d l" if "l \<in> set (db_wi_locks ?d)" "wl_released l = None" for l
    using restore_claim_mem [OF that(1)] that(2) inv by (auto simp: fl_inv_def source_ok_def)
  ultimately show ?thesis using inv by (simp add: fl_inv_def)
qed

lemma fl_inv_restore_claims:
  assumes "fl_inv d" "set cs \<subseteq> C" "active_rows d \<subseteq> A \<union> (\<lambda>c. (fst c, claim_row c)) ` C"
    "\<And>c w r. c \<in> C \<Longrightarrow> (w, r) \<in> A \<Longrightarrow> w = fst c \<or> \<not> lockRowsOverlap (claim_row c) r"
    "\<And>c e. c \<in> C \<Longrightarrow> e \<in> C \<Longrightarrow> fst e = fst c \<or> \<not> lockRowsOverlap (claim_row c) (claim_row e)"
  shows "fl_inv (fold (restore_claim ts) cs d)"
  using assms(1-3)
proof (induction cs arbitrary: d)
  case (Cons c cs)
  have "fl_inv (restore_claim ts c d)"
  proof (rule fl_inv_restore_claim [OF Cons.prems(1)])
    fix w r assume "(w, r) \<in> active_rows d"
    then have "(w, r) \<in> A \<or> (\<exists>e \<in> C. (w, r) = (fst e, claim_row e))" using Cons.prems(3) by blast
    moreover have "c \<in> C" using Cons.prems(2) by simp
    moreover have "r = claim_row e" "w = fst e" if "(w, r) = (fst e, claim_row e)" for e using that by simp_all
    ultimately show "w = fst c \<or> \<not> lockRowsOverlap (claim_row c) r" using assms(4) [of c w r] assms(5) [of c] by blast
  qed
  moreover have "active_rows (restore_claim ts c d) \<subseteq> A \<union> (\<lambda>c. (fst c, claim_row c)) ` C"
    using active_rows_restore [of ts c d] Cons.prems(2,3) by auto
  ultimately show ?case using Cons.IH [of "restore_claim ts c d"] Cons.prems(2) by simp
qed simp

lemma fl_inv_restore:
  assumes inv: "fl_inv d" and act: "\<not> wi_active d i" and free: "claims_free win i d0" and
    d0: "db_jobs d = db_jobs d0" "active_rows d \<subseteq> active_rows d0"
  shows "fl_inv (restoreExistingOrderClaimLocks win i ts d)"
proof -
  have cl: "order_claims win i d = order_claims win i d0" by (simp add: order_claims_def d0)
  have "fl_inv (fold (restore_claim ts) (order_claims win i d) d)"
  proof (rule fl_inv_restore_claims [OF inv, where C = "set (order_claims win i d0)" and A = "active_rows d"])
    fix c w r assume c: "c \<in> set (order_claims win i d0)" and a: "(w, r) \<in> active_rows d"
    have w: "w \<noteq> i" using a act unfolding active_rows_iff by blast
    have "(w, r) \<in> active_rows d0" using a d0(2) by blast
    then obtain l where l: "l \<in> set (db_wi_locks d0)" "wi_lock_active d0 l" "w = wl_wi l" "r = wl_row l"
      unfolding active_rows_iff wi_lock_active_alt by blast
    then show "w = fst c \<or> \<not> lockRowsOverlap (claim_row c) r" using free c w unfolding claims_free_def by blast
  next
    fix c e assume "c \<in> set (order_claims win i d0)" "e \<in> set (order_claims win i d0)"
    then show "fst e = fst c \<or> \<not> lockRowsOverlap (claim_row c) (claim_row e)" using free unfolding claims_free_def by blast
  qed (simp_all add: cl)
  then show ?thesis using inv by (simp add: restoreExistingOrderClaimLocks_def)
qed

lemma fl_inv_wi_merge:
  assumes inv: "fl_inv d" and al: "fl_allowed win (EvWiMerge i ms ts) d"
  shows "fl_inv (fl_step win ord (EvWiMerge i ms ts) d)"
proof -
  let ?d = "update_wi i (\<lambda>w. w\<lparr>wi_merge_state := ms\<rparr>) d"
  have g: "get_wi ?d i = map_option (\<lambda>w. if wi_id w = i then w\<lparr>wi_merge_state := ms\<rparr> else w) (get_wi d i)" by (rule get_wi_update) simp
  have stop: "\<not> wi_active ?d i" if "ms = ''merged''"
    using that get_wi_id [of d i] unfolding wi_active_def g by (cases "get_wi d i") (simp_all add: wi_holds_locks_def)
  have inv1: "fl_inv ?d" by (rule fl_inv_update_wi [OF inv]) (use al stop in \<open>auto split: if_splits\<close>)
  show ?thesis
  proof (cases "ms = ''merged''")
    case False
    then show ?thesis using inv1 by (simp add: releaseWorkItemLocksForMergeState_def)
  next
    case True
    let ?r = "releaseWorkItemFileLocks i ''work_item_merged'' ts ?d"
    have "fl_inv (restoreExistingOrderClaimLocks win i ts ?r)"
    proof (rule fl_inv_restore [of ?r i win d])
      show "fl_inv ?r" by (rule fl_inv_release_stopped [OF inv1 stop [OF True]])
      show "\<not> wi_active ?r i" using stop [OF True] by (simp add: releaseWorkItemFileLocks_def)
      show "claims_free win i d" using al True by simp
      show "db_jobs ?r = db_jobs d" by (simp add: releaseWorkItemFileLocks_def)
      show "active_rows ?r \<subseteq> active_rows d"
      proof clarify
        fix w r assume "(w, r) \<in> active_rows ?r"
        then obtain l where l: "l \<in> set (db_wi_locks ?r)" "wl_released l = None" "wi_active ?d (wl_wi l)" "source_ok d l" "w = wl_wi l" "r = wl_row l"
          unfolding active_rows_iff releaseWorkItemFileLocks_def release_wi_locks_frame update_wi_frame by blast
        have "l \<in> set (db_wi_locks d)" using l(1,2) release_wi_locks_mem [of l _ _ ts ?d] by (simp add: releaseWorkItemFileLocks_def)
        moreover have "wl_wi l \<noteq> i" using l(3) stop [OF True] by blast
        then have "wi_active d (wl_wi l)" using l(3) wi_active_update_other [of "\<lambda>w. w\<lparr>wi_merge_state := ms\<rparr>" "wl_wi l" i d] by simp
        ultimately show "(w, r) \<in> active_rows d" unfolding active_rows_iff using l by blast
      qed
    qed
    then show ?thesis using True by (simp add: releaseWorkItemLocksForMergeState_def)
  qed
qed

lemma live_job_views:
  assumes "may_write j" "j \<in> set (db_jobs d)" "r \<in> touch_rows j"
  shows "\<exists>v \<in> set (activeJobLocks d (Some (jb_wi j)) True). lv_row v = r \<and> lv_job v = Some (jb_id j)"
proof -
  have n: "jobNeedsWriteLocks j" "jb_status j \<in> set ACTIVE_INNER_LOCK_STATUSES" using assms(1) by (simp_all add: may_write_def)
  have s: "set ACTIVE_INNER_LOCK_STATUSES \<subseteq> set ACTIVE_LEASE_STATUSES"
    by (simp add: active_inner_statuses ACTIVE_LEASE_STATUSES_def)
  have "isActiveInnerLockJob j" using n s by (auto simp: isActiveInnerLockJob_def)
  moreover have "\<exists>v \<in> set (job_lock_views True j). lv_row v = r \<and> lv_job v = Some (jb_id j)"
  proof -
    let ?s = "getJobPathTouchScope j"
    have "r \<in> set (scopeToLockRows (?s\<lparr>js_files := remdups (js_files ?s)\<rparr>))"
      using assms(3) by (simp add: touch_rows_def scopeToLockRows_def)
    then show ?thesis unfolding job_lock_views_def Let_def by (simp add: image_iff)
  qed
  ultimately show ?thesis using assms(2) locking_type [OF n(1)] by (auto simp: activeJobLocks_def)
qed

lemma fl_inv_handoff:
  assumes inv: "fl_inv d" and idle: "workItemCanReleaseFileLock win d i path kind parked = Idle_path"
  shows "fl_inv (releaseWorkItemFileLockForPath win i path kind reason ts d)"
proof -
  define p where "p = normalizeLockPath win path"
  have k: "kind \<in> {''file'', ''root''}" "p \<noteq> []"
    and act: "filter (\<lambda>l. lockRowsTouchPath [lv_row l] p kind) (activeJobLocks d (Some i) True) = []"
    using idle unfolding workItemCanReleaseFileLock_def Let_def p_def [symmetric] by (auto simp del: insert_iff split: if_splits)
  have "fl_inv (release_wi_locks (\<lambda>l. wl_wi l = i \<and> wl_path l = p \<and> wl_kind l = kind) reason ts d)"
  proof (rule fl_inv_release_wi [OF inv], rule notI)
    fix j r l
    assume j: "j \<in> set (db_jobs d)" "may_write j" "r \<in> touch_rows j" and l: "wl_wi l = jb_wi j" "wl_row l = r"
      and P: "wl_wi l = i \<and> wl_path l = p \<and> wl_kind l = kind"
    have r: "r = \<lparr>lr_path = p, lr_kind = kind\<rparr>" using l(2) P by (auto simp: wl_row_def)
    obtain v where v: "v \<in> set (activeJobLocks d (Some i) True)" "lv_row v = r" using live_job_views [OF j(2,1,3)] l(1) P by auto
    have "lockRowsTouchPath [lv_row v] p kind" using lockRowsOverlap_refl [of r] k unfolding v(2) by (simp add: lockRowsTouchPath_def r)
    then show False using act v(1) by (auto simp: filter_empty_conv)
  qed
  then show ?thesis using k(2) by (simp add: releaseWorkItemFileLockForPath_def Let_def p_def)
qed

theorem fl_step_inv: "fl_inv d \<Longrightarrow> fl_allowed win e d \<Longrightarrow> fl_inv (fl_step win ord e d)"
proof (cases e)
  case (EvLease i owner token expires ts)
  then show "fl_inv d \<Longrightarrow> ?thesis" by (simp add: fl_inv_lease)
next
  case (EvTool i path ts)
  then show "fl_inv d \<Longrightarrow> fl_allowed win e d \<Longrightarrow> ?thesis" by (simp add: fl_inv_tool)
next
  case (EvExtend i paths ts)
  then show "fl_inv d \<Longrightarrow> fl_allowed win e d \<Longrightarrow> ?thesis" using fl_inv_extend by (simp del: fl_step.simps)
next
  case (EvBarrier i token preserve cutoff ts)
  then show "fl_inv d \<Longrightarrow> fl_allowed win e d \<Longrightarrow> ?thesis" by (simp add: fl_inv_barrier)
next
  case (EvJobStatus i st ts)
  then show "fl_inv d \<Longrightarrow> fl_allowed win e d \<Longrightarrow> ?thesis" using fl_inv_job_status by simp
next
  case (EvWiStatus i st ts)
  then show "fl_inv d \<Longrightarrow> fl_allowed win e d \<Longrightarrow> ?thesis" using fl_inv_wi_status by simp
next
  case (EvWiMerge i ms ts)
  then show "fl_inv d \<Longrightarrow> fl_allowed win e d \<Longrightarrow> ?thesis" using fl_inv_wi_merge by (simp del: fl_step.simps)
next
  case (EvCleanup ts)
  then show "fl_inv d \<Longrightarrow> ?thesis" by (simp add: fl_inv_cleanup)
next
  case (EvHandoff i path kind parked ts)
  then show "fl_inv d \<Longrightarrow> ?thesis" by (simp add: fl_inv_handoff)
qed

lemma fl_run_inv: "fl_inv d \<Longrightarrow> fl_inv (fl_run win ord es d)"
proof (induction es arbitrary: d)
  case (Cons e es)
  show ?case using Cons.IH [of d] Cons.IH [of "fl_step win ord e d"] fl_step_inv [OF Cons.prems] Cons.prems by simp
qed simp

text \<open>A database on which nothing runs yet.\<close>

definition fl_fresh :: "qdb \<Rightarrow> bool" where
  "fl_fresh d \<longleftrightarrow> distinct (map jb_id (db_jobs d)) \<and> list_all (\<lambda>j. \<not> may_write j) (db_jobs d) \<and>
     list_all (\<lambda>l. wl_released l \<noteq> None) (db_wi_locks d)"

lemma fl_fresh_inv: "fl_fresh d \<Longrightarrow> fl_inv d"
proof -
  assume f: "fl_fresh d"
  have u: "wl_released l \<noteq> None" if "l \<in> set (db_wi_locks d)" for l using f that by (auto simp: fl_fresh_def list_all_iff)
  have "active_rows d = {}" unfolding active_rows_def using u by (auto simp: wi_lock_active_alt)
  then show ?thesis using f u by (auto simp: fl_inv_def fl_exclusive_def fl_covered_def fl_fresh_def list_all_iff)
qed

section \<open>What holds in every reachable database\<close>



text \<open>A queue of two work items with disjoint scopes, for the examples.\<close>

definition ex_job :: "nat \<Rightarrow> nat \<Rightarrow> string \<Rightarrow> string list \<Rightarrow> job" where
  "ex_job i w st fs = \<lparr>jb_id = i, jb_wi = w, jb_type = ''dev'', jb_status = st, jb_parent = None, jb_attempt_count = 0,
     jb_verdict = ''not_assessed'', jb_ready_at = ''2024'', jb_assess_only = False, jb_db_only = False,
     jb_scope = \<lparr>js_files = fs, js_roots = [], js_unknown = False\<rparr>, jb_claims = [], jb_lease_owner = None, jb_lease_token = None, jb_lease_expires_at = [], jb_more = job_more_new ''2024''\<rparr>"

definition ex_wi :: "nat \<Rightarrow> work_item" where
  "ex_wi i = \<lparr>wi_id = i, wi_status = ''running'', wi_branch_name = ''b'', wi_merge_state = ''pending'', wi_merge_deps = []\<rparr>"

definition ex_db :: "job list \<Rightarrow> qdb" where
  "ex_db js = \<lparr>db_jobs = js, db_wis = [ex_wi 1, ex_wi 2], db_wi_locks = [], db_job_locks = [], db_deps = [], db_gates = [], db_budget_paused = [],
     db_attempts = [], db_outbox = [], db_sched_locks = []\<rparr>"

definition ex_two :: qdb where
  "ex_two = ex_db [ex_job 1 1 ''queued'' [''a''], ex_job 2 2 ''queued'' [''b'']]"

definition ex_leases :: "fl_event list" where
  "ex_leases = [EvLease 1 ''w1'' ''t1'' ''2026'' ''2025'', EvLease 2 ''w2'' ''t2'' ''2026'' ''2025'']"

definition ex_running :: qdb where
  "ex_running = fl_run False (\<lambda>d. buildWorkItemOrder []) ex_leases ex_two"

lemma ex_two_fresh: "fl_fresh ex_two"
  by code_simp

lemma ex_running_facts:
  "list_all may_write (db_jobs ex_running)" "list_all (\<lambda>j. wi_active ex_running (jb_wi j)) (db_jobs ex_running)"
  "map jb_wi (db_jobs ex_running) = [1, 2]" "map lv_wi (activeWiLocks ex_running) = [1, 2]"
  by code_simp+



section \<open>What a lease means\<close>

lemma find_map_other: "(\<And>j. jb_id (f j) = jb_id j) \<Longrightarrow> k \<noteq> i \<Longrightarrow> get_job (update_job i f d) k = get_job d k"
  using get_job_mem [of d k] by (cases "get_job d k") (simp_all add: get_job_update)

lemma leased_db_jobs:
  assumes "get_job d i = Some j"
  shows "get_job (leased_db j i owner token expires ts d) k =
    (if k = i then Some (j\<lparr>jb_status := ''leased'', jb_lease_owner := Some owner, jb_lease_token := Some token, jb_lease_expires_at := expires\<rparr>)
     else get_job d k)"
proof -
  let ?f = "\<lambda>j. j\<lparr>jb_status := ''leased'', jb_lease_owner := Some owner, jb_lease_token := Some token, jb_lease_expires_at := expires\<rparr>"
  have g: "get_job (update_job i ?f x) k = (if k = i then Some (?f j) else get_job d k)" if "get_job x = get_job d" for x
    using that assms get_job_mem [OF assms] get_job_mem [of d k] by (cases "k = i"; cases "get_job d k") (simp_all add: get_job_update)
  show ?thesis unfolding leased_db_def Let_def by (simp only: insertJobLocks_frame insertMissingWiLocks_frame g split: if_split) simp
qed

text \<open>
  C28: A lease is granted only to a job that is queued, whose start time has come, whose hard
  dependencies have all succeeded and whose work item's budget is not paused; it sets that job's
  status and lease and no other job's. A lease that is not granted changes no job.
\<close>

theorem lease_grant_or_nothing:
  "case acquireLeaseWithWriteLocks ord i owner token expires ts d of
     (d1, None) \<Rightarrow> get_job d1 = get_job d
   | (d1, Some t) \<Rightarrow> t = token \<and> (\<exists>j. get_job d i = Some j \<and> jb_status j = ''queued'' \<and> \<not> str_less ts (jb_ready_at j) \<and>
        unmetHardDependencyPredecessorJobIdsForJob d j = [] \<and> jb_wi j \<notin> set (db_budget_paused d) \<and>
        get_job d1 = (get_job d)(i \<mapsto> j\<lparr>jb_status := ''leased'', jb_lease_owner := Some owner,
          jb_lease_token := Some token, jb_lease_expires_at := expires\<rparr>))"
proof (cases "get_job d i")
  case None
  then show ?thesis by (simp add: acquireLeaseWithWriteLocks_def)
next
  case (Some j)
  let ?r = "acquireLeaseWithWriteLocks ord i owner token expires ts d"
  have pre: "jb_status j = ''queued''" "\<not> str_less ts (jb_ready_at j)" "unmetHardDependencyPredecessorJobIdsForJob d j = []"
      "jb_wi j \<notin> set (db_budget_paused d)" if "snd ?r \<noteq> None"
    using that Some by (simp_all add: acquireLeaseWithWriteLocks_def split: if_splits)
  have jobs: "get_job d1 = get_job d" if "conflict_after_cleanup F ts d = (d1, c)" for F d1 c
    using conflict_after_cleanup_cases(1) [OF that] by auto
  show ?thesis
  proof (rule acquireLease_cases [OF Some, of ord owner token expires ts])
    assume "?r = (d, None)"
    then show ?thesis by simp
  next
    fix d1 c assume c: "conflict_after_cleanup (\<lambda>x. findOrdinaryWriteLockConflict x j (getJobWriteScope j) (Some (ord x)) False) ts d = (d1, Some c)"
      and r: "?r = (d1, None)"
    show ?thesis unfolding r using jobs [OF c] by simp
  next
    fix d1 assume c: "conflict_after_cleanup (\<lambda>x. findOrdinaryWriteLockConflict x j (getJobWriteScope j) (Some (ord x)) False) ts d = (d1, None)"
      and r: "?r = (leased_db j i owner token expires ts d1, Some token)"
    have "get_job (leased_db j i owner token expires ts d1) = (get_job d)(i \<mapsto> j\<lparr>jb_status := ''leased'', jb_lease_owner := Some owner,
          jb_lease_token := Some token, jb_lease_expires_at := expires\<rparr>)"
      using leased_db_jobs [of d1 i j owner token expires ts] Some jobs [OF c] by (simp add: fun_eq_iff)
    then show ?thesis unfolding r using pre r Some by simp
  next
    assume r: "?r = (leased_db j i owner token expires ts d, Some token)"
    have "get_job (leased_db j i owner token expires ts d) = (get_job d)(i \<mapsto> j\<lparr>jb_status := ''leased'', jb_lease_owner := Some owner,
          jb_lease_token := Some token, jb_lease_expires_at := expires\<rparr>)"
      using leased_db_jobs [OF Some, of owner token expires ts] by (simp add: fun_eq_iff)
    then show ?thesis unfolding r using pre r Some by simp
  qed
qed

lemma cleanup_views [simp]: "activeJobLocks (fst (cleanupStaleFileLocks ts d)) = activeJobLocks d"
  by (simp add: activeJobLocks_def cleanupStaleFileLocks_def fun_eq_iff)

lemma cleanup_db_frame: "db_jobs (fst (cleanupStaleFileLocks ts d)) = db_jobs d" "db_deps (fst (cleanupStaleFileLocks ts d)) = db_deps d"
  by (simp_all add: cleanupStaleFileLocks_def release_wi_locks_def release_job_locks_def)

lemma queries_cong:
  assumes "db_jobs d' = db_jobs d" "db_deps d' = db_deps d"
  shows "allowed_jobs d' ip j = allowed_jobs d ip j"
proof -
  have g: "get_job d' = get_job d" using assms by (simp add: get_job_def fun_eq_iff)
  have walk: "ancestor_walk n d' ids p = ancestor_walk n d ids p" for n ids p
  proof (induction n arbitrary: ids p)
    case (Suc n)
    then show ?case by (cases p) (simp_all add: g)
  qed simp
  have "queued_dependents d' = queued_dependents d" "hard_predecessors d' = hard_predecessors d"
    using assms by (simp_all add: queued_dependents_def hard_predecessors_def g fun_eq_iff)
  then show ?thesis
    by (simp add: allowed_jobs_def ancestorJobIdsForJob_def unmetHardDependencyPredecessorJobIdsForJob_def
        queuedCohortJobIdsForJob_def queuedDependentJobIdsForJob_def walk g assms split: option.split)
qed

text \<open>
  C7: When a job is leased, every other job of its work item whose live write scope overlaps is one
  the code lets it run beside: an ancestor, a queued sibling of the same parent, or a queued job
  that depends on it.
\<close>

theorem lease_excludes_live_siblings:
  assumes "acquireLeaseWithWriteLocks ord i owner token expires ts d = (d1, Some t)" "get_job d i = Some j" "jobNeedsWriteLocks j"
    "v \<in> set (activeJobLocks d (Some (jb_wi j)) False)" "c \<in> set (scopeToLockRows (getJobWriteScope j))" "lockRowsOverlap c (lv_row v)"
  shows "lv_job v \<in> Some ` set (i # ancestorJobIdsForJob d j @ queuedCohortJobIdsForJob d j @ queuedDependentJobIdsForJob d j)"
proof (rule acquireLease_cases [OF assms(2), of ord owner token expires ts])
  fix d2
  assume c: "conflict_after_cleanup (\<lambda>x. findOrdinaryWriteLockConflict x j (getJobWriteScope j) (Some (ord x)) False) ts d = (d2, None)"
  have d2: "activeJobLocks d2 = activeJobLocks d" "allowed_jobs d2 False j = allowed_jobs d False j"
    using conflict_after_cleanup_cases(1) [OF c] queries_cong [OF cleanup_db_frame] by auto
  have "locksConflict (scopeToLockRows (getJobWriteScope j)) (Some (jb_wi j)) (Some (jb_id j)) (allowed_jobs d False j) False
      (activeJobLocks d (Some (jb_wi j)) False) = None"
    using no_conflict_split(2) [OF conflict_after_cleanup_cases(2) [OF c refl] assms(3) writeScope_has [OF assms(3)]] d2 by simp
  then have "lock_allowed (Some (jb_wi j)) (Some (jb_id j)) (allowed_jobs d False j) False v"
    using locksConflict_None assms(4-6) by blast
  then show ?thesis using get_job_mem [OF assms(2)] by (cases "lv_job v") (auto simp: lock_allowed_def allowed_jobs_def)
qed (use assms(1,3) in simp_all)

text \<open>A queued fix job that waits for the leased job and writes the same file.\<close>

definition ex_siblings :: qdb where
  "ex_siblings = (ex_db [ex_job 1 1 ''queued'' [''a''], (ex_job 2 1 ''queued'' [''a''])\<lparr>jb_type := ''fix''\<rparr>])
     \<lparr>db_deps := [\<lparr>dp_job = 2, dp_on = 1, dp_kind = ''hard''\<rparr>]\<rparr>"

lemma lease_excludes_live_siblings_witness:
  "lv_job (hd (activeJobLocks ex_siblings (Some 1) False))
     \<in> Some ` set (1 # ancestorJobIdsForJob ex_siblings (ex_job 1 1 ''queued'' [''a''])
        @ queuedCohortJobIdsForJob ex_siblings (ex_job 1 1 ''queued'' [''a'']) @ queuedDependentJobIdsForJob ex_siblings (ex_job 1 1 ''queued'' [''a'']))"
proof (rule lease_excludes_live_siblings)
  let ?o = "\<lambda>d :: qdb. buildWorkItemOrder []"
  have "snd (acquireLeaseWithWriteLocks ?o 1 ''w'' ''t'' ''2026'' ''2025'' ex_siblings) = Some ''t''" by code_simp
  then show "acquireLeaseWithWriteLocks ?o 1 ''w'' ''t'' ''2026'' ''2025'' ex_siblings =
      (fst (acquireLeaseWithWriteLocks ?o 1 ''w'' ''t'' ''2026'' ''2025'' ex_siblings), Some ''t'')" by (metis prod.collapse)
  show "get_job ex_siblings 1 = Some (ex_job 1 1 ''queued'' [''a''])" by code_simp
  show "jobNeedsWriteLocks (ex_job 1 1 ''queued'' [''a''])" by code_simp
  have "activeJobLocks ex_siblings (Some 1) False \<noteq> []" by code_simp
  then show "hd (activeJobLocks ex_siblings (Some 1) False) \<in> set (activeJobLocks ex_siblings (Some (jb_wi (ex_job 1 1 ''queued'' [''a'']))) False)"
    by (simp add: ex_job_def)
  show "\<lparr>lr_path = ''a'', lr_kind = ''file''\<rparr> \<in> set (scopeToLockRows (getJobWriteScope (ex_job 1 1 ''queued'' [''a''])))" by code_simp
  show "lockRowsOverlap \<lparr>lr_path = ''a'', lr_kind = ''file''\<rparr> (lv_row (hd (activeJobLocks ex_siblings (Some 1) False)))" by code_simp
qed

text \<open>
  A write that the tool guard lets through holds a lock: after it answers that the lock is held
  or acquired, the job has an unreleased lock row that covers the path.
\<close>

theorem guarded_write_is_locked:
  assumes "verifyOrAcquireJobWriteLockForPath win i path ts d = (d1, r)" "r \<in> {Held, Acquired}" "normalizeLockPath win path = path"
  shows "jobHoldsWriteLockForPath win d1 i path"
proof -
  have ne: "path \<noteq> []" using assms(1,2) unfolding verifyOrAcquireJobWriteLockForPath_def assms(3) by (auto simp: Let_def)
  obtain j where j: "get_job d i = Some j" "jobNeedsWriteLocks j"
    using assms(1,2) ne unfolding verifyOrAcquireJobWriteLockForPath_def assms(3) Let_def by (auto split: option.splits if_splits)
  define s where "s = \<lparr>js_files = [path], js_roots = [], js_unknown = False\<rparr>"
  obtain d2 c where c: "conflict_after_cleanup (\<lambda>x. findOrdinaryWriteLockConflict x j s None False) ts d = (d2, c)" by fastforce
  show ?thesis
  proof (cases "jobHoldsWriteLockForPath win d i path")
    case True
    then show ?thesis using assms(1) ne j unfolding verifyOrAcquireJobWriteLockForPath_def assms(3) by (simp add: Let_def)
  next
    case False
    then have "(case c of Some k \<Rightarrow> (d2, Refused_lock k) | None \<Rightarrow> (insertJobLocks j s ts (insertMissingWiLocks j s None ts d2), Acquired)) = (d1, r)"
      using assms(1) ne j c unfolding verifyOrAcquireJobWriteLockForPath_def assms(3) s_def by (simp add: Let_def)
    then have d1: "d1 = insertJobLocks j s ts (insertMissingWiLocks j s None ts d2)" using assms(2) by (cases c) auto
    have "\<exists>l \<in> set (db_job_locks d1). jl_job l = i \<and> jl_released l = None \<and> jl_path l = path \<and> jl_kind l = ''file''"
      using get_job_mem [OF j(1)] unfolding d1 insertJobLocks_def
      by (auto simp: s_def scopeToLockRows_def insert_job_lock_def list_ex_iff)
    then obtain l where l: "l \<in> set (db_job_locks d1)" "jl_job l = i" "jl_released l = None" "jl_path l = path" "jl_kind l = ''file''" by blast
    have "lock_covers win path l" using l ne by (simp add: lock_covers_def assms(3))
    then show ?thesis using l ne unfolding jobHoldsWriteLockForPath_def assms(3) by (auto simp: list_ex_iff)
  qed
qed

lemma guarded_write_is_locked_witness:
  "jobHoldsWriteLockForPath False (fst (verifyOrAcquireJobWriteLockForPath False 1 ''c'' ''2025'' ex_running)) 1 ''c''"
proof (rule guarded_write_is_locked)
  have "snd (verifyOrAcquireJobWriteLockForPath False 1 ''c'' ''2025'' ex_running) = Acquired" by code_simp
  then show "verifyOrAcquireJobWriteLockForPath False 1 ''c'' ''2025'' ex_running =
      (fst (verifyOrAcquireJobWriteLockForPath False 1 ''c'' ''2025'' ex_running), Acquired)" by (metis prod.collapse)
  show "Acquired \<in> {Held, Acquired}" by simp
  show "normalizeLockPath False ''c'' = ''c''" by code_simp
qed

definition ex_assessed :: qdb where
  "ex_assessed = (ex_db [(ex_job 1 1 ''awaiting_assessment'' [''a''])\<lparr>jb_lease_token := Some ''t1''\<rparr>, ex_job 2 2 ''running'' [''b'']])
     \<lparr>db_wi_locks := [\<lparr>wl_wi = 2, wl_path = ''b'', wl_kind = ''file'', wl_source = Some 2, wl_token = None, wl_acquired_at = ''2025'', wl_released = None\<rparr>]\<rparr>"


end
