(* ===== verification/LeaseSafety.thy ===== *)
theory LeaseSafety
  imports Leases FileLockSafety
begin

text \<open>
  What the lease functions and the recovery sweeps of the theory Leases guarantee: a stale token
  changes nothing, renewal never shortens a lease, a resolved human gate is not lost, the sweeps
  change exactly the rows whose lease lapsed, and none of them breaks the lock discipline of the
  theory FileLockSafety.
\<close>

section \<open>What each operation leaves alone\<close>

lemma row_ids [simp]:
  "jb_id (clear_lease j) = jb_id j" "jb_id (resume_row j) = jb_id j" "jb_id (release_row final ready ts j) = jb_id j"
  "jb_id (requeue_row d ts j) = jb_id j" "jb_id (fail_warm_row err ts j) = jb_id j" "jb_id (settle_plan_row ts j) = jb_id j"
  "jb_id (mark_assess_only j) = jb_id j"
  by (simp_all add: clear_lease_def resume_row_def release_row_def requeue_row_def fail_warm_row_def settle_plan_row_def
      mark_assess_only_def set_more_def)

lemma row_types [simp]:
  "jb_type (clear_lease j) = jb_type j" "jb_type (resume_row j) = jb_type j" "jb_type (release_row final ready ts j) = jb_type j"
  "jb_type (requeue_row d ts j) = jb_type j" "jb_type (fail_warm_row err ts j) = jb_type j" "jb_type (settle_plan_row ts j) = jb_type j"
  "jb_type (mark_assess_only j) = jb_type j"
  by (simp_all add: clear_lease_def resume_row_def release_row_def requeue_row_def fail_warm_row_def settle_plan_row_def
      mark_assess_only_def set_more_def)

lemma row_wis [simp]:
  "jb_wi (clear_lease j) = jb_wi j" "jb_wi (resume_row j) = jb_wi j" "jb_wi (release_row final ready ts j) = jb_wi j"
  "jb_wi (requeue_row d ts j) = jb_wi j" "jb_wi (fail_warm_row err ts j) = jb_wi j" "jb_wi (settle_plan_row ts j) = jb_wi j"
  "jb_wi (mark_assess_only j) = jb_wi j"
  by (simp_all add: clear_lease_def resume_row_def release_row_def requeue_row_def fail_warm_row_def settle_plan_row_def
      mark_assess_only_def set_more_def)

lemma row_tokens [simp]:
  "jb_lease_token (clear_lease j) = None" "jb_lease_token (resume_row j) = None" "jb_lease_token (release_row final ready ts j) = None"
  "jb_lease_token (requeue_row d ts j) = None" "jb_lease_token (fail_warm_row err ts j) = None" "jb_lease_token (settle_plan_row ts j) = None"
  by (simp_all add: clear_lease_def resume_row_def release_row_def requeue_row_def fail_warm_row_def settle_plan_row_def set_more_def)

lemma row_status [simp]:
  "jb_status (clear_lease j) = jb_status j" "jb_status (resume_row j) = ''queued''" "jb_status (release_row final ready ts j) = final"
  "jb_status (requeue_row d ts j) = ''queued''" "jb_status (fail_warm_row err ts j) = ''failed''"
  "jb_status (settle_plan_row ts j) = ''succeeded''" "jb_status (mark_assess_only j) = jb_status j"
  by (simp_all add: clear_lease_def resume_row_def release_row_def requeue_row_def fail_warm_row_def settle_plan_row_def
      mark_assess_only_def set_more_def)

lemma settle_frame [simp]:
  "db_jobs (settleHumanGateResumeEffects es st oc err ts d) = db_jobs d"
  "db_wi_locks (settleHumanGateResumeEffects es st oc err ts d) = db_wi_locks d"
  "get_job (settleHumanGateResumeEffects es st oc err ts d) = get_job d"
  "wi_active (settleHumanGateResumeEffects es st oc err ts d) = wi_active d"
  "source_ok (settleHumanGateResumeEffects es st oc err ts d) = source_ok d"
  by (simp_all add: settleHumanGateResumeEffects_def get_job_def wi_active_def get_wi_def source_ok_def fun_eq_iff split: option.split)

lemma release_status_frame [simp]:
  "db_jobs (releaseJobLocksForStatus i st ts d) = db_jobs d"
  "db_wi_locks (releaseJobLocksForStatus i st ts d) = db_wi_locks d"
  "get_job (releaseJobLocksForStatus i st ts d) = get_job d"
  "wi_active (releaseJobLocksForStatus i st ts d) = wi_active d"
  "source_ok (releaseJobLocksForStatus i st ts d) = source_ok d"
  "db_outbox (releaseJobLocksForStatus i st ts d) = db_outbox d"
  "db_attempts (releaseJobLocksForStatus i st ts d) = db_attempts d"
  by (simp_all add: releaseJobLocksForStatus_def releaseJobFileLocks_def release_job_locks_def get_job_def wi_active_def get_wi_def
      source_ok_def fun_eq_iff split: option.split)

lemma cas_job_cases:
  obtains (miss) "cas_job i P f d = (d, False)" "\<And>j. get_job d i = Some j \<Longrightarrow> \<not> P j"
  | (hit) j where "cas_job i P f d = (update_job i f d, True)" "get_job d i = Some j" "P j"
  by (cases "get_job d i") (auto simp: cas_job_def split: if_splits)

text \<open>The two shapes that consuming a resume has for the jobs, whatever becomes of the outbox.\<close>

lemma consume_cases:
  obtains (settled) es st oc err where
    "fst (consumePendingHumanGateResume i ts d) = settleHumanGateResumeEffects es st oc err ts d"
    "\<And>k. snd (consumePendingHumanGateResume i ts d) = Resumed k \<Longrightarrow> get_job d i = Some k \<and> jb_status k = ''queued''"
  | (same) "fst (consumePendingHumanGateResume i ts d) = d" "\<And>k. snd (consumePendingHumanGateResume i ts d) \<noteq> Resumed k"
  | (resumed) j where "get_job d i = Some j" "jb_status j \<in> set HUMAN_GATE_RESUMABLE_JOB_STATUSES" "jb_lease_token j = None"
    "pendingHumanGateResumeEffects d i \<noteq> []"
    "consumePendingHumanGateResume i ts d =
       (settleHumanGateResumeEffects (pendingHumanGateResumeEffects d i) ''completed'' ''requeued'' None ts (update_job i resume_row d),
        Resumed (resume_row j))"
proof -
  define es where "es = pendingHumanGateResumeEffects d i"
  note defs = consumePendingHumanGateResume_def es_def [symmetric] Let_def
  show thesis
  proof (cases "es = []")
    case True
    then show ?thesis by (intro same) (simp_all add: defs)
  next
    case ne: False
    show ?thesis
    proof (cases "get_job d i")
      case None
      then show ?thesis using ne by (intro settled) (simp_all add: defs)
    next
      case (Some j)
      consider (queued) "jb_status j = ''queued''"
        | (moved) "jb_status j \<noteq> ''queued''" "jb_status j \<notin> set HUMAN_GATE_RESUMABLE_JOB_STATUSES"
        | (live) "jb_status j \<noteq> ''queued''" "jb_status j \<in> set HUMAN_GATE_RESUMABLE_JOB_STATUSES" "jb_lease_token j \<noteq> None"
        | (go) "jb_status j \<noteq> ''queued''" "jb_status j \<in> set HUMAN_GATE_RESUMABLE_JOB_STATUSES" "jb_lease_token j = None"
        by blast
      then show ?thesis
      proof cases
        case queued
        then show ?thesis using ne Some by (intro settled) (simp_all add: defs)
      next
        case moved
        then show ?thesis using ne Some by (intro settled) (simp_all add: defs)
      next
        case live
        then show ?thesis using ne Some by (intro same) (simp_all add: defs)
      next
        case go
        then show ?thesis using ne Some by (intro resumed [of j]) (simp_all add: defs cas_job_def)
      qed
    qed
  qed
qed

lemma update_job_self: "(\<And>j. jb_id (f j) = jb_id j) \<Longrightarrow> get_job (update_job i f d) i = map_option f (get_job d i)"
proof -
  assume a: "\<And>j. jb_id (f j) = jb_id j"
  have "map_option (\<lambda>j. if jb_id j = i then f j else j) (get_job d i) = map_option f (get_job d i)"
    using get_job_mem [of d i] by (cases "get_job d i") auto
  then show ?thesis by (simp only: get_job_update [OF a])
qed

lemma update_job_other: "(\<And>j. jb_id (f j) = jb_id j) \<Longrightarrow> k \<noteq> i \<Longrightarrow> get_job (update_job i f d) k = get_job d k"
proof -
  assume a: "\<And>j. jb_id (f j) = jb_id j" "k \<noteq> i"
  have "map_option (\<lambda>j. if jb_id j = i then f j else j) (get_job d k) = get_job d k"
    using get_job_mem [of d k] a(2) by (cases "get_job d k") auto
  then show "get_job (update_job i f d) k = get_job d k" by (simp only: get_job_update [OF a(1)])
qed

lemma cas_other: "(\<And>j. jb_id (f j) = jb_id j) \<Longrightarrow> k \<noteq> i \<Longrightarrow> get_job (fst (cas_job i P f d)) k = get_job d k"
  by (rule cas_job_cases [of i P f d]) (simp_all add: update_job_other)

lemma consume_other: "k \<noteq> i \<Longrightarrow> get_job (fst (consumePendingHumanGateResume i ts d)) k = get_job d k"
  by (rule consume_cases [of i ts d]) (simp_all add: update_job_other)

lemma consume_self:
  "get_job (fst (consumePendingHumanGateResume i ts d)) i \<in> {get_job d i, map_option resume_row (get_job d i)}"
  by (rule consume_cases [of i ts d]) (simp_all add: update_job_self)

lemma consume_no_token:
  "get_job d i = Some j \<Longrightarrow> jb_lease_token j = None \<Longrightarrow>
     \<exists>k. get_job (fst (consumePendingHumanGateResume i ts d)) i = Some k \<and> jb_lease_token k = None \<and> jb_status k \<in> {jb_status j, ''queued''}"
  using consume_self [of i ts d] by auto

section \<open>Sweeps, one row at a time\<close>

text \<open>
  A sweep is a fold over the rows it selected; handling a row changes no other job. The locale is
  the interface between the four row functions and what is proved of a whole sweep.
\<close>

locale row_sweep =
  fixes step :: "'row \<Rightarrow> 'acc \<Rightarrow> 'acc" and db :: "'acc \<Rightarrow> qdb" and key :: "'row \<Rightarrow> nat"
  assumes only_own: "k \<noteq> key r \<Longrightarrow> get_job (db (step r a)) k = get_job (db a) k"
begin

lemma unselected: "k \<notin> key ` set rs \<Longrightarrow> get_job (db (fold step rs a)) k = get_job (db a) k"
  by (induction rs arbitrary: a) (simp_all add: only_own)

lemma selected:
  assumes "distinct (map key rs)" and "r \<in> set rs"
  obtains b where "get_job (db b) (key r) = get_job (db a) (key r)"
    "get_job (db (fold step rs a)) (key r) = get_job (db (step r b)) (key r)"
  using assms
proof (induction rs arbitrary: a thesis)
  case (Cons x xs)
  show ?case
  proof (cases "r = x")
    case True
    then have "key r \<notin> key ` set xs" using Cons.prems(2) by simp
    then show ?thesis using Cons.prems(1) [of a] unselected [of "key r" xs "step x a"] True by simp
  next
    case False
    then have r: "r \<in> set xs" using Cons.prems(3) by simp
    have other: "key r \<noteq> key x" using Cons.prems(2) imageI [OF r, of key] by auto
    obtain b where b: "get_job (db b) (key r) = get_job (db (step x a)) (key r)"
      "get_job (db (fold step xs (step x a))) (key r) = get_job (db (step r b)) (key r)"
      using Cons.IH [of "step x a"] Cons.prems(2) r by auto
    show ?thesis by (rule Cons.prems(1) [of b]) (use b only_own [OF other, of a] in simp_all)
  qed
qed simp

lemma keeps: "(\<And>r a. I (db a) \<Longrightarrow> I (db (step r a))) \<Longrightarrow> I (db a) \<Longrightarrow> I (db (fold step rs a))"
  by (induction rs arbitrary: a) simp_all

end

lemma clear_parked_row_db:
  "fst (clear_parked_row ts row (d, n)) =
     (let r = cas_job (jb_id row) (\<lambda>j. jb_lease_token j = jb_lease_token row \<and> jb_status j \<in> set PARKED_LEASE_STATUSES) clear_lease d;
          c = consumePendingHumanGateResume (jb_id row) ts (fst r)
      in if \<not> snd r then fst r
         else case snd c of Resumed _ \<Rightarrow> releaseJobLocksForStatus (jb_id row) ''queued'' ts (fst c) | _ \<Rightarrow> fst c)"
  by (simp add: clear_parked_row_def Let_def split: prod.split resume_result.split)

interpretation parked: row_sweep "clear_parked_row ts" fst jb_id for ts
proof
  fix k :: nat and r :: job and a :: "qdb \<times> nat"
  assume "k \<noteq> jb_id r"
  then show "get_job (fst (clear_parked_row ts r a)) k = get_job (fst a) k"
    by (cases a) (simp add: clear_parked_row_db Let_def cas_other consume_other split: resume_result.split)
qed

definition expired_row_job :: "string \<Rightarrow> qdb \<Rightarrow> job \<times> bool \<Rightarrow> job \<Rightarrow> job" where
  "expired_row_job ts d e =
     (if snd e then settle_plan_row ts
      else if jb_type (fst e) = ''atlas_warm'' then fail_warm_row ''atlas_warm: lease expired (fail-silent per policy)'' ts
      else requeue_row d ts)"

lemma expired_row_job_simps [simp]:
  "jb_id (expired_row_job ts d e j) = jb_id j" "jb_type (expired_row_job ts d e j) = jb_type j"
  "jb_wi (expired_row_job ts d e j) = jb_wi j" "jb_lease_token (expired_row_job ts d e j) = None"
  "jb_status (expired_row_job ts d e j) \<in> {''queued'', ''failed'', ''succeeded''}"
  by (simp_all add: expired_row_job_def)

text \<open>A row whose job meanwhile changed is skipped; else the row is settled, failed or queued.\<close>

lemma expired_row_db:
  "fst (expired_row ts cutoff e (d, n, ws)) =
     (let i = jb_id (fst e);
          r = cas_job i (\<lambda>j. jb_lease_token (fst e) \<noteq> None \<and> jb_lease_token j = jb_lease_token (fst e) \<and> lease_expired cutoff j)
                (expired_row_job ts d e) d
      in if \<not> snd r then fst r
         else if snd e then releaseJobLocksForStatus i ''succeeded'' ts (fst r)
         else if jb_type (fst e) = ''atlas_warm'' then releaseJobLocksForStatus i ''failed'' ts (fst r)
         else let d2 = releaseJobLocksForStatus i ''queued'' ts (fst (consumePendingHumanGateResume i ts (fst r)))
           in if jb_status (fst e) = ''awaiting_assessment'' then update_job i mark_assess_only d2 else d2)"
  by (cases e) (simp add: expired_row_def expired_row_job_def Let_def split: prod.split)

interpretation expired: row_sweep "expired_row ts cutoff" fst "\<lambda>e. jb_id (fst e)" for ts cutoff
proof
  fix k :: nat and e :: "job \<times> bool" and a :: "qdb \<times> nat \<times> nat list"
  obtain d n ws where a: "a = (d, n, ws)" by (rule prod_cases3)
  assume "k \<noteq> jb_id (fst e)"
  then show "get_job (fst (expired_row ts cutoff e a)) k = get_job (fst a) k"
    unfolding a by (simp add: expired_row_db Let_def cas_other consume_other update_job_other)
qed

definition orphan_row_job :: "string \<Rightarrow> qdb \<Rightarrow> job \<Rightarrow> job \<Rightarrow> job" where
  "orphan_row_job ts d row =
     (if jb_type row = ''atlas_warm'' then fail_warm_row ''atlas_warm: orphaned on scheduler boot (fail-silent per policy)'' ts
      else requeue_row d ts)"

lemma orphan_row_job_simps [simp]:
  "jb_id (orphan_row_job ts d row j) = jb_id j" "jb_type (orphan_row_job ts d row j) = jb_type j"
  "jb_wi (orphan_row_job ts d row j) = jb_wi j" "jb_lease_token (orphan_row_job ts d row j) = None"
  "jb_status (orphan_row_job ts d row j) \<in> {''queued'', ''failed''}"
  by (simp_all add: orphan_row_job_def)

abbreviation same_lease :: "job \<Rightarrow> job \<Rightarrow> bool" where
  "same_lease row j \<equiv> jb_status j = jb_status row \<and> jb_lease_owner j = jb_lease_owner row \<and>
     jb_lease_token j = jb_lease_token row \<and> jb_lease_expires_at j = jb_lease_expires_at row"

lemma orphan_row_db:
  "fst (orphan_row ts row (d, n, ch)) =
     (let i = jb_id row; r = cas_job i (same_lease row) (orphan_row_job ts d row) d
      in if snd r \<and> jb_type row \<noteq> ''atlas_warm'' \<and> jb_status row = ''awaiting_assessment''
         then fst (cas_job i (\<lambda>j. jb_status j = ''queued'') mark_assess_only (fst r)) else fst r)"
  by (simp add: orphan_row_def orphan_row_job_def Let_def split: prod.split)

interpretation orphans: row_sweep "orphan_row ts" fst jb_id for ts
proof
  fix k :: nat and row :: job and a :: "qdb \<times> nat \<times> job list"
  obtain d n ch where a: "a = (d, n, ch)" by (rule prod_cases3)
  assume "k \<noteq> jb_id row"
  then show "get_job (fst (orphan_row ts row a)) k = get_job (fst a) k"
    unfolding a by (simp add: orphan_row_db Let_def cas_other)
qed

interpretation orphan_settles: row_sweep "orphan_settle ts" "\<lambda>d. d" jb_id for ts
  by standard (simp add: orphan_settle_def consume_other)

section \<open>Which rows a sweep changes\<close>

lemma distinct_filter_ids: "distinct (map jb_id (db_jobs d)) \<Longrightarrow> distinct (map jb_id (filter P (db_jobs d)))"
  by (rule distinct_map_filter)

lemma cas_job_hit: "get_job d i = Some j \<Longrightarrow> P j \<Longrightarrow> cas_job i P f d = (update_job i f d, True)"
  by (simp add: cas_job_def)

text \<open>A selected row is unique for its job, and an unselected job is no row's.\<close>

lemma unselected_job:
  assumes "distinct (map jb_id (db_jobs d))" "get_job d i = Some j" "\<not> P j"
  shows "i \<notin> jb_id ` set (filter P (db_jobs d))"
  using assms get_job_distinct [OF assms(1)] by auto

lemma selected_job: "get_job d i = Some j \<Longrightarrow> P j \<Longrightarrow> j \<in> set (filter P (db_jobs d)) \<and> jb_id j = i"
  using get_job_mem [of d i j] by simp

lemma parked_sweep:
  assumes dist: "distinct (map jb_id (db_jobs d))" and j: "get_job d i = Some j"
    and d1_def: "d1 = fst (clearExpiredParkedLeaseTokens jd ts cutoff d)"
  shows "\<not> parked_lease_stale jd cutoff j \<Longrightarrow> get_job d1 i = Some j"
    and "parked_lease_stale jd cutoff j \<Longrightarrow>
      \<exists>k. get_job d1 i = Some k \<and> jb_lease_token k = None \<and> jb_status k \<in> {jb_status j, ''queued''}"
proof -
  let ?rows = "filter (parked_lease_stale jd cutoff) (db_jobs d)"
  have d1: "d1 = fst (fold (clear_parked_row ts) ?rows (d, 0))" by (simp add: d1_def clearExpiredParkedLeaseTokens_def)
  show "get_job d1 i = Some j" if "\<not> parked_lease_stale jd cutoff j"
    unfolding d1 parked.unselected [OF unselected_job [where P = "parked_lease_stale jd cutoff", OF dist j that]] by (simp add: j)
  show "\<exists>k. get_job d1 i = Some k \<and> jb_lease_token k = None \<and> jb_status k \<in> {jb_status j, ''queued''}"
    if stale: "parked_lease_stale jd cutoff j"
  proof -
    have row: "j \<in> set ?rows" "jb_id j = i" using selected_job [where P = "parked_lease_stale jd cutoff", OF j stale] by simp_all
    obtain b where b: "get_job (fst b) i = Some j" "get_job d1 i = get_job (fst (clear_parked_row ts j b)) i"
      using parked.selected [OF distinct_filter_ids [OF dist] row(1), of "(d, 0)" ts] unfolding d1 row(2) j fst_conv by metis
    obtain d2 n where d2: "b = (d2, n)" by (rule prod.exhaust)
    let ?c = "update_job i clear_lease d2"
    have hit: "cas_job i (\<lambda>x. jb_lease_token x = jb_lease_token j \<and> jb_status x \<in> set PARKED_LEASE_STATUSES) clear_lease d2 = (?c, True)"
      by (rule cas_job_hit [of _ _ j]) (use b(1) stale in \<open>simp_all add: d2 parked_lease_stale_def\<close>)
    have "get_job ?c i = Some (clear_lease j)" using b(1) by (simp add: d2 update_job_self)
    from consume_no_token [OF this, of ts] obtain k where
      k: "get_job (fst (consumePendingHumanGateResume i ts ?c)) i = Some k" "jb_lease_token k = None" "jb_status k \<in> {jb_status j, ''queued''}"
      by auto
    have "get_job d1 i = get_job (fst (consumePendingHumanGateResume i ts ?c)) i"
      unfolding b(2) d2 clear_parked_row_db row(2) hit by (simp add: Let_def split: resume_result.split)
    then show ?thesis using k by simp
  qed
qed

lemma update_job_ids: "(\<And>j. jb_id (f j) = jb_id j) \<Longrightarrow> map jb_id (db_jobs (update_job i f d)) = map jb_id (db_jobs d)"
  by (simp add: update_job_def)

text \<open>The columns that no lease function writes.\<close>

definition job_fixed :: "job \<Rightarrow> nat \<times> string \<times> nat \<times> nat option \<times> string" where
  "job_fixed j = (jb_id j, jb_type j, jb_wi j, jb_parent j, jm_created_at (jb_more j))"

definition jobs_fixed :: "qdb \<Rightarrow> (nat \<times> string \<times> nat \<times> nat option \<times> string) list \<times> attempt list" where
  "jobs_fixed d = (map job_fixed (db_jobs d), db_attempts d)"

lemma row_fixed [simp]:
  "job_fixed (clear_lease j) = job_fixed j" "job_fixed (resume_row j) = job_fixed j" "job_fixed (release_row final ready ts j) = job_fixed j"
  "job_fixed (requeue_row d ts j) = job_fixed j" "job_fixed (fail_warm_row err ts j) = job_fixed j" "job_fixed (settle_plan_row ts j) = job_fixed j"
  "job_fixed (mark_assess_only j) = job_fixed j"
  by (simp_all add: job_fixed_def clear_lease_def resume_row_def release_row_def requeue_row_def fail_warm_row_def settle_plan_row_def
      mark_assess_only_def set_more_def)

lemma update_job_fixed: "(\<And>j. job_fixed (f j) = job_fixed j) \<Longrightarrow> jobs_fixed (update_job i f d) = jobs_fixed d"
  by (simp add: jobs_fixed_def update_job_def)

lemma settle_fixed [simp]:
  "jobs_fixed (settleHumanGateResumeEffects es st oc err ts d) = jobs_fixed d"
  "jobs_fixed (releaseJobLocksForStatus i st ts d) = jobs_fixed d"
  by (simp_all add: jobs_fixed_def settleHumanGateResumeEffects_def)

lemma cas_fixed: "(\<And>j. job_fixed (f j) = job_fixed j) \<Longrightarrow> jobs_fixed (fst (cas_job i P f d)) = jobs_fixed d"
  by (rule cas_job_cases [of i P f d]) (simp_all add: update_job_fixed)

lemma consume_fixed [simp]: "jobs_fixed (fst (consumePendingHumanGateResume i ts d)) = jobs_fixed d"
  by (rule consume_cases [of i ts d]) (simp_all add: update_job_fixed)

lemma parked_sweep_fixed: "jobs_fixed (fst (clearExpiredParkedLeaseTokens jd ts cutoff d)) = jobs_fixed d"
proof -
  have "jobs_fixed (fst (fold (clear_parked_row ts) rows a)) = jobs_fixed (fst a)" for rows a
  proof (rule parked.keeps [where I = "\<lambda>x. jobs_fixed x = jobs_fixed (fst a)"])
    fix r and b :: "qdb \<times> nat"
    show "jobs_fixed (fst b) = jobs_fixed (fst a) \<Longrightarrow> jobs_fixed (fst (clear_parked_row ts r b)) = jobs_fixed (fst a)"
      by (cases b) (simp add: clear_parked_row_db Let_def cas_fixed split: resume_result.split)
  qed simp
  then show ?thesis by (simp add: clearExpiredParkedLeaseTokens_def)
qed

lemma fixed_ids: "jobs_fixed d' = jobs_fixed d \<Longrightarrow> map jb_id (db_jobs d') = map jb_id (db_jobs d)"
proof -
  have "map jb_id (db_jobs x) = map fst (fst (jobs_fixed x))" for x by (simp add: jobs_fixed_def job_fixed_def)
  then show "jobs_fixed d' = jobs_fixed d \<Longrightarrow> ?thesis" by simp
qed

lemma completed_plan_fixed: "jobs_fixed d' = jobs_fixed d \<Longrightarrow> completed_plan d' j = completed_plan d j"
proof -
  assume same: "jobs_fixed d' = jobs_fixed d"
  have ex: "list_ex (\<lambda>c. jb_parent c = p \<and> \<not> str_less (jm_created_at (jb_more c)) t) (db_jobs x) =
      list_ex (\<lambda>(_, _, _, q, c). q = p \<and> \<not> str_less c t) (fst (jobs_fixed x))" for x p t
    by (simp add: jobs_fixed_def job_fixed_def list_ex_iff)
  have "getLatestAttempt d' (jb_id j) = getLatestAttempt d (jb_id j)"
    using same by (simp add: jobs_fixed_def getLatestAttempt_def getAttempts_def job_attempts_def)
  then show ?thesis unfolding completed_plan_def ex same by simp
qed

lemma parked_not_active: "jb_status j \<in> set PARKED_LEASE_STATUSES \<Longrightarrow> jb_status j \<notin> insert ''queued'' (set ACTIVE_LEASE_STATUSES)"
  by (auto simp: PARKED_LEASE_STATUSES_def LEASE_HOLDING_STATUSES_def ACTIVE_LEASE_STATUSES_def)

definition expired_status :: "qdb \<Rightarrow> job \<Rightarrow> string" where
  "expired_status d j = (if completed_plan d j then ''succeeded'' else if jb_type j = ''atlas_warm'' then ''failed'' else ''queued'')"

lemma expired_row_self:
  assumes b: "get_job d i = Some j" and i: "jb_id j = i" and lapsed: "lease_expired cutoff j" "jb_lease_token j \<noteq> None"
  obtains k where "get_job (fst (expired_row ts cutoff (j, plan_done) (d, n, ws))) i = Some k" "jb_lease_token k = None"
    "jb_status k = (if plan_done then ''succeeded'' else if jb_type j = ''atlas_warm'' then ''failed'' else ''queued'')"
proof -
  let ?f = "expired_row_job ts d (j, plan_done)"
  define d2 where "d2 = update_job i ?f d"
  have hit: "cas_job i (\<lambda>x. jb_lease_token j \<noteq> None \<and> jb_lease_token x = jb_lease_token j \<and> lease_expired cutoff x) ?f d = (d2, True)"
    unfolding d2_def by (rule cas_job_hit [of _ _ j]) (use assms in simp_all)
  have d2: "get_job d2 i = Some (?f j)" using b by (simp add: d2_def update_job_self)
  note row = expired_row_db [of ts cutoff "(j, plan_done)" d n ws, unfolded fst_conv snd_conv i, unfolded hit fst_conv snd_conv Let_def]
  show thesis
  proof (cases "plan_done \<or> jb_type j = ''atlas_warm''")
    case True
    then show thesis using d2 row by (intro that [of "?f j"]) (auto simp: expired_row_job_def)
  next
    case False
    then have f: "jb_status (?f j) = ''queued''" "jb_lease_token (?f j) = None" by (simp_all add: expired_row_job_def)
    from consume_no_token [OF d2 f(2), of ts] obtain k where
      k: "get_job (fst (consumePendingHumanGateResume i ts d2)) i = Some k" "jb_lease_token k = None" "jb_status k = ''queued''"
      using f(1) by auto
    show thesis
    proof (cases "jb_status j = ''awaiting_assessment''")
      case True
      have "jb_lease_token (mark_assess_only k) = None" using k(2) by (simp add: mark_assess_only_def)
      then show thesis using k False row True by (intro that [of "mark_assess_only k"]) (simp_all add: update_job_self)
    qed (use k False row that [of k] in simp_all)
  qed
qed

text \<open>
  The sweep over expired leases changes exactly the jobs whose lease lapsed. An active job whose
  lease expired before the cutoff loses it and is queued again, or succeeds when it is a planner
  whose child jobs are durable, or fails when it is a warm-up; a parked job with a stale token loses
  the token and is queued only if a resolved human gate waits for it; every other job's row is as it
  was.
\<close>

theorem requeue_expired_changes_exactly_the_lapsed:
  assumes dist: "distinct (map jb_id (db_jobs d))" and j: "get_job d i = Some j"
    and r: "requeueExpiredLeases jd ts cutoff d = (d', n, ws)"
  shows "if parked_lease_stale jd cutoff j
         then \<exists>k. get_job d' i = Some k \<and> jb_lease_token k = None \<and> jb_status k \<in> {jb_status j, ''queued''}
         else if lease_expired cutoff j \<and> jb_lease_token j \<noteq> None
         then \<exists>k. get_job d' i = Some k \<and> jb_lease_token k = None \<and> jb_status k = expired_status d j
         else get_job d' i = Some j"
proof -
  define d1 where "d1 = fst (clearExpiredParkedLeaseTokens jd ts cutoff d)"
  define rows where "rows = filter (lease_expired cutoff) (db_jobs d1)"
  let ?es = "map (\<lambda>j. (j, completed_plan d1 j)) rows"
  have fixed: "jobs_fixed d1 = jobs_fixed d" unfolding d1_def by (rule parked_sweep_fixed)
  have dist1: "distinct (map jb_id (db_jobs d1))" using dist fixed_ids [OF fixed] by simp
  have d': "d' = fst (fold (expired_row ts cutoff) ?es (d1, 0, []))"
    using r unfolding requeueExpiredLeases_def Let_def d1_def [symmetric] rows_def [symmetric] by simp
  have keys: "map (\<lambda>e. jb_id (fst e)) ?es = map jb_id rows" by simp
  have keep: "get_job d' i = get_job d1 i" if k: "get_job d1 i = Some k" "\<not> lease_expired cutoff k" for k
  proof -
    have "i \<notin> (\<lambda>e. jb_id (fst e)) ` set ?es"
      using unselected_job [where P = "lease_expired cutoff", OF dist1 k] unfolding rows_def [symmetric] by auto
    from expired.unselected [OF this, of ts cutoff "(d1, 0, [])"] show ?thesis unfolding d' fst_conv .
  qed
  note parked = parked_sweep [OF dist j d1_def]
  show ?thesis
  proof (cases "parked_lease_stale jd cutoff j")
    case True
    from parked(2) [OF True] obtain k where
      k: "get_job d1 i = Some k" "jb_lease_token k = None" "jb_status k \<in> {jb_status j, ''queued''}" by blast
    have "\<not> lease_expired cutoff k"
      using k(3) parked_not_active [of j] True
      by (auto simp: lease_expired_def parked_lease_stale_def ACTIVE_LEASE_STATUSES_def)
    then show ?thesis using keep [OF k(1)] k True by simp
  next
    case fresh: False
    note d1 = parked(1) [OF fresh]
    show ?thesis
    proof (cases "lease_expired cutoff j")
      case False
      then show ?thesis using keep [OF d1] d1 fresh by simp
    next
      case True
      have row: "j \<in> set rows" "jb_id j = i" using selected_job [where P = "lease_expired cutoff", OF d1 True] by (simp_all add: rows_def)
      have e: "(j, completed_plan d1 j) \<in> set ?es" using row(1) by simp
      have "distinct (map (\<lambda>e. jb_id (fst e)) ?es)" using distinct_filter_ids [OF dist1] unfolding keys unfolding rows_def by simp
      then obtain b where b: "get_job (fst b) i = Some j" "get_job d' i = get_job (fst (expired_row ts cutoff (j, completed_plan d1 j) b)) i"
        using expired.selected [OF _ e, of "(d1, 0, [])" ts cutoff] unfolding d' fst_conv row(2) d1 by metis
      obtain d2 n2 ws2 where d2: "b = (d2, n2, ws2)" by (rule prod_cases3)
      show ?thesis
      proof (cases "jb_lease_token j = None")
        case True
        then have "cas_job i (\<lambda>x. jb_lease_token j \<noteq> None \<and> jb_lease_token x = jb_lease_token j \<and> lease_expired cutoff x)
            (expired_row_job ts d2 (j, completed_plan d1 j)) d2 = (d2, False)"
          using b(1) by (simp add: cas_job_def d2)
        then show ?thesis using b True fresh by (simp add: d2 expired_row_db row(2))
      next
        case tok: False
        from expired_row_self [OF _ row(2) True tok, of d2 ts "completed_plan d1 j" n2 ws2] b obtain k where
          "get_job d' i = Some k" "jb_lease_token k = None"
          "jb_status k = (if completed_plan d1 j then ''succeeded'' else if jb_type j = ''atlas_warm'' then ''failed'' else ''queued'')"
          unfolding d2 fst_conv by metis
        then show ?thesis using fresh True tok by (simp add: expired_status_def completed_plan_fixed [OF fixed])
      qed
    qed
  qed
qed

lemma consume_stable:
  "get_job d i = Some j \<Longrightarrow> jb_status j \<notin> set HUMAN_GATE_RESUMABLE_JOB_STATUSES \<or> jb_lease_token j \<noteq> None \<Longrightarrow>
     get_job (fst (consumePendingHumanGateResume i ts d)) k = get_job d k"
  by (rule consume_cases [of i ts d]) auto

lemma orphan_changed: "set (snd (snd (fold (orphan_row ts) rows (d, n, ch)))) \<subseteq> set ch \<union> set rows"
proof (induction rows arbitrary: d n ch)
  case (Cons r rows)
  have "set (snd (snd (orphan_row ts r (d, n, ch)))) \<subseteq> insert r (set ch)"
    by (auto simp: orphan_row_def Let_def split: prod.split)
  then show ?case using Cons.IH [of "fst (orphan_row ts r (d, n, ch))" "fst (snd (orphan_row ts r (d, n, ch)))"
      "snd (snd (orphan_row ts r (d, n, ch)))"] by auto
qed simp

lemma orphan_settle_keeps:
  "get_job d i = Some k \<Longrightarrow> jb_status k \<in> {''queued'', ''failed''} \<Longrightarrow> get_job (fold (orphan_settle ts) rows d) i = Some k"
proof (rule orphan_settles.keeps [where I = "\<lambda>d. get_job d i = Some k"])
  fix r a assume k: "get_job a i = Some k" "jb_status k \<in> {''queued'', ''failed''}"
  have "get_job (orphan_settle ts r a) i = get_job a i" if "jb_id r = i"
    using consume_stable [OF k(1), of ts] k(2) that by (auto simp: orphan_settle_def HUMAN_GATE_RESUMABLE_JOB_STATUSES_def PARKED_JOB_STATUSES_def)
  then show "get_job (orphan_settle ts r a) i = Some k" using orphan_settles.only_own [of i r ts a] k by fastforce
qed

text \<open>
  C36: When a scheduler starts, an active job keeps a lease that has not expired, unless the recovery
  is forced and this scheduler still holds the unexpired scheduler lock; every other active job loses
  its lease and is queued (a warm-up fails), and no other row is changed.
\<close>

theorem orphan_sweep_spares_live_leases:
  assumes dist: "distinct (map jb_id (db_jobs d))" and j: "get_job d i = Some j"
    and r: "requeueOrphanedJobs forced owner lock_name ts lease_now d = (d', n, ws)"
  shows "if jb_status j \<in> set ACTIVE_LEASE_STATUSES \<and>
           (may_force forced owner lock_name ts d \<or> jb_lease_expires_at j = [] \<or> str_less (jb_lease_expires_at j) lease_now)
         then \<exists>k. get_job d' i = Some k \<and> jb_lease_token k = None \<and>
           jb_status k = (if jb_type j = ''atlas_warm'' then ''failed'' else ''queued'')
         else get_job d' i = Some j"
proof -
  define P where "P = orphaned (may_force forced owner lock_name ts d) lease_now"
  define rows where "rows = filter P (db_jobs d)"
  obtain d1 m ch where f: "fold (orphan_row ts) rows (d, 0, []) = (d1, m, ch)" by (rule prod_cases3)
  have d': "d' = fold (orphan_settle ts) ch d1"
    using r unfolding requeueOrphanedJobs_def P_def [symmetric] rows_def [symmetric] f by simp
  have P: "P j \<longleftrightarrow> jb_status j \<in> set ACTIVE_LEASE_STATUSES \<and>
      (may_force forced owner lock_name ts d \<or> jb_lease_expires_at j = [] \<or> str_less (jb_lease_expires_at j) lease_now)"
    by (simp add: P_def orphaned_def)
  show ?thesis
  proof (cases "P j")
    case False
    have out: "i \<notin> jb_id ` set rows" unfolding rows_def by (rule unselected_job [where P = P, OF dist j False])
    have "set ch \<subseteq> set rows" using orphan_changed [of ts rows d 0 "[]"] by (simp add: f)
    then have "i \<notin> jb_id ` set ch" using out by blast
    then have "get_job d' i = get_job d1 i" unfolding d' by (rule orphan_settles.unselected)
    also have "get_job d1 i = get_job d i" using orphans.unselected [OF out, of ts "(d, 0, [])"] by (simp add: f)
    finally show ?thesis using False j unfolding P [symmetric] by simp
  next
    case True
    have row: "j \<in> set rows" "jb_id j = i" using selected_job [where P = P, OF j True] by (simp_all add: rows_def)
    have "distinct (map jb_id rows)" unfolding rows_def by (rule distinct_filter_ids [OF dist])
    from orphans.selected [OF this row(1), of "(d, 0, [])" ts] obtain b where
      b: "get_job (fst b) i = Some j" "get_job d1 i = get_job (fst (orphan_row ts j b)) i"
      unfolding row(2) f fst_conv j by metis
    obtain d2 n2 ch2 where d2: "b = (d2, n2, ch2)" by (rule prod_cases3)
    let ?f = "orphan_row_job ts d2 j"
    define d3 where "d3 = update_job i ?f d2"
    have hit: "cas_job i (same_lease j) ?f d2 = (d3, True)"
      unfolding d3_def by (rule cas_job_hit [of _ _ j]) (use b(1) in \<open>simp_all add: d2\<close>)
    have self: "get_job d3 i = Some (?f j)" using b(1) by (simp add: d2 d3_def update_job_self)
    have mark: "get_job (fst (cas_job i Q mark_assess_only d3)) i \<in> {Some (?f j), Some (mark_assess_only (?f j))}" for Q
      by (rule cas_job_cases [of i Q mark_assess_only d3]) (simp_all add: self update_job_self)
    note step = orphan_row_db [of ts j d2 n2 ch2, unfolded row(2) Let_def, unfolded hit fst_conv snd_conv]
    have "get_job d1 i = Some (?f j) \<or> get_job d1 i = Some (mark_assess_only (?f j))"
      using mark self unfolding b(2) d2 step by simp
    then obtain k where k: "get_job d1 i = Some k" "jb_lease_token k = None" "jb_status k = jb_status (?f j)"
      by (auto simp: mark_assess_only_def)
    have st: "jb_status (?f j) = (if jb_type j = ''atlas_warm'' then ''failed'' else ''queued'')" by (simp add: orphan_row_job_def)
    have "get_job d' i = Some k" unfolding d' by (rule orphan_settle_keeps [OF k(1)]) (simp add: k(3) st)
    then show ?thesis using k st True unfolding P [symmetric] by simp
  qed
qed

section \<open>Tokens\<close>

text \<open>
  A worker whose lease token is not the job's any more can do nothing with it: renewing and
  releasing return false, no attempt and no assessment starts, the assessment barrier is refused, and
  the database is as it was.
\<close>

theorem stale_token_changes_nothing:
  assumes "get_job d i = Some j" and "jb_lease_token j \<noteq> Some token"
  shows "renewLease i token expires cutoff d = (d, False) \<and>
    releaseLease i token final ready ts d = (d, Dep_done False) \<and>
    releaseLeaseWithoutAttemptPenalty i token final ready attempt_id ts d = (d, Dep_done False) \<and>
    incrementAndCreateAttempt hook i (Some token) worker model effort setup_only cutoff ts d = (d, Dep_done None) \<and>
    incrementAndCreateAssessmentAttempt i (Some token) model effort cutoff ts d = (d, Dep_done None) \<and>
    beginAttachedAssessmentAttempt i (Some token) d = (d, None) \<and>
    acquireAssessmentBarrier i token preserve cutoff ts d = (d, Lease_invalid) \<and>
    \<not> isLeaseValid d i (Some token) cutoff"
proof -
  have live: "\<not> lease_live j (Some token) cutoff" using assms(2) by (simp add: lease_live_def)
  have rel: "releaseLease i token final ready ts d = (d, Dep_done False)"
    using assms by (simp add: releaseLease_def cas_job_def)
  have "renewLease i token expires cutoff d = (d, False)" using assms(1) live by (simp add: renewLease_def cas_job_def)
  moreover have "releaseLeaseWithoutAttemptPenalty i token final ready attempt_id ts d = (d, Dep_done False)"
    by (simp add: releaseLeaseWithoutAttemptPenalty_def rel)
  moreover have "incrementAndCreateAttempt hook i (Some token) worker model effort setup_only cutoff ts d = (d, Dep_done None)"
    using assms(1) live by (simp add: incrementAndCreateAttempt_def)
  moreover have "incrementAndCreateAssessmentAttempt i (Some token) model effort cutoff ts d = (d, Dep_done None)"
    using assms(1) live by (simp add: incrementAndCreateAssessmentAttempt_def)
  moreover have "beginAttachedAssessmentAttempt i (Some token) d = (d, None)"
    using assms by (simp add: beginAttachedAssessmentAttempt_def)
  moreover have "acquireAssessmentBarrier i token preserve cutoff ts d = (d, Lease_invalid)"
    using assms by (simp add: acquireAssessmentBarrier_def)
  moreover have "\<not> isLeaseValid d i (Some token) cutoff" using assms(1) live by (simp add: isLeaseValid_def)
  ultimately show ?thesis using rel by blast
qed

text \<open>
  Renewing never shortens a lease: a renewal that succeeds leaves the job's row as it was but for
  an expiry that is neither before the old one nor before the one asked for, and the lease is valid.
\<close>

theorem renewal_never_shortens_a_lease:
  assumes r: "renewLease i token expires cutoff d = (d', True)"
  shows "\<exists>j t. get_job d i = Some j \<and> get_job d' i = Some (j\<lparr>jb_lease_expires_at := t\<rparr>) \<and>
    \<not> str_less t (jb_lease_expires_at j) \<and> \<not> str_less t expires \<and> isLeaseValid d' i (Some token) cutoff"
proof -
  define t where "t j = (if str_less expires (jb_lease_expires_at j) then jb_lease_expires_at j else expires)" for j :: job
  let ?f = "\<lambda>j. j\<lparr>jb_lease_expires_at := t j\<rparr>"
  have r': "cas_job i (\<lambda>j. lease_live j (Some token) cutoff) ?f d = (d', True)" using r by (simp add: renewLease_def t_def)
  show ?thesis
  proof (rule cas_job_cases [of i "\<lambda>j. lease_live j (Some token) cutoff" ?f d])
    fix j assume c: "cas_job i (\<lambda>j. lease_live j (Some token) cutoff) ?f d = (update_job i ?f d, True)"
      and j: "get_job d i = Some j" "lease_live j (Some token) cutoff"
    have d': "d' = update_job i ?f d" using c r' by simp
    have g: "get_job d' i = Some (?f j)" unfolding d' using j(1) by (simp add: update_job_self)
    have t: "\<not> str_less (t j) (jb_lease_expires_at j)" "\<not> str_less (t j) expires"
      using str_less_irrefl str_less_trans [of expires "jb_lease_expires_at j" expires] by (auto simp: t_def)
    have "\<not> str_less (t j) cutoff"
      using j(2) t(1) str_less_trans [of "t j" cutoff "jb_lease_expires_at j"] str_less_total [of cutoff "jb_lease_expires_at j"]
      by (auto simp: lease_live_def)
    moreover have "t j \<noteq> []" using j(2) t(1) by (cases "jb_lease_expires_at j") (auto simp: lease_live_def)
    ultimately have "isLeaseValid d' i (Some token) cutoff" using j(2) g by (simp add: isLeaseValid_def lease_live_def)
    then show ?thesis using j(1) g t by blast
  qed (use r' in simp)
qed

section \<open>Human gates\<close>

text \<open>
  Resuming a job after a human gate never takes a lease from a worker: while a job has a lease
  token, its row is as it was, whichever job the request names.
\<close>

theorem gate_resume_never_steals_a_lease:
  assumes "get_job d k = Some j" and "jb_lease_token j \<noteq> None"
  shows "get_job (fst (requestParkedJobResumeAfterGate gate original key reason ts d)) k = Some j"
proof -
  have ins: "get_job d1 k = Some j" if "insert_effect e d = Some d1" for e d1
    using that assms(1) by (auto simp: insert_effect_def get_job_def split: if_splits)
  have con: "get_job (fst (consumePendingHumanGateResume original ts d1)) k = Some j" if "get_job d1 k = Some j" for d1
    using consume_other [of k original ts d1] consume_stable [of d1 k j ts k] that assms(2) by (cases "k = original") simp_all
  have fst_con: "get_job d2 k = Some j" if "get_job d1 k = Some j" "consumePendingHumanGateResume original ts d1 = (d2, x)" for d1 d2 x
    using con [OF that(1)] that(2) by simp
  show ?thesis
    unfolding requestParkedJobResumeAfterGate_def Let_def
    using assms(1) by (auto split: option.split prod.split resume_result.split dest: ins fst_con)
qed

lemma settle_pending_gone:
  "pendingHumanGateResumeEffects (settleHumanGateResumeEffects (pendingHumanGateResumeEffects d i) ''completed'' oc err ts d) i = []"
proof -
  have completed: "ge_state (settle_effect ''completed'' oc err ts e) = ''completed''" for e by (simp add: settle_effect_def)
  show ?thesis
    by (auto simp: pendingHumanGateResumeEffects_def settleHumanGateResumeEffects_def filter_empty_conv list_ex_iff completed)
qed

text \<open>
  The answer to a human gate is not lost. A worker that releases its lease and leaves the job
  parked, under assessment or queued, while a resume request is pending, leaves it queued without a
  lease, and every pending request for it is settled.
\<close>

theorem answered_gate_resumes_on_release:
  assumes r: "releaseLease i token final ready ts d = (d', Dep_done True)"
    and pending: "pendingHumanGateResumeEffects d i \<noteq> []"
    and final: "final \<in> insert ''queued'' (set HUMAN_GATE_RESUMABLE_JOB_STATUSES)"
  shows "\<exists>k. get_job d' i = Some k \<and> jb_status k = ''queued'' \<and> jb_lease_token k = None \<and> pendingHumanGateResumeEffects d' i = []"
proof -
  let ?P = "\<lambda>j. jb_lease_token j = Some token \<and> jb_status j \<in> set LEASE_HOLDING_STATUSES"
  have effects: "pendingHumanGateResumeEffects (releaseJobLocksForStatus i s ts x) i = pendingHumanGateResumeEffects x i"
    "pendingHumanGateResumeEffects (update_job i f x) i = pendingHumanGateResumeEffects x i"
    "settleHumanGateResumeEffects es s oc err ts (update_job i f x) = update_job i f (settleHumanGateResumeEffects es s oc err ts x)"
    for s x f es oc err by (simp_all add: pendingHumanGateResumeEffects_def update_job_def settleHumanGateResumeEffects_def)
  show ?thesis
  proof (rule cas_job_cases [of i ?P "release_row final ready ts" d])
    fix j assume c: "cas_job i ?P (release_row final ready ts) d = (update_job i (release_row final ready ts) d, True)" and j: "get_job d i = Some j"
    define d1 where "d1 = update_job i (release_row final ready ts) d"
    define es where "es = pendingHumanGateResumeEffects d1 i"
    have es: "es \<noteq> []" using pending by (simp add: es_def d1_def effects)
    have g1: "get_job d1 i = Some (release_row final ready ts j)" using j by (simp add: d1_def update_job_self)
    have st: "final \<in> set JOB_STATUSES" using r by (auto simp: releaseLease_def c split: if_splits)
    have con: "consumePendingHumanGateResume i ts d1 =
        (if final = ''queued'' then (settleHumanGateResumeEffects es ''completed'' ''already_queued'' None ts d1, Resumed (release_row final ready ts j))
         else (settleHumanGateResumeEffects es ''completed'' ''requeued'' None ts (update_job i resume_row d1),
           Resumed (resume_row (release_row final ready ts j))))"
      using es final by (auto simp: consumePendingHumanGateResume_def es_def [symmetric] g1 cas_job_def)
    have d': "d' = releaseJobLocksForStatus i ''queued'' ts (fst (consumePendingHumanGateResume i ts d1))"
      using r st unfolding releaseLease_def c d1_def [symmetric] by (simp add: con split: if_splits)
    have gone: "pendingHumanGateResumeEffects (settleHumanGateResumeEffects es ''completed'' oc None ts d1) i = []" for oc
      unfolding es_def by (rule settle_pending_gone)
    show ?thesis
    proof (cases "final = ''queued''")
      case True
      then show ?thesis unfolding d' con using g1 gone by (simp add: effects)
    next
      case False
      then show ?thesis unfolding d' con using g1 gone by (simp add: effects update_job_self)
    qed
  qed (use r in \<open>simp add: releaseLease_def\<close>)
qed

section \<open>Leases and the lock discipline\<close>

lemma no_token_no_write: "jb_lease_token j = None \<Longrightarrow> \<not> may_write j"
  by (simp add: may_write_def)

lemma fl_inv_drop_lease:
  assumes "fl_inv d" "\<And>j. jb_id (f j) = jb_id j" "\<And>j. jb_type (f j) = jb_type j" "\<And>j. jb_wi (f j) = jb_wi j"
    "\<And>j. jb_lease_token (f j) = None"
  shows "fl_inv (update_job i f d)"
  by (rule fl_inv_update_job [OF assms(1-4)]) (simp_all add: no_token_no_write assms(5))

lemma fl_inv_settle [intro]: "fl_inv d \<Longrightarrow> fl_inv (settleHumanGateResumeEffects es st oc err ts d)"
  by (rule fl_inv_same) simp_all

lemma fl_inv_release_status [intro]: "fl_inv d \<Longrightarrow> fl_inv (releaseJobLocksForStatus i st ts d)"
  by (rule fl_inv_same) simp_all

lemma fl_inv_consume [intro]: "fl_inv d \<Longrightarrow> fl_inv (fst (consumePendingHumanGateResume i ts d))"
  by (rule consume_cases [of i ts d]) (auto intro!: fl_inv_drop_lease)

lemma fl_inv_cas: "fl_inv d \<Longrightarrow> (\<And>j. jb_id (f j) = jb_id j) \<Longrightarrow> (\<And>j. jb_type (f j) = jb_type j) \<Longrightarrow> (\<And>j. jb_wi (f j) = jb_wi j) \<Longrightarrow>
    (\<And>j. jb_lease_token (f j) = None) \<Longrightarrow> fl_inv (fst (cas_job i P f d))"
  by (rule cas_job_cases [of i P f d]) (simp_all add: fl_inv_drop_lease)

lemma fl_inv_mark: "fl_inv d \<Longrightarrow> fl_inv (update_job i mark_assess_only d)"
  by (rule fl_inv_update_job) (simp_all add: may_write_def mark_assess_only_def)

lemma fl_inv_parked_sweep: "fl_inv d \<Longrightarrow> fl_inv (fst (clearExpiredParkedLeaseTokens jd ts cutoff d))"
  unfolding clearExpiredParkedLeaseTokens_def
proof (rule parked.keeps [where I = fl_inv])
  fix r :: job and a :: "qdb \<times> nat" assume a: "fl_inv (fst a)"
  obtain d n where d: "a = (d, n)" by (rule prod.exhaust)
  have "fl_inv (fst (cas_job (jb_id r) (\<lambda>j. jb_lease_token j = jb_lease_token r \<and> jb_status j \<in> set PARKED_LEASE_STATUSES) clear_lease d))"
    by (rule fl_inv_cas) (use a in \<open>simp_all add: d\<close>)
  then show "fl_inv (fst (clear_parked_row ts r a))"
    unfolding d clear_parked_row_db by (auto simp: Let_def split: resume_result.split)
qed simp

lemma fl_inv_expired_sweep: "fl_inv d \<Longrightarrow> fl_inv (fst (requeueExpiredLeases jd ts cutoff d))"
  unfolding requeueExpiredLeases_def Let_def
proof (rule expired.keeps [where I = fl_inv])
  fix e and a :: "qdb \<times> nat \<times> nat list" assume a: "fl_inv (fst a)"
  obtain d n ws where d: "a = (d, n, ws)" by (rule prod_cases3)
  have "fl_inv (fst (cas_job (jb_id (fst e)) P (expired_row_job ts d e) d))" for P
    by (rule fl_inv_cas) (use a in \<open>simp_all add: d\<close>)
  then show "fl_inv (fst (expired_row ts cutoff e a))"
    unfolding d expired_row_db by (auto simp: Let_def intro!: fl_inv_mark)
qed (simp add: fl_inv_parked_sweep)

lemma fl_inv_orphan_sweep: "fl_inv d \<Longrightarrow> fl_inv (fst (requeueOrphanedJobs forced owner lock_name ts lease_now d))"
proof -
  assume inv: "fl_inv d"
  define rows where "rows = filter (orphaned (may_force forced owner lock_name ts d) lease_now) (db_jobs d)"
  have step: "fl_inv (fst (orphan_row ts r a))" if "fl_inv (fst a)" for r and a :: "qdb \<times> nat \<times> job list"
  proof -
    obtain d2 n ch where d2: "a = (d2, n, ch)" by (rule prod_cases3)
    have "fl_inv (fst (cas_job (jb_id r) P (orphan_row_job ts d2 r) d2))" for P
      by (rule fl_inv_cas) (use that in \<open>simp_all add: d2\<close>)
    moreover have "fl_inv x \<Longrightarrow> fl_inv (fst (cas_job i Q mark_assess_only x))" for i Q x
      by (rule cas_job_cases [of i Q mark_assess_only x]) (simp_all add: fl_inv_mark)
    ultimately show ?thesis unfolding d2 orphan_row_db by (simp add: Let_def)
  qed
  obtain d1 m ch where f: "fold (orphan_row ts) rows (d, 0, []) = (d1, m, ch)" by (rule prod_cases3)
  have "fl_inv (fst (fold (orphan_row ts) rows (d, 0, [])))"
    by (rule orphans.keeps [where I = fl_inv]) (simp_all add: step inv)
  then have "fl_inv d1" by (simp add: f)
  then have "fl_inv (fold (orphan_settle ts) ch d1)"
    by (rule orphan_settles.keeps [where I = fl_inv, rotated]) (auto simp: orphan_settle_def)
  then show ?thesis unfolding requeueOrphanedJobs_def rows_def [symmetric] f by simp
qed

lemma fl_inv_renew: "fl_inv d \<Longrightarrow> fl_inv (fst (renewLease i token expires cutoff d))"
  unfolding renewLease_def
  by (rule cas_job_cases [of i "\<lambda>j. lease_live j (Some token) cutoff"
        "\<lambda>j. j\<lparr>jb_lease_expires_at := if str_less expires (jb_lease_expires_at j) then jb_lease_expires_at j else expires\<rparr>" d])
    (auto simp: may_write_def touch_rows_def getJobPathTouchScope_def jobNeedsWriteLocks_def jobCanUseAssessmentBarrier_def
       intro!: fl_inv_update_job)

lemma fl_inv_release: "fl_inv d \<Longrightarrow> fl_inv (fst (releaseLease i token final ready ts d))"
proof -
  assume inv: "fl_inv d"
  define r where "r = cas_job i (\<lambda>j. jb_lease_token j = Some token \<and> jb_status j \<in> set LEASE_HOLDING_STATUSES) (release_row final ready ts) d"
  have "fl_inv (fst r)" unfolding r_def by (rule fl_inv_cas [OF inv]) simp_all
  then have "fl_inv (fst (consumePendingHumanGateResume i ts (fst r)))" by (rule fl_inv_consume)
  then show ?thesis
    unfolding releaseLease_def r_def [symmetric]
    using inv by (auto split: prod.split resume_result.split)
qed

lemma fl_inv_request: "fl_inv d \<Longrightarrow> fl_inv (fst (requestParkedJobResumeAfterGate gate original key reason ts d))"
proof -
  assume inv: "fl_inv d"
  have ins: "fl_inv d1" if "insert_effect e d = Some d1" for e d1
    by (rule fl_inv_same [OF inv]) (use that in \<open>auto simp: insert_effect_def get_job_def wi_active_def get_wi_def source_ok_def fun_eq_iff
        split: if_splits option.split\<close>)
  have con: "fl_inv d2" if "fl_inv d1" "consumePendingHumanGateResume original ts d1 = (d2, x)" for d1 d2 x
    using fl_inv_consume [OF that(1), of original ts] that(2) by simp
  show ?thesis
    unfolding requestParkedJobResumeAfterGate_def Let_def
    using inv by (auto split: option.split prod.split resume_result.split dest: ins con)
qed


section \<open>A concrete database\<close>

text \<open>
  One work item with the whole repository locked: a running job whose lease lapsed in 2024, a job
  that waits for a human with a live lease and a resume request, and a running job with a live lease.
\<close>

definition lease_job_example :: "nat \<Rightarrow> string \<Rightarrow> string \<Rightarrow> string \<Rightarrow> job" where
  "lease_job_example i st token expires =
     (dep_job_example i st)\<lparr>jb_lease_owner := Some ''w'', jb_lease_token := Some token, jb_lease_expires_at := expires\<rparr>"

definition lease_example :: qdb where
  "lease_example = dep_example\<lparr>
     db_jobs := [lease_job_example 1 ''running'' ''a'' ''2024'', lease_job_example 2 ''waiting_on_human'' ''b'' ''2026'',
       lease_job_example 3 ''running'' ''c'' ''2026''],
     db_wis := [\<lparr>wi_id = 1, wi_status = ''running'', wi_branch_name = ''b'', wi_merge_state = [], wi_merge_deps = []\<rparr>],
     db_wi_locks := [\<lparr>wl_wi = 1, wl_path = ''*'', wl_kind = ''root'', wl_source = Some 1, wl_token = Some ''a'',
       wl_acquired_at = ''2023'', wl_released = None\<rparr>],
     db_outbox := [new_resume_effect 7 ''k'' 2 ''r'' ''waiting_on_human'' dep_example]\<rparr>"

lemma lease_example_jobs:
  "distinct (map jb_id (db_jobs lease_example))"
  "get_job lease_example 1 = Some (lease_job_example 1 ''running'' ''a'' ''2024'')"
  "get_job lease_example 2 = Some (lease_job_example 2 ''waiting_on_human'' ''b'' ''2026'')"
  "get_job lease_example 3 = Some (lease_job_example 3 ''running'' ''c'' ''2026'')"
  by code_simp+

lemma requeue_expired_changes_exactly_the_lapsed_witness:
  "\<exists>k. get_job (fst (requeueExpiredLeases (\<lambda>s. Some (length s)) ''2025'' ''2025'' lease_example)) 1 = Some k \<and>
     jb_lease_token k = None \<and> jb_status k = ''queued''"
proof -
  obtain d' n ws where r: "requeueExpiredLeases (\<lambda>s. Some (length s)) ''2025'' ''2025'' lease_example = (d', n, ws)" by (rule prod_cases3)
  have "\<not> parked_lease_stale (\<lambda>s. Some (length s)) ''2025'' (lease_job_example 1 ''running'' ''a'' ''2024'')"
    "lease_expired ''2025'' (lease_job_example 1 ''running'' ''a'' ''2024'')"
    "jb_lease_token (lease_job_example 1 ''running'' ''a'' ''2024'') \<noteq> None"
    "expired_status lease_example (lease_job_example 1 ''running'' ''a'' ''2024'') = ''queued''" by code_simp+
  then show ?thesis using requeue_expired_changes_exactly_the_lapsed [OF lease_example_jobs(1,2) r] unfolding r by simp
qed

lemma orphan_sweep_spares_live_leases_witness:
  "get_job (fst (requeueOrphanedJobs True (Some ''s'') ''main'' ''2025'' ''2025'' lease_example)) 3 =
     Some (lease_job_example 3 ''running'' ''c'' ''2026'')"
proof -
  obtain d' n ws where r: "requeueOrphanedJobs True (Some ''s'') ''main'' ''2025'' ''2025'' lease_example = (d', n, ws)" by (rule prod_cases3)
  have "\<not> may_force True (Some ''s'') ''main'' ''2025'' lease_example"
    "jb_lease_expires_at (lease_job_example 3 ''running'' ''c'' ''2026'') \<noteq> []"
    "\<not> str_less (jb_lease_expires_at (lease_job_example 3 ''running'' ''c'' ''2026'')) ''2025''" by code_simp+
  then show ?thesis using orphan_sweep_spares_live_leases [OF lease_example_jobs(1,4) r] unfolding r by simp
qed

lemma stale_token_changes_nothing_witness:
  "renewLease 1 ''x'' ''2026'' ''2023'' lease_example = (lease_example, False) \<and>
   releaseLease 1 ''x'' ''succeeded'' None ''2025'' lease_example = (lease_example, Dep_done False)"
proof -
  have "jb_lease_token (lease_job_example 1 ''running'' ''a'' ''2024'') \<noteq> Some ''x''" by code_simp
  then show ?thesis using stale_token_changes_nothing [OF lease_example_jobs(2)] by blast
qed

lemma renewal_never_shortens_a_lease_witness:
  "isLeaseValid (fst (renewLease 3 ''c'' ''2025'' ''2023'' lease_example)) 3 (Some ''c'') ''2023''"
proof -
  have "snd (renewLease 3 ''c'' ''2025'' ''2023'' lease_example)" by code_simp
  then obtain d' where r: "renewLease 3 ''c'' ''2025'' ''2023'' lease_example = (d', True)" by (cases "renewLease 3 ''c'' ''2025'' ''2023'' lease_example") simp
  show ?thesis using renewal_never_shortens_a_lease [OF r] unfolding r by auto
qed

lemma gate_resume_never_steals_a_lease_witness:
  "get_job (fst (requestParkedJobResumeAfterGate 7 2 ''k'' ''human'' ''2025'' lease_example)) 2 =
     Some (lease_job_example 2 ''waiting_on_human'' ''b'' ''2026'')"
  by (rule gate_resume_never_steals_a_lease [OF lease_example_jobs(3)]) code_simp

lemma answered_gate_resumes_on_release_witness:
  "\<exists>k. get_job (fst (releaseLease 2 ''b'' ''waiting_on_human'' None ''2025'' lease_example)) 2 = Some k \<and> jb_status k = ''queued''"
proof -
  let ?r = "releaseLease 2 ''b'' ''waiting_on_human'' None ''2025'' lease_example"
  have "snd ?r = Dep_done True" by code_simp
  then have r: "?r = (fst ?r, Dep_done True)" by (metis prod.collapse)
  have "pendingHumanGateResumeEffects lease_example 2 \<noteq> []" by code_simp
  moreover have "''waiting_on_human'' \<in> insert ''queued'' (set HUMAN_GATE_RESUMABLE_JOB_STATUSES)" by code_simp
  ultimately show ?thesis using answered_gate_resumes_on_release [OF r] by blast
qed


end
