(* ===== verification/LeaseTypes.thy ===== *)
theory LeaseTypes
  imports LeaseSafety
begin

text \<open>
  The well-formedness of the job rows under the lease functions: a status is one of the catalog's,
  and the three lease columns are set together, only in a status that holds leases. The functions
  are the events of a step system.
\<close>

definition lease_columns_ok :: "job \<Rightarrow> bool" where
  "lease_columns_ok j \<longleftrightarrow> jb_status j \<in> set JOB_STATUSES \<and>
     (if jb_lease_token j = None then jb_lease_owner j = None \<and> jb_lease_expires_at j = []
      else jb_lease_owner j \<noteq> None \<and> jb_lease_expires_at j \<noteq> [] \<and> jb_status j \<in> set LEASE_HOLDING_STATUSES)"

definition rows_typed :: "qdb \<Rightarrow> bool" where
  "rows_typed d \<longleftrightarrow> distinct (map jb_id (db_jobs d)) \<and> list_all lease_columns_ok (db_jobs d)"

datatype lease_event =
    LsAcquire nat string string int
  | LsAcquireLocked nat string string int string
  | LsRenew nat string int string
  | LsRelease nat string string "string option" string
  | LsReleaseFree nat string string "string option" "nat option" string
  | LsResume nat nat string string string
  | LsBarrier nat string bool string string
  | LsExpired "string \<Rightarrow> int option" string string
  | LsOrphans bool "string option" string string string

text \<open>Expiries are texts of the clock.\<close>

fun lease_step :: "(qdb \<Rightarrow> wi_order) \<Rightarrow> lease_event \<Rightarrow> qdb \<Rightarrow> qdb" where
  "lease_step ord (LsAcquire i owner token ms) d = fst (acquireLease i owner token (iso_string ms) d)"
| "lease_step ord (LsAcquireLocked i owner token ms ts) d = fst (acquireLeaseWithWriteLocks ord i owner token (iso_string ms) ts d)"
| "lease_step ord (LsRenew i token ms cutoff) d = fst (renewLease i token (iso_string ms) cutoff d)"
| "lease_step ord (LsRelease i token final ready ts) d = fst (releaseLease i token final ready ts d)"
| "lease_step ord (LsReleaseFree i token final ready aid ts) d = fst (releaseLeaseWithoutAttemptPenalty i token final ready aid ts d)"
| "lease_step ord (LsResume gate original key reason ts) d = fst (requestParkedJobResumeAfterGate gate original key reason ts d)"
| "lease_step ord (LsBarrier i token preserve cutoff ts) d = fst (acquireAssessmentBarrier i token preserve cutoff ts d)"
| "lease_step ord (LsExpired jd ts cutoff) d = fst (requeueExpiredLeases jd ts cutoff d)"
| "lease_step ord (LsOrphans forced owner name ts lease_now) d = fst (requeueOrphanedJobs forced owner name ts lease_now d)"

lemma iso_string_not_empty: "iso_string ms \<noteq> []"
  by (cases "civil_date (ms div 86400000)") (simp add: iso_string_def Let_def)

lemma row_columns [simp]:
  "jb_lease_owner (clear_lease j) = None" "jb_lease_expires_at (clear_lease j) = []"
  "jb_lease_owner (resume_row j) = None" "jb_lease_expires_at (resume_row j) = []"
  "jb_lease_owner (release_row final ready ts j) = None" "jb_lease_expires_at (release_row final ready ts j) = []"
  "jb_lease_owner (requeue_row d ts j) = None" "jb_lease_expires_at (requeue_row d ts j) = []"
  "jb_lease_owner (fail_warm_row err ts j) = None" "jb_lease_expires_at (fail_warm_row err ts j) = []"
  "jb_lease_owner (settle_plan_row ts j) = None" "jb_lease_expires_at (settle_plan_row ts j) = []"
  by (simp_all add: clear_lease_def resume_row_def release_row_def requeue_row_def fail_warm_row_def settle_plan_row_def set_more_def)

lemma columns_cleared: "jb_lease_token j = None \<Longrightarrow> jb_lease_owner j = None \<Longrightarrow> jb_lease_expires_at j = [] \<Longrightarrow>
    jb_status j \<in> set JOB_STATUSES \<Longrightarrow> lease_columns_ok j"
  by (simp add: lease_columns_ok_def)

lemma known_statuses: "''queued'' \<in> set JOB_STATUSES" "''failed'' \<in> set JOB_STATUSES" "''succeeded'' \<in> set JOB_STATUSES"
    "''leased'' \<in> set JOB_STATUSES" "''awaiting_assessment'' \<in> set JOB_STATUSES" "''leased'' \<in> set LEASE_HOLDING_STATUSES"
    "''awaiting_assessment'' \<in> set LEASE_HOLDING_STATUSES"
  by (simp_all add: JOB_STATUSES_def LEASE_HOLDING_STATUSES_def)

lemma row_columns_ok [simp]:
  "lease_columns_ok (resume_row j)" "lease_columns_ok (requeue_row d ts j)" "lease_columns_ok (fail_warm_row err ts j)"
  "lease_columns_ok (settle_plan_row ts j)" "lease_columns_ok j \<Longrightarrow> lease_columns_ok (clear_lease j)"
  "lease_columns_ok j \<Longrightarrow> lease_columns_ok (mark_assess_only j)"
  "final \<in> set JOB_STATUSES \<Longrightarrow> lease_columns_ok (release_row final ready ts j)"
  "lease_columns_ok (expired_row_job ts d e j)" "lease_columns_ok (orphan_row_job ts d row j)"
  by (rule columns_cleared; simp add: known_statuses)+
    (simp_all add: lease_columns_ok_def mark_assess_only_def expired_row_job_def orphan_row_job_def known_statuses)

lemma rows_typed_same: "rows_typed d \<Longrightarrow> db_jobs d' = db_jobs d \<Longrightarrow> rows_typed d'"
  by (simp add: rows_typed_def)

lemma rows_typed_update:
  assumes "rows_typed d" "\<And>j. jb_id (f j) = jb_id j" "\<And>j. get_job d i = Some j \<Longrightarrow> lease_columns_ok j \<Longrightarrow> lease_columns_ok (f j)"
  shows "rows_typed (update_job i f d)"
proof -
  have dist: "distinct (map jb_id (db_jobs d))" using assms(1) by (simp add: rows_typed_def)
  have row: "lease_columns_ok (if jb_id j = i then f j else j)" if "j \<in> set (db_jobs d)" for j
    using get_job_distinct [OF dist that] assms(1,3) that by (auto simp: rows_typed_def list_all_iff)
  have "lease_columns_ok x" if "x \<in> set (db_jobs (update_job i f d))" for x
  proof -
    from that obtain j where "j \<in> set (db_jobs d)" "x = (if jb_id j = i then f j else j)" by (auto simp: update_job_def)
    then show ?thesis using row by (simp only:)
  qed
  then have "list_all lease_columns_ok (db_jobs (update_job i f d))" unfolding list_all_iff by (intro ballI)
  then show ?thesis using dist update_job_ids [OF assms(2)] by (simp add: rows_typed_def)
qed

lemma rows_typed_cas:
  assumes "rows_typed d" "\<And>j. jb_id (f j) = jb_id j" "\<And>j. get_job d i = Some j \<Longrightarrow> P j \<Longrightarrow> lease_columns_ok j \<Longrightarrow> lease_columns_ok (f j)"
  shows "rows_typed (fst (cas_job i P f d))"
  using assms by (cases "get_job d i") (auto simp: cas_job_def intro!: rows_typed_update)

lemma rows_typed_frame [intro]:
  "rows_typed d \<Longrightarrow> rows_typed (settleHumanGateResumeEffects es st oc err ts d)"
  "rows_typed d \<Longrightarrow> rows_typed (releaseJobLocksForStatus i st ts d)"
  by (erule rows_typed_same; simp)+

lemma rows_typed_consume [intro]: "rows_typed d \<Longrightarrow> rows_typed (fst (consumePendingHumanGateResume i ts d))"
  by (rule consume_cases [of i ts d]) (auto intro!: rows_typed_update)

lemma rows_typed_acquire: "expires \<noteq> [] \<Longrightarrow> rows_typed d \<Longrightarrow> rows_typed (fst (acquireLease i owner token expires d))"
proof -
  assume a: "expires \<noteq> []" "rows_typed d"
  define r where "r = cas_job i (\<lambda>j. jb_status j = ''queued'' \<and> jb_wi j \<notin> set (db_budget_paused d))
      (\<lambda>j. j\<lparr>jb_status := ''leased'', jb_lease_owner := Some owner, jb_lease_token := Some token, jb_lease_expires_at := expires\<rparr>) d"
  have "rows_typed (fst r)" unfolding r_def
    by (rule rows_typed_cas [OF a(2)]) (use a(1) in \<open>simp_all add: lease_columns_ok_def known_statuses\<close>)
  moreover have "fst (acquireLease i owner token expires d) = fst r" unfolding acquireLease_def r_def [symmetric] by (cases r) simp
  ultimately show ?thesis by simp
qed

lemma rows_typed_cleanup: "rows_typed d \<Longrightarrow> conflict_after_cleanup F ts d = (d', c) \<Longrightarrow> rows_typed d'"
proof (erule rows_typed_same)
  assume "conflict_after_cleanup F ts d = (d', c)"
  then show "db_jobs d' = db_jobs d"
    by (auto simp: conflict_after_cleanup_def cleanupStaleFileLocks_def split: option.splits)
qed

lemma rows_typed_lock_inserts [intro]:
  "rows_typed d \<Longrightarrow> rows_typed (insertMissingWiLocks j s tok ts d)" "rows_typed d \<Longrightarrow> rows_typed (insertJobLocks j s ts d)"
  by (erule rows_typed_same; simp add: insertMissingWiLocks_def Let_def)+

lemma rows_typed_acquire_locked:
  assumes "expires \<noteq> []" "rows_typed d"
  shows "rows_typed (fst (acquireLeaseWithWriteLocks ord i owner token expires ts d))"
proof (cases "get_job d i")
  case None
  then show ?thesis using assms by (simp add: acquireLeaseWithWriteLocks_def)
next
  case (Some j)
  define has where "has = (jobNeedsWriteLocks j \<and> hasWriteScope (getJobWriteScope j))"
  obtain d1 c where r: "(if has then conflict_after_cleanup (\<lambda>x. findOrdinaryWriteLockConflict x j (getJobWriteScope j) (Some (ord x)) False) ts d
      else (d, None)) = (d1, c)" by (rule prod.exhaust)
  have d1: "rows_typed d1" using r assms(2) by (auto split: if_splits intro: rows_typed_cleanup)
  define d2 where "d2 = update_job i (\<lambda>j. j\<lparr>jb_status := ''leased'', jb_lease_owner := Some owner, jb_lease_token := Some token,
      jb_lease_expires_at := expires\<rparr>) d1"
  have d2: "rows_typed d2" unfolding d2_def
    by (rule rows_typed_update [OF d1]) (use assms(1) in \<open>simp_all add: lease_columns_ok_def known_statuses\<close>)
  have "fst (acquireLeaseWithWriteLocks ord i owner token expires ts d) \<in> {d, d1} \<or>
      rows_typed (fst (acquireLeaseWithWriteLocks ord i owner token expires ts d))"
    unfolding acquireLeaseWithWriteLocks_def Some option.case Let_def has_def [symmetric] r case_prod_conv d2_def [symmetric]
    using d2 by (auto split: option.split)
  then show ?thesis using assms(2) d1 by auto
qed

lemma rows_typed_release: "rows_typed d \<Longrightarrow> rows_typed (fst (releaseLease i token final ready ts d))"
proof -
  assume inv: "rows_typed d"
  define r where "r = cas_job i (\<lambda>j. jb_lease_token j = Some token \<and> jb_status j \<in> set LEASE_HOLDING_STATUSES) (release_row final ready ts) d"
  show ?thesis
  proof (cases "final \<in> set JOB_STATUSES")
    case True
    have "rows_typed (fst r)" unfolding r_def by (rule rows_typed_cas [OF inv]) (simp_all add: True)
    then have "rows_typed (fst (consumePendingHumanGateResume i ts (fst r)))" by (rule rows_typed_consume)
    then show ?thesis unfolding releaseLease_def r_def [symmetric] using inv by (auto split: prod.split resume_result.split)
  next
    case False
    then show ?thesis using inv by (simp add: releaseLease_def split: prod.split)
  qed
qed

lemma rows_typed_release_free: "rows_typed d \<Longrightarrow> rows_typed (fst (releaseLeaseWithoutAttemptPenalty i token final ready aid ts d))"
proof -
  assume inv: "rows_typed d"
  obtain d1 r where r: "releaseLease i token final ready ts d = (d1, r)" by (rule prod.exhaust)
  have d1: "rows_typed d1" using rows_typed_release [OF inv, of i token final ready ts] r by simp
  have dec: "rows_typed (update_job i (\<lambda>j. j\<lparr>jb_attempt_count := jb_attempt_count j - 1\<rparr>) d1)"
    by (rule rows_typed_update [OF d1]) (simp_all add: lease_columns_ok_def)
  have "rows_typed (d1\<lparr>db_wi_locks := ls\<rparr>)" for ls by (rule rows_typed_same [OF d1]) simp
  then show ?thesis using d1 dec
    by (cases r) (auto simp: releaseLeaseWithoutAttemptPenalty_def r split: bool.split option.split)
qed

lemma rows_typed_resume: "rows_typed d \<Longrightarrow> rows_typed (fst (requestParkedJobResumeAfterGate gate original key reason ts d))"
proof -
  assume inv: "rows_typed d"
  have ins: "rows_typed d1" if "insert_effect e d = Some d1" for e d1
    by (rule rows_typed_same [OF inv]) (use that in \<open>auto simp: insert_effect_def split: if_splits\<close>)
  have con: "rows_typed d2" if "rows_typed d1" "consumePendingHumanGateResume original ts d1 = (d2, x)" for d1 d2 x
    using rows_typed_consume [OF that(1), of original ts] that(2) by simp
  show ?thesis
    unfolding requestParkedJobResumeAfterGate_def Let_def
    using inv by (auto split: option.split prod.split resume_result.split dest: ins con)
qed

lemma rows_typed_barrier: "rows_typed d \<Longrightarrow> rows_typed (fst (acquireAssessmentBarrier i token preserve cutoff ts d))"
proof -
  assume inv: "rows_typed d"
  have "rows_typed (update_job i (\<lambda>j. if preserve then j else j\<lparr>jb_status := ''awaiting_assessment''\<rparr>) d)"
    by (rule rows_typed_update [OF inv]) (auto simp: lease_columns_ok_def known_statuses split: if_splits)
  then show ?thesis using inv by (auto simp: acquireAssessmentBarrier_def Let_def split: option.split)
qed

lemma rows_typed_expired: "rows_typed d \<Longrightarrow> rows_typed (fst (requeueExpiredLeases jd ts cutoff d))"
  unfolding requeueExpiredLeases_def Let_def
proof (rule expired.keeps [where I = rows_typed])
  fix e and a :: "qdb \<times> nat \<times> nat list" assume a: "rows_typed (fst a)"
  obtain d n ws where d: "a = (d, n, ws)" by (rule prod_cases3)
  have "rows_typed (fst (cas_job (jb_id (fst e)) P (expired_row_job ts d e) d))" for P
    by (rule rows_typed_cas) (use a in \<open>simp_all add: d\<close>)
  then show "rows_typed (fst (expired_row ts cutoff e a))"
    unfolding d expired_row_db by (auto simp: Let_def intro!: rows_typed_update)
next
  assume inv: "rows_typed d"
  have "rows_typed (fst (fold (clear_parked_row ts) rows (d, 0)))" for rows
  proof (rule parked.keeps [where I = rows_typed])
    fix r :: job and a :: "qdb \<times> nat" assume a: "rows_typed (fst a)"
    obtain x n where x: "a = (x, n)" by (rule prod.exhaust)
    have "rows_typed (fst (cas_job (jb_id r) (\<lambda>j. jb_lease_token j = jb_lease_token r \<and> jb_status j \<in> set PARKED_LEASE_STATUSES) clear_lease x))"
      by (rule rows_typed_cas) (use a in \<open>simp_all add: x\<close>)
    then show "rows_typed (fst (clear_parked_row ts r a))"
      unfolding x clear_parked_row_db by (auto simp: Let_def split: resume_result.split)
  qed (simp add: inv)
  then show "rows_typed (fst (fst (clearExpiredParkedLeaseTokens jd ts cutoff d), 0 :: nat, [] :: nat list))"
    by (simp add: clearExpiredParkedLeaseTokens_def)
qed

lemma rows_typed_orphans: "rows_typed d \<Longrightarrow> rows_typed (fst (requeueOrphanedJobs forced owner lock_name ts lease_now d))"
proof -
  assume inv: "rows_typed d"
  define rows where "rows = filter (orphaned (may_force forced owner lock_name ts d) lease_now) (db_jobs d)"
  have step: "rows_typed (fst (orphan_row ts r a))" if "rows_typed (fst a)" for r and a :: "qdb \<times> nat \<times> job list"
  proof -
    obtain d2 n ch where d2: "a = (d2, n, ch)" by (rule prod_cases3)
    have "rows_typed (fst (cas_job (jb_id r) P (orphan_row_job ts d2 r) d2))" for P
      by (rule rows_typed_cas) (use that in \<open>simp_all add: d2\<close>)
    moreover have "rows_typed x \<Longrightarrow> rows_typed (fst (cas_job i Q mark_assess_only x))" for i Q x
      by (rule rows_typed_cas) simp_all
    ultimately show ?thesis unfolding d2 orphan_row_db by (simp add: Let_def)
  qed
  obtain d1 m ch where f: "fold (orphan_row ts) rows (d, 0, []) = (d1, m, ch)" by (rule prod_cases3)
  have "rows_typed (fst (fold (orphan_row ts) rows (d, 0, [])))"
    by (rule orphans.keeps [where I = rows_typed]) (simp_all add: step inv)
  then have "rows_typed d1" by (simp add: f)
  then have "rows_typed (fold (orphan_settle ts) ch d1)"
    by (rule orphan_settles.keeps [where I = rows_typed, rotated]) (auto simp: orphan_settle_def)
  then show ?thesis unfolding requeueOrphanedJobs_def rows_def [symmetric] f by simp
qed

lemma rows_typed_renew: "expires \<noteq> [] \<Longrightarrow> rows_typed d \<Longrightarrow> rows_typed (fst (renewLease i token expires cutoff d))"
  unfolding renewLease_def by (rule rows_typed_cas) (auto simp: lease_columns_ok_def lease_live_def split: if_splits)

interpretation lease_rows: step_system "lease_step ord" rows_typed for ord
proof
  fix e d assume "rows_typed d"
  then show "rows_typed (lease_step ord e d)"
    by (cases e) (simp_all add: rows_typed_acquire rows_typed_acquire_locked iso_string_not_empty rows_typed_renew rows_typed_release rows_typed_release_free rows_typed_resume rows_typed_barrier
        rows_typed_expired rows_typed_orphans)
qed

text \<open>
  The job rows stay well-formed under every lease function: after any sequence of acquires,
  renewals, releases, resume requests, assessment barriers and recovery sweeps, each job's status is
  one of the catalog's, and its lease token, owner and expiry are all set, in a status that holds
  leases, or all empty.
\<close>

theorem lease_rows_stay_well_formed:
  assumes "rows_typed d" and "j \<in> set (db_jobs (fold (lease_step ord) es d))"
  shows "jb_status j \<in> set JOB_STATUSES \<and>
    (jb_lease_token j = None \<and> jb_lease_owner j = None \<and> jb_lease_expires_at j = [] \<or>
     jb_lease_token j \<noteq> None \<and> jb_lease_owner j \<noteq> None \<and> jb_lease_expires_at j \<noteq> [] \<and> jb_status j \<in> set LEASE_HOLDING_STATUSES)"
  using lease_rows.run_inv [OF assms(1), of ord es] assms(2)
  by (auto simp: rows_typed_def list_all_iff lease_columns_ok_def split: if_splits)

lemma lease_rows_stay_well_formed_witness:
  "jb_status (hd (db_jobs (fold (lease_step (\<lambda>d. buildWorkItemOrder []))
     [LsExpired (\<lambda>s. Some 0) ''2025'' ''2025'', LsAcquire 1 ''w'' ''t'' 0] lease_example))) \<in> set JOB_STATUSES"
proof -
  let ?d = "fold (lease_step (\<lambda>d. buildWorkItemOrder [])) [LsExpired (\<lambda>s. Some 0) ''2025'' ''2025'', LsAcquire 1 ''w'' ''t'' 0] lease_example"
  have ok: "rows_typed lease_example" by code_simp
  have "length (db_jobs ?d) = 3" by code_simp
  then have "hd (db_jobs ?d) \<in> set (db_jobs ?d)" by (intro hd_in_set) auto
  then show ?thesis using lease_rows_stay_well_formed [OF ok] by blast
qed

end
