(* ===== verification/SchedulerLocks.thy ===== *)
theory SchedulerLocks
  imports LeaseClock
begin

text \<open>
  \<open>domains/queue/functions/locks.js\<close>: the rows of \<open>scheduler_locks\<close>, by which one scheduler, and one
  merge at a time, keeps the others of the same database out. The texts of the new expiry, of
  \<open>now()\<close> and of SQLite's clock are arguments; \<open>Date.parse\<close> is \<open>parse\<close>, the readability of a time for
  \<open>strftime\<close> is \<open>readable\<close>, and the signal that tests a process is \<open>probe\<close>. A statement that the
  database refuses as busy raises and changes nothing; those raises are left out.
\<close>

section \<open>Rows\<close>

type_synonym locks = "sched_lock list"

definition getSchedulerLockInfo :: "string \<Rightarrow> locks \<Rightarrow> sched_lock option" where
  "getSchedulerLockInfo name ls = find (\<lambda>l. sl_name l = name) ls"

text \<open>An insert whose name is taken is contention; the transaction is rolled back.\<close>

definition acquireSchedulerLock :: "string \<Rightarrow> string \<Rightarrow> string \<Rightarrow> string \<Rightarrow> string \<Rightarrow> locks \<Rightarrow> locks \<times> bool" where
  "acquireSchedulerLock name owner expires ts sql_now ls =
     (let ls1 = filter (\<lambda>l. \<not> (sl_name l = name \<and> str_less (sl_expires_at l) ts)) ls
      in if list_ex (\<lambda>l. sl_name l = name) ls1 then (ls, False)
         else (ls1 @ [\<lparr>sl_name = name, sl_owner = owner, sl_acquired_at = sql_now, sl_expires_at = expires\<rparr>], True))"

definition renewSchedulerLock :: "string \<Rightarrow> string \<Rightarrow> string \<Rightarrow> string \<Rightarrow> locks \<Rightarrow> locks \<times> bool" where
  "renewSchedulerLock name owner expires sql_now ls =
     (map (\<lambda>l. if sl_name l = name \<and> sl_owner l = owner then l\<lparr>sl_expires_at := expires, sl_acquired_at := sql_now\<rparr> else l) ls,
      list_ex (\<lambda>l. sl_name l = name \<and> sl_owner l = owner) ls)"

definition releaseSchedulerLock :: "string \<Rightarrow> string \<Rightarrow> locks \<Rightarrow> locks" where
  "releaseSchedulerLock name owner ls = filter (\<lambda>l. \<not> (sl_name l = name \<and> sl_owner l = owner)) ls"

text \<open>The upsert: a row is taken over by its owner, or when its heartbeat is unreadable or too old.\<close>

definition stealable :: "(string \<Rightarrow> bool) \<Rightarrow> string \<Rightarrow> string \<Rightarrow> sched_lock \<Rightarrow> bool" where
  "stealable readable owner cutoff l \<longleftrightarrow>
     sl_owner l = owner \<or> \<not> readable (sl_acquired_at l) \<or> \<not> str_less cutoff (sl_acquired_at l)"

definition forceAcquireSchedulerLock ::
  "(string \<Rightarrow> bool) \<Rightarrow> string \<Rightarrow> string \<Rightarrow> string \<Rightarrow> string \<Rightarrow> string \<Rightarrow> locks \<Rightarrow> locks \<times> bool" where
  "forceAcquireSchedulerLock readable name owner expires cutoff sql_now ls =
     (case getSchedulerLockInfo name ls of
        None \<Rightarrow> (ls @ [\<lparr>sl_name = name, sl_owner = owner, sl_acquired_at = sql_now, sl_expires_at = expires\<rparr>], True)
      | Some l \<Rightarrow>
        if stealable readable owner cutoff l
        then (map (\<lambda>x. if sl_name x = name then x\<lparr>sl_owner := owner, sl_expires_at := expires, sl_acquired_at := sql_now\<rparr> else x) ls, True)
        else (ls, False))"

text \<open>Why a command that needs the scheduler stopped must wait; \<open>None\<close> when it need not.\<close>

definition getLiveSchedulerBlockMessage :: "(string \<Rightarrow> int option) \<Rightarrow> int \<Rightarrow> int \<Rightarrow> string \<Rightarrow> locks \<Rightarrow> string option" where
  "getLiveSchedulerBlockMessage parse now_ms grace name ls =
     (case getSchedulerLockInfo name ls of
        None \<Rightarrow> None
      | Some l \<Rightarrow>
        let heartbeat = parse (if sl_acquired_at l = [] then sl_expires_at l else sl_acquired_at l);
            fresh = (case heartbeat of None \<Rightarrow> False | Some h \<Rightarrow> now_ms - h < grace);
            unexpired = (case parse (sl_expires_at l) of None \<Rightarrow> False | Some e \<Rightarrow> e > now_ms)
        in if \<not> fresh \<and> \<not> unexpired then None
           else Some (''scheduler lock is live (owner='' @ (if sl_owner l = [] then ''unknown'' else sl_owner l)
             @ ''). Stop the scheduler or wait for the lock to expire before running this command.''))"

section \<open>The merge lock\<close>

text \<open>
  The process id in an owner \<open>merge-<pid>\<close>, \<open>merge-<pid>-..\<close> or \<open>merge-<pid>:..\<close>; digits beyond the safe
  integers are no process id.
\<close>

definition merge_pid :: "string \<Rightarrow> nat option" where
  "merge_pid owner =
     (if take 6 owner \<noteq> ''merge-'' then None
      else let rest = drop 6 owner; ds = takeWhile is_digit rest; tail = dropWhile is_digit rest; v = digits_value ds
        in if ds = [] \<or> \<not> (case tail of [] \<Rightarrow> True | c # _ \<Rightarrow> c = CHR ''-'' \<or> c = CHR '':'') then None
           else if v = 0 \<or> 9007199254740991 < v then None else Some (nat v))"

datatype probe_result = Process_alive | Process_gone | Process_unknown

text \<open>
  The owner found after a failed acquire, when its process is known to be gone. Other processes may
  change the table between this look and the deletion of the row seen.
\<close>

definition dead_holder :: "nat \<Rightarrow> (nat \<Rightarrow> probe_result) \<Rightarrow> locks \<Rightarrow> sched_lock option" where
  "dead_holder self probe ls =
     (case getSchedulerLockInfo ''merge'' ls of None \<Rightarrow> None
      | Some held \<Rightarrow> (case merge_pid (sl_owner held) of None \<Rightarrow> None
          | Some p \<Rightarrow> if p = self then None else if probe p = Process_gone then Some held else None))"

definition drop_observed :: "sched_lock \<Rightarrow> locks \<Rightarrow> locks" where
  "drop_observed held ls = filter (\<lambda>l. \<not> (sl_name l = ''merge'' \<and> sl_owner l = sl_owner held \<and>
     sl_acquired_at l = sl_acquired_at held \<and> sl_expires_at l = sl_expires_at held)) ls"

text \<open>\<open>between\<close> is what the other processes do from the look to the deletion.\<close>

definition acquireMergeLock ::
  "nat \<Rightarrow> (nat \<Rightarrow> probe_result) \<Rightarrow> (locks \<Rightarrow> locks) \<Rightarrow> string \<Rightarrow> string \<Rightarrow> string \<Rightarrow> string \<Rightarrow> locks \<Rightarrow> locks \<times> bool" where
  "acquireMergeLock self probe between owner expires ts sql_now ls =
     (case acquireSchedulerLock ''merge'' owner expires ts sql_now ls of
        (ls1, True) \<Rightarrow> (ls1, True)
      | (ls1, False) \<Rightarrow> (case dead_holder self probe ls1 of
            None \<Rightarrow> (ls1, False)
          | Some held \<Rightarrow> acquireSchedulerLock ''merge'' owner expires ts sql_now (drop_observed held (between ls1))))"

definition releaseMergeLock :: "string \<Rightarrow> locks \<Rightarrow> locks" where
  "releaseMergeLock owner = releaseSchedulerLock ''merge'' owner"

definition mergeLockStillOwned :: "(string \<Rightarrow> int option) \<Rightarrow> int \<Rightarrow> string \<Rightarrow> locks \<Rightarrow> bool" where
  "mergeLockStillOwned parse now_ms owner ls =
     (case getSchedulerLockInfo ''merge'' ls of None \<Rightarrow> False
      | Some held \<Rightarrow> sl_owner held = owner \<and> (case parse (sl_expires_at held) of None \<Rightarrow> False | Some e \<Rightarrow> e > now_ms))"

text \<open>
  \<open>withMergeLock\<close>: what happens in the table while the callback runs is a list of steps, of which a
  renewal is the timer's tick and the rest are other processes. The callback's own outcome is a
  value or an error. \<open>withMergeLockSync\<close> has no timer.
\<close>

datatype 'a merge_outcome = Merge_not_acquired | Merge_done 'a | Merge_failed js_value | Merge_lock_lost

datatype merge_step = Tick string string | Outside "locks \<Rightarrow> locks"

fun merge_body :: "string \<Rightarrow> merge_step list \<Rightarrow> locks \<times> bool \<Rightarrow> locks \<times> bool" where
  "merge_body owner [] st = st"
| "merge_body owner (Tick expires sql_now # es) (ls, lost) =
     (case renewSchedulerLock ''merge'' owner expires sql_now ls of (ls1, ok) \<Rightarrow> merge_body owner es (ls1, lost \<or> \<not> ok))"
| "merge_body owner (Outside f # es) (ls, lost) = merge_body owner es (f ls, lost)"

definition finish_merge ::
  "(string \<Rightarrow> int option) \<Rightarrow> int \<Rightarrow> string \<Rightarrow> js_value + 'a \<Rightarrow> locks \<times> bool \<Rightarrow> locks \<times> 'a merge_outcome" where
  "finish_merge parse now_ms owner result st =
     (case st of (ls, lost) \<Rightarrow>
       (releaseMergeLock owner ls,
        case result of Inl e \<Rightarrow> Merge_failed e
        | Inr v \<Rightarrow> if lost \<or> \<not> mergeLockStillOwned parse now_ms owner ls then Merge_lock_lost else Merge_done v))"

definition withMergeLock ::
  "(locks \<Rightarrow> locks \<times> bool) \<Rightarrow> (string \<Rightarrow> int option) \<Rightarrow> int \<Rightarrow> string \<Rightarrow> js_value + 'a \<Rightarrow> merge_step list \<Rightarrow> locks \<Rightarrow>
     locks \<times> 'a merge_outcome" where
  "withMergeLock acquire parse now_ms owner result es ls =
     (case acquire ls of (ls1, ok) \<Rightarrow>
       if \<not> ok then (ls1, Merge_not_acquired) else finish_merge parse now_ms owner result (merge_body owner es (ls1, False)))"

definition withMergeLockSync ::
  "(locks \<Rightarrow> locks \<times> bool) \<Rightarrow> (string \<Rightarrow> int option) \<Rightarrow> int \<Rightarrow> string \<Rightarrow> js_value + 'a \<Rightarrow> (locks \<Rightarrow> locks) \<Rightarrow> locks \<Rightarrow>
     locks \<times> 'a merge_outcome" where
  "withMergeLockSync acquire parse now_ms owner result during ls =
     (case acquire ls of (ls1, ok) \<Rightarrow>
       if \<not> ok then (ls1, Merge_not_acquired) else finish_merge parse now_ms owner result (during ls1, False))"

text \<open>How often the timer of \<open>withMergeLock\<close> ticks, in milliseconds.\<close>

definition renew_every_ms :: "int \<Rightarrow> int" where
  "renew_every_ms duration_sec = max 25 (duration_sec * 1000 div 3)"

section \<open>The operations as events\<close>

datatype lock_event =
    LkAcquire string string string string string
  | LkRenew string string string string
  | LkRelease string string
  | LkForce string string string string string
  | LkMerge nat "nat \<Rightarrow> probe_result" string string string string

fun lock_do :: "(string \<Rightarrow> bool) \<Rightarrow> lock_event \<Rightarrow> locks \<Rightarrow> locks \<times> bool" where
  "lock_do readable (LkAcquire name owner expires ts sql_now) ls = acquireSchedulerLock name owner expires ts sql_now ls"
| "lock_do readable (LkRenew name owner expires sql_now) ls = renewSchedulerLock name owner expires sql_now ls"
| "lock_do readable (LkRelease name owner) ls = (releaseSchedulerLock name owner ls, True)"
| "lock_do readable (LkForce name owner expires cutoff sql_now) ls = forceAcquireSchedulerLock readable name owner expires cutoff sql_now ls"
| "lock_do readable (LkMerge self probe owner expires ts sql_now) ls = acquireMergeLock self probe (\<lambda>x. x) owner expires ts sql_now ls"

definition lock_step :: "(string \<Rightarrow> bool) \<Rightarrow> lock_event \<Rightarrow> locks \<times> bool list \<Rightarrow> locks \<times> bool list" where
  "lock_step readable e st = (case lock_do readable e (fst st) of (ls, ok) \<Rightarrow> (ls, snd st @ [ok]))"

text \<open>
  An event that leaves another owner's row alone: its time is not after the row's expiry, the row's
  heartbeat is readable and newer than the cutoff of a forced takeover, and the process of a merge
  lock is not seen gone.
\<close>

fun spares :: "(string \<Rightarrow> bool) \<Rightarrow> sched_lock \<Rightarrow> lock_event \<Rightarrow> bool" where
  "spares readable l (LkAcquire name owner expires ts sql_now) \<longleftrightarrow> owner \<noteq> sl_owner l \<and> \<not> str_less (sl_expires_at l) ts"
| "spares readable l (LkRenew name owner expires sql_now) \<longleftrightarrow> owner \<noteq> sl_owner l"
| "spares readable l (LkRelease name owner) \<longleftrightarrow> owner \<noteq> sl_owner l"
| "spares readable l (LkForce name owner expires cutoff sql_now) \<longleftrightarrow>
     owner \<noteq> sl_owner l \<and> readable (sl_acquired_at l) \<and> str_less cutoff (sl_acquired_at l)"
| "spares readable l (LkMerge self probe owner expires ts sql_now) \<longleftrightarrow>
     owner \<noteq> sl_owner l \<and> \<not> str_less (sl_expires_at l) ts \<and>
     (case merge_pid (sl_owner l) of None \<Rightarrow> True | Some p \<Rightarrow> p = self \<or> probe p \<noteq> Process_gone)"

lemma info_mem: "getSchedulerLockInfo name ls = Some l \<Longrightarrow> l \<in> set ls \<and> sl_name l = name"
  by (auto simp: getSchedulerLockInfo_def find_Some_iff)

lemma info_filter: "getSchedulerLockInfo name ls = Some l \<Longrightarrow> P l \<Longrightarrow> getSchedulerLockInfo name (filter P ls) = Some l"
  unfolding getSchedulerLockInfo_def by (induction ls) (auto split: if_splits)

lemma info_filter_other: "(\<And>l. sl_name l = name \<Longrightarrow> P l) \<Longrightarrow> getSchedulerLockInfo name (filter P ls) = getSchedulerLockInfo name ls"
  unfolding getSchedulerLockInfo_def by (induction ls) auto

lemma info_append: "getSchedulerLockInfo name (ls @ [x]) =
    (case getSchedulerLockInfo name ls of None \<Rightarrow> if sl_name x = name then Some x else None | Some l \<Rightarrow> Some l)"
  unfolding getSchedulerLockInfo_def by (induction ls) auto

lemma info_map: "(\<And>l. sl_name (f l) = sl_name l) \<Longrightarrow> getSchedulerLockInfo name (map f ls) = map_option f (getSchedulerLockInfo name ls)"
  unfolding getSchedulerLockInfo_def by (induction ls) auto

lemma info_none: "getSchedulerLockInfo name ls = None \<longleftrightarrow> name \<notin> sl_name ` set ls"
  by (auto simp: getSchedulerLockInfo_def find_None_iff)

lemma acquire_spares:
  assumes "getSchedulerLockInfo n ls = Some l" and "\<not> str_less (sl_expires_at l) ts"
  shows "getSchedulerLockInfo n (fst (acquireSchedulerLock name owner expires ts sql_now ls)) = Some l \<and>
    (name = n \<longrightarrow> acquireSchedulerLock name owner expires ts sql_now ls = (ls, False))"
proof -
  define ls1 where "ls1 = filter (\<lambda>l. \<not> (sl_name l = name \<and> str_less (sl_expires_at l) ts)) ls"
  have k: "getSchedulerLockInfo n ls1 = Some l" unfolding ls1_def by (rule info_filter [OF assms(1)]) (simp add: assms(2))
  note a = acquireSchedulerLock_def [of name owner expires ts sql_now ls, folded ls1_def, unfolded Let_def]
  have "name = n \<Longrightarrow> list_ex (\<lambda>x. sl_name x = name) ls1" using info_mem [OF k] by (auto simp: list_ex_iff)
  then show ?thesis using k assms(1) unfolding a by (simp add: info_append)
qed

lemma step_spares:
  assumes l: "getSchedulerLockInfo n ls = Some l" and s: "spares readable l e"
  shows "getSchedulerLockInfo n (fst (lock_do readable e ls)) = Some l"
proof (cases e)
  case (LkAcquire name owner expires ts sql_now)
  then show ?thesis using acquire_spares [OF l, of ts name owner expires sql_now] s by simp
next
  case (LkRenew name owner expires sql_now)
  then show ?thesis using l s by (simp add: renewSchedulerLock_def info_map)
next
  case (LkRelease name owner)
  then show ?thesis using info_filter [OF l, of "\<lambda>l. \<not> (sl_name l = name \<and> sl_owner l = owner)"] s by (simp add: releaseSchedulerLock_def)
next
  case (LkForce name owner expires cutoff sql_now)
  have n: "sl_name l = n" using info_mem [OF l] by simp
  show ?thesis
  proof (cases "getSchedulerLockInfo name ls")
    case None
    then show ?thesis using l LkForce by (simp add: forceAcquireSchedulerLock_def info_append)
  next
    case (Some k)
    then show ?thesis using l s n LkForce by (auto simp: forceAcquireSchedulerLock_def stealable_def info_map)
  qed
next
  case (LkMerge self probe owner expires ts sql_now)
  note a = acquire_spares [OF l, of ts "''merge''" owner expires sql_now]
  have ts: "\<not> str_less (sl_expires_at l) ts" using s LkMerge by simp
  obtain ls1 ok where r: "acquireSchedulerLock ''merge'' owner expires ts sql_now ls = (ls1, ok)" by (rule prod.exhaust)
  have l1: "getSchedulerLockInfo n ls1 = Some l" using a [OF ts] r by simp
  have drop: "getSchedulerLockInfo n (drop_observed held ls1) = Some l" if h: "dead_holder self probe ls1 = Some held" for held
  proof (cases "n = ''merge''")
    case True
    then have "dead_holder self probe ls1 = None"
      using s l1 by (auto simp: LkMerge dead_holder_def split: option.splits)
    then show ?thesis using h by simp
  next
    case False
    have "sl_name l = n" using info_mem [OF l] by simp
    then show ?thesis unfolding drop_observed_def by (intro info_filter [OF l1]) (use False in auto)
  qed
  show ?thesis
    using l1 acquire_spares [OF drop ts, of _ "''merge''" owner expires sql_now] unfolding LkMerge lock_do.simps acquireMergeLock_def r
    by (simp split: bool.split option.split)
qed

text \<open>
  C34: A lock that is alive is never taken. As long as the others act before it expires, force only
  with a cutoff before its last heartbeat, and do not see its process gone, no acquire, renewal,
  release or takeover by other owners changes its row.
\<close>

theorem live_lock_is_never_taken:
  assumes "getSchedulerLockInfo n ls = Some l" and "\<forall>e \<in> set es. spares readable l e"
  shows "getSchedulerLockInfo n (fst (fold (lock_step readable) es (ls, out))) = Some l"
  using assms
proof (induction es arbitrary: ls out)
  case (Cons e es)
  have "getSchedulerLockInfo n (fst (lock_do readable e ls)) = Some l" by (rule step_spares) (use Cons.prems in simp_all)
  moreover have "lock_step readable e (ls, out) = (fst (lock_do readable e ls), out @ [snd (lock_do readable e ls)])"
    by (simp add: lock_step_def split: prod.split)
  ultimately show ?case using Cons.IH Cons.prems(2) by simp
qed simp

lemma live_lock_is_never_taken_witness:
  "getSchedulerLockInfo ''merge'' (fst (fold (lock_step (\<lambda>t. t \<noteq> []))
     [LkMerge 7 (\<lambda>p. Process_alive) ''merge-7'' ''2026'' ''2025'' ''2025'', LkForce ''merge'' ''x'' ''2026'' ''2023'' ''2025'']
     ([\<lparr>sl_name = ''merge'', sl_owner = ''merge-5'', sl_acquired_at = ''2024'', sl_expires_at = ''2025''\<rparr>], []))) =
   Some \<lparr>sl_name = ''merge'', sl_owner = ''merge-5'', sl_acquired_at = ''2024'', sl_expires_at = ''2025''\<rparr>"
proof (rule live_lock_is_never_taken)
  have "merge_pid ''merge-5'' = Some 5" by code_simp
  moreover have "str_less ''2023'' ''2024''" "\<not> str_less ''2025'' ''2025''" by code_simp+
  ultimately show "\<forall>e \<in> set [LkMerge 7 (\<lambda>p. Process_alive) ''merge-7'' ''2026'' ''2025'' ''2025'', LkForce ''merge'' ''x'' ''2026'' ''2023'' ''2025''].
      spares (\<lambda>t. t \<noteq> []) \<lparr>sl_name = ''merge'', sl_owner = ''merge-5'', sl_acquired_at = ''2024'', sl_expires_at = ''2025''\<rparr> e"
    by simp
qed (simp add: getSchedulerLockInfo_def)

section \<open>Refinement of a table of holders\<close>

text \<open>
  What the rows mean: for each name at most one holder, with its heartbeat and its expiry. The
  operations on that map are atomic tests.
\<close>

type_synonym holders = "string \<Rightarrow> (string \<times> string \<times> string) option"

definition lock_holder :: "sched_lock \<Rightarrow> string \<times> string \<times> string" where
  "lock_holder l = (sl_owner l, sl_acquired_at l, sl_expires_at l)"

definition holders_of :: "locks \<Rightarrow> holders" where
  "holders_of ls = (\<lambda>n. map_option lock_holder (getSchedulerLockInfo n ls))"

definition spec_acquire :: "string \<Rightarrow> string \<Rightarrow> string \<Rightarrow> string \<Rightarrow> string \<Rightarrow> holders \<Rightarrow> holders \<times> bool" where
  "spec_acquire name owner expires ts sql_now h =
     (case h name of None \<Rightarrow> (h(name \<mapsto> (owner, sql_now, expires)), True)
      | Some (_, _, x) \<Rightarrow> if str_less x ts then (h(name \<mapsto> (owner, sql_now, expires)), True) else (h, False))"

fun spec_do :: "(string \<Rightarrow> bool) \<Rightarrow> lock_event \<Rightarrow> holders \<Rightarrow> holders \<times> bool" where
  "spec_do readable (LkAcquire name owner expires ts sql_now) h = spec_acquire name owner expires ts sql_now h"
| "spec_do readable (LkRenew name owner expires sql_now) h =
     (if map_option fst (h name) = Some owner then (h(name \<mapsto> (owner, sql_now, expires)), True) else (h, False))"
| "spec_do readable (LkRelease name owner) h = (if map_option fst (h name) = Some owner then h(name := None) else h, True)"
| "spec_do readable (LkForce name owner expires cutoff sql_now) h =
     (case h name of None \<Rightarrow> (h(name \<mapsto> (owner, sql_now, expires)), True)
      | Some (w, a, _) \<Rightarrow> if w = owner \<or> \<not> readable a \<or> \<not> str_less cutoff a then (h(name \<mapsto> (owner, sql_now, expires)), True) else (h, False))"
| "spec_do readable (LkMerge self probe owner expires ts sql_now) h =
     (case spec_acquire ''merge'' owner expires ts sql_now h of
        (h1, True) \<Rightarrow> (h1, True)
      | (h1, False) \<Rightarrow> (case h ''merge'' of None \<Rightarrow> (h, False)
          | Some (w, _, _) \<Rightarrow> (case merge_pid w of None \<Rightarrow> (h, False)
              | Some p \<Rightarrow> if p = self \<or> probe p \<noteq> Process_gone then (h, False) else (h(''merge'' \<mapsto> (owner, sql_now, expires)), True))))"

definition locks_unique :: "locks \<Rightarrow> bool" where
  "locks_unique ls \<longleftrightarrow> distinct (map sl_name ls)"

lemma locks_unique_filter: "locks_unique ls \<Longrightarrow> locks_unique (filter P ls)"
  by (simp add: locks_unique_def distinct_map_filter)

lemma info_filter_unique: "locks_unique ls \<Longrightarrow> getSchedulerLockInfo name (filter P ls) =
    (case getSchedulerLockInfo name ls of None \<Rightarrow> None | Some l \<Rightarrow> if P l then Some l else None)"
proof -
  have "distinct (map sl_name ls) \<Longrightarrow> find (\<lambda>l. sl_name l = name) (filter P ls) =
      (case find (\<lambda>l. sl_name l = name) ls of None \<Rightarrow> None | Some l \<Rightarrow> if P l then Some l else None)"
  proof (induction ls)
    case (Cons a ls)
    have "find (\<lambda>l. sl_name l = sl_name a) (filter P ls) = None" using Cons.prems by (simp add: find_None_iff) (metis imageI)
    then show ?case using Cons by (cases "sl_name a = name") auto
  qed simp
  then show "locks_unique ls \<Longrightarrow> ?thesis" by (simp add: locks_unique_def getSchedulerLockInfo_def)
qed

lemma acquire_refines:
  assumes u: "locks_unique ls" and r: "acquireSchedulerLock name owner expires ts sql_now ls = (ls', b)"
  shows "locks_unique ls' \<and> spec_acquire name owner expires ts sql_now (holders_of ls) = (holders_of ls', b)"
proof -
  define P where "P l = (\<not> (sl_name l = name \<and> str_less (sl_expires_at l) ts))" for l :: sched_lock
  define ls1 where "ls1 = filter P ls"
  define new where "new = \<lparr>sl_name = name, sl_owner = owner, sl_acquired_at = sql_now, sl_expires_at = expires\<rparr>"
  have own: "getSchedulerLockInfo name ls1 = (case getSchedulerLockInfo name ls of None \<Rightarrow> None | Some l \<Rightarrow> if P l then Some l else None)"
    unfolding ls1_def by (rule info_filter_unique [OF u])
  have other: "n \<noteq> name \<Longrightarrow> getSchedulerLockInfo n ls1 = getSchedulerLockInfo n ls" for n
    unfolding ls1_def by (rule info_filter_other) (simp add: P_def)
  have a: "(ls', b) = (if getSchedulerLockInfo name ls1 \<noteq> None then (ls, False) else (ls1 @ [new], True))"
    using r unfolding acquireSchedulerLock_def Let_def P_def [symmetric] ls1_def [symmetric] new_def [symmetric] info_none
    by (simp add: list_ex_iff image_iff Bex_def eq_commute [of name])
  have P: "getSchedulerLockInfo name ls = Some l \<Longrightarrow> P l = (\<not> str_less (sl_expires_at l) ts)" for l
    using info_mem [of name ls l] by (simp add: P_def)
  show ?thesis
  proof (cases "getSchedulerLockInfo name ls1")
    case (Some l)
    then have l: "getSchedulerLockInfo name ls = Some l" "\<not> str_less (sl_expires_at l) ts"
      using own P by (auto split: option.splits if_splits)
    then show ?thesis using u a Some by (simp add: spec_acquire_def holders_of_def lock_holder_def)
  next
    case None
    then have r': "ls' = ls1 @ [new]" "b = True" using a by simp_all
    have "locks_unique ls'" using locks_unique_filter [OF u, of P] None unfolding r' ls1_def [symmetric] info_none by (simp add: locks_unique_def new_def)
    moreover have "holders_of ls' = (holders_of ls)(name \<mapsto> (owner, sql_now, expires))"
    proof
      fix n
      show "holders_of ls' n = ((holders_of ls)(name \<mapsto> (owner, sql_now, expires))) n"
        using other [of n] None by (cases "n = name") (simp_all add: r' holders_of_def info_append new_def lock_holder_def split: option.split)
    qed
    moreover have "case holders_of ls name of None \<Rightarrow> True | Some (_, _, x) \<Rightarrow> str_less x ts"
      using None own P by (cases "getSchedulerLockInfo name ls") (auto simp: holders_of_def lock_holder_def split: if_splits)
    ultimately show ?thesis using r' by (auto simp: spec_acquire_def split: option.splits)
  qed
qed

lemma release_refines:
  assumes u: "locks_unique ls"
  shows "holders_of (releaseSchedulerLock name owner ls) =
    (if map_option fst (holders_of ls name) = Some owner then (holders_of ls)(name := None) else holders_of ls)"
proof
  fix n
  show "holders_of (releaseSchedulerLock name owner ls) n =
      (if map_option fst (holders_of ls name) = Some owner then (holders_of ls)(name := None) else holders_of ls) n"
  proof (cases "n = name")
    case True
    then show ?thesis using info_mem [of name ls]
      by (cases "getSchedulerLockInfo name ls") (auto simp: releaseSchedulerLock_def holders_of_def info_filter_unique [OF u] lock_holder_def)
  next
    case False
    then show ?thesis by (simp add: releaseSchedulerLock_def holders_of_def info_filter_other)
  qed
qed

lemma map_rows_refines:
  assumes u: "locks_unique ls" and l: "getSchedulerLockInfo name ls = Some l"
    and f: "\<And>x. sl_name (f x) = sl_name x" "\<And>x. sl_name x \<noteq> name \<Longrightarrow> f x = x"
  shows "locks_unique (map f ls) \<and> holders_of (map f ls) = (holders_of ls)(name \<mapsto> lock_holder (f l))"
proof
  show "locks_unique (map f ls)" using u by (simp add: locks_unique_def comp_def f)
  show "holders_of (map f ls) = (holders_of ls)(name \<mapsto> lock_holder (f l))"
  proof
    fix n
    have "getSchedulerLockInfo n ls = Some k \<Longrightarrow> n \<noteq> name \<Longrightarrow> f k = k" for k
      using info_mem [of n ls k] f(2) [of k] by simp
    then show "holders_of (map f ls) n = ((holders_of ls)(name \<mapsto> lock_holder (f l))) n"
      using l by (cases "getSchedulerLockInfo n ls") (auto simp: holders_of_def info_map f)
  qed
qed

lemma renew_refines:
  assumes u: "locks_unique ls" and r: "renewSchedulerLock name owner expires sql_now ls = (ls', b)"
  shows "locks_unique ls' \<and> spec_do readable (LkRenew name owner expires sql_now) (holders_of ls) = (holders_of ls', b)"
proof -
  define f :: "sched_lock \<Rightarrow> sched_lock" where
    "f = (\<lambda>x. if sl_name x = name \<and> sl_owner x = owner then x\<lparr>sl_expires_at := expires, sl_acquired_at := sql_now\<rparr> else x)"
  have f: "sl_name (f x) = sl_name x" "sl_name x \<noteq> name \<Longrightarrow> f x = x" for x by (simp_all add: f_def)
  have r': "ls' = map f ls" "b = list_ex (\<lambda>l. sl_name l = name \<and> sl_owner l = owner) ls"
    using r by (simp_all add: renewSchedulerLock_def f_def)
  show ?thesis
  proof (cases "getSchedulerLockInfo name ls")
    case None
    then have "name \<notin> sl_name ` set ls" by (simp add: info_none)
    then have "\<not> b" "map f ls = ls" by (auto simp: r' list_ex_iff f_def intro!: map_idI)
    then show ?thesis using u None by (simp add: r' holders_of_def)
  next
    case (Some l)
    have l: "l \<in> set ls" "sl_name l = name" using info_mem [OF Some] by simp_all
    have b: "b = (sl_owner l = owner)"
    proof
      assume b
      then obtain k where k: "k \<in> set ls" "sl_name k = name" "sl_owner k = owner" by (auto simp: r' list_ex_iff)
      have "inj_on sl_name (set ls)" using u by (simp add: locks_unique_def distinct_map)
      then have "k = l" by (rule inj_onD) (simp_all add: k l)
      then show "sl_owner l = owner" using k by simp
    qed (use l in \<open>auto simp: r' list_ex_iff\<close>)
    have m: "locks_unique (map f ls)" "holders_of (map f ls) = (holders_of ls)(name \<mapsto> lock_holder (f l))"
      using map_rows_refines [OF u Some f] by simp_all
    have h: "holders_of ls name = Some (lock_holder l)" using Some by (simp add: holders_of_def)
    show ?thesis
    proof (cases "sl_owner l = owner")
      case True
      then show ?thesis using m h l b by (simp add: r' f_def lock_holder_def)
    next
      case False
      then have "holders_of (map f ls) = holders_of ls" using m h by (simp add: f_def fun_upd_idem)
      then show ?thesis using m h b False by (simp add: r' lock_holder_def)
    qed
  qed
qed

lemma force_refines:
  assumes u: "locks_unique ls" and r: "forceAcquireSchedulerLock readable name owner expires cutoff sql_now ls = (ls', b)"
  shows "locks_unique ls' \<and> spec_do readable (LkForce name owner expires cutoff sql_now) (holders_of ls) = (holders_of ls', b)"
proof (cases "getSchedulerLockInfo name ls")
  case None
  define new where "new = \<lparr>sl_name = name, sl_owner = owner, sl_acquired_at = sql_now, sl_expires_at = expires\<rparr>"
  have r': "ls' = ls @ [new]" "b" using r None by (simp_all add: forceAcquireSchedulerLock_def new_def)
  have "locks_unique ls'" using u None unfolding info_none by (simp add: r' locks_unique_def new_def)
  moreover have "holders_of ls' = (holders_of ls)(name \<mapsto> (owner, sql_now, expires))"
    using None by (auto simp: fun_eq_iff r' holders_of_def info_append new_def lock_holder_def split: option.split)
  ultimately show ?thesis using None r' by (simp add: holders_of_def)
next
  case (Some l)
  define f :: "sched_lock \<Rightarrow> sched_lock" where
    "f = (\<lambda>x. if sl_name x = name then x\<lparr>sl_owner := owner, sl_expires_at := expires, sl_acquired_at := sql_now\<rparr> else x)"
  have f: "sl_name (f x) = sl_name x" "sl_name x \<noteq> name \<Longrightarrow> f x = x" for x by (simp_all add: f_def)
  have r': "(ls', b) = (if stealable readable owner cutoff l then (map f ls, True) else (ls, False))"
    using r Some by (simp add: forceAcquireSchedulerLock_def f_def split: if_splits)
  have l: "sl_name l = name" using info_mem [OF Some] by simp
  have h: "holders_of ls name = Some (sl_owner l, sl_acquired_at l, sl_expires_at l)" using Some by (simp add: holders_of_def lock_holder_def)
  show ?thesis
    using map_rows_refines [OF u Some f] r' u h l
    by (cases "stealable readable owner cutoff l") (auto simp: stealable_def f_def lock_holder_def)
qed

lemma merge_refines:
  assumes u: "locks_unique ls" and r: "acquireMergeLock self probe (\<lambda>x. x) owner expires ts sql_now ls = (ls', b)"
  shows "locks_unique ls' \<and> spec_do readable (LkMerge self probe owner expires ts sql_now) (holders_of ls) = (holders_of ls', b)"
proof -
  obtain ls1 b1 where a: "acquireSchedulerLock ''merge'' owner expires ts sql_now ls = (ls1, b1)" by (rule prod.exhaust)
  note spec = acquire_refines [OF u a]
  have same: "\<not> b1 \<Longrightarrow> ls1 = ls" using a by (auto simp: acquireSchedulerLock_def Let_def split: if_splits)
  show ?thesis
  proof (cases "b1 \<or> dead_holder self probe ls = None")
    case True
    then show ?thesis using spec r same
      by (cases b1) (auto simp: acquireMergeLock_def a holders_of_def lock_holder_def dead_holder_def split: option.splits if_splits)
  next
    case False
    then obtain held where held: "dead_holder self probe ls = Some held" "\<not> b1" by auto
    have row: "getSchedulerLockInfo ''merge'' ls = Some held" using held(1) by (auto simp: dead_holder_def split: option.splits if_splits)
    have pid: "\<exists>p. merge_pid (sl_owner held) = Some p \<and> p \<noteq> self \<and> probe p = Process_gone"
      using held(1) row by (auto simp: dead_holder_def split: option.splits if_splits)
    define ls2 where "ls2 = drop_observed held ls"
    have none: "getSchedulerLockInfo ''merge'' ls2 = None"
      using row info_mem [OF row] by (simp add: ls2_def drop_observed_def info_filter_unique [OF u])
    have other: "n \<noteq> ''merge'' \<Longrightarrow> getSchedulerLockInfo n ls2 = getSchedulerLockInfo n ls" for n
      unfolding ls2_def drop_observed_def by (rule info_filter_other) simp
    have u2: "locks_unique ls2" unfolding ls2_def drop_observed_def by (rule locks_unique_filter [OF u])
    have r2: "acquireSchedulerLock ''merge'' owner expires ts sql_now ls2 = (ls', b)"
      using r held same unfolding acquireMergeLock_def a by (simp add: ls2_def)
    have "spec_acquire ''merge'' owner expires ts sql_now (holders_of ls2) = ((holders_of ls2)(''merge'' \<mapsto> (owner, sql_now, expires)), True)"
      using none by (simp add: spec_acquire_def holders_of_def)
    then have "holders_of ls' = (holders_of ls2)(''merge'' \<mapsto> (owner, sql_now, expires))" "b" "locks_unique ls'"
      using acquire_refines [OF u2 r2] by simp_all
    moreover have "(holders_of ls2)(''merge'' \<mapsto> x) = (holders_of ls)(''merge'' \<mapsto> x)" for x
      using other by (auto simp: holders_of_def fun_eq_iff)
    moreover have "holders_of ls ''merge'' = Some (lock_holder held)" using row by (simp add: holders_of_def)
    ultimately show ?thesis using spec held pid same by (auto simp: lock_holder_def)
  qed
qed

lemma lock_do_refines:
  assumes u: "locks_unique ls" and r: "lock_do readable e ls = (ls', b)"
  shows "locks_unique ls' \<and> spec_do readable e (holders_of ls) = (holders_of ls', b)"
proof (cases e)
  case (LkAcquire name owner expires ts sql_now)
  then show ?thesis using acquire_refines [OF u] r by simp
next
  case (LkRenew name owner expires sql_now)
  then show ?thesis using renew_refines [OF u] r by (simp del: spec_do.simps)
next
  case (LkRelease name owner)
  then show ?thesis using release_refines [OF u, of name owner] locks_unique_filter [OF u] r by (auto simp: releaseSchedulerLock_def)
next
  case (LkForce name owner expires cutoff sql_now)
  then show ?thesis using force_refines [OF u] r by (simp del: spec_do.simps)
next
  case (LkMerge self probe owner expires ts sql_now)
  then show ?thesis using merge_refines [OF u] r by (simp del: spec_do.simps)
qed

interpretation scheduler_locks: step_system "lock_step readable" "\<lambda>st. locks_unique (fst st)" for readable
  by standard (auto simp: lock_step_def dest: lock_do_refines split: prod.split)

definition spec_step :: "(string \<Rightarrow> bool) \<Rightarrow> lock_event \<Rightarrow> holders \<times> bool list \<Rightarrow> holders \<times> bool list" where
  "spec_step readable e st = (case spec_do readable e (fst st) of (h, ok) \<Rightarrow> (h, snd st @ [ok]))"

text \<open>
  C35: The lock table implements atomic tests on a map from names to holders: after any sequence of
  acquires, renewals, releases, forced takeovers and merge acquires, the rows stand for the map that
  the atomic operations yield, and every call returned what the atomic operation returns.
\<close>

theorem scheduler_locks_refine_holders:
  "(case fold (lock_step readable) es ([], []) of (ls, out) \<Rightarrow> (holders_of ls, out)) = fold (spec_step readable) es (Map.empty, [])"
proof -
  have "locks_unique ls \<Longrightarrow> (case fold (lock_step readable) es (ls, out) of (ls', out') \<Rightarrow> (holders_of ls', out')) =
      fold (spec_step readable) es (holders_of ls, out)" for ls out
  proof (induction es arbitrary: ls out)
    case (Cons e es)
    obtain ls1 b where r: "lock_do readable e ls = (ls1, b)" by (rule prod.exhaust)
    note one = lock_do_refines [OF Cons.prems r]
    have "lock_step readable e (ls, out) = (ls1, out @ [b])" "spec_step readable e (holders_of ls, out) = (holders_of ls1, out @ [b])"
      using r one by (simp_all add: lock_step_def spec_step_def)
    then show ?case using Cons.IH one by simp
  qed simp
  from this [of "[]" "[]"] show ?thesis by (simp add: locks_unique_def holders_of_def getSchedulerLockInfo_def)
qed

section \<open>Merging under the lock\<close>

lemma merge_body_keeps:
  assumes "getSchedulerLockInfo ''merge'' ls = Some l" and "sl_owner l = owner"
    and "\<And>f x k. Outside f \<in> set es \<Longrightarrow> getSchedulerLockInfo ''merge'' x = Some k \<Longrightarrow> sl_owner k = owner \<Longrightarrow>
      getSchedulerLockInfo ''merge'' (f x) = Some k"
  shows "\<exists>ls1 k. merge_body owner es (ls, False) = (ls1, False) \<and> getSchedulerLockInfo ''merge'' ls1 = Some k \<and> sl_owner k = owner \<and>
    (sl_expires_at k = sl_expires_at l \<or> (\<exists>t. Tick (sl_expires_at k) t \<in> set es))"
  using assms
proof (induction es arbitrary: ls l)
  case (Cons e es)
  show ?case
  proof (cases e)
    case (Outside f)
    have "getSchedulerLockInfo ''merge'' (f ls) = Some l" using Cons.prems Outside by simp
    from Cons.IH [OF this Cons.prems(2)] Cons.prems(3) show ?thesis by (simp add: Outside)
  next
    case (Tick expires t)
    let ?r = "renewSchedulerLock ''merge'' owner expires t ls"
    have ok: "snd ?r" using info_mem [OF Cons.prems(1)] Cons.prems(2) by (auto simp: renewSchedulerLock_def list_ex_iff)
    have row: "getSchedulerLockInfo ''merge'' (fst ?r) = Some (l\<lparr>sl_expires_at := expires, sl_acquired_at := t\<rparr>)"
      using Cons.prems(1,2) info_mem [OF Cons.prems(1)] by (simp add: renewSchedulerLock_def info_map)
    obtain ls1 k where k: "merge_body owner es (fst ?r, False) = (ls1, False)" "getSchedulerLockInfo ''merge'' ls1 = Some k"
      "sl_owner k = owner" "sl_expires_at k = expires \<or> (\<exists>t. Tick (sl_expires_at k) t \<in> set es)"
      using Cons.IH [OF row] Cons.prems(2,3) by auto
    have "merge_body owner (e # es) (ls, False) = merge_body owner es (fst ?r, False)"
      using ok by (cases ?r) (simp add: Tick)
    then show ?thesis using k Tick by (intro exI [of _ ls1] exI [of _ k]) auto
  qed
qed (use assms in auto)

text \<open>
  A merge that nothing disturbs is reported as done. If the lock was acquired, the other
  processes leave the owner's row alone, and the expiry it was given and the expiries the timer sets
  are not over when the callback ends, \<open>withMergeLock\<close> returns the callback's value, and afterwards
  no row of this owner is left.
\<close>

theorem undisturbed_merge_completes:
  assumes acq: "acquire ls = (ls1, True)" and row: "getSchedulerLockInfo ''merge'' ls1 = Some l" "sl_owner l = owner"
    and quiet: "\<And>f x k. Outside f \<in> set es \<Longrightarrow> getSchedulerLockInfo ''merge'' x = Some k \<Longrightarrow> sl_owner k = owner \<Longrightarrow>
      getSchedulerLockInfo ''merge'' (f x) = Some k"
    and fresh: "\<And>x. x = sl_expires_at l \<or> (\<exists>t. Tick x t \<in> set es) \<Longrightarrow> \<exists>m. parse x = Some m \<and> now_ms < m"
  shows "\<exists>ls2. withMergeLock acquire parse now_ms owner (Inr v) es ls = (ls2, Merge_done v) \<and>
    (\<forall>k \<in> set ls2. sl_name k = ''merge'' \<longrightarrow> sl_owner k \<noteq> owner)"
proof -
  have "\<exists>ls2 k. merge_body owner es (ls1, False) = (ls2, False) \<and> getSchedulerLockInfo ''merge'' ls2 = Some k \<and> sl_owner k = owner \<and>
      (sl_expires_at k = sl_expires_at l \<or> (\<exists>t. Tick (sl_expires_at k) t \<in> set es))"
    by (rule merge_body_keeps [OF row]) (use quiet in blast)
  then obtain ls2 k where k: "merge_body owner es (ls1, False) = (ls2, False)" "getSchedulerLockInfo ''merge'' ls2 = Some k" "sl_owner k = owner"
    "sl_expires_at k = sl_expires_at l \<or> (\<exists>t. Tick (sl_expires_at k) t \<in> set es)" by blast
  have "mergeLockStillOwned parse now_ms owner ls2" using k(2,3) fresh [OF k(4)] by (auto simp: mergeLockStillOwned_def)
  then show ?thesis
    by (simp add: withMergeLock_def acq k(1) finish_merge_def releaseMergeLock_def releaseSchedulerLock_def)
qed

lemma undisturbed_merge_completes_witness:
  "\<exists>ls2. withMergeLock (acquireMergeLock 5 (\<lambda>p. Process_alive) (\<lambda>x. x) ''merge-5'' ''2026'' ''2025'' ''2025'')
      (\<lambda>s. Some (int (length s))) 3 ''merge-5'' (Inr True :: js_value + bool) [Tick ''2027'' ''2026'', Outside (filter (\<lambda>l. sl_name l = ''merge''))] [] =
    (ls2, Merge_done True) \<and> (\<forall>k \<in> set ls2. sl_name k = ''merge'' \<longrightarrow> sl_owner k \<noteq> ''merge-5'')"
proof (rule undisturbed_merge_completes)
  let ?l = "\<lparr>sl_name = ''merge'', sl_owner = ''merge-5'', sl_acquired_at = ''2025'', sl_expires_at = ''2026''\<rparr>"
  show "acquireMergeLock 5 (\<lambda>p. Process_alive) (\<lambda>x. x) ''merge-5'' ''2026'' ''2025'' ''2025'' [] = ([?l], True)"
    by (simp add: acquireMergeLock_def acquireSchedulerLock_def)
  show "getSchedulerLockInfo ''merge'' [?l] = Some ?l" "sl_owner ?l = ''merge-5''" by (simp_all add: getSchedulerLockInfo_def)
qed (auto intro: info_filter dest: info_mem)

end
