(* ===== verification/JobGraph.thy ===== *)
theory JobGraph
  imports Dependencies
begin

text \<open>
  What the queries over the job graph compute: the walk along the parents and the recursive query
  over hard dependencies end, and their results are exactly the ancestors and the transitive hard
  predecessors.
\<close>

section \<open>Ancestors\<close>

definition parent_of :: "qdb \<Rightarrow> nat \<Rightarrow> nat option" where
  "parent_of d i = (case get_job d i of None \<Rightarrow> None | Some j \<Rightarrow> jb_parent j)"

definition parent_edges :: "qdb \<Rightarrow> (nat \<times> nat) set" where
  "parent_edges d = {(i, p). parent_of d i = Some p}"

lemma parent_of_mem: "parent_of d i = Some p \<Longrightarrow> Some p \<in> jb_parent ` set (db_jobs d)"
  by (auto simp: parent_of_def get_job_def find_Some_iff image_iff split: option.splits) (metis nth_mem)

lemma reach_step: "{q. (p, q) \<in> (parent_edges d)\<^sup>*} = insert p (case parent_of d p of None \<Rightarrow> {} | Some n \<Rightarrow> {q. (n, q) \<in> (parent_edges d)\<^sup>*})"
proof (cases "parent_of d p")
  case None
  then show ?thesis by (auto simp: parent_edges_def elim: converse_rtranclE)
next
  case (Some n)
  have "(p, q) \<in> (parent_edges d)\<^sup>* \<longleftrightarrow> p = q \<or> (n, q) \<in> (parent_edges d)\<^sup>*" for q
  proof
    assume "(p, q) \<in> (parent_edges d)\<^sup>*"
    then show "p = q \<or> (n, q) \<in> (parent_edges d)\<^sup>*"
      by (cases rule: converse_rtranclE) (use Some in \<open>auto simp: parent_edges_def\<close>)
  next
    have "(p, n) \<in> parent_edges d" using Some by (simp add: parent_edges_def)
    then show "p = q \<or> (n, q) \<in> (parent_edges d)\<^sup>* \<Longrightarrow> (p, q) \<in> (parent_edges d)\<^sup>*"
      by (auto intro: converse_rtrancl_into_rtrancl)
  qed
  then show ?thesis using Some by auto
qed

text \<open>
  The walk with the ids seen so far: the next id is \<open>p\<close>, every id seen has its parent among them or
  next, and the fuel exceeds the number of parents not yet seen.
\<close>

lemma ancestor_walk_reaches:
  assumes "finite U" "p \<in> U" "\<And>i q. parent_of d i = Some q \<Longrightarrow> q \<in> U" "card (U - set ids) < n"
    and "\<And>i q. i \<in> set ids \<Longrightarrow> parent_of d i = Some q \<Longrightarrow> q \<in> set ids \<or> q = p"
  shows "set (ancestor_walk n d ids (Some p)) = set ids \<union> {q. (p, q) \<in> (parent_edges d)\<^sup>*} \<and>
    (distinct ids \<longrightarrow> distinct (ancestor_walk n d ids (Some p)))"
  using assms(2,4,5)
proof (induction n arbitrary: ids p)
  case (Suc n)
  show ?case
  proof (cases "p \<in> set ids")
    case True
    have "q \<in> set ids" if "(p, q) \<in> (parent_edges d)\<^sup>*" for q
      using that by (induction rule: rtrancl_induct) (use True Suc.prems(3) in \<open>auto simp: parent_edges_def\<close>)
    then show ?thesis using True by auto
  next
    case fresh: False
    have walk: "ancestor_walk (Suc n) d ids (Some p) = ancestor_walk n d (ids @ [p]) (parent_of d p)"
      using fresh by (simp add: parent_of_def)
    show ?thesis
    proof (cases "parent_of d p")
      case None
      have "ancestor_walk n d (ids @ [p]) None = ids @ [p]" by (cases n) simp_all
      then show ?thesis using None fresh reach_step [of p d] unfolding walk by auto
    next
      case (Some q)
      have "U - set (ids @ [p]) \<subset> U - set ids" using fresh Suc.prems(1) by auto
      then have "card (U - set (ids @ [p])) < card (U - set ids)" by (intro psubset_card_mono) (use assms(1) in auto)
      then have fuel: "card (U - set (ids @ [p])) < n" using Suc.prems(2) by linarith
      have "set (ancestor_walk n d (ids @ [p]) (Some q)) = set (ids @ [p]) \<union> {x. (q, x) \<in> (parent_edges d)\<^sup>*} \<and>
          (distinct (ids @ [p]) \<longrightarrow> distinct (ancestor_walk n d (ids @ [p]) (Some q)))"
        by (rule Suc.IH [OF assms(3) [OF Some] fuel]) (use Suc.prems(3) Some in auto)
      then show ?thesis using Some fresh reach_step [of p d] unfolding walk by auto
    qed
  qed
qed simp

text \<open>
  The walk along a job's parents ends, and it returns each ancestor once: with the fuel of the
  model, and with any more, the result is the same set, the ids reachable through parents, even when
  the parent links form a cycle.
\<close>

theorem ancestor_walk_ends_with_the_ancestors:
  "set (ancestor_walk (Suc (Suc (length (db_jobs d))) + k) d [] (jb_parent j)) =
     (case jb_parent j of None \<Rightarrow> {} | Some p \<Rightarrow> {q. (p, q) \<in> (parent_edges d)\<^sup>*}) \<and>
   set (ancestorJobIdsForJob d j) = (case jb_parent j of None \<Rightarrow> {} | Some p \<Rightarrow> {q. (p, q) \<in> (parent_edges d)\<^sup>*}) \<and>
   distinct (ancestorJobIdsForJob d j)"
proof (cases "jb_parent j")
  case None
  then show ?thesis by (simp add: ancestorJobIdsForJob_def)
next
  case (Some p)
  let ?U = "insert p (the ` (jb_parent ` set (db_jobs d)))"
  have "card ?U \<le> Suc (card (the ` (jb_parent ` set (db_jobs d))))" by (rule card_insert_le_m1) simp_all
  also have "card (the ` (jb_parent ` set (db_jobs d))) \<le> length (db_jobs d)"
    using card_image_le [of "jb_parent ` set (db_jobs d)" the] card_image_le [of "set (db_jobs d)" jb_parent]
      card_length [of "db_jobs d"] by simp
  finally have card: "card ?U < Suc (Suc (length (db_jobs d))) + k" for k by simp
  have walk: "set (ancestor_walk (Suc (Suc (length (db_jobs d))) + k) d [] (Some p)) = set ([] :: nat list) \<union> {q. (p, q) \<in> (parent_edges d)\<^sup>*} \<and>
      (distinct ([] :: nat list) \<longrightarrow> distinct (ancestor_walk (Suc (Suc (length (db_jobs d))) + k) d [] (Some p)))" for k
  proof (rule ancestor_walk_reaches [where U = ?U])
    show "q \<in> ?U" if "parent_of d i = Some q" for i q using imageI [OF parent_of_mem [OF that], of the] by simp
    show "card (?U - set []) < Suc (Suc (length (db_jobs d))) + k" using card by simp
  qed simp_all
  show ?thesis using walk [of k] walk [of 0] Some by (simp add: ancestorJobIdsForJob_def)
qed

section \<open>Transitive hard predecessors\<close>

definition hard_edges :: "qdb \<Rightarrow> (nat \<times> nat) set" where
  "hard_edges d = set (map (\<lambda>e. (dp_job e, dp_on e)) (filter (\<lambda>e. dp_kind e = ''hard'') (db_deps d)))"

lemma hard_predecessors_iff: "q \<in> set (hard_predecessors d i) \<longleftrightarrow> (i, q) \<in> hard_edges d"
  by (auto simp: hard_predecessors_def hard_edges_def)

lemma hard_closure: "set (closure (length (db_deps d)) (hard_predecessors d) (remdups (hard_predecessors d i))) = {q. (i, q) \<in> (hard_edges d)\<^sup>+}"
proof
  let ?c = "closure (length (db_deps d)) (hard_predecessors d) (remdups (hard_predecessors d i))"
  show "set ?c \<subseteq> {q. (i, q) \<in> (hard_edges d)\<^sup>+}"
    by (rule closure_sound) (auto simp: hard_predecessors_iff intro: trancl_into_trancl)
  let ?U = "set (map dp_on (db_deps d))"
  have card: "card ?U \<le> length (db_deps d)" by (metis card_length length_map)
  have closed: "\<forall>x \<in> set ?c. set (hard_predecessors d x) \<subseteq> set ?c"
    by (rule closure_closed [where U = ?U]) (use card in \<open>auto simp: hard_predecessors_def\<close>)
  have "q \<in> set ?c" if "(i, q) \<in> (hard_edges d)\<^sup>+" for q
    using that
  proof (induction rule: trancl_induct)
    case (base y)
    then show ?case using closure_mono [of "remdups (hard_predecessors d i)"] hard_predecessors_iff [of y d i] by auto
  next
    case (step y z)
    then show ?case using closed hard_predecessors_iff [of z d y] by blast
  qed
  then show "{q. (i, q) \<in> (hard_edges d)\<^sup>+} \<subseteq> set ?c" by blast
qed

text \<open>
  The recursive query that holds a lease back finds exactly the unfinished jobs that the job
  needs, directly or through other jobs: those reachable over hard dependencies that exist and have
  not succeeded.
\<close>

theorem unmet_predecessors_are_the_transitive_ones:
  "set (unmetHardDependencyPredecessorJobIdsForJob d j) =
     {q. (jb_id j, q) \<in> (hard_edges d)\<^sup>+ \<and> (case get_job d q of None \<Rightarrow> False | Some p \<Rightarrow> jb_status p \<noteq> ''succeeded'')}"
  unfolding unmetHardDependencyPredecessorJobIdsForJob_def set_filter hard_closure by simp

end
