(* ===== verification/MergeOrder.thy ===== *)
theory MergeOrder
  imports JobGraph FileLockSafety "HOL-Library.Multiset"
begin

text \<open>
  The first part of \<open>domains/queue/functions/cross-wi-deps.js\<close>: the merge dependencies between work
  items, kept in the metadata of the work item that has to merge later, and the order in which work
  items are merged. The loop with its counters is shown equal to a naive one, from which the facts
  about the order follow. Dependencies of reviewed handoffs are not modelled (no entry is a reviewed
  transfer), and a stored source id is a whole number.
\<close>

section \<open>Stored dependencies\<close>

definition normalizeRepoPath :: "string \<Rightarrow> string" where
  "normalizeRepoPath v =
     (let s = slashes v; s2 = (if starts_with ''./'' s then drop 2 s else s) in js_trim (strip_slashes s2))"

text \<open>\<open>ts\<close> is the time a dependency without \<open>created_at\<close> gets; the path \<open>[]\<close> is \<open>null\<close>.\<close>

definition normalizeCrossWiMergeDependency :: "string \<Rightarrow> merge_dep \<Rightarrow> merge_dep option" where
  "normalizeCrossWiMergeDependency ts m =
     (if md_source m = 0 then None
      else Some (m\<lparr>md_path := normalizeRepoPath (md_path m),
        md_kind := (if md_kind m \<in> {Some ''root'', Some ''file''} then md_kind m else None),
        md_branch := (case md_branch m of None \<Rightarrow> None | Some b \<Rightarrow> if js_trim b = [] then None else Some (js_trim b)),
        md_created := (if md_created m = [] then ts else md_created m)\<rparr>))"

definition getWorkItemMergeDependencies :: "string \<Rightarrow> work_item \<Rightarrow> merge_dep list" where
  "getWorkItemMergeDependencies ts w = List.map_filter (normalizeCrossWiMergeDependency ts) (wi_merge_deps w)"

text \<open>The source ids of the dependencies, for the callers that read nothing else.\<close>

definition merge_sources :: "work_item \<Rightarrow> nat list" where
  "merge_sources w = map md_source (getWorkItemMergeDependencies [] w)"

lemma merge_sources_alt: "merge_sources w = filter (\<lambda>s. s \<noteq> 0) (map md_source (wi_merge_deps w))"
proof -
  have "map md_source (List.map_filter (normalizeCrossWiMergeDependency []) ms) = filter (\<lambda>s. s \<noteq> 0) (map md_source ms)" for ms
    by (induction ms) (auto simp: List.map_filter_simps normalizeCrossWiMergeDependency_def)
  then show ?thesis by (simp add: merge_sources_def getWorkItemMergeDependencies_def)
qed

lemma sources_of_get: "map md_source (getWorkItemMergeDependencies ts w) = merge_sources w"
proof -
  have "map md_source (List.map_filter (normalizeCrossWiMergeDependency ts) ms) = filter (\<lambda>s. s \<noteq> 0) (map md_source ms)" for ms
    by (induction ms) (auto simp: List.map_filter_simps normalizeCrossWiMergeDependency_def)
  then show ?thesis by (simp add: getWorkItemMergeDependencies_def merge_sources_alt)
qed

section \<open>The merge order\<close>

text \<open>The pairs of a source and its dependent, each once.\<close>

definition order_edges :: "work_item list \<Rightarrow> (nat \<times> nat) list" where
  "order_edges items = remdups (concat (map (\<lambda>w. map (\<lambda>s. (s, wi_id w))
     (filter (\<lambda>s. s \<in> wi_id ` set items \<and> s \<noteq> wi_id w) (merge_sources w))) items))"

definition indegrees :: "(nat \<times> nat) list \<Rightarrow> nat \<Rightarrow> int" where
  "indegrees es t = int (length (filter (\<lambda>e. snd e = t) es))"

text \<open>One dependent of the work item just placed; \<open>ids\<close> gives the original order.\<close>

definition relax_target :: "nat list \<Rightarrow> (nat \<Rightarrow> int) \<times> nat list \<Rightarrow> nat \<Rightarrow> (nat \<Rightarrow> int) \<times> nat list" where
  "relax_target ids s t = (case s of (deg, ready) \<Rightarrow>
     let r = deg t - 1 in (deg(t := r), if r = 0 then sort_key (\<lambda>i. index_of i ids) (ready @ [t]) else ready))"

definition targets_of :: "(nat \<times> nat) list \<Rightarrow> nat list \<Rightarrow> nat \<Rightarrow> nat list" where
  "targets_of es ids s = sort_key (\<lambda>i. index_of i ids) (map snd (filter (\<lambda>e. fst e = s) es))"

text \<open>A dependent enters the ready list when its count reaches zero, so that no round lengthens both.\<close>

definition waiting_targets :: "(nat \<times> nat) list \<Rightarrow> (nat \<Rightarrow> int) \<Rightarrow> nat set" where
  "waiting_targets es deg = {t \<in> snd ` set es. 0 < deg t}"

lemma relax_measure:
  assumes "set ts \<subseteq> snd ` set es"
  shows "length (snd (foldl (relax_target ids) (deg, ready) ts)) + card (waiting_targets es (fst (foldl (relax_target ids) (deg, ready) ts)))
     \<le> length ready + card (waiting_targets es deg)"
  using assms
proof (induction ts arbitrary: deg ready)
  case (Cons t ts)
  have step: "length (snd (relax_target ids (deg, ready) t)) + card (waiting_targets es (fst (relax_target ids (deg, ready) t)))
      \<le> length ready + card (waiting_targets es deg)"
  proof (cases "deg t = 1")
    case True
    have "waiting_targets es (deg(t := 0)) = waiting_targets es deg - {t}" by (auto simp: waiting_targets_def)
    moreover have "t \<in> waiting_targets es deg" using True Cons.prems by (auto simp: waiting_targets_def)
    moreover have "finite (waiting_targets es deg)" by (simp add: waiting_targets_def)
    ultimately have "Suc (card (waiting_targets es (deg(t := 0)))) = card (waiting_targets es deg)"
      by (simp only: card.remove [of _ t])
    then show ?thesis using True by (simp add: relax_target_def)
  next
    case False
    have "waiting_targets es (deg(t := deg t - 1)) \<subseteq> waiting_targets es deg" by (auto simp: waiting_targets_def)
    then have "card (waiting_targets es (deg(t := deg t - 1))) \<le> card (waiting_targets es deg)"
      by (rule card_mono [rotated]) (simp add: waiting_targets_def)
    then show ?thesis using False by (simp add: relax_target_def Let_def)
  qed
  have ts: "set ts \<subseteq> snd ` set es" using Cons.prems by simp
  obtain deg1 ready1 where s: "relax_target ids (deg, ready) t = (deg1, ready1)" by fastforce
  show ?case using Cons.IH [OF ts, of deg1 ready1] step by (simp add: s)
qed simp

function merge_loop :: "(nat \<times> nat) list \<Rightarrow> nat list \<Rightarrow> nat list \<Rightarrow> (nat \<Rightarrow> int) \<Rightarrow> nat list \<Rightarrow> nat list" where
  "merge_loop es ids ordered deg [] = ordered"
| "merge_loop es ids ordered deg (s # ready) =
     (let r = foldl (relax_target ids) (deg, ready) (targets_of es ids s)
      in merge_loop es ids (ordered @ [s]) (fst r) (snd r))"
  by pat_completeness auto
termination
proof (relation "measure (\<lambda>(es, ids, ordered, deg, ready). length ready + card (waiting_targets es deg))", goal_cases)
  case (2 es ids ordered deg s ready r)
  have "set (targets_of es ids s) \<subseteq> snd ` set es" by (auto simp: targets_of_def)
  from relax_measure [OF this, of ids deg ready] show ?case unfolding 2 by (simp add: case_prod_beta)
qed simp

definition merge_order_ids :: "work_item list \<Rightarrow> nat list" where
  "merge_order_ids items =
     (let ids = rev (remdups (rev (map wi_id items))); es = order_edges items;
          ordered = merge_loop es ids [] (indegrees es) (filter (\<lambda>i. indegrees es i = 0) ids)
      in ordered @ filter (\<lambda>i. i \<notin> set ordered) ids)"

text \<open>
  \<open>byId\<close> keeps the first item of an id; later ones go to the end. Equal rows stand for one object.
\<close>

definition orderWorkItemsByMergeDependencies :: "work_item list \<Rightarrow> work_item list" where
  "orderWorkItemsByMergeDependencies items =
     (if length items < 2 then items
      else let ordered = List.map_filter (\<lambda>i. find (\<lambda>w. wi_id w = i) items) (merge_order_ids items)
        in ordered @ filter (\<lambda>w. w \<notin> set ordered) items)"

section \<open>The merge order is the naive one\<close>

text \<open>The order without counters: the first work item, in the original order, all of whose sources are placed.\<close>

definition placeable :: "(nat \<times> nat) list \<Rightarrow> nat list \<Rightarrow> nat \<Rightarrow> bool" where
  "placeable es placed i \<longleftrightarrow> i \<notin> set placed \<and> list_all (\<lambda>e. snd e = i \<longrightarrow> fst e \<in> set placed) es"

function naive_order :: "(nat \<times> nat) list \<Rightarrow> nat list \<Rightarrow> nat list \<Rightarrow> nat list" where
  "naive_order es ids placed =
     (case filter (placeable es placed) ids of [] \<Rightarrow> placed | i # _ \<Rightarrow> naive_order es ids (placed @ [i]))"
  by pat_completeness auto
termination
proof (relation "measure (\<lambda>(es, ids, placed). length (filter (\<lambda>i. i \<notin> set placed) ids))", goal_cases)
  case (2 es ids placed i rest)
  have "i \<in> set (filter (placeable es placed) ids)" unfolding 2 by simp
  then have i: "i \<in> set ids" "i \<notin> set placed" by (auto simp: placeable_def)
  have "filter (\<lambda>x. x \<notin> set (placed @ [i])) ids = filter (\<lambda>y. y \<noteq> i) (filter (\<lambda>x. x \<notin> set placed) ids)" by (auto intro: filter_cong)
  moreover have "length (filter (\<lambda>y. y \<noteq> i) (filter (\<lambda>x. x \<notin> set placed) ids)) < length (filter (\<lambda>x. x \<notin> set placed) ids)"
    by (rule length_filter_neq_less) (use i in simp)
  ultimately show ?case by simp
qed simp

declare naive_order.simps [simp del]

lemma relax_targets:
  assumes "distinct ts" "distinct ready" "set ready \<inter> {t \<in> set ts. deg t = 1} = {}" "sorted (map (\<lambda>i. index_of i ids) ready)"
  shows "fst (foldl (relax_target ids) (deg, ready) ts) = (\<lambda>t. if t \<in> set ts then deg t - 1 else deg t) \<and>
    set (snd (foldl (relax_target ids) (deg, ready) ts)) = set ready \<union> {t \<in> set ts. deg t = 1} \<and>
    distinct (snd (foldl (relax_target ids) (deg, ready) ts)) \<and>
    sorted (map (\<lambda>i. index_of i ids) (snd (foldl (relax_target ids) (deg, ready) ts)))"
  using assms
proof (induction ts arbitrary: deg ready)
  case (Cons t ts)
  define deg1 where "deg1 = deg(t := deg t - 1)"
  have deg1: "deg1 x = (if x = t then deg t - 1 else deg x)" for x by (simp add: deg1_def)
  have same: "{x \<in> set ts. deg1 x = 1} = {x \<in> set ts. deg x = 1}" using Cons.prems(1) by (auto simp: deg1)
  have ts: "distinct ts" "t \<notin> set ts" using Cons.prems by simp_all
  have degs: "(\<lambda>x. if x \<in> set ts then deg1 x - 1 else deg1 x) = (\<lambda>x. if x \<in> set (t # ts) then deg x - 1 else deg x)"
    by (rule ext) (use ts(2) in \<open>auto simp: deg1\<close>)
  show ?case
  proof (cases "deg t = 1")
    case True
    let ?ready = "sort_key (\<lambda>i. index_of i ids) (ready @ [t])"
    have r: "relax_target ids (deg, ready) t = (deg1, ?ready)" using True by (simp add: relax_target_def deg1_def)
    have d: "distinct ?ready" using Cons.prems True by auto
    have j: "set ?ready \<inter> {x \<in> set ts. deg1 x = 1} = {}" unfolding same using Cons.prems True by auto
    have s: "sorted (map (\<lambda>i. index_of i ids) ?ready)" by (rule sorted_sort_key)
    have set: "set ?ready \<union> {x \<in> set ts. deg1 x = 1} = set ready \<union> {x \<in> set (t # ts). deg x = 1}" unfolding same using True by auto
    show ?thesis using Cons.IH [OF ts(1) d j s] unfolding degs set by (simp only: foldl.simps r)
  next
    case False
    have r: "relax_target ids (deg, ready) t = (deg1, ready)" using False by (simp add: relax_target_def Let_def deg1_def)
    have j: "set ready \<inter> {x \<in> set ts. deg1 x = 1} = {}" unfolding same using Cons.prems by auto
    have set: "set ready \<union> {x \<in> set ts. deg1 x = 1} = set ready \<union> {x \<in> set (t # ts). deg x = 1}" unfolding same using False by auto
    show ?thesis using Cons.IH [OF ts(1) Cons.prems(2) j Cons.prems(4)] unfolding degs set by (simp only: foldl.simps r)
  qed
qed simp

lemma index_of_inj: "x \<in> set xs \<Longrightarrow> index_of x xs = index_of y xs \<Longrightarrow> x = y"
  by (induction xs) (auto split: if_splits)

lemma index_of_sorted: "distinct xs \<Longrightarrow> sorted (map (\<lambda>i. index_of i xs) xs)"
proof (induction xs)
  case (Cons x xs)
  have eq: "map (\<lambda>i. index_of i (x # xs)) xs = map (\<lambda>i. Suc (index_of i xs)) xs" using Cons.prems by auto
  have "sorted (map (\<lambda>i. Suc (index_of i xs)) xs)" using Cons by (simp add: sorted_map)
  then show ?case unfolding list.map(2) eq by simp
qed simp

text \<open>A list sorted by the original order is determined by its elements.\<close>

lemma sorted_by_index_unique:
  assumes "distinct ids" "set xs \<subseteq> set ids" "distinct xs" "sorted (map (\<lambda>i. index_of i ids) xs)" "set xs = {i \<in> set ids. P i}"
  shows "xs = filter P ids"
proof -
  have inj: "inj_on (\<lambda>i. index_of i ids) (set ids)" by (auto intro!: inj_onI dest: index_of_inj)
  have "map (\<lambda>i. index_of i ids) xs = map (\<lambda>i. index_of i ids) (filter P ids)"
  proof (rule sorted_distinct_set_unique)
    show "distinct (map (\<lambda>i. index_of i ids) xs)" unfolding distinct_map using assms(2,3) inj_on_subset [OF inj] by simp
    have "set (filter P ids) \<subseteq> set ids" by auto
    then have "inj_on (\<lambda>i. index_of i ids) (set (filter P ids))" by (rule inj_on_subset [OF inj])
    then show "distinct (map (\<lambda>i. index_of i ids) (filter P ids))" unfolding distinct_map using assms(1) by simp
    show "sorted (map (\<lambda>i. index_of i ids) (filter P ids))" by (rule sorted_filter) (rule index_of_sorted [OF assms(1)])
    show "set (map (\<lambda>i. index_of i ids) xs) = set (map (\<lambda>i. index_of i ids) (filter P ids))" using assms(5) by simp
  qed (rule assms(4))
  moreover have "inj_on (\<lambda>i. index_of i ids) (set xs \<union> set (filter P ids))" by (rule inj_on_subset [OF inj]) (use assms(2) in auto)
  ultimately show ?thesis by (simp add: inj_on_map_eq_map)
qed

lemma filter_len_split:
  "length (filter (\<lambda>e. snd e = t \<and> fst e \<notin> set placed) es) =
     length (filter (\<lambda>e. snd e = t \<and> fst e \<notin> set (placed @ [s])) es) + length (filter (\<lambda>e. snd e = t \<and> fst e = s) es)"
  if "s \<notin> set placed" for es :: "(nat \<times> nat) list"
  using that by (induction es) auto

lemma edge_count: "distinct es \<Longrightarrow> length (filter (\<lambda>e. snd e = t \<and> fst e = s) es) = (if (s, t) \<in> set es then 1 else 0)"
  by (induction es) auto

text \<open>One round keeps what the counters stand for.\<close>

lemma merge_round:
  assumes ids: "distinct ids" and es: "distinct es" "\<And>e. e \<in> set es \<Longrightarrow> snd e \<in> set ids"
    and closed: "\<And>e. e \<in> set es \<Longrightarrow> snd e \<in> set placed \<Longrightarrow> fst e \<in> set placed"
    and deg: "\<And>t. deg t = int (length (filter (\<lambda>e. snd e = t \<and> fst e \<notin> set placed) es))"
    and ready: "s # rest = filter (placeable es placed) ids"
  defines "r \<equiv> foldl (relax_target ids) (deg, rest) (targets_of es ids s)"
  shows "fst r t = int (length (filter (\<lambda>e. snd e = t \<and> fst e \<notin> set (placed @ [s])) es))"
    and "snd r = filter (placeable es (placed @ [s])) ids"
proof -
  have rest: "set (s # rest) = {i \<in> set ids. placeable es placed i}" unfolding ready by simp
  then have s: "s \<in> set ids" "placeable es placed s" by auto
  have fresh: "s \<notin> set placed" using s(2) by (simp add: placeable_def)
  have dist: "distinct (s # rest)" unfolding ready using ids by simp
  have sort: "sorted (map (\<lambda>i. index_of i ids) (s # rest))"
    unfolding ready by (rule sorted_filter) (rule index_of_sorted [OF ids])
  let ?ts = "targets_of es ids s"
  have ts: "set ?ts = {t. (s, t) \<in> set es}" by (auto simp: targets_of_def image_iff)
  have dts: "distinct ?ts" using es(1) by (auto simp: targets_of_def distinct_map intro!: inj_onI prod_eqI)
  have deg2: "deg t = int (length (filter (\<lambda>e. snd e = t \<and> fst e \<notin> set (placed @ [s])) es)) + (if (s, t) \<in> set es then 1 else 0)" for t
    using deg [of t] filter_len_split [OF fresh, of t es] edge_count [OF es(1), of t s] by simp
  have one: "deg t = 1 \<longleftrightarrow> (\<forall>e \<in> set es. snd e = t \<longrightarrow> fst e \<in> set (placed @ [s]))" if "t \<in> set ?ts" for t
    using that deg2 [of t] by (auto simp: ts filter_empty_conv)
  have wait: "\<not> placeable es placed t" "t \<notin> set placed" if "t \<in> set ?ts" for t
  proof -
    have e: "(s, t) \<in> set es" using that by (simp add: ts)
    show "t \<notin> set placed" using closed [OF e] fresh by auto
    show "\<not> placeable es placed t" using bspec [OF _ e, of "\<lambda>e. snd e = t \<longrightarrow> fst e \<in> set placed"] fresh by (auto simp: placeable_def list_all_iff)
  qed
  have disj: "set rest \<inter> {t \<in> set ?ts. deg t = 1} = {}" using wait(1) rest by auto
  have self: "(s, s) \<notin> set es" using s(2) fresh by (auto simp: placeable_def list_all_iff)
  have r: "fst r = (\<lambda>t. if t \<in> set ?ts then deg t - 1 else deg t)" "set (snd r) = set rest \<union> {t \<in> set ?ts. deg t = 1}"
    "distinct (snd r)" "sorted (map (\<lambda>i. index_of i ids) (snd r))"
    using relax_targets [OF dts, of rest deg ids] dist sort disj unfolding r_def by simp_all
  show "fst r t = int (length (filter (\<lambda>e. snd e = t \<and> fst e \<notin> set (placed @ [s])) es))"
    using deg2 [of t] by (simp add: r(1) ts)
  have set: "set (snd r) = {i \<in> set ids. placeable es (placed @ [s]) i}"
  proof (rule set_eqI)
    fix i
    show "i \<in> set (snd r) \<longleftrightarrow> i \<in> {i \<in> set ids. placeable es (placed @ [s]) i}"
    proof (cases "i \<in> set ?ts")
      case True
      then have "i \<in> set ids" "i \<noteq> s" using es(2) [of "(s, i)"] self by (auto simp: ts)
      then show ?thesis using True wait [OF True] one [OF True] rest r(2) by (auto simp: placeable_def list_all_iff)
    next
      case False
      have "placeable es (placed @ [s]) i \<longleftrightarrow> i \<noteq> s \<and> placeable es placed i"
        using False by (auto simp: ts placeable_def list_all_iff)
      moreover have "i \<in> set rest \<longleftrightarrow> i \<noteq> s \<and> i \<in> set ids \<and> placeable es placed i" using rest dist by auto
      ultimately show ?thesis using False r(2) by auto
    qed
  qed
  show "snd r = filter (placeable es (placed @ [s])) ids"
    by (rule sorted_by_index_unique [OF ids _ r(3,4) set]) (use set in auto)
qed

lemma merge_loop_naive:
  assumes "distinct ids" "distinct es" "\<And>e. e \<in> set es \<Longrightarrow> snd e \<in> set ids"
    and "\<And>e. e \<in> set es \<Longrightarrow> snd e \<in> set placed \<Longrightarrow> fst e \<in> set placed"
    and "\<And>t. deg t = int (length (filter (\<lambda>e. snd e = t \<and> fst e \<notin> set placed) es))"
    and "ready = filter (placeable es placed) ids"
  shows "merge_loop es ids placed deg ready = naive_order es ids placed"
  using assms
proof (induction es ids placed deg ready rule: merge_loop.induct)
  case (1 es ids placed deg)
  then show ?case by (subst naive_order.simps) (simp flip: "1.prems"(6))
next
  case (2 es ids placed deg s rest)
  define r where "r = foldl (relax_target ids) (deg, rest) (targets_of es ids s)"
  note round = merge_round [OF "2.prems", folded r_def]
  have s: "placeable es placed s" using "2.prems"(6) by (metis list.set_intros(1) mem_Collect_eq set_filter)
  have closed: "fst e \<in> set (placed @ [s])" if "e \<in> set es" "snd e \<in> set (placed @ [s])" for e
    using that s "2.prems"(4) [of e] by (auto simp: placeable_def list_all_iff)
  have "merge_loop es ids placed deg (s # rest) = merge_loop es ids (placed @ [s]) (fst r) (snd r)" by (simp add: r_def Let_def)
  also have "\<dots> = naive_order es ids (placed @ [s])"
    unfolding r_def
  proof (rule "2.IH" [OF refl "2.prems"(1-3)])
    show "fst e \<in> set (placed @ [s])" if "e \<in> set es" "snd e \<in> set (placed @ [s])" for e by (rule closed [OF that])
  qed (use round in \<open>simp_all add: r_def\<close>)
  also have "\<dots> = naive_order es ids placed" by (subst (2) naive_order.simps) (simp flip: "2.prems"(6))
  finally show ?case .
qed

text \<open>The naive order places sources first, and with acyclic edges it places everything.\<close>

lemma index_of_append: "x \<in> set xs \<Longrightarrow> index_of x (xs @ ys) = index_of x xs"
  by (induction xs) auto

lemma index_of_less: "x \<in> set xs \<Longrightarrow> index_of x xs < length xs"
  by (induction xs) auto

lemma index_of_snoc: "x \<notin> set xs \<Longrightarrow> index_of x (xs @ [x]) = length xs"
  by (induction xs) auto

definition sources_first :: "(nat \<times> nat) list \<Rightarrow> nat list \<Rightarrow> bool" where
  "sources_first es xs \<longleftrightarrow> (\<forall>e \<in> set es. snd e \<in> set xs \<longrightarrow> fst e \<in> set xs \<and> index_of (fst e) xs < index_of (snd e) xs)"

lemma naive_order_props:
  assumes "distinct placed" "set placed \<subseteq> set ids" "sources_first es placed"
  shows "distinct (naive_order es ids placed) \<and> set placed \<subseteq> set (naive_order es ids placed) \<and> set (naive_order es ids placed) \<subseteq> set ids \<and>
    sources_first es (naive_order es ids placed) \<and> (\<forall>i \<in> set ids. \<not> placeable es (naive_order es ids placed) i)"
  using assms
proof (induction es ids placed rule: naive_order.induct)
  case (1 es ids placed)
  show ?case
  proof (cases "filter (placeable es placed) ids")
    case Nil
    then have "naive_order es ids placed = placed" by (subst naive_order.simps) simp
    then show ?thesis using "1.prems" Nil by (simp add: filter_empty_conv)
  next
    case (Cons i rest)
    have step: "naive_order es ids placed = naive_order es ids (placed @ [i])" using Cons by (subst naive_order.simps) simp
    have "i \<in> set (filter (placeable es placed) ids)" unfolding Cons by simp
    then have i: "i \<in> set ids" "placeable es placed i" "i \<notin> set placed" by (auto simp: placeable_def)
    have first: "sources_first es (placed @ [i])"
      unfolding sources_first_def
    proof (intro ballI impI)
      fix e assume e: "e \<in> set es" "snd e \<in> set (placed @ [i])"
      show "fst e \<in> set (placed @ [i]) \<and> index_of (fst e) (placed @ [i]) < index_of (snd e) (placed @ [i])"
      proof (cases "snd e = i")
        case True
        then have "fst e \<in> set placed" using i(2) e(1) by (simp add: placeable_def list_all_iff)
        then show ?thesis using True i(3) index_of_less by (simp add: index_of_append index_of_snoc)
      next
        case False
        then show ?thesis using "1.prems"(3) e by (simp add: sources_first_def index_of_append)
      qed
    qed
    have "distinct (placed @ [i])" "set (placed @ [i]) \<subseteq> set ids" using "1.prems"(1,2) i by auto
    from "1.IH" [OF Cons this first] show ?thesis unfolding step by auto
  qed
qed

lemma naive_order_all:
  assumes "acyclic (set es)" "\<And>e. e \<in> set es \<Longrightarrow> fst e \<in> set ids" "set placed \<subseteq> set ids"
    and "\<forall>i \<in> set ids. \<not> placeable es placed i"
  shows "set placed = set ids"
proof (rule ccontr)
  assume "set placed \<noteq> set ids"
  then obtain i where i: "i \<in> set ids - set placed" using assms(3) by blast
  have "wf (set es)" by (rule finite_acyclic_wf) (simp_all add: assms(1))
  then obtain z where z: "z \<in> set ids - set placed" "\<And>y. (y, z) \<in> set es \<Longrightarrow> y \<notin> set ids - set placed"
    using i by (rule wfE_min) blast
  have "fst e \<in> set placed" if "e \<in> set es" "snd e = z" for e
    using z(2) [of "fst e"] assms(2) [OF that(1)] that by (cases e) auto
  then have "placeable es placed z" using z(1) by (simp add: placeable_def list_all_iff)
  then show False using assms(4) z(1) by blast
qed

text \<open>An order that already has the sources first is kept.\<close>

lemma naive_order_stable:
  assumes "distinct (placed @ rest)" "sources_first es (placed @ rest)"
  shows "naive_order es (placed @ rest) placed = placed @ rest"
  using assms
proof (induction rest arbitrary: placed)
  case Nil
  have "filter (placeable es placed) placed = []" by (auto simp: filter_empty_conv placeable_def)
  then show ?case by (subst naive_order.simps) simp
next
  case (Cons i rest)
  have none: "filter (placeable es placed) placed = []" by (auto simp: filter_empty_conv placeable_def)
  have "fst e \<in> set placed" if "e \<in> set es" "snd e = i" for e
  proof -
    have "index_of i (placed @ i # rest) = length placed"
      using Cons.prems(1) by (metis append.assoc append_Cons append_Nil distinct_append in_set_conv_decomp index_of_append index_of_snoc not_distinct_conv_prefix)
    then have "index_of (fst e) (placed @ i # rest) < length placed" using Cons.prems(2) that by (auto simp: sources_first_def)
    then show ?thesis by (induction placed) (auto split: if_splits)
  qed
  then have "placeable es placed i" using Cons.prems(1) by (auto simp: placeable_def list_all_iff)
  then have "naive_order es (placed @ i # rest) placed = naive_order es ((placed @ [i]) @ rest) (placed @ [i])"
    by (subst naive_order.simps) (simp add: none)
  also have "\<dots> = (placed @ [i]) @ rest" by (rule Cons.IH) (use Cons.prems in simp_all)
  finally show ?case by simp
qed

lemma order_edges_mem: "(s, t) \<in> set (order_edges items) \<longleftrightarrow>
    (\<exists>w \<in> set items. wi_id w = t \<and> s \<in> set (merge_sources w) \<and> s \<in> wi_id ` set items \<and> s \<noteq> t)"
  by (auto simp: order_edges_def)

lemma merge_order_ids_naive:
  "distinct (map wi_id items) \<Longrightarrow> merge_order_ids items =
     naive_order (order_edges items) (map wi_id items) [] @
     filter (\<lambda>i. i \<notin> set (naive_order (order_edges items) (map wi_id items) [])) (map wi_id items)"
proof -
  assume d: "distinct (map wi_id items)"
  let ?ids = "map wi_id items" and ?es = "order_edges items"
  have ids: "rev (remdups (rev ?ids)) = ?ids" using d by (simp add: distinct_remdups_id)
  have zero: "(indegrees ?es i = 0) = placeable ?es [] i" for i
    by (auto simp: indegrees_def placeable_def list_all_iff filter_empty_conv)
  have "merge_loop ?es ?ids [] (indegrees ?es) (filter (\<lambda>i. indegrees ?es i = 0) ?ids) = naive_order ?es ?ids []"
  proof (rule merge_loop_naive [OF d])
    show "distinct ?es" by (simp add: order_edges_def)
    show "snd e \<in> set ?ids" if "e \<in> set ?es" for e using that by (auto simp: order_edges_def)
  qed (simp_all only: zero, simp_all add: indegrees_def)
  then show ?thesis unfolding merge_order_ids_def Let_def ids by simp
qed

lemma find_by_id: "w \<in> set items \<Longrightarrow> distinct (map wi_id items) \<Longrightarrow> find (\<lambda>x. wi_id x = wi_id w) items = Some w"
  by (induction items) auto

lemma merge_order_ids_perm:
  assumes "distinct (map wi_id items)"
  shows "distinct (merge_order_ids items) \<and> set (merge_order_ids items) = wi_id ` set items"
proof -
  have "distinct (naive_order (order_edges items) (map wi_id items) [])" "set (naive_order (order_edges items) (map wi_id items) []) \<subseteq> wi_id ` set items"
    using naive_order_props [of "[]" "map wi_id items" "order_edges items"] by (simp_all add: sources_first_def)
  then show ?thesis unfolding merge_order_ids_naive [OF assms] using assms by auto
qed

lemma map_filter_find:
  assumes "distinct (map wi_id items)" "set is \<subseteq> wi_id ` set items"
  shows "map wi_id (List.map_filter (\<lambda>i. find (\<lambda>w. wi_id w = i) items) is) = is \<and>
    set (List.map_filter (\<lambda>i. find (\<lambda>w. wi_id w = i) items) is) = {w \<in> set items. wi_id w \<in> set is}"
  using assms(2)
proof (induction "is")
  case (Cons i "is")
  then obtain w where w: "w \<in> set items" "i = wi_id w" by auto
  have hit: "find (\<lambda>x. wi_id x = i) items = Some w" unfolding w(2) by (rule find_by_id [OF w(1) assms(1)])
  have step: "List.map_filter (\<lambda>i. find (\<lambda>w. wi_id w = i) items) (i # is) = w # List.map_filter (\<lambda>i. find (\<lambda>w. wi_id w = i) items) is"
    by (simp add: List.map_filter_simps hit)
  have "w' = w" if "w' \<in> set items" "wi_id w' = wi_id w" for w'
    using inj_onD [of wi_id "set items"] that w(1) assms(1) by (auto simp: distinct_map)
  then show ?case using Cons w unfolding step by auto
qed (simp add: List.map_filter_simps)

text \<open>On distinct ids the order of the ids is the order of the work items.\<close>

lemma order_ids: "distinct (map wi_id items) \<Longrightarrow> map wi_id (orderWorkItemsByMergeDependencies items) = merge_order_ids items"
proof -
  assume d: "distinct (map wi_id items)"
  note p = merge_order_ids_perm [OF d]
  show ?thesis
  proof (cases "length items < 2")
    case True
    then consider "items = []" | w where "items = [w]" by (cases items; cases "tl items") auto
    then show ?thesis
    proof cases
      case 1
      have "merge_order_ids [] = []" using merge_order_ids_perm [of "[]"] by simp
      then show ?thesis using 1 by (simp add: orderWorkItemsByMergeDependencies_def)
    next
      case (2 w)
      have "distinct (merge_order_ids [w])" "set (merge_order_ids [w]) = {wi_id w}" using merge_order_ids_perm [of "[w]"] by simp_all
      then have "merge_order_ids [w] = [wi_id w]" by (cases "merge_order_ids [w]"; cases "tl (merge_order_ids [w])") auto
      then show ?thesis using 2 by (simp add: orderWorkItemsByMergeDependencies_def)
    qed
  next
    case False
    have sub: "set (merge_order_ids items) \<subseteq> wi_id ` set items" using p by simp
    note f = map_filter_find [OF d sub]
    have "filter (\<lambda>w. w \<notin> set (List.map_filter (\<lambda>i. find (\<lambda>w. wi_id w = i) items) (merge_order_ids items))) items = []"
      using f p by (auto simp: filter_empty_conv)
    then show ?thesis using False f by (simp add: orderWorkItemsByMergeDependencies_def Let_def)
  qed
qed

lemma acyclic_order:
  assumes "distinct (map wi_id items)" "acyclic (set (order_edges items))"
  shows "sources_first (order_edges items) (map wi_id (orderWorkItemsByMergeDependencies items))"
proof -
  let ?ids = "map wi_id items" and ?es = "order_edges items"
  have props: "set (naive_order ?es ?ids []) \<subseteq> set ?ids" "sources_first ?es (naive_order ?es ?ids [])"
    "\<forall>i \<in> set ?ids. \<not> placeable ?es (naive_order ?es ?ids []) i"
    using naive_order_props [of "[]" ?ids ?es] by (simp_all add: sources_first_def)
  have "set (naive_order ?es ?ids []) = set ?ids"
    by (rule naive_order_all [OF assms(2) _ props(1,3)]) (auto simp: order_edges_def)
  then have "filter (\<lambda>i. i \<notin> set (naive_order ?es ?ids [])) ?ids = []" by (auto simp: filter_empty_conv)
  then have "merge_order_ids items = naive_order ?es ?ids []" unfolding merge_order_ids_naive [OF assms(1)] by simp
  then show ?thesis unfolding order_ids [OF assms(1)] using props(2) by simp
qed

text \<open>
  C25: Merging in the computed order never takes a work item before one it must merge after: with no
  cycle among the listed work items, every source stands before its dependents. The order is always
  a permutation of the list, cycles or not, and a list already in such an order is left as it is.
\<close>

theorem merge_order_puts_sources_first:
  assumes "distinct (map wi_id items)"
  shows "mset (map wi_id (orderWorkItemsByMergeDependencies items)) = mset (map wi_id items) \<and>
    (acyclic (set (order_edges items)) \<longrightarrow> sources_first (order_edges items) (map wi_id (orderWorkItemsByMergeDependencies items))) \<and>
    (sources_first (order_edges items) (map wi_id items) \<longrightarrow>
      map wi_id (orderWorkItemsByMergeDependencies items) = map wi_id items)"
proof (intro conjI impI)
  let ?ids = "map wi_id items" and ?es = "order_edges items"
  note o = order_ids [OF assms] and n = merge_order_ids_naive [OF assms]
  show "mset (map wi_id (orderWorkItemsByMergeDependencies items)) = mset ?ids"
    unfolding o using merge_order_ids_perm [OF assms] assms by (subst set_eq_iff_mset_eq_distinct [symmetric]) simp_all
  show "sources_first ?es (map wi_id (orderWorkItemsByMergeDependencies items))" if "acyclic (set ?es)"
    by (rule acyclic_order [OF assms that])
  assume "sources_first ?es ?ids"
  then have "naive_order ?es ?ids [] = ?ids" using naive_order_stable [of "[]" ?ids ?es] assms by simp
  then show "map wi_id (orderWorkItemsByMergeDependencies items) = ?ids" unfolding o n by (simp add: filter_empty_conv)
qed

section \<open>Examples\<close>

definition ex_dep :: "nat \<Rightarrow> merge_dep" where
  "ex_dep i = \<lparr>md_source = i, md_path = ''./src/a.js'', md_kind = None, md_branch = None, md_lock = None, md_via = None, md_created = []\<rparr>"

text \<open>Three work items, of which the first must merge after the third.\<close>

definition ex_merge_items :: "work_item list" where
  "ex_merge_items = [(ex_wi 1)\<lparr>wi_merge_deps := [ex_dep 3]\<rparr>, ex_wi 2, ex_wi 3]"

definition ex_merge_db :: qdb where
  "ex_merge_db = (ex_db [])\<lparr>db_wis := ex_merge_items\<rparr>"

lemma ex_merge_edges: "order_edges ex_merge_items = [(3, 1)]" "distinct (map wi_id ex_merge_items)"
  by code_simp+

lemma ex_acyclic: "acyclic {(3 :: nat, 1 :: nat)}" "acyclic {(1 :: nat, 3 :: nat)}"
  by (simp_all add: acyclic_insert wf_acyclic)

lemma merge_order_puts_sources_first_witness:
  "distinct (map wi_id ex_merge_items) \<and> acyclic (set (order_edges ex_merge_items)) \<and>
   map wi_id (orderWorkItemsByMergeDependencies ex_merge_items) = [2, 3, 1] \<and>
   sources_first (order_edges ex_merge_items) (map wi_id (orderWorkItemsByMergeDependencies ex_merge_items))"
proof (intro conjI)
  show "map wi_id (orderWorkItemsByMergeDependencies ex_merge_items) = [2, 3, 1]" by code_simp
  show ac: "acyclic (set (order_edges ex_merge_items))" using ex_acyclic(1) by (simp add: ex_merge_edges(1))
  then show "sources_first (order_edges ex_merge_items) (map wi_id (orderWorkItemsByMergeDependencies ex_merge_items))"
    using merge_order_puts_sources_first [OF ex_merge_edges(2)] by blast
qed (rule ex_merge_edges(2))

end
