(* ===== verification/CrossWiDeps.thy ===== *)
theory CrossWiDeps
  imports MergeOrder
begin

text \<open>
  The second part of \<open>cross-wi-deps.js\<close>: the check that a new merge dependency closes no cycle, adding,
  removing and clearing dependencies, what blocks a merge, and whether one work item cannot finish
  before another one merges. Both searches are shown exact, and the graph acyclic under every
  sequence of operations. Events are not recorded, and reviewed handoffs are off.
\<close>

section \<open>Cycles\<close>

text \<open>\<open>findMergeDependencyPath\<close>: a depth-first search; the top of the stack is the head of the list.\<close>

definition unseen_deps :: "qdb \<Rightarrow> nat list \<Rightarrow> nat" where
  "unseen_deps d seen = sum_list (map (\<lambda>w. if wi_id w \<in> set seen then 0 else length (merge_sources w)) (db_wis d))"

lemma unseen_mono: "unseen_deps d (i # seen) \<le> unseen_deps d seen"
  unfolding unseen_deps_def by (rule sum_list_mono) simp

lemma unseen_drop:
  assumes "get_wi d i = Some w" "i \<notin> set seen"
  shows "unseen_deps d (i # seen) + length (merge_sources w) \<le> unseen_deps d seen"
proof -
  have w: "w \<in> set (db_wis d)" "wi_id w = i" using assms(1) by (auto simp: get_wi_def find_Some_iff)
  have "sum_list (map (\<lambda>w. if wi_id w \<in> set (i # seen) then 0 else length (merge_sources w)) ws) + length (merge_sources w)
      \<le> sum_list (map (\<lambda>w. if wi_id w \<in> set seen then 0 else length (merge_sources w)) ws)" if "w \<in> set ws" for ws
    using that
  proof (induction ws)
    case (Cons x xs)
    have mono: "sum_list (map (\<lambda>w. if wi_id w \<in> set (i # seen) then 0 else length (merge_sources w)) xs)
        \<le> sum_list (map (\<lambda>w. if wi_id w \<in> set seen then 0 else length (merge_sources w)) xs)"
      by (rule sum_list_mono) simp
    show ?case
    proof (cases "x = w")
      case True
      then show ?thesis using mono w(2) assms(2) by simp
    next
      case False
      then have "w \<in> set xs" using Cons.prems by simp
      from Cons.IH [OF this] show ?thesis by simp
    qed
  qed simp
  from this [OF w(1)] show ?thesis by (simp add: unseen_deps_def)
qed

function find_dep_path :: "qdb \<Rightarrow> nat \<Rightarrow> nat list \<Rightarrow> (nat \<times> nat list) list \<Rightarrow> nat list option" where
  "find_dep_path d target seen [] = None"
| "find_dep_path d target seen ((i, path) # stack) =
     (if i \<in> set seen then find_dep_path d target seen stack
      else (case get_wi d i of None \<Rightarrow> find_dep_path d target (i # seen) stack
        | Some w \<Rightarrow>
          let ns = filter (\<lambda>n. n \<notin> set (i # seen)) (merge_sources w)
          in if target \<in> set ns then Some (path @ [target])
             else find_dep_path d target (i # seen) (rev (map (\<lambda>n. (n, path @ [n])) ns) @ stack)))"
  by pat_completeness auto
termination
proof (relation "measure (\<lambda>(d, target, seen, stack). length stack + unseen_deps d seen)", goal_cases)
  case (3 d target seen i path stack)
  then show ?case using unseen_mono [of d i seen] by simp
next
  case (4 d target seen i path stack w ns)
  have "length ns \<le> length (merge_sources w)" unfolding 4(3) by simp
  then show ?case using unseen_drop [OF 4(2,1)] by simp
qed simp_all

lemma find_dep_path_seen: "i \<in> set seen \<Longrightarrow> find_dep_path d t seen ((i, path) # stack) = find_dep_path d t seen stack"
  by simp

lemma find_dep_path_gone: "i \<notin> set seen \<Longrightarrow> get_wi d i = None \<Longrightarrow>
    find_dep_path d t seen ((i, path) # stack) = find_dep_path d t (i # seen) stack"
  by simp

lemma find_dep_path_step: "i \<notin> set seen \<Longrightarrow> get_wi d i = Some w \<Longrightarrow> ns = filter (\<lambda>n. n \<notin> set (i # seen)) (merge_sources w) \<Longrightarrow>
    find_dep_path d t seen ((i, path) # stack) =
      (if t \<in> set ns then Some (path @ [t]) else find_dep_path d t (i # seen) (rev (map (\<lambda>n. (n, path @ [n])) ns) @ stack))"
  by (simp add: Let_def)

declare find_dep_path.simps(2) [simp del]

definition findMergeDependencyPath :: "qdb \<Rightarrow> nat \<Rightarrow> nat \<Rightarrow> nat list option" where
  "findMergeDependencyPath d start target = find_dep_path d target [] [(start, [start])]"

definition crossWiMergeDependencyWouldCycle :: "qdb \<Rightarrow> nat \<Rightarrow> nat \<Rightarrow> bool \<times> nat list \<times> string" where
  "crossWiMergeDependencyWouldCycle d target source =
     (if target = 0 \<or> source = 0 then (True, [], ''invalid_work_item'')
      else if target = source then (True, [target], ''self_dependency'')
      else (case findMergeDependencyPath d source target of
          Some path \<Rightarrow> (True, target # path, ''merge_order_cycle'')
        | None \<Rightarrow> (False, [], ''ok'')))"

section \<open>Adding and removing\<close>

datatype merge_dep_result = Dep_refused string "nat list" | Dep_kept merge_dep | Dep_added merge_dep

definition same_dep :: "merge_dep \<Rightarrow> merge_dep \<Rightarrow> bool" where
  "same_dep a b \<longleftrightarrow> md_source a = md_source b \<and> normalizeRepoPath (md_path a) = normalizeRepoPath (md_path b)"

fun replace_first :: "('a \<Rightarrow> bool) \<Rightarrow> 'a \<Rightarrow> 'a list \<Rightarrow> 'a list" where
  "replace_first P y [] = []"
| "replace_first P y (x # xs) = (if P x then y # xs else x # replace_first P y xs)"

definition addCrossWiMergeDependency :: "nat \<Rightarrow> nat \<Rightarrow> merge_dep \<Rightarrow> string \<Rightarrow> qdb \<Rightarrow> qdb \<times> merge_dep_result" where
  "addCrossWiMergeDependency target source details ts d =
     (if target = 0 \<or> source = 0 \<or> target = source then (d, Dep_refused ''invalid_dependency'' [])
      else (case (get_wi d target, get_wi d source) of
          (Some t, Some _) \<Rightarrow>
            (case crossWiMergeDependencyWouldCycle d target source of
              (True, path, reason) \<Rightarrow> (d, Dep_refused reason path)
            | (False, _, _) \<Rightarrow>
              let deps = getWorkItemMergeDependencies ts t
              in (case normalizeCrossWiMergeDependency ts (details\<lparr>md_source := source\<rparr>) of
                  None \<Rightarrow> (d, Dep_refused ''invalid_dependency'' [])
                | Some dep \<Rightarrow>
                  (case find (\<lambda>m. same_dep m dep) deps of
                    Some old \<Rightarrow>
                      if md_kind dep \<noteq> None \<and> md_kind old = None
                      then let repaired = old\<lparr>md_kind := md_kind dep\<rparr>
                        in (update_wi target (\<lambda>w. w\<lparr>wi_merge_deps := replace_first (\<lambda>m. same_dep m dep) repaired deps\<rparr>) d, Dep_kept repaired)
                      else (d, Dep_kept old)
                  | None \<Rightarrow> (update_wi target (\<lambda>w. w\<lparr>wi_merge_deps := deps @ [dep]\<rparr>) d, Dep_added dep))))
        | _ \<Rightarrow> (d, Dep_refused ''missing_work_item'' [])))"

text \<open>\<open>path = []\<close> removes the dependencies on a source for every path.\<close>

datatype remove_result = Remove_refused string | Removed nat string

definition removeCrossWiMergeDependency :: "nat \<Rightarrow> nat \<Rightarrow> string \<Rightarrow> string \<Rightarrow> string \<Rightarrow> qdb \<Rightarrow> qdb \<times> remove_result" where
  "removeCrossWiMergeDependency target source path reason ts d =
     (if target = 0 \<or> source = 0 then (d, Remove_refused ''invalid_dependency'')
      else (case get_wi d target of None \<Rightarrow> (d, Remove_refused ''missing_work_item'')
        | Some t \<Rightarrow>
          let deps = getWorkItemMergeDependencies ts t;
              p = normalizeRepoPath path;
              kept = filter (\<lambda>m. md_source m \<noteq> source \<or> p \<noteq> [] \<and> normalizeRepoPath (md_path m) \<noteq> p) deps;
              removed = length deps - length kept
          in if removed = 0 then (d, Removed 0 ''not_found'')
             else (update_wi target (\<lambda>w. w\<lparr>wi_merge_deps := kept\<rparr>) d, Removed removed reason)))"

definition clearCrossWiMergeDependenciesForWorkItem :: "nat \<Rightarrow> string \<Rightarrow> string \<Rightarrow> qdb \<Rightarrow> qdb \<times> remove_result" where
  "clearCrossWiMergeDependenciesForWorkItem i reason ts d =
     (if i = 0 then (d, Remove_refused ''invalid_work_item'')
      else (case get_wi d i of None \<Rightarrow> (d, Remove_refused ''missing_work_item'')
        | Some w \<Rightarrow>
          let n = length (getWorkItemMergeDependencies ts w)
          in if n = 0 then (d, Removed 0 ''none'')
             else (update_wi i (\<lambda>w. w\<lparr>wi_merge_deps := []\<rparr>) d, Removed n reason)))"

section \<open>What blocks a merge\<close>

text \<open>The members of a JavaScript \<open>Set\<close> in the order of their first insertion.\<close>

definition js_members :: "'a list \<Rightarrow> 'a list" where
  "js_members xs = rev (remdups (rev xs))"

lemma js_members [simp]: "set (js_members xs) = set xs" "distinct (js_members xs)"
  by (simp_all add: js_members_def)

definition hasUnresolvedJobsForWorkItem :: "qdb \<Rightarrow> nat \<Rightarrow> bool" where
  "hasUnresolvedJobsForWorkItem d i = list_ex (\<lambda>j. jb_wi j = i \<and> jb_status j \<notin> set TERMINAL_JOB_STATUSES) (db_jobs d)"

record merge_blocker =
  mb_source :: nat
  mb_wi :: "work_item option"
  mb_paths :: "string list"
  mb_deps :: "merge_dep list"
  mb_reason :: string

definition blocker_reason :: "qdb \<Rightarrow> work_item option \<Rightarrow> string" where
  "blocker_reason d s = (case s of None \<Rightarrow> ''upstream_missing''
     | Some x \<Rightarrow> if wi_status x = ''canceled'' then ''upstream_canceled''
       else if wi_status x = ''failed'' \<and> \<not> hasUnresolvedJobsForWorkItem d (wi_id x) then ''upstream_failed''
       else ''upstream_not_merged'')"

definition is_merged :: "work_item option \<Rightarrow> bool" where
  "is_merged s = (case s of None \<Rightarrow> False | Some x \<Rightarrow> wi_merge_state x = ''merged'')"

definition listCrossWiMergeBlockers :: "string \<Rightarrow> qdb \<Rightarrow> work_item \<Rightarrow> merge_blocker list" where
  "listCrossWiMergeBlockers ts d w =
     (let deps = getWorkItemMergeDependencies ts w
      in map (\<lambda>s. let mine = filter (\<lambda>m. md_source m = s) deps
           in \<lparr>mb_source = s, mb_wi = get_wi d s, mb_paths = filter (\<lambda>p. p \<noteq> []) (map md_path mine), mb_deps = mine,
               mb_reason = blocker_reason d (get_wi d s)\<rparr>)
         (filter (\<lambda>s. \<not> is_merged (get_wi d s)) (js_members (map md_source deps))))"

definition pendingCrossWiMergeUpstreamIds :: "qdb \<Rightarrow> bool \<Rightarrow> work_item \<Rightarrow> nat list" where
  "pendingCrossWiMergeUpstreamIds d includeStale w =
     js_members (filter (\<lambda>s. case get_wi d s of None \<Rightarrow> False
       | Some x \<Rightarrow> wi_merge_state x \<noteq> ''merged'' \<and> (includeStale \<or> wi_status x \<notin> {''failed'', ''canceled''})) (merge_sources w))"

section \<open>Waiting for another work item\<close>

text \<open>The rows of \<open>file_lane_waits\<close>.\<close>

record lane_wait =
  lw_lane :: string
  lw_waiter_job :: nat
  lw_waiter_wi :: nat
  lw_holder_type :: string
  lw_holder_key :: string
  lw_holder_job :: "nat option"
  lw_holder_wi :: "nat option"
  lw_path :: string
  lw_kind :: string
  lw_fingerprint :: string
  lw_detail :: string
  lw_created_at :: string
  lw_updated_at :: string

definition lane_holders :: "lane_wait list \<Rightarrow> qdb \<Rightarrow> nat \<Rightarrow> nat list" where
  "lane_holders lanes d i = List.map_filter lw_holder_wi (filter (\<lambda>l. lw_waiter_wi l = i \<and> lw_holder_type l = ''work_item'' \<and>
     (case get_job d (lw_waiter_job l) of None \<Rightarrow> False | Some j \<Rightarrow> jb_status j = ''queued'')) lanes)"

definition waits_next :: "lane_wait list \<Rightarrow> qdb \<Rightarrow> nat \<Rightarrow> nat list" where
  "waits_next lanes d i = js_members (
     (case get_wi d i of None \<Rightarrow> []
      | Some w \<Rightarrow> filter (\<lambda>s. case get_wi d s of None \<Rightarrow> False | Some x \<Rightarrow> wi_merge_state x \<noteq> ''merged'') (merge_sources w))
     @ lane_holders lanes d i)"

text \<open>The breadth-first search; a search cut off by \<open>maxWorkItems\<close> is not complete.\<close>

datatype wait_result = Waits "nat list" | Not_waiting bool

function wait_search :: "(nat \<Rightarrow> nat list) \<Rightarrow> nat \<Rightarrow> nat \<Rightarrow> nat list \<Rightarrow> (nat \<times> nat list) list \<Rightarrow> wait_result" where
  "wait_search nexts maxWis target visited [] = Not_waiting True"
| "wait_search nexts maxWis target visited ((i, path) # queue) =
     (if length visited > maxWis then Not_waiting False
      else let new = filter (\<lambda>n. n \<notin> set visited) (nexts i)
        in if target \<in> set new then Waits (path @ [target])
           else wait_search nexts maxWis target (visited @ new) (queue @ map (\<lambda>n. (n, path @ [n])) new))"
  by pat_completeness auto
termination
  by (relation "measures [\<lambda>(nexts, maxWis, target, visited, queue). Suc maxWis - length visited,
      \<lambda>(nexts, maxWis, target, visited, queue). length queue]") (auto simp: length_0_conv [symmetric] simp del: length_0_conv)

definition workItemWaitsOnWorkItem :: "lane_wait list \<Rightarrow> qdb \<Rightarrow> nat \<Rightarrow> nat \<Rightarrow> nat \<Rightarrow> wait_result" where
  "workItemWaitsOnWorkItem lanes d start target maxWis =
     (if start = 0 \<or> target = 0 then Not_waiting True
      else if start = target then Waits [start]
      else wait_search (waits_next lanes d) maxWis target [start] [(start, [start])])"

section \<open>The searches are exact\<close>

definition merge_edges :: "qdb \<Rightarrow> (nat \<times> nat) set" where
  "merge_edges d = {(i, s). \<exists>w. get_wi d i = Some w \<and> s \<in> set (merge_sources w)}"

text \<open>\<open>path\<close> leads from \<open>a\<close> to \<open>b\<close> along a relation.\<close>

definition leads :: "(nat \<times> nat) set \<Rightarrow> nat \<Rightarrow> nat list \<Rightarrow> nat \<Rightarrow> bool" where
  "leads R a path b \<longleftrightarrow> path \<noteq> [] \<and> hd path = a \<and> last path = b \<and> successively (\<lambda>x y. (x, y) \<in> R) path"

lemma leads_snoc: "leads R a path i \<Longrightarrow> (i, n) \<in> R \<Longrightarrow> leads R a (path @ [n]) n"
  by (auto simp: leads_def successively_append_iff)

lemma leads_reach: "leads R a path b \<Longrightarrow> (a, b) \<in> R\<^sup>*"
proof (induction path arbitrary: a)
  case (Cons x xs)
  show ?case
  proof (cases xs)
    case Nil
    then have "a = b" using Cons.prems by (auto simp: leads_def)
    then show ?thesis by simp
  next
    case (Cons y ys)
    then have "leads R y xs b" "(a, y) \<in> R" using Cons.prems by (auto simp: leads_def)
    then show ?thesis using Cons.IH by (blast intro: converse_rtrancl_into_rtrancl)
  qed
qed (simp add: leads_def)

text \<open>A set that is closed under a relation and misses the target cannot reach it.\<close>

lemma closed_misses:
  assumes "a \<in> S" "\<And>x y. x \<in> S \<Longrightarrow> (x, y) \<in> R \<Longrightarrow> y \<in> S" "t \<notin> S"
  shows "(a, t) \<notin> R\<^sup>*"
proof
  assume "(a, t) \<in> R\<^sup>*"
  then have "t \<in> S" by (induction rule: rtrancl_induct) (use assms in blast)+
  then show False using assms(3) by blast
qed

lemma find_dep_path_leads:
  "find_dep_path d t seen stack = Some p \<Longrightarrow> \<forall>(i, q) \<in> set stack. leads (merge_edges d) a q i \<Longrightarrow> leads (merge_edges d) a p t"
proof (induction d t seen stack rule: find_dep_path.induct)
  case (2 d t seen i path stack)
  consider (seen) "i \<in> set seen" | (gone) "i \<notin> set seen" "get_wi d i = None" | (row) w where "i \<notin> set seen" "get_wi d i = Some w"
    by (cases "get_wi d i") auto
  then show ?case
  proof cases
    case seen
    then show ?thesis using "2.IH"(1) [OF seen] "2.prems" by (simp add: find_dep_path_seen)
  next
    case gone
    then show ?thesis using "2.IH"(2) [OF gone] "2.prems" by (simp add: find_dep_path_gone)
  next
    case (row w)
    define ns where "ns = filter (\<lambda>n. n \<notin> set (i # seen)) (merge_sources w)"
    have edge: "(i, n) \<in> merge_edges d" if "n \<in> set ns" for n using that row by (auto simp: merge_edges_def ns_def)
    have i: "leads (merge_edges d) a path i" using "2.prems"(2) by simp
    note step = "2.prems"(1) [unfolded find_dep_path_step [OF row ns_def]]
    show ?thesis
    proof (cases "t \<in> set ns")
      case True
      then show ?thesis using leads_snoc [OF i edge [OF True]] step by simp
    next
      case False
      have "\<forall>(i, q) \<in> set (rev (map (\<lambda>n. (n, path @ [n])) ns) @ stack). leads (merge_edges d) a q i"
        using leads_snoc [OF i edge] "2.prems"(2) by auto
      then show ?thesis using "2.IH"(3) [OF row ns_def False] step False by simp
    qed
  qed
qed simp

definition unreached :: "(nat \<times> nat) set \<Rightarrow> nat set \<Rightarrow> nat \<Rightarrow> bool" where
  "unreached R A t \<longleftrightarrow> (\<exists>S. A \<subseteq> S \<and> t \<notin> S \<and> (\<forall>x y. x \<in> S \<longrightarrow> (x, y) \<in> R \<longrightarrow> y \<in> S))"

lemma unreached_mono: "unreached R B t \<Longrightarrow> A \<subseteq> B \<Longrightarrow> unreached R A t"
  unfolding unreached_def by (meson order_trans)

lemma unreachedD: "unreached R A t \<Longrightarrow> a \<in> A \<Longrightarrow> (a, t) \<notin> R\<^sup>*"
  unfolding unreached_def by (meson closed_misses subsetD)

lemma find_dep_path_None:
  assumes "find_dep_path d t seen stack = None" "t \<notin> set seen" "t \<notin> fst ` set stack"
    and "\<And>x y. x \<in> set seen \<Longrightarrow> (x, y) \<in> merge_edges d \<Longrightarrow> y \<in> set seen \<union> fst ` set stack"
  shows "unreached (merge_edges d) (set seen \<union> fst ` set stack) t"
  using assms
proof (induction d t seen stack rule: find_dep_path.induct)
  case (1 d t seen)
  then show ?case unfolding unreached_def by (intro exI [of _ "set seen"]) auto
next
  case (2 d t seen i path stack)
  have t: "t \<notin> set seen" "t \<noteq> i" "t \<notin> fst ` set stack" using "2.prems"(2,3) by auto
  consider (seen) "i \<in> set seen" | (gone) "i \<notin> set seen" "get_wi d i = None" | (row) w where "i \<notin> set seen" "get_wi d i = Some w"
    by (cases "get_wi d i") auto
  then show ?case
  proof cases
    case seen
    have "unreached (merge_edges d) (set seen \<union> fst ` set stack) t"
    proof (rule "2.IH"(1) [OF seen])
      show "find_dep_path d t seen stack = None" using "2.prems"(1) seen by (simp add: find_dep_path_seen)
      show "y \<in> set seen \<union> fst ` set stack" if "x \<in> set seen" "(x, y) \<in> merge_edges d" for x y
        using "2.prems"(4) [OF that] seen by auto
    qed (use t in blast)+
    then show ?thesis by (rule unreached_mono) (use seen in auto)
  next
    case gone
    have "unreached (merge_edges d) (set (i # seen) \<union> fst ` set stack) t"
    proof (rule "2.IH"(2) [OF gone])
      show "find_dep_path d t (i # seen) stack = None" using "2.prems"(1) gone by (simp add: find_dep_path_gone)
      show "y \<in> set (i # seen) \<union> fst ` set stack" if "x \<in> set (i # seen)" "(x, y) \<in> merge_edges d" for x y
        using "2.prems"(4) [of x y] that gone by (auto simp: merge_edges_def)
    qed (use t in auto)
    then show ?thesis by (rule unreached_mono) auto
  next
    case (row w)
    define ns where "ns = filter (\<lambda>n. n \<notin> set (i # seen)) (merge_sources w)"
    define stack' where "stack' = rev (map (\<lambda>n. (n, path @ [n])) ns) @ stack"
    have ns: "set ns = {n. (i, n) \<in> merge_edges d \<and> n \<notin> set (i # seen)}" using row by (auto simp: ns_def merge_edges_def)
    note step = "2.prems"(1) [unfolded find_dep_path_step [OF row ns_def]]
    have miss: "t \<notin> set ns" using step by (auto split: if_splits)
    have fst: "fst ` set stack' = set ns \<union> fst ` set stack" by (auto simp: stack'_def image_Un image_image)
    have "unreached (merge_edges d) (set (i # seen) \<union> fst ` set stack') t"
      unfolding stack'_def
    proof (rule "2.IH"(3) [OF row ns_def miss], unfold stack'_def [symmetric])
      show "find_dep_path d t (i # seen) stack' = None" using step miss by (simp add: stack'_def)
      show "t \<notin> set (i # seen)" using t by simp
      show "t \<notin> fst ` set stack'" unfolding fst using miss t by simp
      show "y \<in> set (i # seen) \<union> fst ` set stack'" if "x \<in> set (i # seen)" "(x, y) \<in> merge_edges d" for x y
        unfolding fst ns using "2.prems"(4) [of x y] that by auto
    qed
    then show ?thesis by (rule unreached_mono) (use fst in auto)
  qed
qed

lemma findMergeDependencyPath_exact:
  assumes "a \<noteq> t"
  shows "case findMergeDependencyPath d a t of None \<Rightarrow> (a, t) \<notin> (merge_edges d)\<^sup>* | Some p \<Rightarrow> leads (merge_edges d) a p t"
proof (cases "findMergeDependencyPath d a t")
  case None
  have "unreached (merge_edges d) (set [] \<union> fst ` set [(a, [a])]) t"
    by (rule find_dep_path_None) (use None assms in \<open>simp_all add: findMergeDependencyPath_def\<close>)
  then show ?thesis using None unreachedD [of "merge_edges d" _ t a] by simp
next
  case (Some p)
  have "leads (merge_edges d) a [a] a" by (simp add: leads_def)
  then show ?thesis using Some find_dep_path_leads [of d t "[]" "[(a, [a])]" p a] by (simp add: findMergeDependencyPath_def)
qed

text \<open>
  C27: The cycle check is exact. For two different work items it reports a cycle precisely when the
  source already has to merge after the target, directly or through others, and the path it then
  returns is the target followed by a chain of recorded dependencies from the source to the target.
\<close>

theorem cycle_check_is_exact:
  assumes "0 < t" "0 < s" "t \<noteq> s"
  shows "case crossWiMergeDependencyWouldCycle d t s of (cycle, path, reason) \<Rightarrow>
    if cycle then (s, t) \<in> (merge_edges d)\<^sup>* \<and> reason = ''merge_order_cycle'' \<and> hd path = t \<and> leads (merge_edges d) s (tl path) t
    else (s, t) \<notin> (merge_edges d)\<^sup>*"
  using findMergeDependencyPath_exact [of s t d] assms leads_reach
  by (auto simp: crossWiMergeDependencyWouldCycle_def split: option.splits)

section \<open>The graph stays acyclic\<close>

lemma no_cycle_reported:
  assumes "0 < t" "0 < s" "t \<noteq> s" "\<not> fst (crossWiMergeDependencyWouldCycle d t s)"
  shows "(s, t) \<notin> (merge_edges d)\<^sup>*"
  using findMergeDependencyPath_exact [of s t d] assms by (auto simp: crossWiMergeDependencyWouldCycle_def split: option.splits)

text \<open>An update of the dependencies of one work item whose sources are among some allowed ones.\<close>

lemma merge_edges_update:
  assumes "get_wi d k = Some w0" "\<And>w. md_source ` set (f w) \<subseteq> A"
  shows "merge_edges (update_wi k (\<lambda>w. w\<lparr>wi_merge_deps := f w\<rparr>) d) \<subseteq> {(i, s) \<in> merge_edges d. i \<noteq> k} \<union> {k} \<times> A"
proof
  fix e assume "e \<in> merge_edges (update_wi k (\<lambda>w. w\<lparr>wi_merge_deps := f w\<rparr>) d)"
  then obtain i s w where e: "e = (i, s)" and w: "get_wi d i = Some w"
      "s \<in> set (merge_sources (if wi_id w = k then w\<lparr>wi_merge_deps := f w\<rparr> else w))"
    by (auto simp: merge_edges_def get_wi_update)
  have id: "wi_id w = i" using get_wi_id [OF w(1)] .
  show "e \<in> {(i, s) \<in> merge_edges d. i \<noteq> k} \<union> {k} \<times> A"
  proof (cases "i = k")
    case True
    then have "s \<in> set (merge_sources (w\<lparr>wi_merge_deps := f w\<rparr>))" using w(2) id by simp
    then have "s \<in> A" using assms(2) [of w] by (auto simp: merge_sources_alt)
    then show ?thesis using e True by simp
  next
    case False
    then show ?thesis using e w id by (auto simp: merge_edges_def)
  qed
qed

lemma replace_first_set: "set (replace_first P y xs) \<subseteq> insert y (set xs)"
  by (induction xs) auto

lemma get_deps_sources: "get_wi d k = Some w \<Longrightarrow> {k} \<times> md_source ` set (getWorkItemMergeDependencies ts w) \<subseteq> merge_edges d"
proof -
  assume w: "get_wi d k = Some w"
  have "md_source ` set (getWorkItemMergeDependencies ts w) = set (merge_sources w)" by (simp flip: sources_of_get [of ts] add: set_map)
  then show ?thesis using w by (auto simp: merge_edges_def)
qed

lemma find_SomeD: "find P xs = Some x \<Longrightarrow> x \<in> set xs \<and> P x"
  by (auto simp: find_Some_iff)

lemma add_writes:
  assumes "fst (addCrossWiMergeDependency t s details ts d) \<noteq> d"
  shows "\<exists>w ms. get_wi d t = Some w \<and> fst (addCrossWiMergeDependency t s details ts d) = update_wi t (\<lambda>w. w\<lparr>wi_merge_deps := ms\<rparr>) d \<and>
    md_source ` set ms \<subseteq> insert s (md_source ` set (getWorkItemMergeDependencies ts w)) \<and>
    0 < t \<and> 0 < s \<and> t \<noteq> s \<and> \<not> fst (crossWiMergeDependencyWouldCycle d t s)"
proof -
  have ids: "0 < t" "0 < s" "t \<noteq> s" using assms by (auto simp: addCrossWiMergeDependency_def split: if_splits)
  obtain w where w: "get_wi d t = Some w" using assms ids by (cases "get_wi d t") (simp_all add: addCrossWiMergeDependency_def)
  obtain x where x: "get_wi d s = Some x" using assms ids w by (cases "get_wi d s") (simp_all add: addCrossWiMergeDependency_def)
  obtain c path r where c: "crossWiMergeDependencyWouldCycle d t s = (c, path, r)" by (cases "crossWiMergeDependencyWouldCycle d t s")
  have nc: "\<not> c" using assms ids w x c by (cases c) (simp_all add: addCrossWiMergeDependency_def)
  define dep where "dep = the (normalizeCrossWiMergeDependency ts (details\<lparr>md_source := s\<rparr>))"
  have dep: "normalizeCrossWiMergeDependency ts (details\<lparr>md_source := s\<rparr>) = Some dep" "md_source dep = s"
    using ids(2) by (simp_all add: dep_def normalizeCrossWiMergeDependency_def)
  define deps where "deps = getWorkItemMergeDependencies ts w"
  have add: "fst (addCrossWiMergeDependency t s details ts d) = (case find (\<lambda>m. same_dep m dep) deps of
      Some old \<Rightarrow> if md_kind dep \<noteq> None \<and> md_kind old = None
        then update_wi t (\<lambda>w. w\<lparr>wi_merge_deps := replace_first (\<lambda>m. same_dep m dep) (old\<lparr>md_kind := md_kind dep\<rparr>) deps\<rparr>) d else d
    | None \<Rightarrow> update_wi t (\<lambda>w. w\<lparr>wi_merge_deps := deps @ [dep]\<rparr>) d)"
    using ids w x c nc by (simp add: addCrossWiMergeDependency_def dep(1) deps_def Let_def split: option.split)
  show ?thesis
  proof (cases "find (\<lambda>m. same_dep m dep) deps")
    case None
    then show ?thesis using w ids c nc dep(2) unfolding add by (intro exI [of _ w] exI [of _ "deps @ [dep]"]) (simp add: deps_def)
  next
    case (Some old)
    have old: "old \<in> set deps" using find_SomeD [OF Some] by simp
    let ?ms = "replace_first (\<lambda>m. same_dep m dep) (old\<lparr>md_kind := md_kind dep\<rparr>) deps"
    have "md_source ` set ?ms \<subseteq> md_source ` set deps"
      using replace_first_set [of "\<lambda>m. same_dep m dep" "old\<lparr>md_kind := md_kind dep\<rparr>" deps] old by force
    moreover have "md_kind dep \<noteq> None \<and> md_kind old = None" using assms Some unfolding add by (auto split: if_splits)
    ultimately show ?thesis using w ids c nc Some unfolding add by (intro exI [of _ w] exI [of _ ?ms]) (auto simp: deps_def)
  qed
qed

lemma add_edges:
  assumes "acyclic (merge_edges d)"
  shows "acyclic (merge_edges (fst (addCrossWiMergeDependency t s details ts d)))"
proof (cases "fst (addCrossWiMergeDependency t s details ts d) = d")
  case True
  then show ?thesis using assms by simp
next
  case False
  obtain w ms where w: "get_wi d t = Some w" and new: "fst (addCrossWiMergeDependency t s details ts d) = update_wi t (\<lambda>w. w\<lparr>wi_merge_deps := ms\<rparr>) d"
      "md_source ` set ms \<subseteq> insert s (md_source ` set (getWorkItemMergeDependencies ts w))"
    and ids: "0 < t" "0 < s" "t \<noteq> s" and ok: "\<not> fst (crossWiMergeDependencyWouldCycle d t s)"
    using add_writes [OF False] by blast
  have "(s, t) \<notin> (merge_edges d)\<^sup>*"
    by (rule no_cycle_reported [OF ids ok])
  then have ac: "acyclic (insert (t, s) (merge_edges d))" using assms by (simp add: acyclic_insert)
  have "merge_edges (update_wi t (\<lambda>w. w\<lparr>wi_merge_deps := ms\<rparr>) d) \<subseteq> insert (t, s) (merge_edges d)"
    using merge_edges_update [OF w, of "\<lambda>w. ms", OF new(2)] get_deps_sources [OF w, of ts] by blast
  then show ?thesis unfolding new(1) using ac acyclic_subset by blast
qed

lemma write_fewer_edges:
  assumes "get_wi d k = Some w" "set ms \<subseteq> set (getWorkItemMergeDependencies ts w)"
  shows "merge_edges (update_wi k (\<lambda>w. w\<lparr>wi_merge_deps := ms\<rparr>) d) \<subseteq> merge_edges d"
proof -
  have "md_source ` set ms \<subseteq> md_source ` set (getWorkItemMergeDependencies ts w)" using assms(2) by blast
  from merge_edges_update [OF assms(1), of "\<lambda>w. ms", OF this] get_deps_sources [OF assms(1), of ts]
  show ?thesis by blast
qed

lemma remove_edges: "merge_edges (fst (removeCrossWiMergeDependency t s path reason ts d)) \<subseteq> merge_edges d"
proof (cases "t = 0 \<or> s = 0 \<or> get_wi d t = None")
  case True
  then show ?thesis by (auto simp: removeCrossWiMergeDependency_def)
next
  case False
  then obtain w where w: "get_wi d t = Some w" by auto
  show ?thesis using False w write_fewer_edges [OF w, of "filter P (getWorkItemMergeDependencies ts w)" ts for P]
    by (simp add: removeCrossWiMergeDependency_def Let_def)
qed

lemma clear_edges: "merge_edges (fst (clearCrossWiMergeDependenciesForWorkItem i reason ts d)) \<subseteq> merge_edges d"
  using write_fewer_edges [of d i _ "[]" ts] by (auto simp: clearCrossWiMergeDependenciesForWorkItem_def Let_def split: option.splits if_splits)

datatype dep_event =
    Add_dependency nat nat merge_dep string
  | Remove_dependency nat nat string string string
  | Clear_dependencies nat string string

fun dep_step :: "dep_event \<Rightarrow> qdb \<Rightarrow> qdb" where
  "dep_step (Add_dependency t s details ts) d = fst (addCrossWiMergeDependency t s details ts d)"
| "dep_step (Remove_dependency t s path reason ts) d = fst (removeCrossWiMergeDependency t s path reason ts d)"
| "dep_step (Clear_dependencies i reason ts) d = fst (clearCrossWiMergeDependenciesForWorkItem i reason ts d)"

interpretation merge_graph: step_system dep_step "\<lambda>d. acyclic (merge_edges d)"
proof unfold_locales
  show "acyclic (merge_edges (dep_step e d))" if ac: "acyclic (merge_edges d)" for d e
  proof (cases e)
    case (Add_dependency t s details ts)
    then show ?thesis using add_edges [OF ac] by simp
  next
    case (Remove_dependency t s path reason ts)
    then show ?thesis using acyclic_subset [OF ac remove_edges] by simp
  next
    case (Clear_dependencies i reason ts)
    then show ?thesis using acyclic_subset [OF ac clear_edges] by simp
  qed
qed

text \<open>
  C22: However merge dependencies are added, removed and cleared, no two work items ever come to wait
  for each other's merge: the graph stays acyclic, and merging any of its work items in the computed
  order takes each one after all the listed ones it must merge after.
\<close>

theorem merge_graph_stays_acyclic:
  assumes "acyclic (merge_edges d)" and "\<And>w. w \<in> set items \<Longrightarrow> get_wi (fold dep_step es d) (wi_id w) = Some w"
    and "distinct (map wi_id items)"
  shows "acyclic (merge_edges (fold dep_step es d)) \<and>
    sources_first (order_edges items) (map wi_id (orderWorkItemsByMergeDependencies items))"
proof
  show ac: "acyclic (merge_edges (fold dep_step es d))" by (rule merge_graph.run_inv [OF assms(1)])
  have "set (order_edges items) \<subseteq> (merge_edges (fold dep_step es d))\<inverse>"
    using assms(2) by (auto simp: order_edges_def merge_edges_def)
  then have "acyclic (set (order_edges items))" using ac acyclic_subset by (metis acyclic_converse)
  then show "sources_first (order_edges items) (map wi_id (orderWorkItemsByMergeDependencies items))"
    by (rule acyclic_order [OF assms(3)])
qed

section \<open>Who waits for whom\<close>

definition next_edges :: "(nat \<Rightarrow> nat list) \<Rightarrow> (nat \<times> nat) set" where
  "next_edges nexts = {(i, n). n \<in> set (nexts i)}"

definition wait_answer :: "(nat \<times> nat) set \<Rightarrow> nat \<Rightarrow> nat \<Rightarrow> nat \<Rightarrow> wait_result \<Rightarrow> bool" where
  "wait_answer R a t maxWis r = (case r of
     Waits p \<Rightarrow> leads R a p t
   | Not_waiting complete \<Rightarrow> if complete then (a, t) \<notin> R\<^sup>*
       else (\<exists>V. distinct V \<and> maxWis < length V \<and> (\<forall>x \<in> set V. (a, x) \<in> R\<^sup>*)))"

text \<open>
  The state of the search: the queue holds work items with a path to each, every visited work item
  is reachable, and those not in the queue have all their successors visited.
\<close>

definition search_ok :: "(nat \<Rightarrow> nat list) \<Rightarrow> nat \<Rightarrow> nat \<Rightarrow> nat list \<Rightarrow> (nat \<times> nat list) list \<Rightarrow> bool" where
  "search_ok nexts a t visited queue \<longleftrightarrow> a \<in> set visited \<and> t \<notin> set visited \<and> distinct visited \<and>
     (\<forall>(i, q) \<in> set queue. leads (next_edges nexts) a q i \<and> i \<in> set visited) \<and>
     (\<forall>x \<in> set visited. (a, x) \<in> (next_edges nexts)\<^sup>* \<and> (x \<in> fst ` set queue \<or> set (nexts x) \<subseteq> set visited))"

lemma search_round:
  assumes ok: "search_ok nexts a t visited ((i, path) # queue)" and dist: "distinct (nexts i)"
    and new: "new = filter (\<lambda>n. n \<notin> set visited) (nexts i)" and miss: "t \<notin> set new"
  shows "search_ok nexts a t (visited @ new) (queue @ map (\<lambda>n. (n, path @ [n])) new)"
proof -
  have i: "leads (next_edges nexts) a path i" "i \<in> set visited" using ok by (auto simp: search_ok_def)
  have edge: "(i, n) \<in> next_edges nexts" if "n \<in> set new" for n using that by (simp add: new next_edges_def)
  have reach: "(a, n) \<in> (next_edges nexts)\<^sup>*" if "n \<in> set new" for n
    by (rule leads_reach [OF leads_snoc [OF i(1) edge [OF that]]])
  have fst: "fst ` set (queue @ map (\<lambda>n. (n, path @ [n])) new) = fst ` set queue \<union> set new" by (auto simp: image_Un image_image)
  have cover: "set (nexts i) \<subseteq> set (visited @ new)" by (auto simp: new)
  show ?thesis
    unfolding search_ok_def
  proof (intro conjI ballI)
    show "a \<in> set (visited @ new)" "t \<notin> set (visited @ new)" "distinct (visited @ new)"
      using ok miss dist by (auto simp: search_ok_def new)
    show "case e of (j, q) \<Rightarrow> leads (next_edges nexts) a q j \<and> j \<in> set (visited @ new)"
      if "e \<in> set (queue @ map (\<lambda>n. (n, path @ [n])) new)" for e
      using that ok leads_snoc [OF i(1) edge] by (auto simp: search_ok_def)
    fix x assume x: "x \<in> set (visited @ new)"
    show "(a, x) \<in> (next_edges nexts)\<^sup>*" using x reach ok by (auto simp: search_ok_def)
    show "x \<in> fst ` set (queue @ map (\<lambda>n. (n, path @ [n])) new) \<or> set (nexts x) \<subseteq> set (visited @ new)"
      unfolding fst using x ok cover by (auto simp: search_ok_def)
  qed
qed

lemma wait_search_answers:
  assumes "search_ok nexts a t visited queue" "\<And>i. distinct (nexts i)"
  shows "wait_answer (next_edges nexts) a t maxWis (wait_search nexts maxWis t visited queue)"
  using assms
proof (induction nexts maxWis t visited queue rule: wait_search.induct)
  case (1 nexts maxWis t visited)
  have "(a, t) \<notin> (next_edges nexts)\<^sup>*"
    by (rule closed_misses [of a "set visited"]) (use "1.prems"(1) in \<open>auto simp: search_ok_def next_edges_def\<close>)
  then show ?case by (simp add: wait_answer_def)
next
  case (2 nexts maxWis t visited i path queue)
  show ?case
  proof (cases "length visited > maxWis")
    case True
    then show ?thesis using "2.prems"(1) by (auto simp: wait_answer_def search_ok_def intro!: exI [of _ visited])
  next
    case go: False
    define new where "new = filter (\<lambda>n. n \<notin> set visited) (nexts i)"
    have eq: "wait_search nexts maxWis t visited ((i, path) # queue) = (if t \<in> set new then Waits (path @ [t])
        else wait_search nexts maxWis t (visited @ new) (queue @ map (\<lambda>n. (n, path @ [n])) new))"
      using go by (simp add: new_def Let_def)
    show ?thesis
    proof (cases "t \<in> set new")
      case True
      have "leads (next_edges nexts) a path i" using "2.prems"(1) by (simp add: search_ok_def)
      moreover have "(i, t) \<in> next_edges nexts" using True by (simp add: new_def next_edges_def)
      ultimately show ?thesis using True leads_snoc unfolding eq by (simp add: wait_answer_def)
    next
      case False
      have "wait_answer (next_edges nexts) a t maxWis (wait_search nexts maxWis t (visited @ new) (queue @ map (\<lambda>n. (n, path @ [n])) new))"
        by (rule "2.IH" [OF go new_def False search_round [OF "2.prems"(1) "2.prems"(2) new_def False] "2.prems"(2)])
      then show ?thesis using False unfolding eq by simp
    qed
  qed
qed

text \<open>
  The question whether one work item cannot merge before another is answered exactly: "yes" comes
  with a chain of unmerged merge dependencies and queued lane waits from the one to the other, a
  complete "no" means that no such chain exists, and an incomplete "no" is given only when more
  than the allowed number of work items are reachable.
\<close>

theorem waiting_is_exact:
  assumes "0 < a" "0 < t"
  shows "wait_answer (next_edges (waits_next lanes d)) a t maxWis (workItemWaitsOnWorkItem lanes d a t maxWis)"
proof (cases "a = t")
  case True
  then show ?thesis using assms by (simp add: workItemWaitsOnWorkItem_def wait_answer_def leads_def)
next
  case False
  have "search_ok (waits_next lanes d) a t [a] [(a, [a])]" using False by (simp add: search_ok_def leads_def)
  then have "wait_answer (next_edges (waits_next lanes d)) a t maxWis (wait_search (waits_next lanes d) maxWis t [a] [(a, [a])])"
    by (rule wait_search_answers) (simp add: waits_next_def)
  then show ?thesis using False assms by (simp add: workItemWaitsOnWorkItem_def del: wait_search.simps)
qed

section \<open>Examples\<close>

lemma cycle_check_is_exact_witness:
  "crossWiMergeDependencyWouldCycle ex_merge_db 3 1 = (True, [3, 1, 3], ''merge_order_cycle'') \<and>
   (1, 3) \<in> (merge_edges ex_merge_db)\<^sup>* \<and> leads (merge_edges ex_merge_db) 1 [1, 3] 3"
proof -
  have c: "crossWiMergeDependencyWouldCycle ex_merge_db 3 1 = (True, [3, 1, 3], ''merge_order_cycle'')" by code_simp
  show ?thesis using cycle_check_is_exact [of 3 1 ex_merge_db] c by simp
qed

definition ex_dep_events :: "dep_event list" where
  "ex_dep_events = [Add_dependency 2 1 (ex_dep 0) ''t1'', Add_dependency 3 2 (ex_dep 0) ''t2'']"

lemma ex_merge_db_edges: "merge_edges ex_merge_db = {(1, 3)}"
proof -
  have "get_wi ex_merge_db i = (if i = 1 then Some ((ex_wi 1)\<lparr>wi_merge_deps := [ex_dep 3]\<rparr>) else if i = 2 then Some (ex_wi 2)
      else if i = 3 then Some (ex_wi 3) else None)" for i
    by (simp add: get_wi_def ex_merge_db_def ex_merge_items_def ex_wi_def)
  then show ?thesis by (auto simp: merge_edges_def merge_sources_alt ex_dep_def ex_wi_def split: if_splits)
qed

text \<open>The second addition would close a cycle and is refused.\<close>

lemma merge_graph_stays_acyclic_witness:
  "map wi_id (orderWorkItemsByMergeDependencies (db_wis (fold dep_step ex_dep_events ex_merge_db))) = [3, 1, 2] \<and>
   snd (addCrossWiMergeDependency 3 2 (ex_dep 0) ''t2'' (dep_step (hd ex_dep_events) ex_merge_db)) =
     Dep_refused ''merge_order_cycle'' [3, 2, 1, 3] \<and>
   acyclic (merge_edges (fold dep_step ex_dep_events ex_merge_db)) \<and>
   sources_first (order_edges (db_wis (fold dep_step ex_dep_events ex_merge_db)))
     (map wi_id (orderWorkItemsByMergeDependencies (db_wis (fold dep_step ex_dep_events ex_merge_db))))"
proof -
  let ?d = "fold dep_step ex_dep_events ex_merge_db"
  have ac: "acyclic (merge_edges ex_merge_db)" unfolding ex_merge_db_edges by (rule ex_acyclic(2))
  have dist: "distinct (map wi_id (db_wis ?d))" by code_simp
  have rows: "get_wi ?d (wi_id w) = Some w" if "w \<in> set (db_wis ?d)" for w
    unfolding get_wi_def by (rule find_by_id [OF that dist])
  have o: "map wi_id (orderWorkItemsByMergeDependencies (db_wis ?d)) = [3, 1, 2]" by code_simp
  have r: "snd (addCrossWiMergeDependency 3 2 (ex_dep 0) ''t2'' (dep_step (hd ex_dep_events) ex_merge_db)) =
      Dep_refused ''merge_order_cycle'' [3, 2, 1, 3]" by code_simp
  show ?thesis using o r merge_graph_stays_acyclic [OF ac rows dist] by blast
qed

definition ex_lane :: lane_wait where
  "ex_lane = \<lparr>lw_lane = ''lane'', lw_waiter_job = 7, lw_waiter_wi = 2, lw_holder_type = ''work_item'', lw_holder_key = ''work_item:1'',
     lw_holder_job = None, lw_holder_wi = Some 1, lw_path = ''a'', lw_kind = ''file'', lw_fingerprint = [], lw_detail = [],
     lw_created_at = [], lw_updated_at = []\<rparr>"

lemma waiting_is_exact_witness:
  "workItemWaitsOnWorkItem [ex_lane] (ex_merge_db\<lparr>db_jobs := [ex_job 7 2 ''queued'' [''a'']]\<rparr>) 2 3 64 = Waits [2, 1, 3] \<and>
   leads (next_edges (waits_next [ex_lane] (ex_merge_db\<lparr>db_jobs := [ex_job 7 2 ''queued'' [''a'']]\<rparr>))) 2 [2, 1, 3] 3"
proof -
  have w: "workItemWaitsOnWorkItem [ex_lane] (ex_merge_db\<lparr>db_jobs := [ex_job 7 2 ''queued'' [''a'']]\<rparr>) 2 3 64 = Waits [2, 1, 3]" by code_simp
  show ?thesis using waiting_is_exact [of 2 3 "[ex_lane]" "ex_merge_db\<lparr>db_jobs := [ex_job 7 2 ''queued'' [''a'']]\<rparr>" 64]
    unfolding w by (simp add: wait_answer_def)
qed

end
