(* ===== verification/WorkItemParking.thy ===== *)
theory WorkItemParking
  imports CrossWiDeps
begin

text \<open>
  Which work items wait for an operator and therefore do not take part in the work-item order
  (\<open>workItemOperatorParking\<close>, \<open>workItemMergeParking\<close> of \<open>domains/queue/functions/file-locks.js\<close> and
  \<open>merge-holding-gate.js\<close>), the order loaded from the database (\<open>loadWorkItemOrder\<close>), and the paths
  that belong to a job's siblings. The policy by which a process merges completed work items is an
  argument; the rows of \<open>file_materializations\<close> are another. Texts for the operator keep the columns
  of the gate they name.
\<close>

section \<open>Gates\<close>

definition OPERATOR_PARKING_GATE_KINDS :: "string list" where
  "OPERATOR_PARKING_GATE_KINDS = [''dead_letter_recovery'', ''fix_chain_exhausted'', ''blocked_recovery'']"

definition AUTHORIZATION_GATE_KINDS :: "string list" where
  "AUTHORIZATION_GATE_KINDS =
     [''plan_approval'', ''file_scope_approval'', ''environment_setup'', ''clarification'', ''planner_clarification'']"

definition AWAITING_OPERATOR_GATE_KINDS :: "string list" where
  "AWAITING_OPERATOR_GATE_KINDS = OPERATOR_PARKING_GATE_KINDS @ AUTHORIZATION_GATE_KINDS"

definition MERGE_HOLDING_GATE_ACTIONS :: "string list" where
  "MERGE_HOLDING_GATE_ACTIONS =
     [''fail'', ''replan'', ''retry'', ''retry_with_changes'', ''reject'', ''deny'', ''revert'', ''extend'']"

definition MERGE_RELEASING_RETRY_REVIEW_TYPES :: "string list" where
  "MERGE_RELEASING_RETRY_REVIEW_TYPES =
     [''failure_threshold_exhausted'', ''fix_chain_exhausted'', ''work_item_failure_disposition'', ''blocked_recovery'',
      ''dead_letter_recovery'', ''stall_exhausted_recovery'']"

definition gates_of_wi :: "qdb \<Rightarrow> nat \<Rightarrow> gate_row list" where
  "gates_of_wi d i = sort_key gt_job (filter (\<lambda>g. case get_job d (gt_job g) of None \<Rightarrow> False | Some j \<Rightarrow> jb_wi j = i) (db_gates d))"

text \<open>
  The condition of \<open>findMergeHoldingGate\<close>. A comparison with the \<open>NULL\<close> that a payload without a
  review type yields is unknown, and the row of an unknown condition is not selected.
\<close>

definition gate_holds_merge :: "gate_row \<Rightarrow> bool" where
  "gate_holds_merge g \<longleftrightarrow> gt_state g \<in> {''open'', ''resolving''} \<or>
     (gt_state g = ''resolved'' \<and> gt_action g \<in> set MERGE_HOLDING_GATE_ACTIONS \<and>
      \<not> (gt_json g \<and> gt_rejection g \<and> gt_review_type g \<in> {None, Some ''merge_verification_review''}) \<and>
      \<not> (gt_action g \<in> {''retry'', ''retry_with_changes''} \<and> gt_json g \<and>
         (case gt_review_type g of None \<Rightarrow> True | Some t \<Rightarrow> t \<in> set MERGE_RELEASING_RETRY_REVIEW_TYPES)))"

text \<open>Open gates first, then the newest.\<close>

definition findMergeHoldingGate :: "qdb \<Rightarrow> nat \<Rightarrow> gate_row option" where
  "findMergeHoldingGate d i =
     (let rows = rev (filter gate_holds_merge (gates_of_wi d i));
          is_open = (\<lambda>g. gt_state g \<in> {''open'', ''resolving''})
      in (case filter is_open rows @ filter (\<lambda>g. \<not> is_open g) rows of [] \<Rightarrow> None | g # _ \<Rightarrow> Some g))"

section \<open>Parking\<close>

text \<open>
  Why a work item is parked. \<open>Auto_merge_stalled\<close> is a scheduler's, with the milliseconds it waited.
\<close>

datatype parking =
    Operator_gate nat gate_row "nat list"
  | Human_gate nat gate_row
  | Merge_failed_state nat
  | Upstream_failed nat nat string
  | Not_auto_merged nat
  | Upstream_parked nat nat parking
  | Auto_merge_stalled nat "nat option"

text \<open>
  \<open>reachesGate\<close>: a depth-first search over the hard dependencies, here with its stack of calls; the
  set of seen jobs is that of one search. Each round pops a job or replaces it by its dependencies.
\<close>

function reaches_gate :: "nat list \<Rightarrow> (nat \<times> nat) list \<Rightarrow> nat list \<Rightarrow> nat list \<Rightarrow> bool" where
  "reaches_gate gates deps seen [] = False"
| "reaches_gate gates deps seen (i # stack) =
     (if i \<in> set gates then True
      else if i \<in> set seen then reaches_gate gates deps seen stack
      else reaches_gate gates deps (i # seen) (map snd (filter (\<lambda>e. fst e = i) deps) @ stack))"
  by pat_completeness auto
termination
proof (relation "measure (\<lambda>(gates, deps, seen, stack). length stack + length (filter (\<lambda>e. fst e \<notin> set seen) deps))", goal_cases)
  case (3 gates deps seen i stack)
  have "length (filter (\<lambda>e. fst e = i) ds) + length (filter (\<lambda>e. fst e \<notin> set (i # seen)) ds) = length (filter (\<lambda>e. fst e \<notin> set seen) ds)" for ds :: "(nat \<times> nat) list"
    using 3(2) by (induction ds) auto
  from this [of deps] show ?case by simp
qed simp_all

definition operator_gates :: "qdb \<Rightarrow> nat \<Rightarrow> bool \<Rightarrow> gate_row list" where
  "operator_gates d i awaiting = filter (\<lambda>g. gt_state g \<in> {''open'', ''resolving''} \<and>
     gt_kind g \<in> set (if awaiting then AWAITING_OPERATOR_GATE_KINDS else OPERATOR_PARKING_GATE_KINDS)) (gates_of_wi d i)"

definition hard_deps_of_wi :: "qdb \<Rightarrow> nat \<Rightarrow> (nat \<times> nat) list" where
  "hard_deps_of_wi d i = map (\<lambda>e. (dp_job e, dp_on e)) (filter (\<lambda>e. dp_kind e = ''hard'' \<and>
     (case get_job d (dp_job e) of None \<Rightarrow> False | Some j \<Rightarrow> jb_wi j = i)) (db_deps d))"

definition unfinished_jobs :: "qdb \<Rightarrow> nat \<Rightarrow> job list" where
  "unfinished_jobs d i = filter (\<lambda>j. jb_wi j = i \<and> jb_status j \<notin> set TERMINAL_JOB_STATUSES) (db_jobs d)"

text \<open>\<open>gateIds\<close>: the gates and, for \<open>awaitingOperator\<close>, the parked jobs they hold.\<close>

definition gate_ids :: "qdb \<Rightarrow> nat \<Rightarrow> bool \<Rightarrow> nat list" where
  "gate_ids d i awaiting =
     (let gates = operator_gates d i awaiting;
          parked = map jb_id (filter (\<lambda>j. jb_status j \<in> set PARKED_JOB_STATUSES) (unfinished_jobs d i))
      in map gt_job gates @ (if awaiting then filter (\<lambda>i. i \<in> set parked) (map gt_original gates) else []))"

definition workItemOperatorParking :: "qdb \<Rightarrow> bool \<Rightarrow> work_item \<Rightarrow> parking option" where
  "workItemOperatorParking d awaiting w =
     (if wi_status w = ''complete'' \<or> wi_status w \<in> set WI_LOCK_RELEASE_STATUSES then None
      else if unfinished_jobs d (wi_id w) = [] then None
      else (case operator_gates d (wi_id w) awaiting of [] \<Rightarrow> None
        | g # gs \<Rightarrow>
          if list_all (\<lambda>j. reaches_gate (gate_ids d (wi_id w) awaiting) (hard_deps_of_wi d (wi_id w)) [] [jb_id j]) (unfinished_jobs d (wi_id w))
          then Some (Operator_gate (wi_id w) g (map gt_job (g # gs))) else None))"

text \<open>The merge dependencies still to be waited for, or the first whose work item was given up.\<close>

fun live_upstreams :: "qdb \<Rightarrow> nat \<Rightarrow> nat list \<Rightarrow> (nat \<times> string) + work_item list" where
  "live_upstreams d i [] = Inr []"
| "live_upstreams d i (s # ss) =
     (if s = 0 \<or> s = i then live_upstreams d i ss
      else (case get_wi d s of None \<Rightarrow> live_upstreams d i ss
        | Some w \<Rightarrow>
          if wi_merge_state w = ''merged'' then live_upstreams d i ss
          else if wi_status w \<in> set WI_LOCK_RELEASE_STATUSES then Inl (s, wi_status w)
          else (case live_upstreams d i ss of Inl f \<Rightarrow> Inl f | Inr ws \<Rightarrow> Inr (w # ws))))"

text \<open>
  \<open>workItemMergeParking\<close> with the set of visited work items threaded through. A recursive call is
  for a work item not visited before, so that one more than there are work items bounds its depth.
\<close>

definition park_upstream ::
  "(nat list \<Rightarrow> work_item \<Rightarrow> nat list \<times> parking option) \<Rightarrow> nat \<Rightarrow> nat list \<times> parking option \<Rightarrow> work_item \<Rightarrow> nat list \<times> parking option" where
  "park_upstream parking_of i acc u = (case acc of
       (sn, Some p) \<Rightarrow> (sn, Some p)
     | (sn, None) \<Rightarrow>
       if wi_id u \<in> set sn then (sn, None)
       else (case parking_of (wi_id u # sn) u of
           (sn2, None) \<Rightarrow> (sn2, None)
         | (sn2, Some p) \<Rightarrow> (sn2, Some (Upstream_parked i (wi_id u) p))))"

primrec merge_parking :: "nat \<Rightarrow> (work_item \<Rightarrow> bool) \<Rightarrow> qdb \<Rightarrow> nat list \<Rightarrow> work_item \<Rightarrow> nat list \<times> parking option" where
  "merge_parking 0 auto_merges d seen w = (seen, None)"
| "merge_parking (Suc n) auto_merges d seen w =
     (if wi_status w \<noteq> ''complete'' then (seen, workItemOperatorParking d False w)
      else if \<not> completeWorkItemHoldsFileLocks w then (seen, None)
      else (case findMergeHoldingGate d (wi_id w) of Some g \<Rightarrow> (seen, Some (Human_gate (wi_id w) g))
        | None \<Rightarrow>
          if wi_merge_state w = ''merge_failed'' then (seen, Some (Merge_failed_state (wi_id w)))
          else (case live_upstreams d (wi_id w) (merge_sources w) of
              Inl (s, st) \<Rightarrow> (seen, Some (Upstream_failed (wi_id w) s st))
            | Inr ups \<Rightarrow>
              if \<not> auto_merges w then (seen, Some (Not_auto_merged (wi_id w)))
              else foldl (park_upstream (merge_parking n auto_merges d) (wi_id w)) (seen, None) ups)))"

definition workItemMergeParking :: "(work_item \<Rightarrow> bool) \<Rightarrow> qdb \<Rightarrow> work_item \<Rightarrow> parking option" where
  "workItemMergeParking auto_merges d w = snd (merge_parking (Suc (length (db_wis d))) auto_merges d [wi_id w] w)"

text \<open>\<open>describeWorkItemMergeParking\<close> on the results above.\<close>

definition wi_label :: "nat \<Rightarrow> string" where
  "wi_label i = ''WI#'' @ show_nat i"

definition review_text :: "gate_row \<Rightarrow> string" where
  "review_text g = (case gt_review_type g of None \<Rightarrow> [] | Some t \<Rightarrow> t)"

fun comma_ids :: "nat list \<Rightarrow> string" where
  "comma_ids [] = []"
| "comma_ids [i] = ''#'' @ show_nat i"
| "comma_ids (i # is) = ''#'' @ show_nat i @ '', '' @ comma_ids is"

fun describeWorkItemMergeParking :: "parking \<Rightarrow> string" where
  "describeWorkItemMergeParking (Human_gate w g) =
     (let kind = (if review_text g = [] then [] else '' '' @ review_text g)
      in if gt_state g = ''resolved''
         then wi_label w @ '' is held out of automatic merge by gate #'' @ show_nat (gt_job g) @ kind @ '' (answered '' @ gt_action g @ '')''
         else wi_label w @ '' waits on operator gate #'' @ show_nat (gt_job g) @ kind)"
| "describeWorkItemMergeParking (Operator_gate w g ids) =
     (let kind = (if review_text g = [] then gt_kind g else review_text g)
      in wi_label w @ '' is parked on operator gate #'' @ show_nat (gt_job g) @ (if kind = [] then [] else '' '' @ kind)
         @ (if length ids > 1 then '' (also gates '' @ comma_ids (tl ids) @ '')'' else []))"
| "describeWorkItemMergeParking (Merge_failed_state w) = wi_label w @ '' failed to merge and waits for an operator''"
| "describeWorkItemMergeParking (Upstream_failed w u st) = wi_label w @ '' must merge after '' @ wi_label u @ '', which '' @ st"
| "describeWorkItemMergeParking (Not_auto_merged w) = wi_label w @ '' is not merged automatically by this run (it waits for merge review)''"
| "describeWorkItemMergeParking (Upstream_parked w u p) =
     wi_label w @ '' must merge after '' @ wi_label u @ ''; '' @ describeWorkItemMergeParking p"
| "describeWorkItemMergeParking (Auto_merge_stalled w ms) =
     wi_label w @ '' completed but has not merged automatically (no merge in flight''
     @ (case ms of None \<Rightarrow> [] | Some m \<Rightarrow> '' for '' @ show_nat ((m + 500) div 1000) @ ''s'') @ ''); merge or review it''"

section \<open>The order loaded from the database\<close>

definition first_lock_at :: "qdb \<Rightarrow> nat \<Rightarrow> string option" where
  "first_lock_at d i = (case map wl_acquired_at (filter (\<lambda>l. wl_wi l = i) (db_wi_locks d)) of
     [] \<Rightarrow> None | t # ts \<Rightarrow> Some (foldl (\<lambda>a b. if str_less b a then b else a) t ts))"

text \<open>\<open>dispatchable\<close>: queued, past its \<open>ready_at\<close>, no hard dependency unmet.\<close>

definition dispatchable :: "qdb \<Rightarrow> string \<Rightarrow> job \<Rightarrow> bool" where
  "dispatchable d ts j \<longleftrightarrow> jb_status j = ''queued'' \<and> \<not> str_less ts (jb_ready_at j) \<and>
     \<not> list_ex (\<lambda>e. dp_job e = jb_id j \<and> dp_kind e = ''hard'' \<and>
        (case get_job d (dp_on e) of None \<Rightarrow> False | Some p \<Rightarrow> jb_status p \<noteq> ''succeeded'')) (db_deps d)"

text \<open>The jobs of a work item that the loop over the repository-writing jobs acts on.\<close>

definition planned_jobs :: "qdb \<Rightarrow> nat \<Rightarrow> job list" where
  "planned_jobs d i = filter (\<lambda>j. jb_wi j = i \<and> jb_type j \<in> set QUEUE_LOCKING_JOB_TYPES \<and>
     jb_status j \<notin> set TERMINAL_JOB_STATUSES \<and> wi_active d (jb_wi j) \<and> jobNeedsWriteLocks j) (db_jobs d)"

definition wi_entry :: "qdb \<Rightarrow> lock_view list \<Rightarrow> nat list \<Rightarrow> string \<Rightarrow> work_item \<Rightarrow> order_entry" where
  "wi_entry d locks runnable ts w =
     (let jobs = planned_jobs d (wi_id w) in
      \<lparr>oe_id = int (wi_id w), oe_started = (first_lock_at d (wi_id w) \<noteq> None),
       oe_first_lock_at = (case first_lock_at d (wi_id w) of None \<Rightarrow> [] | Some t \<Rightarrow> t),
       oe_ready = ((runnable = [] \<or> wi_id w \<in> set runnable) \<and> list_ex (dispatchable d ts) jobs),
       oe_planned = concat (map (\<lambda>j. scopeToLockRows (getJobPathTouchScope j))
         (filter (\<lambda>j. \<not> js_unknown (getJobPathTouchScope j)) jobs)),
       oe_held = map lv_row (filter (\<lambda>l. lv_wi l = wi_id w) locks),
       oe_merge_after = map int (merge_sources w)\<rparr>)"

definition parked_wis :: "(work_item \<Rightarrow> bool) \<Rightarrow> qdb \<Rightarrow> (nat \<times> parking) list" where
  "parked_wis auto_merges d = concat (map (\<lambda>w. case workItemMergeParking auto_merges d w of
     None \<Rightarrow> [] | Some p \<Rightarrow> [(wi_id w, p)]) (filter wi_holds_locks (db_wis d)))"

definition loadWorkItemOrder ::
  "(work_item \<Rightarrow> bool) \<Rightarrow> qdb \<Rightarrow> lock_view list option \<Rightarrow> nat list \<Rightarrow> string \<Rightarrow> wi_order \<times> (nat \<times> parking) list" where
  "loadWorkItemOrder auto_merges d wi_locks runnable ts =
     (let candidates = filter wi_holds_locks (db_wis d);
          parked = parked_wis auto_merges d;
          items = filter (\<lambda>w. wi_id w \<notin> fst ` set parked) candidates;
          locks = (case wi_locks of None \<Rightarrow> activeWiLocks d | Some ls \<Rightarrow> ls)
      in (buildWorkItemOrder (map (wi_entry d locks runnable ts) items), parked))"

section \<open>Paths of sibling jobs\<close>

definition js_add :: "'a \<Rightarrow> 'a list \<Rightarrow> 'a list" where
  "js_add x xs = (if x \<in> set xs then xs else xs @ [x])"

definition usable_inputs :: "bool \<Rightarrow> string list \<Rightarrow> string list" where
  "usable_inputs win paths = filter (\<lambda>p. normalizeLockPath win p \<noteq> []) paths"

definition jobs_of_wi :: "qdb \<Rightarrow> nat \<Rightarrow> nat \<Rightarrow> job list" where
  "jobs_of_wi d w i = filter (\<lambda>j. jb_wi j = w \<and> jb_id j \<noteq> i) (db_jobs d)"

text \<open>
  The rows of \<open>file_materializations\<close> are the argument \<open>rows\<close>: the job and the path it created empty.
\<close>

definition sibling_locks :: "qdb \<Rightarrow> nat \<Rightarrow> nat \<Rightarrow> job_lock list" where
  "sibling_locks d w i = filter (\<lambda>l. jl_job l \<noteq> i \<and> jl_released l = None \<and>
     (case get_job d (jl_job l) of None \<Rightarrow> False | Some j \<Rightarrow> jb_wi j = w)) (db_job_locks d)"

definition sibling_materialized :: "bool \<Rightarrow> qdb \<Rightarrow> (nat \<times> string) list \<Rightarrow> nat \<Rightarrow> nat \<Rightarrow> string list" where
  "sibling_materialized win d rows w i = filter (\<lambda>p. p \<noteq> []) (map (normalizeLockPath win \<circ> snd)
     (filter (\<lambda>r. fst r \<noteq> i \<and> (case get_job d (fst r) of None \<Rightarrow> False
        | Some j \<Rightarrow> jb_wi j = w \<and> jb_status j \<notin> set TERMINAL_JOB_STATUSES)) rows))"

definition siblingOwnedWorktreePaths :: "bool \<Rightarrow> (nat \<times> string) list \<Rightarrow> qdb \<Rightarrow> nat \<Rightarrow> string list \<Rightarrow> string list" where
  "siblingOwnedWorktreePaths win rows d i paths =
     (case get_job d i of None \<Rightarrow> []
      | Some j \<Rightarrow>
        if jb_wi j = 0 then []
        else foldl (\<lambda>owned p. if normalizeLockPath win p \<in> set (sibling_materialized win d rows (jb_wi j) i) \<or>
              list_ex (lock_covers win (normalizeLockPath win p)) (sibling_locks d (jb_wi j) i)
            then js_add p owned else owned) [] (usable_inputs win paths))"

text \<open>Whether a sibling's declared scope covers a path.\<close>

definition scope_owns :: "bool \<Rightarrow> job \<Rightarrow> string \<Rightarrow> bool" where
  "scope_owns win s p =
     (let scope = getJobPathTouchScope s; target = normalizeLockPath win p;
          files = filter (\<lambda>f. f \<noteq> []) (map (normalizeLockPath win) (js_files scope));
          roots = filter (\<lambda>r. r \<noteq> [] \<and> r \<noteq> ''*'') (map (normalizeLockPath win) (js_roots scope))
      in \<not> js_unknown scope \<and> (target \<in> set files \<or> list_ex (\<lambda>r. target = r \<or> isUnderRoot target [r]) roots))"

definition live_siblings :: "qdb \<Rightarrow> nat \<Rightarrow> nat \<Rightarrow> job list" where
  "live_siblings d w i = filter (\<lambda>s. jb_status s \<notin> set TERMINAL_JOB_STATUSES \<and> jb_type s \<in> set MUTATING_JOB_TYPES) (jobs_of_wi d w i)"

definition siblingJobScopePaths :: "bool \<Rightarrow> (nat \<times> string) list \<Rightarrow> qdb \<Rightarrow> nat \<Rightarrow> string list \<Rightarrow> string list" where
  "siblingJobScopePaths win rows d i paths =
     (let owned = siblingOwnedWorktreePaths win rows d i paths in
      case get_job d i of None \<Rightarrow> owned
      | Some j \<Rightarrow>
        if jb_wi j = 0 then owned
        else foldl (\<lambda>acc s. foldl (\<lambda>ow p. if scope_owns win s p then js_add p ow else ow) acc (usable_inputs win paths))
          owned (live_siblings d (jb_wi j) i))"

text \<open>\<open>preserveUncommittedWaivers\<close>: the newest attempt of a waived job, assessors aside, has no commit.\<close>

definition uncommitted_waiver :: "qdb \<Rightarrow> job \<Rightarrow> bool" where
  "uncommitted_waiver d s \<longleftrightarrow> jb_status s = ''succeeded'' \<and> jm_assess_state (jb_more s) = ''assessment_waived'' \<and>
     (let mine = filter (\<lambda>a. at_job a = jb_id s \<and> at_worker a \<noteq> ''assessor'') (db_attempts d)
      in list_ex (\<lambda>a. at_commit a = None \<and> list_all (\<lambda>b. at_id b \<le> at_id a) mine) mine)"

definition siblingJobScopeOwners :: "bool \<Rightarrow> qdb \<Rightarrow> nat \<Rightarrow> string list \<Rightarrow> bool \<Rightarrow> (string \<times> nat list) list" where
  "siblingJobScopeOwners win d i paths preserve =
     (let inputs = remdups (usable_inputs win paths) in
      case get_job d i of None \<Rightarrow> map (\<lambda>p. (p, [])) inputs
      | Some j \<Rightarrow>
        if jb_wi j = 0 then map (\<lambda>p. (p, [])) inputs
        else
          let siblings = filter (\<lambda>s. (jb_status s \<notin> set TERMINAL_JOB_STATUSES \<or> preserve \<and> uncommitted_waiver d s) \<and>
                jb_type s \<in> set MUTATING_JOB_TYPES) (jobs_of_wi d (jb_wi j) i)
          in map (\<lambda>p. (p, map jb_id (filter (\<lambda>s. scope_owns win s p) siblings))) inputs)"

section \<open>Operator gates\<close>

lemma reaches_gate_sound:
  "reaches_gate gates deps seen stack \<Longrightarrow> \<exists>i \<in> set stack. \<exists>g \<in> set gates. (i, g) \<in> (set deps)\<^sup>*"
proof (induction gates deps seen stack rule: reaches_gate.induct)
  case (2 gates deps seen i stack)
  consider (gate) "i \<in> set gates" | (seen) "i \<notin> set gates" "i \<in> set seen" | (fresh) "i \<notin> set gates" "i \<notin> set seen" by blast
  then show ?case
  proof cases
    case gate
    then show ?thesis by auto
  next
    case seen
    then show ?thesis using "2.IH"(1) "2.prems" by auto
  next
    case fresh
    obtain k g where k: "k \<in> set (map snd (filter (\<lambda>e. fst e = i) deps) @ stack)" "g \<in> set gates" "(k, g) \<in> (set deps)\<^sup>*"
      using "2.IH"(2) [OF fresh] "2.prems" fresh by auto
    show ?thesis
    proof (cases "k \<in> set stack")
      case False
      then have "(i, k) \<in> set deps" using k(1) by auto
      then have "(i, g) \<in> (set deps)\<^sup>*" using k(3) by (rule converse_rtrancl_into_rtrancl)
      then show ?thesis using k(2) by auto
    qed (use k in auto)
  qed
qed simp

lemma reaches_gate_complete:
  assumes "\<not> reaches_gate gates deps seen stack" "g \<in> set gates" "g \<notin> set seen"
    and "\<And>x y. x \<in> set seen \<Longrightarrow> (x, y) \<in> set deps \<Longrightarrow> y \<in> set seen \<union> set stack"
  shows "unreached (set deps) (set seen \<union> set stack) g"
  using assms
proof (induction gates deps seen stack rule: reaches_gate.induct)
  case (1 gates deps seen)
  then show ?case unfolding unreached_def by (intro exI [of _ "set seen"]) auto
next
  case (2 gates deps seen i stack)
  have ng: "i \<notin> set gates" using "2.prems"(1) by auto
  show ?case
  proof (cases "i \<in> set seen")
    case True
    have "unreached (set deps) (set seen \<union> set stack) g"
    proof (rule "2.IH"(1) [OF ng True _ "2.prems"(2,3)])
      show "\<not> reaches_gate gates deps seen stack" using "2.prems"(1) ng True by simp
      show "y \<in> set seen \<union> set stack" if "x \<in> set seen" "(x, y) \<in> set deps" for x y using "2.prems"(4) [OF that] True by auto
    qed
    then show ?thesis by (rule unreached_mono) (use True in auto)
  next
    case False
    let ?next = "map snd (filter (\<lambda>e. fst e = i) deps)"
    have nx: "y \<in> set ?next" if "(i, y) \<in> set deps" for y using that by force
    have "unreached (set deps) (set (i # seen) \<union> set (?next @ stack)) g"
    proof (rule "2.IH"(2) [OF ng False _ "2.prems"(2)])
      show "\<not> reaches_gate gates deps (i # seen) (?next @ stack)" using "2.prems"(1) ng False by simp
      show "g \<notin> set (i # seen)" using "2.prems"(2,3) ng by auto
      show "y \<in> set (i # seen) \<union> set (?next @ stack)" if "x \<in> set (i # seen)" "(x, y) \<in> set deps" for x y
        using that nx "2.prems"(4) [of x y] by (cases "x = i") auto
    qed
    then show ?thesis by (rule unreached_mono) auto
  qed
qed

lemma reaches_gate_iff: "reaches_gate gates deps [] [i] \<longleftrightarrow> (\<exists>g \<in> set gates. (i, g) \<in> (set deps)\<^sup>*)"
proof
  show "reaches_gate gates deps [] [i] \<Longrightarrow> \<exists>g \<in> set gates. (i, g) \<in> (set deps)\<^sup>*"
    using reaches_gate_sound [of gates deps "[]" "[i]"] by simp
  show "reaches_gate gates deps [] [i]" if ex: "\<exists>g \<in> set gates. (i, g) \<in> (set deps)\<^sup>*"
  proof (rule ccontr)
    assume no: "\<not> reaches_gate gates deps [] [i]"
    obtain g where g: "g \<in> set gates" "(i, g) \<in> (set deps)\<^sup>*" using ex by blast
    have "unreached (set deps) (set [] \<union> set [i]) g" by (rule reaches_gate_complete [OF no g(1)]) simp_all
    from unreachedD [OF this, of i] g(2) show False by simp
  qed
qed

text \<open>
  An unfinished work item is parked on an operator precisely when it has unfinished jobs and each
  of them is a gate of the operator, is held by one, or depends on such a job through hard
  dependencies of the work item; one job that can still make progress keeps it unparked.
\<close>

theorem operator_parking_is_exact:
  "workItemOperatorParking d awaiting w \<noteq> None \<longleftrightarrow>
     wi_status w \<noteq> ''complete'' \<and> wi_status w \<notin> {''failed'', ''canceled''} \<and>
     unfinished_jobs d (wi_id w) \<noteq> [] \<and> operator_gates d (wi_id w) awaiting \<noteq> [] \<and>
     (\<forall>j \<in> set (unfinished_jobs d (wi_id w)). \<exists>g \<in> set (gate_ids d (wi_id w) awaiting).
        (jb_id j, g) \<in> (set (hard_deps_of_wi d (wi_id w)))\<^sup>*)"
  by (cases "operator_gates d (wi_id w) awaiting")
    (auto simp: workItemOperatorParking_def WI_LOCK_RELEASE_STATUSES_def list_all_iff reaches_gate_iff simp del: reaches_gate.simps)

section \<open>Merge parking\<close>

text \<open>What parks a work item by itself, apart from the work items it must merge after.\<close>

definition own_parking :: "(work_item \<Rightarrow> bool) \<Rightarrow> qdb \<Rightarrow> work_item \<Rightarrow> parking option" where
  "own_parking auto_merges d w =
     (if wi_status w \<noteq> ''complete'' then workItemOperatorParking d False w
      else if \<not> completeWorkItemHoldsFileLocks w then None
      else (case findMergeHoldingGate d (wi_id w) of Some g \<Rightarrow> Some (Human_gate (wi_id w) g)
        | None \<Rightarrow>
          if wi_merge_state w = ''merge_failed'' then Some (Merge_failed_state (wi_id w))
          else (case live_upstreams d (wi_id w) (merge_sources w) of
              Inl (s, st) \<Rightarrow> Some (Upstream_failed (wi_id w) s st)
            | Inr ups \<Rightarrow> if auto_merges w then None else Some (Not_auto_merged (wi_id w)))))"

definition up_rows :: "qdb \<Rightarrow> work_item \<Rightarrow> work_item list" where
  "up_rows d w = (if wi_status w = ''complete'' \<and> completeWorkItemHoldsFileLocks w
     then (case live_upstreams d (wi_id w) (merge_sources w) of Inl _ \<Rightarrow> [] | Inr ups \<Rightarrow> ups) else [])"

definition up_edges :: "qdb \<Rightarrow> (nat \<times> nat) set" where
  "up_edges d = {(i, u). \<exists>w. get_wi d i = Some w \<and> u \<in> wi_id ` set (up_rows d w)}"

lemma merge_parking_Suc: "merge_parking (Suc n) am d seen w = (case own_parking am d w of Some p \<Rightarrow> (seen, Some p)
    | None \<Rightarrow> foldl (park_upstream (merge_parking n am d) (wi_id w)) (seen, None) (up_rows d w))"
  by (auto simp: own_parking_def up_rows_def split: option.split sum.split)

declare merge_parking.simps(2) [simp del]

lemma get_wi_self: "get_wi d s = Some u \<Longrightarrow> get_wi d (wi_id u) = Some u"
  using get_wi_id by blast

lemma live_upstreams_rows: "live_upstreams d i ss = Inr ups \<Longrightarrow> u \<in> set ups \<Longrightarrow> get_wi d (wi_id u) = Some u"
proof (induction ss arbitrary: ups)
  case (Cons s ss)
  then show ?case by (auto split: if_splits option.splits sum.splits intro: get_wi_self)
qed simp

lemma up_rows_row:
  assumes "u \<in> set (up_rows d w)"
  shows "get_wi d (wi_id u) = Some u"
proof (cases "wi_status w = ''complete'' \<and> completeWorkItemHoldsFileLocks w")
  case True
  show ?thesis
  proof (cases "live_upstreams d (wi_id w) (merge_sources w)")
    case (Inl f)
    have "up_rows d w = []" unfolding up_rows_def if_P [OF True] Inl by (simp only: sum.case)
    then show ?thesis using assms by simp
  next
    case (Inr ups)
    have "up_rows d w = ups" unfolding up_rows_def if_P [OF True] Inr by (simp only: sum.case)
    then show ?thesis using live_upstreams_rows [OF Inr] assms by simp
  qed
next
  case False
  have "up_rows d w = []" unfolding up_rows_def if_not_P [OF False] by (rule refl)
  then show ?thesis using assms by simp
qed

lemma park_upstream_parked: "park_upstream f i (sn, Some p) u = (sn, Some p)"
  by (simp add: park_upstream_def)

lemma foldl_parked: "foldl (park_upstream f i) (sn, Some p) ups = (sn, Some p)"
proof (induction ups)
  case (Cons u ups)
  then show ?case by (simp only: foldl_Cons park_upstream_parked)
qed simp

text \<open>The ids not visited yet bound the depth of the recursion.\<close>

definition unvisited :: "qdb \<Rightarrow> nat list \<Rightarrow> nat" where
  "unvisited d seen = card (wi_id ` set (db_wis d) - set seen)"

lemma unvisited_mono: "set seen \<subseteq> set seen' \<Longrightarrow> unvisited d seen' \<le> unvisited d seen"
  unfolding unvisited_def by (rule card_mono) auto

lemma unvisited_less: "get_wi d (wi_id u) = Some u \<Longrightarrow> wi_id u \<notin> set seen \<Longrightarrow> unvisited d (wi_id u # seen) < unvisited d seen"
  unfolding unvisited_def by (rule psubset_card_mono) (auto simp: get_wi_def find_Some_iff)

lemma fold_parking_fuel:
  assumes "\<And>sn u. u \<in> set ups \<Longrightarrow> set seen \<subseteq> set sn \<Longrightarrow> wi_id u \<notin> set sn \<Longrightarrow>
      f (wi_id u # sn) u = g (wi_id u # sn) u \<and> set (wi_id u # sn) \<subseteq> set (fst (f (wi_id u # sn) u))"
  shows "foldl (park_upstream f i) (seen, None) ups = foldl (park_upstream g i) (seen, None) ups \<and>
    set seen \<subseteq> set (fst (foldl (park_upstream f i) (seen, None) ups))"
  using assms
proof (induction ups arbitrary: seen)
  case (Cons u ups)
  show ?case
  proof (cases "wi_id u \<in> set seen")
    case True
    then have steps: "park_upstream f i (seen, None) u = (seen, None)" "park_upstream g i (seen, None) u = (seen, None)"
      by (simp_all add: park_upstream_def)
    have "foldl (park_upstream f i) (seen, None) ups = foldl (park_upstream g i) (seen, None) ups \<and>
        set seen \<subseteq> set (fst (foldl (park_upstream f i) (seen, None) ups))"
      by (rule Cons.IH) (rule Cons.prems, auto)
    then show ?thesis unfolding foldl_Cons steps .
  next
    case False
    have "f (wi_id u # seen) u = g (wi_id u # seen) u \<and> set (wi_id u # seen) \<subseteq> set (fst (f (wi_id u # seen) u))"
      by (rule Cons.prems) (use False in simp_all)
    then have eq: "f (wi_id u # seen) u = g (wi_id u # seen) u" "set (wi_id u # seen) \<subseteq> set (fst (f (wi_id u # seen) u))"
      by blast+
    obtain sn2 r where f: "f (wi_id u # seen) u = (sn2, r)" by (cases "f (wi_id u # seen) u")
    have sub: "set seen \<subseteq> set sn2" using eq(2) f by auto
    have step: "park_upstream h i (seen, None) u = (sn2, map_option (Upstream_parked i (wi_id u)) r)" if "h (wi_id u # seen) u = (sn2, r)" for h
      using False that by (simp add: park_upstream_def split: option.split)
    have steps: "park_upstream f i (seen, None) u = (sn2, map_option (Upstream_parked i (wi_id u)) r)"
      "park_upstream g i (seen, None) u = (sn2, map_option (Upstream_parked i (wi_id u)) r)"
      using step [of f] step [of g] f eq(1) by simp_all
    show ?thesis
    proof (cases r)
      case None
      have "foldl (park_upstream f i) (sn2, None) ups = foldl (park_upstream g i) (sn2, None) ups \<and>
          set sn2 \<subseteq> set (fst (foldl (park_upstream f i) (sn2, None) ups))"
        by (rule Cons.IH) (rule Cons.prems, use sub in auto)
      then show ?thesis using None steps sub by auto
    next
      case (Some p)
      then show ?thesis using steps sub by (simp add: foldl_parked)
    qed
  qed
qed simp

lemma merge_parking_fuel:
  "unvisited d seen < n \<Longrightarrow> merge_parking n am d seen w = merge_parking (n + k) am d seen w \<and>
     set seen \<subseteq> set (fst (merge_parking n am d seen w))"
proof (induction n arbitrary: seen w)
  case (Suc n)
  show ?case
  proof (cases "own_parking am d w")
    case None
    have "foldl (park_upstream (merge_parking n am d) (wi_id w)) (seen, None) (up_rows d w) =
          foldl (park_upstream (merge_parking (n + k) am d) (wi_id w)) (seen, None) (up_rows d w) \<and>
        set seen \<subseteq> set (fst (foldl (park_upstream (merge_parking n am d) (wi_id w)) (seen, None) (up_rows d w)))"
    proof (rule fold_parking_fuel)
      fix sn u assume u: "u \<in> set (up_rows d w)" "set seen \<subseteq> set sn" "wi_id u \<notin> set sn"
      have "unvisited d (wi_id u # sn) < unvisited d sn" by (rule unvisited_less [OF up_rows_row [OF u(1)] u(3)])
      also have "\<dots> \<le> unvisited d seen" by (rule unvisited_mono [OF u(2)])
      finally show "merge_parking n am d (wi_id u # sn) u = merge_parking (n + k) am d (wi_id u # sn) u \<and>
          set (wi_id u # sn) \<subseteq> set (fst (merge_parking n am d (wi_id u # sn) u))"
        using Suc.IH [of "wi_id u # sn" u] Suc.prems by linarith
    qed
    then show ?thesis using None by (metis add_Suc merge_parking_Suc option.simps(4))
  next
    case (Some p)
    then show ?thesis by (simp add: merge_parking_Suc)
  qed
qed simp

text \<open>
  C31: The recursion over merge dependencies with its shared set of visited work items always ends:
  the depth allowed by the model is enough, and more changes nothing.
\<close>

theorem merge_parking_terminates:
  "snd (merge_parking (Suc (length (db_wis d)) + k) auto_merges d [wi_id w] w) = workItemMergeParking auto_merges d w"
proof -
  have "unvisited d [wi_id w] \<le> card (wi_id ` set (db_wis d))" unfolding unvisited_def by (rule card_mono) auto
  also have "\<dots> \<le> length (db_wis d)" by (metis card_length length_map set_map)
  finally have "unvisited d [wi_id w] < Suc (length (db_wis d))" by simp
  from merge_parking_fuel [OF this, of auto_merges w k] show ?thesis by (simp only: workItemMergeParking_def)
qed

text \<open>What a finished call says about the work items it visited.\<close>

definition parking_ok :: "(work_item \<Rightarrow> bool) \<Rightarrow> qdb \<Rightarrow> nat \<Rightarrow> nat list \<Rightarrow> nat list \<times> parking option \<Rightarrow> bool" where
  "parking_ok am d i seen r \<longleftrightarrow> set seen \<subseteq> set (fst r) \<and> (case snd r of
     None \<Rightarrow> \<forall>x \<in> set (fst r) - set seen. (\<exists>u. get_wi d x = Some u \<and> own_parking am d u = None) \<and>
        (\<forall>y. (x, y) \<in> up_edges d \<longrightarrow> y \<in> set (fst r))
   | Some p \<Rightarrow> \<exists>x u. (i, x) \<in> (up_edges d)\<^sup>* \<and> get_wi d x = Some u \<and> own_parking am d u \<noteq> None)"

lemma up_edge: "get_wi d (wi_id w) = Some w \<Longrightarrow> (wi_id w, y) \<in> up_edges d \<longleftrightarrow> y \<in> wi_id ` set (up_rows d w)"
  by (auto simp: up_edges_def)

lemma fold_parking_ok:
  assumes "\<And>sn u. u \<in> set ups \<Longrightarrow> set seen \<subseteq> set sn \<Longrightarrow> wi_id u \<notin> set sn \<Longrightarrow>
      parking_ok am d (wi_id u) (wi_id u # sn) (f (wi_id u # sn) u) \<and>
      (snd (f (wi_id u # sn) u) = None \<longrightarrow> own_parking am d u = None \<and> wi_id ` set (up_rows d u) \<subseteq> set (fst (f (wi_id u # sn) u)))"
    and "\<And>u. u \<in> set ups \<Longrightarrow> get_wi d (wi_id u) = Some u" "\<And>u. u \<in> set ups \<Longrightarrow> (i, wi_id u) \<in> up_edges d"
  shows "parking_ok am d i seen (foldl (park_upstream f i) (seen, None) ups) \<and>
    (snd (foldl (park_upstream f i) (seen, None) ups) = None \<longrightarrow>
      wi_id ` set ups \<subseteq> set (fst (foldl (park_upstream f i) (seen, None) ups)))"
  using assms
proof (induction ups arbitrary: seen)
  case Nil
  then show ?case by (simp add: parking_ok_def)
next
  case (Cons u ups)
  let ?fold = "\<lambda>sn. foldl (park_upstream f i) (sn, None) ups"
  show ?case
  proof (cases "wi_id u \<in> set seen")
    case True
    then have step: "park_upstream f i (seen, None) u = (seen, None)" by (simp add: park_upstream_def)
    have ih: "parking_ok am d i seen (?fold seen) \<and> (snd (?fold seen) = None \<longrightarrow> wi_id ` set ups \<subseteq> set (fst (?fold seen)))"
      by (rule Cons.IH) (rule Cons.prems, auto intro: Cons.prems)
    then have "set seen \<subseteq> set (fst (?fold seen))" by (simp add: parking_ok_def)
    then show ?thesis using ih True unfolding foldl_Cons step by auto
  next
    case False
    define sn2 where "sn2 = fst (f (wi_id u # seen) u)"
    have one: "parking_ok am d (wi_id u) (wi_id u # seen) (f (wi_id u # seen) u)"
      "snd (f (wi_id u # seen) u) = None \<Longrightarrow> own_parking am d u = None \<and> wi_id ` set (up_rows d u) \<subseteq> set sn2"
      using Cons.prems(1) [of u seen] False by (simp_all add: sn2_def)
    have sub: "set (wi_id u # seen) \<subseteq> set sn2" using one(1) by (simp add: parking_ok_def sn2_def)
    have row: "get_wi d (wi_id u) = Some u" and edge: "(i, wi_id u) \<in> up_edges d" using Cons.prems(2,3) by simp_all
    show ?thesis
    proof (cases "snd (f (wi_id u # seen) u)")
      case None
      have step: "park_upstream f i (seen, None) u = (sn2, None)"
        using False None by (cases "f (wi_id u # seen) u") (simp add: park_upstream_def sn2_def)
      have ih: "parking_ok am d i sn2 (?fold sn2) \<and> (snd (?fold sn2) = None \<longrightarrow> wi_id ` set ups \<subseteq> set (fst (?fold sn2)))"
        by (rule Cons.IH) (rule Cons.prems, use sub in \<open>auto intro: Cons.prems\<close>)
      have grow: "set sn2 \<subseteq> set (fst (?fold sn2))" using ih by (simp add: parking_ok_def)
      have "parking_ok am d i seen (?fold sn2)"
      proof (cases "snd (?fold sn2)")
        case none: None
        have "(\<exists>v. get_wi d x = Some v \<and> own_parking am d v = None) \<and> (\<forall>y. (x, y) \<in> up_edges d \<longrightarrow> y \<in> set (fst (?fold sn2)))"
          if x: "x \<in> set (fst (?fold sn2)) - set seen" for x
        proof -
          consider "x \<in> set (fst (?fold sn2)) - set sn2" | "x \<in> set sn2 - set (wi_id u # seen)" | "x = wi_id u" using x by auto
          then show ?thesis
          proof cases
            case 1
            then show ?thesis using ih none by (simp add: parking_ok_def)
          next
            case 2
            then show ?thesis using one(1) None grow by (auto simp: parking_ok_def sn2_def)
          next
            case 3
            then show ?thesis using row one(2) [OF None] up_edge [OF row] grow by auto
          qed
        qed
        then show ?thesis using none sub grow by (auto simp: parking_ok_def)
      next
        case (Some p)
        then show ?thesis using ih sub grow by (auto simp: parking_ok_def)
      qed
      then show ?thesis using ih sub grow unfolding foldl_Cons step by auto
    next
      case (Some p)
      have step: "park_upstream f i (seen, None) u = (sn2, Some (Upstream_parked i (wi_id u) p))"
        using False Some by (cases "f (wi_id u # seen) u") (simp add: park_upstream_def sn2_def)
      obtain x v where "(wi_id u, x) \<in> (up_edges d)\<^sup>*" "get_wi d x = Some v" "own_parking am d v \<noteq> None"
        using one(1) Some by (auto simp: parking_ok_def)
      moreover from this(1) have "(i, x) \<in> (up_edges d)\<^sup>*" by (rule converse_rtrancl_into_rtrancl [OF edge])
      ultimately show ?thesis using sub unfolding foldl_Cons step foldl_parked by (auto simp: parking_ok_def)
    qed
  qed
qed

lemma merge_parking_ok:
  "unvisited d seen < n \<Longrightarrow> get_wi d (wi_id w) = Some w \<Longrightarrow>
    parking_ok am d (wi_id w) seen (merge_parking n am d seen w) \<and>
    (snd (merge_parking n am d seen w) = None \<longrightarrow>
      own_parking am d w = None \<and> wi_id ` set (up_rows d w) \<subseteq> set (fst (merge_parking n am d seen w)))"
proof (induction n arbitrary: seen w)
  case (Suc n)
  show ?case
  proof (cases "own_parking am d w")
    case None
    let ?r = "foldl (park_upstream (merge_parking n am d) (wi_id w)) (seen, None) (up_rows d w)"
    have "parking_ok am d (wi_id w) seen ?r \<and> (snd ?r = None \<longrightarrow> wi_id ` set (up_rows d w) \<subseteq> set (fst ?r))"
    proof (rule fold_parking_ok)
      show row: "get_wi d (wi_id u) = Some u" if "u \<in> set (up_rows d w)" for u by (rule up_rows_row [OF that])
      show "(wi_id w, wi_id u) \<in> up_edges d" if "u \<in> set (up_rows d w)" for u using that up_edge [OF Suc.prems(2)] by simp
      fix sn u assume u: "u \<in> set (up_rows d w)" "set seen \<subseteq> set sn" "wi_id u \<notin> set sn"
      have "unvisited d (wi_id u # sn) < unvisited d sn" by (rule unvisited_less [OF row [OF u(1)] u(3)])
      also have "\<dots> \<le> unvisited d seen" by (rule unvisited_mono [OF u(2)])
      finally have "unvisited d (wi_id u # sn) < n" using Suc.prems(1) by linarith
      from Suc.IH [OF this row [OF u(1)]]
      show "parking_ok am d (wi_id u) (wi_id u # sn) (merge_parking n am d (wi_id u # sn) u) \<and>
        (snd (merge_parking n am d (wi_id u # sn) u) = None \<longrightarrow>
          own_parking am d u = None \<and> wi_id ` set (up_rows d u) \<subseteq> set (fst (merge_parking n am d (wi_id u # sn) u)))" .
    qed
    then show ?thesis using None by (simp add: merge_parking_Suc)
  next
    case (Some p)
    then show ?thesis using Suc.prems(2) by (auto simp: merge_parking_Suc parking_ok_def)
  qed
qed simp

lemma parking_exact:
  assumes "get_wi d (wi_id w) = Some w"
  shows "workItemMergeParking auto_merges d w \<noteq> None \<longleftrightarrow>
    (\<exists>x u. (wi_id w, x) \<in> (up_edges d)\<^sup>* \<and> get_wi d x = Some u \<and> own_parking auto_merges d u \<noteq> None)"
proof -
  have "unvisited d [wi_id w] \<le> card (wi_id ` set (db_wis d))" unfolding unvisited_def by (rule card_mono) auto
  also have "\<dots> \<le> length (db_wis d)" by (metis card_length length_map set_map)
  finally have "unvisited d [wi_id w] < Suc (length (db_wis d))" by simp
  define r where "r = merge_parking (Suc (length (db_wis d))) auto_merges d [wi_id w] w"
  have r: "parking_ok auto_merges d (wi_id w) [wi_id w] r"
    "snd r = None \<Longrightarrow> own_parking auto_merges d w = None \<and> wi_id ` set (up_rows d w) \<subseteq> set (fst r)"
    using merge_parking_ok [OF \<open>unvisited d [wi_id w] < _\<close> assms, of auto_merges] by (simp_all add: r_def)
  have park: "workItemMergeParking auto_merges d w = snd r" by (simp add: workItemMergeParking_def r_def)
  show ?thesis
  proof (cases "snd r")
    case None
    have closed: "(\<exists>u. get_wi d x = Some u \<and> own_parking auto_merges d u = None) \<and> (\<forall>y. (x, y) \<in> up_edges d \<longrightarrow> y \<in> set (fst r))"
      if "x \<in> set (fst r)" for x
    proof (cases "x = wi_id w")
      case True
      then show ?thesis using r(2) [OF None] up_edge [OF assms] assms by auto
    next
      case False
      then show ?thesis using that r(1) None by (simp add: parking_ok_def)
    qed
    have reach: "x \<in> set (fst r)" if "(wi_id w, x) \<in> (up_edges d)\<^sup>*" for x
      using that
    proof (induction rule: rtrancl_induct)
      case base
      then show ?case using r(1) by (simp add: parking_ok_def)
    next
      case (step y z)
      then show ?case using closed by blast
    qed
    show ?thesis unfolding park None using closed [OF reach] by fastforce
  next
    case (Some p)
    then show ?thesis unfolding park using r(1) by (auto simp: parking_ok_def)
  qed
qed


section \<open>The loaded order\<close>

lemma order_byId_sub: "set (order_byId es) \<subseteq> set es"
proof -
  have "set (foldl (\<lambda>m e. if oe_id e \<le> 0 \<or> oe_id e \<in> oe_id ` set m then m else m @ [e]) m es) \<subseteq> set m \<union> set es" for m
  proof (induction es arbitrary: m)
    case (Cons e es)
    from Cons [of "if oe_id e \<le> 0 \<or> oe_id e \<in> oe_id ` set m then m else m @ [e]"] show ?case by (auto split: if_splits)
  qed simp
  from this [of "[]"] show ?thesis by (simp add: order_byId_def)
qed

lemma parked_wis_iff: "i \<in> fst ` set (parked_wis am d) \<longleftrightarrow>
    (\<exists>w \<in> set (db_wis d). wi_id w = i \<and> wi_holds_locks w \<and> workItemMergeParking am d w \<noteq> None)"
proof
  assume "i \<in> fst ` set (parked_wis am d)"
  then obtain w p where "w \<in> set (db_wis d)" "wi_holds_locks w" "(i, p) \<in> set (case workItemMergeParking am d w of None \<Rightarrow> [] | Some p \<Rightarrow> [(wi_id w, p)])"
    by (auto simp: parked_wis_def)
  then show "\<exists>w \<in> set (db_wis d). wi_id w = i \<and> wi_holds_locks w \<and> workItemMergeParking am d w \<noteq> None"
    by (cases "workItemMergeParking am d w") auto
next
  assume "\<exists>w \<in> set (db_wis d). wi_id w = i \<and> wi_holds_locks w \<and> workItemMergeParking am d w \<noteq> None"
  then obtain w p where w: "w \<in> set (db_wis d)" "wi_id w = i" "wi_holds_locks w" "workItemMergeParking am d w = Some p" by auto
  then have "(i, p) \<in> set (parked_wis am d)" by (auto simp: parked_wis_def intro!: bexI [of _ w])
  then show "i \<in> fst ` set (parked_wis am d)" by force
qed

lemma loaded_entries: "e \<in> set (wo_byId (fst (loadWorkItemOrder am d locks runnable ts))) \<Longrightarrow>
    \<exists>w \<in> set (db_wis d). oe_id e = int (wi_id w) \<and> wi_holds_locks w \<and> workItemMergeParking am d w = None"
proof -
  let ?locks = "case locks of None \<Rightarrow> activeWiLocks d | Some ls \<Rightarrow> ls"
  let ?items = "filter (\<lambda>w. wi_id w \<notin> fst ` set (parked_wis am d)) (filter wi_holds_locks (db_wis d))"
  assume e: "e \<in> set (wo_byId (fst (loadWorkItemOrder am d locks runnable ts)))"
  have "wo_byId (fst (loadWorkItemOrder am d locks runnable ts)) = order_byId (map (wi_entry d ?locks runnable ts) ?items)"
    by (simp add: loadWorkItemOrder_def buildWorkItemOrder_def Let_def)
  with e have "e \<in> set (order_byId (map (wi_entry d ?locks runnable ts) ?items))" by (simp only:)
  then have "e \<in> set (map (wi_entry d ?locks runnable ts) ?items)" by (rule subsetD [OF order_byId_sub])
  then obtain w where w: "w \<in> set ?items" "e = wi_entry d ?locks runnable ts w" by auto
  have "oe_id e = int (wi_id w)" by (simp add: w(2) wi_entry_def Let_def)
  moreover have "w \<in> set (db_wis d)" "wi_holds_locks w" "wi_id w \<notin> fst ` set (parked_wis am d)" using w(1) by simp_all
  ultimately show ?thesis using parked_wis_iff [of "wi_id w" am d] by blast
qed


section \<open>Sibling paths\<close>

lemma js_add_set [simp]: "set (js_add x xs) = insert x (set xs)"
  by (auto simp: js_add_def)

lemma fold_js_add: "set (foldl (\<lambda>ow p. if P p then js_add p ow else ow) acc ps) = set acc \<union> {p \<in> set ps. P p}"
  by (induction ps arbitrary: acc) auto

lemma fold_siblings: "set (foldl (\<lambda>acc s. foldl (\<lambda>ow p. if P s p then js_add p ow else ow) acc ps) acc ss) =
    set acc \<union> {p \<in> set ps. \<exists>s \<in> set ss. P s p}"
  by (induction ss arbitrary: acc) (auto simp: fold_js_add)

text \<open>
  The two answers about the files of a job's siblings agree: a path counts as another job's
  exactly when an active lock or a placeholder of a sibling covers it or the owners reported for it
  are not empty.
\<close>

theorem sibling_paths_have_owners:
  "set (siblingJobScopePaths win rows d i paths) = set (siblingOwnedWorktreePaths win rows d i paths) \<union>
     {p. \<exists>os. (p, os) \<in> set (siblingJobScopeOwners win d i paths False) \<and> os \<noteq> []}"
proof (cases "get_job d i")
  case None
  then show ?thesis by (auto simp: siblingJobScopePaths_def siblingJobScopeOwners_def Let_def)
next
  case (Some j)
  show ?thesis
  proof (cases "jb_wi j = 0")
    case True
    then show ?thesis using Some by (auto simp: siblingJobScopePaths_def siblingJobScopeOwners_def Let_def)
  next
    case False
    define f where "f p = map jb_id (filter (\<lambda>s. scope_owns win s p) (live_siblings d (jb_wi j) i))" for p
    have "siblingJobScopeOwners win d i paths False = map (\<lambda>p. (p, f p)) (remdups (usable_inputs win paths))"
      using Some False by (simp add: siblingJobScopeOwners_def f_def live_siblings_def Let_def)
    then have "{p. \<exists>os. (p, os) \<in> set (siblingJobScopeOwners win d i paths False) \<and> os \<noteq> []} = {p \<in> set (usable_inputs win paths). f p \<noteq> []}"
      by auto
    also have "\<dots> = {p \<in> set (usable_inputs win paths). \<exists>s \<in> set (live_siblings d (jb_wi j) i). scope_owns win s p}"
      by (auto simp: f_def filter_empty_conv)
    finally have "{p. \<exists>os. (p, os) \<in> set (siblingJobScopeOwners win d i paths False) \<and> os \<noteq> []} =
        {p \<in> set (usable_inputs win paths). \<exists>s \<in> set (live_siblings d (jb_wi j) i). scope_owns win s p}" .
    then show ?thesis using Some False by (simp add: siblingJobScopePaths_def Let_def fold_siblings)
  qed
qed

section \<open>Examples\<close>

text \<open>The one unfinished job of work item 1 depends on an open recovery gate.\<close>

definition ex_gate_db :: qdb where
  "ex_gate_db = (ex_db [ex_job 1 1 ''queued'' [''a''], ex_job 2 1 ''waiting_on_human'' [], ex_job 3 2 ''queued'' [''a'']])
     \<lparr>db_deps := [\<lparr>dp_job = 1, dp_on = 2, dp_kind = ''hard''\<rparr>],
      db_gates := [\<lparr>gt_job = 2, gt_state = ''open'', gt_kind = ''dead_letter_recovery'', gt_action = [], gt_review_type = None,
        gt_json = True, gt_rejection = False, gt_original = 0\<rparr>]\<rparr>"

lemma operator_parking_is_exact_witness:
  "workItemOperatorParking ex_gate_db False (ex_wi 1) \<noteq> None \<and>
   (\<exists>g \<in> set (gate_ids ex_gate_db 1 False). (1, g) \<in> (set (hard_deps_of_wi ex_gate_db 1))\<^sup>*) \<and>
   workItemOperatorParking ex_gate_db False (ex_wi 2) = None"
proof -
  have p: "workItemOperatorParking ex_gate_db False (ex_wi 1) \<noteq> None" "workItemOperatorParking ex_gate_db False (ex_wi 2) = None" by code_simp+
  have "wi_id (ex_wi 1) = 1" "ex_job 1 1 ''queued'' [''a''] \<in> set (unfinished_jobs ex_gate_db 1)" "jb_id (ex_job 1 1 ''queued'' [''a'']) = 1"
    by (simp_all add: ex_wi_def ex_job_def unfinished_jobs_def ex_gate_db_def ex_db_def TERMINAL_JOB_STATUSES_def)
  then show ?thesis using operator_parking_is_exact [of ex_gate_db False "ex_wi 1"] p by fastforce
qed

text \<open>Work item 1 is complete and must merge after work item 2, whose merge failed.\<close>

definition ex_merge_failed_db :: qdb where
  "ex_merge_failed_db = (ex_db [])\<lparr>db_wis :=
     [(ex_wi 1)\<lparr>wi_status := ''complete'', wi_merge_state := ''pending_review'', wi_merge_deps := [ex_dep 2]\<rparr>,
      (ex_wi 2)\<lparr>wi_status := ''complete'', wi_merge_state := ''merge_failed''\<rparr>]\<rparr>"


text \<open>Work item 2 plans a file that work item 1 holds; work item 1 is not parked.\<close>

definition ex_order_db :: qdb where
  "ex_order_db = (ex_db [ex_job 1 1 ''running'' [''a''], ex_job 2 2 ''queued'' [''a'']])\<lparr>db_wi_locks :=
     [\<lparr>wl_wi = 1, wl_path = ''a'', wl_kind = ''file'', wl_source = Some 1, wl_token = None, wl_acquired_at = ''2024'', wl_released = None\<rparr>]\<rparr>"


end
