(* ===== verification/LaneWaits.thy ===== *)
theory LaneWaits
  imports WorkItemParking "HOL-Library.Char_ord" "HOL-Library.List_Lexorder" "HOL-Library.Product_Lexorder"
begin

text \<open>
  The table \<open>file_lane_waits\<close> of \<open>domains/queue/functions/file-locks.js\<close>: which queued job waits for
  which holder on which path (a lane). A poll records the conflicts it meets, a job's rows go when it
  leaves the queue, and the reconciliation rewrites the table from the conflicts that exist.

  The digest \<open>sha\<close> (SHA-256, in hexadecimal) is an argument. The state of a wait is given as its
  canonical JSON text (\<open>canonicalWaitState\<close> sorts the keys). Events and the row ids are left out; the
  operations of the theory FileLocks leave this table alone, and here the database is only read.
\<close>

section \<open>Lanes and descriptors\<close>

definition fileLaneId :: "(string \<Rightarrow> string) \<Rightarrow> bool \<Rightarrow> string \<Rightarrow> string \<Rightarrow> string option" where
  "fileLaneId sha win path kind =
     (let p = normalizeLockPath win path in
      if p = [] \<or> kind \<notin> {''file'', ''root''} then None
      else Some (''lane:sha256:'' @ sha (kind @ CHR 0x00 # p)))"

record wait_detail =
  wd_waiter_job :: nat
  wd_waiter_wi :: nat
  wd_holder_type :: string
  wd_holder_job :: "nat option"
  wd_holder_wi :: "nat option"
  wd_path :: string
  wd_kind :: string
  wd_lane :: "string option"
  wd_state :: "string option"

record wait_descriptor =
  ld_lane :: string
  ld_waiter_job :: nat
  ld_waiter_wi :: nat
  ld_holder_type :: string
  ld_holder_key :: string
  ld_holder_job :: "nat option"
  ld_holder_wi :: "nat option"
  ld_path :: string
  ld_kind :: string

text \<open>\<open>Number(id) || null\<close> and the holder's key.\<close>

definition nonzero :: "nat option \<Rightarrow> nat option" where
  "nonzero i = (if i = Some 0 then None else i)"

definition holder_key :: "string \<Rightarrow> nat option \<Rightarrow> nat option \<Rightarrow> string" where
  "holder_key ty hj hw = ty @ '':'' @ (case hj of Some i \<Rightarrow> show_nat i
     | None \<Rightarrow> (case hw of Some i \<Rightarrow> show_nat i | None \<Rightarrow> ''unknown''))"

text \<open>
  Normalizing a path a second time can make it unusable (\<open>''a/. /''\<close>); the lane id of the code is then
  \<open>null\<close> and the row cannot be inserted. The lane is empty here in that case.
\<close>

definition normalizedWaitDescriptor :: "(string \<Rightarrow> string) \<Rightarrow> bool \<Rightarrow> wait_detail \<Rightarrow> wait_descriptor option" where
  "normalizedWaitDescriptor sha win x =
     (let kind = (if wd_kind x = ''root'' then ''root'' else ''file'');
          p = normalizeLockPath win (wd_path x);
          hj = nonzero (wd_holder_job x); hw = nonzero (wd_holder_wi x)
      in if wd_waiter_job x = 0 \<or> wd_waiter_wi x = 0 then None
         else if wd_holder_type x \<notin> {''job'', ''work_item'', ''active_worker''} then None
         else if p = [] then None
         else Some \<lparr>ld_lane = (if wd_lane x \<in> {None, Some []} then (case fileLaneId sha win p kind of None \<Rightarrow> [] | Some l \<Rightarrow> l) else the (wd_lane x)),
           ld_waiter_job = wd_waiter_job x, ld_waiter_wi = wd_waiter_wi x, ld_holder_type = wd_holder_type x,
           ld_holder_key = holder_key (wd_holder_type x) hj hw, ld_holder_job = hj, ld_holder_wi = hw,
           ld_path = p, ld_kind = kind\<rparr>)"

text \<open>
  The job whose planned row met the order, when it is not the waiting job itself: the rows of the
  work item's entry come before the job's own.
\<close>

definition order_via :: "qdb \<Rightarrow> wi_order \<Rightarrow> job \<Rightarrow> lock_row \<Rightarrow> nat option" where
  "order_via d order j row =
     (let js = (if order_get order (int (jb_wi j)) = None then []
          else filter (\<lambda>x. \<not> js_unknown (getJobPathTouchScope x) \<and> row \<in> set (scopeToLockRows (getJobPathTouchScope x))) (planned_jobs d (jb_wi j)))
      in (case js of [] \<Rightarrow> None | x # _ \<Rightarrow> if jb_id x = jb_id j then None else Some (jb_id x)))"

definition order_wait_state :: "nat \<Rightarrow> nat option \<Rightarrow> string" where
  "order_wait_state up via = ''{\"reason\":\"work_item_order\",\"upstream_work_item_id\":'' @ show_nat up
     @ (case via of None \<Rightarrow> [] | Some i \<Rightarrow> '',\"via_job_id\":'' @ show_nat i) @ ''}''"

definition conflict_detail :: "qdb \<Rightarrow> wi_order \<Rightarrow> job \<Rightarrow> conflict \<Rightarrow> wait_detail" where
  "conflict_detail d order j c =
     (let row = (case c of OrderConflict up l r \<Rightarrow> l | WorkItemConflict v l \<Rightarrow> l | JobConflict v l \<Rightarrow> l);
          lock = (case c of OrderConflict up l r \<Rightarrow> r | WorkItemConflict v l \<Rightarrow> lv_row v | JobConflict v l \<Rightarrow> lv_row v)
      in \<lparr>wd_waiter_job = jb_id j, wd_waiter_wi = jb_wi j,
          wd_holder_type = (case c of JobConflict v l \<Rightarrow> ''job'' | _ \<Rightarrow> ''work_item''),
          wd_holder_job = (case c of OrderConflict up l r \<Rightarrow> None | WorkItemConflict v l \<Rightarrow> lv_job v | JobConflict v l \<Rightarrow> lv_job v),
          wd_holder_wi = Some (case c of OrderConflict up l r \<Rightarrow> nat (oe_id up) | WorkItemConflict v l \<Rightarrow> lv_wi v | JobConflict v l \<Rightarrow> lv_wi v),
          wd_path = (if lr_path row = [] then lr_path lock else lr_path row),
          wd_kind = (if lr_kind row \<noteq> [] then lr_kind row else if lr_kind lock \<noteq> [] then lr_kind lock else ''file''),
          wd_lane = None,
          wd_state = (case c of OrderConflict up l r \<Rightarrow> Some (order_wait_state (nat (oe_id up)) (order_via d order j l)) | _ \<Rightarrow> None)\<rparr>)"

text \<open>\<open>waitDescriptorForConflict\<close>: the descriptor and the state it carries.\<close>

definition waitDescriptorForConflict ::
  "(string \<Rightarrow> string) \<Rightarrow> bool \<Rightarrow> qdb \<Rightarrow> wi_order \<Rightarrow> job \<Rightarrow> conflict option \<Rightarrow> (wait_descriptor \<times> string option) option" where
  "waitDescriptorForConflict sha win d order j c = (case c of None \<Rightarrow> None
     | Some k \<Rightarrow> map_option (\<lambda>x. (x, wd_state (conflict_detail d order j k))) (normalizedWaitDescriptor sha win (conflict_detail d order j k)))"

text \<open>A descriptor handed to \<open>recordFileLaneWait\<close> as its detail.\<close>

definition descriptor_detail :: "wait_descriptor \<times> string option \<Rightarrow> wait_detail" where
  "descriptor_detail xs = (case xs of (x, st) \<Rightarrow>
     \<lparr>wd_waiter_job = ld_waiter_job x, wd_waiter_wi = ld_waiter_wi x, wd_holder_type = ld_holder_type x,
      wd_holder_job = ld_holder_job x, wd_holder_wi = ld_holder_wi x, wd_path = ld_path x, wd_kind = ld_kind x,
      wd_lane = Some (ld_lane x), wd_state = st\<rparr>)"

section \<open>The state of a wait\<close>

text \<open>\<open>JSON.stringify\<close> of a string.\<close>

definition hex_digit :: "nat \<Rightarrow> char" where
  "hex_digit n = (if n < 10 then char_of (48 + n) else char_of (87 + n))"

definition json_char :: "char \<Rightarrow> string" where
  "json_char c = (let n = (of_char c :: nat) in
     if n = 34 then [CHR 0x5C, c] else if n = 92 then [c, c]
     else if n = 8 then [CHR 0x5C, CHR ''b''] else if n = 9 then [CHR 0x5C, CHR ''t'']
     else if n = 10 then [CHR 0x5C, CHR ''n''] else if n = 12 then [CHR 0x5C, CHR ''f'']
     else if n = 13 then [CHR 0x5C, CHR ''r'']
     else if n < 32 then CHR 0x5C # ''u00'' @ [hex_digit (n div 16), hex_digit (n mod 16)] else [c])"

definition json_string :: "string \<Rightarrow> string" where
  "json_string s = CHR 0x22 # concat (map json_char s) @ [CHR 0x22]"

definition serialized_wait :: "wait_descriptor \<Rightarrow> string option \<Rightarrow> string" where
  "serialized_wait x st =
     ''{\"holder_key\":'' @ json_string (ld_holder_key x) @ '',\"holder_type\":'' @ json_string (ld_holder_type x)
     @ '',\"lock_kind\":'' @ json_string (ld_kind x) @ '',\"path\":'' @ json_string (ld_path x)
     @ (case st of None \<Rightarrow> [] | Some s \<Rightarrow> '',\"wait_state\":'' @ s)
     @ '',\"waiter_job_id\":'' @ show_nat (ld_waiter_job x) @ '',\"waiter_work_item_id\":'' @ show_nat (ld_waiter_wi x) @ ''}''"

definition computed_wait_state :: "(string \<Rightarrow> string) \<Rightarrow> string option \<Rightarrow> wait_descriptor \<Rightarrow> string \<times> string" where
  "computed_wait_state sha st x =
     (let s = serialized_wait x st in
      (sha s, if length s \<le> 16000 then s
        else ''{\"truncated\":true,\"state_sha256\":'' @ json_string (sha s) @ '',\"preview\":'' @ json_string (take 15000 s) @ ''}''))"

text \<open>The fingerprint and the detail; a generic record leaves a state that is already there.\<close>

definition waitStateForDetail :: "(string \<Rightarrow> string) \<Rightarrow> string option \<Rightarrow> wait_descriptor \<Rightarrow> lane_wait option \<Rightarrow> string \<times> string" where
  "waitStateForDetail sha st x existing =
     (case existing of
        Some w \<Rightarrow> if st = None \<and> lw_fingerprint w \<noteq> [] then (lw_fingerprint w, lw_detail w) else computed_wait_state sha st x
      | None \<Rightarrow> computed_wait_state sha st x)"

section \<open>The operations\<close>

type_synonym lane_key = "nat \<times> string \<times> string"

definition lane_key :: "lane_wait \<Rightarrow> lane_key" where
  "lane_key w = (lw_waiter_job w, lw_lane w, lw_holder_key w)"

definition descriptor_key :: "wait_descriptor \<Rightarrow> lane_key" where
  "descriptor_key x = (ld_waiter_job x, ld_lane x, ld_holder_key x)"

datatype transition = Created | Changed | Unchanged

definition waiter_queued :: "qdb \<Rightarrow> wait_descriptor \<Rightarrow> bool" where
  "waiter_queued d x = (case find (\<lambda>j. jb_id j = ld_waiter_job x \<and> jb_wi j = ld_waiter_wi x) (db_jobs d) of
     None \<Rightarrow> False | Some j \<Rightarrow> jb_status j = ''queued'')"

text \<open>The insertion, which updates the row of the same key.\<close>

definition new_lane_wait :: "wait_descriptor \<Rightarrow> string \<times> string \<Rightarrow> string \<Rightarrow> lane_wait" where
  "new_lane_wait x st ts = \<lparr>lw_lane = ld_lane x, lw_waiter_job = ld_waiter_job x, lw_waiter_wi = ld_waiter_wi x,
     lw_holder_type = ld_holder_type x, lw_holder_key = ld_holder_key x, lw_holder_job = ld_holder_job x,
     lw_holder_wi = ld_holder_wi x, lw_path = ld_path x, lw_kind = ld_kind x, lw_fingerprint = fst st,
     lw_detail = snd st, lw_created_at = ts, lw_updated_at = ts\<rparr>"

definition update_lane_wait :: "wait_descriptor \<Rightarrow> string \<times> string \<Rightarrow> string \<Rightarrow> lane_wait \<Rightarrow> lane_wait" where
  "update_lane_wait x st ts w = w\<lparr>lw_holder_job := ld_holder_job x, lw_holder_wi := ld_holder_wi x, lw_path := ld_path x,
     lw_kind := ld_kind x, lw_fingerprint := fst st, lw_detail := snd st, lw_updated_at := ts\<rparr>"

definition recordFileLaneWait ::
  "(string \<Rightarrow> string) \<Rightarrow> bool \<Rightarrow> qdb \<Rightarrow> string \<Rightarrow> wait_detail \<Rightarrow> lane_wait list \<Rightarrow> lane_wait list \<times> (lane_wait \<times> transition) option" where
  "recordFileLaneWait sha win d ts detail lanes =
     (case normalizedWaitDescriptor sha win detail of None \<Rightarrow> (lanes, None)
      | Some x \<Rightarrow>
        if \<not> waiter_queued d x then (lanes, None)
        else
          let existing = find (\<lambda>w. lane_key w = descriptor_key x) lanes;
              st = waitStateForDetail sha (wd_state detail) x existing
          in (case existing of
              None \<Rightarrow> (lanes @ [new_lane_wait x st ts], Some (new_lane_wait x st ts, Created))
            | Some w \<Rightarrow>
              if lw_fingerprint w = fst st then (lanes, Some (w, Unchanged))
              else (map (\<lambda>v. if lane_key v = descriptor_key x then update_lane_wait x st ts v else v) lanes,
                    Some (update_lane_wait x st ts w, Changed))))"

definition recordFileLaneConflict ::
  "(string \<Rightarrow> string) \<Rightarrow> bool \<Rightarrow> qdb \<Rightarrow> wi_order \<Rightarrow> string \<Rightarrow> job \<Rightarrow> conflict option \<Rightarrow> lane_wait list \<Rightarrow> lane_wait list" where
  "recordFileLaneConflict sha win d order ts j c lanes =
     (case waitDescriptorForConflict sha win d order j c of None \<Rightarrow> lanes
      | Some x \<Rightarrow> fst (recordFileLaneWait sha win d ts (descriptor_detail x) lanes))"

definition clearFileLaneWaitsForJob :: "nat \<Rightarrow> lane_wait list \<Rightarrow> lane_wait list \<times> nat" where
  "clearFileLaneWaitsForJob i lanes =
     (if i = 0 then (lanes, 0)
      else (filter (\<lambda>w. lw_waiter_job w \<noteq> i) lanes, length (filter (\<lambda>w. lw_waiter_job w = i) lanes)))"

definition listFileLaneWaits :: "nat option \<Rightarrow> lane_wait list \<Rightarrow> lane_wait list" where
  "listFileLaneWaits wi lanes = sort_key (\<lambda>w. (lw_lane w, lw_created_at w, lw_waiter_job w))
     (case wi of None \<Rightarrow> lanes | Some i \<Rightarrow> filter (\<lambda>w. lw_waiter_wi w = i \<or> lw_holder_wi w = Some i) lanes)"

text \<open>
  The waits the reconciliation wants: one for each queued locking job with a conflict. A job has at
  most one, so that the \<open>Map\<close> of the code is the list of its values.
\<close>

definition desired_waits ::
  "(string \<Rightarrow> string) \<Rightarrow> bool \<Rightarrow> (work_item \<Rightarrow> bool) \<Rightarrow> string \<Rightarrow> qdb \<Rightarrow> (wait_descriptor \<times> string option) list" where
  "desired_waits sha win auto_merges ts d =
     (let order = fst (loadWorkItemOrder auto_merges d (Some (activeWiLocks d)) [] ts)
      in List.map_filter (\<lambda>j. waitDescriptorForConflict sha win d order j
             (findOrdinaryWriteLockConflict d j (getJobWriteScope j) (Some order) True))
           (filter (\<lambda>j. jb_status j = ''queued'' \<and> jb_type j \<in> set QUEUE_LOCKING_JOB_TYPES) (db_jobs d)))"

definition reconcileFileLaneWaits ::
  "(string \<Rightarrow> string) \<Rightarrow> bool \<Rightarrow> (work_item \<Rightarrow> bool) \<Rightarrow> string \<Rightarrow> qdb \<Rightarrow> lane_wait list \<Rightarrow> lane_wait list \<times> nat \<times> nat" where
  "reconcileFileLaneWaits sha win auto_merges ts d lanes =
     (let desired = desired_waits sha win auto_merges ts d;
          recorded = foldl (\<lambda>ls x. fst (recordFileLaneWait sha win d ts (descriptor_detail x) ls)) lanes desired;
          keys = map (descriptor_key \<circ> fst) desired
      in (filter (\<lambda>w. lane_key w \<in> set keys) recorded, length desired,
          length (filter (\<lambda>w. lane_key w \<notin> set keys) recorded)))"

section \<open>One row per wait\<close>

lemma update_lane_wait_key [simp]: "lane_key (update_lane_wait x st ts w) = lane_key w"
  by (simp add: lane_key_def update_lane_wait_def)

lemma new_lane_wait_key [simp]: "lane_key (new_lane_wait x st ts) = descriptor_key x"
  by (simp add: lane_key_def descriptor_key_def new_lane_wait_def)

lemma record_keys:
  "map lane_key (fst (recordFileLaneWait sha win d ts detail lanes)) =
     (case normalizedWaitDescriptor sha win detail of None \<Rightarrow> map lane_key lanes
      | Some x \<Rightarrow> if waiter_queued d x \<and> descriptor_key x \<notin> set (map lane_key lanes) then map lane_key lanes @ [descriptor_key x]
                  else map lane_key lanes)"
proof (cases "normalizedWaitDescriptor sha win detail")
  case (Some x)
  show ?thesis
  proof (cases "find (\<lambda>w. lane_key w = descriptor_key x) lanes")
    case None
    then have "descriptor_key x \<notin> set (map lane_key lanes)" by (auto simp: find_None_iff)
    then show ?thesis using Some None by (simp add: recordFileLaneWait_def Let_def)
  next
    case hit: (Some w)
    then have "descriptor_key x \<in> set (map lane_key lanes)" by (auto simp: find_Some_iff) (metis image_eqI nth_mem)
    moreover have "map lane_key (map (\<lambda>v. if lane_key v = descriptor_key x then update_lane_wait x st ts v else v) lanes) = map lane_key lanes" for st
      by (simp add: comp_def if_distrib cong: if_cong)
    ultimately show ?thesis using Some hit by (simp add: recordFileLaneWait_def Let_def)
  qed
qed (simp add: recordFileLaneWait_def)

datatype lane_event =
    Lane_record qdb string wait_detail
  | Lane_clear nat
  | Lane_reconcile "work_item \<Rightarrow> bool" qdb string

fun lane_step :: "(string \<Rightarrow> string) \<Rightarrow> bool \<Rightarrow> lane_event \<Rightarrow> lane_wait list \<Rightarrow> lane_wait list" where
  "lane_step sha win (Lane_record d ts detail) lanes = fst (recordFileLaneWait sha win d ts detail lanes)"
| "lane_step sha win (Lane_clear i) lanes = fst (clearFileLaneWaitsForJob i lanes)"
| "lane_step sha win (Lane_reconcile auto_merges d ts) lanes = fst (reconcileFileLaneWaits sha win auto_merges ts d lanes)"

lemma record_distinct: "distinct (map lane_key lanes) \<Longrightarrow> distinct (map lane_key (fst (recordFileLaneWait sha win d ts detail lanes)))"
  unfolding record_keys by (auto split: option.split)

lemma fold_record_distinct: "distinct (map lane_key lanes) \<Longrightarrow>
    distinct (map lane_key (foldl (\<lambda>ls x. fst (recordFileLaneWait sha win d ts (f x) ls)) lanes xs))"
  by (induction xs arbitrary: lanes) (simp_all add: record_distinct)

interpretation lane_table: step_system "lane_step sha win" "\<lambda>lanes. distinct (map lane_key lanes)" for sha win
proof unfold_locales
  show "distinct (map lane_key (lane_step sha win e lanes))" if d: "distinct (map lane_key lanes)" for e lanes
  proof (cases e)
    case (Lane_record db ts detail)
    then show ?thesis using record_distinct [OF d] by simp
  next
    case (Lane_clear i)
    then show ?thesis using d by (simp add: clearFileLaneWaitsForJob_def distinct_map_filter)
  next
    case (Lane_reconcile am db ts)
    then show ?thesis unfolding Lane_reconcile lane_step.simps reconcileFileLaneWaits_def Let_def fst_conv
      by (intro distinct_map_filter fold_record_distinct d)
  qed
qed

section \<open>The reconciliation\<close>

text \<open>A descriptor that is recorded is normalized again, and keeps its key.\<close>

lemma descriptor_again:
  assumes "normalizedWaitDescriptor sha win detail = Some x" "normalizeLockPath win (ld_path x) \<noteq> []"
  shows "\<exists>y. normalizedWaitDescriptor sha win (descriptor_detail (x, st)) = Some y \<and> descriptor_key y = descriptor_key x \<and>
    ld_waiter_job y = ld_waiter_job x \<and> ld_waiter_wi y = ld_waiter_wi x"
proof -
  let ?kind = "if wd_kind detail = ''root'' then ''root'' else ''file''"
  have nz: "nonzero (nonzero i) = nonzero i" for i by (simp add: nonzero_def)
  have ok: "wd_waiter_job detail \<noteq> 0" "wd_waiter_wi detail \<noteq> 0" "wd_holder_type detail \<in> {''job'', ''work_item'', ''active_worker''}"
    "normalizeLockPath win (wd_path detail) \<noteq> []"
    using assms(1) by (auto simp: normalizedWaitDescriptor_def Let_def split: if_splits)
  then have x: "ld_waiter_job x = wd_waiter_job detail" "ld_waiter_wi x = wd_waiter_wi detail" "ld_holder_type x = wd_holder_type detail"
    "ld_holder_job x = nonzero (wd_holder_job detail)" "ld_holder_wi x = nonzero (wd_holder_wi detail)"
    "ld_holder_key x = holder_key (wd_holder_type detail) (nonzero (wd_holder_job detail)) (nonzero (wd_holder_wi detail))"
    "ld_lane x = (if wd_lane detail \<in> {None, Some []} then (case fileLaneId sha win (normalizeLockPath win (wd_path detail)) ?kind of None \<Rightarrow> [] | Some l \<Rightarrow> l) else the (wd_lane detail))"
    "ld_path x = normalizeLockPath win (wd_path detail)"
    using assms(1) by (auto simp: normalizedWaitDescriptor_def Let_def)
  have lane: "ld_lane x \<noteq> []"
    using assms(2) unfolding x(7,8) by (auto simp: fileLaneId_def Let_def)
  show ?thesis using ok assms(2) lane
    by (simp add: normalizedWaitDescriptor_def descriptor_detail_def descriptor_key_def Let_def nz x(1-6))
qed

text \<open>The keys after a series of records.\<close>

lemma fold_record_keys:
  assumes "\<And>x. x \<in> set xs \<Longrightarrow> \<exists>y. normalizedWaitDescriptor sha win (f x) = Some y \<and> descriptor_key y = k x \<and> waiter_queued d y"
  shows "set (map lane_key (foldl (\<lambda>ls x. fst (recordFileLaneWait sha win d ts (f x) ls)) lanes xs)) = set (map lane_key lanes) \<union> k ` set xs"
  using assms
proof (induction xs arbitrary: lanes)
  case (Cons x xs)
  obtain y where y: "normalizedWaitDescriptor sha win (f x) = Some y" "descriptor_key y = k x" "waiter_queued d y"
    using Cons.prems [of x] by auto
  have step: "set (map lane_key (fst (recordFileLaneWait sha win d ts (f x) lanes))) = insert (k x) (set (map lane_key lanes))"
    unfolding record_keys y(1) using y(2,3) by auto
  have "set (map lane_key (foldl (\<lambda>ls x. fst (recordFileLaneWait sha win d ts (f x) ls)) (fst (recordFileLaneWait sha win d ts (f x) lanes)) xs)) =
      set (map lane_key (fst (recordFileLaneWait sha win d ts (f x) lanes))) \<union> k ` set xs"
    by (rule Cons.IH) (rule Cons.prems, simp)
  then show ?case unfolding step by simp
qed simp

lemma desired_wait:
  assumes "x \<in> set (desired_waits sha win am ts d)"
  shows "\<exists>j detail. j \<in> set (db_jobs d) \<and> jb_status j = ''queued'' \<and> jb_type j \<in> set QUEUE_LOCKING_JOB_TYPES \<and>
    normalizedWaitDescriptor sha win detail = Some (fst x) \<and> wd_waiter_job detail = jb_id j \<and> wd_waiter_wi detail = jb_wi j \<and>
    findOrdinaryWriteLockConflict d j (getJobWriteScope j)
      (Some (fst (loadWorkItemOrder am d (Some (activeWiLocks d)) [] ts))) True \<noteq> None"
proof -
  let ?o = "fst (loadWorkItemOrder am d (Some (activeWiLocks d)) [] ts)"
  let ?f = "\<lambda>j. waitDescriptorForConflict sha win d ?o j (findOrdinaryWriteLockConflict d j (getJobWriteScope j) (Some ?o) True)"
  obtain j where j: "j \<in> set (db_jobs d)" "jb_status j = ''queued''" "jb_type j \<in> set QUEUE_LOCKING_JOB_TYPES" "?f j = Some x"
    using assms by (auto simp: desired_waits_def Let_def List.map_filter_def)
  from j(4) obtain c where c: "findOrdinaryWriteLockConflict d j (getJobWriteScope j) (Some ?o) True = Some c"
      "normalizedWaitDescriptor sha win (conflict_detail d ?o j c) = Some (fst x)"
    by (auto simp: waitDescriptorForConflict_def split: option.splits)
  have "wd_waiter_job (conflict_detail d ?o j c) = jb_id j" "wd_waiter_wi (conflict_detail d ?o j c) = jb_wi j"
    by (simp_all add: conflict_detail_def Let_def)
  then show ?thesis using j c by blast
qed

lemma descriptor_waiter: "normalizedWaitDescriptor sha win detail = Some x \<Longrightarrow> ld_waiter_job x = wd_waiter_job detail \<and> ld_waiter_wi x = wd_waiter_wi detail"
  by (auto simp: normalizedWaitDescriptor_def Let_def split: if_splits)

lemma find_job: "j \<in> set js \<Longrightarrow> distinct (map jb_id js) \<Longrightarrow> find (\<lambda>x. jb_id x = jb_id j \<and> jb_wi x = jb_wi j) js = Some j"
  by (induction js) auto

lemma map_filter_distinct:
  assumes "\<And>j x. f j = Some x \<Longrightarrow> w x = jb_id j" "distinct (map jb_id js)"
  shows "distinct (map w (List.map_filter f js)) \<and> w ` set (List.map_filter f js) \<subseteq> jb_id ` set js"
  using assms(2)
proof (induction js)
  case (Cons j js)
  then have ih: "distinct (map w (List.map_filter f js))" "w ` set (List.map_filter f js) \<subseteq> jb_id ` set js" "jb_id j \<notin> jb_id ` set js"
    by simp_all
  show ?case
  proof (cases "f j")
    case None
    then show ?thesis using ih by (auto simp: List.map_filter_simps)
  next
    case (Some x)
    then have "w x \<notin> w ` set (List.map_filter f js)" using ih(2,3) assms(1) by auto
    then show ?thesis using ih Some assms(1) [OF Some] by (auto simp: List.map_filter_simps)
  qed
qed (simp add: List.map_filter_simps)

lemma desired_distinct:
  assumes "distinct (map jb_id (db_jobs d))"
  shows "distinct (map (descriptor_key \<circ> fst) (desired_waits sha win am ts d))"
proof -
  let ?o = "fst (loadWorkItemOrder am d (Some (activeWiLocks d)) [] ts)"
  let ?f = "\<lambda>j. waitDescriptorForConflict sha win d ?o j (findOrdinaryWriteLockConflict d j (getJobWriteScope j) (Some ?o) True)"
  let ?js = "filter (\<lambda>j. jb_status j = ''queued'' \<and> jb_type j \<in> set QUEUE_LOCKING_JOB_TYPES) (db_jobs d)"
  have w: "ld_waiter_job (fst x) = jb_id j" if f: "?f j = Some x" for j x
  proof -
    obtain c where "normalizedWaitDescriptor sha win (conflict_detail d ?o j c) = Some (fst x)"
      using f by (auto simp: waitDescriptorForConflict_def split: option.splits)
    from descriptor_waiter [OF this] show ?thesis by (simp add: conflict_detail_def Let_def)
  qed
  have "distinct (map jb_id ?js)" by (rule distinct_map_filter [OF assms])
  with w have "distinct (map (\<lambda>x. ld_waiter_job (fst x)) (List.map_filter ?f ?js))" using map_filter_distinct [of ?f "\<lambda>x. ld_waiter_job (fst x)" ?js] by blast
  moreover have "map (\<lambda>x. ld_waiter_job (fst x)) xs = map fst (map (descriptor_key \<circ> fst) xs)" for xs :: "(wait_descriptor \<times> string option) list"
    by (simp add: descriptor_key_def)
  ultimately have "distinct (map fst (map (descriptor_key \<circ> fst) (List.map_filter ?f ?js)))" by metis
  then show ?thesis unfolding desired_waits_def Let_def by (simp only: distinct_map)
qed

text \<open>A wait that the pass wants is recorded under its own key, for a waiter that is still queued.\<close>

lemma desired_recorded:
  assumes "distinct (map jb_id (db_jobs d))" and x: "x \<in> set (desired_waits sha win auto_merges ts d)"
    and paths: "\<And>x. x \<in> set (desired_waits sha win auto_merges ts d) \<Longrightarrow> normalizeLockPath win (ld_path (fst x)) \<noteq> []"
  shows "\<exists>y. normalizedWaitDescriptor sha win (descriptor_detail x) = Some y \<and>
    descriptor_key y = (descriptor_key \<circ> fst) x \<and> waiter_queued d y"
proof -
  obtain j detail where j: "j \<in> set (db_jobs d)" "jb_status j = ''queued''" "normalizedWaitDescriptor sha win detail = Some (fst x)"
      "wd_waiter_job detail = jb_id j" "wd_waiter_wi detail = jb_wi j"
    using desired_wait [OF x] by blast
  obtain y where y: "normalizedWaitDescriptor sha win (descriptor_detail x) = Some y" "descriptor_key y = descriptor_key (fst x)"
      "ld_waiter_job y = jb_id j" "ld_waiter_wi y = jb_wi j"
    using descriptor_again [OF j(3) paths [OF x], of "snd x"] descriptor_waiter [OF j(3)] j(4,5) by auto
  have "waiter_queued d y"
    unfolding waiter_queued_def y(3,4) using find_job [OF j(1) assms(1)] j(2) by simp
  then show ?thesis using y by auto
qed

text \<open>The waiter of a row under the key of a wanted wait is a queued job that conflicts now.\<close>

lemma desired_conflict:
  assumes "distinct (map jb_id (db_jobs d))" and x: "x \<in> set (desired_waits sha win auto_merges ts d)"
    and key: "lane_key w = descriptor_key (fst x)"
  shows "\<exists>j. get_job d (lw_waiter_job w) = Some j \<and> jb_status j = ''queued'' \<and>
       findOrdinaryWriteLockConflict d j (getJobWriteScope j)
         (Some (fst (loadWorkItemOrder auto_merges d (Some (activeWiLocks d)) [] ts))) True \<noteq> None"
proof -
  obtain j detail where j: "j \<in> set (db_jobs d)" "jb_status j = ''queued''" "normalizedWaitDescriptor sha win detail = Some (fst x)"
      "wd_waiter_job detail = jb_id j" "findOrdinaryWriteLockConflict d j (getJobWriteScope j)
        (Some (fst (loadWorkItemOrder auto_merges d (Some (activeWiLocks d)) [] ts))) True \<noteq> None"
    using desired_wait [OF x] by blast
  have "lw_waiter_job w = jb_id j" using key descriptor_waiter [OF j(3)] j(4) by (simp add: lane_key_def descriptor_key_def)
  then show ?thesis using get_job_distinct [OF assms(1) j(1)] j(2,5) by auto
qed


text \<open>
  A generic record of a wait never overwrites the richer state that a special case stored for the
  same wait, so that polling does not make it flap: the table stays as it is.
\<close>

theorem generic_record_keeps_the_state:
  assumes "normalizedWaitDescriptor sha win detail = Some x" and "wd_state detail = None"
    and "w \<in> set lanes" and "lane_key w = descriptor_key x" and "lw_fingerprint w \<noteq> []"
    and "distinct (map lane_key lanes)"
  shows "fst (recordFileLaneWait sha win d ts detail lanes) = lanes"
proof -
  have "find (\<lambda>v. lane_key v = lane_key w) lanes = Some w" using assms(3,6) by (induction lanes) auto
  then show ?thesis using assms(1,2,4,5) by (simp add: recordFileLaneWait_def waitStateForDetail_def Let_def)
qed

section \<open>Examples\<close>

definition ex_sha :: "string \<Rightarrow> string" where
  "ex_sha s = show_nat (length s)"

text \<open>Job 2 of the example of the work-item order waits; a stale row of another job goes.\<close>

definition ex_lane_events :: "lane_event list" where
  "ex_lane_events = [Lane_record (ex_order_db\<lparr>db_jobs := [ex_job 9 1 ''queued'' [''b'']]\<rparr>) ''2024''
     \<lparr>wd_waiter_job = 9, wd_waiter_wi = 1, wd_holder_type = ''work_item'', wd_holder_job = None, wd_holder_wi = Some 2,
      wd_path = ''b'', wd_kind = ''file'', wd_lane = None, wd_state = None\<rparr>]"

definition ex_reconciled :: "lane_wait list \<times> nat \<times> nat" where
  "ex_reconciled = reconcileFileLaneWaits ex_sha False (\<lambda>_. True) ''2025'' ex_order_db (fold (lane_step ex_sha False) ex_lane_events [])"

lemma ex_desired: "list_all (\<lambda>x. normalizeLockPath False (ld_path (fst x)) \<noteq> []) (desired_waits ex_sha False (\<lambda>_. True) ''2025'' ex_order_db)"
  by code_simp


lemma generic_record_keeps_the_state_witness:
  "\<exists>lanes detail. length lanes = 1 \<and> wd_state detail = None \<and>
     fst (recordFileLaneWait ex_sha False ex_order_db ''2026'' detail lanes) = lanes \<and> lw_fingerprint (hd lanes) = ''rich''"
proof -
  define detail where "detail = \<lparr>wd_waiter_job = 2, wd_waiter_wi = 2, wd_holder_type = ''work_item'', wd_holder_job = None,
    wd_holder_wi = Some 1, wd_path = ''a'', wd_kind = ''file'', wd_lane = None, wd_state = None\<rparr>"
  define x where "x = the (normalizedWaitDescriptor ex_sha False detail)"
  define w where "w = new_lane_wait x (''rich'', []) ''2025''"
  have "normalizedWaitDescriptor ex_sha False detail \<noteq> None" unfolding detail_def by code_simp
  then have x: "normalizedWaitDescriptor ex_sha False detail = Some x" by (auto simp: x_def)
  have k: "lane_key w = descriptor_key x" and fp: "lw_fingerprint w = ''rich''" by (simp add: w_def) (simp add: w_def new_lane_wait_def)
  have ne: "lw_fingerprint w \<noteq> []" unfolding fp by simp
  have st: "wd_state detail = None" by (simp add: detail_def)
  have "fst (recordFileLaneWait ex_sha False ex_order_db ''2026'' detail [w]) = [w]"
    by (rule generic_record_keeps_the_state [OF x st _ k ne]) simp_all
  then show ?thesis using fp st by (intro exI [of _ "[w]"] exI [of _ detail]) simp
qed

end
