(* ===== verification/Tables.thy ===== *)
theory Tables
  imports Prelude
begin

text \<open>
  Tables that operations change row by row and append to. What an operation keeps of each row is a reflexive and
  transitive relation (locale \<open>row_keeping\<close>); a table is kept when every row stays at its place, up to that relation,
  and rows are only added behind it.
\<close>

definition rows_kept :: "('a \<Rightarrow> 'a \<Rightarrow> bool) \<Rightarrow> 'a list \<Rightarrow> 'a list \<Rightarrow> bool" where
  "rows_kept R xs ys \<longleftrightarrow> list_all2 R xs (take (length xs) ys)"

lemma rows_keptD:
  assumes "rows_kept R xs ys"
  shows "length xs \<le> length ys" and "i < length xs \<Longrightarrow> R (xs ! i) (ys ! i)"
proof -
  show "length xs \<le> length ys" using list_all2_lengthD [OF assms [unfolded rows_kept_def]] by simp
  show "i < length xs \<Longrightarrow> R (xs ! i) (ys ! i)"
    using list_all2_nthD [OF assms [unfolded rows_kept_def], of i] by simp
qed

lemma rows_keptI:
  assumes "length xs \<le> length ys" and "\<And>i. i < length xs \<Longrightarrow> R (xs ! i) (ys ! i)"
  shows "rows_kept R xs ys"
  unfolding rows_kept_def using assms by (auto simp: list_all2_conv_all_nth)

lemma rows_kept_map: "(\<And>x. x \<in> set xs \<Longrightarrow> R x (f x)) \<Longrightarrow> rows_kept R xs (map f xs)"
  by (rule rows_keptI) simp_all

lemma rows_kept_row:
  assumes "rows_kept R xs ys" "x \<in> set xs"
  shows "\<exists>y \<in> set ys. R x y"
proof -
  obtain i where i: "i < length xs" "x = xs ! i" using assms(2) by (auto simp: in_set_conv_nth)
  then show ?thesis using rows_keptD [OF assms(1)] nth_mem [of i ys] by fastforce
qed

locale row_keeping =
  fixes keeps :: "'a \<Rightarrow> 'a \<Rightarrow> bool"
  assumes keeps_refl: "keeps x x" and keeps_trans: "keeps x y \<Longrightarrow> keeps y z \<Longrightarrow> keeps x z"
begin

lemma kept_append: "rows_kept keeps xs (xs @ ys)"
  by (rule rows_keptI) (simp_all add: nth_append keeps_refl)

lemma kept_refl: "rows_kept keeps xs xs"
  using kept_append [of xs "[]"] by simp

lemma kept_trans:
  assumes ab: "rows_kept keeps a b" and bc: "rows_kept keeps b c"
  shows "rows_kept keeps a c"
proof (rule rows_keptI)
  show "length a \<le> length c" using rows_keptD(1) [OF ab] rows_keptD(1) [OF bc] by simp
  show "keeps (a ! i) (c ! i)" if i: "i < length a" for i
    using keeps_trans [OF rows_keptD(2) [OF ab i] rows_keptD(2) [OF bc]] i rows_keptD(1) [OF ab] by simp
qed

end

text \<open>A relation on states that every step of a loop satisfies, the loop satisfies.\<close>

lemma fold_related:
  assumes "\<And>s. R s s" and "\<And>a b c. R a b \<Longrightarrow> R b c \<Longrightarrow> R a c" and "\<And>x s. R s (F x s)"
  shows "R s (fold F xs s)"
  using assms by (induction xs arbitrary: s) (simp, metis fold_simps(2))

end
