(* ===== verification/AdmissionBudget.thy ===== *)
theory AdmissionBudget
  imports Tables Complex_Main "HOL-Library.List_Lexorder" "HOL-Library.Char_ord"
begin

text \<open>
  \<open>domains/queue/functions/admission-budget.js\<close>: the spend and wall-time thresholds of a work item.
  A provider call reserves an estimate before it is dispatched and settles with its cost
  afterwards; a call whose cost is not known stays on the books as unknown, and pauses a budget
  that has a spend threshold. Dollars are rational numbers: the rounding of floating-point sums is not
  modelled, and infinite costs do not occur in the tables. Whether a process is alive
  (\<open>process.kill(pid, 0)\<close>), the clock, the process id and the random id are arguments. An error thrown
  inside a transaction rolls it back.
\<close>

section \<open>Tables\<close>

definition B_RESERVED :: string where "B_RESERVED = ''reserved''"
definition B_SETTLED :: string where "B_SETTLED = ''settled''"
definition B_UNKNOWN :: string where "B_UNKNOWN = ''unknown''"

definition R_SPEND :: string where "R_SPEND = ''spend_threshold''"
definition R_TIME :: string where "R_TIME = ''time_threshold''"
definition R_UNKNOWN :: string where "R_UNKNOWN = ''unknown_cost''"
definition R_OPERATOR :: string where "R_OPERATOR = ''operator_pause''"

lemmas budget_words = B_RESERVED_def B_SETTLED_def B_UNKNOWN_def R_SPEND_def R_TIME_def R_UNKNOWN_def R_OPERATOR_def

text \<open>The columns of \<open>agent_calls\<close> that are read; the dates as \<open>Date.parse\<close> reads them.\<close>

record agent_call =
  ac_id :: nat
  ac_wi :: nat
  ac_job :: "nat option"
  ac_attempt :: "nat option"
  ac_status :: string
  ac_precision :: "string option"
  ac_cost :: "rat option"
  ac_provider :: "string option"
  ac_model :: "string option"
  ac_role :: "string option"
  ac_started :: "int option"
  ac_finished :: "int option"

record audit_entry =
  au_action :: string
  au_limit :: "rat option"
  au_reservation :: "rat option"
  au_deadline :: "int option"
  au_at :: int

record budget =
  bg_wi :: nat
  bg_enabled :: bool
  bg_limit :: "rat option"
  bg_reservation :: "rat option"
  bg_deadline :: "int option"
  bg_paused :: "string option"
  bg_audit :: "audit_entry list"

record reservation =
  rs_id :: string
  rs_wi :: nat
  rs_job :: "nat option"
  rs_call :: "nat option"
  rs_attempt :: "nat option"
  rs_pid :: int
  rs_provider :: "string option"
  rs_model :: "string option"
  rs_role :: "string option"
  rs_reserved :: "rat option"
  rs_cost :: "rat option"
  rs_state :: string
  rs_started :: int
  rs_finished :: "int option"
  rs_reason :: "string option"

text \<open>Attempts are rows of an id, a job and a status; jobs of an id and a work item.\<close>

record bdb =
  bd_wis :: "nat list"
  bd_jobs :: "(nat \<times> nat) list"
  bd_attempts :: "(nat \<times> nat \<times> string) list"
  bd_calls :: "agent_call list"
  bd_budgets :: "budget list"
  bd_reservations :: "reservation list"

definition get_budget :: "bdb \<Rightarrow> nat \<Rightarrow> budget option" where
  "get_budget d w = find (\<lambda>b. bg_wi b = w) (bd_budgets d)"

definition get_call :: "bdb \<Rightarrow> nat \<Rightarrow> agent_call option" where
  "get_call d c = find (\<lambda>a. ac_id a = c) (bd_calls d)"

definition get_reservation :: "bdb \<Rightarrow> string \<Rightarrow> reservation option" where
  "get_reservation d r = find (\<lambda>x. rs_id x = r) (bd_reservations d)"

definition attempt_status :: "bdb \<Rightarrow> nat \<Rightarrow> string option" where
  "attempt_status d a = map_option (\<lambda>x. snd (snd x)) (find (\<lambda>x. fst x = a) (bd_attempts d))"

text \<open>An update by id of one reservation.\<close>

definition upd_reservation :: "string \<Rightarrow> (reservation \<Rightarrow> reservation) \<Rightarrow> bdb \<Rightarrow> bdb" where
  "upd_reservation r f d = d\<lparr>bd_reservations := map (\<lambda>x. if rs_id x = r then f x else x) (bd_reservations d)\<rparr>"

section \<open>Snapshots\<close>

definition call_cost :: "bdb \<Rightarrow> nat option \<Rightarrow> rat option" where
  "call_cost d c = (case Option.bind c (get_call d) of None \<Rightarrow> None
     | Some a \<Rightarrow> if ac_status a \<noteq> ''running'' \<and> ac_precision a \<in> {Some ''exact'', Some ''aggregate_only''}
         then (case ac_cost a of None \<Rightarrow> None | Some c \<Rightarrow> if 0 \<le> c then Some c else None) else None)"

definition completedCost :: "reservation \<Rightarrow> bdb \<Rightarrow> rat option" where
  "completedCost row d = call_cost d (rs_call row)"

text \<open>In a sum, and in an addition, \<open>null\<close> counts as 0.\<close>

definition usd :: "rat option \<Rightarrow> rat" where
  "usd v = (case v of None \<Rightarrow> 0 | Some x \<Rightarrow> x)"

definition rows_of :: "bdb \<Rightarrow> nat \<Rightarrow> reservation list" where
  "rows_of d w = filter (\<lambda>r. rs_wi r = w) (bd_reservations d)"

definition spent_usd :: "bdb \<Rightarrow> nat \<Rightarrow> rat" where
  "spent_usd d w = sum_list (map (\<lambda>r. usd (rs_cost r)) (rows_of d w))"

definition reserved_usd :: "bdb \<Rightarrow> nat \<Rightarrow> rat" where
  "reserved_usd d w = sum_list (map (\<lambda>r. usd (rs_reserved r)) (filter (\<lambda>r. rs_state r = B_RESERVED) (rows_of d w)))"

definition unknown_costs :: "bdb \<Rightarrow> nat \<Rightarrow> nat" where
  "unknown_costs d w = length (filter (\<lambda>r. rs_state r = B_UNKNOWN) (rows_of d w))"

record budget_report =
  bs_budget :: budget
  bs_spent :: rat
  bs_reserved :: rat
  bs_unknown :: nat
  bs_complete :: bool
  bs_reservations :: "reservation list"

text \<open>\<open>ORDER BY started_at, id\<close>, as two stable sorts.\<close>

definition by_start :: "reservation list \<Rightarrow> reservation list" where
  "by_start rs = sort_key rs_started (sort_key rs_id rs)"

definition budget_snapshot :: "nat \<Rightarrow> bdb \<Rightarrow> budget_report option" where
  "budget_snapshot w d = (case get_budget d w of None \<Rightarrow> None
     | Some b \<Rightarrow> Some \<lparr>bs_budget = b, bs_spent = spent_usd d w, bs_reserved = reserved_usd d w,
         bs_unknown = unknown_costs d w, bs_complete = list_all (\<lambda>r. rs_state r = B_SETTLED) (rows_of d w),
         bs_reservations = by_start (rows_of d w)\<rparr>)"

section \<open>Operations\<close>

definition budget_pause :: "nat \<Rightarrow> string \<Rightarrow> bdb \<Rightarrow> bdb" where
  "budget_pause w reason d = d\<lparr>bd_budgets := map (\<lambda>b.
     if bg_wi b = w \<and> bg_enabled b \<and> bg_paused b \<noteq> Some reason \<and> (reason \<noteq> R_UNKNOWN \<or> bg_limit b \<noteq> None)
     then b\<lparr>bg_paused := Some reason\<rparr> else b) (bd_budgets d)\<rparr>"


text \<open>
  \<open>reconcileDead\<close>: unknown costs that have become known are settled; reservations whose process or attempt
  is gone are settled with their cost, or become unknown.
\<close>

definition settle_known :: "int \<Rightarrow> reservation \<Rightarrow> bdb \<Rightarrow> bdb" where
  "settle_known now row d = (case completedCost row d of None \<Rightarrow> d
     | Some c \<Rightarrow> upd_reservation (rs_id row) (\<lambda>r. r\<lparr>rs_state := B_SETTLED, rs_cost := Some c, rs_finished := Some now\<rparr>) d)"

definition attempt_running :: "bdb \<Rightarrow> reservation \<Rightarrow> bool" where
  "attempt_running d row \<longleftrightarrow> (case rs_attempt row of None \<Rightarrow> True | Some a \<Rightarrow> attempt_status d a = Some ''running'')"

definition close_reservation :: "int \<Rightarrow> rat option \<Rightarrow> string option \<Rightarrow> reservation \<Rightarrow> reservation" where
  "close_reservation now cost reason r = r\<lparr>rs_state := (if cost = None then B_UNKNOWN else B_SETTLED), rs_cost := cost,
     rs_finished := Some now, rs_reason := (case reason of None \<Rightarrow> rs_reason r | Some t \<Rightarrow> Some t)\<rparr>"

definition reconcile_row :: "(int \<Rightarrow> bool) \<Rightarrow> int \<Rightarrow> reservation \<Rightarrow> bdb \<Rightarrow> bdb" where
  "reconcile_row alive now row d =
     (if alive (rs_pid row) \<and> attempt_running d row then d
      else let cost = completedCost row d;
               d1 = upd_reservation (rs_id row) (close_reservation now cost (Some ''owner_process_or_attempt_ended'')) d
           in if cost = None then budget_pause (rs_wi row) R_UNKNOWN d1 else d1)"

definition reconcileDead :: "(int \<Rightarrow> bool) \<Rightarrow> int \<Rightarrow> nat \<Rightarrow> bdb \<Rightarrow> bdb" where
  "reconcileDead alive now w d =
     (let d1 = fold (settle_known now) (filter (\<lambda>r. rs_state r = B_UNKNOWN) (rows_of d w)) d
      in fold (reconcile_row alive now) (filter (\<lambda>r. rs_state r = B_RESERVED) (rows_of d1 w)) d1)"

definition readAdmissionBudget :: "nat option \<Rightarrow> bdb \<Rightarrow> budget_report option" where
  "readAdmissionBudget w d = (case w of None \<Rightarrow> None | Some i \<Rightarrow> if i = 0 then None else budget_snapshot i d)"

definition isBudgetPaused :: "nat option \<Rightarrow> bdb \<Rightarrow> bool" where
  "isBudgetPaused w d = (case w of None \<Rightarrow> False
     | Some i \<Rightarrow> i \<noteq> 0 \<and> list_ex (\<lambda>b. bg_wi b = i \<and> bg_enabled b \<and> bg_paused b \<noteq> None) (bd_budgets d))"

text \<open>The argument object of \<open>reserveBudget\<close>; the ids of rows are positive.\<close>

record reserve_args =
  ra_wi :: "nat option"
  ra_job :: "nat option"
  ra_attempt :: "nat option"
  ra_parent :: "nat option"
  ra_provider :: "string option"
  ra_model :: "string option"
  ra_role :: "string option"

definition first_some :: "'a option \<Rightarrow> 'a option \<Rightarrow> 'a option" where
  "first_some a b = (if a = None then b else a)"

definition reserve_target :: "bdb \<Rightarrow> reserve_args \<Rightarrow> nat option" where
  "reserve_target d a = first_some (ra_wi a) (first_some (Option.bind (ra_job a) (map_of (bd_jobs d)))
     (map_option ac_wi (Option.bind (ra_parent a) (get_call d))))"

text \<open>The running attempt of the job with the largest id.\<close>

definition running_attempt :: "bdb \<Rightarrow> nat \<Rightarrow> nat option" where
  "running_attempt d j = (case filter (\<lambda>x. fst (snd x) = j \<and> snd (snd x) = ''running'') (bd_attempts d) of
     [] \<Rightarrow> None | xs \<Rightarrow> Some (Max (fst ` set xs)))"

definition refusal :: "bdb \<Rightarrow> nat \<Rightarrow> budget \<Rightarrow> int \<Rightarrow> string option" where
  "refusal d w b now =
     (case bg_paused b of Some r \<Rightarrow> Some r
      | None \<Rightarrow>
        if (case bg_deadline b of None \<Rightarrow> False | Some t \<Rightarrow> t \<le> now) then Some R_TIME
        else case bg_limit b of None \<Rightarrow> None
          | Some l \<Rightarrow> if unknown_costs d w \<noteq> 0 then Some R_UNKNOWN
              else if spent_usd d w + reserved_usd d w + usd (bg_reservation b) > l then Some R_SPEND else None)"

text \<open>Nothing to account for, a reservation, the pause error (thrown after the commit), or a violated constraint.\<close>

datatype reserve_result = Res_none | Res_granted string | Res_paused string | Res_error

definition reservation_fits :: "bdb \<Rightarrow> reservation \<Rightarrow> bool" where
  "reservation_fits d r \<longleftrightarrow> get_reservation d (rs_id r) = None \<and> rs_wi r \<in> set (bd_wis d) \<and>
     (case rs_job r of None \<Rightarrow> True | Some j \<Rightarrow> j \<in> fst ` set (bd_jobs d)) \<and>
     (case rs_attempt r of None \<Rightarrow> True | Some a \<Rightarrow> a \<in> fst ` set (bd_attempts d))"

definition new_reservation :: "reserve_args \<Rightarrow> nat \<Rightarrow> string \<Rightarrow> int \<Rightarrow> bdb \<Rightarrow> budget \<Rightarrow> int \<Rightarrow> reservation" where
  "new_reservation a w uuid pid d b now =
     \<lparr>rs_id = uuid, rs_wi = w, rs_job = ra_job a, rs_call = None,
      rs_attempt = first_some (ra_attempt a) (Option.bind (ra_job a) (running_attempt d)), rs_pid = pid,
      rs_provider = ra_provider a, rs_model = ra_model a, rs_role = ra_role a, rs_reserved = bg_reservation b,
      rs_cost = None, rs_state = B_RESERVED, rs_started = now, rs_finished = None, rs_reason = None\<rparr>"

lemma new_reservation_simps [simp]:
  "rs_id (new_reservation a w uuid pid d b now) = uuid" "rs_wi (new_reservation a w uuid pid d b now) = w"
  "rs_state (new_reservation a w uuid pid d b now) = B_RESERVED" "rs_cost (new_reservation a w uuid pid d b now) = None"
  "rs_reserved (new_reservation a w uuid pid d b now) = bg_reservation b"
  by (simp_all add: new_reservation_def)

definition reserveBudget :: "reserve_args \<Rightarrow> string \<Rightarrow> int \<Rightarrow> (int \<Rightarrow> bool) \<Rightarrow> int \<Rightarrow> bdb \<Rightarrow> bdb \<times> reserve_result" where
  "reserveBudget a uuid pid alive now d = (case reserve_target d a of None \<Rightarrow> (d, Res_none)
     | Some w \<Rightarrow>
       let d1 = reconcileDead alive now w d
       in case get_budget d1 w of None \<Rightarrow> (d1, Res_none)
        | Some b \<Rightarrow>
          if \<not> bg_enabled b then (d1, Res_none)
          else case refusal d1 w b now of
              Some reason \<Rightarrow> (budget_pause w reason d1, Res_paused reason)
            | None \<Rightarrow>
              let r = new_reservation a w uuid pid d1 b now
              in if reservation_fits d1 r then (d1\<lparr>bd_reservations := bd_reservations d1 @ [r]\<rparr>, Res_granted uuid)
                 else (d, Res_error))"

text \<open>An id of no call violates the foreign key: the update throws and changes nothing.\<close>

definition attachBudgetCall :: "string option \<Rightarrow> nat \<Rightarrow> bdb \<Rightarrow> bdb" where
  "attachBudgetCall reservation c d = (case reservation of None \<Rightarrow> d
     | Some rid \<Rightarrow> if get_call d c = None then d
         else upd_reservation rid (\<lambda>r. if rs_state r = B_RESERVED then r\<lparr>rs_call := Some c\<rparr> else r) d)"

definition settleBudget :: "string option \<Rightarrow> bool \<Rightarrow> int \<Rightarrow> bdb \<Rightarrow> bdb" where
  "settleBudget reservation notDispatched now d = (case Option.bind reservation (get_reservation d) of None \<Rightarrow> d
     | Some row \<Rightarrow>
       if rs_state row \<noteq> B_RESERVED then d
       else let cost = (if notDispatched then Some 0 else completedCost row d);
                d1 = upd_reservation (rs_id row) (close_reservation now cost None) d;
                w = rs_wi row
            in case get_budget d1 w of None \<Rightarrow> d1
             | Some b \<Rightarrow>
               if \<not> bg_enabled b then d1
               else case bg_limit b of None \<Rightarrow> d1
                 | Some l \<Rightarrow> if cost = None then budget_pause w R_UNKNOWN d1
                     else if l \<le> spent_usd d1 w + reserved_usd d1 w then budget_pause w R_SPEND d1 else d1)"

text \<open>The largest safe integer.\<close>

definition MAX_SAFE :: int where
  "MAX_SAFE = 2 ^ 53 - 1"

definition historical :: "bdb \<Rightarrow> int \<Rightarrow> agent_call \<Rightarrow> reservation" where
  "historical d now a = (let cost = call_cost d (Some (ac_id a)) in
     \<lparr>rs_id = ''historical:'' @ show_nat (ac_id a), rs_wi = ac_wi a, rs_job = ac_job a, rs_call = Some (ac_id a),
      rs_attempt = ac_attempt a, rs_pid = 0, rs_provider = ac_provider a, rs_model = ac_model a, rs_role = ac_role a,
      rs_reserved = None, rs_cost = cost, rs_state = (if cost = None then B_UNKNOWN else B_SETTLED),
      rs_started = (case ac_started a of None \<Rightarrow> now | Some t \<Rightarrow> if t = 0 then now else t), rs_finished = ac_finished a,
      rs_reason = Some ''included_at_configuration''\<rparr>)"

definition missing_calls :: "bdb \<Rightarrow> nat \<Rightarrow> agent_call list" where
  "missing_calls d w = filter (\<lambda>a. ac_wi a = w \<and> \<not> list_ex (\<lambda>r. rs_call r = Some (ac_id a)) (bd_reservations d)) (bd_calls d)"

fun insert_historical :: "int \<Rightarrow> agent_call list \<Rightarrow> bdb \<Rightarrow> bdb option" where
  "insert_historical now [] d = Some d"
| "insert_historical now (a # as) d =
     (if reservation_fits d (historical d now a)
      then insert_historical now as (d\<lparr>bd_reservations := bd_reservations d @ [historical d now a]\<rparr>) else None)"

definition upsert_budget :: "nat \<Rightarrow> rat option \<Rightarrow> rat option \<Rightarrow> int option \<Rightarrow> audit_entry list \<Rightarrow> bdb \<Rightarrow> bdb" where
  "upsert_budget w limit res deadline audit d = (case get_budget d w of
       None \<Rightarrow> d\<lparr>bd_budgets := bd_budgets d @ [\<lparr>bg_wi = w, bg_enabled = True, bg_limit = limit, bg_reservation = res,
         bg_deadline = deadline, bg_paused = None, bg_audit = audit\<rparr>]\<rparr>
     | Some _ \<Rightarrow> d\<lparr>bd_budgets := map (\<lambda>b. if bg_wi b = w then b\<lparr>bg_enabled := True, bg_limit := limit, bg_reservation := res,
         bg_deadline := deadline, bg_audit := audit\<rparr> else b) (bd_budgets d)\<rparr>)"

datatype 'a budget_result = Bud_error string | Bud_ok 'a

definition nonpositive :: "rat option \<Rightarrow> bool" where
  "nonpositive v = (case v of None \<Rightarrow> False | Some x \<Rightarrow> x \<le> 0)"

text \<open>The errors thrown before anything is written.\<close>

definition configure_error :: "nat \<Rightarrow> rat option \<Rightarrow> rat option \<Rightarrow> rat option \<Rightarrow> int option \<Rightarrow> bdb \<Rightarrow> string option" where
  "configure_error w limitUsd reservationUsd minutes deadline d =
     (if nonpositive limitUsd then Some ''limitUsd must be a positive number''
      else if nonpositive reservationUsd then Some ''reservationUsd must be a positive number''
      else if nonpositive minutes then Some ''minutes must be a positive number''
      else if limitUsd = None \<and> minutes = None then Some ''Specify a spend threshold or wall-time threshold''
      else if limitUsd \<noteq> None \<and> reservationUsd = None then Some ''A spend threshold requires an explicit per-call reservation estimate''
      else if w \<notin> set (bd_wis d) then Some ''Unknown work item''
      else if (case deadline of None \<Rightarrow> False | Some t \<Rightarrow> \<bar>t\<bar> > MAX_SAFE) then Some ''Wall-time threshold is out of range''
      else None)"

definition configure_pause :: "nat \<Rightarrow> rat option \<Rightarrow> rat option \<Rightarrow> bdb \<Rightarrow> bdb" where
  "configure_pause w limitUsd reservationUsd d = (case limitUsd of None \<Rightarrow> d
     | Some l \<Rightarrow> if unknown_costs d w \<noteq> 0 then budget_pause w R_UNKNOWN d
         else if spent_usd d w + reserved_usd d w + usd reservationUsd > l then budget_pause w R_SPEND d
         else d)"

definition configureAdmissionBudget ::
  "nat \<Rightarrow> rat option \<Rightarrow> rat option \<Rightarrow> rat option \<Rightarrow> int \<Rightarrow> bdb \<Rightarrow> bdb \<times> budget_report option budget_result" where
  "configureAdmissionBudget w limitUsd reservationUsd minutes now d =
     (let deadline = map_option (\<lambda>m. now + \<lceil>m * 60000\<rceil>) minutes in
      case configure_error w limitUsd reservationUsd minutes deadline d of Some e \<Rightarrow> (d, Bud_error e)
      | None \<Rightarrow>
        let audit = (case get_budget d w of None \<Rightarrow> [] | Some b \<Rightarrow> bg_audit b);
            entry = \<lparr>au_action = ''configure'', au_limit = limitUsd, au_reservation = reservationUsd, au_deadline = deadline, au_at = now\<rparr>;
            d1 = upsert_budget w limitUsd reservationUsd deadline (audit @ [entry]) d
        in case insert_historical now (missing_calls d1 w) d1 of
             None \<Rightarrow> (d, Bud_error ''constraint'')
           | Some d2 \<Rightarrow> let d3 = configure_pause w limitUsd reservationUsd d2 in (d3, Bud_ok (budget_snapshot w d3)))"

datatype budget_action = Act_pause | Act_resume | Act_disable | Act_other

definition resume_blocked :: "bdb \<Rightarrow> nat \<Rightarrow> budget \<Rightarrow> int \<Rightarrow> bool" where
  "resume_blocked d w b now \<longleftrightarrow>
     (case bg_limit b of None \<Rightarrow> False
      | Some l \<Rightarrow> unknown_costs d w \<noteq> 0 \<or> spent_usd d w + reserved_usd d w + usd (bg_reservation b) > l) \<or>
     (case bg_deadline b of None \<Rightarrow> False | Some t \<Rightarrow> t \<le> now)"

fun action_name :: "budget_action \<Rightarrow> string" where
  "action_name Act_pause = ''pause''"
| "action_name Act_resume = ''resume''"
| "action_name Act_disable = ''disable''"
| "action_name Act_other = []"

definition set_budget_state :: "nat \<Rightarrow> budget_action \<Rightarrow> audit_entry list \<Rightarrow> bdb \<Rightarrow> bdb" where
  "set_budget_state w action audit d = d\<lparr>bd_budgets := map (\<lambda>x. if bg_wi x = w
     then x\<lparr>bg_enabled := (action \<noteq> Act_disable), bg_paused := (if action = Act_pause then Some R_OPERATOR else None),
       bg_audit := audit\<rparr> else x) (bd_budgets d)\<rparr>"

definition changeBudgetState :: "nat \<Rightarrow> budget_action \<Rightarrow> (int \<Rightarrow> bool) \<Rightarrow> int \<Rightarrow> bdb \<Rightarrow> bdb \<times> budget_report option budget_result" where
  "changeBudgetState w action alive now d =
     (if action = Act_other then (d, Bud_error ''Expected pause, resume or disable'')
      else let d1 = reconcileDead alive now w d
           in case get_budget d1 w of None \<Rightarrow> (d, Bud_error ''No admission budget configured'')
            | Some b \<Rightarrow>
              if action = Act_resume \<and> resume_blocked d1 w b now
              then (d1, Bud_error ''Reconcile unknown costs or increase the threshold before resuming'')
              else let entry = \<lparr>au_action = action_name action, au_limit = None, au_reservation = None, au_deadline = None, au_at = now\<rparr>;
                       d2 = set_budget_state w action (bg_audit b @ [entry]) d1
                   in (d2, Bud_ok (budget_snapshot w d2)))"

text \<open>A call is in flight while its process lives, or, for a call from before the budget, while it runs.\<close>

definition in_flight :: "(int \<Rightarrow> bool) \<Rightarrow> bdb \<Rightarrow> reservation \<Rightarrow> bool" where
  "in_flight alive d row \<longleftrightarrow> rs_state row = B_RESERVED \<and> alive (rs_pid row) \<or>
     rs_pid row = 0 \<and> (case Option.bind (rs_call row) (get_call d) of None \<Rightarrow> False | Some a \<Rightarrow> ac_status a = ''running'') \<and>
     attempt_running d row"

definition reconcileBudgetCost :: "nat \<Rightarrow> string \<Rightarrow> rat \<Rightarrow> string \<Rightarrow> (int \<Rightarrow> bool) \<Rightarrow> int \<Rightarrow> bdb \<Rightarrow> bdb \<times> budget_report option budget_result" where
  "reconcileBudgetCost w rid costUsd reason alive now d =
     (if costUsd < 0 \<or> js_trim reason = []
      then (d, Bud_error ''Reconciliation requires a nonnegative observed cost and a reason'')
      else let d1 = reconcileDead alive now w d
           in case find (\<lambda>r. rs_id r = rid \<and> rs_wi r = w) (bd_reservations d1) of
                None \<Rightarrow> (d, Bud_error ''No unresolved reservation'')
              | Some row \<Rightarrow>
                if rs_state row = B_SETTLED then (d, Bud_error ''No unresolved reservation'')
                else if in_flight alive d1 row then (d, Bud_error ''Cannot reconcile an in-flight call'')
                else let d2 = upd_reservation rid (\<lambda>r. r\<lparr>rs_cost := Some costUsd, rs_state := B_SETTLED,
                          rs_reason := Some reason, rs_finished := Some now\<rparr>) d1
                     in (d2, Bud_ok (budget_snapshot w d2)))"

section \<open>Events\<close>

text \<open>
  The operations, and what other code does to the tables that they read: calls are inserted and
  completed, attempts begin and end. Every event carries which processes live, and the time.
\<close>

datatype budget_event =
    BReserve reserve_args string int
  | BAttach string nat
  | BSettle string bool
  | BConfigure nat "rat option" "rat option" "rat option"
  | BChange nat budget_action
  | BReconcile nat string rat string
  | BCall agent_call
  | BCallDone nat string "string option" "rat option" "int option"
  | BAttempt nat nat string
  | BAttemptEnds nat string

fun budget_step :: "(int \<Rightarrow> bool) \<times> int \<times> budget_event \<Rightarrow> bdb \<Rightarrow> bdb" where
  "budget_step (alive, now, BReserve a uuid pid) d = fst (reserveBudget a uuid pid alive now d)"
| "budget_step (alive, now, BAttach rid c) d = attachBudgetCall (Some rid) c d"
| "budget_step (alive, now, BSettle rid nd) d = settleBudget (Some rid) nd now d"
| "budget_step (alive, now, BConfigure w l r m) d = fst (configureAdmissionBudget w l r m now d)"
| "budget_step (alive, now, BChange w act) d = fst (changeBudgetState w act alive now d)"
| "budget_step (alive, now, BReconcile w rid c why) d = fst (reconcileBudgetCost w rid c why alive now d)"
| "budget_step (alive, now, BCall a) d = (if get_call d (ac_id a) = None then d\<lparr>bd_calls := bd_calls d @ [a]\<rparr> else d)"
| "budget_step (alive, now, BCallDone c st prec cost fin) d = d\<lparr>bd_calls := map (\<lambda>a. if ac_id a = c
     then a\<lparr>ac_status := st, ac_precision := prec, ac_cost := cost, ac_finished := fin\<rparr> else a) (bd_calls d)\<rparr>"
| "budget_step (alive, now, BAttempt a j st) d =
     (if a \<in> fst ` set (bd_attempts d) then d else d\<lparr>bd_attempts := bd_attempts d @ [(a, j, st)]\<rparr>)"
| "budget_step (alive, now, BAttemptEnds a st) d =
     d\<lparr>bd_attempts := map (\<lambda>x. if fst x = a then (a, fst (snd x), st) else x) (bd_attempts d)\<rparr>"

section \<open>Receipts\<close>

lemma budget_states [simp]:
  "B_RESERVED \<noteq> B_SETTLED" "B_SETTLED \<noteq> B_RESERVED" "B_UNKNOWN \<noteq> B_SETTLED" "B_SETTLED \<noteq> B_UNKNOWN"
  "B_RESERVED \<noteq> B_UNKNOWN" "B_UNKNOWN \<noteq> B_RESERVED"
  by (simp_all add: budget_words)

text \<open>A row has a cost exactly when it is settled, and the cost is not negative.\<close>

definition row_ok :: "reservation \<Rightarrow> bool" where
  "row_ok r \<longleftrightarrow> (case rs_cost r of None \<Rightarrow> rs_state r \<in> {B_RESERVED, B_UNKNOWN}
     | Some c \<Rightarrow> rs_state r = B_SETTLED \<and> 0 \<le> c)"

lemma row_ok_iff: "row_ok r \<longleftrightarrow> rs_state r \<in> {B_RESERVED, B_UNKNOWN} \<and> rs_cost r = None \<or>
     rs_state r = B_SETTLED \<and> (\<exists>c. rs_cost r = Some c \<and> 0 \<le> c)"
  by (auto simp: row_ok_def split: option.splits)

text \<open>What an update keeps of a row: its identity, its estimate, and all of it once it is settled.\<close>

definition row_keeps :: "reservation \<Rightarrow> reservation \<Rightarrow> bool" where
  "row_keeps r r' \<longleftrightarrow> rs_id r' = rs_id r \<and> rs_wi r' = rs_wi r \<and> rs_reserved r' = rs_reserved r \<and>
     (rs_state r = B_SETTLED \<longrightarrow> r' = r) \<and> (row_ok r \<longrightarrow> row_ok r')"

abbreviation rows_keep :: "reservation list \<Rightarrow> reservation list \<Rightarrow> bool" where
  "rows_keep \<equiv> rows_kept row_keeps"

interpretation receipt_rows: row_keeping row_keeps
  by unfold_locales (auto simp: row_keeps_def)

lemma row_keeps_ok: "row_keeps r r' \<Longrightarrow> row_ok r \<Longrightarrow> row_ok r'"
  by (simp add: row_keeps_def)

lemmas rows_keepD = rows_keptD [of row_keeps] and rows_keep_append = receipt_rows.kept_append
  and rows_keep_trans = receipt_rows.kept_trans and rows_keep_map = rows_kept_map [of _ row_keeps]

declare receipt_rows.keeps_refl [simp] receipt_rows.kept_refl [simp]

text \<open>The tables are consistent: ids are unique and the rows well formed.\<close>

definition bdb_ok :: "bdb \<Rightarrow> bool" where
  "bdb_ok d \<longleftrightarrow> distinct (map rs_id (bd_reservations d)) \<and> list_all row_ok (bd_reservations d) \<and>
     distinct (map bg_wi (bd_budgets d))"

text \<open>
  A step on the receipts: rows are kept or added, well-formed tables stay so, and no limit or
  estimate of a budget changes.
\<close>

definition receipts_step :: "bdb \<Rightarrow> bdb \<Rightarrow> bool" where
  "receipts_step d d' \<longleftrightarrow> rows_keep (bd_reservations d) (bd_reservations d') \<and> (bdb_ok d \<longrightarrow> bdb_ok d')"

lemma receipts_refl [simp]: "receipts_step d d"
  by (simp add: receipts_step_def)

lemma receipts_trans: "receipts_step a b \<Longrightarrow> receipts_step b c \<Longrightarrow> receipts_step a c"
  unfolding receipts_step_def using rows_keep_trans by blast

lemma budget_pause_simps [simp]:
  "bd_reservations (budget_pause w r d) = bd_reservations d" "bd_calls (budget_pause w r d) = bd_calls d"
  "bd_attempts (budget_pause w r d) = bd_attempts d" "bd_wis (budget_pause w r d) = bd_wis d" "bd_jobs (budget_pause w r d) = bd_jobs d"
  "map bg_wi (bd_budgets (budget_pause w r d)) = map bg_wi (bd_budgets d)"
  by (simp_all add: budget_pause_def)

lemma receipts_same_rows:
  assumes "bd_reservations d' = bd_reservations d" "map bg_wi (bd_budgets d') = map bg_wi (bd_budgets d)"
  shows "receipts_step d d'"
  using assms by (simp add: receipts_step_def bdb_ok_def)

lemma budget_pause_receipts [simp]: "receipts_step d (budget_pause w r d)"
  by (rule receipts_same_rows) simp_all

lemma upd_reservation_simps [simp]:
  "bd_budgets (upd_reservation r f d) = bd_budgets d" "bd_calls (upd_reservation r f d) = bd_calls d"
  "bd_attempts (upd_reservation r f d) = bd_attempts d" "bd_wis (upd_reservation r f d) = bd_wis d"
  "bd_jobs (upd_reservation r f d) = bd_jobs d"
  by (simp_all add: upd_reservation_def)

lemma upd_receipts:
  assumes "\<And>x. x \<in> set (bd_reservations d) \<Longrightarrow> rs_id x = r \<Longrightarrow> row_keeps x (f x)"
  shows "receipts_step d (upd_reservation r f d)"
proof -
  let ?g = "\<lambda>x. if rs_id x = r then f x else x"
  have g: "row_keeps x (?g x)" if "x \<in> set (bd_reservations d)" for x using assms that by auto
  then have "map rs_id (map ?g (bd_reservations d)) = map rs_id (bd_reservations d)" by (auto simp: row_keeps_def)
  moreover have "list_all row_ok (bd_reservations d) \<Longrightarrow> list_all row_ok (map ?g (bd_reservations d))"
    using row_keeps_ok [OF g] by (auto simp only: list_all_iff set_map)
  ultimately show ?thesis
    using rows_keep_map [of "bd_reservations d" ?g] g
    by (simp add: receipts_step_def bdb_ok_def upd_reservation_def del: map_map)
qed

text \<open>The row with an id, in consistent tables.\<close>

lemma row_unique: "bdb_ok d \<Longrightarrow> x \<in> set (bd_reservations d) \<Longrightarrow> y \<in> set (bd_reservations d) \<Longrightarrow> rs_id x = rs_id y \<Longrightarrow> x = y"
  by (auto simp: bdb_ok_def distinct_map inj_on_def)

lemma upd_one_receipts:
  assumes ok: "bdb_ok d" and row: "row \<in> set (bd_reservations d)" and f: "row_keeps row (f row)"
  shows "receipts_step d (upd_reservation (rs_id row) f d)"
  by (rule upd_receipts) (use row_unique [OF ok _ row] f in auto)

lemma upd_others: "x \<in> set (bd_reservations d) \<Longrightarrow> rs_id x \<noteq> r \<Longrightarrow> x \<in> set (bd_reservations (upd_reservation r f d))"
  by (force simp: upd_reservation_def)

lemma completedCost_pos: "completedCost row d = Some c \<Longrightarrow> 0 \<le> c"
  by (auto simp: completedCost_def call_cost_def split: option.splits if_splits)

lemma close_keeps:
  assumes "rs_state r \<noteq> B_SETTLED" and "\<And>c. cost = Some c \<Longrightarrow> 0 \<le> c"
  shows "row_keeps r (close_reservation now cost why r)"
  using assms by (auto simp: row_keeps_def close_reservation_def row_ok_iff)

text \<open>A loop over rows that were read before it, each step of which touches its own row only.\<close>

lemma fold_rows_receipts:
  assumes step: "\<And>row d. bdb_ok d \<Longrightarrow> row \<in> set (bd_reservations d) \<Longrightarrow> rs_state row \<noteq> B_SETTLED \<Longrightarrow>
      receipts_step d (F row d) \<and> (\<forall>x \<in> set (bd_reservations d). rs_id x \<noteq> rs_id row \<longrightarrow> x \<in> set (bd_reservations (F row d)))"
  shows "bdb_ok d \<Longrightarrow> set rows \<subseteq> set (bd_reservations d) \<Longrightarrow> distinct (map rs_id rows) \<Longrightarrow>
    list_all (\<lambda>r. rs_state r \<noteq> B_SETTLED) rows \<Longrightarrow> receipts_step d (fold F rows d)"
proof (induction rows arbitrary: d)
  case (Cons row rows)
  have s: "receipts_step d (F row d)" "\<forall>x \<in> set (bd_reservations d). rs_id x \<noteq> rs_id row \<longrightarrow> x \<in> set (bd_reservations (F row d))"
    using step [OF Cons.prems(1), of row] Cons.prems(2,4) by simp_all
  have ok: "bdb_ok (F row d)" using s(1) Cons.prems(1) by (simp add: receipts_step_def)
  have "set rows \<subseteq> set (bd_reservations (F row d))"
  proof
    fix x assume x: "x \<in> set rows"
    then have "rs_id x \<noteq> rs_id row" using Cons.prems(3) by (auto simp: image_iff)
    then show "x \<in> set (bd_reservations (F row d))" using x s(2) Cons.prems(2) by auto
  qed
  then have "receipts_step (F row d) (fold F rows (F row d))" using Cons.IH [OF ok] Cons.prems(3,4) by simp
  then show ?case using receipts_trans [OF s(1)] by simp
qed simp

lemma rows_of_sub: "set (filter P (rows_of d w)) \<subseteq> set (bd_reservations d)"
  by (auto simp: rows_of_def)

lemma rows_of_distinct: "bdb_ok d \<Longrightarrow> distinct (map rs_id (filter P (rows_of d w)))"
  by (simp add: bdb_ok_def rows_of_def distinct_map_filter)

lemma settle_known_receipts:
  assumes "bdb_ok d" "row \<in> set (bd_reservations d)" "rs_state row \<noteq> B_SETTLED"
  shows "receipts_step d (settle_known now row d) \<and>
    (\<forall>x \<in> set (bd_reservations d). rs_id x \<noteq> rs_id row \<longrightarrow> x \<in> set (bd_reservations (settle_known now row d)))"
proof (cases "completedCost row d")
  case (Some c)
  have "row_keeps row (row\<lparr>rs_state := B_SETTLED, rs_cost := Some c, rs_finished := Some now\<rparr>)"
    using assms(3) completedCost_pos [OF Some] by (simp add: row_keeps_def row_ok_iff)
  then show ?thesis
    using upd_one_receipts [OF assms(1,2)] upd_others by (simp add: settle_known_def Some)
qed (simp add: settle_known_def)

lemma reconcile_row_receipts:
  assumes "bdb_ok d" "row \<in> set (bd_reservations d)" "rs_state row \<noteq> B_SETTLED"
  shows "receipts_step d (reconcile_row alive now row d) \<and>
    (\<forall>x \<in> set (bd_reservations d). rs_id x \<noteq> rs_id row \<longrightarrow> x \<in> set (bd_reservations (reconcile_row alive now row d)))"
proof -
  let ?d = "upd_reservation (rs_id row) (close_reservation now (completedCost row d) (Some ''owner_process_or_attempt_ended'')) d"
  have "receipts_step d ?d"
    using upd_one_receipts [OF assms(1,2)] close_keeps [OF assms(3)] completedCost_pos by blast
  then show ?thesis
    using upd_others receipts_trans [OF _ budget_pause_receipts] by (auto simp: reconcile_row_def Let_def)
qed

lemma reconcileDead_receipts:
  assumes "bdb_ok d"
  shows "receipts_step d (reconcileDead alive now w d)"
proof -
  let ?d = "fold (settle_known now) (filter (\<lambda>r. rs_state r = B_UNKNOWN) (rows_of d w)) d"
  have 1: "receipts_step d ?d"
    by (rule fold_rows_receipts [OF settle_known_receipts assms rows_of_sub rows_of_distinct [OF assms]])
      (auto simp: list_all_iff)
  then have ok: "bdb_ok ?d" using assms by (simp add: receipts_step_def)
  have "receipts_step ?d (fold (reconcile_row alive now) (filter (\<lambda>r. rs_state r = B_RESERVED) (rows_of ?d w)) ?d)"
    by (rule fold_rows_receipts [OF reconcile_row_receipts ok rows_of_sub rows_of_distinct [OF ok]])
      (auto simp: list_all_iff)
  then show ?thesis using receipts_trans [OF 1] by (simp add: reconcileDead_def Let_def)
qed

lemma append_receipts:
  assumes "get_reservation d (rs_id r) = None" "row_ok r"
  shows "receipts_step d (d\<lparr>bd_reservations := bd_reservations d @ [r]\<rparr>)"
  using assms rows_keep_append by (auto simp: receipts_step_def bdb_ok_def get_reservation_def find_None_iff)

lemma reserveBudget_receipts:
  assumes "bdb_ok d"
  shows "receipts_step d (fst (reserveBudget a uuid pid alive now d))"
proof (cases "reserve_target d a")
  case (Some w)
  let ?d = "reconcileDead alive now w d"
  have 1: "receipts_step d ?d" by (rule reconcileDead_receipts [OF assms])
  have "receipts_step ?d (?d\<lparr>bd_reservations := bd_reservations ?d @ [r]\<rparr>)" if "reservation_fits ?d r" "row_ok r" for r
    using append_receipts that by (simp add: reservation_fits_def)
  then show ?thesis
    using 1 receipts_trans [OF 1 budget_pause_receipts]
    by (auto simp: reserveBudget_def Some Let_def row_ok_iff intro: receipts_trans [OF 1] split: option.splits)
qed (simp add: reserveBudget_def)

lemma settleBudget_receipts:
  assumes "bdb_ok d"
  shows "receipts_step d (settleBudget rid nd now d)"
proof (cases "Option.bind rid (get_reservation d)")
  case (Some row)
  then have row: "row \<in> set (bd_reservations d)" by (auto simp: bind_eq_Some_conv get_reservation_def find_Some_iff)
  let ?cost = "if nd then Some 0 else completedCost row d"
  have pos: "0 \<le> c" if "?cost = Some c" for c using that completedCost_pos by (auto split: if_splits)
  have "receipts_step d (upd_reservation (rs_id row) (close_reservation now ?cost None) d)" if "rs_state row = B_RESERVED"
    by (rule upd_one_receipts [OF assms row], rule close_keeps) (use that pos in auto)
  then show ?thesis
    using receipts_trans [OF _ budget_pause_receipts] by (auto simp: settleBudget_def Some Let_def split: option.splits)
qed (simp add: settleBudget_def)

lemma historical_ok: "row_ok (historical d now a)"
  by (auto simp: row_ok_iff historical_def Let_def call_cost_def split: option.splits if_splits)

lemma insert_historical_receipts: "insert_historical now as d = Some d' \<Longrightarrow> receipts_step d d'"
proof (induction now as d rule: insert_historical.induct)
  case (2 now a as d)
  then have fits: "reservation_fits d (historical d now a)" by (simp split: if_splits)
  have "receipts_step d (d\<lparr>bd_reservations := bd_reservations d @ [historical d now a]\<rparr>)"
    using append_receipts [OF _ historical_ok] fits by (simp add: reservation_fits_def)
  then show ?case using 2 fits receipts_trans by simp
qed simp

lemma upsert_budget_receipts: "receipts_step d (upsert_budget w l r t au d)"
proof (cases "get_budget d w")
  case None
  then have "w \<notin> bg_wi ` set (bd_budgets d)" by (auto simp: get_budget_def find_None_iff)
  then show ?thesis using None by (simp add: upsert_budget_def receipts_step_def bdb_ok_def)
next
  case (Some b)
  then show ?thesis by (intro receipts_same_rows) (auto simp: upsert_budget_def)
qed

lemma configure_pause_receipts: "receipts_step d (configure_pause w l r d)"
  by (simp add: configure_pause_def split: option.splits)

lemma configure_receipts: "receipts_step d (fst (configureAdmissionBudget w l r m now d))"
proof -
  have "receipts_step d (configure_pause w l r d2)" if "insert_historical now as (upsert_budget w l r t au d) = Some d2" for as t au d2
    using receipts_trans [OF receipts_trans [OF upsert_budget_receipts insert_historical_receipts [OF that]] configure_pause_receipts] .
  then show ?thesis
    by (simp add: configureAdmissionBudget_def Let_def split: option.splits)
qed

lemma change_receipts:
  assumes "bdb_ok d"
  shows "receipts_step d (fst (changeBudgetState w act alive now d))"
proof -
  let ?d = "reconcileDead alive now w d"
  have "receipts_step ?d (set_budget_state w act au ?d)" for au
    by (rule receipts_same_rows) (auto simp: set_budget_state_def)
  then have "receipts_step d (set_budget_state w act au ?d)" for au
    using receipts_trans [OF reconcileDead_receipts [OF assms]] by blast
  then show ?thesis
    using reconcileDead_receipts [OF assms] by (simp add: changeBudgetState_def Let_def split: option.splits)
qed

lemma reconcile_cost_receipts:
  assumes "bdb_ok d"
  shows "receipts_step d (fst (reconcileBudgetCost w rid c why alive now d))"
proof -
  let ?d = "reconcileDead alive now w d"
  have 1: "receipts_step d ?d" by (rule reconcileDead_receipts [OF assms])
  then have ok: "bdb_ok ?d" using assms by (simp add: receipts_step_def)
  let ?f = "\<lambda>r. r\<lparr>rs_cost := Some c, rs_state := B_SETTLED, rs_reason := Some why, rs_finished := Some now\<rparr>"
  have "receipts_step ?d (upd_reservation rid ?f ?d)"
    if "find (\<lambda>r. rs_id r = rid \<and> rs_wi r = w) (bd_reservations ?d) = Some row" "rs_state row \<noteq> B_SETTLED" "0 \<le> c" for row
  proof -
    have row: "row \<in> set (bd_reservations ?d)" "rs_id row = rid" using that(1) by (auto simp: find_Some_iff)
    have "row_keeps row (?f row)" using that(2,3) by (simp add: row_keeps_def row_ok_iff)
    then show ?thesis using upd_one_receipts [OF ok row(1), of ?f] row(2) by simp
  qed
  then show ?thesis
    using receipts_trans [OF 1] by (auto simp: reconcileBudgetCost_def Let_def split: option.splits)
qed

lemma budget_step_receipts:
  assumes "bdb_ok d"
  shows "receipts_step d (budget_step e d)"
proof -
  obtain alive now ev where e: "e = (alive, now, ev)" by (cases e)
  have attach: "row_keeps x (if rs_state x = B_RESERVED then x\<lparr>rs_call := Some c\<rparr> else x)" for x c
    by (simp add: row_keeps_def row_ok_iff)
  show ?thesis
    unfolding e using assms
    by (cases ev) (auto simp: reserveBudget_receipts settleBudget_receipts configure_receipts change_receipts
        reconcile_cost_receipts attachBudgetCall_def intro: upd_receipts attach receipts_same_rows)
qed

lemma budget_step_ok: "bdb_ok d \<Longrightarrow> bdb_ok (budget_step e d)"
  using budget_step_receipts by (simp add: receipts_step_def)

interpretation budgets: step_system budget_step bdb_ok
  by unfold_locales (rule budget_step_ok)

lemma budget_run_receipts: "bdb_ok d \<Longrightarrow> receipts_step d (fold budget_step es d)"
  by (rule budgets.run_induct) (auto intro: receipts_trans budget_step_receipts)

section \<open>The ledger\<close>

text \<open>
  What a row commits: its cost once it is settled, its estimate before. The ledger of a work item is its
  spending, the estimates of its pending calls, and those of the calls whose cost is unknown.
\<close>

definition row_weight :: "reservation \<Rightarrow> rat" where
  "row_weight r = (if rs_state r = B_SETTLED then usd (rs_cost r) else usd (rs_reserved r))"

definition ledger :: "bdb \<Rightarrow> nat \<Rightarrow> rat" where
  "ledger d w = sum_list (map row_weight (rows_of d w))"

definition unknown_usd :: "bdb \<Rightarrow> nat \<Rightarrow> rat" where
  "unknown_usd d w = sum_list (map (\<lambda>r. usd (rs_reserved r)) (filter (\<lambda>r. rs_state r = B_UNKNOWN) (rows_of d w)))"

definition settled_ids :: "bdb \<Rightarrow> string set" where
  "settled_ids d = set (map rs_id (filter (\<lambda>r. rs_state r = B_SETTLED) (bd_reservations d)))"

text \<open>The settled rows of a work item cost at most their estimates, but for the ids in \<open>S\<close>.\<close>

definition honest_rows :: "string set \<Rightarrow> reservation list \<Rightarrow> nat \<Rightarrow> bool" where
  "honest_rows S rs w \<longleftrightarrow> list_all (\<lambda>r. usd (rs_cost r) \<le> usd (rs_reserved r))
     (filter (\<lambda>r. rs_wi r = w \<and> rs_state r = B_SETTLED \<and> rs_id r \<notin> S) rs)"

lemma usd_simps [simp]: "usd None = 0" "usd (Some x) = x"
  by (simp_all add: usd_def)

lemma ledger_split:
  assumes "bdb_ok d"
  shows "ledger d w = spent_usd d w + reserved_usd d w + unknown_usd d w"
proof -
  have "sum_list (map row_weight rs) = sum_list (map (\<lambda>r. usd (rs_cost r)) rs) +
      sum_list (map (\<lambda>r. usd (rs_reserved r)) (filter (\<lambda>r. rs_state r = B_RESERVED) rs)) +
      sum_list (map (\<lambda>r. usd (rs_reserved r)) (filter (\<lambda>r. rs_state r = B_UNKNOWN) rs))" if "list_all row_ok rs" for rs
    using that by (induction rs) (auto simp: row_weight_def row_ok_iff)
  moreover have "list_all row_ok (rows_of d w)" using assms by (auto simp: bdb_ok_def rows_of_def list_all_iff)
  ultimately show ?thesis by (simp add: ledger_def spent_usd_def reserved_usd_def unknown_usd_def)
qed

lemma unknown_none: "unknown_costs d w = 0 \<Longrightarrow> unknown_usd d w = 0"
  by (simp add: unknown_costs_def unknown_usd_def)

text \<open>Sums over the rows of a work item, as sums over the table.\<close>

lemma sum_rows_of: "sum_list (map f (rows_of d w)) = sum_list (map (\<lambda>r. if rs_wi r = w then f r else 0) (bd_reservations d))"
  by (simp add: rows_of_def sum_list_map_filter')

lemma sum_list_nth_le:
  fixes f g :: "'a \<Rightarrow> rat"
  assumes "length xs \<le> length ys" "\<And>i. i < length xs \<Longrightarrow> f (xs ! i) \<le> g (ys ! i)" "\<And>y. y \<in> set ys \<Longrightarrow> 0 \<le> g y"
  shows "sum_list (map f xs) \<le> sum_list (map g ys)"
proof -
  have "sum_list (map f xs) \<le> sum_list (map g (take (length xs) ys))"
    using assms(1,2) by (auto simp: sum_list_sum_nth min_absorb2 intro!: sum_mono)
  also have "\<dots> \<le> sum_list (map g (take (length xs) ys)) + sum_list (map g (drop (length xs) ys))"
    by (auto intro!: sum_list_nonneg assms(3) intro: in_set_dropD)
  also have "\<dots> = sum_list (map g ys)" by (metis append_take_drop_id map_append sum_list_append)
  finally show ?thesis .
qed

lemma spent_mono:
  assumes "bdb_ok d" "receipts_step d d'"
  shows "spent_usd d w \<le> spent_usd d' w"
proof -
  let ?c = "\<lambda>r. if rs_wi r = w then usd (rs_cost r) else 0"
  have keep: "rows_keep (bd_reservations d) (bd_reservations d')" and ok': "bdb_ok d'" using assms by (simp_all add: receipts_step_def)
  have pos: "0 \<le> ?c r" if "row_ok r" for r using that by (auto simp: row_ok_iff)
  have row: "row_ok (bd_reservations d ! i)" if "i < length (bd_reservations d)" for i
    using assms(1) that by (simp add: bdb_ok_def list_all_length)
  have "?c (bd_reservations d ! i) \<le> ?c (bd_reservations d' ! i)" if i: "i < length (bd_reservations d)" for i
  proof (cases "rs_state (bd_reservations d ! i) = B_SETTLED")
    case True
    then show ?thesis using rows_keepD(2) [OF keep i] by (simp add: row_keeps_def)
  next
    case False
    then have "?c (bd_reservations d ! i) = 0" using row [OF i] by (auto simp: row_ok_iff)
    then show ?thesis using pos row_keeps_ok [OF rows_keepD(2) [OF keep i] row [OF i]] by simp
  qed
  moreover have "0 \<le> ?c r" if "r \<in> set (bd_reservations d')" for r
    using pos ok' that by (simp add: bdb_ok_def list_all_iff)
  ultimately show ?thesis
    unfolding spent_usd_def sum_rows_of by (intro sum_list_nth_le rows_keepD(1) [OF keep])
qed


section \<open>The threshold\<close>

definition budget_limits :: "bdb \<Rightarrow> (nat \<times> rat option) list" where
  "budget_limits d = map (\<lambda>b. (bg_wi b, bg_limit b)) (bd_budgets d)"

lemma budget_limit: "map_of (budget_limits d) w = map_option bg_limit (get_budget d w)"
proof -
  have "map_of (map (\<lambda>b. (bg_wi b, bg_limit b)) bs) w = map_option bg_limit (find (\<lambda>b. bg_wi b = w) bs)" for bs
    by (induction bs) auto
  then show ?thesis by (simp add: budget_limits_def get_budget_def)
qed

text \<open>No operation but \<open>configure\<close> changes a limit, and none but \<open>reserve\<close> and \<open>configure\<close> adds a row.\<close>

definition rows_only :: "bdb \<Rightarrow> bdb \<Rightarrow> bool" where
  "rows_only d d' \<longleftrightarrow> length (bd_reservations d') = length (bd_reservations d) \<and> budget_limits d' = budget_limits d"

lemma rows_only_refl [simp]: "rows_only d d"
  by (simp add: rows_only_def)

lemma rows_only_trans: "rows_only a b \<Longrightarrow> rows_only b c \<Longrightarrow> rows_only a c"
  by (simp add: rows_only_def)

lemma budget_pause_only [simp]: "rows_only d (budget_pause w r d)"
  by (simp add: rows_only_def budget_limits_def budget_pause_def)

lemma upd_only [simp]: "rows_only d (upd_reservation r f d)"
  by (simp add: rows_only_def budget_limits_def upd_reservation_def)

lemma fold_only: "(\<And>x d. rows_only d (F x d)) \<Longrightarrow> rows_only d (fold F xs d)"
  by (induction xs arbitrary: d) (auto intro: rows_only_trans)

lemma reconcileDead_only: "rows_only d (reconcileDead alive now w d)"
proof -
  have 1: "rows_only d (settle_known now row d)" for row d by (simp add: settle_known_def split: option.splits)
  have 2: "rows_only d (reconcile_row alive now row d)" for row d
    by (auto simp: reconcile_row_def Let_def intro: rows_only_trans [OF upd_only budget_pause_only])
  show ?thesis
    unfolding reconcileDead_def Let_def by (rule rows_only_trans [OF fold_only fold_only]) (rule 1, rule 2)
qed

lemma settleBudget_only: "rows_only d (settleBudget rid nd now d)"
  using rows_only_trans [OF upd_only budget_pause_only] by (simp add: settleBudget_def Let_def split: option.splits)

lemma set_budget_state_only: "rows_only d (set_budget_state w act au d)"
  by (auto simp: rows_only_def budget_limits_def set_budget_state_def)

lemma change_only: "rows_only d (fst (changeBudgetState w act alive now d))"
proof -
  let ?d = "reconcileDead alive now w d"
  have 1: "rows_only d ?d" by (rule reconcileDead_only)
  have "rows_only d (set_budget_state w act au ?d)" for au
    by (rule rows_only_trans [OF 1 set_budget_state_only])
  then show ?thesis
    using 1 by (simp add: changeBudgetState_def Let_def split: option.splits)
qed

lemma reconcile_cost_only: "rows_only d (fst (reconcileBudgetCost w rid c why alive now d))"
proof -
  let ?d = "reconcileDead alive now w d"
  have "rows_only d ?d" "rows_only d (upd_reservation rid f ?d)" for f
    using reconcileDead_only rows_only_trans [OF reconcileDead_only upd_only] by blast+
  then show ?thesis by (simp add: reconcileBudgetCost_def Let_def split: option.splits)
qed

lemma honest_prefix: "honest_rows S (rs @ xs) w \<Longrightarrow> honest_rows S rs w"
  by (simp add: honest_rows_def)

lemma honest_earlier:
  assumes "rows_keep rs rs'" "honest_rows S rs' w"
  shows "honest_rows S rs w"
proof -
  have "usd (rs_cost r) \<le> usd (rs_reserved r)" if r: "r \<in> set rs" "rs_wi r = w" "rs_state r = B_SETTLED" "rs_id r \<notin> S" for r
  proof -
    obtain i where i: "i < length rs" "r = rs ! i" using r(1) by (auto simp: in_set_conv_nth)
    then have "rs' ! i = r" using rows_keepD(2) [OF assms(1) i(1)] r(3) by (simp add: row_keeps_def)
    then have "r \<in> set rs'" using nth_mem [of i rs'] rows_keepD(1) [OF assms(1)] i(1) by auto
    then show ?thesis using assms(2) r(2-4) by (simp add: honest_rows_def list_all_iff)
  qed
  then show ?thesis by (simp add: honest_rows_def list_all_iff)
qed

lemma settled_stay:
  assumes "S \<subseteq> settled_ids d" "receipts_step d d'"
  shows "S \<subseteq> settled_ids d'"
proof
  fix x assume "x \<in> S"
  then obtain r where r: "r \<in> set (bd_reservations d)" "rs_state r = B_SETTLED" "rs_id r = x"
    using assms(1) by (auto simp: settled_ids_def)
  then obtain i where i: "i < length (bd_reservations d)" "bd_reservations d ! i = r" by (auto simp: in_set_conv_nth)
  have k: "rows_keep (bd_reservations d) (bd_reservations d')" using assms(2) by (simp add: receipts_step_def)
  have "bd_reservations d' ! i = r" using rows_keepD(2) [OF k i(1)] i(2) r(2) by (simp add: row_keeps_def)
  then have "r \<in> set (bd_reservations d')" using nth_mem [of i "bd_reservations d'"] rows_keepD(1) [OF k] i(1) by auto
  then show "x \<in> settled_ids d'" using r by (auto simp: settled_ids_def)
qed

lemma unsettled_id:
  assumes "bdb_ok d" "S \<subseteq> settled_ids d" "r \<in> set (bd_reservations d)" "rs_state r \<noteq> B_SETTLED"
  shows "rs_id r \<notin> S"
  using assms row_unique [OF assms(1)] by (auto simp: settled_ids_def)

lemma ledger_shrinks:
  assumes ok: "bdb_ok d" and keep: "rows_keep (bd_reservations d) (bd_reservations d')"
    and len: "length (bd_reservations d') = length (bd_reservations d)" and honest: "honest_rows S (bd_reservations d') w"
    and S: "S \<subseteq> settled_ids d"
  shows "ledger d' w \<le> ledger d w"
proof -
  let ?f = "\<lambda>r. if rs_wi r = w then row_weight r else 0"
  have "?f (bd_reservations d' ! i) \<le> ?f (bd_reservations d ! i)" if i: "i < length (bd_reservations d)" for i
  proof -
    let ?r = "bd_reservations d ! i" and ?r' = "bd_reservations d' ! i"
    have k: "row_keeps ?r ?r'" by (rule rows_keepD(2) [OF keep i])
    have mem: "?r' \<in> set (bd_reservations d')" using i len by simp
    show ?thesis
    proof (cases "rs_state ?r = B_SETTLED \<or> rs_wi ?r \<noteq> w")
      case True
      then show ?thesis using k by (auto simp: row_keeps_def)
    next
      case False
      then have "rs_id ?r \<notin> S" using unsettled_id [OF ok S] i by simp
      then have "row_weight ?r' \<le> usd (rs_reserved ?r')"
        using False honest mem k by (auto simp: row_weight_def honest_rows_def list_all_iff row_keeps_def)
      then show ?thesis using k False by (simp add: row_keeps_def row_weight_def)
    qed
  qed
  then have "sum_list (map ?f (bd_reservations d')) \<le> sum_list (map ?f (bd_reservations d))"
    using len by (auto simp: sum_list_sum_nth intro!: sum_mono)
  then show ?thesis by (simp add: ledger_def sum_rows_of)
qed

text \<open>A reservation that is granted fits under the limit, on top of everything committed.\<close>

lemma refusal_None:
  assumes ok: "bdb_ok d" and "refusal d w b now = None" and "bg_limit b = Some l"
  shows "ledger d w + usd (bg_reservation b) \<le> l" and "unknown_costs d w = 0" and "bg_paused b = None"
proof -
  show 0: "unknown_costs d w = 0" "bg_paused b = None"
    using assms(2,3) by (auto simp: refusal_def split: option.splits if_splits)
  have "spent_usd d w + reserved_usd d w + usd (bg_reservation b) \<le> l"
    using assms(2,3) 0 by (auto simp: refusal_def split: option.splits if_splits)
  then show "ledger d w + usd (bg_reservation b) \<le> l" using ledger_split [OF ok] unknown_none [OF 0(1)] by simp
qed

fun is_configure :: "budget_event \<Rightarrow> bool" where
  "is_configure (BConfigure _ _ _ _) = True"
| "is_configure _ = False"

text \<open>The ways a reservation can go, over the reconciled tables.\<close>

lemma reserve_cases:
  assumes "reserve_target d a = Some v"
  obtains (refused) r where "reserveBudget a uuid pid alive now d = (budget_pause v r (reconcileDead alive now v d), Res_paused r)"
      and "\<exists>b. get_budget (reconcileDead alive now v d) v = Some b \<and> bg_enabled b \<and> refusal (reconcileDead alive now v d) v b now = Some r"
  | (none) "reserveBudget a uuid pid alive now d = (reconcileDead alive now v d, Res_none)"
      and "\<And>b. get_budget (reconcileDead alive now v d) v = Some b \<Longrightarrow> \<not> bg_enabled b"
  | (error) "reserveBudget a uuid pid alive now d = (d, Res_error)"
  | (granted) b r where "reserveBudget a uuid pid alive now d =
        ((reconcileDead alive now v d)\<lparr>bd_reservations := bd_reservations (reconcileDead alive now v d) @ [r]\<rparr>, Res_granted uuid)"
      and "get_budget (reconcileDead alive now v d) v = Some b" and "bg_enabled b"
      and "refusal (reconcileDead alive now v d) v b now = None"
      and "rs_id r = uuid" "rs_wi r = v" "rs_state r = B_RESERVED" "rs_reserved r = bg_reservation b" "rs_cost r = None"
      and "get_reservation (reconcileDead alive now v d) uuid = None"
proof -
  let ?d = "reconcileDead alive now v d"
  show thesis
  proof (cases "get_budget ?d v")
    case None
    then show thesis using none by (simp add: reserveBudget_def assms)
  next
    case (Some b)
    show thesis
    proof (cases "bg_enabled b")
      case False
      then show thesis using none Some by (simp add: reserveBudget_def assms)
    next
      case enabled: True
      show thesis
      proof (cases "refusal ?d v b now")
        case (Some r)
        then show thesis using refused [of r] \<open>get_budget ?d v = Some b\<close> enabled by (simp add: reserveBudget_def assms)
      next
        case None
        let ?r = "new_reservation a v uuid pid ?d b now"
        show thesis
        proof (cases "reservation_fits ?d ?r")
          case True
          then have "get_reservation ?d uuid = None" by (simp add: reservation_fits_def)
          then show thesis
            using granted [of ?r b] Some enabled None True by (simp add: reserveBudget_def assms Let_def)
        next
          case False
          then show thesis using error Some enabled None by (simp add: reserveBudget_def assms Let_def)
        qed
      qed
    qed
  qed
qed

lemma reserve_ledger:
  assumes ok: "bdb_ok d" and limit: "map_of (budget_limits d) w = Some (Some l)" and ledger: "ledger d w \<le> l"
    and honest: "honest_rows S (bd_reservations (fst (reserveBudget a uuid pid alive now d))) w"
    and S: "S \<subseteq> settled_ids d"
  shows "ledger (fst (reserveBudget a uuid pid alive now d)) w \<le> l"
    and "budget_limits (fst (reserveBudget a uuid pid alive now d)) = budget_limits d"
proof -
  have "ledger (fst (reserveBudget a uuid pid alive now d)) w \<le> l \<and>
      budget_limits (fst (reserveBudget a uuid pid alive now d)) = budget_limits d"
  proof (cases "reserve_target d a")
    case None
    then show ?thesis using ledger by (simp add: reserveBudget_def)
  next
    case (Some v)
    let ?d = "reconcileDead alive now v d"
    have r: "receipts_step d ?d" by (rule reconcileDead_receipts [OF ok])
    have ok': "bdb_ok ?d" using r ok by (simp add: receipts_step_def)
    have only: "rows_only d ?d" by (rule reconcileDead_only)
    have shrink: "ledger ?d w \<le> ledger d w" if "honest_rows S (bd_reservations ?d) w"
      by (rule ledger_shrinks [OF ok _ _ that S]) (use r only in \<open>simp_all add: receipts_step_def rows_only_def\<close>)
    have same: "ledger (budget_pause v why ?d) w = ledger ?d w" for why by (simp add: ledger_def rows_of_def)
    from Some show ?thesis
    proof (cases rule: reserve_cases [where uuid = uuid and pid = pid and alive = alive and now = now])
      case (refused r)
      then show ?thesis
        using shrink honest ledger only budget_pause_only [of ?d v r] by (simp add: same rows_only_def)
    next
      case none
      then show ?thesis using shrink honest ledger only by (simp add: rows_only_def)
    next
      case error
      then show ?thesis using ledger by simp
    next
      case (granted b r)
      have add: "ledger (?d\<lparr>bd_reservations := bd_reservations ?d @ [r]\<rparr>) w = ledger ?d w + (if v = w then usd (bg_reservation b) else 0)"
        using granted(6-8) by (auto simp: ledger_def rows_of_def row_weight_def)
      have "honest_rows S (bd_reservations ?d) w" using honest granted(1) honest_prefix by simp
      then have le: "ledger ?d w \<le> l" using shrink ledger by simp
      have "bg_limit b = Some l" if "v = w"
        using limit only granted(2) that budget_limit [of ?d w] by (simp add: rows_only_def)
      then have "v = w \<Longrightarrow> ledger ?d w + usd (bg_reservation b) \<le> l" using refusal_None(1) [OF ok' granted(4)] by simp
      then show ?thesis using le add granted(1) only by (auto simp: rows_only_def budget_limits_def)
    qed
  qed
  then show "ledger (fst (reserveBudget a uuid pid alive now d)) w \<le> l"
    and "budget_limits (fst (reserveBudget a uuid pid alive now d)) = budget_limits d" by blast+
qed

lemma other_step_only:
  assumes "\<not> is_configure ev" and "\<And>a uuid pid. ev \<noteq> BReserve a uuid pid"
  shows "rows_only d (budget_step (alive, now, ev) d)"
proof (cases ev)
  case (BReserve a uuid pid)
  then show ?thesis using assms(2) by blast
qed (use assms(1) in \<open>simp_all add: attachBudgetCall_def settleBudget_only change_only reconcile_cost_only\<close>,
  simp_all add: rows_only_def budget_limits_def)

lemma threshold_step:
  assumes ok: "bdb_ok d" and limit: "map_of (budget_limits d) w = Some (Some l)" and ledger: "ledger d w \<le> l"
    and honest: "honest_rows S (bd_reservations (budget_step (alive, now, ev) d)) w" and ev: "\<not> is_configure ev"
    and S: "S \<subseteq> settled_ids d"
  shows "ledger (budget_step (alive, now, ev) d) w \<le> l \<and> budget_limits (budget_step (alive, now, ev) d) = budget_limits d"
proof (cases "\<exists>a uuid pid. ev = BReserve a uuid pid")
  case True
  then obtain a uuid pid where e: "ev = BReserve a uuid pid" by blast
  show ?thesis using reserve_ledger [OF ok limit ledger _ S] honest unfolding e by simp
next
  case False
  then have only: "rows_only d (budget_step (alive, now, ev) d)" using other_step_only [OF ev] by blast
  have "rows_keep (bd_reservations d) (bd_reservations (budget_step (alive, now, ev) d))"
    using budget_step_receipts [OF ok] by (simp add: receipts_step_def)
  then have "ledger (budget_step (alive, now, ev) d) w \<le> ledger d w"
    by (rule ledger_shrinks [OF ok _ _ honest S]) (use only in \<open>simp add: rows_only_def\<close>)
  then show ?thesis using ledger only by (simp add: rows_only_def)
qed

lemma threshold_run:
  assumes ok: "bdb_ok d" and limit: "map_of (budget_limits d) w = Some (Some l)" and ledger: "ledger d w \<le> l"
    and S: "S \<subseteq> settled_ids d"
  shows "list_all (\<lambda>(alive, now, ev). \<not> is_configure ev) es \<Longrightarrow> honest_rows S (bd_reservations (fold budget_step es d)) w \<Longrightarrow>
    ledger (fold budget_step es d) w \<le> l \<and> budget_limits (fold budget_step es d) = budget_limits d"
proof (induction es rule: rev_induct)
  case Nil
  then show ?case using ledger by simp
next
  case (snoc e es)
  obtain alive now ev where e: "e = (alive, now, ev)" by (cases e)
  let ?d = "fold budget_step es d"
  have ok': "bdb_ok ?d" by (rule budgets.run_inv [OF ok])
  have "rows_keep (bd_reservations ?d) (bd_reservations (budget_step e ?d))"
    using budget_step_receipts [OF ok'] by (simp add: receipts_step_def)
  then have "honest_rows S (bd_reservations ?d) w" using honest_earlier snoc.prems(2) by simp
  then have ih: "ledger ?d w \<le> l" "budget_limits ?d = budget_limits d" using snoc.IH snoc.prems(1) by simp_all
  have "ledger (budget_step (alive, now, ev) ?d) w \<le> l \<and> budget_limits (budget_step (alive, now, ev) ?d) = budget_limits ?d"
    by (rule threshold_step [OF ok' _ _ _ _ settled_stay [OF S budget_run_receipts [OF ok]]]) (use ih limit snoc.prems e in simp_all)
  then show ?case using ih(2) by (simp add: e)
qed

text \<open>
  C12: The spend threshold holds. Start from consistent tables in which the work item's budget has the limit
  \<open>l\<close> and what it has committed is at most \<open>l\<close>. After any sequence of events without a reconfiguration,
  whoever crashes, if every call settled since cost at most its estimate, then the money spent, the estimates of the pending
  calls and those of the calls with unknown cost together are still at most \<open>l\<close>.
\<close>

theorem spend_threshold_holds:
  assumes "bdb_ok d" and "map_option bg_limit (get_budget d w) = Some (Some l)" and "ledger d w \<le> l"
    and "list_all (\<lambda>(alive, now, ev). \<not> is_configure ev) es"
    and "honest_rows (settled_ids d) (bd_reservations (fold budget_step es d)) w"
  shows "spent_usd (fold budget_step es d) w + reserved_usd (fold budget_step es d) w + unknown_usd (fold budget_step es d) w \<le> l"
proof -
  have "ledger (fold budget_step es d) w \<le> l"
    using threshold_run [OF assms(1) _ assms(3) subset_refl assms(4,5)] assms(2) by (simp add: budget_limit)
  then show ?thesis using ledger_split [OF budgets.run_inv [OF assms(1)]] by simp
qed

section \<open>Admission\<close>

lemma pause_pauses:
  assumes "get_budget d w = Some b" "bg_enabled b" "w \<noteq> 0" and "bg_paused b \<noteq> None \<or> r \<noteq> R_UNKNOWN \<or> bg_limit b \<noteq> None"
  shows "isBudgetPaused (Some w) (budget_pause w r d)"
proof -
  have b: "b \<in> set (bd_budgets d)" "bg_wi b = w" using assms(1) by (auto simp: get_budget_def find_Some_iff)
  let ?f = "\<lambda>b. if bg_wi b = w \<and> bg_enabled b \<and> bg_paused b \<noteq> Some r \<and> (r \<noteq> R_UNKNOWN \<or> bg_limit b \<noteq> None)
     then b\<lparr>bg_paused := Some r\<rparr> else b"
  have "bg_wi (?f b) = w" "bg_enabled (?f b)" "bg_paused (?f b) \<noteq> None"
    using b(2) assms(2,4) by auto
  moreover have "?f b \<in> set (bd_budgets (budget_pause w r d))" using b(1) by (simp add: budget_pause_def)
  ultimately show ?thesis using assms(3) by (auto simp: isBudgetPaused_def list_ex_iff)
qed

lemma refusal_pauses:
  "refusal d w b now = Some r \<Longrightarrow> bg_paused b \<noteq> None \<or> r \<noteq> R_UNKNOWN \<or> bg_limit b \<noteq> None"
  by (auto simp: refusal_def budget_words split: option.splits if_splits)

text \<open>
  C20: Admission control is safe. A granted reservation means that, in the tables after the dead reservations were
  reconciled, the budget of the work item is enabled and not paused, its deadline lies ahead, and under a spend threshold no
  cost is unknown and everything spent and reserved, this call included, stays within the threshold; exactly the new
  pending row is added. A refusal adds no row and leaves the budget paused, for every other process to see. A violated
  constraint changes nothing.
\<close>

theorem admission_is_safe:
  assumes "reserve_target d a = Some w" and "w \<noteq> 0"
  shows "let d1 = reconcileDead alive now w d; (d2, res) = reserveBudget a uuid pid alive now d in
    case res of
      Res_granted r \<Rightarrow> r = uuid \<and> get_reservation d1 r = None \<and> (case get_budget d1 w of None \<Rightarrow> False
        | Some b \<Rightarrow> bg_enabled b \<and> bg_paused b = None \<and> (case bg_deadline b of None \<Rightarrow> True | Some t \<Rightarrow> now < t) \<and>
            (case bg_limit b of None \<Rightarrow> True
             | Some l \<Rightarrow> unknown_costs d2 w = 0 \<and> spent_usd d2 w + reserved_usd d2 w \<le> l)) \<and>
        bd_reservations d2 \<noteq> [] \<and> butlast (bd_reservations d2) = bd_reservations d1 \<and>
        (let r = last (bd_reservations d2) in rs_id r = uuid \<and> rs_wi r = w \<and> rs_state r = B_RESERVED) \<and> bd_budgets d2 = bd_budgets d1
    | Res_paused r \<Rightarrow> bd_reservations d2 = bd_reservations d1 \<and> isBudgetPaused (Some w) d2
    | Res_none \<Rightarrow> d2 = d1 \<and> (case get_budget d1 w of None \<Rightarrow> True | Some b \<Rightarrow> \<not> bg_enabled b)
    | Res_error \<Rightarrow> d2 = d"
proof -
  let ?d = "reconcileDead alive now w d"
  from assms(1) show ?thesis
  proof (cases rule: reserve_cases [where uuid = uuid and pid = pid and alive = alive and now = now])
    case (refused r)
    then obtain b where "get_budget ?d w = Some b" "bg_enabled b" "refusal ?d w b now = Some r" by blast
    then show ?thesis using pause_pauses assms(2) refused(1) refusal_pauses by (simp add: Let_def)
  next
    case none
    then show ?thesis by (simp add: Let_def split: option.splits)
  next
    case error
    then show ?thesis by (simp add: Let_def)
  next
    case (granted b r)
    let ?d2 = "?d\<lparr>bd_reservations := bd_reservations ?d @ [r]\<rparr>"
    have rows: "rows_of ?d2 w = rows_of ?d w @ [r]" using granted(6) by (simp add: rows_of_def)
    have "bg_paused b = None" and dl: "case bg_deadline b of None \<Rightarrow> True | Some t \<Rightarrow> now < t"
      using granted(4) by (auto simp: refusal_def split: option.splits if_splits)
    moreover have "case bg_limit b of None \<Rightarrow> True
        | Some l \<Rightarrow> unknown_costs ?d2 w = 0 \<and> spent_usd ?d2 w + reserved_usd ?d2 w \<le> l"
      using granted(4,7-9)
      by (auto simp: refusal_def unknown_costs_def spent_usd_def reserved_usd_def rows add.assoc split: option.splits if_splits)
    ultimately show ?thesis using granted by (simp add: Let_def)
  qed
qed

lemma settle_row_found:
  assumes "get_reservation d rid = Some row"
  shows "row \<in> set (bd_reservations d)" "rs_id row = rid"
  using assms by (auto simp: get_reservation_def find_Some_iff)

text \<open>
  Overruns stop the work item. Settling a pending call of a work item whose enabled budget has a spend threshold
  takes the call off the pending ones; when its cost is not known, or what is spent and still reserved reaches the
  threshold, the budget is paused afterwards.
\<close>

theorem settling_pauses_overruns:
  assumes "bdb_ok d" and "get_reservation d rid = Some row" and "rs_state row = B_RESERVED"
    and "get_budget d (rs_wi row) = Some b" and "bg_enabled b" and "bg_limit b = Some l" and "rs_wi row \<noteq> 0"
  shows "let d' = settleBudget (Some rid) nd now d; w = rs_wi row in
    (case get_reservation d' rid of None \<Rightarrow> False
     | Some r \<Rightarrow> (if nd then rs_state r = B_SETTLED \<and> rs_cost r = Some 0
         else rs_cost r = completedCost row d \<and> rs_state r = (if completedCost row d = None then B_UNKNOWN else B_SETTLED)) \<and>
       (if rs_state r = B_UNKNOWN \<or> l \<le> spent_usd d' w + reserved_usd d' w then isBudgetPaused (Some w) d'
        else bd_budgets d' = bd_budgets d))"
proof -
  let ?cost = "if nd then Some 0 else completedCost row d"
  let ?d1 = "upd_reservation rid (close_reservation now ?cost None) d"
  let ?w = "rs_wi row"
  have id: "rs_id row = rid" using settle_row_found [OF assms(2)] by simp
  have found: "get_reservation ?d1 rid = Some (close_reservation now ?cost None row)"
  proof -
    have "find (\<lambda>x. rs_id x = rid) (map (\<lambda>x. if rs_id x = rid then close_reservation now ?cost None x else x) rs) =
        map_option (close_reservation now ?cost None) (find (\<lambda>x. rs_id x = rid) rs)" for rs
      by (induction rs) (auto simp: close_reservation_def)
    then show ?thesis using assms(2) by (simp add: get_reservation_def upd_reservation_def)
  qed
  have bud: "get_budget ?d1 ?w = Some b" using assms(4) by (simp add: get_budget_def)
  have eq: "settleBudget (Some rid) nd now d = (if ?cost = None then budget_pause ?w R_UNKNOWN ?d1
      else if l \<le> spent_usd ?d1 ?w + reserved_usd ?d1 ?w then budget_pause ?w R_SPEND ?d1 else ?d1)"
    using assms(2,3,5,6) id bud by (simp add: settleBudget_def Let_def)
  have same: "get_reservation (budget_pause v r x) rid = get_reservation x rid"
    "spent_usd (budget_pause v r x) v = spent_usd x v" "reserved_usd (budget_pause v r x) v = reserved_usd x v" for v r x
    by (simp_all add: get_reservation_def spent_usd_def reserved_usd_def rows_of_def)
  have paused: "isBudgetPaused (Some ?w) (budget_pause ?w r ?d1)" for r
    by (rule pause_pauses [OF bud assms(5,7)]) (simp add: assms(6))
  have row: "rs_state (close_reservation now ?cost None row) = (if ?cost = None then B_UNKNOWN else B_SETTLED)"
    "rs_cost (close_reservation now ?cost None row) = ?cost"
    by (simp_all add: close_reservation_def)
  show ?thesis
    unfolding Let_def eq using found same paused row by (cases "completedCost row d"; cases nd) (auto simp: close_reservation_def)
qed

section \<open>An instance\<close>

text \<open>
  A work item with a threshold of 10 dollars and an estimate of 4 per call: two calls are admitted, the first costs 3, the
  second one's process dies, and a third call is refused.
\<close>

definition ex_tables :: bdb where
  "ex_tables = \<lparr>bd_wis = [1], bd_jobs = [(5, 1)], bd_attempts = [(9, 5, ''running'')], bd_calls = [],
     bd_budgets = [\<lparr>bg_wi = 1, bg_enabled = True, bg_limit = Some 10, bg_reservation = Some 4, bg_deadline = None,
       bg_paused = None, bg_audit = []\<rparr>], bd_reservations = []\<rparr>"

definition ex_args :: reserve_args where
  "ex_args = \<lparr>ra_wi = None, ra_job = Some 5, ra_attempt = None, ra_parent = None, ra_provider = None, ra_model = None, ra_role = None\<rparr>"

definition ex_call :: agent_call where
  "ex_call = \<lparr>ac_id = 7, ac_wi = 1, ac_job = Some 5, ac_attempt = Some 9, ac_status = ''running'', ac_precision = None, ac_cost = None,
     ac_provider = None, ac_model = None, ac_role = None, ac_started = None, ac_finished = None\<rparr>"

definition ex_events :: "((int \<Rightarrow> bool) \<times> int \<times> budget_event) list" where
  "ex_events = [((\<lambda>p. True), 100, BReserve ex_args ''a'' 1), ((\<lambda>p. True), 110, BCall ex_call), ((\<lambda>p. True), 110, BAttach ''a'' 7),
     ((\<lambda>p. True), 120, BReserve ex_args ''b'' 2), ((\<lambda>p. True), 130, BCallDone 7 ''completed'' (Some ''exact'') (Some 3) None),
     ((\<lambda>p. True), 140, BSettle ''a'' False), ((\<lambda>p. p = 1), 150, BReserve ex_args ''c'' 1)]"

lemmas ex_budget_defs = ex_tables_def ex_args_def ex_call_def ex_events_def

definition ex_after :: bdb where
  "ex_after = fold budget_step ex_events ex_tables"

lemma ex_after_states: "map (\<lambda>r. (rs_id r, rs_state r)) (bd_reservations ex_after) = [(''a'', B_SETTLED), (''b'', B_UNKNOWN)] \<and>
   map bg_paused (bd_budgets ex_after) = [Some R_UNKNOWN]"
  by code_simp

lemma ex_tables_ok: "bdb_ok ex_tables"
  by code_simp


theorem spend_threshold_holds_witness:
  "spent_usd (fold budget_step ex_events ex_tables) 1 + reserved_usd (fold budget_step ex_events ex_tables) 1 +
     unknown_usd (fold budget_step ex_events ex_tables) 1 \<le> 10"
proof (rule spend_threshold_holds [OF ex_tables_ok])
  show "map_option bg_limit (get_budget ex_tables 1) = Some (Some 10)" by code_simp
  show "ledger ex_tables 1 \<le> 10" by code_simp
  show "list_all (\<lambda>(alive, now, ev). \<not> is_configure ev) ex_events" by code_simp
  show "honest_rows (settled_ids ex_tables) (bd_reservations (fold budget_step ex_events ex_tables)) 1" by code_simp
qed

theorem admission_is_safe_witness:
  "let d2 = fst (reserveBudget ex_args ''a'' 1 (\<lambda>p. True) 100 ex_tables) in
     snd (reserveBudget ex_args ''a'' 1 (\<lambda>p. True) 100 ex_tables) = Res_granted ''a'' \<and>
     spent_usd d2 1 + reserved_usd d2 1 \<le> 10 \<and> reserved_usd d2 1 = 4"
proof -
  let ?r = "reserveBudget ex_args ''a'' 1 (\<lambda>p. True) 100 ex_tables"
  have g: "snd ?r = Res_granted ''a''" by code_simp
  have b: "map_option bg_limit (get_budget (reconcileDead (\<lambda>p. True) 100 1 ex_tables) 1) = Some (Some 10)" by code_simp
  have "reserve_target ex_tables ex_args = Some 1" by code_simp
  from admission_is_safe [OF this, of "\<lambda>p. True" 100 "''a''" 1]
  have "spent_usd (fst ?r) 1 + reserved_usd (fst ?r) 1 \<le> 10"
    using g b by (cases ?r) (simp add: Let_def split: option.splits)
  moreover have "reserved_usd (fst ?r) 1 = 4" by code_simp
  ultimately show ?thesis using g by (simp add: Let_def)
qed

theorem settling_pauses_overruns_witness:
  "isBudgetPaused (Some 1) (settleBudget (Some ''a'') False 140 (fst (reserveBudget ex_args ''a'' 1 (\<lambda>p. True) 100 ex_tables)))"
proof -
  let ?d = "fst (reserveBudget ex_args ''a'' 1 (\<lambda>p. True) 100 ex_tables)"
  let ?row = "hd (bd_reservations ?d)" and ?b = "hd (bd_budgets ?d)"
  have "bdb_ok ?d" by code_simp
  moreover have "get_reservation ?d ''a'' = Some ?row" by code_simp
  moreover have "rs_state ?row = B_RESERVED" by code_simp
  moreover have wi: "rs_wi ?row = 1" by code_simp
  moreover have "get_budget ?d (rs_wi ?row) = Some ?b" by code_simp
  moreover have "bg_enabled ?b" by code_simp
  moreover have "bg_limit ?b = Some 10" by code_simp
  ultimately have "let d' = settleBudget (Some ''a'') False 140 ?d; w = rs_wi ?row in
    (case get_reservation d' ''a'' of None \<Rightarrow> False
     | Some r \<Rightarrow> (if False then rs_state r = B_SETTLED \<and> rs_cost r = Some 0
         else rs_cost r = completedCost ?row ?d \<and> rs_state r = (if completedCost ?row ?d = None then B_UNKNOWN else B_SETTLED)) \<and>
       (if rs_state r = B_UNKNOWN \<or> 10 \<le> spent_usd d' w + reserved_usd d' w then isBudgetPaused (Some w) d'
        else bd_budgets d' = bd_budgets ?d))"
    by (intro settling_pauses_overruns) simp_all
  moreover have "completedCost ?row ?d = None" by code_simp
  ultimately show ?thesis unfolding wi Let_def by (simp del: One_nat_def split: option.splits)
qed

end
