(* ===== verification/GateContracts.thy ===== *)
theory GateContracts
  imports Leases
begin

text \<open>
  The contracts of human gates (\<open>catalog/human-input.js\<close>, with the question vocabulary of
  \<open>catalog/tools/interaction.js\<close>): what each gate offers and accepts, in which states of the original job its
  answer still applies, what a payload narrows the offer to, and which choice an answer selects.

  A payload is kept as the fields that are read. A field that is not of the type the code tests for
  (\<open>typeof x === "string"\<close>, \<open>Array.isArray\<close>) is \<open>None\<close>; an array of which only the length is read is its
  length; an id is the integer \<open>Number\<close> reads, 0 for one it cannot read. A thrown error is \<open>Inl\<close> of its message.
\<close>

section \<open>Vocabulary\<close>

definition FAILED_JOB_STATUSES :: "string list" where
  "FAILED_JOB_STATUSES = [''failed'', ''dead_letter'']"

definition WORK_ITEM_QUESTION_CHOICE_IDS :: "(string \<times> string list) list" where
  "WORK_ITEM_QUESTION_CHOICE_IDS = [
     (''clarification'', []),
     (''planner_clarification'', []),
     (''dirty_worktree_recovery'', [''commit'', ''send_back'', ''fail'']),
     (''assessment_evidence_missing'', [''send_back'', ''retry_assessment'', ''retry'', ''replan'', ''pass'', ''fail'', ''explicit_waiver'']),
     (''stall_exhausted_recovery'', [''retry'', ''retry:claude'', ''retry:anthropic'', ''retry:openai'', ''retry:codex'', ''retry:grok'', ''skip'', ''fail'']),
     (''failure_threshold_exhausted'', [''retry'', ''replan'', ''fail'', ''explicit_waiver'']),
     (''fix_chain_exhausted'', [''retry'', ''replan'', ''fail'', ''explicit_waiver'']),
     (''plan_approval'', [''approve'', ''reject'']),
     (''file_scope_approval'', [''approve'', ''reject'']),
     (''environment_setup'', [''approve'', ''reject'']),
     (''assessment_review'', [''send_back'', ''retry_assessment'', ''replan'', ''pass'', ''fail'', ''explicit_waiver'']),
     (''assessment_transport_recovery'', [''send_back'', ''retry_assessment'', ''retry'', ''replan'', ''pass'', ''fail'', ''explicit_waiver'']),
     (''assessment_retry_limit'', [''send_back'', ''retry_assessment'', ''replan'', ''pass'', ''fail'', ''explicit_waiver'']),
     (''unexecuted_replan_recovery'', [''replan'', ''fail'', ''explicit_waiver'']),
     (''blocked_recovery'', [''retry'', ''replan'', ''fail'', ''explicit_waiver'']),
     (''partial_work_recovery'', [''extend'', ''commit'', ''revert'']),
     (''dead_letter_recovery'', [''retry'', ''retry:claude'', ''retry:anthropic'', ''retry:openai'', ''retry:codex'', ''retry:grok'', ''skip'', ''fail'']),
     (''pipeline_head_recovery'', [''replan'', ''pass'', ''fail'', ''explicit_waiver'']),
     (''artifact_routing_admin'', [''acknowledge'']),
     (''one_shot_file_scope'', [''plan'', ''cancel'']),
     (''push_offer'', [''push'', ''decline'']),
     (''shared_trunk_publication_unprovable'', [''acknowledge'']),
     (''shared_trunk_fast_forward_blocked'', [''acknowledge'']),
     (''shared_trunk_push_refused'', [''acknowledge'']),
     (''shared_trunk_push_remote_error'', [''acknowledge'']),
     (''shared_trunk_provenance'', [''accept'', ''reject'']),
     (''work_item_failure_disposition'', [''retry'', ''accept'', ''abandon'']),
     (''cross_wi_upstream_disposition'', [''wait'', ''rebuild'', ''abandon'']),
     (''merge_verification_review'', [''pass'', ''fail'']),
     (''merge_failure_recovery'', [''merge'', ''commit'', ''waive_tests'', ''send_back'']),
     (''post_merge_db_task'', [''run'', ''skip'']),
     (''legacy_unstructured'', [])]"

text \<open>What each gate offers and accepts; a question without choices takes free text.\<close>

definition HUMAN_GATE_ACTIONS :: "(string \<times> string list) list" where
  "HUMAN_GATE_ACTIONS = map (\<lambda>(kind, choices). (kind, if choices \<noteq> [] then choices else [''respond'']))
     (filter (\<lambda>(kind, choices). kind \<noteq> ''legacy_unstructured'') WORK_ITEM_QUESTION_CHOICE_IDS)"

definition gate_actions :: "string \<Rightarrow> string list" where
  "gate_actions kind = (case map_of HUMAN_GATE_ACTIONS kind of None \<Rightarrow> [] | Some xs \<Rightarrow> xs)"

definition WORK_ITEM_DISPOSITION_REVIEW_TYPES :: "string list" where
  "WORK_ITEM_DISPOSITION_REVIEW_TYPES = [''work_item_failure_disposition'', ''cross_wi_upstream_disposition'']"

text \<open>The review types whose stored choices may be any ordered part of the offer.\<close>

definition SUBSET_REVIEW_TYPES :: "string list" where
  "SUBSET_REVIEW_TYPES = [''assessment_review'', ''assessment_evidence_missing'', ''assessment_transport_recovery'',
     ''assessment_retry_limit'', ''pipeline_head_recovery'', ''unexecuted_replan_recovery'']"

section \<open>Payloads\<close>

record payload =
  pl_gate_kind :: "string option"
  pl_review_type :: "string option"
  pl_subtype :: "string option"
  pl_question_kind :: "string option"
  pl_file_requests :: nat
  pl_choices :: "string list option"
  pl_options :: "string list option"
  pl_acceptable :: "nat option"
  pl_candidate :: bool
  pl_original :: "int option"
  pl_plan_job :: "int option"
  pl_interactive :: bool
  pl_resurfaced :: nat
  pl_presented :: "string option"
  pl_presented_at :: "int option"

text \<open>A text field as \<open>String(x || "").trim()\<close>.\<close>

definition trimmed :: "string option \<Rightarrow> string" where
  "trimmed v = (case v of None \<Rightarrow> [] | Some s \<Rightarrow> js_trim s)"

definition gate_identities :: "payload \<Rightarrow> string list" where
  "gate_identities p = filter (\<lambda>s. s \<noteq> []) (map trimmed [pl_gate_kind p, pl_review_type p, pl_subtype p, pl_question_kind p])"

fun join_text :: "string \<Rightarrow> string list \<Rightarrow> string" where
  "join_text sep [] = []"
| "join_text sep [s] = s"
| "join_text sep (s # t # ss) = s @ sep @ join_text sep (t # ss)"

definition humanGateNameForPayload :: "payload \<Rightarrow> string + string" where
  "humanGateNameForPayload p =
     (let name = (case gate_identities p of s # _ \<Rightarrow> s
        | [] \<Rightarrow> if pl_file_requests p > 0 then ''file_scope_approval'' else ''clarification'')
      in if map_of HUMAN_GATE_ACTIONS name = None then Inl (''Unknown canonical gate ID: '' @ name)
         else if list_ex (\<lambda>s. s \<noteq> name) (gate_identities p) then Inl (''Gate identity mismatch: '' @ join_text '' != '' (gate_identities p))
         else Inr name)"

section \<open>Choices\<close>

text \<open>\<open>filter((x, i, all) => all.indexOf(x) === i)\<close> keeps the first of equal values, as a \<open>Set\<close> does.\<close>

definition js_unique :: "'a list \<Rightarrow> 'a list" where
  "js_unique xs = rev (remdups (rev xs))"

definition normalizeChoices :: "string list option \<Rightarrow> string list" where
  "normalizeChoices choices = (case choices of None \<Rightarrow> []
     | Some xs \<Rightarrow> js_unique (filter (\<lambda>s. s \<noteq> []) (map js_trim xs)))"

text \<open>With the default limit of nine.\<close>

definition normalizeHumanInputChoices :: "string list option \<Rightarrow> string list" where
  "normalizeHumanInputChoices choices = take 9 (normalizeChoices choices)"

definition humanInputChoicesForReviewType :: "string \<Rightarrow> string list" where
  "humanInputChoicesForReviewType reviewType = gate_actions (js_trim reviewType)"

definition mergeFailureRecoveryChoices :: "bool \<Rightarrow> bool option \<Rightarrow> string list \<Rightarrow> string list" where
  "mergeFailureRecoveryChoices candidate allowWaive choices =
     (let canWaive = allowWaive \<noteq> Some False \<and> candidate \<and> (choices = [] \<or> ''waive_tests'' \<in> set choices)
      in filter (\<lambda>c. c \<noteq> ''waive_tests'' \<or> canWaive) (humanInputChoicesForReviewType ''merge_failure_recovery''))"

fun index_of :: "'a \<Rightarrow> 'a list \<Rightarrow> nat option" where
  "index_of x [] = None"
| "index_of x (y # ys) = (if x = y then Some 0 else map_option Suc (index_of x ys))"

definition ordered_part :: "'a list \<Rightarrow> 'a list \<Rightarrow> bool" where
  "ordered_part offered xs \<longleftrightarrow> list_all (\<lambda>a. a \<in> set xs) offered \<and> sorted_wrt (<) (map (\<lambda>a. the (index_of a xs)) offered)"

definition narrowedReviewChoices :: "payload \<Rightarrow> string list \<Rightarrow> string list" where
  "narrowedReviewChoices p reviewChoices =
     (let reviewType = trimmed (pl_review_type p); offered = normalizeHumanInputChoices (pl_choices p)
      in if reviewType \<in> set SUBSET_REVIEW_TYPES \<and> offered \<noteq> [] \<and> ordered_part offered reviewChoices then offered
         else if reviewType = ''merge_failure_recovery'' then mergeFailureRecoveryChoices (pl_candidate p) None offered
         else if reviewType \<notin> set WORK_ITEM_DISPOSITION_REVIEW_TYPES then reviewChoices
         else let acceptUnavailable = (reviewType = ''work_item_failure_disposition'' \<and> pl_acceptable p = Some 0);
                  narrowed = filter (\<lambda>c. c \<in> set offered \<and> \<not> (acceptUnavailable \<and> c = ''accept'')) reviewChoices
              in if narrowed \<noteq> [] then narrowed
                 else if acceptUnavailable then filter (\<lambda>c. c \<noteq> ''accept'') reviewChoices else reviewChoices)"

text \<open>\<open>/^candidate:sha256:[0-9a-f]{64}$/\<close>\<close>

definition candidate_choice :: "string \<Rightarrow> bool" where
  "candidate_choice s \<longleftrightarrow> length s = 81 \<and> take 17 s = ''candidate:sha256:'' \<and> list_all (\<lambda>c. c \<in> set ''0123456789abcdef'') (drop 17 s)"

text \<open>The choices of a scope selector: the candidates, then \<open>plan\<close> and \<open>cancel\<close>.\<close>

definition selector_choices :: "payload \<Rightarrow> string list option" where
  "selector_choices p = (case pl_options p of None \<Rightarrow> None
     | Some choices \<Rightarrow> if 3 \<le> length choices \<and> length choices \<le> 12 \<and> distinct choices \<and> last (butlast choices) = ''plan'' \<and>
         last choices = ''cancel'' \<and> list_all candidate_choice (take (length choices - 2) choices) then Some choices else None)"

definition humanInputChoicesForPayload :: "payload \<Rightarrow> string + string list" where
  "humanInputChoicesForPayload p = (case humanGateNameForPayload p of Inl e \<Rightarrow> Inl e
     | Inr kind \<Rightarrow> Inr (case (if kind = ''one_shot_file_scope'' then selector_choices p else None) of Some choices \<Rightarrow> choices
       | None \<Rightarrow>
         let reviewChoices = filter (\<lambda>c. c \<noteq> ''respond'') (humanInputChoicesForReviewType kind)
         in if reviewChoices \<noteq> [] then narrowedReviewChoices p reviewChoices
            else let explicit = normalizeHumanInputChoices (pl_choices p)
              in if explicit \<noteq> [] then explicit
                 else if pl_file_requests p > 0 then [''approve'', ''reject''] else []))"

section \<open>Contracts\<close>

record actionability =
  ay_unresolved_fact :: string
  ay_human_contribution :: string
  ay_headless_behavior :: string
  ay_diagnostic_insufficient_reason :: string

definition gate_profile :: "string \<Rightarrow> string \<Rightarrow> string \<Rightarrow> string \<Rightarrow> actionability" where
  "gate_profile unresolved contribution headless diagnostic = \<lparr>ay_unresolved_fact = unresolved, ay_human_contribution = contribution,
     ay_headless_behavior = headless, ay_diagnostic_insufficient_reason = diagnostic\<rparr>"

definition DEFAULT_HUMAN_GATE_SOURCE_STATES :: "string list" where
  "DEFAULT_HUMAN_GATE_SOURCE_STATES = filter (\<lambda>s. s \<notin> {''leased'', ''awaiting_assessment'', ''canceled''}) JOB_STATUSES"

definition HUMAN_GATE_CONTRACTS :: "(string \<times> string list) list" where
  "HUMAN_GATE_CONTRACTS = [
     (''clarification'', DEFAULT_HUMAN_GATE_SOURCE_STATES),
     (''one_shot_file_scope'', DEFAULT_HUMAN_GATE_SOURCE_STATES),
     (''plan_approval'', DEFAULT_HUMAN_GATE_SOURCE_STATES),
     (''push_offer'', DEFAULT_HUMAN_GATE_SOURCE_STATES),
     (''planner_clarification'', [''running'']),
     (''environment_setup'', [''running'']),
     (''file_scope_approval'', [''running'', ''blocked'', ''waiting_on_human'', ''waiting_on_review'', ''succeeded'', ''failed'']),
     (''dirty_worktree_recovery'', [''waiting_on_human'', ''waiting_on_review'', ''blocked'']),
     (''partial_work_recovery'', [''running'', ''blocked'', ''waiting_on_human'']),
     (''blocked_recovery'', [''blocked'', ''waiting_on_human'', ''waiting_on_review''] @ FAILED_JOB_STATUSES),
     (''dead_letter_recovery'', FAILED_JOB_STATUSES @ [''waiting_on_human'']),
     (''stall_exhausted_recovery'', FAILED_JOB_STATUSES @ [''blocked'', ''waiting_on_human'']),
     (''assessment_review'', [''awaiting_assessment'', ''waiting_on_review'', ''waiting_on_human'', ''succeeded'']),
     (''assessment_evidence_missing'', [''awaiting_assessment'', ''waiting_on_review'', ''waiting_on_human'', ''succeeded'']),
     (''assessment_transport_recovery'', [''awaiting_assessment'', ''waiting_on_review'', ''waiting_on_human'', ''succeeded'']),
     (''assessment_retry_limit'', [''awaiting_assessment'', ''waiting_on_review'', ''waiting_on_human'', ''succeeded'']),
     (''pipeline_head_recovery'', [''waiting_on_review'', ''waiting_on_human''] @ FAILED_JOB_STATUSES),
     (''unexecuted_replan_recovery'', [''waiting_on_review'', ''waiting_on_human''] @ FAILED_JOB_STATUSES),
     (''artifact_routing_admin'', [''waiting_on_review'', ''waiting_on_human''] @ FAILED_JOB_STATUSES),
     (''shared_trunk_publication_unprovable'', DEFAULT_HUMAN_GATE_SOURCE_STATES),
     (''shared_trunk_fast_forward_blocked'', DEFAULT_HUMAN_GATE_SOURCE_STATES),
     (''shared_trunk_push_refused'', DEFAULT_HUMAN_GATE_SOURCE_STATES),
     (''shared_trunk_push_remote_error'', DEFAULT_HUMAN_GATE_SOURCE_STATES),
     (''shared_trunk_provenance'', [''waiting_on_human'', ''succeeded'']),
     (''post_merge_db_task'', [''waiting_on_human'']),
     (''merge_verification_review'', [''succeeded'']),
     (''merge_failure_recovery'', [''succeeded'']),
     (''work_item_failure_disposition'', [''waiting_on_human'']),
     (''cross_wi_upstream_disposition'', [''waiting_on_human'']),
     (''failure_threshold_exhausted'', [''blocked'', ''waiting_on_human'', ''waiting_on_review''] @ FAILED_JOB_STATUSES),
     (''fix_chain_exhausted'', [''blocked'', ''waiting_on_human'', ''waiting_on_review''] @ FAILED_JOB_STATUSES)]"

definition HUMAN_GATE_ACTIONABILITY_PROFILES :: "(string \<times> actionability) list" where
  "HUMAN_GATE_ACTIONABILITY_PROFILES = [
     (''clarification'', gate_profile ''A task requirement cannot be derived from repository and work-item evidence.''
        ''ambiguity_resolution''
        ''continue_with_best_judgment''
        ''Continuing without an answer requires an explicit best-judgment assumption.''),
     (''one_shot_file_scope'', gate_profile ''Which candidate file or scope the one-shot request intends to modify.''
        ''ambiguity_resolution''
        ''use_deterministic_best_scope_or_fail_closed''
        ''Multiple plausible mutation scopes remain after automatic inference.''),
     (''plan_approval'', gate_profile ''Whether the proposed implementation plan is authorized to execute.''
        ''authority''
        ''use_configured_plan_approval_policy''
        ''Plan approval grants execution authority rather than supplying a discoverable fact.''),
     (''push_offer'', gate_profile ''Whether committed work may be pushed to the configured remote.''
        ''merge_push_choice''
        ''do_not_push''
        ''Remote publication requires an explicit operator choice.''),
     (''planner_clarification'', gate_profile ''A task requirement cannot be derived from repository and work-item evidence.''
        ''ambiguity_resolution''
        ''continue_with_best_judgment''
        ''Continuing without an answer requires an explicit best-judgment assumption.''),
     (''environment_setup'', gate_profile ''Whether this exact installer or database initializer may run on the user machine.''
        ''authority''
        ''fail_closed''
        ''Only explicit user approval authorizes environment setup.''),
     (''file_scope_approval'', gate_profile ''Whether the required out-of-scope files may be added to mutation authority.''
        ''authority''
        ''fail_closed''
        ''Repository evidence cannot expand the operator-approved scope.''),
     (''dirty_worktree_recovery'', gate_profile ''Which authorized recovery path should follow the developer block.''
        ''recovery_choice''
        ''fail_closed''
        ''The available recovery choices spend different authority and budget.''),
     (''partial_work_recovery'', gate_profile ''Whether partial work should receive more budget, be preserved, or be discarded.''
        ''recovery_choice''
        ''preserve_and_fail_closed''
        ''Each action intentionally changes ownership or preservation state.''),
     (''blocked_recovery'', gate_profile ''Which authorized recovery path should follow the developer block.''
        ''recovery_choice''
        ''fail_closed''
        ''The available recovery choices spend different authority and budget.''),
     (''dead_letter_recovery'', gate_profile ''Whether terminal work should be retried through a selected provider, waived, or failed.''
        ''recovery_choice''
        ''fail_closed''
        ''Recovering terminal work spends authority and execution budget.''),
     (''stall_exhausted_recovery'', gate_profile ''A task requirement cannot be derived from repository and work-item evidence.''
        ''ambiguity_resolution''
        ''continue_with_best_judgment''
        ''Continuing without an answer requires an explicit best-judgment assumption.''),
     (''assessment_review'', gate_profile ''Whether available evidence justifies acceptance, rejection, waiver, or another assessment.''
        ''semantic_judgment''
        ''fail_closed''
        ''The bounded automatic assessment path has already exhausted its evidence or judgment budget.''),
     (''assessment_evidence_missing'', gate_profile ''Whether to retry evidence acquisition, reject, replan, or explicitly waive missing evidence.''
        ''authority''
        ''fail_closed''
        ''Only an explicit waiver may substitute for required evidence.''),
     (''assessment_transport_recovery'', gate_profile ''Whether to authorize another assessment attempt or choose a terminal disposition.''
        ''recovery_choice''
        ''fail_closed''
        ''Automatic assessment transport retries are exhausted.''),
     (''assessment_retry_limit'', gate_profile ''Whether to spend more assessment budget, replan, reject, or explicitly waive verification.''
        ''authority''
        ''fail_closed''
        ''The configured automatic assessment budget is exhausted.''),
     (''pipeline_head_recovery'', gate_profile ''Whether to authorize a new strategy, reject the work, or waive the remaining defect.''
        ''authority''
        ''fail_closed''
        ''The configured automatic repair strategy budget is exhausted.''),
     (''unexecuted_replan_recovery'', gate_profile ''Whether to authorize a new strategy, reject the work, or waive the remaining defect.''
        ''authority''
        ''fail_closed''
        ''The configured automatic repair strategy budget is exhausted.''),
     (''artifact_routing_admin'', gate_profile ''A task requirement cannot be derived from repository and work-item evidence.''
        ''ambiguity_resolution''
        ''continue_with_best_judgment''
        ''Continuing without an answer requires an explicit best-judgment assumption.''),
     (''shared_trunk_publication_unprovable'', gate_profile ''Whether the operator has inspected and repaired the shared-trunk condition.''
        ''recovery_choice''
        ''fail_closed''
        ''Acknowledgement records an operator decision before shared-trunk recovery resumes.''),
     (''shared_trunk_fast_forward_blocked'', gate_profile ''Whether the operator has inspected and repaired the shared-trunk condition.''
        ''recovery_choice''
        ''fail_closed''
        ''Acknowledgement records an operator decision before shared-trunk recovery resumes.''),
     (''shared_trunk_push_refused'', gate_profile ''Whether the operator has inspected and repaired the shared-trunk condition.''
        ''recovery_choice''
        ''fail_closed''
        ''Acknowledgement records an operator decision before shared-trunk recovery resumes.''),
     (''shared_trunk_push_remote_error'', gate_profile ''Whether the operator has inspected and repaired the shared-trunk condition.''
        ''recovery_choice''
        ''fail_closed''
        ''Acknowledgement records an operator decision before shared-trunk recovery resumes.''),
     (''shared_trunk_provenance'', gate_profile ''A task requirement cannot be derived from repository and work-item evidence.''
        ''ambiguity_resolution''
        ''continue_with_best_judgment''
        ''Continuing without an answer requires an explicit best-judgment assumption.''),
     (''post_merge_db_task'', gate_profile ''Whether the merged change is deployed, so its deferred task may write the project database.''
        ''authority''
        ''do_not_run''
        ''Posse cannot observe when the operator deploys the merged change.''),
     (''merge_verification_review'', gate_profile ''Whether work whose planned verification could not run may merge on review alone.''
        ''authority''
        ''do_not_merge''
        ''The planned test already failed before the change, so no executed check shows the risky change works.''),
     (''merge_failure_recovery'', gate_profile ''Whether the repository condition that stopped the merge is resolved, so the work item can merge now, or the work must go back for rework.''
        ''recovery_choice''
        ''do_not_merge''
        ''Git refused the merge; only the operator can resolve the conflict or repository condition behind it.''),
     (''work_item_failure_disposition'', gate_profile ''Whether a failed work item's branch should be retried, accepted despite assessment-only failures, or abandoned.''
        ''recovery_choice''
        ''leave_parked''
        ''Each choice spends execution budget, overrides an assessor verdict, or discards committed work.''),
     (''cross_wi_upstream_disposition'', gate_profile ''Whether a completed work item should wait for its failed upstream, be rebuilt without the inherited edits, or be abandoned.''
        ''recovery_choice''
        ''leave_parked''
        ''Only the operator knows whether the failed upstream work item will be recovered.''),
     (''failure_threshold_exhausted'', gate_profile ''Which authorized recovery path should follow the developer block.''
        ''recovery_choice''
        ''fail_closed''
        ''The available recovery choices spend different authority and budget.''),
     (''fix_chain_exhausted'', gate_profile ''Which authorized recovery path should follow the developer block.''
        ''recovery_choice''
        ''fail_closed''
        ''The available recovery choices spend different authority and budget.'')]"

definition action_transitions :: "(string \<times> string) list" where
  "action_transitions = [
     (''approve'', ''grant_scope_and_resume''),
     (''deny'', ''deny_scope_and_fail_request''),
     (''reject'', ''reject_request''),
     (''extend'', ''increase_budget_and_resume''),
     (''commit'', ''preserve_partial_work_and_assess''),
     (''revert'', ''discard_partial_work_and_dead_letter''),
     (''retry_assessment'', ''queue_new_assessment_attempt''),
     (''retry'', ''queue_recovery_attempt''),
     (''skip'', ''cancel_original_job_and_release_dependents''),
     (''acknowledge'', ''record_operator_acknowledgement''),
     (''replan'', ''queue_new_research_and_plan''),
     (''pass'', ''record_human_acceptance''),
     (''fail'', ''record_terminal_rejection''),
     (''explicit_waiver'', ''record_authority_backed_waiver''),
     (''respond'', ''resume_with_human_answer''),
     (''plan'', ''resume_with_selected_scope''),
     (''run'', ''queue_post_merge_database_task''),
     (''accept'', ''accept_assessment_only_failures_and_complete''),
     (''abandon'', ''cancel_work_item_and_delete_branch''),
     (''wait'', ''keep_merge_deferred_until_upstream_merges''),
     (''rebuild'', ''requeue_on_target_branch_without_inherited_edits''),
     (''merge'', ''merge_work_item_into_target''),
     (''waive_tests'', ''record_candidate_test_waiver_and_merge''),
     (''send_back'', ''requeue_work_item_for_rework'')]"

definition actionTransition :: "string \<Rightarrow> string" where
  "actionTransition action =
     (let canonical = js_trim action
      in if starts_with ''retry:'' action then ''queue_provider_specific_recovery''
         else case map_of action_transitions canonical of Some t \<Rightarrow> t
           | None \<Rightarrow> ''resolve_gate_with_'' @ (if canonical = [] then ''response'' else canonical))"

text \<open>The profile is missing for a gate that the table does not name.\<close>

record contract =
  ct_kind :: string
  ct_version :: nat
  ct_original :: "nat option"
  ct_sources :: "string list"
  ct_actions :: "string list"
  ct_profile :: "actionability option"
  ct_transitions :: "(string \<times> string) list"

definition contract_original :: "payload \<Rightarrow> nat option \<Rightarrow> nat option" where
  "contract_original p parent =
     (case (case pl_original p of Some i \<Rightarrow> Some i | None \<Rightarrow> (case pl_plan_job p of Some i \<Rightarrow> Some i | None \<Rightarrow> map_option int parent)) of
        None \<Rightarrow> None | Some i \<Rightarrow> if i > 0 then Some (nat i) else None)"

definition humanGateContractForPayload :: "payload \<Rightarrow> nat option \<Rightarrow> string + contract" where
  "humanGateContractForPayload p parent = (case humanGateNameForPayload p of Inl e \<Rightarrow> Inl e
     | Inr source \<Rightarrow> (case humanInputChoicesForPayload p of Inl e \<Rightarrow> Inl e
       | Inr explicitChoices \<Rightarrow>
         let allowedActions = js_unique (if source = ''one_shot_file_scope'' then explicitChoices
               else narrowedReviewChoices p (gate_actions source))
         in Inr \<lparr>ct_kind = source, ct_version = 2, ct_original = contract_original p parent,
              ct_sources = (case map_of HUMAN_GATE_CONTRACTS source of Some s \<Rightarrow> s | None \<Rightarrow> DEFAULT_HUMAN_GATE_SOURCE_STATES),
              ct_actions = allowedActions, ct_profile = map_of HUMAN_GATE_ACTIONABILITY_PROFILES source,
              ct_transitions = map (\<lambda>a. (a, actionTransition a)) allowedActions\<rparr>))"

fun first_missing :: "(string \<times> string) list \<Rightarrow> string list \<Rightarrow> string option" where
  "first_missing transitions [] = None"
| "first_missing transitions (a # as) = (if trimmed (map_of transitions a) = []
     then Some (''actionability_transition_missing:'' @ a) else first_missing transitions as)"

text \<open>The reason a contract is not actionable; the schema version is always 1.\<close>

definition validateHumanGateActionabilityContract :: "contract \<Rightarrow> string option" where
  "validateHumanGateActionabilityContract c = (case ct_profile c of None \<Rightarrow> Some ''actionability_unresolved_fact_missing''
     | Some y \<Rightarrow>
       if js_trim (ay_unresolved_fact y) = [] then Some ''actionability_unresolved_fact_missing''
       else if js_trim (ay_human_contribution y) = [] then Some ''actionability_human_contribution_missing''
       else if js_trim (ay_headless_behavior y) = [] then Some ''actionability_headless_behavior_missing''
       else if js_trim (ay_diagnostic_insufficient_reason y) = [] then Some ''actionability_diagnostic_insufficient_reason_missing''
       else first_missing (ct_transitions c) (ct_actions c))"

section \<open>Answers\<close>

definition FEEDBACK_SEPARATOR :: string where
  "FEEDBACK_SEPARATOR = '':''"

text \<open>The choice an answer selects: its id, or the longest id that the answer continues with a colon.\<close>

definition humanInputChoiceFromAnswer :: "string option \<Rightarrow> string list \<Rightarrow> string option" where
  "humanInputChoiceFromAnswer answer choices =
     (let text = trimmed answer; lowered = lower_text text; normalized = normalizeChoices (Some choices)
      in if text = [] then None
         else case find (\<lambda>c. lower_text c = lowered) normalized of Some c \<Rightarrow> Some c
           | None \<Rightarrow> find (\<lambda>c. starts_with (lower_text c @ FEEDBACK_SEPARATOR) lowered) (sort_key (\<lambda>c. - int (length c)) normalized))"

definition humanInputChoiceFeedback :: "string option \<Rightarrow> string list \<Rightarrow> string" where
  "humanInputChoiceFeedback answer choices = (let text = trimmed answer in
     case humanInputChoiceFromAnswer (Some text) choices of None \<Rightarrow> []
     | Some c \<Rightarrow> if lower_text text = lower_text c then [] else js_trim (drop (length c + length FEEDBACK_SEPARATOR) text))"

definition exactHumanInputChoiceFromAnswer :: "string option \<Rightarrow> string list \<Rightarrow> string option" where
  "exactHumanInputChoiceFromAnswer answer choices = (let text = trimmed answer in
     if text = [] then None else find (\<lambda>c. c = text) (normalizeChoices (Some choices)))"

definition scopeModeHumanInputAnswerForPayload :: "payload \<Rightarrow> string \<Rightarrow> string option" where
  "scopeModeHumanInputAnswerForPayload p scopeMode =
     (if scopeMode \<noteq> ''auto'' \<or> pl_interactive p \<or> (case pl_subtype p of None \<Rightarrow> False | Some s \<Rightarrow> s \<noteq> []) then None
      else let reviewType = trimmed (pl_review_type p) in
        if reviewType = ''file_scope_approval'' then Some ''approve''
        else if reviewType = [] \<and> pl_file_requests p > 0 then Some ''approve'' else None)"

text \<open>An unattended policy \<open>auto:<action>\<close> may select only an action the gate offers; an unknown gate throws.\<close>

definition nonInteractiveHumanInputAnswerForPayload :: "payload \<Rightarrow> string \<Rightarrow> string + string option" where
  "nonInteractiveHumanInputAnswerForPayload p policy =
     (if pl_interactive p then Inr None
      else let action = (if starts_with ''auto:'' policy then drop 5 policy else [])
        in if action = [] then Inr None
           else case humanInputChoicesForPayload p of Inl e \<Rightarrow> Inl e
             | Inr choices \<Rightarrow> Inr (if action \<in> set choices then Some action else None))"

section \<open>Presentation\<close>

definition questionKindForReviewType :: "string option \<Rightarrow> string option" where
  "questionKindForReviewType value = (let t = (case value of None \<Rightarrow> [] | Some s \<Rightarrow> s)
     in if map_of WORK_ITEM_QUESTION_CHOICE_IDS t = None then None else Some t)"

definition humanGateStateAllowsAnswer :: "string option \<Rightarrow> bool" where
  "humanGateStateAllowsAnswer st \<longleftrightarrow> st = None \<or> st = Some ''open''"

definition humanGateStateIsActive :: "string option \<Rightarrow> bool" where
  "humanGateStateIsActive st \<longleftrightarrow> humanGateStateAllowsAnswer st \<or> st = Some ''resolving''"

definition HUMAN_INPUT_COORDINATION_REVIEW_TYPES :: "string list" where
  "HUMAN_INPUT_COORDINATION_REVIEW_TYPES = [''clarification'', ''failure_threshold_exhausted'', ''fix_chain_exhausted'',
     ''planner_clarification'', ''environment_setup'', ''file_scope_approval'', ''dirty_worktree_recovery'',
     ''partial_work_recovery'', ''blocked_recovery'', ''dead_letter_recovery'', ''stall_exhausted_recovery'',
     ''artifact_routing_admin'', ''shared_trunk_publication_unprovable'', ''shared_trunk_fast_forward_blocked'',
     ''shared_trunk_push_refused'', ''shared_trunk_push_remote_error'', ''shared_trunk_provenance'', ''post_merge_db_task'',
     ''merge_failure_recovery''] @ WORK_ITEM_DISPOSITION_REVIEW_TYPES"

definition text_of :: "string option \<Rightarrow> string" where
  "text_of v = (case v of None \<Rightarrow> [] | Some s \<Rightarrow> s)"

definition isHumanInputCoordinationPayload :: "payload \<Rightarrow> bool" where
  "isHumanInputCoordinationPayload p \<longleftrightarrow> pl_subtype p = Some ''one_shot_file_scope'' \<or> pl_review_type p = Some ''one_shot_file_scope'' \<or>
     text_of (pl_review_type p) \<in> set HUMAN_INPUT_COORDINATION_REVIEW_TYPES"

definition isHumanInputReviewPayload :: "payload \<Rightarrow> bool" where
  "isHumanInputReviewPayload p \<longleftrightarrow> text_of (pl_review_type p) \<noteq> [] \<and> \<not> isHumanInputCoordinationPayload p"

record diff_policy =
  df_scope :: string
  df_requires_commit :: bool
  df_requires_choice :: "string option"

definition ATTEMPT_REVIEW_DIFF :: diff_policy where
  "ATTEMPT_REVIEW_DIFF = \<lparr>df_scope = ''attempt'', df_requires_commit = False, df_requires_choice = None\<rparr>"

definition COMMITTED_ATTEMPT_REVIEW_DIFF :: diff_policy where
  "COMMITTED_ATTEMPT_REVIEW_DIFF = \<lparr>df_scope = ''attempt'', df_requires_commit = True, df_requires_choice = None\<rparr>"

definition WORK_ITEM_REVIEW_DIFF :: diff_policy where
  "WORK_ITEM_REVIEW_DIFF = \<lparr>df_scope = ''work_item'', df_requires_commit = False, df_requires_choice = None\<rparr>"

definition HUMAN_INPUT_REVIEW_DIFF_POLICIES :: "(string \<times> diff_policy) list" where
  "HUMAN_INPUT_REVIEW_DIFF_POLICIES = [
     (''file_scope_approval'', \<lparr>df_scope = ''scope_request'', df_requires_commit = False, df_requires_choice = None\<rparr>),
     (''assessment_review'', ATTEMPT_REVIEW_DIFF),
     (''assessment_evidence_missing'', ATTEMPT_REVIEW_DIFF),
     (''assessment_transport_recovery'', ATTEMPT_REVIEW_DIFF),
     (''assessment_retry_limit'', ATTEMPT_REVIEW_DIFF),
     (''pipeline_head_recovery'', ATTEMPT_REVIEW_DIFF),
     (''blocked_recovery'', ATTEMPT_REVIEW_DIFF),
     (''failure_threshold_exhausted'', ATTEMPT_REVIEW_DIFF),
     (''fix_chain_exhausted'', ATTEMPT_REVIEW_DIFF),
     (''dead_letter_recovery'', COMMITTED_ATTEMPT_REVIEW_DIFF),
     (''stall_exhausted_recovery'', COMMITTED_ATTEMPT_REVIEW_DIFF),
     (''partial_work_recovery'', WORK_ITEM_REVIEW_DIFF),
     (''dirty_worktree_recovery'', WORK_ITEM_REVIEW_DIFF),
     (''merge_verification_review'', WORK_ITEM_REVIEW_DIFF),
     (''merge_failure_recovery'', WORK_ITEM_REVIEW_DIFF),
     (''work_item_failure_disposition'', \<lparr>df_scope = ''work_item'', df_requires_commit = False, df_requires_choice = Some ''accept''\<rparr>)]"

definition humanInputReviewDiffPolicyForPayload :: "payload \<Rightarrow> string + diff_policy option" where
  "humanInputReviewDiffPolicyForPayload p = (case map_of HUMAN_INPUT_REVIEW_DIFF_POLICIES (trimmed (pl_review_type p)) of
       None \<Rightarrow> Inr None
     | Some policy \<Rightarrow> (case df_requires_choice policy of None \<Rightarrow> Inr (Some policy)
       | Some c \<Rightarrow> (case humanInputChoicesForPayload p of Inl e \<Rightarrow> Inl e
         | Inr choices \<Rightarrow> Inr (if c \<in> set choices then Some policy else None))))"

section \<open>Contracts are actionable\<close>

lemma js_unique_simps [simp]: "set (js_unique xs) = set xs" "distinct (js_unique xs)" "js_unique xs = [] \<longleftrightarrow> xs = []"
  by (simp_all add: js_unique_def)

lemma known_profiles:
  "list_all (\<lambda>(kind, _). case map_of HUMAN_GATE_ACTIONABILITY_PROFILES kind of None \<Rightarrow> False
     | Some y \<Rightarrow> js_trim (ay_unresolved_fact y) \<noteq> [] \<and> js_trim (ay_human_contribution y) \<noteq> [] \<and>
         js_trim (ay_headless_behavior y) \<noteq> [] \<and> js_trim (ay_diagnostic_insufficient_reason y) \<noteq> []) HUMAN_GATE_ACTIONS"
  by code_simp

lemma js_trim_nonempty: "c \<in> set s \<Longrightarrow> \<not> js_white c \<Longrightarrow> js_trim s \<noteq> []"
  by (auto simp: js_trim_def dropWhile_eq_Nil_conv) (metis set_takeWhileD takeWhile_dropWhile_id UnE set_append)

lemma known_transitions: "list_all (\<lambda>(_, t). js_trim t \<noteq> []) action_transitions"
  by code_simp

lemma actionTransition_nonempty: "js_trim (actionTransition a) \<noteq> []"
proof -
  have "js_trim t \<noteq> []" if "map_of action_transitions x = Some t" for x t
    using map_of_SomeD [OF that] known_transitions by (auto simp: list_all_iff)
  moreover have "js_trim (''resolve_gate_with_'' @ x) \<noteq> []" for x
    by (rule js_trim_nonempty [where c = "CHR ''r''"]) (simp_all add: js_white_def)
  moreover have "js_trim ''queue_provider_specific_recovery'' \<noteq> []"
    by (rule js_trim_nonempty [where c = "CHR ''q''"]) (simp_all add: js_white_def)
  ultimately show ?thesis by (auto simp: actionTransition_def Let_def split: option.splits)
qed

lemma no_transition_missing: "set as \<subseteq> set bs \<Longrightarrow> first_missing (map (\<lambda>a. (a, actionTransition a)) bs) as = None"
  by (induction as) (auto simp: map_of_map_restrict trimmed_def actionTransition_nonempty restrict_map_def)

lemma gate_name_known:
  assumes "humanGateNameForPayload p = Inr k"
  shows "\<exists>as. map_of HUMAN_GATE_ACTIONS k = Some as" and "trimmed (pl_review_type p) \<in> {[], k}"
proof -
  show "\<exists>as. map_of HUMAN_GATE_ACTIONS k = Some as"
    using assms by (auto simp: humanGateNameForPayload_def Let_def split: if_splits)
  have all: "s = k" if "s \<in> set (gate_identities p)" for s
    using assms that by (auto simp: humanGateNameForPayload_def Let_def list_ex_iff split: if_splits)
  show "trimmed (pl_review_type p) \<in> {[], k}"
    using all [of "trimmed (pl_review_type p)"] by (auto simp: gate_identities_def simp del: filter.simps)
qed

lemma known_kinds:
  "list_all (\<lambda>(kind, as). as \<noteq> [] \<and> (case map_of HUMAN_GATE_CONTRACTS kind of None \<Rightarrow> False
     | Some ss \<Rightarrow> ss \<noteq> [] \<and> list_all (\<lambda>s. s \<in> set JOB_STATUSES) ss)) HUMAN_GATE_ACTIONS"
  by code_simp

lemma known_kind:
  assumes "map_of HUMAN_GATE_ACTIONS k = Some as"
  shows "gate_actions k = as" "as \<noteq> []" "\<exists>ss. map_of HUMAN_GATE_CONTRACTS k = Some ss \<and> ss \<noteq> [] \<and> set ss \<subseteq> set JOB_STATUSES"
    "\<exists>y. map_of HUMAN_GATE_ACTIONABILITY_PROFILES k = Some y \<and> js_trim (ay_unresolved_fact y) \<noteq> [] \<and>
       js_trim (ay_human_contribution y) \<noteq> [] \<and> js_trim (ay_headless_behavior y) \<noteq> [] \<and> js_trim (ay_diagnostic_insufficient_reason y) \<noteq> []"
proof -
  have m: "(k, as) \<in> set HUMAN_GATE_ACTIONS" by (rule map_of_SomeD [OF assms])
  show "gate_actions k = as" using assms by (simp add: gate_actions_def)
  show "as \<noteq> []" "\<exists>ss. map_of HUMAN_GATE_CONTRACTS k = Some ss \<and> ss \<noteq> [] \<and> set ss \<subseteq> set JOB_STATUSES"
    using bspec [OF known_kinds [unfolded list_all_iff] m] by (auto simp: list_all_iff split: option.splits)
  show "\<exists>y. map_of HUMAN_GATE_ACTIONABILITY_PROFILES k = Some y \<and> js_trim (ay_unresolved_fact y) \<noteq> [] \<and>
       js_trim (ay_human_contribution y) \<noteq> [] \<and> js_trim (ay_headless_behavior y) \<noteq> [] \<and> js_trim (ay_diagnostic_insufficient_reason y) \<noteq> []"
    using bspec [OF known_profiles [unfolded list_all_iff] m] by (auto split: option.splits)
qed

lemma merge_failure_actions: "gate_actions ''merge_failure_recovery'' = [''merge'', ''commit'', ''waive_tests'', ''send_back'']"
  by code_simp

lemma failure_disposition_actions: "gate_actions ''work_item_failure_disposition'' = [''retry'', ''accept'', ''abandon'']"
  by code_simp

lemma trimmed_literals [simp]: "js_trim ''merge_failure_recovery'' = ''merge_failure_recovery''" "js_trim ''one_shot_file_scope'' = ''one_shot_file_scope''"
  by (simp_all add: js_trim_def js_white_def)

lemma narrowed_choices:
  assumes "trimmed (pl_review_type p) \<in> {[], k}" and xs: "xs = gate_actions k \<or> xs = filter (\<lambda>c. c \<noteq> ''respond'') (gate_actions k)"
    and ne: "xs \<noteq> []"
  shows "set (narrowedReviewChoices p xs) \<subseteq> set (gate_actions k)" and "narrowedReviewChoices p xs \<noteq> []"
proof -
  have merge: "set (mergeFailureRecoveryChoices c w ys) \<subseteq> set (gate_actions ''merge_failure_recovery'')"
    "mergeFailureRecoveryChoices c w ys \<noteq> []" for c w ys
    by (auto simp: mergeFailureRecoveryChoices_def humanInputChoicesForReviewType_def merge_failure_actions Let_def)
  let ?rt = "trimmed (pl_review_type p)" and ?offered = "normalizeHumanInputChoices (pl_choices p)"
  have sub: "set xs \<subseteq> set (gate_actions k)" using xs by auto
  have accept: "filter (\<lambda>c. c \<noteq> ''accept'') xs \<noteq> []" if "?rt = ''work_item_failure_disposition''"
    using assms(1) that xs by (auto simp: failure_disposition_actions)
  have k: "k = ''merge_failure_recovery''" if "?rt = ''merge_failure_recovery''" using assms(1) that by auto
  show "set (narrowedReviewChoices p xs) \<subseteq> set (gate_actions k)"
  proof (cases "?rt \<in> set SUBSET_REVIEW_TYPES \<and> ?offered \<noteq> [] \<and> ordered_part ?offered xs")
    case True
    then have "set ?offered \<subseteq> set xs" by (auto simp: ordered_part_def list_all_iff)
    then show ?thesis using True sub by (simp add: narrowedReviewChoices_def Let_def)
  next
    case False
    then show ?thesis using sub merge(1) k unfolding narrowedReviewChoices_def Let_def by (auto split: if_splits)
  qed
  show "narrowedReviewChoices p xs \<noteq> []"
    unfolding narrowedReviewChoices_def Let_def using merge(2) ne accept by (simp split: if_split)
qed

lemma offered_choices:
  assumes name: "humanGateNameForPayload p = Inr k" and "humanInputChoicesForPayload p = Inr xs" and k: "k = ''one_shot_file_scope''"
  shows "list_all (\<lambda>a. a \<in> set (gate_actions k) \<or> candidate_choice a) xs" and "xs \<noteq> []"
proof -
  have acts: "gate_actions k = [''plan'', ''cancel'']" unfolding k by code_simp
  have other: "set (narrowedReviewChoices p [''plan'', ''cancel'']) \<subseteq> set (gate_actions k)"
    "narrowedReviewChoices p [''plan'', ''cancel''] \<noteq> []"
    using narrowed_choices [OF gate_name_known(2) [OF name], of "[''plan'', ''cancel'']"] by (simp_all add: acts)
  have split: "ys = take (length ys - 2) ys @ [last (butlast ys), last ys]" if "2 \<le> length ys" for ys :: "string list"
  proof -
    have "ys \<noteq> []" "butlast ys \<noteq> []" using that by (cases ys; cases "tl ys"; auto)+
    then have "ys = butlast (butlast ys) @ [last (butlast ys), last ys]"
      by (metis append.assoc append_Cons append_Nil append_butlast_last_id)
    moreover have "take (length ys - 2) ys = butlast (butlast ys)" by (simp add: butlast_conv_take numeral_2_eq_2)
    ultimately show ?thesis by simp
  qed
  have selector: "list_all (\<lambda>a. a \<in> set (gate_actions k) \<or> candidate_choice a) ys \<and> ys \<noteq> []" if "selector_choices p = Some ys" for ys
  proof -
    have ys: "3 \<le> length ys" "last (butlast ys) = ''plan''" "last ys = ''cancel''" "list_all candidate_choice (take (length ys - 2) ys)"
      using that by (auto simp: selector_choices_def split: option.splits if_splits)
    have "list_all (\<lambda>a. a \<in> set (gate_actions k) \<or> candidate_choice a) (take (length ys - 2) ys @ [last (butlast ys), last ys])"
      using ys(2-4) by (auto simp: acts list_all_iff)
    then have "list_all (\<lambda>a. a \<in> set (gate_actions k) \<or> candidate_choice a) ys" using split [of ys] ys(1) by simp
    moreover have "ys \<noteq> []" using ys(1) by auto
    ultimately show ?thesis by simp
  qed
  have review: "humanInputChoicesForReviewType ''one_shot_file_scope'' = [''plan'', ''cancel'']"
    using acts by (simp add: humanInputChoicesForReviewType_def k)
  have "xs = (case selector_choices p of Some ys \<Rightarrow> ys | None \<Rightarrow> narrowedReviewChoices p [''plan'', ''cancel''])"
    using assms(2) k by (cases "selector_choices p") (simp_all add: humanInputChoicesForPayload_def name review Let_def)
  then show "list_all (\<lambda>a. a \<in> set (gate_actions k) \<or> candidate_choice a) xs" "xs \<noteq> []"
    using selector other by (auto simp: list_all_iff split: option.splits)
qed

lemma contracts_valid:
  assumes "humanGateContractForPayload p parent = Inr c"
  shows "validateHumanGateActionabilityContract c = None"
proof -
  obtain k where k: "humanGateNameForPayload p = Inr k"
    using assms by (cases "humanGateNameForPayload p") (simp_all add: humanGateContractForPayload_def)
  obtain xs where xs: "humanInputChoicesForPayload p = Inr xs"
    using assms k by (cases "humanInputChoicesForPayload p") (simp_all add: humanGateContractForPayload_def)
  obtain as where as: "map_of HUMAN_GATE_ACTIONS k = Some as" using gate_name_known(1) [OF k] by blast
  have c: "ct_transitions c = map (\<lambda>a. (a, actionTransition a)) (ct_actions c)" "ct_profile c = map_of HUMAN_GATE_ACTIONABILITY_PROFILES k"
    using assms by (auto simp: humanGateContractForPayload_def k xs Let_def)
  then show ?thesis
    using known_kind(4) [OF as] no_transition_missing [of "ct_actions c" "ct_actions c"]
    by (auto simp: validateHumanGateActionabilityContract_def)
qed

text \<open>
  C30: Contracts are actionable. Every contract written for a payload is of a catalogued gate and passes the
  actionability check, so that registering a gate never fails on it; it offers at least one action, each once, and only actions of
  its gate (or, for a scope selector, one of the candidate files); it names at least one state of the original job, all of them
  job statuses; and its original job, if any, has a positive id.
\<close>

theorem contracts_are_actionable:
  assumes "humanGateContractForPayload p parent = Inr c"
  shows "validateHumanGateActionabilityContract c = None \<and> ct_actions c \<noteq> [] \<and> distinct (ct_actions c) \<and>
    list_all (\<lambda>a. a \<in> set (gate_actions (ct_kind c)) \<or> ct_kind c = ''one_shot_file_scope'' \<and> candidate_choice a) (ct_actions c) \<and>
    ct_sources c \<noteq> [] \<and> set (ct_sources c) \<subseteq> set JOB_STATUSES \<and> ct_original c \<noteq> Some 0"
proof -
  obtain k where k: "humanGateNameForPayload p = Inr k"
    using assms by (cases "humanGateNameForPayload p") (simp_all add: humanGateContractForPayload_def)
  obtain xs where xs: "humanInputChoicesForPayload p = Inr xs"
    using assms k by (cases "humanInputChoicesForPayload p") (simp_all add: humanGateContractForPayload_def)
  obtain as where as: "map_of HUMAN_GATE_ACTIONS k = Some as" using gate_name_known(1) [OF k] by blast
  note known = known_kind [OF as]
  let ?offer = "if k = ''one_shot_file_scope'' then xs else narrowedReviewChoices p (gate_actions k)"
  have c: "ct_kind c = k" "ct_actions c = js_unique ?offer" "ct_original c = contract_original p parent"
    "ct_sources c = (case map_of HUMAN_GATE_CONTRACTS k of Some s \<Rightarrow> s | None \<Rightarrow> DEFAULT_HUMAN_GATE_SOURCE_STATES)"
    using assms by (auto simp: humanGateContractForPayload_def k xs Let_def)
  have offer: "list_all (\<lambda>a. a \<in> set (gate_actions k) \<or> k = ''one_shot_file_scope'' \<and> candidate_choice a) ?offer \<and> ?offer \<noteq> []"
  proof (cases "k = ''one_shot_file_scope''")
    case True
    then show ?thesis using offered_choices [OF k xs True] by (simp del: split_paired_All)
  next
    case False
    have "set (narrowedReviewChoices p (gate_actions k)) \<subseteq> set (gate_actions k)" "narrowedReviewChoices p (gate_actions k) \<noteq> []"
      using narrowed_choices [OF gate_name_known(2) [OF k]] known(1,2) by simp_all
    then show ?thesis using False by (auto simp: list_all_iff)
  qed
  have "validateHumanGateActionabilityContract c = None" by (rule contracts_valid [OF assms])
  moreover have "ct_sources c \<noteq> []" "set (ct_sources c) \<subseteq> set JOB_STATUSES" using known(3) by (auto simp: c(4))
  moreover have "ct_original c \<noteq> Some 0" by (auto simp: c(3) contract_original_def split: option.splits if_splits)
  moreover have "list_all (\<lambda>a. a \<in> set (gate_actions k) \<or> k = ''one_shot_file_scope'' \<and> candidate_choice a) (ct_actions c)"
    using offer [THEN conjunct1] by (simp only: c(2) list_all_iff js_unique_simps)
  moreover have "ct_actions c \<noteq> []" "distinct (ct_actions c)" using offer [THEN conjunct2] by (simp_all only: c(2) js_unique_simps simp_thms)
  ultimately show ?thesis by (simp only: c(1) simp_thms)
qed

section \<open>Every action can be answered\<close>

definition clean_choice :: "string \<Rightarrow> bool" where
  "clean_choice a \<longleftrightarrow> a \<noteq> [] \<and> list_all (\<lambda>c. c \<in> set ''abcdefghijklmnopqrstuvwxyz_:'') a \<and> last a \<noteq> CHR '':''"

lemma clean_actions: "list_all (\<lambda>(_, as). distinct as \<and> list_all clean_choice as) HUMAN_GATE_ACTIONS"
  by code_simp

lemma clean_chars: "c \<in> set ''abcdefghijklmnopqrstuvwxyz_:'' \<Longrightarrow> \<not> js_white c \<and> js_lower_char c = c"
  by (auto simp: js_white_def js_lower_char_def)

lemma clean_white: "clean_choice a \<Longrightarrow> list_all (\<lambda>c. \<not> js_white c) a" and clean_lower: "clean_choice a \<Longrightarrow> lower_text a = a"
  using clean_chars by (auto simp: clean_choice_def list_all_iff lower_text_def intro!: map_idI simp del: list.set)

lemma clean_gate_actions: "distinct (gate_actions k)" "list_all clean_choice (gate_actions k)"
proof -
  have "distinct (gate_actions k) \<and> list_all clean_choice (gate_actions k)"
  proof (cases "map_of HUMAN_GATE_ACTIONS k")
    case (Some as)
    then show ?thesis using clean_actions map_of_SomeD [OF Some] by (auto simp: gate_actions_def list_all_iff)
  qed (simp add: gate_actions_def)
  then show "distinct (gate_actions k)" "list_all clean_choice (gate_actions k)" by simp_all
qed

lemma white_lower: "js_white c \<Longrightarrow> js_lower_char c = c"
  by (auto simp: js_white_def js_lower_char_def Let_def)

lemma trim_clean: "list_all (\<lambda>c. \<not> js_white c) s \<Longrightarrow> js_trim s = s"
  by (cases s rule: rev_cases) (auto simp: js_trim_def dropWhile_id list_all_iff hd_append split: if_splits)

lemma normalized_clean: "distinct cs \<Longrightarrow> list_all clean_choice cs \<Longrightarrow> normalizeChoices (Some cs) = cs"
proof -
  assume cs: "distinct cs" "list_all clean_choice cs"
  have "map js_trim cs = cs" using cs(2) clean_white by (auto simp: list_all_iff intro!: map_idI trim_clean)
  moreover have "filter (\<lambda>s. s \<noteq> []) cs = cs" using cs(2) by (auto simp: list_all_iff clean_choice_def intro!: filter_True)
  ultimately show ?thesis using cs(1) by (simp add: normalizeChoices_def js_unique_def distinct_remdups_id)
qed

definition rtrim :: "string \<Rightarrow> string" where
  "rtrim s = rev (dropWhile js_white (rev s))"

lemma rtrim_append: "rtrim (a @ b) = (if rtrim b = [] then rtrim a else a @ rtrim b)"
proof (cases "\<forall>c \<in> set b. js_white c")
  case True
  then have "dropWhile js_white (rev b) = []" by (simp add: dropWhile_eq_Nil_conv)
  moreover have "dropWhile js_white (rev b @ rev a) = dropWhile js_white (rev a)"
    using True by (intro dropWhile_append2) auto
  ultimately show ?thesis by (simp add: rtrim_def)
next
  case False
  then obtain c where "c \<in> set (rev b)" "\<not> js_white c" by auto
  then show ?thesis using dropWhile_append1 [of c "rev b" js_white "rev a"] by (auto simp: rtrim_def dropWhile_eq_Nil_conv)
qed

lemma trim_rtrim: "js_trim x = rtrim (dropWhile js_white x)"
  by (simp add: js_trim_def rtrim_def)

lemma rtrim_keeps: "\<not> js_white c \<Longrightarrow> rtrim (s @ [c]) = s @ [c]"
  by (simp add: rtrim_def)

lemma rtrim_front:
  assumes "\<not> js_white c"
  shows "rtrim (s @ c # t) = s @ c # rtrim t"
  using rtrim_append [of "s @ [c]" t] rtrim_keeps [OF assms] by (cases "rtrim t = []") simp_all

lemma rtrim_all_white: "list_all js_white s \<Longrightarrow> rtrim s = []"
  by (simp add: rtrim_def dropWhile_eq_Nil_conv list_all_iff)

lemma js_trim_rtrim: "js_trim (rtrim x) = js_trim x"
proof (cases "dropWhile js_white x")
  case Nil
  then have "list_all js_white x" by (simp add: dropWhile_eq_Nil_conv list_all_iff)
  then show ?thesis by (simp add: rtrim_all_white trim_rtrim Nil)
next
  case (Cons c y)
  then have c: "\<not> js_white c" using hd_dropWhile [of js_white x] by simp
  define w where "w = takeWhile js_white x"
  have w: "v \<in> set w \<Longrightarrow> js_white v" for v unfolding w_def by (rule set_takeWhileD [THEN conjunct2])
  have x: "x = w @ c # y" using takeWhile_dropWhile_id [of js_white x] by (simp add: Cons w_def)
  have d: "dropWhile js_white (w @ c # z) = c # z" for z using w c by (simp add: dropWhile_append2)
  have "rtrim (rtrim y) = rtrim y" by (simp add: rtrim_def)
  then show ?thesis using rtrim_front [OF c, of "[]"] by (simp add: x rtrim_front [OF c, of w] trim_rtrim d)
qed

lemma js_trim_space: "js_trim (CHR '' '' # f) = js_trim f"
  by (simp add: js_trim_def js_white_def)

lemma trim_with_feedback:
  assumes "s \<noteq> []" "list_all (\<lambda>c. \<not> js_white c) s"
  shows "\<exists>g. js_trim (s @ '': '' @ f) = s @ CHR '':'' # g \<and> js_trim g = js_trim f \<and> (g = [] \<or> hd g = CHR '' '')"
proof -
  let ?g = "rtrim (CHR '' '' # f)"
  have "dropWhile js_white (s @ '': '' @ f) = s @ '': '' @ f"
    using assms by (cases s) (auto simp: dropWhile_id)
  then have "js_trim (s @ '': '' @ f) = rtrim (s @ CHR '':'' # CHR '' '' # f)" by (simp add: trim_rtrim)
  also have "\<dots> = s @ CHR '':'' # ?g" by (rule rtrim_front) (simp add: js_white_def)
  finally have 1: "js_trim (s @ '': '' @ f) = s @ CHR '':'' # ?g" .
  have "?g = [] \<or> hd ?g = CHR '' ''"
    using rtrim_append [of "[CHR '' '']" f] rtrim_all_white [of "[CHR '' '']"]
    by (cases "rtrim f = []") (simp_all add: js_white_def)
  then show ?thesis using 1 js_trim_rtrim [of "CHR '' '' # f"] js_trim_space [of f] by (intro exI [of _ ?g]) simp
qed

text \<open>The longest of the choices that fit is found.\<close>

lemma find_best:
  assumes "a \<in> set xs" "P a" "\<And>c. c \<in> set xs \<Longrightarrow> P c \<Longrightarrow> c = a \<or> k a < (k c :: int)"
  shows "find P (sort_key k xs) = Some a"
proof -
  have find: "find P ys = Some a" if "sorted (map k ys)" "a \<in> set ys" "\<And>c. c \<in> set ys \<Longrightarrow> P c \<Longrightarrow> c = a \<or> k a < k c" for ys
    using that
  proof (induction ys)
    case (Cons y ys)
    show ?case
    proof (cases "P y")
      case True
      then have "y = a \<or> k a < k y" using Cons.prems(3) by simp
      moreover have "y = a \<or> k y \<le> k a" using Cons.prems(1,2) by auto
      ultimately show ?thesis using True by auto
    next
      case False
      then have "a \<in> set ys" using Cons.prems(2) assms(2) by auto
      then show ?thesis using Cons False by simp
    qed
  qed simp
  show ?thesis by (rule find) (use assms in auto)
qed

text \<open>
  C29: Every action can be answered. For every gate and every action it offers, an answer that spells the action, in any
  case, selects it with empty feedback; and one that continues it with a colon, a space and any text selects it, with that text,
  trimmed, as the feedback, also where the gate offers a longer id that begins alike.
\<close>

theorem every_action_can_be_answered:
  assumes "a \<in> set (gate_actions kind)" and "lower_text s = a"
  shows "humanInputChoiceFromAnswer (Some s) (gate_actions kind) = Some a \<and> humanInputChoiceFeedback (Some s) (gate_actions kind) = [] \<and>
    humanInputChoiceFromAnswer (Some (s @ '': '' @ f)) (gate_actions kind) = Some a \<and>
    humanInputChoiceFeedback (Some (s @ '': '' @ f)) (gate_actions kind) = js_trim f"
proof -
  let ?cs = "gate_actions kind"
  have clean: "clean_choice c" if "c \<in> set ?cs" for c using clean_gate_actions(2) that by (auto simp: list_all_iff)
  have norm: "normalizeChoices (Some ?cs) = ?cs" by (rule normalized_clean [OF clean_gate_actions])
  have low: "lower_text c = c" if "c \<in> set ?cs" for c by (rule clean_lower [OF clean [OF that]])
  have a: "a \<noteq> []" "lower_text a = a" using clean [OF assms(1)] low [OF assms(1)] by (simp_all add: clean_choice_def)
  have s: "s \<noteq> []" "length s = length a" using a(1) assms(2) by (auto simp: lower_text_def)
  have white: "list_all (\<lambda>c. \<not> js_white c) s"
    using clean_white [OF clean [OF assms(1)]] white_lower unfolding assms(2) [symmetric] by (auto simp: list_all_iff lower_text_def)
  have exact: "humanInputChoiceFromAnswer (Some s) ?cs = Some a" "humanInputChoiceFeedback (Some s) ?cs = []"
  proof -
    have "find (\<lambda>c. lower_text c = a) ?cs = Some a"
    proof -
      have "find (\<lambda>c. lower_text c = a) cs = Some a" if "a \<in> set cs" "\<And>c. c \<in> set cs \<Longrightarrow> lower_text c = c" for cs
        using that by (induction cs) auto
      then show ?thesis using assms(1) low by blast
    qed
    then show "humanInputChoiceFromAnswer (Some s) ?cs = Some a"
      using s(1) assms(2) by (simp add: humanInputChoiceFromAnswer_def trimmed_def trim_clean [OF white] norm)
    then show "humanInputChoiceFeedback (Some s) ?cs = []"
      by (simp add: humanInputChoiceFeedback_def trimmed_def trim_clean [OF white] assms(2) a(2))
  qed
  obtain g where g: "js_trim (s @ '': '' @ f) = s @ CHR '':'' # g" "js_trim g = js_trim f" "g = [] \<or> hd g = CHR '' ''"
    using trim_with_feedback [OF s(1) white] by blast
  let ?text = "s @ CHR '':'' # g"
  let ?lg = "lower_text g"
  have sep: "js_lower_char (CHR '':'') = CHR '':''" "js_lower_char (CHR '' '') = CHR '' ''" by (simp_all add: js_lower_char_def)
  have lowered: "lower_text ?text = a @ CHR '':'' # ?lg" using assms(2) sep by (simp add: lower_text_def)
  have lg: "?lg = [] \<or> hd ?lg = CHR '' ''" using g(3) sep by (cases g) (auto simp: lower_text_def)
  have longer: "c = a" if c: "c \<in> set ?cs" and pre: "c @ u = a @ CHR '':'' # ?lg" and len: "length a \<le> length c" for c u
  proof (rule ccontr)
    assume "c \<noteq> a"
    obtain v where v: "c = a @ v" using append_eq_append_conv_if pre len by (metis append_take_drop_id)
    then have vu: "v @ u = CHR '':'' # ?lg" using pre by simp
    obtain v' where v': "v = CHR '':'' # v'" "v' @ u = ?lg" using vu v \<open>c \<noteq> a\<close> by (cases v) auto
    show False
    proof (cases v')
      case Nil
      then show False using clean [OF c] v v' by (simp add: clean_choice_def)
    next
      case (Cons x xs)
      then have "x = CHR '' ''" using v'(2) lg by (metis append_Cons list.distinct(1) list.sel(1))
      then show False using clean_white [OF clean [OF c]] by (simp add: v v' Cons js_white_def)
    qed
  qed
  have not_exact: "find (\<lambda>c. lower_text c = a @ CHR '':'' # ?lg) ?cs = None"
    using longer [where u = "[]"] low by (auto simp: find_None_iff)
  let ?P = "\<lambda>c. starts_with (lower_text c @ FEEDBACK_SEPARATOR) (a @ CHR '':'' # ?lg)"
  have best: "find ?P (sort_key (\<lambda>c. - int (length c)) ?cs) = Some a"
  proof (rule find_best [OF assms(1)])
    show "?P a" by (simp add: starts_with_def FEEDBACK_SEPARATOR_def a(2))
    fix c assume c: "c \<in> set ?cs" and P: "?P c"
    then obtain u where "(c @ FEEDBACK_SEPARATOR) @ u = a @ CHR '':'' # ?lg" using low [OF c] by (auto simp: starts_with_iff prefix_def)
    then have "length a \<le> length c \<Longrightarrow> c = a" using longer [OF c, of "FEEDBACK_SEPARATOR @ u"] by simp
    then show "c = a \<or> - int (length a) < - int (length c)" by linarith
  qed
  have tx: "trimmed (Some (s @ '': '' @ f)) = ?text" "trimmed (Some ?text) = ?text" "?text \<noteq> []"
    using g(1) by (simp_all add: trimmed_def) (metis g(1) js_trim_idem)
  have from_answer: "humanInputChoiceFromAnswer x ?cs = Some a" if "trimmed x = ?text" for x
    using that tx(3) lowered not_exact best by (simp add: humanInputChoiceFromAnswer_def norm)
  have "lower_text ?text \<noteq> lower_text a" by (simp add: lowered a(2))
  then have "humanInputChoiceFeedback (Some (s @ '': '' @ f)) ?cs = js_trim f"
    using from_answer [OF tx(2)] tx(1) s(2) g(2) by (simp add: humanInputChoiceFeedback_def FEEDBACK_SEPARATOR_def)
  then show ?thesis using exact from_answer [OF tx(1)] by blast
qed

theorem every_action_can_be_answered_witness:
  "humanInputChoiceFromAnswer (Some ''Retry:codex: use the other key'') (gate_actions ''dead_letter_recovery'') = Some ''retry:codex'' \<and>
   humanInputChoiceFeedback (Some ''Retry:codex: use the other key'') (gate_actions ''dead_letter_recovery'') = ''use the other key''"
proof -
  have 1: "''retry:codex'' \<in> set (gate_actions ''dead_letter_recovery'')" by code_simp
  have 2: "lower_text ''Retry:codex'' = ''retry:codex''" by code_simp
  have 3: "js_trim ''use the other key'' = ''use the other key''" by (simp add: js_trim_def js_white_def)
  show ?thesis using every_action_can_be_answered [OF 1 2, of "''use the other key''"] 3 by simp
qed

definition ex_payload :: payload where
  "ex_payload = \<lparr>pl_gate_kind = None, pl_review_type = Some ''work_item_failure_disposition'', pl_subtype = None, pl_question_kind = None,
     pl_file_requests = 0, pl_choices = Some [''accept'', '' retry''], pl_options = None, pl_acceptable = Some 0, pl_candidate = False,
     pl_original = Some 4, pl_plan_job = None, pl_interactive = False, pl_resurfaced = 0, pl_presented = None, pl_presented_at = None\<rparr>"

theorem contracts_are_actionable_witness:
  "let c = projr (humanGateContractForPayload ex_payload None) in
   validateHumanGateActionabilityContract c = None \<and> ct_actions c = [''retry''] \<and> ct_original c = Some 4"
proof -
  let ?c = "projr (humanGateContractForPayload ex_payload None)"
  have "\<not> isl (humanGateContractForPayload ex_payload None)" by code_simp
  then have "humanGateContractForPayload ex_payload None = Inr ?c" by simp
  from contracts_are_actionable [OF this] have "validateHumanGateActionabilityContract ?c = None" by blast
  moreover have "ct_actions ?c = [''retry'']" by code_simp
  moreover have "ct_original ?c = Some 4" by code_simp
  ultimately show ?thesis by (simp only: Let_def simp_thms)
qed

end
