(* ===== verification/HumanGates.thy ===== *)
theory HumanGates
  imports GateContracts
begin

text \<open>
  The durable human gates (\<open>domains/queue/functions/human-gates.js\<close> with the decisions of
  \<open>human-gate-decisions.js\<close>): a question a work item asks its operator, registered beside the job that waits for
  the answer. A gate is open, then resolving while a worker applies an accepted answer, then resolved or superseded.

  Times are whole milliseconds, \<open>now\<close> and the grace cutoff \<open>grace\<close> (\<open>graceCutoff()\<close>) are arguments, and so are
  the two uses of SHA-256: \<open>sha\<close> of a key text and \<open>fp\<close>, the fingerprint of a payload. A lease expiry that \<open>julianday\<close>
  cannot read is \<open>None\<close>. A table is the list of its rows; \<open>updated_at\<close>, \<open>created_at\<close> and the lease owner are not
  kept. The events and the hook that a canceled gate job triggers are not modelled (they touch none of these tables).
  An operation that throws inside its own transaction rolls it back.
\<close>

section \<open>Tables\<close>

record gjob =
  gj_id :: nat
  gj_wi :: "nat option"
  gj_human :: bool
  gj_status :: string
  gj_version :: nat
  gj_token :: "string option"
  gj_expires :: "int option"
  gj_parent :: "nat option"
  gj_payload :: payload
  gj_finished :: "int option"
  gj_error :: "string option"
  gj_db_released :: bool

record hgate =
  hg_job :: nat
  hg_kind :: string
  hg_version :: nat
  hg_original :: "nat option"
  hg_generation :: nat
  hg_state :: string
  hg_expected :: "string option"
  hg_sources :: "string list"
  hg_actions :: "string list"
  hg_action :: "string option"
  hg_resolution :: "string option"
  hg_key :: "string option"
  hg_token :: "string option"
  hg_error :: "string option"
  hg_resolved :: "int option"

record gwi =
  gw_id :: nat
  gw_status :: string
  gw_merge :: string

record outbox_row =
  ob_gate :: nat
  ob_key :: string
  ob_type :: string
  ob_payload :: "string option"
  ob_state :: string
  ob_attempts :: nat
  ob_error :: "string option"
  ob_completed :: "int option"

text \<open>An event is kept as its job, its type and whether it says that the gate was reopened.\<close>

record gdb =
  gd_jobs :: "gjob list"
  gd_wis :: "gwi list"
  gd_gates :: "hgate list"
  gd_outbox :: "outbox_row list"
  gd_events :: "(nat \<times> string \<times> bool) list"

definition gjob_of :: "gdb \<Rightarrow> nat \<Rightarrow> gjob option" where
  "gjob_of d i = find (\<lambda>j. gj_id j = i) (gd_jobs d)"

definition gwi_of :: "gdb \<Rightarrow> nat \<Rightarrow> gwi option" where
  "gwi_of d i = find (\<lambda>w. gw_id w = i) (gd_wis d)"

definition getHumanGate :: "nat \<Rightarrow> gdb \<Rightarrow> hgate option" where
  "getHumanGate i d = find (\<lambda>g. hg_job g = i) (gd_gates d)"

definition gj_terminal :: "gjob \<Rightarrow> bool" where
  "gj_terminal j \<longleftrightarrow> gj_status j \<in> set TERMINAL_JOB_STATUSES"

text \<open>The gate's job exists and has not ended.\<close>

definition gate_job_live :: "gdb \<Rightarrow> hgate \<Rightarrow> bool" where
  "gate_job_live d g = (case gjob_of d (hg_job g) of None \<Rightarrow> False | Some j \<Rightarrow> \<not> gj_terminal j)"

definition ACTIVE_GATE_STATES :: "string list" where
  "ACTIVE_GATE_STATES = [''open'', ''resolving'']"

definition hg_active :: "hgate \<Rightarrow> bool" where
  "hg_active g \<longleftrightarrow> hg_state g \<in> set ACTIVE_GATE_STATES"

text \<open>\<open>UPDATE human_gates SET .. WHERE ..\<close>.\<close>

definition upd_gates :: "(hgate \<Rightarrow> bool) \<Rightarrow> (hgate \<Rightarrow> hgate) \<Rightarrow> gdb \<Rightarrow> gdb" where
  "upd_gates P f d = d\<lparr>gd_gates := map (\<lambda>g. if P g then f g else g) (gd_gates d)\<rparr>"

definition some_gate :: "(hgate \<Rightarrow> bool) \<Rightarrow> gdb \<Rightarrow> bool" where
  "some_gate P d = list_ex P (gd_gates d)"

definition upd_gjob :: "nat \<Rightarrow> (gjob \<Rightarrow> gjob) \<Rightarrow> gdb \<Rightarrow> gdb" where
  "upd_gjob i f d = d\<lparr>gd_jobs := map (\<lambda>j. if gj_id j = i then f j else j) (gd_jobs d)\<rparr>"

definition coalesce :: "'a option \<Rightarrow> 'a \<Rightarrow> 'a option" where
  "coalesce v x = Some (case v of None \<Rightarrow> x | Some y \<Rightarrow> y)"

definition supersede :: "string \<Rightarrow> int \<Rightarrow> hgate \<Rightarrow> hgate" where
  "supersede why now g = g\<lparr>hg_state := ''superseded'', hg_token := None, hg_error := Some why, hg_resolved := coalesce (hg_resolved g) now\<rparr>"

definition reopen :: "string option \<Rightarrow> hgate \<Rightarrow> hgate" where
  "reopen why g = g\<lparr>hg_state := ''open'', hg_action := None, hg_key := None, hg_token := None, hg_error := why\<rparr>"

section \<open>Registration\<close>

definition WORK_ITEM_SINGLETON_GATE_KINDS :: "string list" where
  "WORK_ITEM_SINGLETON_GATE_KINDS = [''one_shot_file_scope'', ''work_item_failure_disposition'', ''cross_wi_upstream_disposition'']"

text \<open>\<open>ORDER BY generation DESC LIMIT 1\<close>.\<close>

definition latest_gate :: "hgate list \<Rightarrow> hgate option" where
  "latest_gate gs = find (\<lambda>g. list_all (\<lambda>h. hg_generation h \<le> hg_generation g) gs) gs"

definition gate_in_wi :: "gdb \<Rightarrow> nat \<Rightarrow> hgate \<Rightarrow> bool" where
  "gate_in_wi d w g \<longleftrightarrow> hg_original g = None \<and> (case gjob_of d (hg_job g) of None \<Rightarrow> False | Some j \<Rightarrow> gj_wi j = Some w)"

text \<open>The gates a contract competes with: of its original job, or of its work item for a singleton gate.\<close>

definition gate_slot :: "gdb \<Rightarrow> contract \<Rightarrow> nat option \<Rightarrow> (hgate \<Rightarrow> bool) option" where
  "gate_slot d c w = (case ct_original c of
       Some i \<Rightarrow> Some (\<lambda>g. hg_original g = Some i \<and> hg_kind g = ct_kind c)
     | None \<Rightarrow> if ct_kind c \<notin> set WORK_ITEM_SINGLETON_GATE_KINDS then None
         else case w of None \<Rightarrow> None
           | Some w \<Rightarrow> if w = 0 then None else Some (\<lambda>g. gate_in_wi d w g \<and> hg_kind g = ct_kind c))"

definition findActiveHumanGateForPayload :: "payload \<Rightarrow> nat option \<Rightarrow> nat option \<Rightarrow> gdb \<Rightarrow> string + hgate option" where
  "findActiveHumanGateForPayload p parent w d = (case humanGateContractForPayload p parent of Inl e \<Rightarrow> Inl e
     | Inr c \<Rightarrow> Inr (case gate_slot d c w of None \<Rightarrow> None
       | Some slot \<Rightarrow> latest_gate (filter (\<lambda>g. slot g \<and> hg_active g \<and> gate_job_live d g) (gd_gates d))))"

definition STALE_GATE :: string where
  "STALE_GATE = ''Superseded by a new gate after the prior gate job became terminal or disappeared''"

definition new_gate :: "nat \<Rightarrow> contract \<Rightarrow> nat \<Rightarrow> string option \<Rightarrow> hgate" where
  "new_gate i c generation status = \<lparr>hg_job = i, hg_kind = ct_kind c, hg_version = ct_version c, hg_original = ct_original c,
     hg_generation = generation, hg_state = ''open'', hg_expected = status, hg_sources = ct_sources c,
     hg_actions = js_unique (ct_actions c), hg_action = None, hg_resolution = None, hg_key = None, hg_token = None, hg_error = None,
     hg_resolved = None\<rparr>"

text \<open>The foreign keys of a new gate: its job, and its original job if it has one.\<close>

definition gate_fits :: "gdb \<Rightarrow> hgate \<Rightarrow> bool" where
  "gate_fits d g \<longleftrightarrow> gjob_of d (hg_job g) \<noteq> None \<and> (case hg_original g of None \<Rightarrow> True | Some i \<Rightarrow> gjob_of d i \<noteq> None)"

text \<open>Active gates of the slot whose job has ended or is gone make way.\<close>

definition retire_stale :: "(hgate \<Rightarrow> bool) option \<Rightarrow> int \<Rightarrow> gdb \<Rightarrow> gdb" where
  "retire_stale slot now d = (case slot of None \<Rightarrow> d
     | Some s \<Rightarrow> upd_gates (\<lambda>g. s g \<and> hg_active g \<and> \<not> gate_job_live d g) (supersede STALE_GATE now) d)"

definition competing_gate :: "(hgate \<Rightarrow> bool) option \<Rightarrow> gdb \<Rightarrow> hgate option" where
  "competing_gate slot d = Option.bind slot (\<lambda>s. latest_gate (filter (\<lambda>g. s g \<and> hg_active g) (gd_gates d)))"

definition next_generation :: "(hgate \<Rightarrow> bool) option \<Rightarrow> gdb \<Rightarrow> nat" where
  "next_generation slot d = (case slot of None \<Rightarrow> 1 | Some s \<Rightarrow> Suc (foldr max (map hg_generation (filter s (gd_gates d))) 0))"

text \<open>
  The body of the registration's transaction. When it throws inside the transaction of a caller, what it
  wrote before stays.
\<close>

definition register_body :: "nat \<Rightarrow> payload \<Rightarrow> nat option \<Rightarrow> int \<Rightarrow> gdb \<Rightarrow> gdb \<times> (string + hgate)" where
  "register_body i p parent now d = (case getHumanGate i d of Some g \<Rightarrow> (d, Inr g)
     | None \<Rightarrow> (case humanGateContractForPayload p parent of Inl e \<Rightarrow> (d, Inl e)
       | Inr c \<Rightarrow> (case validateHumanGateActionabilityContract c of
           Some reason \<Rightarrow> (d, Inl (''Human gate actionability contract invalid: '' @ reason))
         | None \<Rightarrow>
           let slot = gate_slot d c (Option.bind (gjob_of d i) gj_wi);
               d1 = retire_stale slot now d
           in case competing_gate slot d1 of Some g \<Rightarrow> (d1, Inr g)
              | None \<Rightarrow>
                let g = new_gate i c (next_generation slot d1) (map_option gj_status (Option.bind (ct_original c) (gjob_of d1)))
                in if gate_fits d1 g then (d1\<lparr>gd_gates := gd_gates d1 @ [g]\<rparr>, Inr g)
                   else (d1, Inl ''FOREIGN KEY constraint failed''))))"

definition registerHumanGate :: "nat \<Rightarrow> payload \<Rightarrow> nat option \<Rightarrow> int \<Rightarrow> gdb \<Rightarrow> gdb \<times> (string + hgate)" where
  "registerHumanGate i p parent now d = (case register_body i p parent now d of
       (d1, Inl e) \<Rightarrow> (d, Inl e) | (d1, Inr g) \<Rightarrow> (d1, Inr g))"

section \<open>Prompts and revisions\<close>

definition without_prompt :: "payload \<Rightarrow> payload" where
  "without_prompt p = p\<lparr>pl_resurfaced := 0, pl_presented := None, pl_presented_at := None\<rparr>"

definition prompt_signature :: "(payload \<Rightarrow> string) \<Rightarrow> hgate \<Rightarrow> payload \<Rightarrow> string" where
  "prompt_signature fp g p = show_nat (max 1 (hg_generation g)) @ '':'' @ show_nat (pl_resurfaced p) @ '':'' @ fp (without_prompt p)"

datatype prompt_claim = Prompt_claimed string | Prompt_refused string

definition claimHumanGatePromptPresentation :: "(payload \<Rightarrow> string) \<Rightarrow> nat \<Rightarrow> int \<Rightarrow> gdb \<Rightarrow> gdb \<times> prompt_claim" where
  "claimHumanGatePromptPresentation fp i now d = (case (gjob_of d i, getHumanGate i d) of
       (Some j, Some g) \<Rightarrow>
         if gj_status j \<noteq> ''waiting_on_human'' \<or> hg_state g \<noteq> ''open'' then (d, Prompt_refused ''gate_not_presentable'')
         else let sig = prompt_signature fp g (gj_payload j)
           in if pl_presented (gj_payload j) = Some sig then (d, Prompt_refused ''already_presented'')
              else (upd_gjob i (\<lambda>j. j\<lparr>gj_payload := (gj_payload j)\<lparr>pl_presented := Some sig, pl_presented_at := Some now\<rparr>\<rparr>) d, Prompt_claimed sig)
     | _ \<Rightarrow> (d, Prompt_refused ''gate_not_presentable''))"

definition refreshHumanGateContract :: "nat \<Rightarrow> payload \<Rightarrow> gdb \<Rightarrow> gdb \<times> (string + bool)" where
  "refreshHumanGateContract i p d = (case humanGateContractForPayload p None of Inl e \<Rightarrow> (d, Inl e)
     | Inr c \<Rightarrow>
       let P = (\<lambda>g. hg_job g = i \<and> hg_active g \<and> hg_kind g = ct_kind c)
       in (upd_gates P (\<lambda>g. g\<lparr>hg_actions := js_unique (ct_actions c), hg_generation := Suc (hg_generation g)\<rparr>) d, Inr (some_gate P d)))"

datatype revise_result = Revised nat nat | Not_revised string

definition reviseOpenHumanGateGeneration :: "nat \<Rightarrow> gdb \<Rightarrow> gdb \<times> revise_result" where
  "reviseOpenHumanGateGeneration i d = (case getHumanGate i d of None \<Rightarrow> (d, Not_revised ''gate_not_found'')
     | Some g \<Rightarrow>
       if hg_state g \<noteq> ''open'' then (d, Not_revised ''gate_not_open'')
       else let previous = max 1 (hg_generation g)
         in (upd_gates (\<lambda>h. hg_job h = i \<and> hg_state h = ''open'' \<and> hg_generation h = hg_generation g) (\<lambda>h. h\<lparr>hg_generation := Suc previous\<rparr>) d,
             Revised previous (Suc previous)))"

section \<open>Resolution\<close>

definition lease_truthy :: "string option \<Rightarrow> bool" where
  "lease_truthy t \<longleftrightarrow> (case t of None \<Rightarrow> False | Some s \<Rightarrow> s \<noteq> [])"

text \<open>\<open>jobHasLiveLeaseAt(job, grace)\<close>.\<close>

definition gjob_leased :: "int \<Rightarrow> gjob \<Rightarrow> bool" where
  "gjob_leased grace j \<longleftrightarrow> lease_truthy (gj_token j) \<and> (case gj_expires j of None \<Rightarrow> False | Some t \<Rightarrow> grace \<le> t)"

definition resolvedAction :: "string option \<Rightarrow> string" where
  "resolvedAction action = (if trimmed action = [] then ''respond'' else trimmed action)"

definition humanGateIdempotencyKey :: "(string \<Rightarrow> string) \<Rightarrow> nat \<Rightarrow> nat \<Rightarrow> string \<Rightarrow> string option \<Rightarrow> string" where
  "humanGateIdempotencyKey sha i generation action requestKey =
     (if trimmed requestKey \<noteq> [] then take 240 (trimmed requestKey)
      else sha (show_nat i @ '':'' @ show_nat (max 1 generation) @ '':'' @ resolvedAction (Some action)))"

text \<open>The outcomes of a claim: refused with a reason, the answer had been accepted before, accepted now, or a violated constraint.\<close>

datatype begin_result = Begin_refused string | Begin_replay hgate "string option" | Begin_claimed string string | Begin_sql_error

text \<open>\<open>beginResolutionDecision\<close>: the action and key to claim with, or the outcome.\<close>

definition beginResolutionDecision :: "hgate \<Rightarrow> string option \<Rightarrow> (string \<Rightarrow> string) \<Rightarrow> begin_result + string \<times> string" where
  "beginResolutionDecision g action idempotencyKey =
     (let resolved = resolvedAction action in
      if resolved \<notin> set (hg_actions g) then Inl (Begin_refused ''action_not_allowed'')
      else let key = idempotencyKey resolved in
        if hg_state g = ''resolved'' then Inl (if hg_key g = Some key then Begin_replay g (hg_action g) else Begin_refused ''gate_already_resolved'')
        else if hg_state g \<noteq> ''open'' then Inl (Begin_refused ''gate_not_open'')
        else Inr (resolved, key))"

text \<open>\<open>sourceStateDecision\<close>: the reason an answer no longer applies to the original job.\<close>

definition sourceStateDecision :: "gjob option \<Rightarrow> string list \<Rightarrow> string option" where
  "sourceStateDecision original allowedStates = (case original of None \<Rightarrow> Some ''original_job_missing''
     | Some j \<Rightarrow> if gj_status j \<in> set allowedStates then None else Some ''original_state_changed'')"

record begin_args =
  ba_gate :: nat
  ba_token :: "string option"
  ba_action :: "string option"
  ba_key :: "string option"
  ba_require :: bool

text \<open>The checks between the decision and the claim.\<close>

definition begin_refusal :: "begin_args \<Rightarrow> int \<Rightarrow> hgate \<Rightarrow> gdb \<Rightarrow> string option" where
  "begin_refusal a grace g d = (case gjob_of d (ba_gate a) of None \<Rightarrow> Some ''gate_job_missing''
     | Some j \<Rightarrow>
       if (case Option.bind (gj_wi j) (gwi_of d) of None \<Rightarrow> False | Some w \<Rightarrow> gw_merge w = ''merge_authorized'')
       then Some ''work_item_merge_authorized''
       else if ba_require a \<and> (\<not> lease_truthy (ba_token a) \<or> gj_token j \<noteq> ba_token a \<or> \<not> gjob_leased grace j)
       then Some ''stale_gate_lease''
       else case hg_original g of None \<Rightarrow> None | Some i \<Rightarrow> sourceStateDecision (gjob_of d i) (hg_sources g))"

definition claim_gate :: "string \<Rightarrow> string \<Rightarrow> string option \<Rightarrow> hgate \<Rightarrow> hgate" where
  "claim_gate action key token g = g\<lparr>hg_state := ''resolving'', hg_action := Some action, hg_key := Some key, hg_token := token, hg_error := None\<rparr>"

definition bump_version :: "gjob \<Rightarrow> gjob" where
  "bump_version j = j\<lparr>gj_version := Suc (gj_version j)\<rparr>"

text \<open>The key of a gate is unique: a claim with the key of another gate violates the constraint.\<close>

definition beginHumanGateResolution :: "(string \<Rightarrow> string) \<Rightarrow> begin_args \<Rightarrow> int \<Rightarrow> gdb \<Rightarrow> gdb \<times> begin_result" where
  "beginHumanGateResolution sha a grace d = (case getHumanGate (ba_gate a) d of None \<Rightarrow> (d, Begin_refused ''gate_contract_missing'')
     | Some g \<Rightarrow>
       (case beginResolutionDecision g (ba_action a)
           (\<lambda>act. humanGateIdempotencyKey sha (ba_gate a) (hg_generation g) act (ba_key a)) of
          Inl r \<Rightarrow> (d, r)
        | Inr (action, key) \<Rightarrow>
          (case begin_refusal a grace g d of Some reason \<Rightarrow> (d, Begin_refused reason)
           | None \<Rightarrow>
             let d1 = (case hg_original g of None \<Rightarrow> d | Some i \<Rightarrow> upd_gjob i bump_version d)
             in if list_ex (\<lambda>h. hg_job h \<noteq> ba_gate a \<and> hg_key h = Some key) (gd_gates d1) then (d, Begin_sql_error)
                else (upd_gates (\<lambda>h. hg_job h = ba_gate a \<and> hg_state h = ''open'' \<and> hg_generation h = hg_generation g)
                        (claim_gate action key (ba_token a)) d1, Begin_claimed action key))))"

datatype complete_result = Complete_refused string | Complete_replay hgate | Complete_done

definition resolve_gate :: "string \<Rightarrow> int \<Rightarrow> hgate \<Rightarrow> hgate" where
  "resolve_gate resolution now g = g\<lparr>hg_state := ''resolved'', hg_resolution := Some resolution, hg_error := None, hg_token := None,
     hg_resolved := Some now\<rparr>"

text \<open>\<open>? IS NULL OR resolver_lease_token = ?\<close>.\<close>

definition token_matches :: "string option \<Rightarrow> hgate \<Rightarrow> bool" where
  "token_matches token g \<longleftrightarrow> token = None \<or> hg_token g = token"

definition completeHumanGateResolution :: "nat \<Rightarrow> string option \<Rightarrow> string \<Rightarrow> int \<Rightarrow> int \<Rightarrow> gdb \<Rightarrow> gdb \<times> complete_result" where
  "completeHumanGateResolution i token resolution now grace d = (case getHumanGate i d of None \<Rightarrow> (d, Complete_refused ''gate_contract_missing'')
     | Some g \<Rightarrow>
       if hg_state g = ''resolved'' then (d, Complete_replay g)
       else if hg_state g \<noteq> ''resolving'' then (d, Complete_refused ''gate_not_resolving'')
       else if token \<noteq> None \<and> hg_token g \<noteq> token then (d, Complete_refused ''stale_gate_lease'')
       else if token \<noteq> None \<and> (case gjob_of d i of None \<Rightarrow> True | Some j \<Rightarrow> gj_token j \<noteq> token \<or> \<not> gjob_leased grace j)
       then (d, Complete_refused ''stale_gate_lease'')
       else (upd_gates (\<lambda>h. hg_job h = i \<and> hg_state h = ''resolving'' \<and> token_matches token h) (resolve_gate resolution now) d, Complete_done))"

definition reopenHumanGateResolution :: "nat \<Rightarrow> string option \<Rightarrow> string option \<Rightarrow> gdb \<Rightarrow> gdb \<times> bool" where
  "reopenHumanGateResolution i token err d =
     (let P = (\<lambda>g. hg_job g = i \<and> hg_state g = ''resolving'' \<and> token_matches token g)
      in (upd_gates P (reopen (map_option (take 2000) err)) d, some_gate P d))"

definition noteHumanGateAnswerNotApplied :: "nat \<Rightarrow> string option \<Rightarrow> gdb \<Rightarrow> gdb \<times> bool" where
  "noteHumanGateAnswerNotApplied i reason d =
     (let P = (\<lambda>g. hg_job g = i \<and> hg_state g = ''open'');
          why = (if text_of reason = [] then ''answer not applied'' else text_of reason);
          d1 = upd_gates P (\<lambda>g. g\<lparr>hg_error := Some (take 2000 why)\<rparr>) d
      in if some_gate P d
         then (upd_gjob i (\<lambda>j. j\<lparr>gj_payload := (gj_payload j)\<lparr>pl_presented := None, pl_presented_at := None\<rparr>\<rparr>) d1, True)
         else (d1, False))"

definition supersede_by :: "string \<Rightarrow> int \<Rightarrow> hgate \<Rightarrow> hgate" where
  "supersede_by reason now g = g\<lparr>hg_state := ''superseded'', hg_error := Some (take 500 reason), hg_token := None, hg_resolved := Some now\<rparr>"

definition supersedeHumanGate :: "nat \<Rightarrow> string \<Rightarrow> int \<Rightarrow> gdb \<Rightarrow> gdb \<times> bool" where
  "supersedeHumanGate i reason now d =
     (let P = (\<lambda>g. hg_job g = i \<and> hg_active g) in (upd_gates P (supersede_by reason now) d, some_gate P d))"

text \<open>A lease that SQL sees as running after \<open>t\<close>: here an empty token counts as a lease.\<close>

definition sql_leased_after :: "int \<Rightarrow> gjob \<Rightarrow> bool" where
  "sql_leased_after t j \<longleftrightarrow> gj_token j \<noteq> None \<and> (case gj_expires j of None \<Rightarrow> False | Some e \<Rightarrow> t < e)"

definition headless_claimable :: "gdb \<Rightarrow> nat \<Rightarrow> int \<Rightarrow> hgate \<Rightarrow> bool" where
  "headless_claimable d i grace g \<longleftrightarrow> hg_job g = i \<and> hg_state g = ''open'' \<and>
     (case gjob_of d (hg_job g) of None \<Rightarrow> False | Some j \<Rightarrow> gj_status j = ''waiting_on_human'' \<and> \<not> sql_leased_after grace j)"

definition claimHeadlessHumanGateTimeout :: "nat \<Rightarrow> string \<Rightarrow> int \<Rightarrow> int \<Rightarrow> gdb \<Rightarrow> gdb \<times> bool" where
  "claimHeadlessHumanGateTimeout i reason now grace d =
     (upd_gates (headless_claimable d i grace) (supersede_by reason now) d, some_gate (headless_claimable d i grace) d)"

section \<open>The outbox\<close>

text \<open>\<open>ON CONFLICT(operation_key) DO NOTHING\<close>; the row stored under the key, or a violated foreign key.\<close>

definition enqueueHumanGateEffect :: "nat \<Rightarrow> string \<Rightarrow> string \<Rightarrow> string option \<Rightarrow> gdb \<Rightarrow> gdb \<times> outbox_row option" where
  "enqueueHumanGateEffect i key type payload d = (case find (\<lambda>r. ob_key r = key) (gd_outbox d) of Some r \<Rightarrow> (d, Some r)
     | None \<Rightarrow>
       let r = \<lparr>ob_gate = i, ob_key = key, ob_type = type, ob_payload = payload, ob_state = ''pending'', ob_attempts = 0,
                ob_error = None, ob_completed = None\<rparr>
       in if getHumanGate i d = None then (d, None) else (d\<lparr>gd_outbox := gd_outbox d @ [r]\<rparr>, Some r))"

definition completeHumanGateEffect :: "string \<Rightarrow> string option \<Rightarrow> int \<Rightarrow> gdb \<Rightarrow> gdb \<times> bool" where
  "completeHumanGateEffect key payload now d =
     (d\<lparr>gd_outbox := map (\<lambda>r. if ob_key r = key then r\<lparr>ob_state := ''completed'', ob_payload := payload, ob_completed := Some now,
        ob_attempts := Suc (ob_attempts r), ob_error := None\<rparr> else r) (gd_outbox d)\<rparr>, list_ex (\<lambda>r. ob_key r = key) (gd_outbox d))"

section \<open>Decisions of the sweep\<close>

text \<open>The original's released database task belongs to the merged, complete work item of the gate.\<close>

definition isReleasedPostMergeDbJob :: "gjob option \<Rightarrow> nat \<Rightarrow> gwi \<Rightarrow> bool" where
  "isReleasedPostMergeDbJob original w wi \<longleftrightarrow> gw_status wi = ''complete'' \<and> gw_merge wi = ''merged'' \<and>
     (case original of None \<Rightarrow> False | Some j \<Rightarrow> gj_wi j = Some w \<and> gj_db_released j)"

definition shouldRetireTerminalWorkItemGate :: "nat \<Rightarrow> gwi \<Rightarrow> payload \<Rightarrow> gjob option \<Rightarrow> bool" where
  "shouldRetireTerminalWorkItemGate w wi p original =
     (if isReleasedPostMergeDbJob original w wi then False
      else if pl_review_type p = Some ''work_item_failure_disposition'' \<and> gw_status wi = ''failed'' then False
      else if pl_review_type p = Some ''cross_wi_upstream_disposition'' \<and> gw_status wi = ''complete'' \<and> gw_merge wi \<noteq> ''merged'' then False
      else pl_subtype p \<noteq> Some ''push_offer'' \<and> pl_review_type p \<noteq> Some ''post_merge_db_task'' \<and>
        pl_review_type p \<noteq> Some ''merge_verification_review'' \<and> pl_review_type p \<noteq> Some ''merge_failure_recovery'')"

datatype abandoned_decision = Retire_missing_original | Retire_source_changed | Reopen_gate

definition abandonedResolverDecision :: "nat option \<Rightarrow> string option \<Rightarrow> string list \<Rightarrow> abandoned_decision" where
  "abandonedResolverDecision referencedId originalStatus allowedStates =
     (if referencedId \<noteq> None \<and> originalStatus = None then Retire_missing_original
      else if (case originalStatus of None \<Rightarrow> False | Some s \<Rightarrow> s \<notin> set allowedStates) then Retire_source_changed
      else Reopen_gate)"

datatype terminal_decision = Resolve_gate | Supersede_gate | Reopen_job

definition terminalGateDecision :: "string \<Rightarrow> bool \<Rightarrow> terminal_decision" where
  "terminalGateDecision jobStatus headlessTimedOut =
     (if jobStatus = ''succeeded'' then Resolve_gate
      else if jobStatus = ''canceled'' \<or> headlessTimedOut then Supersede_gate
      else Reopen_job)"

definition first_given :: "'a option \<Rightarrow> 'a option \<Rightarrow> 'a option" where
  "first_given a b = (case a of None \<Rightarrow> b | Some x \<Rightarrow> Some x)"

text \<open>\<open>Number(a ?? b)\<close> as a positive safe integer.\<close>

definition referenced_id :: "int option \<Rightarrow> int option \<Rightarrow> nat option" where
  "referenced_id a b = (case first_given a b of None \<Rightarrow> None | Some i \<Rightarrow> if 0 < i \<and> i < 2 ^ 53 then Some (nat i) else None)"

section \<open>The sweep\<close>

text \<open>
  What the sweep reports: its counters, the reasons in the order they are counted, and the work items it
  affects (which its caller refreshes). Its state is the tables with this report.
\<close>

record sweep =
  sw_registered :: nat
  sw_reopened :: nat
  sw_retired :: nat
  sw_reasons :: "string list"
  sw_affected :: "nat list"
  sw_mutated :: bool

definition sweep_start :: sweep where
  "sweep_start = \<lparr>sw_registered = 0, sw_reopened = 0, sw_retired = 0, sw_reasons = [], sw_affected = [], sw_mutated = False\<rparr>"

definition noteGateMutation :: "nat option \<Rightarrow> sweep \<Rightarrow> sweep" where
  "noteGateMutation w s = s\<lparr>sw_mutated := True,
     sw_affected := (case w of None \<Rightarrow> sw_affected s | Some i \<Rightarrow> if i = 0 \<or> i \<in> set (sw_affected s) then sw_affected s else sw_affected s @ [i])\<rparr>"

definition countReason :: "string \<Rightarrow> sweep \<Rightarrow> sweep" where
  "countReason r s = s\<lparr>sw_reasons := sw_reasons s @ [r]\<rparr>"

definition count_retired :: "string \<Rightarrow> sweep \<Rightarrow> sweep" where
  "count_retired r s = countReason r (s\<lparr>sw_retired := Suc (sw_retired s)\<rparr>)"

definition count_reopened :: "string \<Rightarrow> sweep \<Rightarrow> sweep" where
  "count_reopened r s = countReason r (s\<lparr>sw_reopened := Suc (sw_reopened s)\<rparr>)"

definition count_registered :: "string \<Rightarrow> sweep \<Rightarrow> sweep" where
  "count_registered r s = countReason r (s\<lparr>sw_registered := Suc (sw_registered s)\<rparr>)"

definition wi_of_job :: "gdb \<Rightarrow> nat \<Rightarrow> nat option" where
  "wi_of_job d i = Option.bind (gjob_of d i) gj_wi"

text \<open>The update that ends a job, if it has not ended: its lease goes and its error is kept or set.\<close>

definition end_job :: "string \<Rightarrow> (string option \<Rightarrow> string option) \<Rightarrow> int \<Rightarrow> gjob \<Rightarrow> gjob" where
  "end_job status err now j = (if gj_terminal j then j else j\<lparr>gj_status := status, gj_finished := coalesce (gj_finished j) now,
     gj_token := None, gj_expires := None, gj_error := err (gj_error j)\<rparr>)"

definition keep_error :: "string \<Rightarrow> string option \<Rightarrow> string option" where
  "keep_error why e = coalesce e why"

definition supersede_gate :: "nat \<Rightarrow> string \<Rightarrow> int \<Rightarrow> gdb \<Rightarrow> gdb" where
  "supersede_gate i why now = upd_gates (\<lambda>g. hg_job g = i \<and> hg_active g) (supersede why now)"

definition retire_changes :: "nat \<Rightarrow> gdb \<Rightarrow> bool" where
  "retire_changes i d \<longleftrightarrow> (case gjob_of d i of None \<Rightarrow> False | Some j \<Rightarrow> \<not> gj_terminal j) \<or> some_gate (\<lambda>g. hg_job g = i \<and> hg_active g) d"

definition retireGateJob :: "string \<Rightarrow> nat \<Rightarrow> string \<Rightarrow> int \<Rightarrow> gdb \<times> sweep \<Rightarrow> gdb \<times> sweep" where
  "retireGateJob counted i reason now st = (case st of (d, s) \<Rightarrow>
     let why = take 500 (if reason = [] then ''Human gate is no longer answerable'' else reason);
         d1 = supersede_gate i why now (upd_gjob i (end_job ''canceled'' (keep_error why) now) d)
     in (d1, if retire_changes i d then count_retired counted (noteGateMutation (wi_of_job d1 i) s) else s))"

text \<open>A job without a lease, or with one that has run out by \<open>t\<close>.\<close>

definition lease_gone_by :: "int \<Rightarrow> gjob \<Rightarrow> bool" where
  "lease_gone_by t j \<longleftrightarrow> gj_token j = None \<or> (case gj_expires j of None \<Rightarrow> True | Some e \<Rightarrow> e \<le> t)"

definition closed_error :: "bool \<Rightarrow> string option \<Rightarrow> string option \<Rightarrow> string option" where
  "closed_error succeeded why e = (if succeeded then None
     else Some (case e of Some x \<Rightarrow> x | None \<Rightarrow> (case why of Some x \<Rightarrow> x | None \<Rightarrow> ''Human gate contract was superseded'')))"

text \<open>Gates that are closed while their job waits: the job takes over the gate's outcome.\<close>

definition closed_contracts :: "int \<Rightarrow> gdb \<Rightarrow> hgate list" where
  "closed_contracts now d = filter (\<lambda>g. \<not> hg_active g \<and>
     (case gjob_of d (hg_job g) of None \<Rightarrow> False | Some j \<Rightarrow> \<not> gj_terminal j \<and> lease_gone_by now j)) (gd_gates d)"

definition close_contract_job :: "int \<Rightarrow> hgate \<Rightarrow> gdb \<times> sweep \<Rightarrow> gdb \<times> sweep" where
  "close_contract_job now g st = (case st of (d, s) \<Rightarrow>
     (case gjob_of d (hg_job g) of None \<Rightarrow> (d, s)
      | Some j \<Rightarrow>
        if gj_terminal j \<or> \<not> lease_gone_by now j then (d, s)
        else let ok = (hg_state g = ''resolved'');
                 f = bump_version \<circ> end_job (if ok then ''succeeded'' else ''canceled'') (closed_error ok (hg_error g)) now
             in (upd_gjob (hg_job g) f d, noteGateMutation (gj_wi j) (count_retired ''closed_contract_job'' s))))"

definition sweep_closed :: "int \<Rightarrow> gdb \<times> sweep \<Rightarrow> gdb \<times> sweep" where
  "sweep_closed now st = fold (close_contract_job now) (closed_contracts now (fst st)) st"

text \<open>Gates of work items that have ended.\<close>

definition TERMINAL_WORK_ITEM_STATUSES :: "string list" where
  "TERMINAL_WORK_ITEM_STATUSES = [''complete'', ''failed'', ''canceled'']"

definition gate_active_of :: "gdb \<Rightarrow> nat \<Rightarrow> bool" where
  "gate_active_of d i = (case getHumanGate i d of None \<Rightarrow> False | Some g \<Rightarrow> hg_active g)"

definition in_ended_wi :: "gdb \<Rightarrow> gjob \<Rightarrow> bool" where
  "in_ended_wi d j \<longleftrightarrow> gj_human j \<and> (case gj_wi j of None \<Rightarrow> False | Some w \<Rightarrow> (case gwi_of d w of None \<Rightarrow> False
     | Some wi \<Rightarrow> gw_status wi \<in> set TERMINAL_WORK_ITEM_STATUSES \<and> (\<not> gj_terminal j \<or> gate_active_of d (gj_id j)) \<and>
         shouldRetireTerminalWorkItemGate w wi (gj_payload j)
           (Option.bind (pl_original (gj_payload j)) (\<lambda>i. if i < 0 then None else gjob_of d (nat i)))))"

definition sweep_ended_wis :: "int \<Rightarrow> gdb \<times> sweep \<Rightarrow> gdb \<times> sweep" where
  "sweep_ended_wis now st = fold (\<lambda>j. retireGateJob ''terminal_work_item'' (gj_id j) ''Owning work item is terminal'' now)
     (filter (in_ended_wi (fst st)) (gd_jobs (fst st))) st"

text \<open>Open gates whose original job has left the states the contract allows.\<close>

definition drifted :: "gdb \<Rightarrow> hgate \<Rightarrow> string option" where
  "drifted d g = (if hg_state g = ''open'' \<and> gate_job_live d g
     then (case Option.bind (hg_original g) (gjob_of d) of None \<Rightarrow> None
       | Some j \<Rightarrow> if gj_status j \<in> set (hg_sources g) then None else Some (gj_status j)) else None)"

definition sweep_drift :: "int \<Rightarrow> gdb \<times> sweep \<Rightarrow> gdb \<times> sweep" where
  "sweep_drift now st = fold (\<lambda>(g, status). retireGateJob ''source_state_changed'' (hg_job g)
       (''Original job state '' @ status @ '' is outside the gate contract'') now)
     (List.map_filter (\<lambda>g. map_option (Pair g) (drifted (fst st) g)) (gd_gates (fst st))) st"

text \<open>Open gates whose payload names an original job that no longer exists.\<close>

definition lost_original :: "gdb \<Rightarrow> hgate \<Rightarrow> nat option" where
  "lost_original d g = (if hg_state g = ''open'' \<and> hg_original g = None \<and> gate_job_live d g
     then (case gjob_of d (hg_job g) of None \<Rightarrow> None
       | Some j \<Rightarrow> (case referenced_id (pl_original (gj_payload j)) (pl_plan_job (gj_payload j)) of None \<Rightarrow> None
         | Some i \<Rightarrow> if gjob_of d i = None then Some i else None)) else None)"

definition sweep_lost :: "int \<Rightarrow> gdb \<times> sweep \<Rightarrow> gdb \<times> sweep" where
  "sweep_lost now st = fold (\<lambda>(g, i). retireGateJob ''missing_original'' (hg_job g) (''Original job #'' @ show_nat i @ '' no longer exists'') now)
     (List.map_filter (\<lambda>g. map_option (Pair g) (lost_original (fst st) g)) (gd_gates (fst st))) st"

text \<open>Waiting questions without a contract, the newest first: registered, or ended as duplicates or as unusable.\<close>

definition unregistered :: "gdb \<Rightarrow> gjob list" where
  "unregistered d = rev (sort_key gj_id (filter (\<lambda>j. gj_human j \<and> \<not> gj_terminal j \<and> getHumanGate (gj_id j) d = None) (gd_jobs d)))"

definition register_missing :: "int \<Rightarrow> gjob \<Rightarrow> gdb \<times> sweep \<Rightarrow> gdb \<times> sweep" where
  "register_missing now j st = (case st of (d, s) \<Rightarrow>
     (case register_body (gj_id j) (gj_payload j) (gj_parent j) now d of
        (d1, Inr g) \<Rightarrow>
          if hg_job g = gj_id j then (d1, noteGateMutation (gj_wi j) (count_registered ''registered_legacy'' s))
          else (upd_gjob (gj_id j) (end_job ''canceled'' (\<lambda>_. Some ''Superseded by an existing active human gate'') now) d1,
                noteGateMutation (gj_wi j) (count_retired ''duplicate_legacy'' s))
      | (d1, Inl e) \<Rightarrow> retireGateJob ''invalid_legacy_contract'' (gj_id j) (''Could not establish durable gate contract: '' @ e) now (d1, s)))"

definition sweep_unregistered :: "int \<Rightarrow> gdb \<times> sweep \<Rightarrow> gdb \<times> sweep" where
  "sweep_unregistered now st = fold (register_missing now) (unregistered (fst st)) st"

text \<open>Open gates whose stored actions are not the current contract's.\<close>

definition refresh_drifted :: "hgate \<Rightarrow> gdb \<times> sweep \<Rightarrow> gdb \<times> sweep" where
  "refresh_drifted g st = (case st of (d, s) \<Rightarrow>
     (case gjob_of d (hg_job g) of None \<Rightarrow> (d, s)
      | Some j \<Rightarrow> (case humanGateContractForPayload (gj_payload j) (gj_parent j) of Inl e \<Rightarrow> (d, s)
        | Inr c \<Rightarrow>
          let current = js_unique (ct_actions c);
              P = (\<lambda>h. hg_job h = hg_job g \<and> hg_state h = ''open'' \<and> hg_generation h = hg_generation g)
          in if hg_actions g = current \<or> \<not> some_gate P d then (d, s)
             else let d1 = upd_gates P (\<lambda>h. h\<lparr>hg_actions := current, hg_generation := Suc (hg_generation h)\<rparr>) d;
                      d2 = (if pl_choices (gj_payload j) \<noteq> None \<and> current \<noteq> [''respond'']
                            then upd_gjob (hg_job g) (\<lambda>j'. j'\<lparr>gj_payload := (gj_payload j)\<lparr>pl_choices := Some current\<rparr>\<rparr>) d1 else d1)
                  in (d2, noteGateMutation (gj_wi j) (countReason ''contract_refreshed'' s)))))"

definition sweep_contracts :: "gdb \<times> sweep \<Rightarrow> gdb \<times> sweep" where
  "sweep_contracts st = fold refresh_drifted (filter (\<lambda>g. hg_state g = ''open'' \<and> gate_job_live (fst st) g) (gd_gates (fst st))) st"

text \<open>Active gates without a job, or whose job's work item is gone.\<close>

definition gate_orphaned :: "gdb \<Rightarrow> hgate \<Rightarrow> bool" where
  "gate_orphaned d g \<longleftrightarrow> hg_active g \<and> (case gjob_of d (hg_job g) of None \<Rightarrow> True
     | Some j \<Rightarrow> (case gj_wi j of None \<Rightarrow> False | Some w \<Rightarrow> gwi_of d w = None))"

text \<open>The gate is superseded and its job ended, counted once per selected row.\<close>

definition retire_row :: "string \<Rightarrow> string \<Rightarrow> string \<Rightarrow> string \<Rightarrow> int \<Rightarrow> hgate \<Rightarrow> gdb \<times> sweep \<Rightarrow> gdb \<times> sweep" where
  "retire_row counted status jobWhy gateWhy now g st = (case st of (d, s) \<Rightarrow>
     (supersede_gate (hg_job g) gateWhy now (upd_gjob (hg_job g) (end_job status (keep_error jobWhy) now) d),
      noteGateMutation (wi_of_job d (hg_job g)) (count_retired counted s)))"

definition sweep_orphans :: "int \<Rightarrow> gdb \<times> sweep \<Rightarrow> gdb \<times> sweep" where
  "sweep_orphans now st = fold (retire_row ''orphaned_gate'' ''canceled'' ''Gate work item no longer exists'' ''Gate job or work item no longer exists'' now)
     (filter (gate_orphaned (fst st)) (gd_gates (fst st))) st"

text \<open>Active gates with an answer that could not be applied, unless the event says that the gate was reopened for it.\<close>

definition resolution_failed :: "gdb \<Rightarrow> hgate \<Rightarrow> bool" where
  "resolution_failed d g \<longleftrightarrow> hg_active g \<and> gate_job_live d g \<and> list_ex (\<lambda>e. e = (hg_job g, ''job.human_resolution_failed'', False)) (gd_events d)"

definition sweep_failed :: "int \<Rightarrow> gdb \<times> sweep \<Rightarrow> gdb \<times> sweep" where
  "sweep_failed now st = fold (retire_row ''failed_resolution'' ''failed'' ''Human answer could not be applied''
       ''Human answer was accepted but its action could not be applied'' now)
     (filter (resolution_failed (fst st)) (gd_gates (fst st))) st"

text \<open>Resolving gates whose resolver has lost its lease.\<close>

definition abandoned_gate :: "int \<Rightarrow> gdb \<Rightarrow> hgate \<Rightarrow> bool" where
  "abandoned_gate grace d g \<longleftrightarrow> hg_state g = ''resolving'' \<and> (case gjob_of d (hg_job g) of None \<Rightarrow> False
     | Some j \<Rightarrow> \<not> gj_terminal j \<and> (gj_token j = None \<or> (case gj_expires j of None \<Rightarrow> True | Some e \<Rightarrow> e < grace)))"

text \<open>The original job, as the gate or its job's payload names it.\<close>

definition gate_reference :: "gdb \<Rightarrow> hgate \<Rightarrow> nat option" where
  "gate_reference d g = (let p = map_option gj_payload (gjob_of d (hg_job g))
     in referenced_id (first_given (map_option int (hg_original g)) (Option.bind p pl_original)) (Option.bind p pl_plan_job))"

definition recover_abandoned :: "int \<Rightarrow> hgate \<Rightarrow> gdb \<times> sweep \<Rightarrow> gdb \<times> sweep" where
  "recover_abandoned now g st = (case st of (d, s) \<Rightarrow>
     let referenced = gate_reference d g;
         status = map_option gj_status (Option.bind referenced (gjob_of d))
     in case abandonedResolverDecision referenced status (hg_sources g) of
          Retire_missing_original \<Rightarrow> retireGateJob ''missing_original'' (hg_job g)
            (''Resolver disappeared after original job #'' @ (case referenced of None \<Rightarrow> [] | Some i \<Rightarrow> show_nat i) @ '' was removed'') now (d, s)
        | Retire_source_changed \<Rightarrow> retireGateJob ''source_state_changed'' (hg_job g)
            (''Resolver disappeared after the original job already changed to '' @ text_of status) now (d, s)
        | Reopen_gate \<Rightarrow> (upd_gates (\<lambda>h. hg_job h = hg_job g \<and> hg_state h = ''resolving'')
            (reopen (Some ''Resolver disappeared mid-resolution; gate reopened'')) d,
            noteGateMutation (wi_of_job d (hg_job g)) (count_reopened ''abandoned_resolver'' s)))"

definition sweep_abandoned :: "int \<Rightarrow> int \<Rightarrow> gdb \<times> sweep \<Rightarrow> gdb \<times> sweep" where
  "sweep_abandoned now grace st = fold (recover_abandoned now) (filter (abandoned_gate grace (fst st)) (gd_gates (fst st))) st"

text \<open>Active gates whose job has ended: the gate takes over the job's outcome, or the job waits again.\<close>

definition inconsistent :: "gdb \<Rightarrow> hgate \<Rightarrow> bool" where
  "inconsistent d g \<longleftrightarrow> hg_active g \<and> (case gjob_of d (hg_job g) of None \<Rightarrow> False | Some j \<Rightarrow> gj_terminal j)"

definition headless_timed_out :: "gdb \<Rightarrow> nat \<Rightarrow> bool" where
  "headless_timed_out d i = list_ex (\<lambda>e. fst e = i \<and> fst (snd e) = ''job.headless_timeout'') (gd_events d)"

definition wait_again :: "gjob \<Rightarrow> gjob" where
  "wait_again j = j\<lparr>gj_status := ''waiting_on_human'', gj_finished := None, gj_token := None, gj_expires := None\<rparr>"

definition align_gate :: "int \<Rightarrow> hgate \<times> string \<times> bool \<Rightarrow> gdb \<times> sweep \<Rightarrow> gdb \<times> sweep" where
  "align_gate now row st = (case (row, st) of ((g, status, timedOut), (d, s)) \<Rightarrow>
     let P = (\<lambda>h. hg_job h = hg_job g); note = noteGateMutation (wi_of_job d (hg_job g)); reason = ''terminal_gate_job''
     in case terminalGateDecision status timedOut of
          Resolve_gate \<Rightarrow> (upd_gates P (\<lambda>h. h\<lparr>hg_state := ''resolved'', hg_resolved := Some now, hg_token := None, hg_error := None\<rparr>) d,
            note (count_retired reason s))
        | Supersede_gate \<Rightarrow> (upd_gates P (\<lambda>h. h\<lparr>hg_state := ''superseded'', hg_resolved := Some now, hg_token := None,
              hg_error := Some (if timedOut then ''Human gate timed out in headless mode'' else ''Human gate was canceled'')\<rparr>) d,
            note (count_retired reason s))
        | Reopen_job \<Rightarrow> (upd_gates P (\<lambda>h. h\<lparr>hg_state := ''open'', hg_action := None, hg_key := None, hg_token := None\<rparr>)
              (upd_gjob (hg_job g) wait_again d),
            note (count_reopened reason s)))"

definition sweep_inconsistent :: "int \<Rightarrow> gdb \<times> sweep \<Rightarrow> gdb \<times> sweep" where
  "sweep_inconsistent now st = (let d = fst st in fold (align_gate now)
     (map (\<lambda>g. (g, text_of (map_option gj_status (gjob_of d (hg_job g))), headless_timed_out d (hg_job g)))
       (filter (inconsistent d) (gd_gates d))) st)"

definition reconcileHumanGates :: "int \<Rightarrow> int \<Rightarrow> gdb \<Rightarrow> gdb \<times> sweep" where
  "reconcileHumanGates now grace d = (sweep_inconsistent now \<circ> sweep_abandoned now grace \<circ> sweep_failed now \<circ> sweep_orphans now \<circ>
     sweep_contracts \<circ> sweep_unregistered now \<circ> sweep_lost now \<circ> sweep_drift now \<circ> sweep_ended_wis now \<circ> sweep_closed now) (d, sweep_start)"

section \<open>Events\<close>

text \<open>
  The operations, and what the rest of the program does to the tables: a job is inserted, its state and lease
  change, or it is deleted, with its gate and effects; a work item is inserted or changes its state; events are logged. Every
  event carries the time and the grace cutoff.
\<close>

datatype gate_event =
    GRegister nat payload "nat option"
  | GPrompt nat
  | GRefresh nat payload
  | GRevise nat
  | GBegin begin_args
  | GComplete nat "string option" string
  | GReopen nat "string option" "string option"
  | GNote nat "string option"
  | GSupersede nat string
  | GHeadless nat string
  | GEnqueue nat string string "string option"
  | GEffectDone string "string option"
  | GReconcile
  | EJob gjob
  | EJobState nat string nat "string option" "int option"
  | EJobPayload nat payload
  | EJobGone nat
  | EWorkItem nat string string
  | EEvent nat string bool

definition delete_gjob :: "nat \<Rightarrow> gdb \<Rightarrow> gdb" where
  "delete_gjob i d = d\<lparr>gd_jobs := filter (\<lambda>j. gj_id j \<noteq> i) (gd_jobs d),
     gd_gates := map (\<lambda>g. if hg_original g = Some i then g\<lparr>hg_original := None\<rparr> else g) (filter (\<lambda>g. hg_job g \<noteq> i) (gd_gates d)),
     gd_outbox := filter (\<lambda>r. ob_gate r \<noteq> i) (gd_outbox d)\<rparr>"

fun gate_step :: "(string \<Rightarrow> string) \<Rightarrow> (payload \<Rightarrow> string) \<Rightarrow> int \<times> int \<times> gate_event \<Rightarrow> gdb \<Rightarrow> gdb" where
  "gate_step sha fp (now, grace, GRegister i p parent) d = fst (registerHumanGate i p parent now d)"
| "gate_step sha fp (now, grace, GPrompt i) d = fst (claimHumanGatePromptPresentation fp i now d)"
| "gate_step sha fp (now, grace, GRefresh i p) d = fst (refreshHumanGateContract i p d)"
| "gate_step sha fp (now, grace, GRevise i) d = fst (reviseOpenHumanGateGeneration i d)"
| "gate_step sha fp (now, grace, GBegin a) d = fst (beginHumanGateResolution sha a grace d)"
| "gate_step sha fp (now, grace, GComplete i token res) d = fst (completeHumanGateResolution i token res now grace d)"
| "gate_step sha fp (now, grace, GReopen i token err) d = fst (reopenHumanGateResolution i token err d)"
| "gate_step sha fp (now, grace, GNote i why) d = fst (noteHumanGateAnswerNotApplied i why d)"
| "gate_step sha fp (now, grace, GSupersede i why) d = fst (supersedeHumanGate i why now d)"
| "gate_step sha fp (now, grace, GHeadless i why) d = fst (claimHeadlessHumanGateTimeout i why now grace d)"
| "gate_step sha fp (now, grace, GEnqueue i key type payload) d = fst (enqueueHumanGateEffect i key type payload d)"
| "gate_step sha fp (now, grace, GEffectDone key payload) d = fst (completeHumanGateEffect key payload now d)"
| "gate_step sha fp (now, grace, GReconcile) d = fst (reconcileHumanGates now grace d)"
| "gate_step sha fp (now, grace, EJob j) d = (if gjob_of d (gj_id j) = None then d\<lparr>gd_jobs := gd_jobs d @ [j]\<rparr> else d)"
| "gate_step sha fp (now, grace, EJobState i status version token expires) d =
     upd_gjob i (\<lambda>j. j\<lparr>gj_status := status, gj_version := version, gj_token := token, gj_expires := expires\<rparr>) d"
| "gate_step sha fp (now, grace, EJobPayload i p) d = upd_gjob i (\<lambda>j. j\<lparr>gj_payload := p\<rparr>) d"
| "gate_step sha fp (now, grace, EJobGone i) d = delete_gjob i d"
| "gate_step sha fp (now, grace, EWorkItem i status merge) d =
     (if gwi_of d i = None then d\<lparr>gd_wis := gd_wis d @ [\<lparr>gw_id = i, gw_status = status, gw_merge = merge\<rparr>]\<rparr>
      else d\<lparr>gd_wis := map (\<lambda>w. if gw_id w = i then w\<lparr>gw_status := status, gw_merge := merge\<rparr> else w) (gd_wis d)\<rparr>)"
| "gate_step sha fp (now, grace, EEvent i type reopened) d = d\<lparr>gd_events := gd_events d @ [(i, type, reopened)]\<rparr>"

end
