(* ===== verification/HumanGateSafety.thy ===== *)
theory HumanGateSafety
  imports HumanGates Tables
begin

text \<open>
  What the human gates promise. The gates stay well formed through every sequence of events (an interpretation of
  \<open>step_system\<close>); a closed gate never changes again; an accepted answer excludes every other one. Theory
  \<open>HumanGateRecovery\<close> goes on with repeated answers and with what a sweep repairs.
\<close>

section \<open>Well-formed gates\<close>

text \<open>
  An open gate carries no answer and no resolver, a resolving one has an action and a key, and only a resolving gate has a
  resolver's lease token. Two gates clash when they are active for the same original job and kind, or share a key.
\<close>

definition gate_ok :: "hgate \<Rightarrow> bool" where
  "gate_ok g \<longleftrightarrow> hg_state g \<in> {''open'', ''resolving'', ''resolved'', ''superseded''} \<and>
     (if hg_state g = ''open'' then hg_action g = None \<and> hg_key g = None else True) \<and>
     (if hg_state g = ''resolving'' then hg_action g \<noteq> None \<and> hg_key g \<noteq> None else hg_token g = None) \<and> 1 \<le> hg_generation g"

definition clash :: "hgate \<Rightarrow> hgate \<Rightarrow> bool" where
  "clash g h \<longleftrightarrow> hg_active g \<and> hg_active h \<and> hg_original g \<noteq> None \<and> hg_original g = hg_original h \<and> hg_kind g = hg_kind h \<or>
     hg_key g \<noteq> None \<and> hg_key g = hg_key h"

definition gates_ok :: "gdb \<Rightarrow> bool" where
  "gates_ok d \<longleftrightarrow> distinct (map hg_job (gd_gates d)) \<and> list_all gate_ok (gd_gates d) \<and>
     list_all (\<lambda>g. list_all (\<lambda>h. clash g h \<longrightarrow> hg_job g = hg_job h) (gd_gates d)) (gd_gates d)"

lemma active_states: "hg_active g \<longleftrightarrow> hg_state g = ''open'' \<or> hg_state g = ''resolving''"
  by (simp add: hg_active_def ACTIVE_GATE_STATES_def)

lemma upd_gates_simps [simp]:
  "gd_gates (upd_gates P f d) = map (\<lambda>g. if P g then f g else g) (gd_gates d)"
  "gd_jobs (upd_gates P f d) = gd_jobs d" "gd_wis (upd_gates P f d) = gd_wis d" "gd_events (upd_gates P f d) = gd_events d"
  by (simp_all add: upd_gates_def)

lemma upd_gjob_simps [simp]:
  "gd_gates (upd_gjob i f d) = gd_gates d" "gd_jobs (upd_gjob i f d) = map (\<lambda>j. if gj_id j = i then f j else j) (gd_jobs d)"
  "gd_wis (upd_gjob i f d) = gd_wis d" "gd_events (upd_gjob i f d) = gd_events d"
  by (simp_all add: upd_gjob_def)

lemma upd_gates_jobs: "(\<And>g. hg_job (f g) = hg_job g) \<Longrightarrow> hg_job ` set (gd_gates (upd_gates P f d)) = hg_job ` set (gd_gates d)"
proof -
  assume f: "\<And>g. hg_job (f g) = hg_job g"
  have "hg_job (if P g then f g else g) = hg_job g" for g by (simp add: f)
  then show ?thesis by (simp only: upd_gates_simps set_map image_image)
qed

text \<open>What an operation keeps of a gate, and the updates that moreover never give it a key.\<close>

definition gate_keeps :: "hgate \<Rightarrow> hgate \<Rightarrow> bool" where
  "gate_keeps g g' \<longleftrightarrow> hg_job g' = hg_job g \<and> hg_original g' = hg_original g \<and> hg_kind g' = hg_kind g \<and>
     hg_generation g \<le> hg_generation g' \<and> (\<not> hg_active g \<longrightarrow> g' = g) \<and> (gate_ok g \<longrightarrow> gate_ok g')"

definition gate_loses :: "hgate \<Rightarrow> hgate \<Rightarrow> bool" where
  "gate_loses g g' \<longleftrightarrow> gate_keeps g g' \<and> hg_key g' \<in> {None, hg_key g}"

interpretation gate_rows: row_keeping gate_keeps
  by unfold_locales (auto simp: gate_keeps_def)

lemma gate_loses_refl [simp]: "gate_loses g g"
  by (simp add: gate_loses_def gate_rows.keeps_refl)

lemma keeps_active: "gate_keeps g g' \<Longrightarrow> hg_active g' \<Longrightarrow> hg_active g"
  by (auto simp: gate_keeps_def)

lemma keeps_closed: "gate_keeps g g' \<Longrightarrow> \<not> hg_active g \<Longrightarrow> g' = g"
  by (simp add: gate_keeps_def)

lemma clash_loses: "gate_loses g g' \<Longrightarrow> gate_loses h h' \<Longrightarrow> clash g' h' \<Longrightarrow> clash g h"
  using keeps_active by (auto simp: gate_loses_def gate_keeps_def clash_def)

definition gates_kept :: "gdb \<Rightarrow> gdb \<Rightarrow> bool" where
  "gates_kept d d' \<longleftrightarrow> rows_kept gate_keeps (gd_gates d) (gd_gates d') \<and> (gates_ok d \<longrightarrow> gates_ok d')"

lemma gates_kept_refl [simp]: "gates_kept d d"
  by (simp add: gates_kept_def gate_rows.kept_refl)

lemma gates_kept_trans: "gates_kept a b \<Longrightarrow> gates_kept b c \<Longrightarrow> gates_kept a c"
  using gate_rows.kept_trans by (auto simp: gates_kept_def)

lemma gates_kept_same: "gd_gates d' = gd_gates d \<Longrightarrow> gates_kept d d'"
  by (simp add: gates_kept_def gates_ok_def gate_rows.kept_refl)

lemma gates_kept_map:
  assumes "gd_gates d' = map f (gd_gates d)" and "\<And>g. g \<in> set (gd_gates d) \<Longrightarrow> gate_loses g (f g)"
  shows "gates_kept d d'"
proof -
  have k: "gate_keeps g (f g)" if "g \<in> set (gd_gates d)" for g using assms(2) that by (simp add: gate_loses_def)
  then have jobs: "map (hg_job \<circ> f) (gd_gates d) = map hg_job (gd_gates d)" by (simp add: gate_keeps_def)
  have "gates_ok d'" if ok: "gates_ok d"
    unfolding gates_ok_def assms(1) list_all_iff
  proof (intro conjI ballI impI)
    show "distinct (map hg_job (map f (gd_gates d)))" using ok unfolding gates_ok_def map_map jobs by blast
    fix g' assume g': "g' \<in> set (map f (gd_gates d))"
    then obtain g where g: "g \<in> set (gd_gates d)" "g' = f g" by auto
    show "gate_ok g'" using k [OF g(1)] ok g by (auto simp: gate_keeps_def gates_ok_def list_all_iff)
    fix h' assume "h' \<in> set (map f (gd_gates d))" and c: "clash g' h'"
    then obtain h where h: "h \<in> set (gd_gates d)" "h' = f h" by auto
    have "clash g h" using clash_loses [OF assms(2) [OF g(1)] assms(2) [OF h(1)]] c g(2) h(2) by simp
    then have "hg_job g = hg_job h" using ok g(1) h(1) by (auto simp: gates_ok_def list_all_iff)
    then show "hg_job g' = hg_job h'" using k [OF g(1)] k [OF h(1)] g(2) h(2) by (simp add: gate_keeps_def)
  qed
  then show ?thesis using rows_kept_map [of "gd_gates d" gate_keeps f] k by (simp add: gates_kept_def assms(1))
qed

lemma upd_gates_kept:
  assumes "\<And>g. P g \<Longrightarrow> gate_loses g (f g)"
  shows "gates_kept d (upd_gates P f d)"
  by (rule gates_kept_map [where f = "\<lambda>g. if P g then f g else g"]) (simp_all add: assms)

lemma loses_active:
  assumes "hg_active g" and "hg_job g' = hg_job g" "hg_original g' = hg_original g" "hg_kind g' = hg_kind g"
    and "hg_generation g \<le> hg_generation g'" "hg_key g' \<in> {None, hg_key g}" and "gate_ok g \<Longrightarrow> gate_ok g'"
  shows "gate_loses g g'"
  using assms by (simp add: gate_loses_def gate_keeps_def)

lemma supersede_loses: "hg_active g \<Longrightarrow> gate_loses g (supersede why now g)"
  by (rule loses_active) (auto simp: supersede_def gate_ok_def)

lemma supersede_by_loses: "hg_active g \<Longrightarrow> gate_loses g (supersede_by why now g)"
  by (rule loses_active) (auto simp: supersede_by_def gate_ok_def)

lemma reopen_loses: "hg_state g = ''resolving'' \<Longrightarrow> gate_loses g (reopen why g)"
  by (rule loses_active) (auto simp: reopen_def gate_ok_def active_states)

lemma resolve_loses: "hg_state g = ''resolving'' \<Longrightarrow> gate_loses g (resolve_gate res now g)"
  by (rule loses_active) (auto simp: resolve_gate_def gate_ok_def active_states)

lemma getHumanGateD: "getHumanGate i d = Some g \<Longrightarrow> g \<in> set (gd_gates d) \<and> hg_job g = i"
  by (auto simp: getHumanGate_def find_Some_iff)

lemma getHumanGate_None: "getHumanGate i d = None \<longleftrightarrow> i \<notin> hg_job ` set (gd_gates d)"
  by (auto simp: getHumanGate_def find_None_iff)

lemma gate_unique: "gates_ok d \<Longrightarrow> g \<in> set (gd_gates d) \<Longrightarrow> h \<in> set (gd_gates d) \<Longrightarrow> hg_job g = hg_job h \<Longrightarrow> g = h"
  by (auto simp: gates_ok_def distinct_map inj_on_def)

lemma getHumanGate_eq: "gates_ok d \<Longrightarrow> g \<in> set (gd_gates d) \<Longrightarrow> getHumanGate (hg_job g) d = Some g"
  using gate_unique getHumanGateD getHumanGate_None by (metis imageI option.exhaust)

lemma supersede_job [simp]: "hg_job (supersede why now g) = hg_job g"
  by (simp add: supersede_def)

section \<open>Every operation keeps the gates\<close>

lemma latest_gate_None: "latest_gate gs = None \<longleftrightarrow> gs = []"
proof
  assume none: "latest_gate gs = None"
  show "gs = []"
  proof (rule ccontr)
    assume "gs \<noteq> []"
    then have "Max (hg_generation ` set gs) \<in> hg_generation ` set gs" by simp
    then obtain g where g: "g \<in> set gs" "hg_generation g = Max (hg_generation ` set gs)" by auto
    then have "list_all (\<lambda>h. hg_generation h \<le> hg_generation g) gs" by (simp add: list_all_iff)
    then show False using none g(1) by (auto simp: latest_gate_def find_None_iff)
  qed
qed (simp add: latest_gate_def)

lemma append_gate_kept:
  assumes "getHumanGate (hg_job g) d = None" "gate_ok g" "hg_key g = None"
    and slot: "\<And>h. h \<in> set (gd_gates d) \<Longrightarrow> hg_active h \<Longrightarrow> hg_original g \<noteq> None \<Longrightarrow> hg_original h = hg_original g \<Longrightarrow> hg_kind h \<noteq> hg_kind g"
  shows "gates_kept d (d\<lparr>gd_gates := gd_gates d @ [g]\<rparr>)"
proof -
  have "\<not> clash g h" "\<not> clash h g" if "h \<in> set (gd_gates d)" for h
    using slot [OF that] assms(3) by (auto simp: clash_def)
  then have "gates_ok d \<Longrightarrow> gates_ok (d\<lparr>gd_gates := gd_gates d @ [g]\<rparr>)"
    using assms(1,2) by (auto simp: gates_ok_def list_all_iff getHumanGate_None)
  then show ?thesis using gate_rows.kept_append by (simp add: gates_kept_def)
qed

lemma retire_stale_kept: "gates_kept d (retire_stale slot now d)"
  by (auto simp: retire_stale_def supersede_loses intro: upd_gates_kept split: option.split)

lemma retire_stale_jobs: "hg_job ` set (gd_gates (retire_stale slot now d)) = hg_job ` set (gd_gates d)"
  using upd_gates_jobs [of "supersede STALE_GATE now"] supersede_job
  by (simp add: retire_stale_def del: upd_gates_simps split: option.split)

text \<open>What a registration can do, beside returning a gate there is: retire stale gates, and append an open one.\<close>

lemma register_cases:
  obtains (same) "fst (register_body i p parent now d) = d"
    and "\<And>g. snd (register_body i p parent now d) = Inr g \<Longrightarrow> getHumanGate i d = Some g"
  | (retired) slot where "fst (register_body i p parent now d) = retire_stale slot now d" and "getHumanGate i d = None"
    and "\<And>g. snd (register_body i p parent now d) = Inr g \<Longrightarrow> competing_gate slot (retire_stale slot now d) = Some g"
  | (added) slot c st g where "fst (register_body i p parent now d) =
        (retire_stale slot now d)\<lparr>gd_gates := gd_gates (retire_stale slot now d) @ [g]\<rparr>"
      and "g = new_gate i c (next_generation slot (retire_stale slot now d)) st" and "snd (register_body i p parent now d) = Inr g"
      and "getHumanGate i d = None" and "competing_gate slot (retire_stale slot now d) = None"
      and "slot = gate_slot d c (Option.bind (gjob_of d i) gj_wi)" and "gate_fits (retire_stale slot now d) g"
proof -
  consider "getHumanGate i d \<noteq> None" | e where "getHumanGate i d = None" "humanGateContractForPayload p parent = Inl e"
    | c where "getHumanGate i d = None" "humanGateContractForPayload p parent = Inr c" by (cases "humanGateContractForPayload p parent") auto
  then show thesis
  proof cases
    case 1
    then have "fst (register_body i p parent now d) = d" "\<And>g. snd (register_body i p parent now d) = Inr g \<Longrightarrow> getHumanGate i d = Some g"
      by (auto simp: register_body_def)
    then show thesis by (rule same)
  next
    case 2
    then have "fst (register_body i p parent now d) = d" "\<And>g. snd (register_body i p parent now d) = Inr g \<Longrightarrow> getHumanGate i d = Some g"
      by (auto simp: register_body_def)
    then show thesis by (rule same)
  next
    case (3 c)
    define slot where "slot = gate_slot d c (Option.bind (gjob_of d i) gj_wi)"
    define d1 where "d1 = retire_stale slot now d"
    define g where "g = new_gate i c (next_generation slot d1) (map_option gj_status (Option.bind (ct_original c) (gjob_of d1)))"
    have body: "register_body i p parent now d = (case competing_gate slot d1 of Some g \<Rightarrow> (d1, Inr g)
        | None \<Rightarrow> if gate_fits d1 g then (d1\<lparr>gd_gates := gd_gates d1 @ [g]\<rparr>, Inr g) else (d1, Inl ''FOREIGN KEY constraint failed''))"
      unfolding register_body_def 3 contracts_valid [OF 3(2)] option.case sum.case Let_def
      unfolding slot_def [symmetric] unfolding d1_def [symmetric] unfolding g_def [symmetric] by (rule refl)
    show thesis
    proof (cases "competing_gate slot d1")
      case (Some h)
      then have "register_body i p parent now d = (d1, Inr h)" by (simp add: body)
      then show thesis using retired [of slot] 3(1) Some unfolding d1_def by simp
    next
      case none: None
      show thesis
      proof (cases "gate_fits d1 g")
        case True
        then have b: "register_body i p parent now d = (d1\<lparr>gd_gates := gd_gates d1 @ [g]\<rparr>, Inr g)" by (simp add: body none)
        show thesis
          by (rule added [of slot g c, OF _ g_def [unfolded d1_def]])
            (use b 3(1) none True slot_def in \<open>simp_all add: d1_def\<close>)
      next
        case False
        then have "register_body i p parent now d = (d1, Inl ''FOREIGN KEY constraint failed'')" by (simp add: body none)
        then show thesis using retired [of slot] 3(1) unfolding d1_def by simp
      qed
    qed
  qed
qed

lemma next_generation_pos: "1 \<le> next_generation slot d"
  by (simp add: next_generation_def split: option.split)

lemma new_gate_simps [simp]:
  "hg_job (new_gate i c n st) = i" "hg_original (new_gate i c n st) = ct_original c" "hg_kind (new_gate i c n st) = ct_kind c"
  "hg_key (new_gate i c n st) = None" "hg_state (new_gate i c n st) = ''open''" "hg_generation (new_gate i c n st) = n"
  by (simp_all add: new_gate_def)

lemma register_kept: "gates_kept d (fst (register_body i p parent now d))"
proof (cases rule: register_cases [of i p parent now d])
  case same
  then show ?thesis by simp
next
  case (retired slot)
  then show ?thesis by (simp add: retire_stale_kept)
next
  case (added slot c st g)
  let ?d1 = "retire_stale slot now d"
  have "gates_kept ?d1 (?d1\<lparr>gd_gates := gd_gates ?d1 @ [g]\<rparr>)"
  proof (rule append_gate_kept)
    show "getHumanGate (hg_job g) ?d1 = None" using added(2,4) by (simp add: getHumanGate_None retire_stale_jobs)
    show "gate_ok g" using added(2) next_generation_pos by (simp add: new_gate_def gate_ok_def)
    show "hg_key g = None" using added(2) by simp
    fix h assume h: "h \<in> set (gd_gates ?d1)" "hg_active h" "hg_original g \<noteq> None" "hg_original h = hg_original g"
    then obtain k where k: "ct_original c = Some k" using added(2) by auto
    then have "filter (\<lambda>g. (hg_original g = Some k \<and> hg_kind g = ct_kind c) \<and> hg_active g) (gd_gates ?d1) = []"
      using added(5,6) by (simp add: gate_slot_def competing_gate_def latest_gate_None)
    then show "hg_kind h \<noteq> hg_kind g" using h k added(2) by (auto simp: filter_empty_conv)
  qed
  then show ?thesis using gates_kept_trans [OF retire_stale_kept] added(1) by simp
qed

lemma registerHumanGate_kept: "gates_kept d (fst (registerHumanGate i p parent now d))"
  using register_kept [of d i p parent now]
  by (cases "register_body i p parent now d"; cases "snd (register_body i p parent now d)") (simp_all add: registerHumanGate_def)

lemma more_generation_loses: "hg_active g \<Longrightarrow> gate_loses g (g\<lparr>hg_actions := xs, hg_generation := Suc (hg_generation g)\<rparr>)"
  by (rule loses_active) (simp_all add: gate_ok_def)

lemma revise_loses:
  "hg_state g = ''open'' \<Longrightarrow> gate_loses g (g\<lparr>hg_generation := Suc (max 1 (hg_generation g))\<rparr>)"
  by (rule loses_active) (simp_all add: gate_ok_def active_states)

lemma note_loses: "hg_state g = ''open'' \<Longrightarrow> gate_loses g (g\<lparr>hg_error := e\<rparr>)"
  by (rule loses_active) (simp_all add: gate_ok_def active_states)

lemma refresh_kept: "gates_kept d (fst (refreshHumanGateContract i p d))"
  by (auto simp: refreshHumanGateContract_def Let_def split: sum.split intro!: upd_gates_kept more_generation_loses)

lemma revise_kept: "gates_kept d (fst (reviseOpenHumanGateGeneration i d))"
proof -
  have "gates_kept d (upd_gates (\<lambda>h. hg_job h = i \<and> hg_state h = ''open'' \<and> hg_generation h = n) (\<lambda>h. h\<lparr>hg_generation := Suc (max 1 n)\<rparr>) d)" for n
    by (rule upd_gates_kept) (use revise_loses in auto)
  then show ?thesis by (simp add: reviseOpenHumanGateGeneration_def Let_def split: option.split)
qed

lemma complete_kept: "gates_kept d (fst (completeHumanGateResolution i token res now grace d))"
  by (auto simp: completeHumanGateResolution_def split: option.split intro!: upd_gates_kept resolve_loses)

lemma reopen_kept: "gates_kept d (fst (reopenHumanGateResolution i token err d))"
  by (auto simp: reopenHumanGateResolution_def Let_def intro!: upd_gates_kept reopen_loses)

lemma note_kept: "gates_kept d (fst (noteHumanGateAnswerNotApplied i why d))"
proof -
  have "gates_kept d (upd_gates (\<lambda>g. hg_job g = i \<and> hg_state g = ''open'') (\<lambda>g. g\<lparr>hg_error := e\<rparr>) d)" for e
    by (rule upd_gates_kept) (simp add: note_loses)
  moreover have "gates_kept x (upd_gjob i f x)" for x f by (rule gates_kept_same) simp
  ultimately show ?thesis using gates_kept_trans by (simp add: noteHumanGateAnswerNotApplied_def Let_def) blast
qed

lemma supersede_kept: "gates_kept d (fst (supersedeHumanGate i why now d))"
  by (auto simp: supersedeHumanGate_def Let_def intro!: upd_gates_kept supersede_by_loses)

lemma headless_kept: "gates_kept d (fst (claimHeadlessHumanGateTimeout i why now grace d))"
  by (auto simp: claimHeadlessHumanGateTimeout_def headless_claimable_def active_states intro!: upd_gates_kept supersede_by_loses)

text \<open>A claim is the only operation that gives a gate a key, which no other gate has.\<close>

lemma begin_cases:
  obtains (refused) "fst (beginHumanGateResolution sha a grace d) = d" and "\<And>x k. snd (beginHumanGateResolution sha a grace d) \<noteq> Begin_claimed x k"
  | (claimed) g action key d1 where "getHumanGate (ba_gate a) d = Some g" and "hg_state g = ''open''" and "action = resolvedAction (ba_action a)"
      and "action \<in> set (hg_actions g)" and "key = humanGateIdempotencyKey sha (ba_gate a) (hg_generation g) action (ba_key a)"
      and "begin_refusal a grace g d = None" and "d1 = (case hg_original g of None \<Rightarrow> d | Some i \<Rightarrow> upd_gjob i bump_version d)"
      and "\<And>h. h \<in> set (gd_gates d) \<Longrightarrow> hg_job h \<noteq> ba_gate a \<Longrightarrow> hg_key h \<noteq> Some key"
      and "beginHumanGateResolution sha a grace d = (upd_gates (\<lambda>h. hg_job h = ba_gate a \<and> hg_state h = ''open'' \<and>
          hg_generation h = hg_generation g) (claim_gate action key (ba_token a)) d1, Begin_claimed action key)"
proof (cases "getHumanGate (ba_gate a) d")
  case None
  then show thesis using refused by (simp add: beginHumanGateResolution_def)
next
  case (Some g)
  define action where "action = resolvedAction (ba_action a)"
  define key where "key = humanGateIdempotencyKey sha (ba_gate a) (hg_generation g) action (ba_key a)"
  define d1 where "d1 = (case hg_original g of None \<Rightarrow> d | Some i \<Rightarrow> upd_gjob i bump_version d)"
  have gates: "gd_gates d1 = gd_gates d" by (simp add: d1_def split: option.split)
  let ?dec = "beginResolutionDecision g (ba_action a) (\<lambda>act. humanGateIdempotencyKey sha (ba_gate a) (hg_generation g) act (ba_key a))"
  show thesis
  proof (cases ?dec)
    case (Inl r)
    then have "r \<noteq> Begin_claimed x k" for x k by (auto simp: beginResolutionDecision_def Let_def split: if_splits)
    then show thesis using refused Some Inl by (simp add: beginHumanGateResolution_def)
  next
    case (Inr r)
    then have r: "r = (action, key)" "action \<in> set (hg_actions g)" "hg_state g = ''open''"
      by (auto simp: beginResolutionDecision_def Let_def action_def key_def split: if_splits)
    show thesis
    proof (cases "begin_refusal a grace g d")
      case (Some reason)
      then show thesis using refused \<open>getHumanGate (ba_gate a) d = Some g\<close> Inr r(1) by (simp add: beginHumanGateResolution_def)
    next
      case None
      have eq: "beginHumanGateResolution sha a grace d =
          (if list_ex (\<lambda>h. hg_job h \<noteq> ba_gate a \<and> hg_key h = Some key) (gd_gates d) then (d, Begin_sql_error)
           else (upd_gates (\<lambda>h. hg_job h = ba_gate a \<and> hg_state h = ''open'' \<and> hg_generation h = hg_generation g)
             (claim_gate action key (ba_token a)) d1, Begin_claimed action key))"
        using Some None Inr r(1) unfolding beginHumanGateResolution_def by (simp add: Let_def gates d1_def [symmetric])
      show thesis
      proof (cases "list_ex (\<lambda>h. hg_job h \<noteq> ba_gate a \<and> hg_key h = Some key) (gd_gates d)")
        case True
        then show thesis using refused eq by simp
      next
        case False
        then show thesis
          by (intro claimed [OF Some r(3) action_def r(2) key_def None d1_def]) (use eq in \<open>auto simp: list_ex_iff\<close>)
      qed
    qed
  qed
qed

lemma claim_keeps: "hg_state g = ''open'' \<Longrightarrow> gate_keeps g (claim_gate action key token g)"
  by (auto simp: gate_keeps_def claim_gate_def active_states gate_ok_def)

lemma begin_kept: "gates_kept d (fst (beginHumanGateResolution sha a grace d))"
proof (cases rule: begin_cases [of sha a grace d])
  case refused
  then show ?thesis by simp
next
  case (claimed g action key d1)
  let ?P = "\<lambda>h. hg_job h = ba_gate a \<and> hg_state h = ''open'' \<and> hg_generation h = hg_generation g"
  let ?f = "\<lambda>h. if ?P h then claim_gate action key (ba_token a) h else h"
  have gates: "gd_gates (fst (beginHumanGateResolution sha a grace d)) = map ?f (gd_gates d)"
    unfolding claimed(9) by (simp add: claimed(7) split: option.split)
  have k: "gate_keeps h (?f h)" for h by (simp add: claim_keeps gate_rows.keeps_refl)
  have "gates_ok (fst (beginHumanGateResolution sha a grace d))" if ok: "gates_ok d"
    unfolding gates_ok_def gates list_all_iff
  proof (intro conjI ballI impI)
    have "map hg_job (map ?f (gd_gates d)) = map hg_job (gd_gates d)" by (simp add: claim_gate_def)
    then show "distinct (map hg_job (map ?f (gd_gates d)))" using ok by (simp only: gates_ok_def)
    fix g' assume g': "g' \<in> set (map ?f (gd_gates d))"
    then obtain x where x: "x \<in> set (gd_gates d)" "g' = ?f x" by auto
    show "gate_ok g'" using k [of x] ok x by (auto simp: gate_keeps_def gates_ok_def list_all_iff)
    fix h' assume "h' \<in> set (map ?f (gd_gates d))" and c: "clash g' h'"
    then obtain y where y: "y \<in> set (gd_gates d)" "h' = ?f y" by auto
    have job: "hg_job g' = hg_job x" "hg_job h' = hg_job y" using x(2) y(2) by (simp_all add: claim_gate_def)
    have "hg_job x = hg_job y"
    proof (cases "clash x y")
      case True
      then show ?thesis using ok x(1) y(1) by (auto simp: gates_ok_def list_all_iff)
    next
      case False
      have act: "hg_active g' \<Longrightarrow> hg_active x" "hg_active h' \<Longrightarrow> hg_active y" using keeps_active k x(2) y(2) by blast+
      have slot: "hg_original g' = hg_original x" "hg_kind g' = hg_kind x" "hg_original h' = hg_original y" "hg_kind h' = hg_kind y"
        using x(2) y(2) by (simp_all add: claim_gate_def)
      have same: "hg_key g' \<noteq> None" "hg_key g' = hg_key h'" using c False act slot by (auto simp: clash_def)
      have key: "hg_key (?f z) = (if ?P z then Some key else hg_key z)" for z by (simp add: claim_gate_def)
      show ?thesis
      proof (cases "?P x \<and> ?P y")
        case True
        then show ?thesis by simp
      next
        case other: False
        show ?thesis
        proof (cases "?P x \<or> ?P y")
          case True
          have "hg_key z = Some key \<Longrightarrow> hg_job z = ba_gate a" if "z \<in> set (gd_gates d)" for z using claimed(8) that by blast
          then show ?thesis using True other same key [of x] key [of y] x y by (auto split: if_splits)
        next
          case none: False
          then show ?thesis using same False key x(2) y(2) by (auto simp: clash_def)
        qed
      qed
    qed
    then show "hg_job g' = hg_job h'" using job by simp
  qed
  then show ?thesis
    using rows_kept_map [of "gd_gates d" gate_keeps ?f] k unfolding gates_kept_def gates by simp
qed

section \<open>The sweep keeps the gates\<close>

lemma stage_kept: "(\<And>x st. gates_kept (fst st) (fst (F x st))) \<Longrightarrow> gates_kept (fst st) (fst (fold F xs st))"
  by (rule fold_related [where R = "\<lambda>s t. gates_kept (fst s) (fst t)"]) (auto intro: gates_kept_trans)

lemma upd_gjob_kept [simp]: "gates_kept d (upd_gjob i f d)"
  by (rule gates_kept_same) simp

lemma supersede_gate_kept: "gates_kept d (supersede_gate i why now d)"
  unfolding supersede_gate_def by (rule upd_gates_kept) (simp add: supersede_loses)

lemma retire_fst:
  "fst (retireGateJob counted i reason now st) =
    supersede_gate i (take 500 (if reason = [] then ''Human gate is no longer answerable'' else reason)) now
      (upd_gjob i (end_job ''canceled'' (keep_error (take 500 (if reason = [] then ''Human gate is no longer answerable'' else reason))) now) (fst st))"
  by (cases st) (simp add: retireGateJob_def Let_def)

lemma retire_kept: "gates_kept (fst st) (fst (retireGateJob counted i reason now st))"
  unfolding retire_fst by (rule gates_kept_trans [OF upd_gjob_kept supersede_gate_kept])

lemma sweep_closed_kept: "gates_kept (fst st) (fst (sweep_closed now st))"
  unfolding sweep_closed_def
  by (rule stage_kept) (auto simp: close_contract_job_def Let_def split: prod.split option.split)

lemma sweep_ended_kept: "gates_kept (fst st) (fst (sweep_ended_wis now st))"
  unfolding sweep_ended_wis_def by (rule stage_kept, rule retire_kept)

lemma sweep_drift_kept: "gates_kept (fst st) (fst (sweep_drift now st))"
  unfolding sweep_drift_def by (rule stage_kept) (simp add: retire_kept split: prod.split)

lemma sweep_lost_kept: "gates_kept (fst st) (fst (sweep_lost now st))"
  unfolding sweep_lost_def by (rule stage_kept) (simp add: retire_kept split: prod.split)

lemma register_missing_kept: "gates_kept (fst st) (fst (register_missing now j st))"
proof -
  obtain d s where st: "st = (d, s)" by (cases st)
  obtain d1 r where b: "register_body (gj_id j) (gj_payload j) (gj_parent j) now d = (d1, r)" by (rule prod.exhaust)
  have k: "gates_kept d d1" using register_kept [of d "gj_id j" "gj_payload j" "gj_parent j" now] b by simp
  show ?thesis
  proof (cases r)
    case (Inl e)
    then show ?thesis
      using gates_kept_trans [OF k retire_kept [of "(d1, s)", simplified]] by (simp add: st register_missing_def b)
  next
    case (Inr g)
    then show ?thesis using k gates_kept_trans [OF k upd_gjob_kept] by (simp add: st register_missing_def b)
  qed
qed

lemma sweep_unregistered_kept: "gates_kept (fst st) (fst (sweep_unregistered now st))"
  unfolding sweep_unregistered_def by (rule stage_kept, rule register_missing_kept)

lemma refresh_drifted_fst:
  obtains (same) "fst (refresh_drifted g st) = fst st"
  | (refreshed) acts where "fst (refresh_drifted g st) = upd_gates (\<lambda>h. hg_job h = hg_job g \<and> hg_state h = ''open'' \<and>
      hg_generation h = hg_generation g) (\<lambda>h. h\<lparr>hg_actions := acts, hg_generation := Suc (hg_generation h)\<rparr>) (fst st)"
  | (payload) acts p where "fst (refresh_drifted g st) = upd_gjob (hg_job g) (\<lambda>j. j\<lparr>gj_payload := p\<rparr>)
      (upd_gates (\<lambda>h. hg_job h = hg_job g \<and> hg_state h = ''open'' \<and>
        hg_generation h = hg_generation g) (\<lambda>h. h\<lparr>hg_actions := acts, hg_generation := Suc (hg_generation h)\<rparr>) (fst st))"
proof -
  obtain d s where st: "st = (d, s)" by (cases st)
  show thesis
  proof (cases "gjob_of d (hg_job g)")
    case (Some j)
    show thesis
    proof (cases "humanGateContractForPayload (gj_payload j) (gj_parent j)")
      case (Inr c)
      note eqs = st refresh_drifted_def Some Inr
      let ?P = "\<lambda>h. hg_job h = hg_job g \<and> hg_state h = ''open'' \<and> hg_generation h = hg_generation g"
      show thesis
      proof (cases "hg_actions g = js_unique (ct_actions c) \<or> \<not> some_gate ?P d")
        case True
        show thesis by (rule same) (use True in \<open>simp add: eqs\<close>)
      next
        case False
        show thesis
        proof (cases "pl_choices (gj_payload j) \<noteq> None \<and> js_unique (ct_actions c) \<noteq> [''respond'']")
          case True
          show thesis
            by (rule payload [of "(gj_payload j)\<lparr>pl_choices := Some (js_unique (ct_actions c))\<rparr>" "js_unique (ct_actions c)"])
              (use True False in \<open>simp add: eqs Let_def\<close>)
        next
          case other: False
          show thesis by (rule refreshed [of "js_unique (ct_actions c)"]) (use other False in \<open>auto simp: eqs Let_def\<close>)
        qed
      qed
    qed (use same Some in \<open>simp add: st refresh_drifted_def\<close>)
  qed (use same in \<open>simp add: st refresh_drifted_def\<close>)
qed

lemma refresh_drifted_kept: "gates_kept (fst st) (fst (refresh_drifted g st))"
proof -
  have k: "gates_kept d (upd_gates (\<lambda>h. hg_job h = hg_job g \<and> hg_state h = ''open'' \<and> hg_generation h = hg_generation g)
      (\<lambda>h. h\<lparr>hg_actions := acts, hg_generation := Suc (hg_generation h)\<rparr>) d)" for d acts
    by (rule upd_gates_kept) (metis more_generation_loses active_states)
  show ?thesis
    by (cases rule: refresh_drifted_fst [of g st]) (simp_all add: k gates_kept_trans [OF k upd_gjob_kept])
qed

lemma sweep_contracts_kept: "gates_kept (fst st) (fst (sweep_contracts st))"
  unfolding sweep_contracts_def by (rule stage_kept, rule refresh_drifted_kept)

lemma retire_row_kept: "gates_kept (fst st) (fst (retire_row counted status why1 why2 now g st))"
  using gates_kept_trans [OF upd_gjob_kept supersede_gate_kept] by (simp add: retire_row_def split: prod.split)

lemma sweep_orphans_kept: "gates_kept (fst st) (fst (sweep_orphans now st))"
  unfolding sweep_orphans_def by (rule stage_kept, rule retire_row_kept)

lemma sweep_failed_kept: "gates_kept (fst st) (fst (sweep_failed now st))"
  unfolding sweep_failed_def by (rule stage_kept, rule retire_row_kept)

lemma recover_abandoned_fst:
  obtains (retired) counted reason where "fst (recover_abandoned now g st) = fst (retireGateJob counted (hg_job g) reason now st)"
  | (reopened) "fst (recover_abandoned now g st) = upd_gates (\<lambda>h. hg_job h = hg_job g \<and> hg_state h = ''resolving'')
      (reopen (Some ''Resolver disappeared mid-resolution; gate reopened'')) (fst st)"
proof -
  obtain d s where st: "st = (d, s)" by (cases st)
  let ?e = "abandonedResolverDecision (gate_reference d g) (map_option gj_status (Option.bind (gate_reference d g) (gjob_of d))) (hg_sources g)"
  show thesis
    by (cases ?e) (use retired reopened in \<open>simp_all add: st recover_abandoned_def Let_def\<close>)
qed

lemma recover_abandoned_kept: "gates_kept (fst st) (fst (recover_abandoned now g st))"
proof (cases rule: recover_abandoned_fst [of now g st])
  case (retired counted reason)
  then show ?thesis by (simp add: retire_kept)
next
  case reopened
  show ?thesis unfolding reopened by (rule upd_gates_kept) (simp add: reopen_loses)
qed

lemma sweep_abandoned_kept: "gates_kept (fst st) (fst (sweep_abandoned now grace st))"
  unfolding sweep_abandoned_def by (rule stage_kept, rule recover_abandoned_kept)

text \<open>The last stage updates the rows it selected by their job alone: they are still active when it comes to them.\<close>

definition aligned :: "int \<Rightarrow> string \<Rightarrow> bool \<Rightarrow> hgate \<Rightarrow> hgate" where
  "aligned now status timedOut h = (case terminalGateDecision status timedOut of
       Resolve_gate \<Rightarrow> h\<lparr>hg_state := ''resolved'', hg_resolved := Some now, hg_token := None, hg_error := None\<rparr>
     | Supersede_gate \<Rightarrow> h\<lparr>hg_state := ''superseded'', hg_resolved := Some now, hg_token := None,
         hg_error := Some (if timedOut then ''Human gate timed out in headless mode'' else ''Human gate was canceled'')\<rparr>
     | Reopen_job \<Rightarrow> h\<lparr>hg_state := ''open'', hg_action := None, hg_key := None, hg_token := None\<rparr>)"

lemma aligned_loses: "hg_active h \<Longrightarrow> gate_loses h (aligned now status timedOut h)"
  by (rule loses_active) (auto simp: aligned_def gate_ok_def split: terminal_decision.split)

lemma align_gate_fst:
  "fst (align_gate now (g, status, timedOut) st) = upd_gates (\<lambda>h. hg_job h = hg_job g) (aligned now status timedOut)
     (if terminalGateDecision status timedOut = Reopen_job then upd_gjob (hg_job g) wait_again (fst st) else fst st)"
  by (cases st; cases "terminalGateDecision status timedOut") (simp_all add: align_gate_def aligned_def [abs_def] Let_def)

lemma align_fold_kept:
  assumes "distinct (map (hg_job \<circ> fst) rows)" and "\<forall>r \<in> set rows. \<forall>h \<in> set (gd_gates (fst st)). hg_job h = hg_job (fst r) \<longrightarrow> hg_active h"
  shows "gates_kept (fst st) (fst (fold (align_gate now) rows st))"
  using assms
proof (induction rows arbitrary: st)
  case (Cons r rows)
  obtain g status timedOut where r: "r = (g, status, timedOut)" by (cases r)
  let ?st = "align_gate now r st"
  have gates: "gd_gates (fst ?st) = map (\<lambda>h. if hg_job h = hg_job g then aligned now status timedOut h else h) (gd_gates (fst st))"
    by (simp add: r align_gate_fst)
  have loses: "gate_loses h (if hg_job h = hg_job g then aligned now status timedOut h else h)" if "h \<in> set (gd_gates (fst st))" for h
    using Cons.prems(2) that r by (auto intro: aligned_loses)
  have 1: "gates_kept (fst st) (fst ?st)" by (rule gates_kept_map [OF gates loses])
  have job: "hg_job (aligned now status timedOut h) = hg_job h" for h by (simp add: aligned_def split: terminal_decision.split)
  have "\<forall>x \<in> set rows. \<forall>h \<in> set (gd_gates (fst ?st)). hg_job h = hg_job (fst x) \<longrightarrow> hg_active h"
  proof (intro ballI impI)
    fix x h assume x: "x \<in> set rows" and h: "h \<in> set (gd_gates (fst ?st))" "hg_job h = hg_job (fst x)"
    obtain h0 where h0: "h0 \<in> set (gd_gates (fst st))" "h = (if hg_job h0 = hg_job g then aligned now status timedOut h0 else h0)"
      using h(1) unfolding gates by auto
    have "hg_job (fst x) \<noteq> hg_job g" using Cons.prems(1) x r by (auto simp: image_iff)
    then have "h = h0" using h0(2) h(2) job by (auto split: if_splits)
    then show "hg_active h" using Cons.prems(2) x h0(1) h(2) by auto
  qed
  then have "gates_kept (fst ?st) (fst (fold (align_gate now) rows ?st))" using Cons.IH Cons.prems(1) by simp
  then show ?case using gates_kept_trans [OF 1] by simp
qed simp

lemma sweep_inconsistent_kept:
  assumes "gates_ok (fst st)"
  shows "gates_kept (fst st) (fst (sweep_inconsistent now st))"
  unfolding sweep_inconsistent_def Let_def
proof (rule align_fold_kept)
  let ?rows = "map (\<lambda>g. (g, text_of (map_option gj_status (gjob_of (fst st) (hg_job g))), headless_timed_out (fst st) (hg_job g)))
       (filter (inconsistent (fst st)) (gd_gates (fst st)))"
  have eq: "map (hg_job \<circ> fst) ?rows = map hg_job (filter (inconsistent (fst st)) (gd_gates (fst st)))" by simp
  show "distinct (map (hg_job \<circ> fst) ?rows)"
    unfolding eq using assms by (simp add: gates_ok_def distinct_map_filter)
  show "\<forall>r \<in> set ?rows. \<forall>h \<in> set (gd_gates (fst st)). hg_job h = hg_job (fst r) \<longrightarrow> hg_active h"
    using gate_unique [OF assms] by (auto simp: inconsistent_def)
qed

text \<open>The nine stages before the last one.\<close>

definition first_stages :: "int \<Rightarrow> int \<Rightarrow> gdb \<Rightarrow> gdb \<times> sweep" where
  "first_stages now grace d = (sweep_abandoned now grace \<circ> sweep_failed now \<circ> sweep_orphans now \<circ> sweep_contracts \<circ> sweep_unregistered now \<circ>
      sweep_lost now \<circ> sweep_drift now \<circ> sweep_ended_wis now \<circ> sweep_closed now) (d, sweep_start)"

lemma reconcile_stages: "reconcileHumanGates now grace d = sweep_inconsistent now (first_stages now grace d)"
  by (simp add: reconcileHumanGates_def first_stages_def)

lemma first_stages_kept: "gates_kept d (fst (first_stages now grace d))"
  unfolding first_stages_def comp_apply
  by (intro gates_kept_trans [OF _ sweep_abandoned_kept] gates_kept_trans [OF _ sweep_failed_kept] gates_kept_trans [OF _ sweep_orphans_kept]
      gates_kept_trans [OF _ sweep_contracts_kept] gates_kept_trans [OF _ sweep_unregistered_kept] gates_kept_trans [OF _ sweep_lost_kept]
      gates_kept_trans [OF _ sweep_drift_kept] gates_kept_trans [OF _ sweep_ended_kept])
    (use sweep_closed_kept [of "(d, sweep_start)" now] in simp)

lemma reconcile_kept:
  assumes "gates_ok d"
  shows "gates_kept d (fst (reconcileHumanGates now grace d))"
proof -
  have "gates_ok (fst (first_stages now grace d))" using first_stages_kept assms by (simp add: gates_kept_def)
  then show ?thesis unfolding reconcile_stages by (rule gates_kept_trans [OF first_stages_kept sweep_inconsistent_kept])
qed

section \<open>Runs\<close>

lemma delete_ok:
  assumes "gates_ok d"
  shows "gates_ok (delete_gjob i d)"
proof -
  let ?f = "\<lambda>g. if hg_original g = Some i then g\<lparr>hg_original := None\<rparr> else g"
  let ?gs = "filter (\<lambda>g. hg_job g \<noteq> i) (gd_gates d)"
  have job: "hg_job (?f g) = hg_job g" for g by simp
  have gates: "gd_gates (delete_gjob i d) = map ?f ?gs" by (simp add: delete_gjob_def)
  have c: "clash (?f g) (?f h) \<Longrightarrow> clash g h" for g h by (cases "hg_key h") (auto simp: clash_def hg_active_def split: if_splits)
  have ok: "gate_ok g \<Longrightarrow> gate_ok (?f g)" for g by (cases "hg_original g = Some i") (auto simp: gate_ok_def)
  show ?thesis
    unfolding gates_ok_def gates list_all_iff
  proof (intro conjI ballI impI)
    have "map hg_job (map ?f ?gs) = map hg_job ?gs" by simp
    then show "distinct (map hg_job (map ?f ?gs))" using assms by (simp only: gates_ok_def distinct_map_filter)
    fix g' assume "g' \<in> set (map ?f ?gs)"
    then obtain g where g: "g \<in> set (gd_gates d)" "g' = ?f g" by auto
    show "gate_ok g'" using assms ok g by (auto simp: gates_ok_def list_all_iff)
    fix h' assume "h' \<in> set (map ?f ?gs)" "clash g' h'"
    moreover from this obtain h where h: "h \<in> set (gd_gates d)" "h' = ?f h" by auto
    ultimately have "clash g h" using c g(2) by blast
    then have "hg_job g = hg_job h" using assms g(1) h(1) by (auto simp: gates_ok_def list_all_iff)
    then show "hg_job g' = hg_job h'" unfolding g(2) h(2) job .
  qed
qed

lemma prompt_kept: "gates_kept d (fst (claimHumanGatePromptPresentation fp i now d))"
  by (simp add: claimHumanGatePromptPresentation_def Let_def split: option.split)

lemma step_kept:
  assumes "gates_ok d" and "\<And>i. ev \<noteq> EJobGone i"
  shows "gates_kept d (gate_step sha fp (now, grace, ev) d)"
proof (cases ev)
  case (EJobGone i)
  then show ?thesis using assms(2) by blast
next
  case GReconcile
  then show ?thesis by (simp add: reconcile_kept assms(1))
next
  case (GEnqueue i key ty payload)
  then show ?thesis by (auto simp: enqueueHumanGateEffect_def Let_def intro: gates_kept_same split: option.split)
next
  case (GEffectDone key payload)
  then show ?thesis by (auto simp: completeHumanGateEffect_def intro: gates_kept_same)
qed (auto simp: registerHumanGate_kept prompt_kept refresh_kept revise_kept begin_kept complete_kept reopen_kept note_kept
  supersede_kept headless_kept intro: gates_kept_same)

lemma step_ok: "gates_ok d \<Longrightarrow> gates_ok (gate_step sha fp e d)"
proof -
  assume ok: "gates_ok d"
  obtain now grace ev where e: "e = (now, grace, ev)" by (cases e) auto
  show ?thesis
  proof (cases "\<exists>i. ev = EJobGone i")
    case True
    then show ?thesis using delete_ok [OF ok] by (auto simp: e)
  next
    case False
    then show ?thesis using step_kept [OF ok, of ev sha fp now grace] ok by (auto simp: e gates_kept_def)
  qed
qed

interpretation human_gates: step_system "gate_step sha fp" gates_ok for sha fp
  by unfold_locales (rule step_ok)

text \<open>
  C21: Gates stay well formed. Through every sequence of operations, sweeps and changes of the jobs and work items
  around them, no job has two gates, an open gate carries no answer and no key, a resolving one has both, only a
  resolving gate holds a resolver's token, no two active gates ask the same kind of question about the same job, and no two
  gates share a key.
\<close>

theorem gates_stay_well_formed:
  assumes "gates_ok d"
  shows "gates_ok (fold (gate_step sha fp) es d)"
  by (rule human_gates.run_inv [OF assms])

text \<open>A closed gate, up to the original job that may be deleted.\<close>

definition same_gate :: "hgate \<Rightarrow> hgate \<Rightarrow> bool" where
  "same_gate g h \<longleftrightarrow> h = g \<or> h = g\<lparr>hg_original := None\<rparr>"

lemma same_gate_active: "same_gate g h \<Longrightarrow> hg_active h = hg_active g" and same_gate_job: "same_gate g h \<Longrightarrow> hg_job h = hg_job g"
  by (auto simp: same_gate_def hg_active_def)

lemma closed_step:
  assumes ok: "gates_ok d" and h: "h \<in> set (gd_gates d)" "same_gate g h" and closed: "\<not> hg_active g"
    and ev: "ev \<noteq> EJobGone (hg_job g)"
  shows "\<exists>h \<in> set (gd_gates (gate_step sha fp (now, grace, ev) d)). same_gate g h"
proof (cases "\<exists>i. ev = EJobGone i")
  case True
  then obtain i where i: "ev = EJobGone i" "i \<noteq> hg_job g" using ev by blast
  let ?f = "\<lambda>g. if hg_original g = Some i then g\<lparr>hg_original := None\<rparr> else g"
  have "h \<in> set (filter (\<lambda>g. hg_job g \<noteq> i) (gd_gates d))" using h(1) i(2) same_gate_job [OF h(2)] by simp
  then have "?f h \<in> set (gd_gates (delete_gjob i d))" unfolding delete_gjob_def by simp
  moreover have "same_gate g (?f h)"
  proof (cases "h = g")
    case True
    then show ?thesis by (simp add: same_gate_def)
  next
    case False
    then have "h = g\<lparr>hg_original := None\<rparr>" using h(2) by (simp add: same_gate_def)
    then show ?thesis by (simp add: same_gate_def)
  qed
  ultimately show ?thesis unfolding i(1) gate_step.simps by (rule rev_bexI)
next
  case False
  let ?d = "gate_step sha fp (now, grace, ev) d"
  have "gates_kept d ?d" by (rule step_kept [OF ok]) (use False in blast)
  then have "rows_kept gate_keeps (gd_gates d) (gd_gates ?d)" by (simp only: gates_kept_def)
  from rows_kept_row [OF this h(1)] obtain h' where h': "h' \<in> set (gd_gates ?d)" "gate_keeps h h'" by (rule bexE)
  have "\<not> hg_active h" using closed same_gate_active [OF h(2)] by simp
  then have "h' = h" by (rule keeps_closed [OF h'(2)])
  then show ?thesis using h(2) h'(1) by (intro bexI [of _ h]) simp_all
qed

lemma closed_run:
  assumes "gates_ok d" and "h \<in> set (gd_gates d)" "same_gate g h" and closed: "\<not> hg_active g"
    and "list_all (\<lambda>(now, grace, ev). ev \<noteq> EJobGone (hg_job g)) es"
  shows "\<exists>h \<in> set (gd_gates (fold (gate_step sha fp) es d)). same_gate g h"
  using assms
proof (induction es arbitrary: d h)
  case (Cons e es)
  obtain now grace ev where e: "e = (now, grace, ev)" by (cases e) auto
  have ev: "ev \<noteq> EJobGone (hg_job g)" using Cons.prems(5) by (simp add: e)
  obtain h' where "h' \<in> set (gd_gates (gate_step sha fp e d))" "same_gate g h'"
    using closed_step [OF Cons.prems(1-3) closed ev, of sha fp now grace] unfolding e by blast
  then show ?case using Cons.IH [OF step_ok [OF Cons.prems(1)]] Cons.prems(4,5) by simp
qed auto


section \<open>One answer at a time\<close>

definition gate_taken :: "nat \<Rightarrow> gdb \<Rightarrow> bool" where
  "gate_taken i d \<longleftrightarrow> list_ex (\<lambda>g. hg_job g = i \<and> hg_state g \<noteq> ''open'') (gd_gates d)"

lemma taken_same: "gd_gates d' = gd_gates d \<Longrightarrow> gate_taken i d' = gate_taken i d"
  by (simp add: gate_taken_def)

lemma taken_upd:
  assumes "gate_taken i d" and "\<And>g. P g \<Longrightarrow> hg_job g = i \<Longrightarrow> hg_state g \<noteq> ''open'' \<Longrightarrow> hg_job (f g) = i \<and> hg_state (f g) \<noteq> ''open''"
  shows "gate_taken i (upd_gates P f d)"
proof -
  obtain g where g: "g \<in> set (gd_gates d)" "hg_job g = i" "hg_state g \<noteq> ''open''"
    using assms(1) by (auto simp: gate_taken_def list_ex_iff)
  let ?g = "if P g then f g else g"
  have "?g \<in> set (gd_gates (upd_gates P f d))" using g(1) by simp
  moreover have "hg_job ?g = i \<and> hg_state ?g \<noteq> ''open''" using assms(2) g by simp
  ultimately show ?thesis unfolding gate_taken_def list_ex_iff by (rule rev_bexI)
qed

lemma taken_register: "gate_taken i d \<Longrightarrow> gate_taken i (fst (registerHumanGate j p parent now d))"
proof -
  assume t: "gate_taken i d"
  have stale: "gate_taken i (retire_stale slot now d)" for slot
    using t by (auto simp: retire_stale_def supersede_def intro: taken_upd split: option.split)
  have "gate_taken i (fst (register_body j p parent now d))"
    by (cases rule: register_cases [of j p parent now d]) (use t stale in \<open>auto simp: gate_taken_def\<close>)
  then show ?thesis
    using t by (cases "register_body j p parent now d"; cases "snd (register_body j p parent now d)") (simp_all add: registerHumanGate_def)
qed

lemma taken_begin: "gate_taken i d \<Longrightarrow> gate_taken i (fst (beginHumanGateResolution sha a grace d))"
proof (cases rule: begin_cases [of sha a grace d])
  case (claimed g action key d1)
  assume "gate_taken i d"
  then have "gate_taken i d1" using taken_same [of d1 d i] by (simp add: claimed(7) split: option.splits)
  then show ?thesis unfolding claimed(9) by (auto intro!: taken_upd)
qed simp

text \<open>What frees a gate again: its worker reopens it, the sweep finds its worker gone, or its job is deleted.\<close>

definition frees :: "nat \<Rightarrow> gate_event \<Rightarrow> bool" where
  "frees i ev \<longleftrightarrow> (case ev of GReopen j _ _ \<Rightarrow> j = i | GReconcile \<Rightarrow> True | EJobGone j \<Rightarrow> j = i | _ \<Rightarrow> False)"

lemma taken_step:
  assumes "gate_taken i d" and "\<not> frees i ev"
  shows "gate_taken i (gate_step sha fp (now, grace, ev) d)"
proof (cases ev)
  case (GRegister j p parent)
  then show ?thesis by (simp add: taken_register assms(1))
next
  case (GBegin a)
  then show ?thesis by (simp add: taken_begin assms(1))
next
  case (GPrompt j)
  then show ?thesis using assms(1) by (simp add: claimHumanGatePromptPresentation_def Let_def gate_taken_def split: option.split)
next
  case (GRefresh j p)
  then show ?thesis using assms(1) by (auto simp: refreshHumanGateContract_def Let_def intro!: taken_upd split: sum.split)
next
  case (GRevise j)
  then show ?thesis using assms(1) by (auto simp: reviseOpenHumanGateGeneration_def Let_def intro!: taken_upd split: option.split)
next
  case (GComplete j token res)
  then show ?thesis using assms(1) by (auto simp: completeHumanGateResolution_def resolve_gate_def intro!: taken_upd split: option.split)
next
  case (GReopen j token err)
  then show ?thesis using assms by (auto simp: reopenHumanGateResolution_def frees_def Let_def intro!: taken_upd)
next
  case (GNote j why)
  have "gate_taken i (upd_gates (\<lambda>g. hg_job g = j \<and> hg_state g = ''open'') (\<lambda>g. g\<lparr>hg_error := e\<rparr>) d)" for e
    by (rule taken_upd [OF assms(1)]) simp
  then show ?thesis using GNote by (simp add: noteHumanGateAnswerNotApplied_def Let_def gate_taken_def)
next
  case (GSupersede j why)
  then show ?thesis using assms(1) by (auto simp: supersedeHumanGate_def supersede_by_def Let_def intro!: taken_upd)
next
  case (GHeadless j why)
  then show ?thesis using assms(1) by (auto simp: claimHeadlessHumanGateTimeout_def supersede_by_def intro!: taken_upd)
next
  case (GEnqueue j key ty payload)
  then show ?thesis using assms(1) by (auto simp: enqueueHumanGateEffect_def gate_taken_def Let_def split: option.split)
next
  case (EJobGone j)
  have "gate_taken i (delete_gjob j d)" if "j \<noteq> i"
  proof -
    obtain g where "g \<in> set (gd_gates d)" "hg_job g = i" "hg_state g \<noteq> ''open''"
      using assms(1) by (auto simp: gate_taken_def list_ex_iff)
    then have g: "g \<in> set (filter (\<lambda>g. hg_job g \<noteq> j) (gd_gates d))" "hg_job g = i" "hg_state g \<noteq> ''open''"
      using that by simp_all
    let ?g = "if hg_original g = Some j then g\<lparr>hg_original := None\<rparr> else g"
    have "?g \<in> set (gd_gates (delete_gjob j d))" using g(1) unfolding delete_gjob_def by simp
    moreover have "hg_job ?g = i \<and> hg_state ?g \<noteq> ''open''" using g(2,3) by simp
    ultimately show ?thesis unfolding gate_taken_def list_ex_iff by (rule rev_bexI)
  qed
  then show ?thesis using EJobGone assms(2) by (simp add: frees_def)
qed (use assms in \<open>simp_all add: frees_def completeHumanGateEffect_def gate_taken_def\<close>)

lemma taken_run: "gate_taken i d \<Longrightarrow> list_all (\<lambda>(now, grace, ev). \<not> frees i ev) es \<Longrightarrow> gate_taken i (fold (gate_step sha fp) es d)"
  by (induction es arbitrary: d) (auto simp: taken_step)

lemma begin_takes:
  assumes b: "beginHumanGateResolution sha a grace d = (d1, Begin_claimed action key)"
  shows "gate_taken (ba_gate a) d1"
proof (cases rule: begin_cases [of sha a grace d])
  case refused
  then show ?thesis using b refused(2) [of action key] by simp
next
  case (claimed g action' key' d2)
  have g: "g \<in> set (gd_gates d)" "hg_job g = ba_gate a" using getHumanGateD [OF claimed(1)] by simp_all
  have gates: "gd_gates d2 = gd_gates d" by (simp add: claimed(7) split: option.split)
  have "claim_gate action key (ba_token a) g \<in> set (gd_gates d1)"
    using b g claimed(2) unfolding claimed(9) by (auto simp: gates image_iff)
  moreover have "hg_job (claim_gate action key (ba_token a) g) = ba_gate a \<and> hg_state (claim_gate action key (ba_token a) g) \<noteq> ''open''"
    using g(2) by (simp add: claim_gate_def)
  ultimately show ?thesis unfolding gate_taken_def list_ex_iff by (rule rev_bexI)
qed

lemma begin_taken:
  assumes "gates_ok d" "gate_taken (ba_gate b) d"
  shows "snd (beginHumanGateResolution sha b grace d) \<noteq> Begin_claimed x k"
proof (cases rule: begin_cases [of sha b grace d])
  case refused
  then show ?thesis by simp
next
  case (claimed g action key d1)
  obtain h where "h \<in> set (gd_gates d)" "hg_job h = ba_gate b" "hg_state h \<noteq> ''open''"
    using assms(2) by (auto simp: gate_taken_def list_ex_iff)
  then show ?thesis using getHumanGate_eq [OF assms(1)] claimed(1,2) by fastforce
qed


section \<open>An example\<close>

text \<open>A question about job 4, asked by job 7 whose worker has a lease.\<close>

definition ex_job :: "nat \<Rightarrow> bool \<Rightarrow> string option \<Rightarrow> int option \<Rightarrow> gjob" where
  "ex_job i human token expires = \<lparr>gj_id = i, gj_wi = Some 1, gj_human = human, gj_status = ''waiting_on_human'', gj_version = 1,
     gj_token = token, gj_expires = expires, gj_parent = None, gj_payload = ex_payload, gj_finished = None, gj_error = None,
     gj_db_released = False\<rparr>"

definition ex_asked :: gdb where
  "ex_asked = \<lparr>gd_jobs = [ex_job 4 False None None, ex_job 7 True (Some ''w'') (Some 1000)],
     gd_wis = [\<lparr>gw_id = 1, gw_status = ''running'', gw_merge = ''none''\<rparr>], gd_gates = [], gd_outbox = [], gd_events = []\<rparr>"

definition ex_gates :: gdb where
  "ex_gates = fst (registerHumanGate 7 ex_payload None 100 ex_asked)"

definition ex_begin :: "string \<Rightarrow> begin_args" where
  "ex_begin key = \<lparr>ba_gate = 7, ba_token = Some ''w'', ba_action = Some ''retry'', ba_key = Some key, ba_require = True\<rparr>"

abbreviation ex_step :: "int \<times> int \<times> gate_event \<Rightarrow> gdb \<Rightarrow> gdb" where
  "ex_step \<equiv> gate_step (\<lambda>s. s) (\<lambda>p. ''p'')"

definition ex_claimed :: gdb where
  "ex_claimed = fst (beginHumanGateResolution (\<lambda>s. s) (ex_begin ''k1'') 500 ex_gates)"

definition ex_resolved :: gdb where
  "ex_resolved = fst (completeHumanGateResolution 7 (Some ''w'') ''requeued'' 600 550 ex_claimed)"

definition ex_while :: "(int \<times> int \<times> gate_event) list" where
  "ex_while = [(510, 400, GRefresh 7 ex_payload), (520, 410, GSupersede 8 ''other''), (530, 420, EEvent 7 ''job.note'' False)]"

definition ex_later :: "(int \<times> int \<times> gate_event) list" where
  "ex_later = [(700, 600, GSupersede 7 ''late''), (710, 600, GReopen 7 None None), (720, 600, EJobState 7 ''succeeded'' 3 None None),
     (730, 600, GReconcile), (740, 600, EJobGone 4)]"

lemma ex_gates_ok: "gates_ok ex_gates" "gates_ok ex_resolved"
  by code_simp+

lemma ex_claim: "beginHumanGateResolution (\<lambda>s. s) (ex_begin ''k1'') 500 ex_gates = (ex_claimed, Begin_claimed ''retry'' ''k1'')"
proof -
  have "snd (beginHumanGateResolution (\<lambda>s. s) (ex_begin ''k1'') 500 ex_gates) = Begin_claimed ''retry'' ''k1''" by code_simp
  then show ?thesis by (simp add: ex_claimed_def prod_eq_iff)
qed

lemma ex_complete: "completeHumanGateResolution 7 (Some ''w'') ''requeued'' 600 550 ex_claimed = (ex_resolved, Complete_done)"
proof -
  have "snd (completeHumanGateResolution 7 (Some ''w'') ''requeued'' 600 550 ex_claimed) = Complete_done" by code_simp
  then show ?thesis by (simp add: ex_resolved_def prod_eq_iff)
qed

theorem gates_stay_well_formed_witness: "gates_ok (fold ex_step (ex_while @ ex_later) ex_gates)"
  by (rule gates_stay_well_formed [OF ex_gates_ok(1)])



end
