(* ===== verification/HumanGateRecovery.thy ===== *)
theory HumanGateRecovery
  imports HumanGateSafety
begin

text \<open>
  What holds of the human gates when messages are repeated and workers crash: an accepted answer can be
  asked for again, and a sweep leaves no gate stuck, whatever state the tables were in.
\<close>

section \<open>Jobs under the sweep\<close>

definition job_keeps :: "gjob \<Rightarrow> gjob \<Rightarrow> bool" where
  "job_keeps j j' \<longleftrightarrow> gj_id j' = gj_id j \<and> gj_human j' = gj_human j \<and> (gj_terminal j' \<or>
     \<not> gj_terminal j \<and> gj_token j' = gj_token j \<and> gj_expires j' = gj_expires j)"

definition jobs_kept :: "gdb \<Rightarrow> gdb \<Rightarrow> bool" where
  "jobs_kept d d' \<longleftrightarrow> list_all2 job_keeps (gd_jobs d) (gd_jobs d')"

lemma job_keeps_trans: "job_keeps a b \<Longrightarrow> job_keeps b c \<Longrightarrow> job_keeps a c"
  by (auto simp: job_keeps_def)

lemma jobs_kept_trans: "jobs_kept a b \<Longrightarrow> jobs_kept b c \<Longrightarrow> jobs_kept a c"
  unfolding jobs_kept_def by (rule list_all2_trans [OF job_keeps_trans])

lemma job_keeps_refl [simp]: "job_keeps j j"
  by (auto simp: job_keeps_def)

lemma jobs_kept_same: "gd_jobs d' = gd_jobs d \<Longrightarrow> jobs_kept d d'"
  by (simp add: jobs_kept_def list_all2_refl)

lemma jobs_kept_upd: "(\<And>j. job_keeps j (f j)) \<Longrightarrow> jobs_kept d (upd_gjob i f d)"
  by (simp add: jobs_kept_def list_all2_map2 list_all2_refl list.rel_refl_strong)

lemma kept_gjob_of:
  assumes "jobs_kept d d'"
  shows "rel_option job_keeps (gjob_of d i) (gjob_of d' i)"
  using assms unfolding jobs_kept_def gjob_of_def by (induction rule: list_all2_induct) (auto simp: job_keeps_def)

lemma kept_job:
  assumes "jobs_kept d d'" "j' \<in> set (gd_jobs d')"
  shows "\<exists>j \<in> set (gd_jobs d). job_keeps j j'"
proof -
  obtain i where i: "i < length (gd_jobs d')" "j' = gd_jobs d' ! i" using assms(2) by (auto simp: in_set_conv_nth)
  then have "i < length (gd_jobs d)" "job_keeps (gd_jobs d ! i) j'"
    using assms(1) by (auto simp: jobs_kept_def list_all2_conv_all_nth)
  then show ?thesis by (intro bexI [of _ "gd_jobs d ! i"]) simp_all
qed

lemma gjob_of_upd_gates [simp]: "gjob_of (upd_gates P f d) i = gjob_of d i"
  by (simp add: gjob_of_def)

lemma gjob_of_upd:
  assumes "\<And>j. gj_id (f j) = gj_id j"
  shows "gjob_of (upd_gjob i f d) k = (if k = i then map_option f (gjob_of d k) else gjob_of d k)"
proof -
  have "find (\<lambda>j. gj_id j = k) (map (\<lambda>j. if gj_id j = i then f j else j) js) =
      (if k = i then map_option f (find (\<lambda>j. gj_id j = k) js) else find (\<lambda>j. gj_id j = k) js)" for js
    by (induction js) (auto simp: assms)
  then show ?thesis by (simp add: gjob_of_def)
qed

lemma end_job_keeps: "status \<in> set TERMINAL_JOB_STATUSES \<Longrightarrow> job_keeps j (end_job status err now j)"
  by (auto simp: job_keeps_def end_job_def gj_terminal_def)

lemma end_job_terminal: "status \<in> set TERMINAL_JOB_STATUSES \<Longrightarrow> gj_terminal (end_job status err now j)"
  by (auto simp: end_job_def gj_terminal_def)

lemma end_job_id [simp]: "gj_id (end_job status err now j) = gj_id j" "gj_human (end_job status err now j) = gj_human j"
  by (simp_all add: end_job_def)

lemma bump_id [simp]: "gj_id (bump_version j) = gj_id j" "gj_terminal (bump_version j) = gj_terminal j"
  by (simp_all add: bump_version_def gj_terminal_def)

lemma terminal_words [simp]: "''canceled'' \<in> set TERMINAL_JOB_STATUSES" "''failed'' \<in> set TERMINAL_JOB_STATUSES"
  "''succeeded'' \<in> set TERMINAL_JOB_STATUSES"
  by (simp_all add: TERMINAL_JOB_STATUSES_def)

text \<open>
  A quiet change: jobs keep their lease or end, no job loses its gate, and a gate that becomes closed has no live job.
\<close>

definition quiet :: "gdb \<Rightarrow> gdb \<Rightarrow> bool" where
  "quiet d d' \<longleftrightarrow> jobs_kept d d' \<and> hg_job ` set (gd_gates d) \<subseteq> hg_job ` set (gd_gates d') \<and>
     (\<forall>g \<in> set (gd_gates d'). \<not> hg_active g \<longrightarrow> g \<in> set (gd_gates d) \<or> \<not> gate_job_live d' g)"

lemma quiet_kept: "quiet d d' \<Longrightarrow> jobs_kept d d'"
  by (simp add: quiet_def)

lemma live_kept: "jobs_kept d d' \<Longrightarrow> gate_job_live d' g \<Longrightarrow> gate_job_live d g"
  using kept_gjob_of [of d d' "hg_job g"]
  by (cases "gjob_of d (hg_job g)"; cases "gjob_of d' (hg_job g)") (auto simp: gate_job_live_def job_keeps_def)

lemma quiet_refl [simp]: "quiet d d"
  by (simp add: quiet_def jobs_kept_same)

lemma quiet_trans: "quiet a b \<Longrightarrow> quiet b c \<Longrightarrow> quiet a c"
proof -
  assume ab: "quiet a b" and bc: "quiet b c"
  have jobs: "jobs_kept a b" "jobs_kept b c" using ab bc by (simp_all add: quiet_def)
  have "hg_job ` set (gd_gates a) \<subseteq> hg_job ` set (gd_gates b)" "hg_job ` set (gd_gates b) \<subseteq> hg_job ` set (gd_gates c)"
    using ab bc by (simp_all only: quiet_def)
  then have "hg_job ` set (gd_gates a) \<subseteq> hg_job ` set (gd_gates c)" by (rule subset_trans)
  moreover have "g \<in> set (gd_gates a) \<or> \<not> gate_job_live c g" if "g \<in> set (gd_gates c)" "\<not> hg_active g" for g
  proof (cases "g \<in> set (gd_gates b)")
    case True
    then have "g \<in> set (gd_gates a) \<or> \<not> gate_job_live b g" using ab that(2) unfolding quiet_def by blast
    then show ?thesis using live_kept [OF jobs(2)] by blast
  next
    case False
    then show ?thesis using bc that unfolding quiet_def by blast
  qed
  ultimately show ?thesis using jobs_kept_trans [OF jobs] unfolding quiet_def by blast
qed

lemma quiet_jobs: "jobs_kept d (upd_gjob i f d) \<Longrightarrow> quiet d (upd_gjob i f d)"
  by (simp add: quiet_def)

lemma quiet_gates:
  assumes "\<And>g. P g \<Longrightarrow> hg_job (f g) = hg_job g" and "\<And>g. g \<in> set (gd_gates d) \<Longrightarrow> P g \<Longrightarrow> hg_active (f g) \<or> \<not> gate_job_live d (f g)"
  shows "quiet d (upd_gates P f d)"
proof -
  have "hg_job (if P g then f g else g) = hg_job g" for g using assms(1) by simp
  then have "hg_job ` set (gd_gates (upd_gates P f d)) = hg_job ` set (gd_gates d)" by (simp only: upd_gates_simps set_map image_image)
  moreover have "gate_job_live (upd_gates P f d) g = gate_job_live d g" for g by (simp add: gate_job_live_def)
  moreover have "\<not> hg_active g \<longrightarrow> g \<in> set (gd_gates d) \<or> \<not> gate_job_live d g" if "g \<in> set (gd_gates (upd_gates P f d))" for g
    using that assms(2) by (auto split: if_splits)
  ultimately show ?thesis by (simp add: quiet_def jobs_kept_same del: upd_gates_simps(1))
qed

definition settled_closed :: "int \<Rightarrow> gdb \<Rightarrow> hgate \<Rightarrow> bool" where
  "settled_closed now d g \<longleftrightarrow> (case gjob_of d (hg_job g) of None \<Rightarrow> True | Some j \<Rightarrow> gj_terminal j \<or> \<not> lease_gone_by now j)"

lemma settled_kept: "jobs_kept d d' \<Longrightarrow> settled_closed now d g \<Longrightarrow> settled_closed now d' g"
  using kept_gjob_of [of d d' "hg_job g"]
  by (auto simp: settled_closed_def job_keeps_def lease_gone_by_def split: option.splits)

definition all_settled :: "int \<Rightarrow> gdb \<Rightarrow> bool" where
  "all_settled now d \<longleftrightarrow> (\<forall>g \<in> set (gd_gates d). \<not> hg_active g \<longrightarrow> settled_closed now d g)"

lemma quiet_settled:
  assumes "quiet d d'" "all_settled now d"
  shows "all_settled now d'"
  unfolding all_settled_def
proof (intro ballI impI)
  fix g assume g: "g \<in> set (gd_gates d')" "\<not> hg_active g"
  show "settled_closed now d' g"
  proof (cases "gate_job_live d' g")
    case True
    then have "g \<in> set (gd_gates d)" using assms(1) g by (auto simp: quiet_def)
    then show ?thesis using assms g(2) settled_kept by (auto simp: all_settled_def quiet_def)
  next
    case False
    then show ?thesis by (auto simp: settled_closed_def gate_job_live_def split: option.splits)
  qed
qed

definition all_gated :: "gdb \<Rightarrow> bool" where
  "all_gated d \<longleftrightarrow> (\<forall>j \<in> set (gd_jobs d). gj_human j \<and> \<not> gj_terminal j \<longrightarrow> gj_id j \<in> hg_job ` set (gd_gates d))"

lemma quiet_gated:
  assumes "quiet d d'" "all_gated d"
  shows "all_gated d'"
  unfolding all_gated_def
proof (intro ballI impI)
  fix j' assume j': "j' \<in> set (gd_jobs d')" "gj_human j' \<and> \<not> gj_terminal j'"
  moreover have "jobs_kept d d'" using assms(1) by (simp add: quiet_def)
  ultimately obtain j where "j \<in> set (gd_jobs d)" "job_keeps j j'" using kept_job by blast
  then have "gj_id j' \<in> hg_job ` set (gd_gates d)" using j'(2) assms(2) by (auto simp: job_keeps_def all_gated_def)
  then show "gj_id j' \<in> hg_job ` set (gd_gates d')" using assms(1) by (auto simp: quiet_def)
qed

section \<open>The stages are quiet\<close>

lemma stage_quiet: "(\<And>x st. quiet (fst st) (fst (F x st))) \<Longrightarrow> quiet (fst st) (fst (fold F xs st))"
  by (rule fold_related [where R = "\<lambda>s t. quiet (fst s) (fst t)"]) (auto intro: quiet_trans)

lemma end_quiet: "status \<in> set TERMINAL_JOB_STATUSES \<Longrightarrow> quiet d (upd_gjob i (end_job status err now) d)"
  by (intro quiet_jobs jobs_kept_upd end_job_keeps)

text \<open>Ending a job and superseding its gate.\<close>

definition ended_with :: "nat \<Rightarrow> string \<Rightarrow> (string option \<Rightarrow> string option) \<Rightarrow> string \<Rightarrow> int \<Rightarrow> gdb \<Rightarrow> gdb" where
  "ended_with i status err why now d = supersede_gate i why now (upd_gjob i (end_job status err now) d)"

lemma ended_job_dead:
  assumes "status \<in> set TERMINAL_JOB_STATUSES" "hg_job g = i"
  shows "\<not> gate_job_live (upd_gjob i (end_job status err now) d) g"
  using end_job_terminal [OF assms(1)] by (simp add: gate_job_live_def gjob_of_upd assms(2) split: option.split)

lemma ended_gate_quiet:
  "status \<in> set TERMINAL_JOB_STATUSES \<Longrightarrow> quiet (upd_gjob i (end_job status err now) d) (ended_with i status err why now d)"
  unfolding ended_with_def supersede_gate_def
  by (rule quiet_gates) (use ended_job_dead [where d = d and i = i] in simp_all)

lemma ended_quiet: "status \<in> set TERMINAL_JOB_STATUSES \<Longrightarrow> quiet d (ended_with i status err why now d)"
  by (rule quiet_trans [OF end_quiet ended_gate_quiet])

lemma supersede_inactive [simp]: "\<not> hg_active (supersede why now g)"
  by (simp add: supersede_def active_states)

lemma ended_inactive:
  assumes "g \<in> set (gd_gates (ended_with i status err why now d))" "hg_job g = i"
  shows "\<not> hg_active g"
proof -
  obtain h where "g = (if hg_job h = i \<and> hg_active h then supersede why now h else h)"
    using assms(1) unfolding ended_with_def supersede_gate_def upd_gates_simps set_map by blast
  then show ?thesis using assms(2) by (cases "hg_job h = i \<and> hg_active h") auto
qed

lemma retire_ended: "\<exists>why. fst (retireGateJob counted i reason now st) = ended_with i ''canceled'' (keep_error why) why now (fst st)"
  unfolding retire_fst ended_with_def by blast

lemma retire_quiet: "quiet (fst st) (fst (retireGateJob counted i reason now st))"
proof -
  obtain why where "fst (retireGateJob counted i reason now st) = ended_with i ''canceled'' (keep_error why) why now (fst st)"
    using retire_ended by blast
  then show ?thesis by (simp only: ended_quiet terminal_words)
qed

lemma retire_row_ended: "fst (retire_row counted status why1 why2 now g st) = ended_with (hg_job g) status (keep_error why1) why2 now (fst st)"
  by (cases st) (simp add: retire_row_def ended_with_def)

lemma close_contract_quiet: "quiet (fst st) (fst (close_contract_job now g st))"
proof -
  have "job_keeps j ((bump_version \<circ> end_job status err now) j)" if "status \<in> set TERMINAL_JOB_STATUSES" for j status err
    using end_job_terminal [OF that] by (simp add: job_keeps_def) (simp add: bump_version_def)
  then have "quiet d (upd_gjob i (bump_version \<circ> end_job (if ok then ''succeeded'' else ''canceled'') err now) d)" for d i ok err
    by (intro quiet_jobs jobs_kept_upd) simp
  then show ?thesis by (simp add: close_contract_job_def Let_def split: prod.split option.split)
qed

lemma retire_stale_quiet: "quiet d (retire_stale slot now d)"
proof (cases slot)
  case (Some s)
  have "gate_job_live d (supersede why now g) = gate_job_live d g" for why g by (simp add: gate_job_live_def)
  then show ?thesis unfolding retire_stale_def Some option.case by (intro quiet_gates) simp_all
qed (simp add: retire_stale_def)

lemma register_quiet: "quiet d (fst (register_body i p parent now d))"
proof (cases rule: register_cases [of i p parent now d])
  case (added slot c st g)
  have "hg_active g" using added(2) by (simp add: active_states)
  then have "quiet x (x\<lparr>gd_gates := gd_gates x @ [g]\<rparr>)" for x
    by (auto simp: quiet_def jobs_kept_same)
  then show ?thesis unfolding added(1) by (rule quiet_trans [OF retire_stale_quiet])
qed (simp_all add: retire_stale_quiet)

lemma register_missing_quiet: "quiet (fst st) (fst (register_missing now j st))"
proof -
  obtain d s where st: "st = (d, s)" by (cases st)
  obtain d1 r where b: "register_body (gj_id j) (gj_payload j) (gj_parent j) now d = (d1, r)" by (rule prod.exhaust)
  have k: "quiet d d1" using register_quiet [of d "gj_id j" "gj_payload j" "gj_parent j" now] b by simp
  show ?thesis
  proof (cases r)
    case (Inl e)
    then show ?thesis
      using quiet_trans [OF k retire_quiet [of "(d1, s)", simplified]] by (simp add: st register_missing_def b)
  next
    case (Inr g)
    then show ?thesis using k quiet_trans [OF k end_quiet] by (simp add: st register_missing_def b)
  qed
qed

lemma refresh_quiet: "quiet (fst st) (fst (refresh_drifted g st))"
proof -
  have k: "quiet d (upd_gates (\<lambda>h. hg_job h = hg_job g \<and> hg_state h = ''open'' \<and> hg_generation h = hg_generation g)
      (\<lambda>h. h\<lparr>hg_actions := acts, hg_generation := Suc (hg_generation h)\<rparr>) d)" for d acts
    by (rule quiet_gates) (simp_all add: active_states)
  have p: "quiet d (upd_gjob i (\<lambda>j. j\<lparr>gj_payload := q\<rparr>) d)" for d i q
    by (intro quiet_jobs jobs_kept_upd) (auto simp: job_keeps_def gj_terminal_def)
  show ?thesis by (cases rule: refresh_drifted_fst [of g st]) (simp_all add: k quiet_trans [OF k p])
qed

lemma recover_quiet: "quiet (fst st) (fst (recover_abandoned now g st))"
proof (cases rule: recover_abandoned_fst [of now g st])
  case (retired counted reason)
  then show ?thesis by (simp add: retire_quiet)
next
  case reopened
  show ?thesis unfolding reopened by (rule quiet_gates) (simp_all add: reopen_def active_states)
qed

lemma sweeps_quiet:
  "quiet (fst st) (fst (sweep_closed now st))" "quiet (fst st) (fst (sweep_ended_wis now st))" "quiet (fst st) (fst (sweep_drift now st))"
  "quiet (fst st) (fst (sweep_lost now st))" "quiet (fst st) (fst (sweep_unregistered now st))" "quiet (fst st) (fst (sweep_contracts st))"
  "quiet (fst st) (fst (sweep_orphans now st))" "quiet (fst st) (fst (sweep_failed now st))" "quiet (fst st) (fst (sweep_abandoned now grace st))"
  unfolding sweep_closed_def sweep_ended_wis_def sweep_drift_def sweep_lost_def sweep_unregistered_def sweep_contracts_def
    sweep_orphans_def sweep_failed_def sweep_abandoned_def
  by (rule stage_quiet; simp add: close_contract_quiet retire_quiet register_missing_quiet refresh_quiet retire_row_ended ended_quiet
    recover_quiet split: prod.split)+

text \<open>What a stage has done for an element it went through stays done.\<close>

lemma fold_done:
  assumes "\<And>x s. Q x (F x s)" and "\<And>x y s. Q x s \<Longrightarrow> Q x (F y s)" and "x \<in> set xs"
  shows "Q x (fold F xs s)"
proof -
  have keep: "Q x s \<Longrightarrow> Q x (fold F ys s)" for ys s by (induction ys arbitrary: s) (simp_all add: assms(2))
  show ?thesis using assms(3) by (induction xs arbitrary: s) (auto simp: assms(1) keep)
qed

section \<open>Closed gates\<close>

lemma close_contract_gates: "gd_gates (fst (close_contract_job now g st)) = gd_gates (fst st)"
  by (cases st) (simp add: close_contract_job_def Let_def split: option.split)

lemma sweep_closed_gates: "gd_gates (fst (sweep_closed now st)) = gd_gates (fst st)"
proof -
  have "gd_gates (fst (fold (close_contract_job now) gs st)) = gd_gates (fst st)" for gs
    by (induction gs arbitrary: st) (simp_all add: close_contract_gates)
  then show ?thesis by (simp add: sweep_closed_def)
qed

lemma close_contract_done: "settled_closed now (fst (close_contract_job now g st)) g"
proof -
  obtain d s where st: "st = (d, s)" by (cases st)
  show ?thesis
  proof (cases "gjob_of d (hg_job g)")
    case None
    then show ?thesis by (simp add: st close_contract_job_def settled_closed_def)
  next
    case (Some j)
    have t: "gj_terminal ((bump_version \<circ> end_job (if b then ''succeeded'' else ''canceled'') err now) j)" for b err
      by (simp add: end_job_terminal)
    show ?thesis
    proof (cases "gj_terminal j \<or> \<not> lease_gone_by now j")
      case True
      then show ?thesis using Some by (auto simp: st close_contract_job_def settled_closed_def)
    next
      case False
      then show ?thesis using Some t by (simp add: st close_contract_job_def settled_closed_def Let_def gjob_of_upd)
    qed
  qed
qed

lemma sweep_closed_settles: "all_settled now (fst (sweep_closed now st))"
  unfolding all_settled_def sweep_closed_gates
proof (intro ballI impI)
  fix g assume g: "g \<in> set (gd_gates (fst st))" "\<not> hg_active g"
  have kept: "settled_closed now (fst x) h \<Longrightarrow> settled_closed now (fst (close_contract_job now k x)) h" for h k x
    by (rule settled_kept [OF quiet_kept [OF close_contract_quiet]])
  show "settled_closed now (fst (sweep_closed now st)) g"
  proof (cases "g \<in> set (closed_contracts now (fst st))")
    case True
    show ?thesis unfolding sweep_closed_def
      by (rule fold_done [where Q = "\<lambda>g st. settled_closed now (fst st) g", OF _ _ True]) (rule close_contract_done, erule kept)
  next
    case False
    then have "settled_closed now (fst st) g"
      using g by (auto simp: closed_contracts_def settled_closed_def split: option.splits)
    then show ?thesis by (rule settled_kept [OF quiet_kept [OF sweeps_quiet(1)]])
  qed
qed

section \<open>Questions without a gate\<close>

definition gated :: "gjob \<Rightarrow> gdb \<Rightarrow> bool" where
  "gated j d \<longleftrightarrow> gj_id j \<in> hg_job ` set (gd_gates d) \<or> (\<forall>j' \<in> set (gd_jobs d). gj_id j' = gj_id j \<longrightarrow> gj_terminal j')"

lemma gated_quiet:
  assumes "quiet d d'" "gated j d"
  shows "gated j d'"
proof (cases "gj_id j \<in> hg_job ` set (gd_gates d)")
  case True
  then show ?thesis using assms(1) unfolding quiet_def gated_def by blast
next
  case False
  have k: "jobs_kept d d'" using assms(1) by (simp add: quiet_def)
  have "gj_terminal j'" if j': "j' \<in> set (gd_jobs d')" "gj_id j' = gj_id j" for j'
  proof -
    obtain j0 where "j0 \<in> set (gd_jobs d)" "job_keeps j0 j'" using kept_job [OF k j'(1)] by blast
    then show ?thesis using j'(2) False assms(2) by (auto simp: gated_def job_keeps_def)
  qed
  then show ?thesis by (simp add: gated_def)
qed

lemma ended_gated:
  assumes "status \<in> set TERMINAL_JOB_STATUSES" "gj_id j = i"
  shows "gated j (upd_gjob i (end_job status err now) d)"
  using end_job_terminal [OF assms(1)] assms(2) by (auto simp: gated_def split: if_splits)

lemma latest_gate_in: "latest_gate gs = Some g \<Longrightarrow> g \<in> set gs"
  by (auto simp: latest_gate_def find_Some_iff)

lemma register_missing_gates: "gated j (fst (register_missing now j st))"
proof -
  obtain d s where st: "st = (d, s)" by (cases st)
  obtain d1 r where b: "register_body (gj_id j) (gj_payload j) (gj_parent j) now d = (d1, r)" by (rule prod.exhaust)
  show ?thesis
  proof (cases r)
    case (Inl e)
    then have f: "fst (register_missing now j st) = fst (retireGateJob ''invalid_legacy_contract'' (gj_id j)
        (''Could not establish durable gate contract: '' @ e) now (d1, s))"
      by (simp add: st register_missing_def b)
    have "gated j (ended_with (gj_id j) ''canceled'' (keep_error why) why now d1)" for why
      by (rule gated_quiet [OF ended_gate_quiet ended_gated]) (simp_all only: terminal_words)
    then show ?thesis unfolding f using retire_ended by (metis fst_conv)
  next
    case (Inr g)
    show ?thesis
    proof (cases "hg_job g = gj_id j")
      case True
      have "g \<in> set (gd_gates d1)"
      proof (cases rule: register_cases [of "gj_id j" "gj_payload j" "gj_parent j" now d])
        case same
        then show ?thesis using b Inr getHumanGateD by auto
      next
        case (retired slot)
        then have "competing_gate slot d1 = Some g" using b Inr by simp
        then show ?thesis by (auto simp: competing_gate_def bind_eq_Some_conv dest!: latest_gate_in)
      next
        case (added slot c st h)
        then show ?thesis using b Inr by simp
      qed
      then have "gj_id j \<in> hg_job ` set (gd_gates d1)" using True by (metis imageI)
      then show ?thesis using True Inr by (simp add: st register_missing_def b gated_def)
    next
      case False
      then show ?thesis using Inr ended_gated [of "''canceled''" j "gj_id j"] by (simp add: st register_missing_def b)
    qed
  qed
qed

lemma sweep_unregistered_gates: "all_gated (fst (sweep_unregistered now st))"
  unfolding all_gated_def
proof (intro ballI impI)
  let ?d = "fst (sweep_unregistered now st)"
  fix j assume j: "j \<in> set (gd_jobs ?d)" "gj_human j \<and> \<not> gj_terminal j"
  obtain j0 where j0: "j0 \<in> set (gd_jobs (fst st))" "job_keeps j0 j"
    using kept_job [OF quiet_kept [OF sweeps_quiet(5)] j(1)] by blast
  have same: "gj_id j = gj_id j0" "gj_human j0" "\<not> gj_terminal j0" using j(2) j0(2) by (auto simp: job_keeps_def)
  have "gated j0 ?d"
  proof (cases "getHumanGate (gj_id j0) (fst st) = None")
    case True
    then have "j0 \<in> set (unregistered (fst st))" using j0(1) same by (simp add: unregistered_def)
    then show ?thesis unfolding sweep_unregistered_def
      by (rule fold_done [where Q = "\<lambda>j st. gated j (fst st)", rotated 2])
        (rule register_missing_gates, erule gated_quiet [OF register_missing_quiet])
  next
    case False
    then have "gated j0 (fst st)" by (simp add: getHumanGate_None gated_def)
    then show ?thesis by (rule gated_quiet [OF sweeps_quiet(5)])
  qed
  then show "gj_id j \<in> hg_job ` set (gd_gates ?d)" using j same by (auto simp: gated_def)
qed

section \<open>Orphans and abandoned resolvers\<close>

text \<open>A change that opens no gate anew: an active gate was active before, and one that is being resolved was.\<close>

definition no_new :: "gdb \<Rightarrow> gdb \<Rightarrow> bool" where
  "no_new d d' \<longleftrightarrow> (\<forall>g \<in> set (gd_gates d'). hg_active g \<longrightarrow>
     (\<exists>h \<in> set (gd_gates d). hg_job h = hg_job g \<and> hg_active h \<and> (hg_state g = ''resolving'' \<longrightarrow> hg_state h = ''resolving'')))"

lemma no_new_same: "gd_gates d' = gd_gates d \<Longrightarrow> no_new d d'"
  by (auto simp: no_new_def)

lemma no_new_trans: "no_new a b \<Longrightarrow> no_new b c \<Longrightarrow> no_new a c"
  unfolding no_new_def by metis

lemma no_new_upd:
  assumes "\<And>g. P g \<Longrightarrow> hg_job (f g) = hg_job g"
    and "\<And>g. P g \<Longrightarrow> hg_active (f g) \<Longrightarrow> hg_active g \<and> (hg_state (f g) = ''resolving'' \<longrightarrow> hg_state g = ''resolving'')"
  shows "no_new d (upd_gates P f d)"
  unfolding no_new_def
proof (intro ballI impI)
  fix g assume "g \<in> set (gd_gates (upd_gates P f d))" and a: "hg_active g"
  then obtain h where h: "h \<in> set (gd_gates d)" "g = (if P h then f h else h)" unfolding upd_gates_simps set_map by blast
  have "hg_job h = hg_job g \<and> hg_active h \<and> (hg_state g = ''resolving'' \<longrightarrow> hg_state h = ''resolving'')"
    using h(2) a assms by (cases "P h") auto
  then show "\<exists>h \<in> set (gd_gates d). hg_job h = hg_job g \<and> hg_active h \<and> (hg_state g = ''resolving'' \<longrightarrow> hg_state h = ''resolving'')"
    using h(1) by (rule rev_bexI [rotated])
qed

lemma no_new_stage: "(\<And>x st. no_new (fst st) (fst (F x st))) \<Longrightarrow> no_new (fst st) (fst (fold F xs st))"
  by (rule fold_related [where R = "\<lambda>s t. no_new (fst s) (fst t)"]) (auto intro: no_new_trans no_new_same)

lemma ended_no_new: "no_new d (ended_with i status err why now d)"
  unfolding ended_with_def supersede_gate_def
  by (rule no_new_trans [OF no_new_same no_new_upd]) simp_all

lemma recover_no_new: "no_new (fst st) (fst (recover_abandoned now g st))"
proof (cases rule: recover_abandoned_fst [of now g st])
  case (retired counted reason)
  then show ?thesis using retire_ended ended_no_new by metis
next
  case reopened
  show ?thesis unfolding reopened by (rule no_new_upd) (simp_all add: reopen_def active_states)
qed

text \<open>No active gate has the job, or none that is being resolved.\<close>

definition no_active :: "nat \<Rightarrow> gdb \<Rightarrow> bool" where
  "no_active i d \<longleftrightarrow> (\<forall>g \<in> set (gd_gates d). hg_job g = i \<longrightarrow> \<not> hg_active g)"

definition no_resolving :: "nat \<Rightarrow> gdb \<Rightarrow> bool" where
  "no_resolving i d \<longleftrightarrow> (\<forall>g \<in> set (gd_gates d). hg_job g = i \<longrightarrow> hg_state g \<noteq> ''resolving'')"

lemma no_active_kept: "no_new d d' \<Longrightarrow> no_active i d \<Longrightarrow> no_active i d'"
  unfolding no_new_def no_active_def by blast

lemma no_resolving_kept: "no_new d d' \<Longrightarrow> no_resolving i d \<Longrightarrow> no_resolving i d'"
  unfolding no_new_def no_resolving_def active_states by metis

lemma sweep_orphans_no_new: "no_new (fst st) (fst (sweep_orphans now st))"
  unfolding sweep_orphans_def by (rule no_new_stage) (simp only: retire_row_ended ended_no_new)

lemma sweep_failed_no_new: "no_new (fst st) (fst (sweep_failed now st))"
  unfolding sweep_failed_def by (rule no_new_stage) (simp only: retire_row_ended ended_no_new)

lemma sweep_abandoned_no_new: "no_new (fst st) (fst (sweep_abandoned now grace st))"
  unfolding sweep_abandoned_def by (rule no_new_stage) (rule recover_no_new)

definition all_owned :: "gdb \<Rightarrow> bool" where
  "all_owned d \<longleftrightarrow> (\<forall>g \<in> set (gd_gates d). hg_active g \<longrightarrow> gjob_of d (hg_job g) \<noteq> None)"

lemma kept_job_None: "jobs_kept d d' \<Longrightarrow> gjob_of d' i = None \<longleftrightarrow> gjob_of d i = None"
  using kept_gjob_of [of d d' i] by (cases "gjob_of d i"; cases "gjob_of d' i") auto

lemma owned_kept: "jobs_kept d d' \<Longrightarrow> no_new d d' \<Longrightarrow> all_owned d \<Longrightarrow> all_owned d'"
  unfolding all_owned_def no_new_def by (metis kept_job_None)

lemma sweep_orphans_owned: "all_owned (fst (sweep_orphans now st))"
  unfolding all_owned_def
proof (intro ballI impI)
  let ?d = "fst (sweep_orphans now st)"
  fix g assume g: "g \<in> set (gd_gates ?d)" "hg_active g"
  obtain h where h: "h \<in> set (gd_gates (fst st))" "hg_job h = hg_job g" "hg_active h"
    using sweep_orphans_no_new g unfolding no_new_def by blast
  show "gjob_of ?d (hg_job g) \<noteq> None"
  proof
    assume "gjob_of ?d (hg_job g) = None"
    then have "gjob_of (fst st) (hg_job h) = None" using kept_job_None [OF quiet_kept [OF sweeps_quiet(7)]] h(2) by simp
    then have row: "h \<in> set (filter (gate_orphaned (fst st)) (gd_gates (fst st)))" using h by (simp add: gate_orphaned_def)
    have "no_active (hg_job h) ?d"
      unfolding sweep_orphans_def
    proof (rule fold_done [where Q = "\<lambda>g st. no_active (hg_job g) (fst st)", OF _ _ row])
      show "no_active (hg_job x) (fst (retire_row c status w1 w2 now x s))" for x c status w1 w2 s
        unfolding retire_row_ended no_active_def using ended_inactive by blast
      show "no_active (hg_job x) (fst s) \<Longrightarrow> no_active (hg_job x) (fst (retire_row c status w1 w2 now y s))" for x y c status w1 w2 s
        unfolding retire_row_ended by (rule no_active_kept [OF ended_no_new])
    qed
    then show False using g h(2) by (simp add: no_active_def)
  qed
qed

definition none_abandoned :: "int \<Rightarrow> gdb \<Rightarrow> bool" where
  "none_abandoned grace d \<longleftrightarrow> (\<forall>g \<in> set (gd_gates d). \<not> abandoned_gate grace d g)"

lemma kept_abandoned:
  assumes "jobs_kept d d'" "abandoned_gate grace d' g" "hg_job h = hg_job g" "hg_state h = ''resolving''"
  shows "abandoned_gate grace d h"
  using kept_gjob_of [OF assms(1), of "hg_job g"] assms(2-4)
  by (cases "gjob_of d (hg_job g)"; cases "gjob_of d' (hg_job g)") (auto simp: abandoned_gate_def job_keeps_def)

lemma recover_no_resolving: "no_resolving (hg_job g) (fst (recover_abandoned now g st))"
proof (cases rule: recover_abandoned_fst [of now g st])
  case (retired counted reason)
  obtain why where "fst (recover_abandoned now g st) = ended_with (hg_job g) ''canceled'' (keep_error why) why now (fst st)"
    unfolding retired using retire_ended by blast
  then show ?thesis using ended_inactive unfolding no_resolving_def active_states by metis
next
  case reopened
  show ?thesis unfolding reopened by (auto simp: no_resolving_def reopen_def)
qed

lemma sweep_abandoned_none: "none_abandoned grace (fst (sweep_abandoned now grace st))"
  unfolding none_abandoned_def
proof (intro ballI notI)
  let ?d = "fst (sweep_abandoned now grace st)"
  fix g assume g: "g \<in> set (gd_gates ?d)" "abandoned_gate grace ?d g"
  have res: "hg_state g = ''resolving''" using g(2) by (simp add: abandoned_gate_def)
  then obtain h where h: "h \<in> set (gd_gates (fst st))" "hg_job h = hg_job g" "hg_state h = ''resolving''"
    using sweep_abandoned_no_new g(1) unfolding no_new_def active_states by blast
  have "abandoned_gate grace (fst st) h" by (rule kept_abandoned [OF quiet_kept [OF sweeps_quiet(9)] g(2) h(2,3)])
  then have row: "h \<in> set (filter (abandoned_gate grace (fst st)) (gd_gates (fst st)))" using h(1) by simp
  have "no_resolving (hg_job h) ?d"
    unfolding sweep_abandoned_def
    by (rule fold_done [where Q = "\<lambda>g st. no_resolving (hg_job g) (fst st)", OF _ _ row])
      (rule recover_no_resolving, erule no_resolving_kept [OF recover_no_new])
  then show False using g(1) h(2) res by (simp add: no_resolving_def)
qed

section \<open>The last stage\<close>

text \<open>What the sweep establishes of a gate. The last stage still finds gates of ended jobs, its rows.\<close>

definition gate_good :: "int \<Rightarrow> int \<Rightarrow> gdb \<Rightarrow> hgate \<Rightarrow> bool" where
  "gate_good now grace d g \<longleftrightarrow> (if hg_active g then gate_job_live d g else settled_closed now d g) \<and> \<not> abandoned_gate grace d g"

definition align_inv :: "int \<Rightarrow> int \<Rightarrow> (hgate \<times> string \<times> bool) list \<Rightarrow> gdb \<Rightarrow> bool" where
  "align_inv now grace rows d \<longleftrightarrow> all_gated d \<and> distinct (map (hg_job \<circ> fst) rows) \<and>
     (\<forall>r \<in> set rows. hg_job (fst r) \<in> hg_job ` set (gd_gates d) \<and> (\<exists>j. gjob_of d (hg_job (fst r)) = Some j \<and> gj_terminal j)) \<and>
     (\<forall>g \<in> set (gd_gates d). gate_good now grace d g \<or> hg_job g \<in> hg_job ` fst ` set rows)"

lemma aligned_job [simp]: "hg_job (aligned now status timedOut h) = hg_job h"
  by (simp add: aligned_def split: terminal_decision.split)

lemma wait_again_simps [simp]: "gj_id (wait_again j) = gj_id j" "gj_human (wait_again j) = gj_human j" "\<not> gj_terminal (wait_again j)"
  by (simp_all add: wait_again_def gj_terminal_def TERMINAL_JOB_STATUSES_def)

lemma good_same_job: "gjob_of d' (hg_job g) = gjob_of d (hg_job g) \<Longrightarrow> gate_good now grace d' g = gate_good now grace d g"
  by (simp add: gate_good_def gate_job_live_def settled_closed_def abandoned_gate_def)

lemma align_gates:
  assumes d': "d' = fst (align_gate now (g, status, timedOut) (d, s))"
  shows "gd_gates d' = map (\<lambda>h. if hg_job h = hg_job g then aligned now status timedOut h else h) (gd_gates d)"
    and "gjob_of d' i = (if i = hg_job g \<and> terminalGateDecision status timedOut = Reopen_job
      then map_option wait_again (gjob_of d i) else gjob_of d i)"
    and "hg_job ` set (gd_gates d') = hg_job ` set (gd_gates d)"
proof -
  show gates: "gd_gates d' = map (\<lambda>h. if hg_job h = hg_job g then aligned now status timedOut h else h) (gd_gates d)"
    unfolding d' by (simp add: align_gate_fst)
  show "gjob_of d' i = (if i = hg_job g \<and> terminalGateDecision status timedOut = Reopen_job
      then map_option wait_again (gjob_of d i) else gjob_of d i)"
    unfolding d' by (simp add: align_gate_fst gjob_of_upd)
  have "hg_job (if hg_job h = hg_job g then aligned now status timedOut h else h) = hg_job h" for h by simp
  then show "hg_job ` set (gd_gates d') = hg_job ` set (gd_gates d)" by (simp only: gates set_map image_image)
qed

lemma align_row:
  assumes "h \<in> set (gd_gates (fst (align_gate now (g, status, timedOut) (d, s))))"
  obtains h0 where "h0 \<in> set (gd_gates d)" "hg_job h0 = hg_job h" "h = (if hg_job h = hg_job g then aligned now status timedOut h0 else h0)"
proof -
  obtain h0 where "h0 \<in> set (gd_gates d)" "h = (if hg_job h0 = hg_job g then aligned now status timedOut h0 else h0)"
    using assms unfolding align_gates(1) [OF refl] set_map by blast
  then show thesis using that [of h0] by (cases "hg_job h0 = hg_job g") simp_all
qed

lemma align_good:
  assumes "gjob_of d (hg_job g) = Some j" "gj_terminal j" and d': "d' = fst (align_gate now (g, status, timedOut) (d, s))"
    and h: "h \<in> set (gd_gates d')" "hg_job h = hg_job g"
  shows "gate_good now grace d' h"
proof -
  obtain h0 where h0: "h = aligned now status timedOut h0" using align_row [OF h(1) [unfolded d']] h(2) by metis
  show ?thesis
  proof (cases "terminalGateDecision status timedOut")
    case Resolve_gate
    then have "hg_state h = ''resolved''" "gjob_of d' (hg_job h) = Some j"
      using assms(1) h(2) by (simp_all add: h0 aligned_def align_gates(2) [OF d'])
    then show ?thesis using assms(2) by (simp add: gate_good_def active_states settled_closed_def abandoned_gate_def)
  next
    case Supersede_gate
    then have "hg_state h = ''superseded''" "gjob_of d' (hg_job h) = Some j"
      using assms(1) h(2) by (simp_all add: h0 aligned_def align_gates(2) [OF d'])
    then show ?thesis using assms(2) by (simp add: gate_good_def active_states settled_closed_def abandoned_gate_def)
  next
    case Reopen_job
    then have "hg_state h = ''open''" "gjob_of d' (hg_job h) = Some (wait_again j)"
      using assms(1) h(2) by (simp_all add: h0 aligned_def align_gates(2) [OF d'])
    then show ?thesis by (simp add: gate_good_def active_states gate_job_live_def abandoned_gate_def)
  qed
qed

lemma align_gated:
  assumes "all_gated d" "hg_job g \<in> hg_job ` set (gd_gates d)" and d': "d' = fst (align_gate now (g, status, timedOut) (d, s))"
  shows "all_gated d'"
  unfolding all_gated_def align_gates(3) [OF d']
proof (intro ballI impI)
  fix j assume j: "j \<in> set (gd_jobs d')" "gj_human j \<and> \<not> gj_terminal j"
  then consider "j \<in> set (gd_jobs d)" | "gj_id j = hg_job g" unfolding d' by (auto simp: align_gate_fst split: if_splits)
  then show "gj_id j \<in> hg_job ` set (gd_gates d)" using assms(1,2) j(2) by cases (simp_all add: all_gated_def)
qed

lemma align_step_inv:
  assumes "align_inv now grace (r # rows) d"
  shows "align_inv now grace rows (fst (align_gate now r (d, s)))"
proof -
  obtain g status timedOut where r: "r = (g, status, timedOut)" by (cases r)
  define d' where "d' = fst (align_gate now r (d, s))"
  note d' = d'_def [unfolded r]
  obtain j where j: "gjob_of d (hg_job g) = Some j" "gj_terminal j" using assms by (auto simp: align_inv_def r)
  have "all_gated d'" by (rule align_gated [OF _ _ d']) (use assms in \<open>simp_all add: align_inv_def r\<close>)
  moreover have "hg_job (fst x) \<in> hg_job ` set (gd_gates d') \<and> (\<exists>j. gjob_of d' (hg_job (fst x)) = Some j \<and> gj_terminal j)"
    if x: "x \<in> set rows" for x
  proof -
    have "hg_job (fst x) \<noteq> hg_job g" using assms x by (auto simp: align_inv_def r image_iff)
    then show ?thesis using assms x by (simp add: align_inv_def align_gates(2,3) [OF d'])
  qed
  moreover have "gate_good now grace d' h \<or> hg_job h \<in> hg_job ` fst ` set rows" if h: "h \<in> set (gd_gates d')" for h
  proof (cases "hg_job h = hg_job g")
    case True
    then show ?thesis using align_good [OF j d' h] by blast
  next
    case False
    then have "h \<in> set (gd_gates d)" using align_row [OF h [unfolded d']] by metis
    then have "gate_good now grace d h \<or> hg_job h \<in> hg_job ` fst ` set rows" using assms False by (auto simp: align_inv_def r)
    then show ?thesis using good_same_job [of d' h d] False by (simp add: align_gates(2) [OF d'])
  qed
  ultimately show ?thesis using assms unfolding d'_def [symmetric] by (simp add: align_inv_def)
qed

lemma align_fold_inv: "align_inv now grace rows (fst st) \<Longrightarrow> align_inv now grace [] (fst (fold (align_gate now) rows st))"
proof (induction rows arbitrary: st)
  case (Cons r rows)
  then show ?case using align_step_inv [of now grace r rows "fst st" "snd st"] by simp
qed simp

section \<open>The whole sweep\<close>

lemma first_stages_settled: "all_settled now (fst (first_stages now grace d))"
  unfolding first_stages_def comp_apply
  by (intro quiet_settled [OF sweeps_quiet(9)] quiet_settled [OF sweeps_quiet(8)] quiet_settled [OF sweeps_quiet(7)]
      quiet_settled [OF sweeps_quiet(6)] quiet_settled [OF sweeps_quiet(5)] quiet_settled [OF sweeps_quiet(4)]
      quiet_settled [OF sweeps_quiet(3)] quiet_settled [OF sweeps_quiet(2)] sweep_closed_settles)

lemma first_stages_gated: "all_gated (fst (first_stages now grace d))"
  unfolding first_stages_def comp_apply
  by (intro quiet_gated [OF sweeps_quiet(9)] quiet_gated [OF sweeps_quiet(8)] quiet_gated [OF sweeps_quiet(7)]
      quiet_gated [OF sweeps_quiet(6)] sweep_unregistered_gates)

lemma first_stages_owned: "all_owned (fst (first_stages now grace d))"
  unfolding first_stages_def comp_apply
  by (intro owned_kept [OF quiet_kept [OF sweeps_quiet(9)] sweep_abandoned_no_new]
      owned_kept [OF quiet_kept [OF sweeps_quiet(8)] sweep_failed_no_new] sweep_orphans_owned)

lemma first_stages_none_abandoned: "none_abandoned grace (fst (first_stages now grace d))"
  unfolding first_stages_def comp_apply by (rule sweep_abandoned_none)

definition align_rows :: "gdb \<Rightarrow> (hgate \<times> string \<times> bool) list" where
  "align_rows d = map (\<lambda>g. (g, text_of (map_option gj_status (gjob_of d (hg_job g))), headless_timed_out d (hg_job g)))
     (filter (inconsistent d) (gd_gates d))"

lemma align_rows_fst: "map fst (align_rows d) = filter (inconsistent d) (gd_gates d)"
  by (simp add: align_rows_def o_def)

lemma align_start:
  assumes "gates_ok d" "all_settled now d" "all_gated d" "all_owned d" "none_abandoned grace d"
  shows "align_inv now grace (align_rows d) d"
proof -
  have rows: "fst ` set (align_rows d) = {g \<in> set (gd_gates d). inconsistent d g}"
    using arg_cong [OF align_rows_fst, of set] by simp
  have "map (hg_job \<circ> fst) (align_rows d) = map hg_job (filter (inconsistent d) (gd_gates d))"
    by (simp only: map_map [symmetric] align_rows_fst)
  then have "distinct (map (hg_job \<circ> fst) (align_rows d))" using assms(1) by (simp add: gates_ok_def distinct_map_filter)
  moreover have "hg_job (fst r) \<in> hg_job ` set (gd_gates d) \<and> (\<exists>j. gjob_of d (hg_job (fst r)) = Some j \<and> gj_terminal j)"
    if "r \<in> set (align_rows d)" for r
  proof -
    have "fst r \<in> set (gd_gates d)" "inconsistent d (fst r)" using that rows by blast+
    then show ?thesis by (auto simp: inconsistent_def split: option.splits)
  qed
  moreover have "gate_good now grace d g \<or> hg_job g \<in> hg_job ` fst ` set (align_rows d)" if g: "g \<in> set (gd_gates d)" for g
  proof (cases "inconsistent d g")
    case True
    then show ?thesis unfolding rows using g by blast
  next
    case False
    have "hg_active g \<Longrightarrow> gate_job_live d g"
      using False g assms(4) by (auto simp: inconsistent_def gate_job_live_def all_owned_def split: option.splits)
    moreover have "\<not> hg_active g \<Longrightarrow> settled_closed now d g" using g assms(2) by (simp add: all_settled_def)
    ultimately show ?thesis using g assms(5) by (simp add: gate_good_def none_abandoned_def)
  qed
  ultimately show ?thesis using assms(3) by (simp add: align_inv_def)
qed

lemma reconcile_good:
  assumes "gates_ok d"
  shows "align_inv now grace [] (fst (reconcileHumanGates now grace d))"
proof -
  let ?st = "first_stages now grace d"
  have "gates_ok (fst ?st)" using first_stages_kept assms by (simp add: gates_kept_def)
  then have "align_inv now grace (align_rows (fst ?st)) (fst ?st)"
    by (rule align_start [OF _ first_stages_settled first_stages_gated first_stages_owned first_stages_none_abandoned])
  then show ?thesis
    unfolding reconcile_stages sweep_inconsistent_def Let_def align_rows_def [symmetric] by (rule align_fold_inv)
qed

text \<open>
  C15: No gate stays stuck. Whatever state crashed workers left the tables in, as long as they are well formed, one
  sweep leaves: every open gate beside a job that still waits for the answer; every gate that is being resolved with such a job
  whose lease has not lapsed; no job that waits, without a running lease, on a gate that is closed; and a gate for every question job
  that has not ended.
\<close>

theorem sweep_leaves_no_gate_stuck:
  assumes "gates_ok d" and "reconcileHumanGates now grace d = (d', s)"
  shows "list_all (\<lambda>g. case gjob_of d' (hg_job g) of None \<Rightarrow> \<not> hg_active g
      | Some j \<Rightarrow> if hg_active g then \<not> gj_terminal j \<and> (hg_state g = ''open'' \<or>
            gj_token j \<noteq> None \<and> (case gj_expires j of None \<Rightarrow> False | Some e \<Rightarrow> grace \<le> e))
          else gj_terminal j \<or> \<not> lease_gone_by now j) (gd_gates d') \<and>
    list_all (\<lambda>j. gj_human j \<and> \<not> gj_terminal j \<longrightarrow> getHumanGate (gj_id j) d' \<noteq> None) (gd_jobs d')"
proof -
  have inv: "align_inv now grace [] d'" using reconcile_good [OF assms(1), of now grace] assms(2) by simp
  have "case gjob_of d' (hg_job g) of None \<Rightarrow> \<not> hg_active g
      | Some j \<Rightarrow> if hg_active g then \<not> gj_terminal j \<and> (hg_state g = ''open'' \<or>
            gj_token j \<noteq> None \<and> (case gj_expires j of None \<Rightarrow> False | Some e \<Rightarrow> grace \<le> e))
          else gj_terminal j \<or> \<not> lease_gone_by now j" if "gate_good now grace d' g" for g
    using that by (auto simp: gate_good_def gate_job_live_def settled_closed_def abandoned_gate_def active_states split: option.splits if_splits)
  moreover have "getHumanGate (gj_id j) d' \<noteq> None" if "j \<in> set (gd_jobs d')" "gj_human j" "\<not> gj_terminal j" for j
    using inv that by (simp add: align_inv_def all_gated_def getHumanGate_None)
  ultimately show ?thesis using inv by (simp add: align_inv_def list_all_iff)
qed

section \<open>Repeated answers\<close>

text \<open>The gate of a claim, and of a completed one.\<close>

lemma claimed_gate:
  assumes ok: "gates_ok d" and b: "beginHumanGateResolution sha a grace d = (d1, Begin_claimed action key)"
  obtains g where "action = resolvedAction (ba_action a)" "action \<in> set (hg_actions g)"
    "key = humanGateIdempotencyKey sha (ba_gate a) (hg_generation g) action (ba_key a)" "gates_ok d1"
    "getHumanGate (ba_gate a) d1 = Some (claim_gate action key (ba_token a) g)" "hg_job g = ba_gate a"
proof (cases rule: begin_cases [of sha a grace d])
  case refused
  then show thesis using b refused(2) [of action key] by simp
next
  case (claimed g action' key' d0)
  have eq: "action' = action" "key' = key" using b claimed(9) by simp_all
  have ok1: "gates_ok d1" using begin_kept [of d sha a grace] ok b by (simp add: gates_kept_def)
  have g: "g \<in> set (gd_gates d0)" "hg_job g = ba_gate a"
    using getHumanGateD [OF claimed(1)] by (simp_all add: claimed(7) split: option.split)
  have "claim_gate action key (ba_token a) g \<in> set (gd_gates d1)"
    using b g claimed(2) unfolding claimed(9) eq by (auto simp: image_iff)
  moreover have "hg_job (claim_gate action key (ba_token a) g) = ba_gate a" using g(2) by (simp add: claim_gate_def)
  ultimately have "getHumanGate (ba_gate a) d1 = Some (claim_gate action key (ba_token a) g)" using getHumanGate_eq [OF ok1] by metis
  then show thesis using that claimed(3,4,5) ok1 g(2) unfolding eq by blast
qed

lemma completed_gate:
  assumes ok: "gates_ok d" and g: "getHumanGate i d = Some g" and c: "completeHumanGateResolution i token res now grace d = (d', Complete_done)"
  shows "gates_ok d'" "resolve_gate res now g \<in> set (gd_gates d')"
proof -
  show "gates_ok d'" using complete_kept [of d i token res now grace] ok c by (simp add: gates_kept_def)
  have st: "hg_state g = ''resolving''" "token_matches token g"
    and d': "d' = upd_gates (\<lambda>h. hg_job h = i \<and> hg_state h = ''resolving'' \<and> token_matches token h) (resolve_gate res now) d"
    using c g by (auto simp: completeHumanGateResolution_def token_matches_def split: if_splits)
  show "resolve_gate res now g \<in> set (gd_gates d')" using getHumanGateD [OF g] st by (auto simp: d' image_iff)
qed

text \<open>
  C18: Repeating an accepted answer is safe. After a claim was granted and completed, the same claim, repeated at any
  later time, returns the recorded gate with its action and resolution as a replay and changes nothing, whatever happened in
  between except the deletion of the gate's job; a claim of the same gate under another request key is refused and changes
  nothing either.
\<close>

theorem accepted_answer_is_replayed:
  assumes "gates_ok d" and "beginHumanGateResolution sha a grace d = (d1, Begin_claimed action key)"
    and "completeHumanGateResolution (ba_gate a) token res now grace1 d1 = (d2, Complete_done)"
    and "list_all (\<lambda>(now, grace, ev). ev \<noteq> EJobGone (ba_gate a)) es" and "d3 = fold (gate_step sha fp) es d2"
    and "ba_gate b = ba_gate a" "trimmed (ba_key b) \<noteq> []" "take 240 (trimmed (ba_key b)) \<noteq> key"
  shows "(\<exists>g. beginHumanGateResolution sha a grace3 d3 = (d3, Begin_replay g (Some action)) \<and> hg_job g = ba_gate a \<and>
      hg_state g = ''resolved'' \<and> hg_resolution g = Some res) \<and>
    (\<exists>r. beginHumanGateResolution sha b grace3 d3 = (d3, Begin_refused r))"
proof -
  obtain g where act: "action = resolvedAction (ba_action a)" "action \<in> set (hg_actions g)"
    and key: "key = humanGateIdempotencyKey sha (ba_gate a) (hg_generation g) action (ba_key a)" and ok1: "gates_ok d1"
    and get: "getHumanGate (ba_gate a) d1 = Some (claim_gate action key (ba_token a) g)" and job: "hg_job g = ba_gate a"
    by (rule claimed_gate [OF assms(1,2)])
  define r where "r = resolve_gate res now (claim_gate action key (ba_token a) g)"
  have r: "hg_job r = ba_gate a" "hg_state r = ''resolved''" "hg_key r = Some key" "hg_action r = Some action"
    "hg_actions r = hg_actions g" "hg_generation r = hg_generation g" "hg_resolution r = Some res"
    by (simp_all add: r_def resolve_gate_def claim_gate_def job)
  note fin = completed_gate [OF ok1 get assms(3), folded r_def]
  have "\<not> hg_active r" using r(2) by (simp add: active_states)
  then obtain h where h: "h \<in> set (gd_gates d3)" "same_gate r h"
    using closed_run [OF fin, of r es sha fp] assms(4) r(1) unfolding assms(5) same_gate_def by auto
  have same: "hg_job h = ba_gate a" "hg_state h = ''resolved''" "hg_key h = Some key" "hg_action h = Some action"
    "hg_actions h = hg_actions g" "hg_generation h = hg_generation g" "hg_resolution h = Some res"
    using h(2) r by (auto simp: same_gate_def)
  have "gates_ok d3" unfolding assms(5) by (rule human_gates.run_inv [OF fin(1)])
  from getHumanGate_eq [OF this h(1)] have get3: "getHumanGate (ba_gate a) d3 = Some h" by (simp only: same(1))
  have "beginHumanGateResolution sha a grace3 d3 = (d3, Begin_replay h (Some action))"
    using act(2) same by (simp add: beginHumanGateResolution_def get3 beginResolutionDecision_def act(1) [symmetric] key [symmetric])
  moreover have "\<exists>r. beginHumanGateResolution sha b grace3 d3 = (d3, Begin_refused r)"
    using assms(7,8) same(2,3)
    by (auto simp: beginHumanGateResolution_def assms(6) get3 beginResolutionDecision_def humanGateIdempotencyKey_def Let_def)
  ultimately show ?thesis using same(1,2,7) by blast
qed

theorem accepted_answer_is_replayed_witness:
  "let d = fold ex_step ex_later ex_resolved in
     fst (beginHumanGateResolution (\<lambda>s. s) (ex_begin ''k1'') 900 d) = d \<and>
     fst (beginHumanGateResolution (\<lambda>s. s) (ex_begin ''k2'') 900 d) = d"
proof -
  let ?d = "fold ex_step ex_later ex_resolved"
  have g: "ba_gate (ex_begin k) = 7" for k by (simp add: ex_begin_def)
  have 1: "list_all (\<lambda>(now, grace, ev). ev \<noteq> EJobGone (ba_gate (ex_begin ''k1''))) ex_later" by code_simp
  have 2: "trimmed (ba_key (ex_begin ''k2'')) \<noteq> []" by code_simp
  have 3: "take 240 (trimmed (ba_key (ex_begin ''k2''))) \<noteq> ''k1''" by code_simp
  have "ba_gate (ex_begin ''k2'') = ba_gate (ex_begin ''k1'')" by (simp add: g)
  from accepted_answer_is_replayed [OF ex_gates_ok(1) ex_claim ex_complete [folded g [of "''k1''"]] 1 refl this 2 3, where ?grace3.0 = 900]
  show ?thesis unfolding Let_def by (metis fst_conv)
qed

text \<open>The stages of one sweep that finds the worker of the claimed gate gone.\<close>

definition ex_sweep1 :: "gdb \<times> sweep" where
  "ex_sweep1 = sweep_drift 2000 (sweep_ended_wis 2000 (sweep_closed 2000 (ex_claimed, sweep_start)))"

definition ex_sweep2 :: "gdb \<times> sweep" where
  "ex_sweep2 = sweep_contracts (sweep_unregistered 2000 (sweep_lost 2000 ex_sweep1))"

definition ex_sweep3 :: "gdb \<times> sweep" where
  "ex_sweep3 = sweep_abandoned 2000 1500 (sweep_failed 2000 (sweep_orphans 2000 ex_sweep2))"

definition ex_swept :: "gdb \<times> sweep" where
  "ex_swept = sweep_inconsistent 2000 ex_sweep3"

lemma ex_sweep: "reconcileHumanGates 2000 1500 ex_claimed = ex_swept"
  by (simp add: reconcileHumanGates_def ex_swept_def ex_sweep3_def ex_sweep2_def ex_sweep1_def)

theorem sweep_leaves_no_gate_stuck_witness:
  "getHumanGate 7 (fst ex_swept) \<noteq> None \<and> map hg_state (gd_gates (fst ex_swept)) = [''open''] \<and>
     map hg_state (gd_gates ex_claimed) = [''resolving'']"
proof -
  let ?d = "fst ex_swept"
  have ok: "gates_ok ex_claimed" by code_simp
  have "reconcileHumanGates 2000 1500 ex_claimed = (?d, snd ex_swept)" by (simp add: ex_sweep)
  from sweep_leaves_no_gate_stuck [OF ok this]
  have all: "\<forall>j \<in> set (gd_jobs ?d). gj_human j \<and> \<not> gj_terminal j \<longrightarrow> getHumanGate (gj_id j) ?d \<noteq> None"
    unfolding list_all_iff by (rule conjunct2)
  have j: "list_ex (\<lambda>j. gj_human j \<and> \<not> gj_terminal j \<and> gj_id j = 7) (gd_jobs ?d)" by code_simp
  obtain x where x: "x \<in> set (gd_jobs ?d)" "gj_human x \<and> \<not> gj_terminal x" "gj_id x = 7" using j unfolding list_ex_iff by blast
  have "getHumanGate 7 ?d \<noteq> None" using all [rule_format, OF x(1,2)] unfolding x(3) .
  moreover have "map hg_state (gd_gates ?d) = [''open'']" by code_simp
  moreover have "map hg_state (gd_gates ex_claimed) = [''resolving'']" by code_simp
  ultimately show ?thesis by (simp only: simp_thms)
qed


end
