(* ===== verification/WorkItemStatus.thy ===== *)
theory WorkItemStatus
  imports HumanGates
begin

text \<open>
  The state of work items (\<open>domains/queue/functions/queue-store.js\<close>, with \<open>job-recovery-graph.js\<close> and
  \<open>work-item-execution-contract.js\<close>): how a work item's status follows from its jobs, what a status change may do, when a work item
  counts as complete, and how its merge state moves.

  A payload and the metadata of a work item are kept as the fields that are read, already parsed; a field that names a job is
  the number it holds (\<open>None\<close> when it is absent or zero). \<open>sw_needs_repo\<close> is the value of \<open>requiresRepositoryExecution\<close> on the
  text and the intake hints of the work item, which reads them by word patterns that are not modelled. Times are text; rows are
  in the order in which they were created, and ids are unique. The tables that a status change touches elsewhere (file locks,
  merge dependencies, session lanes) and the events are left out; of the events, only those that say that a work item was merged
  or reopened are kept, as they are read back. What opens and settles other gates is an argument, the record \<open>hooks\<close>.
\<close>

section \<open>Tables\<close>

record hold =
  ho_released :: bool
  ho_canceled_with :: bool

record spay =
  sp_shadow :: bool
  sp_role :: "string option"
  sp_subtype :: "string option"
  sp_review_type :: "string option"
  sp_merge_recovery :: bool
  sp_task_mode :: "string option"
  sp_hold :: "hold option"
  sp_original :: "int option"
  sp_recovers :: "int option list"

record sjob =
  sj_id :: nat
  sj_wi :: nat
  sj_type :: string
  sj_status :: string
  sj_parent :: "nat option"
  sj_version :: nat
  sj_owner :: "string option"
  sj_token :: "string option"
  sj_expires :: "string option"
  sj_started :: "string option"
  sj_finished :: "string option"
  sj_error :: "string option"
  sj_verdict :: string
  sj_assess :: string
  sj_assess_error :: "string option"
  sj_assess_done :: "string option"
  sj_pay :: spay

record sgate =
  sg_job :: nat
  sg_original :: "nat option"
  sg_state :: string
  sg_action :: "string option"
  sg_token :: "string option"
  sg_error :: "string option"
  sg_resolved :: "string option"

record smeta =
  sm_mode :: "string option"
  sm_workflow :: "string option"
  sm_iterate :: bool
  sm_inactive :: bool
  sm_output :: "string option"
  sm_output_source :: "string option"

record swi =
  sw_id :: nat
  sw_status :: string
  sw_branch :: "string option"
  sw_merge :: "string option"
  sw_mode :: string
  sw_source :: "string option"
  sw_meta :: smeta
  sw_needs_repo :: bool
  sw_started :: "string option"
  sw_completed :: "string option"

text \<open>The events are pairs of a work item and whether it was merged (or reopened), in the order of their ids.\<close>

record sdb =
  sd_wis :: "swi list"
  sd_jobs :: "sjob list"
  sd_gates :: "sgate list"
  sd_merges :: "(nat \<times> bool) list"

text \<open>
  What the operations call beside: \<open>abandonScopeRequestForCanceledGate\<close>, \<open>openPostMergeDbGates\<close>,
  \<open>settleCrossWiUpstreamDispositionGatesForSource\<close>, \<open>openWorkItemDispositionGatesForTransition\<close>,
  \<open>holdForMergeVerificationReview\<close> (with whether it holds the merge), the recovery gate of \<open>markWorkItemMergeFailed\<close> and what \<open>requeueWorkItemAfterRejection\<close> makes of the jobs; and what they ask:
  \<open>hasRecordedReviewResolution\<close>, \<open>pendingCrossWiMergeUpstreamIds\<close> (theory \<open>CrossWiDeps\<close>) and \<open>findMergeHoldingGate\<close> (theory
  \<open>WorkItemParking\<close>).
\<close>

record hooks =
  hk_canceled :: "sjob \<Rightarrow> sdb \<Rightarrow> sdb"
  hk_post_merge :: "nat \<Rightarrow> sjob list \<Rightarrow> sdb \<Rightarrow> sdb"
  hk_upstream :: "nat \<Rightarrow> sdb \<Rightarrow> sdb"
  hk_disposition :: "nat \<Rightarrow> string \<Rightarrow> sdb \<Rightarrow> sdb"
  hk_review :: "swi \<Rightarrow> sdb \<Rightarrow> sdb \<times> bool"
  hk_failure :: "nat \<Rightarrow> sdb \<Rightarrow> sdb"
  hk_rework :: "nat \<Rightarrow> nat list \<Rightarrow> sdb \<Rightarrow> sdb"
  hk_upstreams :: "swi \<Rightarrow> sdb \<Rightarrow> nat list"
  hk_holding :: "nat \<Rightarrow> sdb \<Rightarrow> bool"
  hk_recorded :: "sjob \<Rightarrow> sdb \<Rightarrow> bool"

definition getWorkItem :: "nat \<Rightarrow> sdb \<Rightarrow> swi option" where
  "getWorkItem i d = find (\<lambda>w. sw_id w = i) (sd_wis d)"

definition getJob :: "nat \<Rightarrow> sdb \<Rightarrow> sjob option" where
  "getJob i d = find (\<lambda>j. sj_id j = i) (sd_jobs d)"

definition listJobsByWorkItem :: "nat \<Rightarrow> sdb \<Rightarrow> sjob list" where
  "listJobsByWorkItem w d = filter (\<lambda>j. sj_wi j = w) (sd_jobs d)"

definition upd_swi :: "nat \<Rightarrow> (swi \<Rightarrow> swi) \<Rightarrow> sdb \<Rightarrow> sdb" where
  "upd_swi i f d = d\<lparr>sd_wis := map (\<lambda>w. if sw_id w = i then f w else w) (sd_wis d)\<rparr>"

definition upd_sjob :: "(sjob \<Rightarrow> bool) \<Rightarrow> (sjob \<Rightarrow> sjob) \<Rightarrow> sdb \<Rightarrow> sdb" where
  "upd_sjob P f d = d\<lparr>sd_jobs := map (\<lambda>j. if P j then f j else j) (sd_jobs d)\<rparr>"

definition upd_sgate :: "(sgate \<Rightarrow> bool) \<Rightarrow> (sgate \<Rightarrow> sgate) \<Rightarrow> sdb \<Rightarrow> sdb" where
  "upd_sgate P f d = d\<lparr>sd_gates := map (\<lambda>g. if P g then f g else g) (sd_gates d)\<rparr>"

definition job_ended :: "sjob \<Rightarrow> bool" where
  "job_ended j \<longleftrightarrow> sj_status j \<in> set TERMINAL_JOB_STATUSES"

section \<open>Kinds of jobs\<close>

definition PIPELINE_BOOTSTRAP_JOB_TYPES :: "string list" where
  "PIPELINE_BOOTSTRAP_JOB_TYPES = [''preflight'', ''research'', ''plan'']"

definition NON_COMPLETION_BLOCKING_JOB_TYPES :: "string list" where
  "NON_COMPLETION_BLOCKING_JOB_TYPES = [''atlas_warm'', ''waiting_lane_prepare'']"

definition isShadowFanoutJob :: "sjob \<Rightarrow> bool" where
  "isShadowFanoutJob j \<longleftrightarrow> sp_shadow (sj_pay j) \<and> sp_role (sj_pay j) \<in> {Some ''child'', Some ''synth''}"

definition isPushOfferJob :: "sjob \<Rightarrow> bool" where
  "isPushOfferJob j \<longleftrightarrow> sj_type j = ''human_input'' \<and> sp_subtype (sj_pay j) = Some ''push_offer''"

definition isMergeVerificationReviewJob :: "sjob \<Rightarrow> bool" where
  "isMergeVerificationReviewJob j \<longleftrightarrow> sj_type j = ''human_input'' \<and> sp_review_type (sj_pay j) = Some ''merge_verification_review''"

definition isMergeFailureRecoveryPayload :: "spay \<Rightarrow> bool" where
  "isMergeFailureRecoveryPayload p \<longleftrightarrow> sp_review_type p = Some ''merge_failure_recovery'' \<or>
     sp_review_type p = Some ''merge_verification_review'' \<and> sp_merge_recovery p"

definition isPostCompletionGateJob :: "sjob \<Rightarrow> bool" where
  "isPostCompletionGateJob j \<longleftrightarrow> isPushOfferJob j \<or> isMergeVerificationReviewJob j \<or>
     sj_type j = ''human_input'' \<and> isMergeFailureRecoveryPayload (sj_pay j)"

definition isWorkItemDispositionGateJob :: "sjob \<Rightarrow> bool" where
  "isWorkItemDispositionGateJob j \<longleftrightarrow> sj_type j = ''human_input'' \<and> text_of (sp_review_type (sj_pay j)) \<in> set WORK_ITEM_DISPOSITION_REVIEW_TYPES"

definition isDbTaskJob :: "sjob \<Rightarrow> bool" where
  "isDbTaskJob j \<longleftrightarrow> sj_type j = ''dev'' \<and> sp_task_mode (sj_pay j) = Some ''db''"

definition isPostMergeHeldDbJob :: "sjob \<Rightarrow> bool" where
  "isPostMergeHeldDbJob j \<longleftrightarrow> sj_status j = ''waiting_on_human'' \<and> isDbTaskJob j \<and>
     (case sp_hold (sj_pay j) of None \<Rightarrow> False | Some h \<Rightarrow> \<not> ho_released h)"

definition isPostMergeDbGateJob :: "sjob \<Rightarrow> bool" where
  "isPostMergeDbGateJob j \<longleftrightarrow> sj_type j = ''human_input'' \<and> sp_review_type (sj_pay j) = Some ''post_merge_db_task''"

definition isPostMergeDbTaskJob :: "sjob \<Rightarrow> bool" where
  "isPostMergeDbTaskJob j \<longleftrightarrow> isPostMergeDbGateJob j \<or> isDbTaskJob j \<and> sp_hold (sj_pay j) \<noteq> None"

text \<open>The jobs that a work item's status is computed from, and those that its completion waits for.\<close>

definition state_relevant :: "sjob \<Rightarrow> bool" where
  "state_relevant j \<longleftrightarrow> \<not> isShadowFanoutJob j \<and> \<not> isPostCompletionGateJob j \<and> \<not> isPostMergeHeldDbJob j \<and> \<not> isWorkItemDispositionGateJob j"

definition completion_relevant :: "sjob \<Rightarrow> bool" where
  "completion_relevant j \<longleftrightarrow> state_relevant j \<and> sj_type j \<notin> set NON_COMPLETION_BLOCKING_JOB_TYPES"

section \<open>Recovery\<close>

text \<open>The jobs that a job recovers: its parent and the originals its payload names.\<close>

definition original_ids :: "sjob \<Rightarrow> nat list" where
  "original_ids j = js_unique (map nat (filter (\<lambda>i. 0 < i \<and> i < 2 ^ 53 \<and> i \<noteq> int (sj_id j))
     (List.map_filter id (map_option int (sj_parent j) # sp_recovers (sj_pay j)))))"

text \<open>The map from an original to the jobs that recover it; an absent key is the empty list.\<close>

definition buildJobRecoveryGraph :: "sjob list \<Rightarrow> nat \<Rightarrow> sjob list" where
  "buildJobRecoveryGraph jobs = foldl (\<lambda>m j. foldl (\<lambda>m i. m(i := m i @ [j])) m (original_ids j)) (\<lambda>_. []) jobs"

definition recovery_succeeded :: "sjob \<Rightarrow> bool" where
  "recovery_succeeded j \<longleftrightarrow> sj_status j = ''succeeded'' \<and> sj_type j \<noteq> ''human_input''"

lemma graph_of: "buildJobRecoveryGraph jobs i = filter (\<lambda>j. i \<in> set (original_ids j)) jobs"
proof -
  have one: "foldl (\<lambda>m i. m(i := m i @ [j])) m ids i = (if i \<in> set ids then m i @ [j] else m i)" if "distinct ids" for m j ids
    using that by (induction ids arbitrary: m) auto
  have d: "distinct (original_ids j)" for j by (simp add: original_ids_def js_unique_simps)
  have "foldl (\<lambda>m j. foldl (\<lambda>m i. m(i := m i @ [j])) m (original_ids j)) m jobs i = m i @ filter (\<lambda>j. i \<in> set (original_ids j)) jobs" for m
    by (induction jobs arbitrary: m) (simp_all add: one [OF d])
  then show ?thesis by (simp add: buildJobRecoveryGraph_def)
qed

text \<open>The search of \<open>hasSucceededRecoveryDescendant\<close>; the stack's last element, the next one popped, comes first.\<close>

function recovery_search :: "sjob list \<Rightarrow> sjob list \<Rightarrow> nat list \<Rightarrow> bool" where
  "recovery_search jobs [] seen = False"
| "recovery_search jobs (j # stack) seen =
     (if sj_id j \<in> set seen then recovery_search jobs stack seen
      else if recovery_succeeded j then True
      else recovery_search jobs (rev (buildJobRecoveryGraph jobs (sj_id j)) @ stack) (sj_id j # seen))"
  by pat_completeness auto

definition search_left :: "sjob list \<Rightarrow> sjob list \<Rightarrow> nat list \<Rightarrow> nat" where
  "search_left jobs stack seen = card (sj_id ` (set jobs \<union> set stack) - set seen)"

lemma search_left_skip: "search_left jobs stack seen \<le> search_left jobs (j # stack) seen"
  unfolding search_left_def by (rule card_mono) auto

lemma search_left_push:
  assumes "sj_id j \<notin> set seen"
  shows "search_left jobs (rev (buildJobRecoveryGraph jobs (sj_id j)) @ stack) (sj_id j # seen) < search_left jobs (j # stack) seen"
  unfolding search_left_def by (rule psubset_card_mono) (use assms in \<open>auto simp: graph_of\<close>)

termination recovery_search
proof (relation "measures [\<lambda>(jobs, stack, seen). search_left jobs stack seen, \<lambda>(jobs, stack, seen). length stack]", goal_cases)
  case (2 jobs j stack seen)
  then show ?case using search_left_skip [of jobs stack seen j] by auto
next
  case (3 jobs j stack seen)
  then show ?case using search_left_push [of j seen jobs stack] by simp
qed simp

definition hasSucceededRecoveryDescendant :: "nat \<Rightarrow> sjob list \<Rightarrow> bool" where
  "hasSucceededRecoveryDescendant i jobs = recovery_search jobs (rev (buildJobRecoveryGraph jobs i)) [i]"

section \<open>Completion\<close>

definition resolved_job :: "sjob list \<Rightarrow> sjob \<Rightarrow> bool" where
  "resolved_job jobs j \<longleftrightarrow> sj_status j = ''succeeded'' \<or> sj_status j = ''canceled'' \<or>
     (sj_status j = ''failed'' \<or> sj_status j = ''dead_letter'') \<and> hasSucceededRecoveryDescendant (sj_id j) jobs"

definition completionBlockersForWorkItem :: "nat \<Rightarrow> sdb \<Rightarrow> sjob list" where
  "completionBlockersForWorkItem w d =
     (let jobs = filter completion_relevant (listJobsByWorkItem w d) in filter (\<lambda>j. \<not> resolved_job jobs j) jobs)"

definition norm_word :: "string option \<Rightarrow> string" where
  "norm_word v = lower_text (trimmed v)"

definition isExplicitResearchOnlyWorkItem :: "swi \<Rightarrow> bool" where
  "isExplicitResearchOnlyWorkItem w \<longleftrightarrow> sw_mode w = ''report'' \<or> sw_source w = Some ''ask'' \<or>
     norm_word (sm_mode (sw_meta w)) = ''question'' \<or> norm_word (sm_workflow (sw_meta w)) = ''audit'' \<or>
     norm_word (sm_output (sw_meta w)) = ''question_only'' \<and>
       (norm_word (sm_output_source (sw_meta w)) = [] \<or> norm_word (sm_output_source (sw_meta w)) = ''explicit'')"

definition bootstrap_job :: "sjob \<Rightarrow> bool" where
  "bootstrap_job j \<longleftrightarrow> sj_type j \<in> set PIPELINE_BOOTSTRAP_JOB_TYPES"

definition missingRequiredBuildExecution :: "swi \<Rightarrow> sjob list \<Rightarrow> bool" where
  "missingRequiredBuildExecution w jobs \<longleftrightarrow> sw_mode w = ''build'' \<and> \<not> isExplicitResearchOnlyWorkItem w \<and>
     list_ex bootstrap_job jobs \<and> \<not> list_ex (\<lambda>j. sj_type j \<in> set MUTATING_JOB_TYPES) jobs"

definition jobProducesRepositoryOutput :: "sjob \<Rightarrow> bool" where
  "jobProducesRepositoryOutput j \<longleftrightarrow> sj_type j = ''promote'' \<or> (sj_type j = ''dev'' \<or> sj_type j = ''fix'') \<and>
     (let mode = (case sp_task_mode (sj_pay j) of None \<Rightarrow> ''code'' | Some s \<Rightarrow> if s = [] then ''code'' else lower_text (js_trim s))
      in mode = ''code'' \<or> mode = ''db'')"

definition missingRequiredRepoExecution :: "swi \<Rightarrow> sjob list \<Rightarrow> bool" where
  "missingRequiredRepoExecution w jobs \<longleftrightarrow> \<not> isExplicitResearchOnlyWorkItem w \<and> list_ex bootstrap_job jobs \<and> sw_needs_repo w \<and>
     \<not> list_ex jobProducesRepositoryOutput jobs"

definition missingExecutionReason :: "swi \<Rightarrow> sjob list \<Rightarrow> string option" where
  "missingExecutionReason w jobs =
     (if missingRequiredRepoExecution w jobs then Some ''missing_required_repo_execution''
      else if missingRequiredBuildExecution w jobs then Some ''missing_required_build_execution'' else None)"

definition isActiveIterativeWorkItemRecord :: "swi \<Rightarrow> bool" where
  "isActiveIterativeWorkItemRecord w \<longleftrightarrow> (sm_iterate (sw_meta w) \<or> text_of (sm_workflow (sw_meta w)) \<noteq> []) \<and> \<not> sm_inactive (sw_meta w)"

text \<open>A merge is evidence until the work item is reopened after it.\<close>

definition effectiveMergedEvidence :: "sdb \<Rightarrow> swi \<Rightarrow> bool" where
  "effectiveMergedEvidence d w \<longleftrightarrow> sw_merge w = Some ''merged'' \<or>
     (let own = map snd (filter (\<lambda>e. fst e = sw_id w) (sd_merges d)) in own \<noteq> [] \<and> last own)"

section \<open>Status of a job\<close>

definition status_row :: "string \<Rightarrow> string \<Rightarrow> sjob \<Rightarrow> sjob" where
  "status_row status ts j =
     (let keep = status \<in> set LEASE_HOLDING_STATUSES in
      j\<lparr>sj_status := status, sj_error := (if status = ''succeeded'' then None else sj_error j), sj_version := Suc (sj_version j),
        sj_started := (if status = ''running'' then Some ts else sj_started j),
        sj_finished := (if status \<in> set TERMINAL_JOB_STATUSES then Some ts else None),
        sj_owner := (if keep then sj_owner j else None), sj_token := (if keep then sj_token j else None),
        sj_expires := (if keep then sj_expires j else None)\<rparr>)"

definition close_gate :: "string \<Rightarrow> string \<Rightarrow> sgate \<Rightarrow> sgate" where
  "close_gate st ts g = g\<lparr>sg_state := st, sg_token := None, sg_error := None, sg_resolved := coalesce (sg_resolved g) ts\<rparr>"

definition active_gate_of :: "nat \<Rightarrow> sgate \<Rightarrow> bool" where
  "active_gate_of i g \<longleftrightarrow> sg_job g = i \<and> sg_state g \<in> set ACTIVE_GATE_STATES"

text \<open>\<open>WHERE id = ? AND ..\<close>; no expected states stand for all.\<close>

definition status_match :: "nat \<Rightarrow> string list \<Rightarrow> string option \<Rightarrow> bool \<Rightarrow> sjob \<Rightarrow> bool" where
  "status_match i expected token force j \<longleftrightarrow> sj_id j = i \<and> (force \<or> sj_token j = token) \<and> (expected = [] \<or> sj_status j \<in> set expected)"

definition updateJobStatus :: "hooks \<Rightarrow> string \<Rightarrow> nat \<Rightarrow> string \<Rightarrow> string list \<Rightarrow> string option \<Rightarrow> bool \<Rightarrow> sdb \<Rightarrow> sdb \<times> bool" where
  "updateJobStatus hk ts i status expected token force d =
     (if \<not> list_ex (status_match i expected token force) (sd_jobs d) then (d, False)
      else let d1 = upd_sjob (status_match i expected token force) (status_row status ts) d in
        case getJob i d1 of None \<Rightarrow> (d1, True) | Some j \<Rightarrow>
          if sj_type j = ''human_input'' \<and> status = ''succeeded'' then (upd_sgate (active_gate_of i) (close_gate ''resolved'' ts) d1, True)
          else if sj_type j = ''human_input'' \<and> status = ''canceled''
          then (hk_canceled hk j (upd_sgate (active_gate_of i) (close_gate ''superseded'' ts) d1), True)
          else (d1, True))"

abbreviation forceUpdateJobStatus :: "hooks \<Rightarrow> string \<Rightarrow> nat \<Rightarrow> string \<Rightarrow> string list \<Rightarrow> sdb \<Rightarrow> sdb \<times> bool" where
  "forceUpdateJobStatus hk ts i status expected \<equiv> updateJobStatus hk ts i status expected None True"

text \<open>\<open>setAssessmentLifecycle\<close> as it is called here.\<close>

definition waive_assessment :: "string \<Rightarrow> nat \<Rightarrow> sdb \<Rightarrow> sdb" where
  "waive_assessment ts i d = upd_sjob (\<lambda>j. sj_id j = i)
     (\<lambda>j. j\<lparr>sj_assess := ''assessment_waived'', sj_assess_error := None, sj_assess_done := Some ts, sj_version := Suc (sj_version j)\<rparr>) d"

section \<open>Settling reviews\<close>

definition reviewGateOriginalJobId :: "sjob \<Rightarrow> nat option" where
  "reviewGateOriginalJobId j = (if sj_type j \<noteq> ''human_input'' \<or> isPushOfferJob j \<or> trimmed (sp_review_type (sj_pay j)) = [] then None
     else case sp_original (sj_pay j) of None \<Rightarrow> None | Some i \<Rightarrow> if 0 < i then Some (nat i) else None)"

definition reviewGateNeedsRetirement :: "sjob \<Rightarrow> bool" where
  "reviewGateNeedsRetirement j \<longleftrightarrow> sj_status j \<notin> {''succeeded'', ''canceled''}"

definition REVIEW_SETTLEMENT_ORIGINAL_STATUSES :: "string list" where
  "REVIEW_SETTLEMENT_ORIGINAL_STATUSES = [''waiting_on_human'', ''waiting_on_review'', ''blocked'', ''awaiting_assessment'']"

definition TERMINAL_REVIEW_ASSESSMENT_STATES :: "string list" where
  "TERMINAL_REVIEW_ASSESSMENT_STATES = [''assessment_waived'', ''assessment_failed'']"

definition workItemApprovalGateOriginalJobId :: "sjob \<Rightarrow> nat option" where
  "workItemApprovalGateOriginalJobId j = (if sj_type j \<noteq> ''human_input'' then None
     else case first_given (sp_original (sj_pay j)) (map_option int (sj_parent j)) of None \<Rightarrow> None
       | Some i \<Rightarrow> if 0 < i then Some (nat i) else None)"

definition canRetireHumanGateForWorkItemApproval :: "sjob \<Rightarrow> bool" where
  "canRetireHumanGateForWorkItemApproval j \<longleftrightarrow> sj_type j = ''human_input'' \<and> \<not> isPushOfferJob j \<and>
     sp_subtype (sj_pay j) \<noteq> Some ''plan_approval'' \<and>
     sp_subtype (sj_pay j) \<noteq> Some ''one_shot_file_scope'' \<and> sp_review_type (sj_pay j) \<noteq> Some ''one_shot_file_scope'' \<and>
     reviewGateNeedsRetirement j"

text \<open>The originals and the gates that an approval of the work item settles.\<close>

record review_plan =
  rp_originals :: "sjob list"
  rp_gates :: "sjob list"

definition pendingWorkItemReviewSettlement :: "nat \<Rightarrow> sdb \<Rightarrow> review_plan" where
  "pendingWorkItemReviewSettlement w d =
     (let jobs = listJobsByWorkItem w d;
          gates = filter canRetireHumanGateForWorkItemApproval jobs;
          referenced = List.map_filter workItemApprovalGateOriginalJobId gates
      in \<lparr>rp_originals = filter (\<lambda>j. sj_type j \<noteq> ''human_input'' \<and> (sj_status j = ''waiting_on_review'' \<or>
            sj_id j \<in> set referenced \<and> (sj_status j \<in> set REVIEW_SETTLEMENT_ORIGINAL_STATUSES \<or> sj_verdict j = ''needs_review''))) jobs,
          rp_gates = gates\<rparr>)"

definition retire_review_gate :: "hooks \<Rightarrow> string \<Rightarrow> sjob \<Rightarrow> sdb \<Rightarrow> sdb" where
  "retire_review_gate hk ts j d =
     (if reviewGateNeedsRetirement j then fst (forceUpdateJobStatus hk ts (sj_id j) ''canceled'' [sj_status j] d) else d)"

definition settle_original :: "hooks \<Rightarrow> string \<Rightarrow> sjob \<Rightarrow> sdb \<Rightarrow> sdb" where
  "settle_original hk ts j d =
     (let d1 = (if sj_status j \<in> set REVIEW_SETTLEMENT_ORIGINAL_STATUSES
                then fst (forceUpdateJobStatus hk ts (sj_id j) ''succeeded'' [sj_status j] d) else d)
      in if sj_verdict j = ''needs_review'' \<and> sj_assess j \<notin> set TERMINAL_REVIEW_ASSESSMENT_STATES
         then waive_assessment ts (sj_id j) d1 else d1)"

definition settleWorkItemReviewPlan :: "hooks \<Rightarrow> string \<Rightarrow> review_plan \<Rightarrow> sdb \<Rightarrow> sdb" where
  "settleWorkItemReviewPlan hk ts plan d = fold (settle_original hk ts) (rp_originals plan) (fold (retire_review_gate hk ts) (rp_gates plan) d)"

definition merged_review_plan :: "hooks \<Rightarrow> sjob list \<Rightarrow> sdb \<Rightarrow> review_plan" where
  "merged_review_plan hk jobs d = \<lparr>rp_originals = filter (\<lambda>j. sj_type j \<noteq> ''human_input'' \<and>
       (sj_status j = ''waiting_on_review'' \<or> sj_verdict j = ''needs_review'' \<and> \<not> hk_recorded hk j d)) jobs,
     rp_gates = filter (\<lambda>j. reviewGateNeedsRetirement j \<and> reviewGateOriginalJobId j \<noteq> None \<and> \<not> isPostMergeDbGateJob j) jobs\<rparr>"

text \<open>Work that a merge makes stale: what remains unfinished, but not what the merge itself waits for or opens.\<close>

definition cancel_stale :: "hooks \<Rightarrow> string \<Rightarrow> nat list \<Rightarrow> sjob \<Rightarrow> sdb \<Rightarrow> sdb" where
  "cancel_stale hk ts settled j d =
     (if sj_id j \<in> set settled \<or> job_ended j \<or> sj_type j \<in> set NON_COMPLETION_BLOCKING_JOB_TYPES \<or> isPushOfferJob j \<or>
        isPostMergeDbTaskJob j \<or>
        sj_type j = ''human_input'' \<and> list_ex (\<lambda>g. sg_job g = sj_id j \<and> sg_state g = ''resolving'') (sd_gates d)
      then d else fst (forceUpdateJobStatus hk ts (sj_id j) ''canceled'' [sj_status j] d))"

definition settleMergedWorkItemReviewJobs :: "hooks \<Rightarrow> string \<Rightarrow> nat \<Rightarrow> sdb \<Rightarrow> sdb" where
  "settleMergedWorkItemReviewJobs hk ts w d =
     (let jobs = listJobsByWorkItem w d;
          plan = merged_review_plan hk jobs d;
          settled = map sj_id (rp_originals plan) @ map sj_id (rp_gates plan)
      in hk_post_merge hk w jobs (fold (cancel_stale hk ts settled) jobs (settleWorkItemReviewPlan hk ts plan d)))"

definition setMergeState :: "hooks \<Rightarrow> string \<Rightarrow> nat \<Rightarrow> string option \<Rightarrow> sdb \<Rightarrow> sdb" where
  "setMergeState hk ts w ms d =
     (let d1 = upd_swi w (\<lambda>x. x\<lparr>sw_merge := ms\<rparr>) d
      in if ms = Some ''merged'' then hk_upstream hk w (settleMergedWorkItemReviewJobs hk ts w d1) else d1)"

section \<open>Status of a work item\<close>

definition cancelHeldPostMergeDbTasksForWorkItem :: "hooks \<Rightarrow> string \<Rightarrow> nat \<Rightarrow> sdb \<Rightarrow> sdb" where
  "cancelHeldPostMergeDbTasksForWorkItem hk ts w d = fold (\<lambda>j d.
       case forceUpdateJobStatus hk ts (sj_id j) ''canceled'' [''waiting_on_human''] d of (d1, ok) \<Rightarrow>
         if ok then upd_sjob (\<lambda>x. sj_id x = sj_id j) (\<lambda>x. x\<lparr>sj_pay := (sj_pay x)\<lparr>sp_hold :=
             Some ((case sp_hold (sj_pay x) of None \<Rightarrow> \<lparr>ho_released = False, ho_canceled_with = False\<rparr> | Some h \<Rightarrow> h)\<lparr>ho_canceled_with := True\<rparr>)\<rparr>\<rparr>) d1
         else d1)
     (filter isPostMergeHeldDbJob (listJobsByWorkItem w d)) d"

definition cancelInactiveWorkItemJobs :: "hooks \<Rightarrow> string \<Rightarrow> nat \<Rightarrow> nat list \<Rightarrow> sdb \<Rightarrow> sdb" where
  "cancelInactiveWorkItemJobs hk ts w preserve d = fold (\<lambda>j d.
       if job_ended j \<or> sj_status j \<in> set ACTIVE_LEASE_STATUSES \<or> sj_id j \<in> set preserve then d
       else fst (forceUpdateJobStatus hk ts (sj_id j) ''canceled'' [sj_status j] d)) (listJobsByWorkItem w d) d"

record readiness =
  rd_ok :: bool
  rd_reason :: "string option"
  rd_plan :: "review_plan option"
  rd_blockers :: "sjob list"

text \<open>\<open>completionReadinessForWorkItem\<close>; \<open>rd_blockers\<close> are the effective ones.\<close>

definition completionReadinessForWorkItem :: "nat \<Rightarrow> swi option \<Rightarrow> bool \<Rightarrow> bool \<Rightarrow> sdb \<Rightarrow> readiness" where
  "completionReadinessForWorkItem w current allowFailed resolveReviews d = (case current of
       None \<Rightarrow> \<lparr>rd_ok = False, rd_reason = Some ''no_such_wi'', rd_plan = None, rd_blockers = []\<rparr>
     | Some wi \<Rightarrow> (case missingExecutionReason wi (filter (\<lambda>j. \<not> isShadowFanoutJob j) (listJobsByWorkItem w d)) of
         Some why \<Rightarrow> \<lparr>rd_ok = False, rd_reason = Some why, rd_plan = None, rd_blockers = []\<rparr>
       | None \<Rightarrow>
         let plan = (if resolveReviews then Some (pendingWorkItemReviewSettlement w d) else None);
             resolvable = (case plan of None \<Rightarrow> [] | Some p \<Rightarrow> map sj_id (rp_originals p) @ map sj_id (rp_gates p));
             b1 = (if allowFailed then filter (\<lambda>j. sj_status j \<notin> set FAILED_JOB_STATUSES) (completionBlockersForWorkItem w d)
                   else completionBlockersForWorkItem w d);
             b2 = (if resolveReviews then filter (\<lambda>j. sj_id j \<notin> set resolvable) b1 else b1)
         in \<lparr>rd_ok = (b2 = []), rd_reason = (if b2 = [] then None else Some ''unresolved_required_jobs''), rd_plan = plan, rd_blockers = b2\<rparr>))"

definition canCompleteWorkItem :: "nat \<Rightarrow> bool \<Rightarrow> bool \<Rightarrow> sdb \<Rightarrow> bool" where
  "canCompleteWorkItem w allowFailed resolveReviews d = rd_ok (completionReadinessForWorkItem w (getWorkItem w d) allowFailed resolveReviews d)"

definition wi_ended :: "string \<Rightarrow> bool" where
  "wi_ended status \<longleftrightarrow> status \<in> set TERMINAL_WORK_ITEM_STATUSES"

definition has_branch :: "swi \<Rightarrow> bool" where
  "has_branch w \<longleftrightarrow> text_of (sw_branch w) \<noteq> []"

definition wi_status_row :: "string \<Rightarrow> string \<Rightarrow> swi \<Rightarrow> swi" where
  "wi_status_row status ts w = w\<lparr>sw_status := status,
     sw_started := (case sw_started w of None \<Rightarrow> if status = ''running'' \<or> status = ''planning'' then Some ts else None | Some t \<Rightarrow> Some t),
     sw_completed := (if wi_ended status then Some ts else None)\<rparr>"

text \<open>The part of the change after it has been accepted, from the state in which reviews are settled.\<close>

definition wi_change :: "hooks \<Rightarrow> string \<Rightarrow> nat \<Rightarrow> string \<Rightarrow> swi \<Rightarrow> bool \<Rightarrow> nat list \<Rightarrow> sdb \<Rightarrow> sdb" where
  "wi_change hk ts i status current merged preserve d =
     (let d1 = (if (status = ''failed'' \<or> status = ''canceled'') \<and> sw_status current \<noteq> status
                then cancelHeldPostMergeDbTasksForWorkItem hk ts i d else d);
          d2 = (if status = ''canceled'' then cancelInactiveWorkItemJobs hk ts i preserve d1 else d1);
          d3 = upd_swi i (wi_status_row status ts) d2;
          d4 = (if status = ''complete'' \<and> \<not> merged \<and> has_branch current \<and> sw_merge current = None
                then upd_swi i (\<lambda>w. if sw_merge w = None then w\<lparr>sw_merge := Some ''pending_review''\<rparr> else w) d3 else d3)
      in if sw_status current \<noteq> status \<and> \<not> (status = ''complete'' \<and> merged) then hk_disposition hk i status d4 else d4)"

definition updateWorkItemStatus :: "hooks \<Rightarrow> string \<Rightarrow> nat \<Rightarrow> string \<Rightarrow> bool \<Rightarrow> bool \<Rightarrow> nat list \<Rightarrow> sdb \<Rightarrow> sdb \<times> bool" where
  "updateWorkItemStatus hk ts i status allowFailed resolveReviews preserve d = (case getWorkItem i d of None \<Rightarrow> (d, False)
     | Some current \<Rightarrow>
       let merged = effectiveMergedEvidence d current in
       if merged \<and> status \<noteq> ''complete'' then (d, False)
       else if sw_merge current = Some ''merge_authorized'' \<and> status \<noteq> ''complete'' then (d, False)
       else let d1 = (if merged \<and> sw_merge current \<noteq> Some ''merged'' then setMergeState hk ts i (Some ''merged'') d else d) in
         if wi_ended (sw_status current) \<and> \<not> wi_ended status \<and> sw_status current \<noteq> status \<and> \<not> isActiveIterativeWorkItemRecord current
         then (d1, False)
         else if status = ''complete'' \<and> \<not> merged then
           (let r = completionReadinessForWorkItem i (Some current) allowFailed resolveReviews d1 in
            if \<not> rd_ok r then (d1, False)
            else (wi_change hk ts i status current merged preserve
                    (case rd_plan r of None \<Rightarrow> d1 | Some p \<Rightarrow> settleWorkItemReviewPlan hk ts p d1), True))
         else (wi_change hk ts i status current merged preserve
                 (if status = ''complete'' then settleMergedWorkItemReviewJobs hk ts i d1 else d1), True))"

text \<open>The status that \<open>refreshWorkItemStatus\<close> computes from the jobs; \<open>None\<close> leaves it as it is.\<close>

definition accepted_gate :: "sgate \<Rightarrow> bool" where
  "accepted_gate g \<longleftrightarrow> sg_state g \<in> {''resolving'', ''resolved''} \<and> sg_action g \<noteq> None"

definition wi_gates :: "nat \<Rightarrow> sdb \<Rightarrow> sgate list" where
  "wi_gates w d = filter (\<lambda>g. case getJob (sg_job g) d of None \<Rightarrow> False | Some j \<Rightarrow> sj_wi j = w) (sd_gates d)"

definition answerable :: "sgate list \<Rightarrow> sjob \<Rightarrow> bool" where
  "answerable gates j \<longleftrightarrow> sj_type j = ''human_input'' \<and> \<not> job_ended j \<and>
     (case find (\<lambda>g. sg_job g = sj_id j) gates of None \<Rightarrow> True | Some g \<Rightarrow> sg_state g = ''open'')"

definition answered :: "sgate list \<Rightarrow> sjob \<Rightarrow> bool" where
  "answered gates j \<longleftrightarrow> sj_status j = ''waiting_on_human'' \<and>
     (sj_type j = ''human_input'' \<and> list_ex (\<lambda>g. accepted_gate g \<and> sg_job g = sj_id j) gates \<or>
      list_ex (\<lambda>g. accepted_gate g \<and> sg_original g = Some (sj_id j)) gates)"

definition phase :: "sjob list \<Rightarrow> string" where
  "phase jobs = (if list_all bootstrap_job (filter (\<lambda>j. \<not> job_ended j) jobs) then ''planning'' else ''running'')"

definition status_from_jobs :: "swi \<Rightarrow> sdb \<Rightarrow> string option" where
  "status_from_jobs w d =
     (let jobs = filter state_relevant (listJobsByWorkItem (sw_id w) d);
          completion = filter (\<lambda>j. sj_type j \<notin> set NON_COMPLETION_BLOCKING_JOB_TYPES) jobs;
          state = (if completion \<noteq> [] then completion else jobs);
          gates = wi_gates (sw_id w) d;
          some = (\<lambda>P. list_ex P state)
      in if jobs = [] then None
         else if completion \<noteq> [] \<and> list_all job_ended completion then
           Some (if list_all (\<lambda>j. sj_status j = ''canceled'') completion then ''canceled''
                 else if completionBlockersForWorkItem (sw_id w) d = [] \<and> missingExecutionReason w completion = None then ''complete''
                 else ''failed'')
         else if some (\<lambda>j. sj_status j = ''waiting_on_human'') then
           Some (if some (answerable gates) then ''waiting_on_human'' else if some (answered gates) then ''running'' else ''blocked'')
         else if some (\<lambda>j. sj_status j \<in> set ACTIVE_LEASE_STATUSES) then Some (phase state)
         else if some (\<lambda>j. sj_status j = ''waiting_on_review'') then Some ''waiting_on_review''
         else if some (\<lambda>j. sj_status j = ''blocked'') then Some ''blocked''
         else if some (\<lambda>j. sj_status j = ''queued'') then Some (phase state)
         else None)"

definition refreshWorkItemStatus :: "hooks \<Rightarrow> string \<Rightarrow> nat \<Rightarrow> sdb \<Rightarrow> sdb \<times> string option" where
  "refreshWorkItemStatus hk ts i d = (case getWorkItem i d of None \<Rightarrow> (d, None)
     | Some wi \<Rightarrow>
       if sw_status wi = ''canceled'' then (d, None)
       else if effectiveMergedEvidence d wi then
         (let d1 = (if sw_merge wi \<noteq> Some ''merged'' then setMergeState hk ts i (Some ''merged'') d else d) in
          if sw_status wi = ''complete'' then (d1, None)
          else case updateWorkItemStatus hk ts i ''complete'' True True [] d1 of (d2, ok) \<Rightarrow> (d2, if ok then Some ''complete'' else None))
       else case status_from_jobs wi d of None \<Rightarrow> (d, None)
         | Some status \<Rightarrow>
           if sw_status wi = status then (d, None)
           else case updateWorkItemStatus hk ts i status False False [] d of (d1, ok) \<Rightarrow> (d1, if ok then Some status else None))"

definition refreshWorkItemStatuses :: "hooks \<Rightarrow> string \<Rightarrow> string list \<Rightarrow> sdb \<Rightarrow> sdb \<times> nat" where
  "refreshWorkItemStatuses hk ts statuses d = fold (\<lambda>w (d, n). if sw_id w = 0 then (d, n) else
       case refreshWorkItemStatus hk ts (sw_id w) d of (d1, r) \<Rightarrow> (d1, if r = None then n else Suc n))
     (filter (\<lambda>w. statuses = [] \<or> sw_status w \<in> set statuses) (sd_wis d)) (d, 0)"

section \<open>Other operations\<close>

definition cancelWorkItemJobs :: "hooks \<Rightarrow> string \<Rightarrow> nat \<Rightarrow> sdb \<Rightarrow> sdb \<times> nat list" where
  "cancelWorkItemJobs hk ts w d = fold (\<lambda>j (d, ids). if job_ended j then (d, ids)
       else case forceUpdateJobStatus hk ts (sj_id j) ''canceled'' [] d of (d1, ok) \<Rightarrow> (d1, if ok then ids @ [sj_id j] else ids))
     (listJobsByWorkItem w d) (d, [])"

text \<open>\<open>skipJob\<close> and \<open>completeJobExecutedByPlanner\<close>.\<close>

definition finish_unstarted :: "(sjob \<Rightarrow> bool) \<Rightarrow> hooks \<Rightarrow> string \<Rightarrow> nat \<Rightarrow> sdb \<Rightarrow> sdb \<times> bool" where
  "finish_unstarted P hk ts i d = (case getJob i d of None \<Rightarrow> (d, False)
     | Some j \<Rightarrow>
       if job_ended j \<or> sj_status j \<in> set ACTIVE_LEASE_STATUSES \<or> \<not> P j then (d, False)
       else case updateJobStatus hk ts i ''succeeded'' [] None False d of (d1, ok) \<Rightarrow>
         if ok then (fst (refreshWorkItemStatus hk ts (sj_wi j) d1), True) else (d1, False))"

definition skipJob :: "hooks \<Rightarrow> string \<Rightarrow> nat \<Rightarrow> sdb \<Rightarrow> sdb \<times> bool" where
  "skipJob = finish_unstarted (\<lambda>j. sj_type j \<noteq> ''human_input'')"

definition completeJobExecutedByPlanner :: "hooks \<Rightarrow> string \<Rightarrow> nat \<Rightarrow> sdb \<Rightarrow> sdb \<times> bool" where
  "completeJobExecutedByPlanner = finish_unstarted (\<lambda>j. sj_type j = ''dev'')"

definition releaseWorkItemAutoMergeAuthorization :: "nat \<Rightarrow> string option \<Rightarrow> sdb \<Rightarrow> sdb \<times> bool" where
  "releaseWorkItemAutoMergeAuthorization i previous d =
     (upd_swi i (\<lambda>w. if sw_merge w = Some ''merge_authorized'' then w\<lparr>sw_merge := (if previous = Some ''merge_authorized'' then None else previous)\<rparr> else w) d,
      list_ex (\<lambda>w. sw_id w = i \<and> sw_merge w = Some ''merge_authorized'') (sd_wis d))"

definition holdWorkItemForPendingMerge :: "nat \<Rightarrow> sdb \<Rightarrow> sdb \<times> bool" where
  "holdWorkItemForPendingMerge i d = (case getWorkItem i d of None \<Rightarrow> (d, False)
     | Some w \<Rightarrow>
       if sw_merge w = Some ''merged'' then (d, True)
       else if sw_status w \<noteq> ''complete'' then (d, True)
       else if \<not> has_branch w then (d, False)
       else (upd_swi i (\<lambda>w. w\<lparr>sw_status := ''waiting_on_review'', sw_completed := None\<rparr>) d, True))"

definition finalizeApprovedWorkItemMerge :: "hooks \<Rightarrow> string \<Rightarrow> nat \<Rightarrow> sdb \<Rightarrow> sdb \<times> bool" where
  "finalizeApprovedWorkItemMerge hk ts i d = (case getWorkItem i d of None \<Rightarrow> (d, False)
     | Some w \<Rightarrow> (case updateWorkItemStatus hk ts i ''complete'' True True [] (setMergeState hk ts i (Some ''merged'') d) of (d1, completed) \<Rightarrow>
         (d1, completed \<and> (case getWorkItem i d1 of None \<Rightarrow> False | Some w1 \<Rightarrow> sw_merge w1 = Some ''merged'' \<and> sw_status w1 = ''complete''))))"

definition REOPEN_STATUSES :: "string list" where
  "REOPEN_STATUSES = [''queued'', ''planning'', ''planned'', ''running'', ''blocked'', ''waiting_on_human'', ''waiting_on_review'']"

definition reopenWorkItemForFollowUp :: "string \<Rightarrow> nat \<Rightarrow> string \<Rightarrow> sdb \<Rightarrow> sdb \<times> bool" where
  "reopenWorkItemForFollowUp ts i status d =
     (if status \<notin> set REOPEN_STATUSES then (d, False)
      else case getWorkItem i d of None \<Rightarrow> (d, False)
        | Some w \<Rightarrow>
          if sw_status w = ''canceled'' then (d, False)
          else (let d1 = upd_swi i (\<lambda>w. (wi_status_row status ts w)\<lparr>sw_merge := None\<rparr>) d in d1\<lparr>sd_merges := sd_merges d1 @ [(i, False)]\<rparr>, True))"

text \<open>Why a work item cannot be rejected; \<open>None\<close> when it can. A requeued work item keeps its number, and takes a new description.\<close>

definition reviewRejectionReadiness :: "nat \<Rightarrow> nat list \<Rightarrow> sdb \<Rightarrow> string option" where
  "reviewRejectionReadiness i ignore d = (case getWorkItem i d of None \<Rightarrow> Some ''no_such_wi''
     | Some w \<Rightarrow>
       if effectiveMergedEvidence d w then Some ''already_merged''
       else if list_ex (\<lambda>j. sj_status j \<in> set ACTIVE_LEASE_STATUSES \<and> sj_type j \<noteq> ''atlas_warm'' \<and> sj_id j \<notin> set ignore) (listJobsByWorkItem i d)
       then Some ''active_required_job'' else None)"

definition requeue_wi_row :: "bool \<Rightarrow> swi \<Rightarrow> swi" where
  "requeue_wi_row needs w = w\<lparr>sw_status := ''queued'', sw_merge := None, sw_completed := None, sw_needs_repo := needs\<rparr>"

definition requeueWorkItemAfterRejection :: "hooks \<Rightarrow> string \<Rightarrow> nat \<Rightarrow> nat list \<Rightarrow> bool \<Rightarrow> sdb \<Rightarrow> sdb \<times> bool" where
  "requeueWorkItemAfterRejection hk ts i preserve needs d =
     (if reviewRejectionReadiness i preserve d \<noteq> None then (d, False)
      else (fst (refreshWorkItemStatus hk ts i (upd_swi i (requeue_wi_row needs) (hk_rework hk i preserve d))), True))"

text \<open>The throw of \<open>reopenFailedWorkItem\<close> is \<open>None\<close>; the transaction around it is then rolled back.\<close>

definition reopen_failed_row :: "string \<Rightarrow> swi \<Rightarrow> swi" where
  "reopen_failed_row status w = (if sw_status w = ''failed'' then w\<lparr>sw_status := status, sw_merge := None, sw_completed := None\<rparr> else w)"

definition reopenFailedWorkItem :: "nat \<Rightarrow> string \<Rightarrow> sdb \<Rightarrow> sdb option" where
  "reopenFailedWorkItem i status d =
     (if list_ex (\<lambda>w. sw_id w = i \<and> sw_status w = ''failed'') (sd_wis d) then Some (upd_swi i (reopen_failed_row status) d) else None)"

datatype auth_result = Auth_refused string | Auth_ok "string option"

definition authorizeWorkItemAutoMerge :: "hooks \<Rightarrow> nat \<Rightarrow> string option \<Rightarrow> sdb \<Rightarrow> sdb \<times> auth_result" where
  "authorizeWorkItemAutoMerge hk i expected d = (case getWorkItem i d of None \<Rightarrow> (d, Auth_refused ''no_such_wi'')
     | Some w \<Rightarrow>
       let branch = trimmed (sw_branch w) in
       if sw_status w \<noteq> ''complete'' then (d, Auth_refused ''status_changed'')
       else if branch = [] \<or> text_of expected \<noteq> [] \<and> branch \<noteq> text_of expected then (d, Auth_refused ''branch_changed'')
       else if sw_merge w = Some ''merged'' then (d, Auth_refused ''already_merged'')
       else if hk_upstreams hk w d \<noteq> [] then (d, Auth_refused ''upstream_merge_pending'')
       else if completionBlockersForWorkItem i d \<noteq> [] then (d, Auth_refused ''completion_blocked'')
       else if hk_holding hk i d then (d, Auth_refused ''human_gate_active'')
       else (case hk_review hk w d of (d1, holds) \<Rightarrow>
         if holds then (d1, Auth_refused ''verification_review_required'')
         else if sw_merge w = Some ''merge_authorized'' then (d1, Auth_ok (sw_merge w))
         else if \<not> list_ex (\<lambda>x. sw_id x = i \<and> sw_status x = ''complete'' \<and> sw_branch x = Some branch \<and> sw_merge x \<noteq> Some ''merged'') (sd_wis d1)
         then (d1, Auth_refused ''authorization_raced'')
         else (upd_swi i (\<lambda>x. if sw_status x = ''complete'' \<and> sw_branch x = Some branch \<and> sw_merge x \<noteq> Some ''merged''
                 then x\<lparr>sw_merge := Some ''merge_authorized''\<rparr> else x) d1, Auth_ok (sw_merge w))))"

definition markWorkItemMergeFailed :: "hooks \<Rightarrow> nat \<Rightarrow> sdb \<Rightarrow> sdb \<times> bool" where
  "markWorkItemMergeFailed hk i d =
     (if list_ex (\<lambda>w. sw_id w = i \<and> sw_merge w \<noteq> Some ''merged'') (sd_wis d)
      then (hk_failure hk i (upd_swi i (\<lambda>w. if sw_merge w = Some ''merged'' then w else w\<lparr>sw_merge := Some ''merge_failed''\<rparr>) d), True)
      else (d, False))"

definition reconcile_merged_wi :: "hooks \<Rightarrow> string \<Rightarrow> swi \<Rightarrow> sdb \<Rightarrow> sdb" where
  "reconcile_merged_wi hk ts w d =
     (let d1 = (if sw_merge w \<noteq> Some ''merged'' then upd_swi (sw_id w) (\<lambda>x. x\<lparr>sw_merge := Some ''merged''\<rparr>) d else d);
          d2 = settleMergedWorkItemReviewJobs hk ts (sw_id w) d1
      in if sw_status w \<noteq> ''complete'' then fst (updateWorkItemStatus hk ts (sw_id w) ''complete'' True True [] d2) else d2)"

definition reconcileMergedWorkItemReviewStates :: "hooks \<Rightarrow> string \<Rightarrow> sdb \<Rightarrow> sdb" where
  "reconcileMergedWorkItemReviewStates hk ts d = fold (reconcile_merged_wi hk ts) (filter (effectiveMergedEvidence d) (sd_wis d)) d"

section \<open>Events\<close>

text \<open>
  The operations, and what the rest of the program does to the tables: a job, a gate or a work item is inserted, a payload or metadata is
  written, a gate changes its state, and a merge is logged. Every event carries the time.
\<close>

datatype status_event =
    SUpdate nat string bool bool "nat list"
  | SRefresh nat
  | SRefreshAll "string list"
  | SJob nat string "string list" "string option" bool
  | SCancelJobs nat
  | SSkip nat
  | SPlanned nat
  | SMergeState nat "string option"
  | SAuthorize nat "string option"
  | SRelease nat "string option"
  | SMergeFailed nat
  | SHold nat
  | SFinalize nat
  | SReopen nat string
  | SReject nat "nat list" bool
  | SRecover nat string
  | SReconcile
  | NJob sjob
  | NPayload nat spay
  | NGate sgate
  | NGateState nat string "string option"
  | NWorkItem swi
  | NMetadata nat "string option" bool smeta
  | NBranch nat "string option"
  | NMerged nat

text \<open>\<open>updateWorkItemMetadata\<close> and \<open>updateWorkItemRouting\<close>.\<close>

definition routing_row :: "string option \<Rightarrow> bool \<Rightarrow> smeta \<Rightarrow> swi \<Rightarrow> swi" where
  "routing_row mode needs m w = w\<lparr>sw_mode := (case mode of None \<Rightarrow> sw_mode w | Some x \<Rightarrow> x), sw_needs_repo := needs, sw_meta := m\<rparr>"

fun status_step :: "hooks \<Rightarrow> string \<times> status_event \<Rightarrow> sdb \<Rightarrow> sdb" where
  "status_step hk (ts, SUpdate i status a r p) d = fst (updateWorkItemStatus hk ts i status a r p d)"
| "status_step hk (ts, SRefresh i) d = fst (refreshWorkItemStatus hk ts i d)"
| "status_step hk (ts, SRefreshAll statuses) d = fst (refreshWorkItemStatuses hk ts statuses d)"
| "status_step hk (ts, SJob i status expected token force) d = fst (updateJobStatus hk ts i status expected token force d)"
| "status_step hk (ts, SCancelJobs i) d = fst (cancelWorkItemJobs hk ts i d)"
| "status_step hk (ts, SSkip i) d = fst (skipJob hk ts i d)"
| "status_step hk (ts, SPlanned i) d = fst (completeJobExecutedByPlanner hk ts i d)"
| "status_step hk (ts, SMergeState i ms) d = setMergeState hk ts i ms d"
| "status_step hk (ts, SAuthorize i expected) d = fst (authorizeWorkItemAutoMerge hk i expected d)"
| "status_step hk (ts, SRelease i previous) d = fst (releaseWorkItemAutoMergeAuthorization i previous d)"
| "status_step hk (ts, SMergeFailed i) d = fst (markWorkItemMergeFailed hk i d)"
| "status_step hk (ts, SHold i) d = fst (holdWorkItemForPendingMerge i d)"
| "status_step hk (ts, SFinalize i) d = fst (finalizeApprovedWorkItemMerge hk ts i d)"
| "status_step hk (ts, SReopen i status) d = fst (reopenWorkItemForFollowUp ts i status d)"
| "status_step hk (ts, SReject i preserve needs) d = fst (requeueWorkItemAfterRejection hk ts i preserve needs d)"
| "status_step hk (ts, SRecover i status) d = (case reopenFailedWorkItem i status d of None \<Rightarrow> d | Some d1 \<Rightarrow> d1)"
| "status_step hk (ts, SReconcile) d = reconcileMergedWorkItemReviewStates hk ts d"
| "status_step hk (ts, NJob j) d = (if getJob (sj_id j) d = None then d\<lparr>sd_jobs := sd_jobs d @ [j]\<rparr> else d)"
| "status_step hk (ts, NPayload i p) d = upd_sjob (\<lambda>j. sj_id j = i) (\<lambda>j. j\<lparr>sj_pay := p\<rparr>) d"
| "status_step hk (ts, NGate g) d = d\<lparr>sd_gates := sd_gates d @ [g]\<rparr>"
| "status_step hk (ts, NGateState i st action) d = upd_sgate (\<lambda>g. sg_job g = i) (\<lambda>g. g\<lparr>sg_state := st, sg_action := action\<rparr>) d"
| "status_step hk (ts, NWorkItem w) d = (if getWorkItem (sw_id w) d = None then d\<lparr>sd_wis := sd_wis d @ [w]\<rparr> else d)"
| "status_step hk (ts, NMetadata i mode needs m) d = upd_swi i (routing_row mode needs m) d"
| "status_step hk (ts, NBranch i b) d = upd_swi i (\<lambda>w. w\<lparr>sw_branch := b\<rparr>) d"
| "status_step hk (ts, NMerged i) d = d\<lparr>sd_merges := sd_merges d @ [(i, True)]\<rparr>"

end
