(* ===== verification/WorkItemStatusSafety.thy ===== *)
theory WorkItemStatusSafety
  imports WorkItemStatus Tables
begin

text \<open>
  What the state of work items promises: the recovery search finds exactly the succeeded recoveries, completion is earned, the computed
  status is reached, and what has ended or merged stays so. The operations on jobs and gates are shown to leave the work items
  alone, as long as the hooks do (\<open>hooks_keep\<close>).
\<close>

section \<open>Recovery\<close>

text \<open>From a job to the jobs that recover it.\<close>

definition recovery_edges :: "sjob list \<Rightarrow> (nat \<times> nat) set" where
  "recovery_edges jobs = {(i, sj_id j) | i j. j \<in> set jobs \<and> i \<in> set (original_ids j)}"

definition recovered_by :: "sjob list \<Rightarrow> nat \<Rightarrow> sjob \<Rightarrow> bool" where
  "recovered_by jobs i r \<longleftrightarrow> r \<in> set jobs \<and> (i, sj_id r) \<in> (recovery_edges jobs)\<^sup>+ \<and> sj_id r \<noteq> i \<and> recovery_succeeded r"

lemma in_graph: "j \<in> set (buildJobRecoveryGraph jobs i) \<longleftrightarrow> j \<in> set jobs \<and> i \<in> set (original_ids j)"
  by (auto simp: graph_of)

lemma graph_edge: "j \<in> set (buildJobRecoveryGraph jobs i) \<Longrightarrow> (i, sj_id j) \<in> recovery_edges jobs"
  by (auto simp: in_graph recovery_edges_def)

text \<open>A search that fails has seen everything that the stack leads to.\<close>

lemma search_sound:
  assumes "recovery_search jobs stack seen" and "set stack \<subseteq> {j \<in> set jobs. (i, sj_id j) \<in> (recovery_edges jobs)\<^sup>+}" and "i \<in> set seen"
  shows "\<exists>r. recovered_by jobs i r"
  using assms
proof (induction jobs stack seen rule: recovery_search.induct)
  case (2 jobs j stack seen)
  have j: "j \<in> set jobs" "(i, sj_id j) \<in> (recovery_edges jobs)\<^sup>+" using "2.prems"(2) by auto
  consider "sj_id j \<in> set seen" | "sj_id j \<notin> set seen" "recovery_succeeded j" | "sj_id j \<notin> set seen" "\<not> recovery_succeeded j" by blast
  then show ?case
  proof cases
    case 1
    then show ?thesis using "2.IH"(1) "2.prems" by simp
  next
    case 2
    then have "sj_id j \<noteq> i" using "2.prems"(3) by blast
    then show ?thesis using 2(2) j by (auto simp: recovered_by_def)
  next
    case 3
    have "set (rev (buildJobRecoveryGraph jobs (sj_id j)) @ stack) \<subseteq> {j \<in> set jobs. (i, sj_id j) \<in> (recovery_edges jobs)\<^sup>+}"
      using j graph_edge trancl_into_trancl [OF j(2)] "2.prems"(2) by (auto simp: in_graph)
    then show ?thesis using "2.IH"(2) 3 "2.prems" by simp
  qed
qed simp

definition closed_barren :: "sjob list \<Rightarrow> nat \<Rightarrow> nat set \<Rightarrow> bool" where
  "closed_barren jobs i S \<longleftrightarrow> (\<forall>k \<in> S. \<forall>m. (k, m) \<in> recovery_edges jobs \<longrightarrow> m \<in> S) \<and>
    (\<forall>j \<in> set jobs. sj_id j \<in> S \<and> sj_id j \<noteq> i \<longrightarrow> \<not> recovery_succeeded j)"

lemma search_complete:
  assumes "\<not> recovery_search jobs stack seen" and "distinct (map sj_id jobs)" and "set stack \<subseteq> set jobs"
    and "\<forall>j \<in> set jobs. sj_id j \<in> set seen \<longrightarrow> sj_id j \<noteq> i \<longrightarrow> \<not> recovery_succeeded j"
    and "\<forall>k \<in> set seen. \<forall>m. (k, m) \<in> recovery_edges jobs \<longrightarrow> m \<in> set seen \<or> m \<in> sj_id ` set stack"
  shows "\<exists>S. set seen \<union> sj_id ` set stack \<subseteq> S \<and> closed_barren jobs i S"
  using assms
proof (induction jobs stack seen rule: recovery_search.induct)
  case (1 jobs seen)
  then have "closed_barren jobs i (set seen)" by (auto simp: closed_barren_def)
  then show ?case by (intro exI [of _ "set seen"]) simp
next
  case (2 jobs j stack seen)
  show ?case
  proof (cases "sj_id j \<in> set seen")
    case True
    then have no: "\<not> recovery_search jobs stack seen" using "2.prems"(1) by simp
    have closed: "\<forall>k \<in> set seen. \<forall>m. (k, m) \<in> recovery_edges jobs \<longrightarrow> m \<in> set seen \<or> m \<in> sj_id ` set stack"
    proof (intro ballI allI impI)
      fix k m assume "k \<in> set seen" "(k, m) \<in> recovery_edges jobs"
      then have "m \<in> set seen \<or> m \<in> sj_id ` set (j # stack)" using "2.prems"(5) by blast
      then show "m \<in> set seen \<or> m \<in> sj_id ` set stack" using True unfolding list.set by blast
    qed
    have sub: "set stack \<subseteq> set jobs" using "2.prems"(3) by simp
    obtain S where S: "set seen \<union> sj_id ` set stack \<subseteq> S" "closed_barren jobs i S"
      using "2.IH"(1) [OF True no "2.prems"(2) sub "2.prems"(4) closed] by (elim exE conjE)
    have "set seen \<union> sj_id ` set (j # stack) \<subseteq> S" using S(1) True by auto
    then show ?thesis using S(2) by blast
  next
    case False
    let ?new = "rev (buildJobRecoveryGraph jobs (sj_id j)) @ stack"
    have n: "\<not> recovery_succeeded j" "\<not> recovery_search jobs ?new (sj_id j # seen)"
      using "2.prems"(1) unfolding recovery_search.simps if_not_P [OF False] by (simp_all split: if_splits del: recovery_search.simps)
    have j: "j \<in> set jobs" using "2.prems"(3) by simp
    have only: "\<forall>x \<in> set jobs. sj_id x \<in> set (sj_id j # seen) \<longrightarrow> sj_id x \<noteq> i \<longrightarrow> \<not> recovery_succeeded x"
    proof (intro ballI impI)
      fix x assume x: "x \<in> set jobs" "sj_id x \<in> set (sj_id j # seen)" "sj_id x \<noteq> i"
      show "\<not> recovery_succeeded x"
      proof (cases "sj_id x = sj_id j")
        case True
        then have "x = j" using "2.prems"(2) x(1) j by (auto simp: distinct_map inj_on_def)
        then show ?thesis using n(1) by simp
      next
        case False
        then have "sj_id x \<in> set seen" using x(2) by simp
        then show ?thesis using "2.prems"(4) x(1,3) by blast
      qed
    qed
    have "m \<in> set (sj_id j # seen) \<or> m \<in> sj_id ` set ?new" if e: "k \<in> set (sj_id j # seen)" "(k, m) \<in> recovery_edges jobs" for k m
    proof (cases "k = sj_id j")
      case True
      then obtain x where "x \<in> set jobs" "m = sj_id x" "sj_id j \<in> set (original_ids x)"
        using e(2) unfolding recovery_edges_def by blast
      then have "m \<in> sj_id ` set ?new" by (simp add: in_graph)
      then show ?thesis by simp
    next
      case False
      then have "k \<in> set seen" using e(1) by simp
      then have "m \<in> set seen \<or> m \<in> sj_id ` set (j # stack)" using "2.prems"(5) e(2) by blast
      then show ?thesis unfolding set_append image_Un list.set by blast
    qed
    then have closed: "\<forall>k \<in> set (sj_id j # seen). \<forall>m. (k, m) \<in> recovery_edges jobs \<longrightarrow> m \<in> set (sj_id j # seen) \<or> m \<in> sj_id ` set ?new"
      by blast
    have sub: "set ?new \<subseteq> set jobs" using "2.prems"(3) by (auto simp: in_graph)
    obtain S where S: "set (sj_id j # seen) \<union> sj_id ` set ?new \<subseteq> S" "closed_barren jobs i S"
      using "2.IH"(2) [OF False n "2.prems"(2) sub only closed] by (elim exE conjE)
    have "set seen \<union> sj_id ` set (j # stack) \<subseteq> S" using S(1) by auto
    then show ?thesis using S(2) by blast
  qed
qed

lemma recovery_exact:
  assumes "distinct (map sj_id jobs)"
  shows "hasSucceededRecoveryDescendant i jobs \<longleftrightarrow> (\<exists>r. recovered_by jobs i r)"
proof
  assume "hasSucceededRecoveryDescendant i jobs"
  then show "\<exists>r. recovered_by jobs i r"
    unfolding hasSucceededRecoveryDescendant_def
  proof (rule search_sound)
    show "set (rev (buildJobRecoveryGraph jobs i)) \<subseteq> {j \<in> set jobs. (i, sj_id j) \<in> (recovery_edges jobs)\<^sup>+}"
      using graph_edge r_into_trancl in_graph by fastforce
  qed simp
next
  assume "\<exists>r. recovered_by jobs i r"
  then obtain r where r: "r \<in> set jobs" "(i, sj_id r) \<in> (recovery_edges jobs)\<^sup>+" "sj_id r \<noteq> i" "recovery_succeeded r"
    by (auto simp: recovered_by_def)
  show "hasSucceededRecoveryDescendant i jobs"
  proof (rule ccontr)
    assume no: "\<not> hasSucceededRecoveryDescendant i jobs"
    have "\<exists>S. set [i] \<union> sj_id ` set (rev (buildJobRecoveryGraph jobs i)) \<subseteq> S \<and> closed_barren jobs i S"
    proof (rule search_complete [OF no [unfolded hasSucceededRecoveryDescendant_def] assms])
      show "set (rev (buildJobRecoveryGraph jobs i)) \<subseteq> set jobs" by (auto simp: in_graph)
      show "\<forall>k \<in> set [i]. \<forall>m. (k, m) \<in> recovery_edges jobs \<longrightarrow> m \<in> set [i] \<or> m \<in> sj_id ` set (rev (buildJobRecoveryGraph jobs i))"
        by (auto simp: recovery_edges_def in_graph)
    qed auto
    then obtain S where S: "i \<in> S" "closed_barren jobs i S" by auto
    have "sj_id r \<in> S" using r(2)
    proof (induction rule: trancl_induct)
      case (base m)
      then show ?case using S unfolding closed_barren_def by blast
    next
      case (step k m)
      then show ?case using S(2) unfolding closed_barren_def by blast
    qed
    then show False using S(2) r unfolding closed_barren_def by blast
  qed
qed

section \<open>Operations that leave the work items alone\<close>

definition wis_same :: "sdb \<Rightarrow> sdb \<Rightarrow> bool" where
  "wis_same d d' \<longleftrightarrow> sd_wis d' = sd_wis d \<and> sd_merges d' = sd_merges d"

text \<open>The hooks open, settle and cancel jobs and gates; none of them writes a work item.\<close>

definition hooks_keep :: "hooks \<Rightarrow> bool" where
  "hooks_keep hk \<longleftrightarrow> (\<forall>d. (\<forall>j. wis_same d (hk_canceled hk j d)) \<and> (\<forall>i js. wis_same d (hk_post_merge hk i js d)) \<and>
     (\<forall>i. wis_same d (hk_upstream hk i d)) \<and> (\<forall>i s. wis_same d (hk_disposition hk i s d)) \<and>
     (\<forall>w. wis_same d (fst (hk_review hk w d))) \<and> (\<forall>i. wis_same d (hk_failure hk i d)) \<and>
     (\<forall>i ids. wis_same d (hk_rework hk i ids d)))"

lemma hooks_keepD:
  assumes "hooks_keep hk"
  shows "wis_same d (hk_canceled hk j d)" "wis_same d (hk_post_merge hk i js d)" "wis_same d (hk_upstream hk i d)"
    "wis_same d (hk_disposition hk i st d)" "wis_same d (fst (hk_review hk w d))" "wis_same d (hk_failure hk i d)"
    "wis_same d (hk_rework hk i ids d)"
  using assms unfolding hooks_keep_def by blast+

lemma wis_same_refl [simp]: "wis_same d d"
  by (simp add: wis_same_def)

lemma wis_same_trans: "wis_same a b \<Longrightarrow> wis_same b c \<Longrightarrow> wis_same a c"
  by (simp add: wis_same_def)

lemma wis_same_upd [simp]: "wis_same d (upd_sjob P f d)" "wis_same d (upd_sgate Q g d)"
  by (simp_all add: wis_same_def upd_sjob_def upd_sgate_def)

lemma wis_same_fold: "(\<And>x d. wis_same d (F x d)) \<Longrightarrow> wis_same d (fold F xs d)"
  by (rule fold_related [where R = wis_same]) (auto intro: wis_same_trans)

lemma wis_same_fold_fst:
  assumes "\<And>x s. wis_same (fst s) (fst (F x s))"
  shows "wis_same (fst s) (fst (fold F xs s))"
proof (induction xs arbitrary: s)
  case (Cons x xs)
  show ?case using wis_same_trans [OF assms Cons.IH] by simp
qed simp

lemma same_wi: "wis_same d d' \<Longrightarrow> getWorkItem i d' = getWorkItem i d"
  by (simp add: wis_same_def getWorkItem_def)

lemma same_evidence: "wis_same d d' \<Longrightarrow> effectiveMergedEvidence d' w = effectiveMergedEvidence d w"
  by (simp add: wis_same_def effectiveMergedEvidence_def)

lemma updateJobStatus_same:
  assumes "hooks_keep hk"
  shows "wis_same d (fst (updateJobStatus hk ts i status expected token force d))"
proof -
  have g: "wis_same d (upd_sgate Q g (upd_sjob P f d))" for P f Q g by (rule wis_same_trans [OF wis_same_upd(1) wis_same_upd(2)])
  have c: "wis_same d (hk_canceled hk j (upd_sgate Q g (upd_sjob P f d)))" for P f Q g j by (rule wis_same_trans [OF g hooks_keepD(1) [OF assms]])
  show ?thesis by (simp add: updateJobStatus_def Let_def g c split: option.split)
qed

lemma settle_plan_same: "hooks_keep hk \<Longrightarrow> wis_same d (settleWorkItemReviewPlan hk ts plan d)"
proof -
  assume hk: "hooks_keep hk"
  have "wis_same d (retire_review_gate hk ts j d)" for j d by (simp add: retire_review_gate_def updateJobStatus_same [OF hk])
  moreover have "wis_same d (settle_original hk ts j d)" for j d
    using wis_same_trans [OF updateJobStatus_same [OF hk] wis_same_upd(1)]
    by (simp add: settle_original_def Let_def waive_assessment_def updateJobStatus_same [OF hk])
  ultimately show ?thesis unfolding settleWorkItemReviewPlan_def by (intro wis_same_trans [OF wis_same_fold wis_same_fold]) simp_all
qed

lemma settle_merged_same:
  assumes "hooks_keep hk"
  shows "wis_same d (settleMergedWorkItemReviewJobs hk ts w d)"
proof -
  have c: "wis_same d (cancel_stale hk ts ids j d)" for ids j d by (simp add: cancel_stale_def updateJobStatus_same [OF assms])
  show ?thesis unfolding settleMergedWorkItemReviewJobs_def Let_def
    by (rule wis_same_trans [OF wis_same_trans [OF settle_plan_same [OF assms] wis_same_fold [OF c]] hooks_keepD(2) [OF assms]])
qed

lemma cancel_held_same:
  assumes "hooks_keep hk"
  shows "wis_same d (cancelHeldPostMergeDbTasksForWorkItem hk ts w d)"
  unfolding cancelHeldPostMergeDbTasksForWorkItem_def
proof (rule wis_same_fold)
  fix j d
  obtain d1 ok where u: "forceUpdateJobStatus hk ts (sj_id j) ''canceled'' [''waiting_on_human''] d = (d1, ok)" by (rule prod.exhaust)
  have "wis_same d d1" using updateJobStatus_same [OF assms, of d ts "sj_id j" "''canceled''" "[''waiting_on_human'']" None True] by (simp add: u)
  then show "wis_same d (case forceUpdateJobStatus hk ts (sj_id j) ''canceled'' [''waiting_on_human''] d of (d1, ok) \<Rightarrow>
         if ok then upd_sjob (\<lambda>x. sj_id x = sj_id j) (\<lambda>x. x\<lparr>sj_pay := (sj_pay x)\<lparr>sp_hold :=
             Some ((case sp_hold (sj_pay x) of None \<Rightarrow> \<lparr>ho_released = False, ho_canceled_with = False\<rparr> | Some h \<Rightarrow> h)\<lparr>ho_canceled_with := True\<rparr>)\<rparr>\<rparr>) d1
         else d1)"
    unfolding u prod.case by (cases ok) (simp_all add: wis_same_trans)
qed

lemma cancel_inactive_same: "hooks_keep hk \<Longrightarrow> wis_same d (cancelInactiveWorkItemJobs hk ts w preserve d)"
  unfolding cancelInactiveWorkItemJobs_def by (rule wis_same_fold) (simp add: updateJobStatus_same)

lemma cancel_jobs_same: "hooks_keep hk \<Longrightarrow> wis_same d (fst (cancelWorkItemJobs hk ts w d))"
proof -
  assume hk: "hooks_keep hk"
  show ?thesis unfolding cancelWorkItemJobs_def
  proof (rule wis_same_fold_fst [where s = "(d, [])", unfolded fst_conv])
    fix j :: sjob and s :: "sdb \<times> nat list"
    obtain d ids where s: "s = (d, ids)" by (cases s)
    obtain d1 ok where u: "forceUpdateJobStatus hk ts (sj_id j) ''canceled'' [] d = (d1, ok)" by (rule prod.exhaust)
    have "wis_same d d1" using updateJobStatus_same [OF hk, of d ts "sj_id j" "''canceled''" "[]" None True] by (simp add: u)
    then show "wis_same (fst s) (fst (case s of (d, ids) \<Rightarrow> if job_ended j then (d, ids)
       else case forceUpdateJobStatus hk ts (sj_id j) ''canceled'' [] d of (d1, ok) \<Rightarrow> (d1, if ok then ids @ [sj_id j] else ids)))"
      by (simp add: s u)
  qed
qed

section \<open>What becomes of the row of a work item\<close>

lemma upd_swi_wis [simp]: "sd_wis (upd_swi i f d) = map (\<lambda>w. if sw_id w = i then f w else w) (sd_wis d)"
  "sd_merges (upd_swi i f d) = sd_merges d" "sd_jobs (upd_swi i f d) = sd_jobs d" "sd_gates (upd_swi i f d) = sd_gates d"
  by (simp_all add: upd_swi_def)

text \<open>The row of the changed work item is rewritten by \<open>f\<close>, no other one.\<close>

definition row_change :: "nat \<Rightarrow> (swi \<Rightarrow> swi) \<Rightarrow> sdb \<Rightarrow> sdb \<Rightarrow> bool" where
  "row_change i f d d' \<longleftrightarrow> wis_same (upd_swi i f d) d'"

lemma row_change_upd: "row_change i f d (upd_swi i f d)"
  by (simp add: row_change_def)

lemma row_change_same: "row_change i f d d' \<Longrightarrow> wis_same d' d'' \<Longrightarrow> row_change i f d d''"
  unfolding row_change_def by (rule wis_same_trans)

lemma same_row_change: "wis_same d d' \<Longrightarrow> row_change i f d' d'' \<Longrightarrow> row_change i f d d''"
  by (simp add: row_change_def wis_same_def)

lemma row_change_compose:
  assumes "row_change i f a b" "row_change i g b c" and "\<And>w. sw_id (f w) = sw_id w"
  shows "row_change i (g \<circ> f) a c"
proof -
  have "(if sw_id (if sw_id w = i then f w else w) = i then g (if sw_id w = i then f w else w) else if sw_id w = i then f w else w) =
      (if sw_id w = i then (g \<circ> f) w else w)" for w by (simp add: assms(3))
  then have "sd_wis (upd_swi i (g \<circ> f) a) = sd_wis (upd_swi i g (upd_swi i f a))" by (simp add: comp_def)
  then show ?thesis using assms(1,2) by (simp add: row_change_def wis_same_def)
qed

lemma setMergeState_row: "hooks_keep hk \<Longrightarrow> row_change w (\<lambda>x. x\<lparr>sw_merge := ms\<rparr>) d (setMergeState hk ts w ms d)"
  unfolding setMergeState_def Let_def
  using row_change_same [OF row_change_upd wis_same_trans [OF settle_merged_same hooks_keepD(3)]] row_change_upd by auto

text \<open>The row after an accepted change of the status.\<close>

definition changed_row :: "string \<Rightarrow> string \<Rightarrow> swi \<Rightarrow> bool \<Rightarrow> swi \<Rightarrow> swi" where
  "changed_row status ts current merged w =
     (let w1 = wi_status_row status ts w in
      if status = ''complete'' \<and> \<not> merged \<and> has_branch current \<and> sw_merge current = None \<and> sw_merge w1 = None
      then w1\<lparr>sw_merge := Some ''pending_review''\<rparr> else w1)"

lemma wi_status_row_simps [simp]: "sw_id (wi_status_row status ts w) = sw_id w" "sw_status (wi_status_row status ts w) = status"
  "sw_merge (wi_status_row status ts w) = sw_merge w" "sw_meta (wi_status_row status ts w) = sw_meta w"
  "sw_branch (wi_status_row status ts w) = sw_branch w"
  by (simp_all add: wi_status_row_def)

lemma changed_row_simps [simp]: "sw_id (changed_row status ts c m w) = sw_id w" "sw_status (changed_row status ts c m w) = status"
  "sw_meta (changed_row status ts c m w) = sw_meta w" "sw_branch (changed_row status ts c m w) = sw_branch w"
  "sw_merge w \<noteq> None \<Longrightarrow> sw_merge (changed_row status ts c m w) = sw_merge w"
  by (simp_all add: changed_row_def Let_def)

lemma wi_change_row:
  assumes "hooks_keep hk"
  shows "row_change i (changed_row status ts current merged) d (wi_change hk ts i status current merged preserve d)"
proof -
  define d1 where "d1 = (if (status = ''failed'' \<or> status = ''canceled'') \<and> sw_status current \<noteq> status
                then cancelHeldPostMergeDbTasksForWorkItem hk ts i d else d)"
  define d2 where "d2 = (if status = ''canceled'' then cancelInactiveWorkItemJobs hk ts i preserve d1 else d1)"
  define d3 where "d3 = upd_swi i (wi_status_row status ts) d2"
  define d4 where "d4 = (if status = ''complete'' \<and> \<not> merged \<and> has_branch current \<and> sw_merge current = None
                then upd_swi i (\<lambda>w. if sw_merge w = None then w\<lparr>sw_merge := Some ''pending_review''\<rparr> else w) d3 else d3)"
  have "wis_same d d1" by (simp add: d1_def cancel_held_same [OF assms])
  moreover have "wis_same d1 d2" by (simp add: d2_def cancel_inactive_same [OF assms])
  ultimately have 2: "wis_same d d2" by (rule wis_same_trans)
  have 3: "row_change i (wi_status_row status ts) d2 d3" unfolding d3_def by (rule row_change_upd)
  have "row_change i (changed_row status ts current merged) d2 d4"
  proof (cases "status = ''complete'' \<and> \<not> merged \<and> has_branch current \<and> sw_merge current = None")
    case True
    let ?g = "\<lambda>w. if sw_merge w = None then w\<lparr>sw_merge := Some ''pending_review''\<rparr> else w"
    have "?g \<circ> wi_status_row status ts = changed_row status ts current merged"
      by (rule ext) (use True in \<open>simp add: changed_row_def Let_def\<close>)
    then show ?thesis using row_change_compose [OF 3 row_change_upd, of ?g] True by (simp add: d4_def)
  next
    case False
    then have "wi_status_row status ts = changed_row status ts current merged" by (intro ext) (auto simp: changed_row_def Let_def)
    then show ?thesis using 3 unfolding d4_def if_not_P [OF False] by simp
  qed
  then have 4: "row_change i (changed_row status ts current merged) d d4" by (rule same_row_change [OF 2])
  show ?thesis
    unfolding wi_change_def Let_def d1_def [symmetric] d2_def [symmetric] d3_def [symmetric] d4_def [symmetric]
    using 4 row_change_same [OF 4 hooks_keepD(4) [OF assms]] by simp
qed

text \<open>When a change of the status is accepted, and what the row is then.\<close>

definition change_allowed :: "swi \<Rightarrow> bool \<Rightarrow> string \<Rightarrow> bool" where
  "change_allowed current merged status \<longleftrightarrow> (merged \<longrightarrow> status = ''complete'') \<and>
     (sw_merge current = Some ''merge_authorized'' \<longrightarrow> status = ''complete'') \<and> (sw_merge current = Some ''merged'' \<longrightarrow> merged) \<and>
     (wi_ended (sw_status current) \<longrightarrow> wi_ended status \<or> status = sw_status current \<or> isActiveIterativeWorkItemRecord current)"

definition settle_row :: "swi \<Rightarrow> bool \<Rightarrow> swi \<Rightarrow> swi" where
  "settle_row current merged w = (if merged \<and> sw_merge current \<noteq> Some ''merged'' then w\<lparr>sw_merge := Some ''merged''\<rparr> else w)"

lemma settle_row_simps [simp]: "sw_id (settle_row c m w) = sw_id w" "sw_status (settle_row c m w) = sw_status w"
  "sw_meta (settle_row c m w) = sw_meta w" "sw_branch (settle_row c m w) = sw_branch w"
  by (simp_all add: settle_row_def)

lemma update_cases:
  assumes hk: "hooks_keep hk"
  obtains (rejected) "fst (updateWorkItemStatus hk ts i status a r p d) = d" and "\<not> snd (updateWorkItemStatus hk ts i status a r p d)"
  | (accepted) current merged where "getWorkItem i d = Some current" and "merged = effectiveMergedEvidence d current"
      and "change_allowed current merged status"
      and "status = ''complete'' \<Longrightarrow> \<not> merged \<Longrightarrow> rd_ok (completionReadinessForWorkItem i (Some current) a r d)"
      and "row_change i (changed_row status ts current merged \<circ> settle_row current merged) d (fst (updateWorkItemStatus hk ts i status a r p d))"
      and "snd (updateWorkItemStatus hk ts i status a r p d)"
proof (cases "getWorkItem i d")
  case None
  show thesis by (rule rejected) (simp_all add: updateWorkItemStatus_def None)
next
  case (Some current)
  define merged where "merged = effectiveMergedEvidence d current"
  let ?u = "updateWorkItemStatus hk ts i status a r p d"
  define d1 where "d1 = (if merged \<and> sw_merge current \<noteq> Some ''merged'' then setMergeState hk ts i (Some ''merged'') d else d)"
  have m: "sw_merge current = Some ''merged'' \<longrightarrow> merged" by (simp add: merged_def effectiveMergedEvidence_def)
  have d1: "row_change i (settle_row current merged) d d1"
  proof (cases "merged \<and> sw_merge current \<noteq> Some ''merged''")
    case True
    then have "settle_row current merged = (\<lambda>w. w\<lparr>sw_merge := Some ''merged''\<rparr>)" by (intro ext) (simp add: settle_row_def)
    then show ?thesis using setMergeState_row [OF hk, of i "Some ''merged''" d ts] True by (simp add: d1_def)
  next
    case False
    then have "settle_row current merged = (\<lambda>w. w)" by (intro ext) (auto simp: settle_row_def)
    then show ?thesis unfolding d1_def if_not_P [OF False] by (simp add: row_change_def wis_same_def)
  qed
  have d1_same: "\<not> merged \<Longrightarrow> d1 = d" by (simp add: d1_def)
  have row: "row_change i (changed_row status ts current merged \<circ> settle_row current merged) d (wi_change hk ts i status current merged p d2)"
    if "wis_same d1 d2" for d2
    by (rule row_change_compose [OF row_change_same [OF d1 that] wi_change_row [OF hk]]) simp
  consider (merged) "merged" "status \<noteq> ''complete''" | (auth) "sw_merge current = Some ''merge_authorized''" "status \<noteq> ''complete''"
    | (ended) "\<not> merged" "\<not> (sw_merge current = Some ''merge_authorized'' \<and> status \<noteq> ''complete'')"
        "wi_ended (sw_status current) \<and> \<not> wi_ended status \<and> sw_status current \<noteq> status \<and> \<not> isActiveIterativeWorkItemRecord current"
    | (unready) "\<not> merged" "status = ''complete''" "\<not> rd_ok (completionReadinessForWorkItem i (Some current) a r d)"
    | (ready) "\<not> merged" "status = ''complete''" "rd_ok (completionReadinessForWorkItem i (Some current) a r d)"
    | (settled) "merged" "status = ''complete''"
    | (other) "\<not> merged" "status \<noteq> ''complete''" "sw_merge current \<noteq> Some ''merge_authorized''"
        "\<not> (wi_ended (sw_status current) \<and> \<not> wi_ended status \<and> sw_status current \<noteq> status \<and> \<not> isActiveIterativeWorkItemRecord current)"
    by blast
  then show thesis
  proof cases
    case merged
    then have "?u = (d, False)" by (simp add: updateWorkItemStatus_def Some merged_def [symmetric] Let_def)
    then show thesis using rejected by simp
  next
    case auth
    then have "?u = (d, False)" by (simp add: updateWorkItemStatus_def Some merged_def [symmetric] Let_def)
    then show thesis using rejected by simp
  next
    case ended
    then have "?u = (d, False)" by (auto simp: updateWorkItemStatus_def Some merged_def [symmetric] Let_def)
    then show thesis using rejected by simp
  next
    case unready
    then have "?u = (d, False)" by (simp add: updateWorkItemStatus_def Some merged_def [symmetric] Let_def wi_ended_def TERMINAL_WORK_ITEM_STATUSES_def)
    then show thesis using rejected by simp
  next
    case ready
    let ?d2 = "case rd_plan (completionReadinessForWorkItem i (Some current) a r d) of None \<Rightarrow> d | Some pl \<Rightarrow> settleWorkItemReviewPlan hk ts pl d"
    have u: "?u = (wi_change hk ts i status current merged p ?d2, True)"
      using ready by (simp add: updateWorkItemStatus_def Some merged_def [symmetric] Let_def wi_ended_def TERMINAL_WORK_ITEM_STATUSES_def)
    have "wis_same d1 ?d2" unfolding d1_same [OF ready(1)] by (simp add: settle_plan_same [OF hk] split: option.split)
    from row [OF this] show thesis
      by (intro accepted [OF Some merged_def]) (use ready u m in \<open>simp_all add: change_allowed_def wi_ended_def TERMINAL_WORK_ITEM_STATUSES_def\<close>)
  next
    case settled
    let ?d2 = "settleMergedWorkItemReviewJobs hk ts i d1"
    have u: "?u = (wi_change hk ts i status current merged p ?d2, True)"
      using settled by (simp add: updateWorkItemStatus_def Some merged_def [symmetric] d1_def Let_def wi_ended_def TERMINAL_WORK_ITEM_STATUSES_def)
    from row [OF settle_merged_same [OF hk]] show thesis
      by (intro accepted [OF Some merged_def]) (use settled u in \<open>simp_all add: change_allowed_def wi_ended_def TERMINAL_WORK_ITEM_STATUSES_def\<close>)
  next
    case other
    have u: "?u = (wi_change hk ts i status current merged p d, True)"
      using other by (auto simp: updateWorkItemStatus_def Some merged_def [symmetric] Let_def)
    from row [OF wis_same_refl] have "row_change i (changed_row status ts current merged \<circ> settle_row current merged) d (fst ?u)"
      unfolding u fst_conv d1_same [OF other(1)] .
    then show thesis by (intro accepted [OF Some merged_def]) (use other u m in \<open>auto simp: change_allowed_def\<close>)
  qed
qed

section \<open>What lasts\<close>

text \<open>There is such a work item, and its row satisfies \<open>P\<close>.\<close>

definition wi_is :: "nat \<Rightarrow> (swi \<Rightarrow> bool) \<Rightarrow> sdb \<Rightarrow> bool" where
  "wi_is i P d \<longleftrightarrow> list_ex (\<lambda>w. sw_id w = i) (sd_wis d) \<and> list_all (\<lambda>w. sw_id w = i \<longrightarrow> P w) (sd_wis d)"

lemma wi_is_same: "wis_same d d' \<Longrightarrow> wi_is i P d \<Longrightarrow> wi_is i P d'"
  by (simp add: wi_is_def wis_same_def)

lemma wi_is_row:
  assumes "row_change k f d d'" and "\<And>w. sw_id (f w) = sw_id w" and "k = i \<Longrightarrow> (\<And>w. w \<in> set (sd_wis d) \<Longrightarrow> P w \<Longrightarrow> P (f w))"
    and "wi_is i P d"
  shows "wi_is i P d'"
proof -
  have wis: "sd_wis d' = map (\<lambda>w. if sw_id w = k then f w else w) (sd_wis d)" using assms(1) by (simp add: row_change_def wis_same_def)
  show ?thesis
    unfolding wi_is_def
  proof
    obtain w where w: "w \<in> set (sd_wis d)" "sw_id w = i" using assms(4) by (auto simp: wi_is_def list_ex_iff)
    have "sw_id (if sw_id w = k then f w else w) = i" using w(2) assms(2) by simp
    then show "list_ex (\<lambda>w. sw_id w = i) (sd_wis d')" unfolding wis list_ex_iff using w(1) by force
    show "list_all (\<lambda>w. sw_id w = i \<longrightarrow> P w) (sd_wis d')"
      using assms(2-4) unfolding wis by (auto simp: wi_is_def list_all_iff)
  qed
qed

lemma wi_is_current: "wi_is i P d \<Longrightarrow> getWorkItem i d = Some w \<Longrightarrow> P w"
  by (auto simp: wi_is_def getWorkItem_def find_Some_iff list_all_iff)

text \<open>The events that write the row of a work item other than by its status machine.\<close>

definition writes_row :: "nat \<Rightarrow> status_event \<Rightarrow> bool" where
  "writes_row i ev \<longleftrightarrow> (case ev of SMergeState k ms \<Rightarrow> k = i \<and> ms \<noteq> Some ''merged'' | SRelease k _ \<Rightarrow> k = i | SMergeFailed k \<Rightarrow> k = i
     | SHold k \<Rightarrow> k = i | SReopen k _ \<Rightarrow> k = i | NMetadata k _ _ _ \<Rightarrow> k = i | SReject k _ _ \<Rightarrow> k = i | SRecover k _ \<Rightarrow> k = i | _ \<Rightarrow> False)"

lemma row_simps [simp]: "sw_id (requeue_wi_row n w) = sw_id w" "sw_id (reopen_failed_row st w) = sw_id w" "sw_id (routing_row mo n m w) = sw_id w"
  by (simp_all add: requeue_wi_row_def reopen_failed_row_def routing_row_def)

text \<open>
  A state of a work item that the status machine keeps. What it promises: accepted changes and the progress of a merge
  keep it, and of the events that write the row directly, those that it does not name as ending it.
\<close>

locale lasting_state =
  fixes P :: "swi \<Rightarrow> bool" and ends :: "nat \<Rightarrow> status_event \<Rightarrow> bool"
  assumes merge: "P w \<Longrightarrow> P (w\<lparr>sw_merge := Some ''merged''\<rparr>)"
    and authorize: "P w \<Longrightarrow> sw_merge w \<noteq> Some ''merged'' \<Longrightarrow> P (w\<lparr>sw_merge := Some ''merge_authorized''\<rparr>)"
    and change: "P current \<Longrightarrow> P w \<Longrightarrow> change_allowed current merged status \<Longrightarrow> P (changed_row status ts current merged w)"
    and branch: "P w \<Longrightarrow> P (w\<lparr>sw_branch := b\<rparr>)"
    and direct: "hooks_keep hk \<Longrightarrow> writes_row i ev \<Longrightarrow> \<not> ends i ev \<Longrightarrow> wi_is i P d \<Longrightarrow> wi_is i P (status_step hk (ts, ev) d)"
begin

lemma lasts_update:
  assumes hk: "hooks_keep hk" and P: "wi_is i P d"
  shows "wi_is i P (fst (updateWorkItemStatus hk ts k status a r p d))"
proof (cases rule: update_cases [OF hk, of ts k status a r p d, case_names rejected accepted])
  case rejected
  then show ?thesis using P by simp
next
  case (accepted current merged)
  show ?thesis
  proof (rule wi_is_row [OF accepted(5) _ _ P])
    fix w assume "k = i" "P w"
    moreover have "P current" if "k = i" using wi_is_current [OF P] accepted(1) that by simp
    ultimately show "P ((changed_row status ts current merged \<circ> settle_row current merged) w)"
      using change [OF _ _ accepted(3)] merge by (simp add: settle_row_def)
  qed simp
qed

lemma lasts_merge: "hooks_keep hk \<Longrightarrow> wi_is i P d \<Longrightarrow> wi_is i P (setMergeState hk ts k (Some ''merged'') d)"
  by (rule wi_is_row [OF setMergeState_row]) (simp_all add: merge)

lemma lasts_refresh:
  assumes hk: "hooks_keep hk" and P: "wi_is i P d"
  shows "wi_is i P (fst (refreshWorkItemStatus hk ts k d))"
proof -
  have f: "fst (case U of (d2, ok) \<Rightarrow> (d2, g ok)) = fst U" for U :: "sdb \<times> bool" and g :: "bool \<Rightarrow> string option" by (cases U) simp
  show ?thesis
    by (simp add: refreshWorkItemStatus_def Let_def f lasts_update [OF hk] lasts_merge [OF hk] P split: option.split)
qed

lemma lasts_fold: "(\<And>x d. wi_is i P d \<Longrightarrow> wi_is i P (F x d)) \<Longrightarrow> wi_is i P d \<Longrightarrow> wi_is i P (fold F xs d)"
  by (induction xs arbitrary: d) simp_all

lemma lasts_refresh_all:
  assumes hk: "hooks_keep hk" and P: "wi_is i P d"
  shows "wi_is i P (fst (refreshWorkItemStatuses hk ts statuses d))"
proof -
  let ?F = "\<lambda>w (d, n). if sw_id w = 0 then (d, n) else case refreshWorkItemStatus hk ts (sw_id w) d of (d1, r) \<Rightarrow> (d1, if r = None then n else Suc n)"
  have all: "wi_is i P (fst (fold ?F ws s))" if "wi_is i P (fst s)" for ws s using that
  proof (induction ws arbitrary: s)
    case (Cons w ws)
    obtain d n where s: "s = (d, n)" by (cases s)
    obtain d1 r where f: "refreshWorkItemStatus hk ts (sw_id w) d = (d1, r)" by (rule prod.exhaust)
    have "wi_is i P d1" using lasts_refresh [OF hk, of i d ts "sw_id w"] Cons.prems by (simp add: s f)
    then show ?case using Cons by (simp add: s f)
  qed simp
  show ?thesis unfolding refreshWorkItemStatuses_def by (rule all) (simp add: P)
qed

lemma lasts_finish:
  assumes hk: "hooks_keep hk" and P: "wi_is i P d"
  shows "wi_is i P (fst (finish_unstarted Q hk ts k d))"
proof (cases "getJob k d")
  case None
  then show ?thesis using P by (simp add: finish_unstarted_def)
next
  case (Some j)
  obtain d1 ok where u: "updateJobStatus hk ts k ''succeeded'' [] None False d = (d1, ok)" by (rule prod.exhaust)
  have "wis_same d d1" using updateJobStatus_same [OF hk, of d ts k "''succeeded''" "[]" None False] by (simp add: u)
  then have "wi_is i P d1" by (rule wi_is_same) (rule P)
  then show ?thesis using P lasts_refresh [OF hk] by (simp add: finish_unstarted_def Some u)
qed

lemma lasts_reconcile:
  assumes hk: "hooks_keep hk"
  shows "wi_is i P d \<Longrightarrow> wi_is i P (reconcileMergedWorkItemReviewStates hk ts d)"
  unfolding reconcileMergedWorkItemReviewStates_def
proof (rule lasts_fold)
  fix w :: swi and d assume P: "wi_is i P d"
  define d1 where "d1 = (if sw_merge w \<noteq> Some ''merged'' then upd_swi (sw_id w) (\<lambda>x. x\<lparr>sw_merge := Some ''merged''\<rparr>) d else d)"
  have "wi_is i P (upd_swi (sw_id w) (\<lambda>x. x\<lparr>sw_merge := Some ''merged''\<rparr>) d)"
    by (rule wi_is_row [OF row_change_upd _ _ P]) (simp_all add: merge)
  then have "wi_is i P d1" using P by (simp add: d1_def)
  then have "wi_is i P (settleMergedWorkItemReviewJobs hk ts (sw_id w) d1)" by (rule wi_is_same [OF settle_merged_same [OF hk]])
  then show "wi_is i P (reconcile_merged_wi hk ts w d)"
    using lasts_update [OF hk] by (simp add: reconcile_merged_wi_def Let_def d1_def [symmetric])
qed

lemma lasts_append:
  assumes "wi_is i P d" and "getWorkItem (sw_id w) d = None"
  shows "wi_is i P (d\<lparr>sd_wis := sd_wis d @ [w]\<rparr>)"
proof -
  have "sw_id w \<noteq> i" using assms by (auto simp: wi_is_def getWorkItem_def find_None_iff list_ex_iff)
  then show ?thesis using assms(1) by (simp add: wi_is_def)
qed

lemma lasts_authorize:
  assumes hk: "hooks_keep hk" and P: "wi_is i P d"
  shows "wi_is i P (fst (authorizeWorkItemAutoMerge hk k expected d))"
proof (cases "getWorkItem k d")
  case None
  then show ?thesis using P by (simp add: authorizeWorkItemAutoMerge_def)
next
  case (Some w)
  obtain d1 b where h: "hk_review hk w d = (d1, b)" by (rule prod.exhaust)
  have "wis_same d d1" using hooks_keepD(5) [OF hk, of d w] by (simp add: h)
  then have P1: "wi_is i P d1" using P by (rule wi_is_same)
  have "wi_is i P (upd_swi k (\<lambda>x. if sw_status x = ''complete'' \<and> sw_branch x = Some br \<and> sw_merge x \<noteq> Some ''merged''
                 then x\<lparr>sw_merge := Some ''merge_authorized''\<rparr> else x) d1)" for br
    by (rule wi_is_row [OF row_change_upd _ _ P1]) (simp_all add: authorize)
  then show ?thesis using P P1 by (simp add: authorizeWorkItemAutoMerge_def Some h Let_def)
qed

lemma lasts_finalize:
  assumes hk: "hooks_keep hk" and P: "wi_is i P d"
  shows "wi_is i P (fst (finalizeApprovedWorkItemMerge hk ts k d))"
proof -
  let ?d1 = "setMergeState hk ts k (Some ''merged'') d"
  have "wi_is i P (fst (updateWorkItemStatus hk ts k ''complete'' True True [] ?d1))"
    by (rule lasts_update [OF hk lasts_merge [OF hk P]])
  then show ?thesis using P
    by (cases "updateWorkItemStatus hk ts k ''complete'' True True [] ?d1") (simp add: finalizeApprovedWorkItemMerge_def split: option.split)
qed

text \<open>An event that writes the row of another work item.\<close>

lemma lasts_other:
  assumes hk: "hooks_keep hk" and P: "wi_is i P d" and "k \<noteq> i" and "\<And>w. sw_id (f w) = sw_id w"
  shows "wi_is i P (upd_swi k f d)"
  by (rule wi_is_row [OF row_change_upd _ _ P]) (use assms(3,4) in simp_all)

lemma lasts_step:
  assumes hk: "hooks_keep hk" and P: "wi_is i P d" and ev: "\<not> ends i ev"
  shows "wi_is i P (status_step hk (ts, ev) d)"
proof (cases "writes_row i ev")
  case True
  then show ?thesis using direct [OF hk _ ev P] by blast
next
  case False
  show ?thesis
  proof (cases ev)
    case (SJob k status expected token force)
    then show ?thesis using wi_is_same [OF updateJobStatus_same [OF hk] P] by simp
  next
    case (SCancelJobs k)
    then show ?thesis using wi_is_same [OF cancel_jobs_same [OF hk] P] by simp
  next
    case (SMergeState k ms)
    show ?thesis
    proof (cases "ms = Some ''merged''")
      case True
      then show ?thesis using lasts_merge [OF hk P] SMergeState by simp
    next
      case other: False
      then have "k \<noteq> i" using False SMergeState by (simp add: writes_row_def)
      then show ?thesis using lasts_other [OF hk P, of k "\<lambda>x. x\<lparr>sw_merge := ms\<rparr>"] SMergeState other by (simp add: setMergeState_def Let_def)
    qed
  next
    case (SRelease k previous)
    then have "k \<noteq> i" using False by (simp add: writes_row_def)
    then show ?thesis using lasts_other [OF hk P, of k] SRelease by (simp add: releaseWorkItemAutoMergeAuthorization_def)
  next
    case (SMergeFailed k)
    then have "k \<noteq> i" using False by (simp add: writes_row_def)
    then have "wi_is i P (upd_swi k (\<lambda>w. if sw_merge w = Some ''merged'' then w else w\<lparr>sw_merge := Some ''merge_failed''\<rparr>) d)"
      by (rule lasts_other [OF hk P]) simp
    then have "wi_is i P (hk_failure hk k (upd_swi k (\<lambda>w. if sw_merge w = Some ''merged'' then w else w\<lparr>sw_merge := Some ''merge_failed''\<rparr>) d))"
      by (rule wi_is_same [OF hooks_keepD(6) [OF hk]])
    then show ?thesis using P SMergeFailed by (simp add: markWorkItemMergeFailed_def)
  next
    case (SHold k)
    then have "k \<noteq> i" using False by (simp add: writes_row_def)
    then show ?thesis using lasts_other [OF hk P, of k] P SHold by (simp add: holdWorkItemForPendingMerge_def split: option.split)
  next
    case (SReopen k status)
    then have "k \<noteq> i" using False by (simp add: writes_row_def)
    then have 1: "wi_is i P (upd_swi k (\<lambda>w. (wi_status_row status ts w)\<lparr>sw_merge := None\<rparr>) d)" by (rule lasts_other [OF hk P]) simp
    have "wi_is i P (x\<lparr>sd_merges := m\<rparr>)" if "wi_is i P x" for x m using that by (simp add: wi_is_def)
    then show ?thesis using P 1 SReopen by (simp add: reopenWorkItemForFollowUp_def Let_def split: option.split)
  next
    case (SReject k preserve needs)
    then have "k \<noteq> i" using False by (simp add: writes_row_def)
    then have "wi_is i P (upd_swi k (requeue_wi_row needs) (hk_rework hk k preserve d))"
      by (rule lasts_other [OF hk wi_is_same [OF hooks_keepD(7) [OF hk] P]]) simp
    then show ?thesis using P SReject lasts_refresh [OF hk] by (simp add: requeueWorkItemAfterRejection_def)
  next
    case (SRecover k status)
    then have "k \<noteq> i" using False by (simp add: writes_row_def)
    then have "wi_is i P (upd_swi k (reopen_failed_row status) d)" by (rule lasts_other [OF hk P]) simp
    then show ?thesis using P SRecover by (simp add: reopenFailedWorkItem_def)
  next
    case (NMetadata k mode needs m)
    then have "k \<noteq> i" using False by (simp add: writes_row_def)
    then show ?thesis using lasts_other [OF hk P, of k] NMetadata by simp
  next
    case (NBranch k b)
    show ?thesis unfolding NBranch status_step.simps by (rule wi_is_row [OF row_change_upd _ _ P]) (simp_all add: branch)
  next
    case (NWorkItem w)
    then show ?thesis using lasts_append [OF P] P by simp
  next
    case (NPayload k p)
    then show ?thesis using wi_is_same [OF wis_same_upd(1) P] by simp
  next
    case (NGateState k st action)
    then show ?thesis using wi_is_same [OF wis_same_upd(2) P] by simp
  next
    case (NJob j)
    then show ?thesis using P by (simp add: wi_is_def)
  next
    case (NGate g)
    then show ?thesis using P by (simp add: wi_is_def)
  next
    case (NMerged k)
    then show ?thesis using P by (simp add: wi_is_def)
  qed (simp_all add: lasts_update [OF hk P] lasts_refresh [OF hk P] lasts_refresh_all [OF hk P] lasts_finish [OF hk P] skipJob_def
    completeJobExecutedByPlanner_def lasts_authorize [OF hk P] lasts_finalize [OF hk P] lasts_reconcile [OF hk P])
qed

lemma lasts_run:
  assumes "hooks_keep hk" and "wi_is i P d" and "list_all (\<lambda>(ts, ev). \<not> ends i ev) es"
  shows "wi_is i P (fold (status_step hk) es d)"
  using assms(2,3)
proof (induction es arbitrary: d)
  case (Cons e es)
  obtain ts ev where e: "e = (ts, ev)" by (cases e)
  then show ?case using lasts_step [OF assms(1)] Cons by simp
qed simp

end

text \<open>What the events that write a row directly make of it.\<close>

fun direct_row :: "string \<Rightarrow> status_event \<Rightarrow> swi \<Rightarrow> swi" where
  "direct_row ts (SMergeState k ms) w = w\<lparr>sw_merge := ms\<rparr>"
| "direct_row ts (SRelease k previous) w =
     (if sw_merge w = Some ''merge_authorized'' then w\<lparr>sw_merge := (if previous = Some ''merge_authorized'' then None else previous)\<rparr> else w)"
| "direct_row ts (SMergeFailed k) w = (if sw_merge w = Some ''merged'' then w else w\<lparr>sw_merge := Some ''merge_failed''\<rparr>)"
| "direct_row ts (SReopen k status) w = (wi_status_row status ts w)\<lparr>sw_merge := None\<rparr>"
| "direct_row ts (NMetadata k mode needs m) w = routing_row mode needs m w"
| "direct_row ts (SRecover k status) w = reopen_failed_row status w"
| "direct_row ts ev w = w"

lemma direct_rows:
  assumes hk: "hooks_keep hk" and P: "wi_is i P d" and ev: "writes_row i ev" and row: "\<And>w. P w \<Longrightarrow> P (direct_row ts ev w)"
    and hold: "ev = SHold i \<or> (\<exists>p n. ev = SReject i p n) \<Longrightarrow> (\<And>w. P w \<Longrightarrow> sw_merge w = Some ''merged'')"
  shows "wi_is i P (status_step hk (ts, ev) d)"
proof -
  have id: "sw_id (direct_row ts ev w) = sw_id w" for w by (cases "(ts, ev, w)" rule: direct_row.cases) simp_all
  have 1: "wi_is i P (upd_swi i (direct_row ts ev) d)" by (rule wi_is_row [OF row_change_upd id row P])
  show ?thesis
  proof (cases ev)
    case (SMergeState k ms)
    then have k: "k = i" "ms \<noteq> Some ''merged''" using ev by (simp_all add: writes_row_def)
    have "direct_row ts ev = (\<lambda>w. w\<lparr>sw_merge := ms\<rparr>)" by (rule ext) (simp add: SMergeState)
    then show ?thesis using 1 SMergeState k by (simp add: setMergeState_def Let_def)
  next
    case (SRelease k previous)
    then have k: "k = i" using ev by (simp add: writes_row_def)
    have "direct_row ts ev = (\<lambda>w. if sw_merge w = Some ''merge_authorized''
      then w\<lparr>sw_merge := (if previous = Some ''merge_authorized'' then None else previous)\<rparr> else w)" by (rule ext) (simp add: SRelease)
    then show ?thesis using 1 SRelease k by (simp add: releaseWorkItemAutoMergeAuthorization_def)
  next
    case (SMergeFailed k)
    then have k: "k = i" using ev by (simp add: writes_row_def)
    have "direct_row ts ev = (\<lambda>w. if sw_merge w = Some ''merged'' then w else w\<lparr>sw_merge := Some ''merge_failed''\<rparr>)"
      by (rule ext) (simp add: SMergeFailed)
    then show ?thesis using 1 P SMergeFailed k wi_is_same [OF hooks_keepD(6) [OF hk]] by (simp add: markWorkItemMergeFailed_def)
  next
    case (SHold k)
    then have k: "k = i" using ev by (simp add: writes_row_def)
    show ?thesis
    proof (cases "getWorkItem i d")
      case None
      then show ?thesis using P SHold k by (simp add: holdWorkItemForPendingMerge_def)
    next
      case (Some w)
      then have "sw_merge w = Some ''merged''" using hold SHold k wi_is_current [OF P Some] by simp
      then show ?thesis using P SHold k Some by (simp add: holdWorkItemForPendingMerge_def)
    qed
  next
    case (SReopen k status)
    then have k: "k = i" using ev by (simp add: writes_row_def)
    have "direct_row ts ev = (\<lambda>w. (wi_status_row status ts w)\<lparr>sw_merge := None\<rparr>)" by (rule ext) (simp add: SReopen)
    moreover have "wi_is i P (x\<lparr>sd_merges := m\<rparr>)" if "wi_is i P x" for x m using that by (simp add: wi_is_def)
    ultimately show ?thesis using 1 P SReopen k by (simp add: reopenWorkItemForFollowUp_def Let_def split: option.split)
  next
    case (NMetadata k mode needs m)
    then have k: "k = i" using ev by (simp add: writes_row_def)
    have "direct_row ts ev = routing_row mode needs m" by (rule ext) (simp add: NMetadata)
    then show ?thesis using 1 NMetadata k by simp
  next
    case (SRecover k status)
    then have k: "k = i" using ev by (simp add: writes_row_def)
    have "direct_row ts ev = reopen_failed_row status" by (rule ext) (simp add: SRecover)
    then show ?thesis using 1 P SRecover k by (simp add: reopenFailedWorkItem_def)
  next
    case (SReject k preserve needs)
    then have k: "k = i" using ev by (simp add: writes_row_def)
    have "reviewRejectionReadiness i preserve d \<noteq> None"
    proof (cases "getWorkItem i d")
      case None
      then show ?thesis by (simp add: reviewRejectionReadiness_def)
    next
      case (Some w)
      then have "sw_merge w = Some ''merged''" using hold SReject k wi_is_current [OF P Some] by simp
      then show ?thesis using Some by (simp add: reviewRejectionReadiness_def effectiveMergedEvidence_def)
    qed
    then show ?thesis using P SReject k by (simp add: requeueWorkItemAfterRejection_def)
  qed (use ev in \<open>simp_all add: writes_row_def\<close>)
qed

definition merged_row :: "swi \<Rightarrow> bool" where
  "merged_row w \<longleftrightarrow> sw_merge w = Some ''merged'' \<and> sw_status w = ''complete''"

definition ended_row :: "swi \<Rightarrow> bool" where
  "ended_row w \<longleftrightarrow> wi_ended (sw_status w) \<and> \<not> isActiveIterativeWorkItemRecord w"

definition claimed_row :: "swi \<Rightarrow> bool" where
  "claimed_row w \<longleftrightarrow> sw_merge w \<in> {Some ''merge_authorized'', Some ''merged''} \<and> sw_status w = ''complete''"

definition unmerges :: "nat \<Rightarrow> status_event \<Rightarrow> bool" where
  "unmerges i ev \<longleftrightarrow> (case ev of SReopen k _ \<Rightarrow> k = i | SMergeState k ms \<Rightarrow> k = i \<and> ms \<noteq> Some ''merged'' | _ \<Rightarrow> False)"

definition restarts :: "nat \<Rightarrow> status_event \<Rightarrow> bool" where
  "restarts i ev \<longleftrightarrow> (case ev of SReopen k _ \<Rightarrow> k = i | SHold k \<Rightarrow> k = i | NMetadata k _ _ _ \<Rightarrow> k = i
     | SReject k _ _ \<Rightarrow> k = i | SRecover k _ \<Rightarrow> k = i | _ \<Rightarrow> False)"

definition unclaims :: "nat \<Rightarrow> status_event \<Rightarrow> bool" where
  "unclaims i ev \<longleftrightarrow> (case ev of SReopen k _ \<Rightarrow> k = i | SHold k \<Rightarrow> k = i | SRelease k _ \<Rightarrow> k = i | SMergeFailed k \<Rightarrow> k = i
     | SMergeState k ms \<Rightarrow> k = i \<and> ms \<noteq> Some ''merged'' | SReject k _ _ \<Rightarrow> k = i | _ \<Rightarrow> False)"

lemma writes_row_cases:
  assumes "writes_row i ev"
  obtains ms where "ev = SMergeState i ms" "ms \<noteq> Some ''merged''" | previous where "ev = SRelease i previous" | "ev = SMergeFailed i" | "ev = SHold i"
    | status where "ev = SReopen i status" | mode needs m where "ev = NMetadata i mode needs m"
    | preserve needs where "ev = SReject i preserve needs" | status where "ev = SRecover i status"
  using assms by (cases ev) (simp_all add: writes_row_def)

lemma merged_direct:
  assumes "hooks_keep hk" and ev: "writes_row i ev" "\<not> unmerges i ev" and "wi_is i merged_row d"
  shows "wi_is i merged_row (status_step hk (ts, ev) d)"
proof (rule direct_rows [OF assms(1,4) ev(1)])
  show "merged_row (direct_row ts ev w)" if "merged_row w" for w
    using ev(1) by (cases rule: writes_row_cases) (use ev(2) that in \<open>simp_all add: merged_row_def routing_row_def reopen_failed_row_def unmerges_def\<close>)
  show "sw_merge w = Some ''merged''" if "merged_row w" for w using that by (simp add: merged_row_def)
qed

lemma ended_direct:
  assumes "hooks_keep hk" and ev: "writes_row i ev" "\<not> restarts i ev" and "wi_is i ended_row d"
  shows "wi_is i ended_row (status_step hk (ts, ev) d)"
proof (rule direct_rows [OF assms(1,4) ev(1)])
  show "ended_row (direct_row ts ev w)" if "ended_row w" for w
    using ev(1) by (cases rule: writes_row_cases) (use ev(2) that in \<open>simp_all add: ended_row_def routing_row_def reopen_failed_row_def restarts_def isActiveIterativeWorkItemRecord_def\<close>)
  show "sw_merge w = Some ''merged''" if "ev = SHold i \<or> (\<exists>p n. ev = SReject i p n)" for w
    using that ev(2) by (auto simp: restarts_def)
qed

lemma claimed_direct:
  assumes "hooks_keep hk" and ev: "writes_row i ev" "\<not> unclaims i ev" and "wi_is i claimed_row d"
  shows "wi_is i claimed_row (status_step hk (ts, ev) d)"
proof (rule direct_rows [OF assms(1,4) ev(1)])
  show "claimed_row (direct_row ts ev w)" if "claimed_row w" for w
    using ev(1) by (cases rule: writes_row_cases) (use ev(2) that in \<open>simp_all add: claimed_row_def routing_row_def reopen_failed_row_def unclaims_def\<close>)
  show "sw_merge w = Some ''merged''" if "ev = SHold i \<or> (\<exists>p n. ev = SReject i p n)" for w
    using that ev(2) by (auto simp: unclaims_def)
qed

interpretation merged: lasting_state merged_row unmerges
proof
  show "merged_row (changed_row status ts current merged w)"
    if "merged_row current" "merged_row w" "change_allowed current merged status" for current w merged status ts
    using that by (simp add: merged_row_def change_allowed_def)
  show "wi_is i merged_row (status_step hk (ts, ev) d)"
    if "hooks_keep hk" "writes_row i ev" "\<not> unmerges i ev" "wi_is i merged_row d" for hk i ev d ts
    by (rule merged_direct [OF that])
qed (simp_all add: merged_row_def)

interpretation ended: lasting_state ended_row restarts
proof
  show "ended_row (changed_row status ts current merged w)"
    if "ended_row current" "ended_row w" "change_allowed current merged status" for current w merged status ts
    using that by (auto simp: ended_row_def change_allowed_def isActiveIterativeWorkItemRecord_def)
  show "wi_is i ended_row (status_step hk (ts, ev) d)"
    if "hooks_keep hk" "writes_row i ev" "\<not> restarts i ev" "wi_is i ended_row d" for hk i ev d ts
    by (rule ended_direct [OF that])
qed (simp_all add: ended_row_def isActiveIterativeWorkItemRecord_def)

interpretation claimed: lasting_state claimed_row unclaims
proof
  show "claimed_row (changed_row status ts current merged w)"
    if "claimed_row current" "claimed_row w" "change_allowed current merged status" for current w merged status ts
    using that by (auto simp: claimed_row_def change_allowed_def)
  show "wi_is i claimed_row (status_step hk (ts, ev) d)"
    if "hooks_keep hk" "writes_row i ev" "\<not> unclaims i ev" "wi_is i claimed_row d" for hk i ev d ts
    by (rule claimed_direct [OF that])
qed (simp_all add: claimed_row_def)

section \<open>Acceptance\<close>

lemma list_by_id: "getWorkItem i d = Some w \<Longrightarrow> sw_id w = i \<and> w \<in> set (sd_wis d)"
  by (auto simp: getWorkItem_def find_Some_iff)

lemma row_change_get:
  assumes "row_change i f d d'" and "\<And>w. sw_id (f w) = sw_id w"
  shows "getWorkItem i d' = map_option f (getWorkItem i d)"
proof -
  have "find (\<lambda>w. sw_id w = i) (map (\<lambda>w. if sw_id w = i then f w else w) ws) = map_option f (find (\<lambda>w. sw_id w = i) ws)" for ws
    by (induction ws) (simp_all add: assms(2))
  moreover have "sd_wis d' = map (\<lambda>w. if sw_id w = i then f w else w) (sd_wis d)"
    using assms(1) by (simp add: row_change_def wis_same_def)
  ultimately show ?thesis by (simp add: getWorkItem_def)
qed

text \<open>An accepted change is on the row.\<close>

lemma accepted_row:
  assumes "hooks_keep hk" and "snd (updateWorkItemStatus hk ts i status a r p d)"
  shows "\<exists>w. getWorkItem i (fst (updateWorkItemStatus hk ts i status a r p d)) = Some w \<and> sw_status w = status"
proof (cases rule: update_cases [OF assms(1), of ts i status a r p d, case_names rejected accepted])
  case rejected
  then show ?thesis using assms(2) by simp
next
  case (accepted current merged)
  then show ?thesis using row_change_get [OF accepted(5)] by simp
qed

text \<open>Without evidence of a merge, what a change needs is enough for it.\<close>

lemma update_accepts:
  assumes "getWorkItem i d = Some w" and "\<not> effectiveMergedEvidence d w" and "change_allowed w False status"
    and "status = ''complete'' \<Longrightarrow> rd_ok (completionReadinessForWorkItem i (Some w) a r d)"
  shows "snd (updateWorkItemStatus hk ts i status a r p d)"
proof (cases "status = ''complete''")
  case True
  then show ?thesis using assms by (simp add: updateWorkItemStatus_def Let_def change_allowed_def wi_ended_def TERMINAL_WORK_ITEM_STATUSES_def)
next
  case False
  then have "sw_merge w \<noteq> Some ''merge_authorized''"
    "\<not> (wi_ended (sw_status w) \<and> \<not> wi_ended status \<and> sw_status w \<noteq> status \<and> \<not> isActiveIterativeWorkItemRecord w)"
    using assms(3) unfolding change_allowed_def by auto
  then show ?thesis using assms(1,2) False by (simp add: updateWorkItemStatus_def Let_def)
qed

lemma update_merged_accepts:
  assumes "getWorkItem i d = Some w" and "effectiveMergedEvidence d w"
  shows "snd (updateWorkItemStatus hk ts i ''complete'' a r p d)"
  using assms by (simp add: updateWorkItemStatus_def Let_def wi_ended_def TERMINAL_WORK_ITEM_STATUSES_def)

lemma completion_filter: "filter (\<lambda>j. sj_type j \<notin> set NON_COMPLETION_BLOCKING_JOB_TYPES) (filter state_relevant jobs) = filter completion_relevant jobs"
proof -
  have "(\<lambda>j. state_relevant j \<and> sj_type j \<notin> set NON_COMPLETION_BLOCKING_JOB_TYPES) = completion_relevant"
    by (rule ext) (simp add: completion_relevant_def)
  then show ?thesis by (simp add: conj_commute)
qed

text \<open>The execution contract is judged over fewer jobs when the status is computed; what it finds there is found over all.\<close>

lemma bootstrap_is_relevant: "bootstrap_job j \<Longrightarrow> \<not> isShadowFanoutJob j \<Longrightarrow> completion_relevant j"
  by (auto simp: bootstrap_job_def PIPELINE_BOOTSTRAP_JOB_TYPES_def completion_relevant_def state_relevant_def isPostCompletionGateJob_def isPushOfferJob_def
    isMergeVerificationReviewJob_def isPostMergeHeldDbJob_def isDbTaskJob_def isWorkItemDispositionGateJob_def NON_COMPLETION_BLOCKING_JOB_TYPES_def)

lemma relevant_unshadowed: "completion_relevant j \<Longrightarrow> \<not> isShadowFanoutJob j"
  by (simp add: completion_relevant_def state_relevant_def)

lemma missing_mono:
  assumes "missingExecutionReason w (filter completion_relevant jobs) = None"
  shows "missingExecutionReason w (filter (\<lambda>j. \<not> isShadowFanoutJob j) jobs) = None"
proof -
  let ?c = "filter completion_relevant jobs" and ?j = "filter (\<lambda>j. \<not> isShadowFanoutJob j) jobs"
  have boot: "list_ex bootstrap_job ?j \<Longrightarrow> list_ex bootstrap_job ?c" using bootstrap_is_relevant unfolding list_ex_iff by auto
  have more: "list_ex P ?c \<Longrightarrow> list_ex P ?j" for P using relevant_unshadowed unfolding list_ex_iff by auto
  have "\<not> missingRequiredRepoExecution w ?c" "\<not> missingRequiredBuildExecution w ?c"
    using assms by (simp_all add: missingExecutionReason_def split: if_splits)
  then have "\<not> missingRequiredRepoExecution w ?j" "\<not> missingRequiredBuildExecution w ?j"
    using boot more unfolding missingRequiredRepoExecution_def missingRequiredBuildExecution_def by blast+
  then show ?thesis by (simp add: missingExecutionReason_def)
qed

text \<open>A computed completion is ready.\<close>

lemma computed_complete:
  assumes "status_from_jobs w d = Some ''complete''" and "sw_id w = i"
  shows "completionBlockersForWorkItem i d = []" "missingExecutionReason w (filter completion_relevant (listJobsByWorkItem i d)) = None"
  using assms unfolding status_from_jobs_def Let_def completion_filter phase_def by (simp_all split: if_splits)

lemma computed_ready:
  assumes "status_from_jobs w d = Some ''complete''" and "sw_id w = i"
  shows "rd_ok (completionReadinessForWorkItem i (Some w) False False d)"
  using computed_complete [OF assms] missing_mono by (simp add: completionReadinessForWorkItem_def Let_def)

text \<open>A status is computed as soon as a job counts for it.\<close>

lemma status_computed:
  assumes "j \<in> set (listJobsByWorkItem (sw_id w) d)" and "completion_relevant j"
    and "\<forall>x \<in> set (listJobsByWorkItem (sw_id w) d). sj_status x \<in> set JOB_STATUSES"
  shows "status_from_jobs w d \<noteq> None"
proof -
  let ?jobs = "listJobsByWorkItem (sw_id w) d"
  let ?c = "filter completion_relevant ?jobs"
  have c: "j \<in> set ?c" using assms(1,2) by simp
  have ne: "?c \<noteq> []" using c by (metis empty_iff list.set(1))
  have s: "filter state_relevant ?jobs \<noteq> []" using ne unfolding completion_filter [symmetric] by (metis filter.simps(1))
  show ?thesis
  proof (cases "list_all job_ended ?c")
    case True
    then show ?thesis using s ne unfolding status_from_jobs_def Let_def completion_filter by simp
  next
    case False
    then obtain x where x: "x \<in> set ?c" "\<not> job_ended x" unfolding list_all_iff by blast
    then have "sj_status x \<in> set JOB_STATUSES" using assms(3) by simp
    then have "sj_status x = ''waiting_on_human'' \<or> sj_status x \<in> set ACTIVE_LEASE_STATUSES \<or> sj_status x = ''waiting_on_review'' \<or>
        sj_status x = ''blocked'' \<or> sj_status x = ''queued''"
      using x(2) by (auto simp: JOB_STATUSES_def ACTIVE_LEASE_STATUSES_def job_ended_def TERMINAL_JOB_STATUSES_def)
    then have "list_ex (\<lambda>j. sj_status j = ''waiting_on_human'') ?c \<or> list_ex (\<lambda>j. sj_status j \<in> set ACTIVE_LEASE_STATUSES) ?c \<or>
        list_ex (\<lambda>j. sj_status j = ''waiting_on_review'') ?c \<or> list_ex (\<lambda>j. sj_status j = ''blocked'') ?c \<or> list_ex (\<lambda>j. sj_status j = ''queued'') ?c"
      using x(1) unfolding list_ex_iff by blast
    then show ?thesis using s ne False unfolding status_from_jobs_def Let_def completion_filter by (simp del: filter_filter) blast
  qed
qed

text \<open>A merge that has landed completes its work item, whatever its jobs are.\<close>

lemma merged_update_row:
  assumes hk: "hooks_keep hk" and w: "getWorkItem i d = Some w" and m: "sw_merge w = Some ''merged''"
  shows "\<exists>w'. getWorkItem i (fst (updateWorkItemStatus hk ts i ''complete'' a r p d)) = Some w' \<and> merged_row w'"
proof (cases rule: update_cases [OF hk, of ts i "''complete''" a r p d, case_names rejected accepted])
  case rejected
  have "effectiveMergedEvidence d w" using m by (simp add: effectiveMergedEvidence_def)
  then show ?thesis using update_merged_accepts [OF w] rejected(2) by blast
next
  case (accepted current merged)
  then have "current = w" using w by simp
  then show ?thesis using row_change_get [OF accepted(5)] w m by (simp add: settle_row_def merged_row_def)
qed

lemma landed_row:
  assumes hk: "hooks_keep hk" and w: "getWorkItem i d = Some w"
  shows "getWorkItem i (setMergeState hk ts i (Some ''merged'') d) = Some (w\<lparr>sw_merge := Some ''merged''\<rparr>)"
  using row_change_get [OF setMergeState_row [OF hk, of i "Some ''merged''" d ts]] w by simp

lemma finalize_completes:
  assumes hk: "hooks_keep hk" and w: "getWorkItem i d = Some w"
  shows "snd (finalizeApprovedWorkItemMerge hk ts i d)"
    and "\<exists>w'. getWorkItem i (fst (finalizeApprovedWorkItemMerge hk ts i d)) = Some w' \<and> merged_row w'"
proof -
  let ?d1 = "setMergeState hk ts i (Some ''merged'') d"
  have 1: "getWorkItem i ?d1 = Some (w\<lparr>sw_merge := Some ''merged''\<rparr>)" by (rule landed_row [OF hk w])
  have 2: "effectiveMergedEvidence ?d1 (w\<lparr>sw_merge := Some ''merged''\<rparr>)" by (simp add: effectiveMergedEvidence_def)
  obtain d2 ok where u: "updateWorkItemStatus hk ts i ''complete'' True True [] ?d1 = (d2, ok)" by (rule prod.exhaust)
  have ok: "ok" using update_merged_accepts [OF 1 2, of hk ts True True "[]"] by (simp add: u)
  obtain w' where w': "getWorkItem i d2 = Some w'" "merged_row w'"
    using merged_update_row [OF hk 1, of ts True True "[]"] by (auto simp: u)
  have f: "finalizeApprovedWorkItemMerge hk ts i d = (d2, True)"
    using w' ok by (simp add: finalizeApprovedWorkItemMerge_def w u merged_row_def)
  show "snd (finalizeApprovedWorkItemMerge hk ts i d)" by (simp add: f)
  show "\<exists>w'. getWorkItem i (fst (finalizeApprovedWorkItemMerge hk ts i d)) = Some w' \<and> merged_row w'" using w' by (simp add: f)
qed

lemma refresh_completes:
  assumes hk: "hooks_keep hk" and w: "getWorkItem i d = Some w" and m: "effectiveMergedEvidence d w" and c: "sw_status w \<noteq> ''canceled''"
  shows "\<exists>w'. getWorkItem i (fst (refreshWorkItemStatus hk ts i d)) = Some w' \<and> merged_row w'"
proof -
  define d1 where "d1 = (if sw_merge w \<noteq> Some ''merged'' then setMergeState hk ts i (Some ''merged'') d else d)"
  have 1: "getWorkItem i d1 = Some (w\<lparr>sw_merge := Some ''merged''\<rparr>)"
    using landed_row [OF hk w] w by (cases "sw_merge w = Some ''merged''") (simp_all add: d1_def)
  obtain d2 ok where u: "updateWorkItemStatus hk ts i ''complete'' True True [] d1 = (d2, ok)" by (rule prod.exhaust)
  have "\<exists>w'. getWorkItem i d2 = Some w' \<and> merged_row w'" using merged_update_row [OF hk 1, of ts True True "[]"] by (simp add: u)
  moreover have "refreshWorkItemStatus hk ts i d = (if sw_status w = ''complete'' then (d1, None) else (d2, if ok then Some ''complete'' else None))"
    by (simp add: refreshWorkItemStatus_def w m c d1_def [symmetric] u)
  ultimately show ?thesis using 1 by (simp add: merged_row_def)
qed

text \<open>A computed status that the work item may take is taken.\<close>

lemma refresh_takes:
  assumes hk: "hooks_keep hk" and w: "getWorkItem i d = Some w" and m: "\<not> effectiveMergedEvidence d w" and c: "sw_status w \<noteq> ''canceled''"
    and st: "status_from_jobs w d = Some st" and allowed: "change_allowed w False st" and new: "sw_status w \<noteq> st"
  shows "snd (refreshWorkItemStatus hk ts i d) = Some st"
    and "\<exists>w'. getWorkItem i (fst (refreshWorkItemStatus hk ts i d)) = Some w' \<and> sw_status w' = st"
proof -
  have i: "sw_id w = i" using list_by_id [OF w] by simp
  obtain d1 ok where u: "updateWorkItemStatus hk ts i st False False [] d = (d1, ok)" by (rule prod.exhaust)
  have "snd (updateWorkItemStatus hk ts i st False False [] d)"
    by (rule update_accepts [OF w m allowed]) (use st i computed_ready in simp)
  then have ok: "ok" and row: "\<exists>w'. getWorkItem i d1 = Some w' \<and> sw_status w' = st"
    using accepted_row [OF hk, of ts i st False False "[]" d] by (simp_all add: u)
  have f: "refreshWorkItemStatus hk ts i d = (d1, Some st)"
    using new ok by (simp add: refreshWorkItemStatus_def w m c st u)
  show "snd (refreshWorkItemStatus hk ts i d) = Some st" by (simp add: f)
  show "\<exists>w'. getWorkItem i (fst (refreshWorkItemStatus hk ts i d)) = Some w' \<and> sw_status w' = st" using row by (simp add: f)
qed

text \<open>What a completion without a merge has seen of a job that counts.\<close>

definition accounted_for :: "nat \<Rightarrow> bool \<Rightarrow> bool \<Rightarrow> sdb \<Rightarrow> sjob \<Rightarrow> bool" where
  "accounted_for i a r d j \<longleftrightarrow> sj_status j \<in> {''succeeded'', ''canceled''} \<or>
     sj_status j \<in> {''failed'', ''dead_letter''} \<and> (a \<or> (\<exists>x. recovered_by (filter completion_relevant (listJobsByWorkItem i d)) (sj_id j) x)) \<or>
     r \<and> sj_id j \<in> sj_id ` (set (rp_originals (pendingWorkItemReviewSettlement i d)) \<union> set (rp_gates (pendingWorkItemReviewSettlement i d)))"

lemma distinct_own: "distinct (map sj_id (sd_jobs d)) \<Longrightarrow> distinct (map sj_id (filter P (listJobsByWorkItem i d)))"
  unfolding listJobsByWorkItem_def filter_filter by (rule distinct_map_filter)

lemma ready_accounts:
  assumes ready: "rd_ok (completionReadinessForWorkItem i (Some w) a r d)" and ids: "distinct (map sj_id (sd_jobs d))"
    and j: "j \<in> set (listJobsByWorkItem i d)" "completion_relevant j"
  shows "missingExecutionReason w (filter (\<lambda>j. \<not> isShadowFanoutJob j) (listJobsByWorkItem i d)) = None"
    and "accounted_for i a r d j"
proof -
  let ?jobs = "filter completion_relevant (listJobsByWorkItem i d)"
  let ?plan = "pendingWorkItemReviewSettlement i d"
  show none: "missingExecutionReason w (filter (\<lambda>j. \<not> isShadowFanoutJob j) (listJobsByWorkItem i d)) = None"
    using ready by (simp add: completionReadinessForWorkItem_def split: option.splits)
  define b1 where "b1 = (if a then filter (\<lambda>j. sj_status j \<notin> set FAILED_JOB_STATUSES) (completionBlockersForWorkItem i d)
    else completionBlockersForWorkItem i d)"
  have left: "(if r then filter (\<lambda>j. sj_id j \<notin> set (map sj_id (rp_originals ?plan) @ map sj_id (rp_gates ?plan))) b1 else b1) = []"
    using ready unfolding completionReadinessForWorkItem_def option.case none Let_def b1_def [symmetric] by (cases r) simp_all
  show "accounted_for i a r d j"
  proof (cases "j \<in> set b1")
    case True
    have "r" using True left by (cases r) auto
    moreover have "sj_id j \<in> set (map sj_id (rp_originals ?plan) @ map sj_id (rp_gates ?plan))"
      using True left \<open>r\<close> by (simp add: filter_empty_conv)
    ultimately show ?thesis by (auto simp: accounted_for_def)
  next
    case False
    then have "resolved_job ?jobs j \<or> a \<and> sj_status j \<in> {''failed'', ''dead_letter''}"
      using j by (auto simp: b1_def completionBlockersForWorkItem_def Let_def FAILED_JOB_STATUSES_def split: if_splits)
    then show ?thesis
      using recovery_exact [OF distinct_own [OF ids], of "sj_id j" completion_relevant i] by (auto simp: accounted_for_def resolved_job_def)
  qed
qed

lemma complete_earned:
  assumes hk: "hooks_keep hk" and u: "updateWorkItemStatus hk ts i ''complete'' a r p d = (d', True)"
    and w: "getWorkItem i d = Some w" "\<not> effectiveMergedEvidence d w"
    and ids: "distinct (map sj_id (sd_jobs d))" and j: "j \<in> set (listJobsByWorkItem i d)" "completion_relevant j"
  shows "missingExecutionReason w (filter (\<lambda>j. \<not> isShadowFanoutJob j) (listJobsByWorkItem i d)) = None" "accounted_for i a r d j"
proof -
  have "rd_ok (completionReadinessForWorkItem i (Some w) a r d)"
  proof (cases rule: update_cases [OF hk, of ts i "''complete''" a r p d, case_names rejected accepted])
    case rejected
    then show ?thesis using u by simp
  next
    case (accepted current merged)
    then have "current = w" using w(1) by simp
    then show ?thesis using accepted(2,4) w(2) by simp
  qed
  from ready_accounts [OF this ids j]
  show "missingExecutionReason w (filter (\<lambda>j. \<not> isShadowFanoutJob j) (listJobsByWorkItem i d)) = None" "accounted_for i a r d j" .
qed

section \<open>An example\<close>

text \<open>
  A build whose development failed and was fixed, with a review gate still open; the same when the gate is gone, and when the log tells of a
  merge. The hooks here only add a plan job when a work item is rejected.
\<close>

definition ex_pay :: spay where
  "ex_pay = \<lparr>sp_shadow = False, sp_role = None, sp_subtype = None, sp_review_type = None, sp_merge_recovery = False, sp_task_mode = None,
     sp_hold = None, sp_original = None, sp_recovers = []\<rparr>"

definition ex_sjob :: "nat \<Rightarrow> string \<Rightarrow> string \<Rightarrow> nat option \<Rightarrow> sjob" where
  "ex_sjob i ty st parent = \<lparr>sj_id = i, sj_wi = 1, sj_type = ty, sj_status = st, sj_parent = parent, sj_version = 0, sj_owner = None,
     sj_token = None, sj_expires = None, sj_started = None, sj_finished = None, sj_error = None, sj_verdict = ''not_assessed'',
     sj_assess = ''not_started'', sj_assess_error = None, sj_assess_done = None, sj_pay = ex_pay\<rparr>"

definition ex_swi :: "string \<Rightarrow> string option \<Rightarrow> swi" where
  "ex_swi st ms = \<lparr>sw_id = 1, sw_status = st, sw_branch = Some ''b'', sw_merge = ms, sw_mode = ''build'', sw_source = None,
     sw_meta = \<lparr>sm_mode = None, sm_workflow = None, sm_iterate = False, sm_inactive = False, sm_output = None, sm_output_source = None\<rparr>,
     sw_needs_repo = True, sw_started = None, sw_completed = None\<rparr>"

definition ex_done_jobs :: "sjob list" where
  "ex_done_jobs = [ex_sjob 1 ''plan'' ''succeeded'' None, ex_sjob 2 ''dev'' ''failed'' None, ex_sjob 3 ''fix'' ''failed'' (Some 2),
     ex_sjob 4 ''fix'' ''succeeded'' (Some 3)]"

definition ex_sdb :: "swi \<Rightarrow> sjob list \<Rightarrow> (nat \<times> bool) list \<Rightarrow> sdb" where
  "ex_sdb w js merges = \<lparr>sd_wis = [w], sd_jobs = ex_done_jobs @ js, sd_gates = [], sd_merges = merges\<rparr>"

definition ex_hooks :: hooks where
  "ex_hooks = \<lparr>hk_canceled = (\<lambda>j d. d), hk_post_merge = (\<lambda>i js d. d), hk_upstream = (\<lambda>i d. d), hk_disposition = (\<lambda>i st d. d),
     hk_review = (\<lambda>w d. (d, False)), hk_failure = (\<lambda>i d. d),
     hk_rework = (\<lambda>i ids d. d\<lparr>sd_jobs := sd_jobs d @ [ex_sjob (Suc (length (sd_jobs d))) ''plan'' ''queued'' None]\<rparr>),
     hk_upstreams = (\<lambda>w d. []), hk_holding = (\<lambda>i d. False), hk_recorded = (\<lambda>j d. False)\<rparr>"

lemma ex_hooks_keep: "hooks_keep ex_hooks"
  by (simp add: hooks_keep_def ex_hooks_def wis_same_def)

section \<open>Properties\<close>

text \<open>
  C10: \<open>hasSucceededRecoveryDescendant\<close> finds a succeeded recovery exactly when one can be reached: a job other than the original, no
  human gate, that succeeded and is a recovery (by its parent or by the originals its payload names) of a recovery of .. the
  original. The search stops on every graph, also on one with cycles.\<close>

theorem recovery_search_is_reachability:
  assumes "distinct (map sj_id jobs)"
  shows "hasSucceededRecoveryDescendant i jobs \<longleftrightarrow>
    list_ex (\<lambda>r. (i, sj_id r) \<in> (recovery_edges jobs)\<^sup>+ \<and> sj_id r \<noteq> i \<and> recovery_succeeded r) jobs"
  by (simp add: recovery_exact [OF assms] recovered_by_def list_ex_iff Bex_def)

theorem recovery_search_is_reachability_witness:
  "list_ex (\<lambda>r. (2, sj_id r) \<in> (recovery_edges ex_done_jobs)\<^sup>+ \<and> sj_id r \<noteq> 2 \<and> recovery_succeeded r) ex_done_jobs"
proof -
  have "distinct (map sj_id ex_done_jobs)" by (simp add: ex_done_jobs_def ex_sjob_def)
  moreover have "hasSucceededRecoveryDescendant 2 ex_done_jobs" by code_simp
  ultimately show ?thesis using recovery_search_is_reachability by blast
qed

text \<open>
  C4: Completion is earned. When a work item without a landed merge is set to complete, its execution contract is met (a repository
  objective or a build has the jobs it needs), and every job that counts is accounted for: it succeeded or was canceled, it failed and
  has a succeeded recovery or the caller accepts failures, or it is settled by the approval the caller gives. The row is then
  complete, and its branch is up for review.\<close>

theorem completion_is_earned:
  assumes "hooks_keep hk" and "updateWorkItemStatus hk ts i ''complete'' a r p d = (d', True)"
    and "getWorkItem i d = Some w" and "\<not> effectiveMergedEvidence d w"
    and "distinct (map sj_id (sd_jobs d))" and "j \<in> set (listJobsByWorkItem i d)" and "completion_relevant j"
  shows "missingExecutionReason w (filter (\<lambda>j. \<not> isShadowFanoutJob j) (listJobsByWorkItem i d)) = None \<and>
    accounted_for i a r d j \<and>
    (\<exists>w'. getWorkItem i d' = Some w' \<and> sw_status w' = ''complete'')"
proof -
  have "\<exists>w'. getWorkItem i (fst (updateWorkItemStatus hk ts i ''complete'' a r p d)) = Some w' \<and> sw_status w' = ''complete''"
    by (rule accepted_row [OF assms(1)]) (simp add: assms(2))
  then show ?thesis using complete_earned [OF assms] by (simp add: assms(2))
qed

theorem completion_is_earned_witness:
  "let d = ex_sdb (ex_swi ''running'' None) [ex_sjob 5 ''human_input'' ''waiting_on_human'' None] [];
       d' = fst (updateWorkItemStatus ex_hooks ''t'' 1 ''complete'' False True [] d) in
   accounted_for 1 False True d (ex_sjob 2 ''dev'' ''failed'' None) \<and> map_option sw_status (getWorkItem 1 d') = Some ''complete''"
proof -
  define d where "d = ex_sdb (ex_swi ''running'' None) [ex_sjob 5 ''human_input'' ''waiting_on_human'' None] []"
  let ?u = "updateWorkItemStatus ex_hooks ''t'' 1 ''complete'' False True [] d"
  have u: "?u = (fst ?u, True)"
  proof -
    have "snd ?u" unfolding d_def by code_simp
    then show ?thesis by (cases ?u) simp
  qed
  have w: "getWorkItem 1 d = Some (ex_swi ''running'' None)" "\<not> effectiveMergedEvidence d (ex_swi ''running'' None)"
    unfolding d_def by code_simp+
  have ids: "distinct (map sj_id (sd_jobs d))" unfolding d_def by code_simp
  have j: "ex_sjob 2 ''dev'' ''failed'' None \<in> set (listJobsByWorkItem 1 d)" "completion_relevant (ex_sjob 2 ''dev'' ''failed'' None)"
    unfolding d_def by code_simp+
  have "accounted_for 1 False True d (ex_sjob 2 ''dev'' ''failed'' None)" "map_option sw_status (getWorkItem 1 (fst ?u)) = Some ''complete''"
    using completion_is_earned [OF ex_hooks_keep u w ids j] by auto
  then show ?thesis by (simp add: d_def)
qed

text \<open>
  C5: A refresh reaches the status that the jobs give. A job that counts gives one, as long as the statuses are those of the catalogue;
  and a work item that is not merged and may take that status has it after the refresh, which reports it. That includes complete:
  what the refresh finds complete, the guards of the status change never refuse.\<close>

theorem refresh_reaches_the_computed_status:
  assumes "hooks_keep hk" and "getWorkItem i d = Some w" and "\<not> effectiveMergedEvidence d w" and "sw_status w \<noteq> ''canceled''"
    and "list_ex completion_relevant (listJobsByWorkItem i d)"
    and "list_all (\<lambda>j. sj_status j \<in> set JOB_STATUSES) (listJobsByWorkItem i d)"
    and "change_allowed w False (the (status_from_jobs w d))"
  shows "\<exists>st. status_from_jobs w d = Some st \<and>
    snd (refreshWorkItemStatus hk ts i d) = (if sw_status w = st then None else Some st) \<and>
    map_option sw_status (getWorkItem i (fst (refreshWorkItemStatus hk ts i d))) = Some st"
proof -
  have i: "sw_id w = i" using list_by_id [OF assms(2)] by simp
  obtain j where j: "j \<in> set (listJobsByWorkItem (sw_id w) d)" "completion_relevant j" using assms(5) unfolding i list_ex_iff by blast
  have all: "\<forall>x \<in> set (listJobsByWorkItem (sw_id w) d). sj_status x \<in> set JOB_STATUSES" using assms(6) unfolding i list_all_iff .
  obtain st where st: "status_from_jobs w d = Some st" using status_computed [OF j all] by (elim not_None_eq [THEN iffD1, THEN exE])
  show ?thesis
  proof (cases "sw_status w = st")
    case True
    then have "refreshWorkItemStatus hk ts i d = (d, None)" by (simp add: refreshWorkItemStatus_def assms(2-4) st)
    then show ?thesis using True assms(2) st by simp
  next
    case False
    have "change_allowed w False st" using assms(7) by (simp add: st)
    from refresh_takes [OF assms(1-4) st this False] show ?thesis using False st by auto
  qed
qed

theorem refresh_reaches_the_computed_status_witness:
  "map_option sw_status (getWorkItem 1 (fst (refreshWorkItemStatus ex_hooks ''t'' 1 (ex_sdb (ex_swi ''running'' None) [] [])))) = Some ''complete''"
proof -
  let ?w = "ex_swi ''running'' None" and ?d = "ex_sdb (ex_swi ''running'' None) [] []"
  have st: "status_from_jobs ?w ?d = Some ''complete''" by code_simp
  have "getWorkItem 1 ?d = Some ?w" "\<not> effectiveMergedEvidence ?d ?w" "sw_status ?w \<noteq> ''canceled''" "list_ex completion_relevant (listJobsByWorkItem 1 ?d)"
    "list_all (\<lambda>j. sj_status j \<in> set JOB_STATUSES) (listJobsByWorkItem 1 ?d)" by code_simp+
  moreover have "change_allowed ?w False (the (status_from_jobs ?w ?d))" unfolding st by code_simp
  ultimately show ?thesis using refresh_reaches_the_computed_status [OF ex_hooks_keep] st by fastforce
qed



text \<open>
  C3: A merged work item stays merged and complete through any sequence of status changes, refreshes, job changes, cancellations,
  authorizations, failed merges, rejections, recoveries, holds and reconciliations, whatever other rows are inserted or written: only a reopening for a follow-up,
  or a caller that writes another merge state over it, ends it.\<close>

theorem merged_work_items_stay_complete:
  assumes "hooks_keep hk" and "wi_is i merged_row d" and "list_all (\<lambda>(ts, ev). \<not> unmerges i ev) es"
  shows "wi_is i merged_row (fold (status_step hk) es d)"
  by (rule merged.lasts_run [OF assms])

theorem merged_work_items_stay_complete_witness:
  "wi_is 1 merged_row (fold (status_step ex_hooks)
     [(''t'', SUpdate 1 ''failed'' False False []), (''u'', SReject 1 [] False), (''v'', SMergeFailed 1), (''w'', SHold 1), (''x'', SRefresh 1)]
     (ex_sdb (ex_swi ''complete'' (Some ''merged'')) [ex_sjob 5 ''dev'' ''failed'' None] []))"
proof -
  have "wi_is 1 merged_row (ex_sdb (ex_swi ''complete'' (Some ''merged'')) [ex_sjob 5 ''dev'' ''failed'' None] [])" by code_simp
  then show ?thesis by (rule merged_work_items_stay_complete [OF ex_hooks_keep]) (simp add: unmerges_def)
qed

text \<open>
  C8: A work item that has ended does not start again. Unless it is an active iterative work item, no sequence of operations
  takes one that is complete, failed or canceled to a status that is none of these, but for a reopening, a rejection or a recovery of its own, a hold for a pending merge, or new metadata.\<close>

theorem ended_work_items_do_not_restart:
  assumes "hooks_keep hk" and "wi_is i ended_row d" and "list_all (\<lambda>(ts, ev). \<not> restarts i ev) es"
  shows "wi_is i ended_row (fold (status_step hk) es d)"
  by (rule ended.lasts_run [OF assms])

theorem ended_work_items_do_not_restart_witness:
  "wi_is 1 ended_row (fold (status_step ex_hooks)
     [(''t'', SUpdate 1 ''running'' False False []), (''u'', NJob (ex_sjob 5 ''dev'' ''queued'' None)), (''v'', SRefresh 1), (''w'', SMergeFailed 1)]
     (ex_sdb (ex_swi ''failed'' None) [] []))"
proof -
  have "wi_is 1 ended_row (ex_sdb (ex_swi ''failed'' None) [] [])" by code_simp
  then show ?thesis by (rule ended_work_items_do_not_restart [OF ex_hooks_keep]) (simp add: restarts_def)
qed

text \<open>
  C9: While its merge is authorized, a work item stays complete: no refresh, no job and no caller of the status change takes it
  elsewhere until the authorization is released, the merge has failed, or the work item is reopened, rejected or held.\<close>

theorem authorized_merge_freezes_status:
  assumes "hooks_keep hk" and "wi_is i claimed_row d" and "list_all (\<lambda>(ts, ev). \<not> unclaims i ev) es"
  shows "wi_is i claimed_row (fold (status_step hk) es d)"
  by (rule claimed.lasts_run [OF assms])

theorem authorized_merge_freezes_status_witness:
  "wi_is 1 claimed_row (fold (status_step ex_hooks)
     [(''t'', NJob (ex_sjob 5 ''dev'' ''failed'' None)), (''u'', SRefresh 1), (''v'', SUpdate 1 ''canceled'' True True []), (''w'', SFinalize 1)]
     (ex_sdb (ex_swi ''complete'' (Some ''merge_authorized'')) [] []))"
proof -
  have "wi_is 1 claimed_row (ex_sdb (ex_swi ''complete'' (Some ''merge_authorized'')) [] [])" by code_simp
  then show ?thesis by (rule authorized_merge_freezes_status [OF ex_hooks_keep]) (simp add: unclaims_def)
qed

end
