(* ===== verification/Spec2Isabelle.thy ===== *)
theory Spec2Isabelle
  imports ResourceGate LeaseTypes SchedulerLocks LaneWaits AdmissionBudget HumanGateRecovery WorkItemStatusSafety
begin

text \<open>
  The coordination core of posse-client: the gates that order asynchronous work on shared
  resources, and the queue rules by which jobs of different work items may write the repository, spend money,
  wait for each other and wait for their operator.

  The program runs coding jobs. A work item owns a branch; its jobs are rows of a SQLite database;
  a scheduler leases queued jobs to workers, and the leases, the dependencies between jobs, the
  file locks, the order of work items and the open questions to the operator decide what may run at the same
  time and what may be merged, and from its jobs follows the state of the work item. Inside a process, asynchronous gates serialize access to shared resources.
  Those two layers are modelled.

  Theories and what they model (files under \<open>src/posse/lib\<close>):
  \<^item> \<open>Prelude\<close>: JavaScript values, the generic lemmas and the interface \<open>step_system\<close> (a step function
    with an invariant), which every stateful component interprets. \<open>Tables\<close>: tables that operations change row by
    row (locale \<open>row_keeping\<close>), for the budget and the human gates.
  \<^item> \<open>AsyncWorkQueue\<close>, \<open>Registry\<close>, \<open>KeyedAsyncGate\<close>, \<open>AssetLock\<close>, \<open>ProtectedAssetGate\<close>, \<open>ResourceGate\<close>:
    \<open>shared/concurrency/classes/AsyncGate.js\<close>. A queue or lock is a record of the class's fields and
    of the waiters it has created; an event is a call of a method or a callback (a timer, an abort,
    the end of a started operation, a microtask). \<open>Registry\<close> is the map from keys to gates that two of
    the classes keep, with the microtask that drops an idle gate; its interface is \<open>idle_registry\<close>.
    \<open>ResourceGate\<close> is \<open>AsyncResourceGate\<close> with the release barriers of a write.
  \<^item> \<open>ScopePaths\<close>: \<open>shared/scope/functions/path.js\<close>.
  \<^item> \<open>WorkItemOrder\<close>: \<open>domains/queue/functions/work-item-order.js\<close>.
  \<^item> \<open>QueueDb\<close>: the tables and status lists (\<open>catalog/job.js\<close>, \<open>catalog/work-item.js\<close>) that the queue
    functions read and write, and their queries over the job graph; \<open>JobGraph\<close>: what the recursive queries return.
  \<^item> \<open>FileLocks\<close>, \<open>FileLockSafety\<close>: \<open>domains/queue/functions/file-locks.js\<close>, its operations and, as a state
    machine over the database, what they guarantee; \<open>LaneWaits\<close>: the table of work items that wait for a file
    lane.
  \<^item> \<open>Dependencies\<close>: \<open>domains/queue/functions/dependencies.js\<close>.
  \<^item> \<open>LeaseClock\<close>, \<open>Attempts\<close>, \<open>Leases\<close>, \<open>LeaseSafety\<close>, \<open>LeaseTypes\<close>: \<open>lease-clock.js\<close>, \<open>attempts.js\<close>,
    \<open>leases.js\<close> and the lease sweeps of \<open>queue-store.js\<close>, with the state they leave a job row in.
  \<^item> \<open>SchedulerLocks\<close>: \<open>locks.js\<close>, the scheduler and merge locks, and an abstract map from lock names to holders that
    they refine.
  \<^item> \<open>CrossWiDeps\<close>, \<open>MergeOrder\<close>, \<open>WorkItemParking\<close>: \<open>cross-wi-deps.js\<close> and the merge and operator parking of
    \<open>work-item-dispositions.js\<close> and \<open>queue-store.js\<close>.
  \<^item> \<open>AdmissionBudget\<close>: \<open>admission-budget.js\<close>, the money that calls reserve, settle and overrun.
  \<^item> \<open>GateContracts\<close>: \<open>catalog/human-input.js\<close>, what an operator may answer to which question. \<open>HumanGates\<close>:
    \<open>human-gates.js\<close> and \<open>human-gate-decisions.js\<close>, the durable gates with their outbox and reconciliation sweep;
    \<open>HumanGateSafety\<close> and \<open>HumanGateRecovery\<close>: what they promise.
  \<^item> \<open>WorkItemStatus\<close>: the state of work items in \<open>queue-store.js\<close>, with \<open>job-recovery-graph.js\<close> and
    \<open>work-item-execution-contract.js\<close>: the status computed from the jobs, the status change and its guards, completion, the merge state
    and what reopens a work item. \<open>WorkItemStatusSafety\<close>: what lasts (locale \<open>lasting_state\<close>), what completion and a refresh promise.

  What the lemmas show. The gates bound concurrency, exclude, settle every promise once, keep their
  order, drop idle keys and stay closed; a release barrier stands exactly while a write of its key is under way. Roots overlap
  exactly when a path lies under both, and path normalization is canonical. The work-item order is total,
  respects its constraints and its waits never cycle, and a work item is parked exactly when what it waits for cannot
  end without an operator. Work items never hold overlapping locks, and writers of different work items
  never have overlapping scopes, in any database reachable from an idle one; the steps that the
  guarantee excludes are spelled out in \<open>fl_allowed\<close>. The dependency graph and the merge graph stay acyclic, and an
  acyclic queue without reported deadlocks can make progress. The lease clock is monotone, attempt numbers are unique,
  a lapsed or foreign lease token changes nothing, and a sweep takes a job only from a worker whose lease is gone. The
  spending of a work item never passes its limit as long as calls report no more than they reserved, and a settled
  receipt never changes. At most one answer to a human gate is accepted, a closed gate never changes,
  repeating an accepted answer is harmless, and a sweep leaves no gate stuck, whatever state a crash left. Completion
  of a work item is earned, a landed merge always completes it and nothing but an explicit reopening takes it back, ended work items do not
  restart, an authorized merge freezes the status, and a refresh reaches the status that the jobs give.

  Conventions. A SQL statement is a map or filter over the list of rows of its table; a statement
  that violates a constraint is an error value and leaves the database unchanged. Text of a clock
  is an argument where the code calls \<open>now()\<close>; the gates and the budget compare times, which are whole milliseconds
  there. Dollars are rationals, so sums are exact. SHA-256 and payload fingerprints are arguments, and so is what a status change does to other gates (\<open>hooks\<close>). The recursive queries
  are closures with as many rounds as the table has edges, which is enough (\<open>dep_chain_reaches\<close>); the merge-parking
  closure has one round more than there are work items, which is enough (\<open>merge_parking_terminates\<close>). Every other loop is
  structural recursion or has a termination measure.

  Not modelled: the events and wake-ups the queue emits; reviewed
  handoffs and cross-work-item file copies, which are taken as switched off; provenance and
  rollback of pending file syncs; of the queue store, the creation of jobs and work items, runnable queries, how the jobs of a
  rejected work item are reworked and whether its text asks for changes to the repository (the last two are arguments of
  \<open>WorkItemStatus\<close>); interaction contracts (the text of prompts and answers); process
  management, provider protocols, the code index, storage migrations and the user interface, which are input
  and output around what is modelled.
\<close>

end
